(* ===== verification/Kernel_Prelude.thy ===== *)
theory Kernel_Prelude
  imports Main "HOL-Library.Word" "HOL-Library.Monad_Syntax"
begin

text \<open>
  Shared vocabulary of the development: names for the C integer types the kernel
  sources use (LP64 model: \<open>size_t\<close> is 64 bits wide, \<open>int\<close> and \<open>u_int\<close> are 32 bits
  wide), checked array access, and the generic facts on lists, options and bit
  masks that the component theories rely on.  Collections:
  \<^item> \<open>bit_mask\<close>: rewriting of single bits of masks built by the C operators;
  \<^item> \<open>array_simps\<close>: checked reads and writes of arrays modelled as lists.
\<close>

unbundle bit_operations_syntax

type_synonym u8 = "8 word"
type_synonym u16 = "16 word"
type_synonym u32 = "32 word"
type_synonym u64 = "64 word"

named_theorems bit_mask \<open>bits of masks built with the C operators\<close>
named_theorems array_simps \<open>checked array accesses\<close>

section \<open>Checked arrays\<close>

text \<open>A read of a C array: \<open>None\<close> is an access outside the array.\<close>

definition aget :: "'a list \<Rightarrow> nat \<Rightarrow> 'a option" where
  "aget xs i = (if i < length xs then Some (xs ! i) else None)"

lemma aget_Some_iff [array_simps]: "aget xs i = Some x \<longleftrightarrow> i < length xs \<and> xs ! i = x"
  by (auto simp: aget_def)

lemma aget_None_iff [array_simps]: "aget xs i = None \<longleftrightarrow> length xs \<le> i"
  by (auto simp: aget_def)

lemma aget_in_range [simp]: "i < length xs \<Longrightarrow> aget xs i = Some (xs ! i)"
  by (simp add: aget_def)

text \<open>A write of an array element, a copy out of and into an array (\<open>memcpy\<close>), and a pointer
  difference; \<open>None\<close> is a write or read outside the array or a negative difference.\<close>

definition aput :: "'a list \<Rightarrow> nat \<Rightarrow> 'a \<Rightarrow> 'a list option" where
  "aput xs i x = (if i < length xs then Some (xs[i := x]) else None)"

definition aslice :: "'a list \<Rightarrow> nat \<Rightarrow> nat \<Rightarrow> 'a list option" where
  "aslice xs i n = (if i + n \<le> length xs then Some (take n (drop i xs)) else None)"

definition acopy :: "'a list \<Rightarrow> nat \<Rightarrow> 'a list \<Rightarrow> 'a list option" where
  "acopy xs i ys =
     (if i + length ys \<le> length xs then Some (take i xs @ ys @ drop (i + length ys) xs) else None)"

definition psub :: "nat \<Rightarrow> nat \<Rightarrow> nat option" where
  "psub a b = (if b \<le> a then Some (a - b) else None)"

lemma aput_in_range [simp]: "i < length xs \<Longrightarrow> aput xs i x = Some (xs[i := x])"
  by (simp add: aput_def)

lemma aslice_in_range [simp]: "i + n \<le> length xs \<Longrightarrow> aslice xs i n = Some (take n (drop i xs))"
  by (simp add: aslice_def)

lemma acopy_in_range [simp]:
  "i + length ys \<le> length xs \<Longrightarrow> acopy xs i ys = Some (take i xs @ ys @ drop (i + length ys) xs)"
  by (simp add: acopy_def)

lemma psub_le [simp]: "b \<le> a \<Longrightarrow> psub a b = Some (a - b)"
  by (simp add: psub_def)

lemma acopy_nth:
  assumes "i + length ys \<le> length xs" "k < length xs"
  shows "(take i xs @ ys @ drop (i + length ys) xs) ! k =
    (if i \<le> k \<and> k < i + length ys then ys ! (k - i) else xs ! k)"
  using assms by (auto simp: nth_append min_def)

section \<open>Lists\<close>

lemma find_append_None: "find P xs = None \<Longrightarrow> find P (xs @ ys) = find P ys"
  by (induction xs) (auto split: if_splits)

section \<open>Bit masks\<close>

text \<open>The C expression \<open>(uint32_t)1 << k\<close>.\<close>

definition bit_of :: "nat \<Rightarrow> 'a::len word" where
  "bit_of k = push_bit k 1"

lemma bit_bit_of [bit_mask]:
  "bit (bit_of k :: 'a::len word) n \<longleftrightarrow> n = k \<and> k < LENGTH('a)"
  by (auto simp: bit_of_def bit_push_bit_iff bit_1_iff simp del: push_bit_of_1)

lemma and_bit_of_eq_0 [bit_mask]:
  assumes k: "k < LENGTH('a)"
  shows "((w::'a::len word) AND bit_of k = 0) = (\<not> bit w k)"
proof
  assume z: "w AND bit_of k = 0"
  then show "\<not> bit w k"
    using k by (metis bit_and_iff bit_bit_of bit_0_eq bot_apply bot_bool_def)
next
  assume "\<not> bit w k"
  then show "w AND bit_of k = 0"
    by (intro bit_word_eqI) (auto simp: bit_and_iff bit_bit_of)
qed

lemmas bit_mask_logic [bit_mask] = bit_or_iff bit_and_iff bit_not_iff_eq bit_xor_iff

lemma unat_add_no_wrap:
  "unat (a::'a::len word) + unat b < 2 ^ LENGTH('a) \<Longrightarrow> unat (a + b) = unat a + unat b"
  by (simp add: unat_word_ariths)

lemma unat_of_nat_small:
  "n < 2 ^ LENGTH('a) \<Longrightarrow> unat (of_nat n :: 'a::len word) = n"
  by (simp add: unsigned_of_nat take_bit_nat_eq_self)

lemma unat_ucast_up:
  assumes "LENGTH('a::len) \<le> LENGTH('b::len)"
  shows "unat (ucast (w::'a word) :: 'b word) = unat w"
proof -
  have "unat w < 2 ^ LENGTH('a)" by simp
  also have "\<dots> \<le> 2 ^ LENGTH('b)" using assms by simp
  finally show ?thesis by (simp add: unsigned_ucast_eq take_bit_nat_eq_self)
qed

lemma unat_ucast_u32_u64 [simp]: "unat (ucast (k::u32) :: u64) = unat k"
  by (rule unat_ucast_up) simp

lemma unat_ucast_u8_u32 [simp]: "unat (ucast (k::u8) :: u32) = unat k"
  by (rule unat_ucast_up) simp

end
