(* ===== verification/Bpf_Filter.thy ===== *)
theory Bpf_Filter
  imports Kernel_Prelude
begin

text \<open>
  The Berkeley Packet Filter virtual machine, \<^verbatim>\<open>sys/net/bpf_filter.c\<close> with the
  encodings of \<^verbatim>\<open>sys/net/bpf.h\<close>, in its kernel configuration (\<open>_KERNEL\<close> defined):
  the packet access routines \<open>m_xword\<close>, \<open>m_xhalf\<close>, \<open>m_xbyte\<close> over mbuf chains, the
  interpreter \<open>bpf_filter_ext\<close> and the static checker \<open>bpf_validate_ext\<close>.

  What C leaves undefined is a value of type \<open>bpf_fault\<close>: reading an instruction
  outside the program, a scratch word outside the store or never written, a packet
  byte outside the packet, dividing by a zero constant, shifting a 32-bit value by 32
  or more, or following a null context.
\<close>

section \<open>Instruction encodings\<close>

record bpf_insn =
  bi_code :: u16
  bi_jt :: u8
  bi_jf :: u8
  bi_k :: u32

definition BPF_CLASS :: "u16 \<Rightarrow> u16" where "BPF_CLASS c = c AND 0x07"
definition BPF_SIZE :: "u16 \<Rightarrow> u16" where "BPF_SIZE c = c AND 0x18"
definition BPF_MODE :: "u16 \<Rightarrow> u16" where "BPF_MODE c = c AND 0xe0"
definition BPF_OP :: "u16 \<Rightarrow> u16" where "BPF_OP c = c AND 0xf0"
definition BPF_SRC :: "u16 \<Rightarrow> u16" where "BPF_SRC c = c AND 0x08"
definition BPF_MISCOP :: "u16 \<Rightarrow> u16" where "BPF_MISCOP c = c AND 0xf8"

lemmas bpf_field_defs =
  BPF_CLASS_def BPF_SIZE_def BPF_MODE_def BPF_OP_def BPF_SRC_def BPF_MISCOP_def

abbreviation (input) BPF_LD :: u16 where "BPF_LD \<equiv> 0x00"
abbreviation (input) BPF_LDX :: u16 where "BPF_LDX \<equiv> 0x01"
abbreviation (input) BPF_ST :: u16 where "BPF_ST \<equiv> 0x02"
abbreviation (input) BPF_STX :: u16 where "BPF_STX \<equiv> 0x03"
abbreviation (input) BPF_ALU :: u16 where "BPF_ALU \<equiv> 0x04"
abbreviation (input) BPF_JMP :: u16 where "BPF_JMP \<equiv> 0x05"
abbreviation (input) BPF_RET :: u16 where "BPF_RET \<equiv> 0x06"
abbreviation (input) BPF_MISC :: u16 where "BPF_MISC \<equiv> 0x07"

abbreviation (input) BPF_W :: u16 where "BPF_W \<equiv> 0x00"
abbreviation (input) BPF_H :: u16 where "BPF_H \<equiv> 0x08"
abbreviation (input) BPF_B :: u16 where "BPF_B \<equiv> 0x10"

abbreviation (input) BPF_IMM :: u16 where "BPF_IMM \<equiv> 0x00"
abbreviation (input) BPF_ABS :: u16 where "BPF_ABS \<equiv> 0x20"
abbreviation (input) BPF_IND :: u16 where "BPF_IND \<equiv> 0x40"
abbreviation (input) BPF_MEM :: u16 where "BPF_MEM \<equiv> 0x60"
abbreviation (input) BPF_LEN :: u16 where "BPF_LEN \<equiv> 0x80"
abbreviation (input) BPF_MSH :: u16 where "BPF_MSH \<equiv> 0xa0"

abbreviation (input) BPF_ADD :: u16 where "BPF_ADD \<equiv> 0x00"
abbreviation (input) BPF_SUB :: u16 where "BPF_SUB \<equiv> 0x10"
abbreviation (input) BPF_MUL :: u16 where "BPF_MUL \<equiv> 0x20"
abbreviation (input) BPF_DIV :: u16 where "BPF_DIV \<equiv> 0x30"
abbreviation (input) BPF_OR :: u16 where "BPF_OR \<equiv> 0x40"
abbreviation (input) BPF_AND :: u16 where "BPF_AND \<equiv> 0x50"
abbreviation (input) BPF_LSH :: u16 where "BPF_LSH \<equiv> 0x60"
abbreviation (input) BPF_RSH :: u16 where "BPF_RSH \<equiv> 0x70"
abbreviation (input) BPF_NEG :: u16 where "BPF_NEG \<equiv> 0x80"
abbreviation (input) BPF_MOD :: u16 where "BPF_MOD \<equiv> 0x90"
abbreviation (input) BPF_XOR :: u16 where "BPF_XOR \<equiv> 0xa0"

abbreviation (input) BPF_JA :: u16 where "BPF_JA \<equiv> 0x00"
abbreviation (input) BPF_JEQ :: u16 where "BPF_JEQ \<equiv> 0x10"
abbreviation (input) BPF_JGT :: u16 where "BPF_JGT \<equiv> 0x20"
abbreviation (input) BPF_JGE :: u16 where "BPF_JGE \<equiv> 0x30"
abbreviation (input) BPF_JSET :: u16 where "BPF_JSET \<equiv> 0x40"

abbreviation (input) BPF_K :: u16 where "BPF_K \<equiv> 0x00"
abbreviation (input) BPF_X :: u16 where "BPF_X \<equiv> 0x08"
abbreviation (input) BPF_A :: u16 where "BPF_A \<equiv> 0x10"

abbreviation (input) BPF_TAX :: u16 where "BPF_TAX \<equiv> 0x00"
abbreviation (input) BPF_COP :: u16 where "BPF_COP \<equiv> 0x20"
abbreviation (input) BPF_COPX :: u16 where "BPF_COPX \<equiv> 0x40"
abbreviation (input) BPF_TXA :: u16 where "BPF_TXA \<equiv> 0x80"

abbreviation (input) BPF_MEMWORDS :: u64 where "BPF_MEMWORDS \<equiv> 16"
abbreviation (input) BPF_MAX_MEMWORDS :: u64 where "BPF_MAX_MEMWORDS \<equiv> 30"
abbreviation (input) BPF_MAXINSNS :: u32 where "BPF_MAXINSNS \<equiv> 512"

text \<open>
  The labels of the \<open>switch (pc->code)\<close> of the interpreter, as a table from the
  16-bit code to the case it selects; a code that is not in the table takes the
  \<open>default\<close> label.
\<close>

datatype bpf_size = SzW | SzH | SzB

datatype bpf_src = SrcK | SrcX

datatype bpf_cond = JGT | JGE | JEQ | JSET

datatype bpf_alu_op = ADD | SUB | MUL | DIV | MOD | ANDop | ORop | XORop | LSH | RSH

datatype bpf_case =
    RetK | RetA
  | LdAbs bpf_size | LdInd bpf_size | LdLen | LdxLen | LdxMsh
  | LdImm | LdxImm | LdMem | LdxMem | St | Stx
  | Ja | Jcc bpf_cond bpf_src
  | Alu bpf_alu_op bpf_src | Neg
  | Tax | Txa | Cop | Copx

definition bpf_cases :: "(u16 \<times> bpf_case) list" where
  "bpf_cases =
    [(BPF_RET OR BPF_K, RetK),
     (BPF_RET OR BPF_A, RetA),
     (BPF_LD OR BPF_W OR BPF_ABS, LdAbs SzW),
     (BPF_LD OR BPF_H OR BPF_ABS, LdAbs SzH),
     (BPF_LD OR BPF_B OR BPF_ABS, LdAbs SzB),
     (BPF_LD OR BPF_W OR BPF_LEN, LdLen),
     (BPF_LDX OR BPF_W OR BPF_LEN, LdxLen),
     (BPF_LD OR BPF_W OR BPF_IND, LdInd SzW),
     (BPF_LD OR BPF_H OR BPF_IND, LdInd SzH),
     (BPF_LD OR BPF_B OR BPF_IND, LdInd SzB),
     (BPF_LDX OR BPF_MSH OR BPF_B, LdxMsh),
     (BPF_LD OR BPF_IMM, LdImm),
     (BPF_LDX OR BPF_IMM, LdxImm),
     (BPF_LD OR BPF_MEM, LdMem),
     (BPF_LDX OR BPF_MEM, LdxMem),
     (BPF_ST, St),
     (BPF_STX, Stx),
     (BPF_JMP OR BPF_JA, Ja),
     (BPF_JMP OR BPF_JGT OR BPF_K, Jcc JGT SrcK),
     (BPF_JMP OR BPF_JGE OR BPF_K, Jcc JGE SrcK),
     (BPF_JMP OR BPF_JEQ OR BPF_K, Jcc JEQ SrcK),
     (BPF_JMP OR BPF_JSET OR BPF_K, Jcc JSET SrcK),
     (BPF_JMP OR BPF_JGT OR BPF_X, Jcc JGT SrcX),
     (BPF_JMP OR BPF_JGE OR BPF_X, Jcc JGE SrcX),
     (BPF_JMP OR BPF_JEQ OR BPF_X, Jcc JEQ SrcX),
     (BPF_JMP OR BPF_JSET OR BPF_X, Jcc JSET SrcX),
     (BPF_ALU OR BPF_ADD OR BPF_X, Alu ADD SrcX),
     (BPF_ALU OR BPF_SUB OR BPF_X, Alu SUB SrcX),
     (BPF_ALU OR BPF_MUL OR BPF_X, Alu MUL SrcX),
     (BPF_ALU OR BPF_DIV OR BPF_X, Alu DIV SrcX),
     (BPF_ALU OR BPF_MOD OR BPF_X, Alu MOD SrcX),
     (BPF_ALU OR BPF_AND OR BPF_X, Alu ANDop SrcX),
     (BPF_ALU OR BPF_OR OR BPF_X, Alu ORop SrcX),
     (BPF_ALU OR BPF_XOR OR BPF_X, Alu XORop SrcX),
     (BPF_ALU OR BPF_LSH OR BPF_X, Alu LSH SrcX),
     (BPF_ALU OR BPF_RSH OR BPF_X, Alu RSH SrcX),
     (BPF_ALU OR BPF_ADD OR BPF_K, Alu ADD SrcK),
     (BPF_ALU OR BPF_SUB OR BPF_K, Alu SUB SrcK),
     (BPF_ALU OR BPF_MUL OR BPF_K, Alu MUL SrcK),
     (BPF_ALU OR BPF_DIV OR BPF_K, Alu DIV SrcK),
     (BPF_ALU OR BPF_MOD OR BPF_K, Alu MOD SrcK),
     (BPF_ALU OR BPF_AND OR BPF_K, Alu ANDop SrcK),
     (BPF_ALU OR BPF_OR OR BPF_K, Alu ORop SrcK),
     (BPF_ALU OR BPF_XOR OR BPF_K, Alu XORop SrcK),
     (BPF_ALU OR BPF_LSH OR BPF_K, Alu LSH SrcK),
     (BPF_ALU OR BPF_RSH OR BPF_K, Alu RSH SrcK),
     (BPF_ALU OR BPF_NEG, Neg),
     (BPF_MISC OR BPF_TAX, Tax),
     (BPF_MISC OR BPF_TXA, Txa),
     (BPF_MISC OR BPF_COP, Cop),
     (BPF_MISC OR BPF_COPX, Copx)]"

section \<open>Packets\<close>

text \<open>
  The packet pointer of \<open>bpf_args_t\<close>: with a non-zero \<open>buflen\<close> it addresses a
  contiguous buffer, with \<open>buflen = 0\<close> it is a \<open>struct mbuf *\<close>.  A chain is the list
  of the mbufs' data areas, the first mbuf first.
\<close>

datatype bpf_pkt = PktBuf "u8 list" | PktMbuf "u8 list list"

text \<open>\<open>be32dec\<close> and \<open>be16dec\<close> of four and two bytes.\<close>

definition be32 :: "u8 \<Rightarrow> u8 \<Rightarrow> u8 \<Rightarrow> u8 \<Rightarrow> u32" where
  "be32 a b c d =
     push_bit 24 (ucast a) OR push_bit 16 (ucast b) OR push_bit 8 (ucast c) OR ucast d"

definition be16 :: "u8 \<Rightarrow> u8 \<Rightarrow> u32" where
  "be16 a b = push_bit 8 (ucast a) OR ucast b"

definition EXTRACT_LONG :: "u8 list \<Rightarrow> nat \<Rightarrow> u32 option" where
  "EXTRACT_LONG p k =
     (if k + 3 < length p then Some (be32 (p ! k) (p ! (k + 1)) (p ! (k + 2)) (p ! (k + 3)))
      else None)"

definition EXTRACT_SHORT :: "u8 list \<Rightarrow> nat \<Rightarrow> u32 option" where
  "EXTRACT_SHORT p k =
     (if k + 1 < length p then Some (be16 (p ! k) (p ! (k + 1))) else None)"

definition EXTRACT_BYTE :: "u8 list \<Rightarrow> nat \<Rightarrow> u32 option" where
  "EXTRACT_BYTE p k = map_option ucast (aget p k)"

text \<open>The result of an \<open>m_x\<close> routine: \<open>*err = 1\<close>, a value with \<open>*err = 0\<close>, or a read
  outside the data of an mbuf.\<close>

datatype mx = MxErr | MxVal u32 | MxOob

text \<open>\<open>MINDEX\<close>: walk to the mbuf that holds offset \<open>k\<close>; \<open>None\<close> is its \<open>return 0\<close>
  (with \<open>*err\<close> still 1).\<close>

fun MINDEX :: "u8 list list \<Rightarrow> nat \<Rightarrow> (u8 list \<times> u8 list list \<times> nat) option" where
  "MINDEX [] k = None"
| "MINDEX (m # ms) k =
     (if length m \<le> k then MINDEX ms (k - length m) else Some (m, ms, k))"

definition mx_opt :: "u32 option \<Rightarrow> mx" where
  "mx_opt v = (case v of None \<Rightarrow> MxOob | Some w \<Rightarrow> MxVal w)"

definition m_xword :: "u8 list list \<Rightarrow> u32 \<Rightarrow> mx" where
  "m_xword m k0 =
     (if m = [] then MxOob
      else case MINDEX m (unat k0) of
        None \<Rightarrow> MxErr
      | Some (cp, next, k) \<Rightarrow>
          (let left = length cp - k in
           if 4 \<le> left then mx_opt (EXTRACT_LONG cp k)
           else case next of
             [] \<Rightarrow> MxErr
           | np # _ \<Rightarrow>
               if left + length np < 4 then MxErr
               else if left = 1 then MxVal (be32 (cp ! k) (np ! 0) (np ! 1) (np ! 2))
               else if left = 2 then MxVal (be32 (cp ! k) (cp ! (k + 1)) (np ! 0) (np ! 1))
               else MxVal (be32 (cp ! k) (cp ! (k + 1)) (cp ! (k + 2)) (np ! 0))))"

definition m_xhalf :: "u8 list list \<Rightarrow> u32 \<Rightarrow> mx" where
  "m_xhalf m k0 =
     (if m = [] then MxOob
      else case MINDEX m (unat k0) of
        None \<Rightarrow> MxErr
      | Some (cp, next, k) \<Rightarrow>
          if 2 \<le> length cp - k then mx_opt (EXTRACT_SHORT cp k)
          else case next of
            [] \<Rightarrow> MxErr
          | np # _ \<Rightarrow> (case np of [] \<Rightarrow> MxOob | b # _ \<Rightarrow> MxVal (be16 (cp ! k) b)))"

definition m_xbyte :: "u8 list list \<Rightarrow> u32 \<Rightarrow> mx" where
  "m_xbyte m k0 =
     (if m = [] then MxOob
      else case MINDEX m (unat k0) of
        None \<Rightarrow> MxErr
      | Some (cp, next, k) \<Rightarrow> MxVal (ucast (cp ! k)))"

section \<open>The interpreter\<close>

datatype bpf_fault =
    FaultPC | FaultMem | FaultUninit | FaultPkt | FaultDivZero | FaultShift | FaultNullCtx

text \<open>
  The scratch store holds \<open>None\<close> in a word that was never written (automatic storage
  of \<open>bpf_filter\<close>, or an external store the caller did not initialise).
\<close>

record bpf_args =
  ba_pkt :: bpf_pkt
  ba_wirelen :: u64
  ba_buflen :: u64
  ba_mem :: "u32 option list"

text \<open>
  A coprocessor function is code the caller supplies: a parameter of the model.  It
  reads and may update the arguments (it gets a pointer to them), and returns the new
  accumulator.  \<open>None\<close> in \<open>bc_copfuncs\<close> is a null table.
\<close>

type_synonym bpf_copfunc = "bpf_args \<Rightarrow> u32 \<Rightarrow> bpf_args \<times> u32"

record bpf_ctx =
  bc_copfuncs :: "bpf_copfunc list option"
  bc_nfuncs :: u64
  bc_extwords :: u64
  bc_preinited :: u32

definition bpf_create :: bpf_ctx where
  "bpf_create = \<lparr>bc_copfuncs = None, bc_nfuncs = 0, bc_extwords = 0, bc_preinited = 0\<rparr>"

definition bpf_set_cop :: "bpf_ctx \<Rightarrow> bpf_copfunc list option \<Rightarrow> u64 \<Rightarrow> bpf_ctx \<times> int" where
  "bpf_set_cop bc funcs n = (bc\<lparr>bc_copfuncs := funcs, bc_nfuncs := n\<rparr>, 0)"

definition EINVAL :: int where "EINVAL = 22"

definition bpf_set_extmem :: "bpf_ctx \<Rightarrow> u64 \<Rightarrow> u32 \<Rightarrow> bpf_ctx \<times> int" where
  "bpf_set_extmem bc nwords preinited =
     (if BPF_MAX_MEMWORDS < nwords \<or> drop_bit (unat nwords) preinited \<noteq> 0 then (bc, EINVAL)
      else (bc\<lparr>bc_extwords := nwords, bc_preinited := preinited\<rparr>, 0))"

text \<open>\<open>bs_p\<close> is the local variable \<open>p\<close>, the packet pointer read once at entry; the contiguous
  reads use it, the mbuf reads follow \<open>args->pkt\<close>.  \<open>bs_pc\<close> is the distance of the pointer
  \<open>pc\<close> from the program in instructions of eight bytes, so that on 64-bit pointers it
  wraps at \<open>2^61\<close>.\<close>

record bpf_state =
  bs_A :: u32
  bs_X :: u32
  bs_pc :: nat
  bs_p :: bpf_pkt
  bs_args :: bpf_args

definition pc_plus :: "nat \<Rightarrow> nat \<Rightarrow> nat" where
  "pc_plus pc n = (pc + n) mod 2 ^ 61"

text \<open>What one pass through the loop body does: \<open>continue\<close> with the program counter
  already advanced by the \<open>++pc\<close> of the next iteration, \<open>return\<close>, or undefined
  behaviour.\<close>

datatype bpf_out = Next bpf_state | Ret u32 | Fault bpf_fault

text \<open>The outcome of a packet load: a value, \<open>return 0\<close>, or undefined behaviour.\<close>

datatype bpf_load = LdVal u32 | LdReject | LdFault

definition load_buf :: "bpf_size \<Rightarrow> bpf_pkt \<Rightarrow> u32 \<Rightarrow> bpf_load" where
  "load_buf sz p k =
     (case p of
        PktMbuf _ \<Rightarrow> LdFault
      | PktBuf b \<Rightarrow>
          (case (case sz of SzW \<Rightarrow> EXTRACT_LONG b (unat k)
                 | SzH \<Rightarrow> EXTRACT_SHORT b (unat k)
                 | SzB \<Rightarrow> EXTRACT_BYTE b (unat k)) of
             None \<Rightarrow> LdFault | Some v \<Rightarrow> LdVal v))"

definition load_mbuf :: "bpf_size \<Rightarrow> bpf_pkt \<Rightarrow> u32 \<Rightarrow> bpf_load" where
  "load_mbuf sz p k =
     (case p of
        PktBuf _ \<Rightarrow> LdFault
      | PktMbuf m \<Rightarrow>
          (case (case sz of SzW \<Rightarrow> m_xword m k | SzH \<Rightarrow> m_xhalf m k | SzB \<Rightarrow> m_xbyte m k) of
             MxErr \<Rightarrow> LdReject | MxOob \<Rightarrow> LdFault | MxVal v \<Rightarrow> LdVal v))"

text \<open>The guards of the absolute loads.\<close>

definition beyond_abs :: "bpf_size \<Rightarrow> u64 \<Rightarrow> u32 \<Rightarrow> bool" where
  "beyond_abs sz buflen k =
     (case sz of
        SzW \<Rightarrow> buflen < ucast k \<or> buflen - ucast k < 4
      | SzH \<Rightarrow> buflen < ucast k \<or> buflen - ucast k < 2
      | SzB \<Rightarrow> buflen \<le> ucast k)"

definition bpf_ld_abs :: "bpf_size \<Rightarrow> bpf_pkt \<Rightarrow> bpf_args \<Rightarrow> u32 \<Rightarrow> bpf_load" where
  "bpf_ld_abs sz p args k =
     (if beyond_abs sz (ba_buflen args) k then
        (if ba_buflen args \<noteq> 0 then LdReject else load_mbuf sz (ba_pkt args) k)
      else load_buf sz p k)"

text \<open>The guards of the indirect loads, on \<open>k = X + pc->k\<close>.\<close>

definition beyond_ind :: "bpf_size \<Rightarrow> u64 \<Rightarrow> u32 \<Rightarrow> bool" where
  "beyond_ind sz buflen k =
     (case sz of
        SzW \<Rightarrow> buflen \<le> ucast k \<or> buflen - ucast k < 4
      | SzH \<Rightarrow> buflen \<le> ucast k \<or> buflen - ucast k < 2
      | SzB \<Rightarrow> buflen \<le> ucast k)"

definition bpf_ld_ind :: "bpf_size \<Rightarrow> bpf_pkt \<Rightarrow> bpf_args \<Rightarrow> u32 \<Rightarrow> u32 \<Rightarrow> bpf_load" where
  "bpf_ld_ind sz p args X pck =
     (let k = X + pck in
      if k < X \<or> beyond_ind sz (ba_buflen args) k then
        (if k < X \<or> ba_buflen args \<noteq> 0 then LdReject else load_mbuf sz (ba_pkt args) k)
      else load_buf sz p k)"

definition advance :: "bpf_state \<Rightarrow> bpf_out" where
  "advance s = Next (s\<lparr>bs_pc := pc_plus (bs_pc s) 1\<rparr>)"

definition load_A :: "bpf_state \<Rightarrow> bpf_load \<Rightarrow> bpf_out" where
  "load_A s l =
     (case l of LdVal v \<Rightarrow> advance (s\<lparr>bs_A := v\<rparr>) | LdReject \<Rightarrow> Ret 0 | LdFault \<Rightarrow> Fault FaultPkt)"

text \<open>\<open>X = (byte & 0xf) << 2\<close>.\<close>

definition load_msh :: "bpf_state \<Rightarrow> bpf_load \<Rightarrow> bpf_out" where
  "load_msh s l =
     (case l of LdVal v \<Rightarrow> advance (s\<lparr>bs_X := push_bit 2 (v AND 0xf)\<rparr>)
      | LdReject \<Rightarrow> Ret 0 | LdFault \<Rightarrow> Fault FaultPkt)"

text \<open>Scratch memory accesses \<open>args->mem[k]\<close>.\<close>

definition mem_read :: "bpf_args \<Rightarrow> u32 \<Rightarrow> bpf_fault + u32" where
  "mem_read args k =
     (case aget (ba_mem args) (unat k) of
        None \<Rightarrow> Inl FaultMem | Some None \<Rightarrow> Inl FaultUninit | Some (Some v) \<Rightarrow> Inr v)"

definition mem_write :: "bpf_args \<Rightarrow> u32 \<Rightarrow> u32 \<Rightarrow> bpf_fault + bpf_args" where
  "mem_write args k v =
     (if unat k < length (ba_mem args) then Inr (args\<lparr>ba_mem := (ba_mem args)[unat k := Some v]\<rparr>)
      else Inl FaultMem)"

definition store_word :: "bpf_state \<Rightarrow> u32 \<Rightarrow> u32 \<Rightarrow> bpf_out" where
  "store_word s k v =
     (case mem_write (bs_args s) k v of
        Inl e \<Rightarrow> Fault e | Inr args \<Rightarrow> advance (s\<lparr>bs_args := args\<rparr>))"

definition cond_holds :: "bpf_cond \<Rightarrow> u32 \<Rightarrow> u32 \<Rightarrow> bool" where
  "cond_holds c A y =
     (case c of JGT \<Rightarrow> y < A | JGE \<Rightarrow> y \<le> A | JEQ \<Rightarrow> A = y | JSET \<Rightarrow> A AND y \<noteq> 0)"

definition branch :: "bpf_state \<Rightarrow> bpf_insn \<Rightarrow> bool \<Rightarrow> bpf_out" where
  "branch s i b = Next (s\<lparr>bs_pc := pc_plus (bs_pc s) (unat (if b then bi_jt i else bi_jf i) + 1)\<rparr>)"

text \<open>Arithmetic.  With the register \<open>X\<close> as divisor, zero makes the filter return 0;
  a constant divisor is not checked at run time.\<close>

definition alu_exec :: "bpf_alu_op \<Rightarrow> bpf_src \<Rightarrow> u32 \<Rightarrow> u32 \<Rightarrow> bpf_load + bpf_fault" where
  "alu_exec op src A y =
     (case op of
        ADD \<Rightarrow> Inl (LdVal (A + y))
      | SUB \<Rightarrow> Inl (LdVal (A - y))
      | MUL \<Rightarrow> Inl (LdVal (A * y))
      | DIV \<Rightarrow> (if y = 0 then (case src of SrcX \<Rightarrow> Inl LdReject | SrcK \<Rightarrow> Inr FaultDivZero)
                else Inl (LdVal (A div y)))
      | MOD \<Rightarrow> (if y = 0 then (case src of SrcX \<Rightarrow> Inl LdReject | SrcK \<Rightarrow> Inr FaultDivZero)
                else Inl (LdVal (A mod y)))
      | ANDop \<Rightarrow> Inl (LdVal (A AND y))
      | ORop \<Rightarrow> Inl (LdVal (A OR y))
      | XORop \<Rightarrow> Inl (LdVal (A XOR y))
      | LSH \<Rightarrow> (if 32 \<le> unat y then Inr FaultShift else Inl (LdVal (push_bit (unat y) A)))
      | RSH \<Rightarrow> (if 32 \<le> unat y then Inr FaultShift else Inl (LdVal (drop_bit (unat y) A))))"

definition alu_step :: "bpf_state \<Rightarrow> bpf_alu_op \<Rightarrow> bpf_src \<Rightarrow> u32 \<Rightarrow> bpf_out" where
  "alu_step s op src y =
     (case alu_exec op src (bs_A s) y of Inr e \<Rightarrow> Fault e | Inl l \<Rightarrow> load_A s l)"

text \<open>\<open>BPF_COP\<close> and \<open>BPF_COPX\<close>: function number \<open>n\<close> of the context's table.\<close>

definition cop_call :: "bpf_ctx option \<Rightarrow> bpf_state \<Rightarrow> u32 \<Rightarrow> bpf_out" where
  "cop_call bc s n =
     (case bc of
        None \<Rightarrow> Fault FaultNullCtx
      | Some c \<Rightarrow>
          if ucast n < bc_nfuncs c then
            (case bc_copfuncs c of
               None \<Rightarrow> Fault FaultNullCtx
             | Some fs \<Rightarrow>
                 (case aget fs (unat n) of
                    None \<Rightarrow> Fault FaultMem
                  | Some fn \<Rightarrow>
                      (case fn (bs_args s) (bs_A s) of
                         (args, A) \<Rightarrow> advance (s\<lparr>bs_A := A, bs_args := args\<rparr>))))
          else Ret 0)"

definition bpf_src_val :: "bpf_state \<Rightarrow> bpf_insn \<Rightarrow> bpf_src \<Rightarrow> u32" where
  "bpf_src_val s i src = (case src of SrcK \<Rightarrow> bi_k i | SrcX \<Rightarrow> bs_X s)"

fun bpf_exec :: "bpf_ctx option \<Rightarrow> bpf_state \<Rightarrow> bpf_insn \<Rightarrow> bpf_case \<Rightarrow> bpf_out" where
  "bpf_exec bc s i RetK = Ret (bi_k i)"
| "bpf_exec bc s i RetA = Ret (bs_A s)"
| "bpf_exec bc s i (LdAbs sz) = load_A s (bpf_ld_abs sz (bs_p s) (bs_args s) (bi_k i))"
| "bpf_exec bc s i LdLen = advance (s\<lparr>bs_A := ucast (ba_wirelen (bs_args s))\<rparr>)"
| "bpf_exec bc s i LdxLen = advance (s\<lparr>bs_X := ucast (ba_wirelen (bs_args s))\<rparr>)"
| "bpf_exec bc s i (LdInd sz) = load_A s (bpf_ld_ind sz (bs_p s) (bs_args s) (bs_X s) (bi_k i))"
| "bpf_exec bc s i LdxMsh = load_msh s (bpf_ld_abs SzB (bs_p s) (bs_args s) (bi_k i))"
| "bpf_exec bc s i LdImm = advance (s\<lparr>bs_A := bi_k i\<rparr>)"
| "bpf_exec bc s i LdxImm = advance (s\<lparr>bs_X := bi_k i\<rparr>)"
| "bpf_exec bc s i LdMem =
     (case mem_read (bs_args s) (bi_k i) of Inl e \<Rightarrow> Fault e | Inr v \<Rightarrow> advance (s\<lparr>bs_A := v\<rparr>))"
| "bpf_exec bc s i LdxMem =
     (case mem_read (bs_args s) (bi_k i) of Inl e \<Rightarrow> Fault e | Inr v \<Rightarrow> advance (s\<lparr>bs_X := v\<rparr>))"
| "bpf_exec bc s i St = store_word s (bi_k i) (bs_A s)"
| "bpf_exec bc s i Stx = store_word s (bi_k i) (bs_X s)"
| "bpf_exec bc s i Ja = Next (s\<lparr>bs_pc := pc_plus (bs_pc s) (unat (bi_k i) + 1)\<rparr>)"
| "bpf_exec bc s i (Jcc c src) = branch s i (cond_holds c (bs_A s) (bpf_src_val s i src))"
| "bpf_exec bc s i (Alu op src) = alu_step s op src (bpf_src_val s i src)"
| "bpf_exec bc s i Neg = advance (s\<lparr>bs_A := - bs_A s\<rparr>)"
| "bpf_exec bc s i Tax = advance (s\<lparr>bs_X := bs_A s\<rparr>)"
| "bpf_exec bc s i Txa = advance (s\<lparr>bs_A := bs_X s\<rparr>)"
| "bpf_exec bc s i Cop = cop_call bc s (bi_k i)"
| "bpf_exec bc s i Copx = cop_call bc s (bs_X s)"

definition bpf_step :: "bpf_ctx option \<Rightarrow> bpf_insn list \<Rightarrow> bpf_state \<Rightarrow> bpf_out" where
  "bpf_step bc f s =
     (case aget f (bs_pc s) of
        None \<Rightarrow> Fault FaultPC
      | Some i \<Rightarrow>
          (case map_of bpf_cases (bi_code i) of
             None \<Rightarrow> Ret 0
           | Some c \<Rightarrow> bpf_exec bc s i c))"

text \<open>The \<open>for (;;)\<close> loop: \<open>None\<close> is a loop that does not end.\<close>

partial_function (option) bpf_loop ::
  "bpf_ctx option \<Rightarrow> bpf_insn list \<Rightarrow> bpf_state \<Rightarrow> (bpf_fault + u32) option" where
  "bpf_loop bc f s =
     (case bpf_step bc f s of
        Ret v \<Rightarrow> Some (Inr v)
      | Fault e \<Rightarrow> Some (Inl e)
      | Next s' \<Rightarrow> bpf_loop bc f s')"

text \<open>\<open>bpf_filter_ext\<close>; a null program accepts everything.\<close>

definition bpf_filter_ext ::
  "bpf_ctx option \<Rightarrow> bpf_insn list option \<Rightarrow> bpf_args \<Rightarrow> (bpf_fault + u32) option" where
  "bpf_filter_ext bc pc args =
     (case pc of
        None \<Rightarrow> Some (Inr (- 1))
      | Some f \<Rightarrow> bpf_loop bc f \<lparr>bs_A = 0, bs_X = 0, bs_pc = 0, bs_p = ba_pkt args, bs_args = args\<rparr>)"

definition bpf_filter ::
  "bpf_insn list option \<Rightarrow> bpf_pkt \<Rightarrow> u32 \<Rightarrow> u32 \<Rightarrow> (bpf_fault + u32) option" where
  "bpf_filter pc p wirelen buflen =
     bpf_filter_ext None pc
       \<lparr>ba_pkt = p, ba_wirelen = ucast wirelen, ba_buflen = ucast buflen,
        ba_mem = replicate (unat BPF_MEMWORDS) None\<rparr>"

section \<open>The validator\<close>

text \<open>
  One iteration of the loop of \<open>bpf_validate_ext\<close>.  The state is the mask \<open>invalid\<close> of
  scratch words that may be unwritten and the array \<open>mem\<close> of masks pending at jump
  targets; \<open>None\<close> is \<open>goto out\<close> with \<open>ok = 0\<close>.
\<close>

type_synonym vstate = "u32 \<times> u32 list"

definition validate_ld :: "u64 \<Rightarrow> bpf_insn \<Rightarrow> vstate \<Rightarrow> vstate option" where
  "validate_ld memwords p st =
     (case st of (invalid, mem) \<Rightarrow>
        let mode = BPF_MODE (bi_code p) in
        if mode = BPF_MEM then
          (if memwords \<le> ucast (bi_k p) then None
           else if invalid AND bit_of (unat (bi_k p)) \<noteq> 0 then None
           else Some st)
        else if mode = BPF_ABS \<or> mode = BPF_IND \<or> mode = BPF_MSH \<or> mode = BPF_IMM \<or> mode = BPF_LEN
        then Some st
        else None)"

definition validate_st :: "u64 \<Rightarrow> bpf_insn \<Rightarrow> vstate \<Rightarrow> vstate option" where
  "validate_st memwords p st =
     (case st of (invalid, mem) \<Rightarrow>
        if memwords \<le> ucast (bi_k p) then None
        else Some (invalid AND NOT (bit_of (unat (bi_k p))), mem))"

definition validate_alu :: "bpf_insn \<Rightarrow> vstate \<Rightarrow> vstate option" where
  "validate_alu p st =
     (let op = BPF_OP (bi_code p) in
      if op = BPF_ADD \<or> op = BPF_SUB \<or> op = BPF_MUL \<or> op = BPF_OR \<or> op = BPF_XOR \<or>
         op = BPF_AND \<or> op = BPF_LSH \<or> op = BPF_RSH \<or> op = BPF_NEG
      then Some st
      else if op = BPF_DIV \<or> op = BPF_MOD then
        (if BPF_SRC (bi_code p) = BPF_K \<and> bi_k p = 0 then None else Some st)
      else None)"

definition mark :: "u32 list \<Rightarrow> u32 \<Rightarrow> u32 \<Rightarrow> u32 list" where
  "mark mem j invalid = mem[unat j := mem ! unat j OR invalid]"

definition validate_jmp :: "u32 \<Rightarrow> u32 \<Rightarrow> bpf_insn \<Rightarrow> vstate \<Rightarrow> vstate option" where
  "validate_jmp len i p st =
     (case st of (invalid, mem) \<Rightarrow>
        let from = i + 1; op = BPF_OP (bi_code p) in
        if op = BPF_JA then
          (if len \<le> from + bi_k p then None
           else if from + bi_k p < from then None
           else Some (0, mark mem (from + bi_k p) invalid))
        else if op = BPF_JEQ \<or> op = BPF_JGT \<or> op = BPF_JGE \<or> op = BPF_JSET then
          (if len \<le> from + ucast (bi_jt p) \<or> len \<le> from + ucast (bi_jf p) then None
           else Some (0, mark (mark mem (from + ucast (bi_jt p)) invalid)
                            (from + ucast (bi_jf p)) invalid))
        else None)"

definition validate_misc :: "bpf_ctx option \<Rightarrow> bpf_insn \<Rightarrow> vstate \<Rightarrow> vstate option" where
  "validate_misc bc p st =
     (let op = BPF_MISCOP (bi_code p) in
      if op = BPF_COP \<or> op = BPF_COPX then
        (case bc of
           None \<Rightarrow> None
         | Some c \<Rightarrow>
             if bc_copfuncs c = None then None
             else if op = BPF_COP \<and> bc_nfuncs c \<le> ucast (bi_k p) then None
             else Some st)
      else Some st)"

definition validate_insn ::
  "bpf_ctx option \<Rightarrow> u64 \<Rightarrow> u32 \<Rightarrow> u32 \<Rightarrow> bpf_insn \<Rightarrow> vstate \<Rightarrow> vstate option" where
  "validate_insn bc memwords len i p st =
     (let c = BPF_CLASS (bi_code p) in
      if c = BPF_LD \<or> c = BPF_LDX then validate_ld memwords p st
      else if c = BPF_ST \<or> c = BPF_STX then validate_st memwords p st
      else if c = BPF_ALU then validate_alu p st
      else if c = BPF_JMP then validate_jmp len i p st
      else if c = BPF_RET then Some st
      else if c = BPF_MISC then validate_misc bc p st
      else None)"

fun validate_loop ::
  "bpf_ctx option \<Rightarrow> u64 \<Rightarrow> u32 \<Rightarrow> u32 \<Rightarrow> bpf_insn list \<Rightarrow> vstate \<Rightarrow> bool" where
  "validate_loop bc memwords len i [] st = True"
| "validate_loop bc memwords len i (p # ps) (invalid, mem) =
     (case validate_insn bc memwords len i p (invalid OR mem ! unat i, mem) of
        None \<Rightarrow> False
      | Some st \<Rightarrow> validate_loop bc memwords len (i + 1) ps st)"

definition ctx_extwords :: "bpf_ctx option \<Rightarrow> u64" where
  "ctx_extwords bc = (case bc of None \<Rightarrow> 0 | Some c \<Rightarrow> bc_extwords c)"

definition ctx_memwords :: "bpf_ctx option \<Rightarrow> u64" where
  "ctx_memwords bc = (if ctx_extwords bc \<noteq> 0 then ctx_extwords bc else BPF_MEMWORDS)"

definition ctx_preinited :: "bpf_ctx option \<Rightarrow> u32" where
  "ctx_preinited bc =
     (case bc of None \<Rightarrow> 0 | Some c \<Rightarrow> if bc_extwords c \<noteq> 0 then bc_preinited c else 0)"

text \<open>\<open>bpf_validate_ext\<close>: \<open>None\<close> when the program array is shorter than the length
  passed with it, otherwise whether the result is non-zero.\<close>

definition bpf_validate_ext :: "bpf_ctx option \<Rightarrow> bpf_insn list \<Rightarrow> u32 \<Rightarrow> bool option" where
  "bpf_validate_ext bc f len =
     (if len < 1 then Some False
      else if BPF_MAXINSNS < len then Some False
      else if length f < unat len then None
      else if bi_code (f ! (unat len - 1)) \<noteq> (BPF_RET OR BPF_K) \<and>
              bi_code (f ! (unat len - 1)) \<noteq> (BPF_RET OR BPF_A) then Some False
      else Some (validate_loop bc (ctx_memwords bc) len 0 (take (unat len) f)
                   (NOT (ctx_preinited bc), replicate (unat len) 0)))"

definition bpf_validate :: "bpf_insn list \<Rightarrow> u32 \<Rightarrow> bool option" where
  "bpf_validate f len = bpf_validate_ext None f len"

end
