(* ===== verification/Bpf_Safety.thy ===== *)
theory Bpf_Safety
  imports Bpf_Filter
begin

text \<open>
  What acceptance by \<open>bpf_validate_ext\<close> guarantees about \<open>bpf_filter_ext\<close>.  On a
  validated program the interpreter returns, never leaves the program or the
  scratch store, never reads an unwritten scratch word, never divides by a zero
  constant and never follows a null coprocessor table.  The one undefined operation the
  validator lets through is a shift by 32 or more, which is stated as such.
\<close>

lemmas bpf_out_defs =
  advance_def load_A_def load_msh_def store_word_def branch_def alu_step_def cop_call_def

lemma pc_plus_small [simp]: "pc + n < 2 ^ 61 \<Longrightarrow> pc_plus pc n = pc + n"
  by (simp add: pc_plus_def)

section \<open>What the environment promises\<close>

text \<open>
  A coprocessor function may write scratch words and compute a new accumulator; it
  leaves the packet description alone and un-initialises nothing.
\<close>

definition cop_ok :: "bpf_copfunc \<Rightarrow> bool" where
  "cop_ok fn \<longleftrightarrow>
     (\<forall>args A. let args' = fst (fn args A) in
        ba_pkt args' = ba_pkt args \<and> ba_buflen args' = ba_buflen args \<and>
        length (ba_mem args') = length (ba_mem args) \<and>
        (\<forall>w < length (ba_mem args). ba_mem args ! w \<noteq> None \<longrightarrow> ba_mem args' ! w \<noteq> None))"

definition ctx_ok :: "bpf_ctx option \<Rightarrow> bool" where
  "ctx_ok bc \<longleftrightarrow>
     (case bc of
        None \<Rightarrow> True
      | Some c \<Rightarrow>
          bc_extwords c \<le> BPF_MAX_MEMWORDS \<and>
          (case bc_copfuncs c of
             None \<Rightarrow> True
           | Some fs \<Rightarrow> unat (bc_nfuncs c) = length fs \<and> list_all cop_ok fs))"

definition pkt_ok :: "bpf_args \<Rightarrow> bool" where
  "pkt_ok args \<longleftrightarrow>
     (case ba_pkt args of
        PktBuf b \<Rightarrow> ba_buflen args \<noteq> 0 \<and> unat (ba_buflen args) = length b
      | PktMbuf m \<Rightarrow> ba_buflen args = 0 \<and> m \<noteq> [] \<and> [] \<notin> set (tl m))"

text \<open>The caller provides the store the context announces, with the announced words
  initialised.\<close>

definition covered :: "u32 \<Rightarrow> bpf_args \<Rightarrow> bool" where
  "covered V args \<longleftrightarrow> (\<forall>w < length (ba_mem args). ba_mem args ! w = None \<longrightarrow> bit V w)"

definition args_ok :: "bpf_ctx option \<Rightarrow> bpf_args \<Rightarrow> bool" where
  "args_ok bc args \<longleftrightarrow> pkt_ok args \<and> length (ba_mem args) = unat (ctx_memwords bc)"

definition machine_ok :: "bpf_ctx option \<Rightarrow> bpf_state \<Rightarrow> bool" where
  "machine_ok bc s \<longleftrightarrow> args_ok bc (bs_args s) \<and> bs_p s = ba_pkt (bs_args s)"

lemma machine_ok_update [simp]:
  "machine_ok bc (s\<lparr>bs_A := v\<rparr>) = machine_ok bc s" "machine_ok bc (s\<lparr>bs_X := v\<rparr>) = machine_ok bc s"
  "machine_ok bc (s\<lparr>bs_pc := c\<rparr>) = machine_ok bc s"
  by (simp_all add: machine_ok_def)

text \<open>The machine is at instruction \<open>i\<close> of a program of a length the validator accepts.\<close>

abbreviation stands :: "bpf_state \<Rightarrow> nat \<Rightarrow> bool" where
  "stands s i \<equiv> bs_pc s = i \<and> i < 512"

definition start_ok :: "bpf_ctx option \<Rightarrow> bpf_args \<Rightarrow> bool" where
  "start_ok bc args \<longleftrightarrow> args_ok bc args \<and> covered (NOT (ctx_preinited bc)) args"

definition benign :: "bpf_fault + u32 \<Rightarrow> bool" where
  "benign r \<longleftrightarrow> (case r of Inr _ \<Rightarrow> True | Inl e \<Rightarrow> e = FaultShift)"

lemma memwords_bound: "ctx_ok bc \<Longrightarrow> unat (ctx_memwords bc) \<le> 30"
proof -
  assume "ctx_ok bc"
  then have "ctx_memwords bc \<le> 30"
    by (auto simp: ctx_ok_def ctx_memwords_def ctx_extwords_def split: option.splits)
  then show ?thesis by (simp add: word_le_nat_alt)
qed

lemma pkt_ok_cong:
  "ba_pkt a = ba_pkt b \<Longrightarrow> ba_buflen a = ba_buflen b \<Longrightarrow> pkt_ok a = pkt_ok b"
  by (auto simp: pkt_ok_def split: bpf_pkt.splits)

lemma pkt_ok_mem [simp]: "pkt_ok (args\<lparr>ba_mem := m\<rparr>) = pkt_ok args"
  by (rule pkt_ok_cong) simp_all

section \<open>Packet loads stay inside the packet\<close>

lemma MINDEX_Some:
  "MINDEX ms k = Some (cp, next, j) \<Longrightarrow>
     j < length cp \<and> (\<exists>pre. ms = pre @ cp # next \<and> k = length (concat pre) + j)"
proof (induction ms k rule: MINDEX.induct)
  case (2 m ms k)
  show ?case
  proof (cases "length m \<le> k")
    case True
    with "2.prems" have "MINDEX ms (k - length m) = Some (cp, next, j)" by simp
    with "2.IH" True obtain pre where "j < length cp"
      "ms = pre @ cp # next" "k - length m = length (concat pre) + j"
      by blast
    with True show ?thesis by (auto intro!: exI [of _ "m # pre"])
  next
    case False
    with "2.prems" show ?thesis by (auto intro: exI [of _ "[]"])
  qed
qed simp

lemma MINDEX_SomeE:
  assumes "MINDEX ms k = Some (cp, next, j)"
  obtains pre where "ms = pre @ cp # next" "k = length (concat pre) + j" "j < length cp"
  using MINDEX_Some [OF assms] by blast

lemma MINDEX_next_in_tl: "MINDEX ms k = Some (cp, np # next, j) \<Longrightarrow> np \<in> set (tl ms)"
  by (erule MINDEX_SomeE) (auto simp: tl_append split: list.splits)

lemma MINDEX_bound: "MINDEX ms k = Some (cp, next, j) \<Longrightarrow> j < length cp"
  by (erule MINDEX_SomeE)

lemma m_xbyte_no_oob: "m \<noteq> [] \<Longrightarrow> m_xbyte m k \<noteq> MxOob"
  by (auto simp: m_xbyte_def split: option.splits)

lemma m_xword_no_oob: "m \<noteq> [] \<Longrightarrow> m_xword m k \<noteq> MxOob"
  by (auto simp: m_xword_def mx_opt_def EXTRACT_LONG_def Let_def split: option.splits list.splits
           dest: MINDEX_bound)

lemma m_xhalf_no_oob: "m \<noteq> [] \<Longrightarrow> [] \<notin> set (tl m) \<Longrightarrow> m_xhalf m k \<noteq> MxOob"
  by (auto simp: m_xhalf_def mx_opt_def EXTRACT_SHORT_def split: option.splits list.splits
           dest: MINDEX_bound MINDEX_next_in_tl)

definition bpf_nbytes :: "bpf_size \<Rightarrow> nat" where
  "bpf_nbytes sz = (case sz of SzW \<Rightarrow> 4 | SzH \<Rightarrow> 2 | SzB \<Rightarrow> 1)"

lemma u64_room:
  fixes buflen :: u64 and k :: u32
  assumes "\<not> buflen < ucast k" "\<not> buflen - ucast k < n"
  shows "unat k + unat n \<le> unat buflen"
proof -
  have le: "(ucast k :: u64) \<le> buflen" using assms(1) by simp
  then have "unat (buflen - ucast k) = unat buflen - unat k"
    by (simp add: unat_sub)
  moreover have "unat n \<le> unat (buflen - ucast k)" using assms(2)
    by (simp add: word_less_nat_alt)
  moreover have "unat k \<le> unat buflen" using le by (simp add: word_le_nat_alt)
  ultimately show ?thesis by simp
qed

lemma beyond_abs_room:
  "\<not> beyond_abs sz buflen k \<Longrightarrow> unat k + bpf_nbytes sz \<le> unat buflen"
  using u64_room [of buflen k 4] u64_room [of buflen k 2]
  by (auto simp: beyond_abs_def bpf_nbytes_def word_less_nat_alt word_le_nat_alt
           split: bpf_size.splits)

lemma beyond_ind_abs:
  "\<not> beyond_ind sz buflen k \<Longrightarrow> \<not> beyond_abs sz buflen k"
  by (auto simp: beyond_abs_def beyond_ind_def split: bpf_size.splits)

lemma load_buf_in_range:
  "unat k + bpf_nbytes sz \<le> length b \<Longrightarrow> load_buf sz (PktBuf b) k \<noteq> LdFault"
  by (auto simp: load_buf_def bpf_nbytes_def EXTRACT_LONG_def EXTRACT_SHORT_def EXTRACT_BYTE_def
           split: bpf_size.splits)

lemma load_mbuf_in_range:
  "m \<noteq> [] \<Longrightarrow> [] \<notin> set (tl m) \<Longrightarrow> load_mbuf sz (PktMbuf m) k \<noteq> LdFault"
  using m_xword_no_oob [of m k] m_xhalf_no_oob [of m k] m_xbyte_no_oob [of m k]
  by (auto simp: load_mbuf_def split: bpf_size.splits mx.splits)

lemma beyond_abs_empty: "beyond_abs sz 0 k"
  using beyond_abs_room [of sz 0 k] by (cases sz) (auto simp: bpf_nbytes_def)

lemma bpf_ld_abs_safe: "pkt_ok args \<Longrightarrow> bpf_ld_abs sz (ba_pkt args) args k \<noteq> LdFault"
  using beyond_abs_room [of sz "ba_buflen args" k] beyond_abs_empty [of sz k]
    load_buf_in_range [of k sz] load_mbuf_in_range
  by (auto simp: pkt_ok_def bpf_ld_abs_def split: bpf_pkt.splits)

lemma bpf_ld_ind_safe: "pkt_ok args \<Longrightarrow> bpf_ld_ind sz (ba_pkt args) args X k \<noteq> LdFault"
proof -
  assume ok: "pkt_ok args"
  have "\<not> beyond_ind sz (ba_buflen args) (X + k) \<Longrightarrow>
      load_buf sz (ba_pkt args) (X + k) = bpf_ld_abs sz (ba_pkt args) args (X + k)"
    by (simp add: bpf_ld_abs_def beyond_ind_abs)
  moreover have "ba_buflen args = 0 \<Longrightarrow> load_mbuf sz (ba_pkt args) (X + k) = bpf_ld_abs sz (ba_pkt args) args (X + k)"
    by (simp add: bpf_ld_abs_def beyond_abs_empty)
  ultimately show ?thesis
    using bpf_ld_abs_safe [OF ok] by (auto simp: bpf_ld_ind_def Let_def)
qed

section \<open>One validated instruction\<close>

text \<open>The codes behind each case of the interpreter's switch.\<close>

lemma bpf_case_code: "map_of bpf_cases c = Some k \<Longrightarrow> (c, k) \<in> set bpf_cases"
  by (rule map_of_SomeD)

text \<open>How the validator classifies an instruction the interpreter executes as case \<open>k\<close>.\<close>

fun case_class :: "bpf_case \<Rightarrow> u16" where
  "case_class RetK = BPF_RET"
| "case_class RetA = BPF_RET"
| "case_class (LdAbs _) = BPF_LD"
| "case_class (LdInd _) = BPF_LD"
| "case_class LdLen = BPF_LD"
| "case_class LdImm = BPF_LD"
| "case_class LdMem = BPF_LD"
| "case_class LdxLen = BPF_LDX"
| "case_class LdxMsh = BPF_LDX"
| "case_class LdxImm = BPF_LDX"
| "case_class LdxMem = BPF_LDX"
| "case_class St = BPF_ST"
| "case_class Stx = BPF_STX"
| "case_class Ja = BPF_JMP"
| "case_class (Jcc _ _) = BPF_JMP"
| "case_class (Alu _ _) = BPF_ALU"
| "case_class Neg = BPF_ALU"
| "case_class Tax = BPF_MISC"
| "case_class Txa = BPF_MISC"
| "case_class Cop = BPF_MISC"
| "case_class Copx = BPF_MISC"

lemma case_class_code: "map_of bpf_cases c = Some k \<Longrightarrow> BPF_CLASS c = case_class k"
  by (drule bpf_case_code) (auto simp: bpf_cases_def bpf_field_defs)

lemma mem_mode_code:
  "map_of bpf_cases c = Some k \<Longrightarrow> (BPF_MODE c = BPF_MEM \<longleftrightarrow> k = LdMem \<or> k = LdxMem)
     \<or> case_class k \<notin> {BPF_LD, BPF_LDX}"
  by (drule bpf_case_code) (auto simp: bpf_cases_def bpf_field_defs)

lemma jmp_op_code:
  "map_of bpf_cases c = Some k \<Longrightarrow> case_class k = BPF_JMP \<Longrightarrow> (BPF_OP c = BPF_JA \<longleftrightarrow> k = Ja)"
  by (drule bpf_case_code) (auto simp: bpf_cases_def bpf_field_defs)

lemma div_op_code:
  "map_of bpf_cases c = Some (Alu op SrcK) \<Longrightarrow> op = DIV \<or> op = MOD \<Longrightarrow>
     (BPF_OP c = BPF_DIV \<or> BPF_OP c = BPF_MOD) \<and> BPF_SRC c = BPF_K"
  by (drule bpf_case_code) (auto simp: bpf_cases_def bpf_field_defs)

lemma misc_op_code:
  "map_of bpf_cases c = Some k \<Longrightarrow> case_class k = BPF_MISC \<Longrightarrow>
     (BPF_MISCOP c = BPF_COP \<longleftrightarrow> k = Cop) \<and> (BPF_MISCOP c = BPF_COPX \<longleftrightarrow> k = Copx)"
  by (drule bpf_case_code) (auto simp: bpf_cases_def bpf_field_defs)

text \<open>
  What one pass through the loop must establish from a state at instruction \<open>i\<close>, with
  \<open>(invalid, mem)\<close> the validator's state after that instruction.
\<close>

definition safe_out :: "bpf_ctx option \<Rightarrow> u32 \<Rightarrow> nat \<Rightarrow> vstate \<Rightarrow> bpf_out \<Rightarrow> bool" where
  "safe_out bc len i st out \<longleftrightarrow>
     (case out of
        Ret _ \<Rightarrow> True
      | Fault e \<Rightarrow> e = FaultShift
      | Next s' \<Rightarrow>
          machine_ok bc s' \<and>
          (bs_pc s' = Suc i \<and> covered (fst st) (bs_args s') \<or>
           i < bs_pc s' \<and> bs_pc s' < unat len \<and> covered (snd st ! bs_pc s') (bs_args s')))"

lemma safe_out_simps [simp]:
  "safe_out bc len i st (Ret v)"
  "safe_out bc len i st (Fault e) \<longleftrightarrow> e = FaultShift"
  "stands s i \<Longrightarrow> safe_out bc len i st (advance s) \<longleftrightarrow>
     machine_ok bc s \<and>
     (covered (fst st) (bs_args s) \<or> Suc i < unat len \<and> covered (snd st ! Suc i) (bs_args s))"
  by (auto simp: safe_out_def advance_def)

lemma safe_out_load_A:
  "stands s i \<Longrightarrow> machine_ok bc s \<Longrightarrow> covered (fst st) (bs_args s) \<Longrightarrow> l \<noteq> LdFault
   \<Longrightarrow> safe_out bc len i st (load_A s l)"
  by (auto simp: load_A_def split: bpf_load.splits)

lemma safe_out_load_msh:
  "stands s i \<Longrightarrow> machine_ok bc s \<Longrightarrow> covered (fst st) (bs_args s) \<Longrightarrow> l \<noteq> LdFault
   \<Longrightarrow> safe_out bc len i st (load_msh s l)"
  by (auto simp: load_msh_def split: bpf_load.splits)

lemma machine_okD: "machine_ok bc s \<Longrightarrow> args_ok bc (bs_args s)" "machine_ok bc s \<Longrightarrow> bs_p s = ba_pkt (bs_args s)"
  by (simp_all add: machine_ok_def)

lemma args_okD: "args_ok bc args \<Longrightarrow> pkt_ok args"
  "args_ok bc args \<Longrightarrow> length (ba_mem args) = unat (ctx_memwords bc)"
  by (auto simp: args_ok_def)

lemma mem_read_validated:
  assumes "ctx_ok bc" "args_ok bc args" "covered V args"
    and "\<not> ctx_memwords bc \<le> ucast (k::u32)" "V AND bit_of (unat k) = 0"
  shows "\<exists>v. mem_read args k = Inr v"
proof -
  from assms(4) have k: "unat k < unat (ctx_memwords bc)" by (simp add: word_le_nat_alt)
  with memwords_bound [OF assms(1)] have "unat k < LENGTH(32)" by simp
  with assms(5) have "\<not> bit V (unat k)" by (simp add: and_bit_of_eq_0)
  with assms(3) k args_okD(2) [OF assms(2)] have "ba_mem args ! unat k \<noteq> None"
    by (auto simp: covered_def)
  with k args_okD(2) [OF assms(2)] show ?thesis
    by (auto simp: mem_read_def)
qed

lemma store_validated:
  assumes "ctx_ok bc" "machine_ok bc s" "covered V (bs_args s)" "stands s i"
    and "\<not> ctx_memwords bc \<le> ucast (k::u32)"
  shows "safe_out bc len i (V AND NOT (bit_of (unat k)), mem) (store_word s k v)"
proof -
  from assms(5) have k: "unat k < unat (ctx_memwords bc)" by (simp add: word_le_nat_alt)
  have len: "length (ba_mem (bs_args s)) = unat (ctx_memwords bc)"
    using args_okD(2) [OF machine_okD(1) [OF assms(2)]] .
  have "bit (V AND NOT (bit_of (unat k))) w"
    if "w < length (ba_mem (bs_args s))" "(ba_mem (bs_args s))[unat k := Some v] ! w = None" for w
  proof -
    from that have "w \<noteq> unat k" by auto
    moreover from this that have "ba_mem (bs_args s) ! w = None" by simp
    ultimately have "bit V w" using that(1) assms(3) by (auto simp: covered_def)
    then show ?thesis using \<open>w \<noteq> unat k\<close> that(1) len memwords_bound [OF assms(1)]
      by (auto simp: bit_mask)
  qed
  then show ?thesis using k len assms(2,4)
    by (auto simp: store_word_def mem_write_def machine_ok_def args_ok_def covered_def)
qed

lemma exec_ld_safe:
  assumes ok: "ctx_ok bc" "machine_ok bc s" "covered V (bs_args s)" "stands s i"
    and c: "map_of bpf_cases (bi_code p) = Some c" "case_class c \<in> {BPF_LD, BPF_LDX}"
    and v: "validate_ld (ctx_memwords bc) p (V, mem) = Some st"
  shows "safe_out bc len i st (bpf_exec bc s p c)"
proof -
  have st: "st = (V, mem)" using v by (auto simp: validate_ld_def Let_def split: if_splits)
  have pkt: "pkt_ok (bs_args s)" and p: "bs_p s = ba_pkt (bs_args s)" using args_okD(1) machine_okD [OF ok(2)] by blast+
  have rd: "\<exists>v. mem_read (bs_args s) (bi_k p) = Inr v" if "c = LdMem \<or> c = LdxMem"
  proof -
    have "BPF_MODE (bi_code p) = BPF_MEM" using mem_mode_code [OF c(1)] that by auto
    with v show ?thesis using mem_read_validated [OF ok(1) machine_okD(1) [OF ok(2)] ok(3)]
      by (auto simp: validate_ld_def Let_def split: if_splits)
  qed
  show ?thesis using c(2) st ok(2,3,4) rd
    by (cases c) (auto simp: p bpf_ld_abs_safe [OF pkt] bpf_ld_ind_safe [OF pkt]
        intro!: safe_out_load_A safe_out_load_msh)
qed

lemma exec_alu_safe:
  assumes ok: "machine_ok bc s" "covered V (bs_args s)" "stands s i"
    and c: "map_of bpf_cases (bi_code p) = Some c" "case_class c = BPF_ALU"
    and v: "validate_alu p (V, mem) = Some st"
  shows "safe_out bc len i st (bpf_exec bc s p c)"
proof -
  have st: "st = (V, mem)" using v by (auto simp: validate_alu_def Let_def split: if_splits)
  have nz: "bi_k p \<noteq> 0" if "c = Alu op SrcK" "op = DIV \<or> op = MOD" for op
    using v div_op_code [of "bi_code p" op] c(1) that
    by (auto simp: validate_alu_def Let_def)
  show ?thesis
  proof (cases c)
    case (Alu op src)
    then have "alu_exec op src (bs_A s) (bpf_src_val s p src) = Inr e \<Longrightarrow> e = FaultShift" for e
      using nz by (auto simp: alu_exec_def bpf_src_val_def
          split: bpf_alu_op.splits bpf_src.splits if_splits)
    moreover have "alu_exec op src (bs_A s) (bpf_src_val s p src) \<noteq> Inl LdFault"
      by (auto simp: alu_exec_def split: bpf_alu_op.splits bpf_src.splits)
    ultimately show ?thesis using Alu st ok
      by (auto simp: alu_step_def intro!: safe_out_load_A split: sum.splits)
  qed (use c(2) st ok in auto)
qed

lemma exec_misc_safe:
  assumes ok: "ctx_ok bc" "machine_ok bc s" "covered V (bs_args s)" "stands s i"
    and c: "map_of bpf_cases (bi_code p) = Some c" "case_class c = BPF_MISC"
    and v: "validate_misc bc p (V, mem) = Some st"
  shows "safe_out bc len i st (bpf_exec bc s p c)"
proof -
  have st: "st = (V, mem)"
    using v by (auto simp: validate_misc_def Let_def split: if_splits option.splits)
  have cop: "safe_out bc len i st (cop_call bc s n)" if "c = Cop \<or> c = Copx" for n
  proof -
    have op: "BPF_MISCOP (bi_code p) = BPF_COP \<or> BPF_MISCOP (bi_code p) = BPF_COPX"
      using misc_op_code [OF c] that by auto
    obtain b fs where b: "bc = Some b" "bc_copfuncs b = Some fs"
      using v op by (auto simp: validate_misc_def Let_def split: option.splits if_splits)
    then have fs: "unat (bc_nfuncs b) = length fs" "list_all cop_ok fs"
      using ok(1) by (auto simp: ctx_ok_def)
    show ?thesis
    proof (cases "ucast n < bc_nfuncs b")
      case True
      then have n: "unat n < length fs" using fs(1) by (simp add: word_less_nat_alt)
      obtain args A where call: "(fs ! unat n) (bs_args s) (bs_A s) = (args, A)"
        by fastforce
      have "cop_ok (fs ! unat n)" using fs(2) n by (auto simp: list_all_length)
      then have eff: "ba_pkt args = ba_pkt (bs_args s)" "ba_buflen args = ba_buflen (bs_args s)"
        "length (ba_mem args) = length (ba_mem (bs_args s))"
        "\<forall>w < length (ba_mem args). ba_mem args ! w = None \<longrightarrow> ba_mem (bs_args s) ! w = None"
        using call unfolding cop_ok_def Let_def by (metis fst_conv)+
      then have "machine_ok bc (s\<lparr>bs_A := A, bs_args := args\<rparr>)" "covered V args"
        using ok(2,3) pkt_ok_cong [OF eff(1,2)] by (auto simp: machine_ok_def args_ok_def covered_def)
      then show ?thesis using True b n call st ok(4) by (simp add: cop_call_def)
    qed (simp add: cop_call_def b)
  qed
  show ?thesis using c(2) st ok(2,3,4) cop by (cases c) auto
qed

lemma mark_length [simp]: "length (mark mem j v) = length mem"
  by (simp add: mark_def)

lemma mark_bits:
  "w < length mem \<Longrightarrow> bit (mark mem j v ! w) b \<longleftrightarrow> bit (mem ! w) b \<or> (w = unat j \<and> bit v b)"
  by (cases "w = unat j") (auto simp: mark_def bit_mask)

lemma covered_mono: "covered V args \<Longrightarrow> (\<And>b. bit V b \<Longrightarrow> bit W b) \<Longrightarrow> covered W args"
  by (auto simp: covered_def)

lemma branch_target:
  fixes i len d :: u32
  assumes "unat i + 1 < 2 ^ 32" "\<not> len \<le> i + 1 + d" "\<not> i + 1 + d < i + 1"
  shows "unat (i + 1 + d) = unat i + unat d + 1" "unat i + unat d + 1 < unat len"
proof -
  have i1: "unat (i + 1) = unat i + 1" using assms(1) by (simp add: unat_word_ariths)
  have "unat d < 2 ^ LENGTH(32)" by (rule unsigned_less)
  then have "unat (i + 1 + d) = unat (i + 1) + unat d"
    using assms(1,3)
    by (simp add: not_less word_le_nat_alt unat_word_ariths mod_if split: if_splits)
  then show "unat (i + 1 + d) = unat i + unat d + 1" using i1 by simp
  then show "unat i + unat d + 1 < unat len" using assms(2) by (simp add: word_le_nat_alt)
qed

lemma jcc_no_wrap:
  fixes i :: u32 and d :: u8
  assumes "unat i + 1 + 255 < 2 ^ 32"
  shows "\<not> i + 1 + ucast d < i + 1"
proof -
  have "unat d < 2 ^ LENGTH(8)" by (rule unsigned_less)
  then show ?thesis using assms by (simp add: not_less word_le_nat_alt unat_word_ariths)
qed

lemma exec_jmp_safe:
  assumes ok: "machine_ok bc s" "covered V (bs_args s)" "stands s (unat i)"
    and c: "map_of bpf_cases (bi_code p) = Some c" "case_class c = BPF_JMP"
    and v: "validate_jmp len i p (V, mem) = Some st"
    and len: "length mem = unat len" "unat i < unat len" "unat len \<le> 512"
  shows "safe_out bc len (unat i) st (bpf_exec bc s p c)"
proof (cases "c = Ja")
  case True
  then have "BPF_OP (bi_code p) = BPF_JA" using jmp_op_code [OF c] by simp
  then have g: "\<not> len \<le> i + 1 + bi_k p" "\<not> i + 1 + bi_k p < i + 1"
    and st: "st = (0, mark mem (i + 1 + bi_k p) V)"
    using v by (auto simp: validate_jmp_def Let_def split: if_splits)
  note t = branch_target [OF _ g]
  have "covered (snd st ! (unat i + unat (bi_k p) + 1)) (bs_args s)"
    using t len st ok(2) by (auto intro: covered_mono simp: mark_bits)
  then show ?thesis using True ok t len by (simp add: safe_out_def)
next
  case False
  then have op: "BPF_OP (bi_code p) \<noteq> BPF_JA" using jmp_op_code [OF c] by simp
  have j: "\<exists>cc src. c = Jcc cc src" using False c(2) by (cases c) auto
  from v op have g: "\<not> len \<le> i + 1 + ucast (bi_jt p)" "\<not> len \<le> i + 1 + ucast (bi_jf p)"
    and st: "st = (0, mark (mark mem (i + 1 + ucast (bi_jt p)) V) (i + 1 + ucast (bi_jf p)) V)"
    by (auto simp: validate_jmp_def Let_def split: if_splits)
  have nw: "\<not> i + 1 + ucast d < i + 1" for d :: u8
    by (rule jcc_no_wrap) (use len in simp)
  note tt = branch_target [OF _ g(1) nw] and tf = branch_target [OF _ g(2) nw]
  have "covered (snd st ! (unat i + unat (if b then bi_jt p else bi_jf p) + 1)) (bs_args s)" for b
    using tt tf len st ok(2) by (auto intro: covered_mono simp: mark_bits)
  then show ?thesis using j ok tt tf len by (auto simp: safe_out_def branch_def split: if_splits)
qed

lemma validate_insn_mem:
  assumes "validate_insn bc mw len i p (V, mem) = Some (V', mem')"
  shows "length mem' = length mem"
    and "w < length mem \<Longrightarrow> bit (mem ! w) b \<Longrightarrow> bit (mem' ! w) b"
  using assms
  by (auto simp: validate_insn_def validate_ld_def validate_st_def validate_alu_def
      validate_jmp_def validate_misc_def mark_bits Let_def split: if_splits option.splits)

lemma bpf_step_safe:
  assumes ok: "ctx_ok bc" "machine_ok bc s" "covered V (bs_args s)" "stands s (unat i)"
    and f: "unat i < length f" "f ! unat i = p"
    and v: "validate_insn bc (ctx_memwords bc) len i p (V, mem) = Some st"
    and len: "length mem = unat len" "unat i < unat len" "unat len \<le> 512"
  shows "safe_out bc len (unat i) st (bpf_step bc f s)"
proof (cases "map_of bpf_cases (bi_code p)")
  case None
  then show ?thesis using f ok(4) by (simp add: bpf_step_def)
next
  case (Some c)
  have cl: "BPF_CLASS (bi_code p) = case_class c" using case_class_code [OF Some] .
  have "safe_out bc len (unat i) st (bpf_exec bc s p c)"
  proof -
    consider "case_class c \<in> {BPF_LD, BPF_LDX}" | "c = St \<or> c = Stx" | "case_class c = BPF_ALU"
      | "case_class c = BPF_JMP" | "case_class c = BPF_MISC" | "c = RetK \<or> c = RetA"
      by (cases c) auto
    then show ?thesis
    proof cases
      case 1 then show ?thesis using exec_ld_safe [OF ok Some] v cl
        by (auto simp: validate_insn_def Let_def)
    next
      case 2 then show ?thesis using store_validated [OF ok] v cl
        by (auto simp: validate_insn_def validate_st_def Let_def split: if_splits)
    next
      case 3 then show ?thesis using exec_alu_safe [OF ok(2-) Some] v cl
        by (auto simp: validate_insn_def Let_def)
    next
      case 4 then show ?thesis using exec_jmp_safe [OF ok(2-) Some _ _ len] v cl
        by (auto simp: validate_insn_def Let_def)
    next
      case 5 then show ?thesis using exec_misc_safe [OF ok Some] v cl
        by (auto simp: validate_insn_def Let_def)
    qed auto
  qed
  then show ?thesis using Some f ok(4) by (simp add: bpf_step_def)
qed

section \<open>Validated programs run safely\<close>

lemma safe_outE:
  assumes "safe_out bc len i st out"
  obtains v where "out = Ret v" | "out = Fault FaultShift"
    | s' where "out = Next s'" "machine_ok bc s'"
        "bs_pc s' = Suc i \<and> covered (fst st) (bs_args s') \<or>
         i < bs_pc s' \<and> bs_pc s' < unat len \<and> covered (snd st ! bs_pc s') (bs_args s')"
  using assms by (cases out) (auto simp: safe_out_def)

lemma ret_step:
  "aget f (bs_pc s) = Some p \<Longrightarrow> bi_code p = (BPF_RET OR BPF_K) \<or> bi_code p = (BPF_RET OR BPF_A)
   \<Longrightarrow> \<exists>v. bpf_step bc f s = Ret v"
  by (auto simp: bpf_step_def bpf_cases_def)

lemma validate_loop_sound:
  assumes ctx: "ctx_ok bc" and len: "unat len \<le> length f" "unat len \<le> 512"
    and last: "bi_code (f ! (unat len - 1)) = (BPF_RET OR BPF_K) \<or>
               bi_code (f ! (unat len - 1)) = (BPF_RET OR BPF_A)"
  shows "validate_loop bc (ctx_memwords bc) len i ps (invalid, mem) \<Longrightarrow>
     ps = drop (unat i) (take (unat len) f) \<Longrightarrow> length mem = unat len \<Longrightarrow>
     unat i \<le> bs_pc s \<Longrightarrow> bs_pc s < unat len \<Longrightarrow> machine_ok bc s \<Longrightarrow>
     covered (if bs_pc s = unat i then invalid OR mem ! unat i else mem ! bs_pc s) (bs_args s) \<Longrightarrow>
     \<exists>r. bpf_loop bc f s = Some r \<and> benign r"
proof (induction ps arbitrary: i invalid mem s)
  case Nil
  then show ?case using len by simp
next
  case (Cons p ps)
  from Cons.prems(2,4,5) have i: "unat i < unat len" by simp
  then have i1: "unat (i + 1) = unat i + 1" using len by (simp add: unat_word_ariths)
  have p: "f ! unat i = p" and ps: "ps = drop (unat (i + 1)) (take (unat len) f)"
    using Cons.prems(2) i len i1 by (auto simp: Cons_nth_drop_Suc [symmetric])
  obtain V' mem' where v: "validate_insn bc (ctx_memwords bc) len i p (invalid OR mem ! unat i, mem)
      = Some (V', mem')"
    and loop: "validate_loop bc (ctx_memwords bc) len (i + 1) ps (V', mem')"
    using Cons.prems(1) by (auto split: option.splits)
  note grow = validate_insn_mem [OF v]
  note IH = Cons.IH [OF loop ps]
  show ?case
  proof (cases "bs_pc s = unat i")
    case False
    have "covered (mem' ! bs_pc s) (bs_args s)"
      using Cons.prems(3,5,7) False grow by (auto intro: covered_mono)
    then have "covered (if bs_pc s = unat (i + 1) then V' OR mem' ! unat (i + 1)
        else mem' ! bs_pc s) (bs_args s)"
      using i1 by (auto intro: covered_mono simp: bit_mask)
    then show ?thesis using IH [of s] Cons.prems(3-6) False grow i1 by simp
  next
    case True
    have "safe_out bc len (unat i) (V', mem') (bpf_step bc f s)"
      using bpf_step_safe [OF ctx _ _ _ _ p v, of s] Cons.prems(3,6,7) True i len by simp
    then show ?thesis
    proof (cases rule: safe_outE)
      case (3 s')
      have "bs_pc s' < unat len"
      proof (cases "unat i = unat len - 1")
        case True
        then have "\<exists>v. bpf_step bc f s = Ret v"
          using ret_step last \<open>bs_pc s = unat i\<close> i len by simp
        with 3(1) show ?thesis by simp
      qed (use 3(3) i in auto)
      moreover have "covered (if bs_pc s' = unat (i + 1) then V' OR mem' ! unat (i + 1)
        else mem' ! bs_pc s') (bs_args s')"
        using 3(3) i1 by (auto intro: covered_mono simp: bit_mask)
      ultimately have "\<exists>r. bpf_loop bc f s' = Some r \<and> benign r"
        using IH [of s'] 3(2,3) Cons.prems(3) grow(1) i1 by auto
      then show ?thesis using 3(1) by (simp add: bpf_loop.simps [of bc f s])
    qed (simp_all add: bpf_loop.simps [of bc f s] benign_def)
  qed
qed

lemma bpf_validated_benign:
  assumes "bpf_validate_ext bc f len = Some True" "ctx_ok bc" "start_ok bc args"
  shows "\<exists>r. bpf_filter_ext bc (Some f) args = Some r \<and> benign r"
proof -
  from assms(1) have len: "0 < unat len" "unat len \<le> 512" "unat len \<le> length f"
    and last: "bi_code (f ! (unat len - 1)) = (BPF_RET OR BPF_K) \<or>
               bi_code (f ! (unat len - 1)) = (BPF_RET OR BPF_A)"
    and loop: "validate_loop bc (ctx_memwords bc) len 0 (take (unat len) f)
                   (NOT (ctx_preinited bc), replicate (unat len) 0)"
    by (auto simp: bpf_validate_ext_def word_less_nat_alt unat_gt_0 split: if_splits)
  have "covered (NOT (ctx_preinited bc) OR 0) args" using assms(3) by (simp add: start_ok_def)
  then show ?thesis
    using validate_loop_sound [OF assms(2) len(3,2) last loop] len(1) assms(3)
    by (simp add: bpf_filter_ext_def start_ok_def machine_ok_def)
qed

section \<open>Properties\<close>

abbreviation (input) BPF_STMT :: "u16 \<Rightarrow> u32 \<Rightarrow> bpf_insn" where
  "BPF_STMT c k \<equiv> \<lparr>bi_code = c, bi_jt = 0, bi_jf = 0, bi_k = k\<rparr>"

abbreviation (input) BPF_JUMP :: "u16 \<Rightarrow> u32 \<Rightarrow> u8 \<Rightarrow> u8 \<Rightarrow> bpf_insn" where
  "BPF_JUMP c k jt jf \<equiv> \<lparr>bi_code = c, bi_jt = jt, bi_jf = jf, bi_k = k\<rparr>"

text \<open>
  C1. Acceptance by the validator is a safety certificate: with a well-formed context
  (at most \<open>BPF_MAX_MEMWORDS\<close> external words, a coprocessor table of the announced
  length whose functions leave the packet description and the size of the store alone and
  only initialise scratch words), the store the context announces, and a packet that is a
  buffer of \<open>buflen > 0\<close> bytes or an mbuf chain none of whose mbufs after the first is
  empty, the interpreter returns, and the only undefined operation it can meet is a shift
  by 32 or more.  In particular no jump leaves the program, no scratch access leaves the
  store, no unwritten scratch word is read, and no constant divisor is zero.  A chain with
  an empty mbuf after the first is left out: there \<open>m_xhalf\<close> can read outside the packet
  (\<open>m_xhalf_empty_mbuf_reads_outside\<close>), whatever the validator accepted.
\<close>

theorem bpf_validated_program_safe:
  assumes "bpf_validate_ext bc f len = Some True"
    and "ctx_ok bc" and "start_ok bc args"
  shows "\<exists>r. bpf_filter_ext bc (Some f) args = Some r \<and> (\<forall>e. r = Inl e \<longrightarrow> e = FaultShift)"
proof -
  obtain r where r: "bpf_filter_ext bc (Some f) args = Some r" "benign r"
    using bpf_validated_benign [OF assms] by blast
  then have "\<forall>e. r = Inl e \<longrightarrow> e = FaultShift" by (auto simp: benign_def)
  with r show ?thesis by blast
qed

text \<open>A context with one coprocessor function, which adds the scratch word 3 to the accumulator
  and stores the sum there.\<close>

definition add_scratch :: bpf_copfunc where
  "add_scratch args A =
     (case aget (ba_mem args) 3 of
        Some (Some v) \<Rightarrow> (args\<lparr>ba_mem := (ba_mem args)[3 := Some (A + v)]\<rparr>, A + v)
      | _ \<Rightarrow> (args, A))"

definition cop_ctx :: bpf_ctx where
  "cop_ctx = fst (bpf_set_extmem (fst (bpf_set_cop bpf_create (Some [add_scratch]) 1)) 4 0)"

lemma cop_ctx_simps [simp]:
  "bc_copfuncs cop_ctx = Some [add_scratch]" "bc_nfuncs cop_ctx = 1" "bc_extwords cop_ctx = 4" "bc_preinited cop_ctx = 0"
  by (simp_all add: cop_ctx_def bpf_set_extmem_def bpf_set_cop_def bpf_create_def)

lemma add_scratch_ok: "cop_ok add_scratch"
proof -
  have "\<exists>y. m[3 := Some v] ! w = Some y" if "w < length m" "m ! w = Some z" for m :: "u32 option list" and v w z
    using that by (cases "w = 3") auto
  then show ?thesis by (auto simp: cop_ok_def add_scratch_def Let_def split: option.splits)
qed

theorem bpf_validated_program_safe_witness:
  "\<exists>r. bpf_filter_ext (Some cop_ctx)
         (Some [BPF_STMT 0x20 1, BPF_STMT 0x02 3, BPF_STMT 0x27 0, BPF_JUMP 0x15 7 0 1, BPF_STMT 0x60 3, BPF_STMT 0x16 0])
         \<lparr>ba_pkt = PktMbuf [[1, 2, 3], [4, 5]], ba_wirelen = 5, ba_buflen = 0, ba_mem = replicate 4 None\<rparr>
       = Some r \<and> (\<forall>e. r = Inl e \<longrightarrow> e = FaultShift)"
proof (rule bpf_validated_program_safe)
  show "bpf_validate_ext (Some cop_ctx)
      [BPF_STMT 0x20 1, BPF_STMT 0x02 3, BPF_STMT 0x27 0, BPF_JUMP 0x15 7 0 1, BPF_STMT 0x60 3, BPF_STMT 0x16 0] 6
      = Some True"
    by (simp add: bpf_validate_ext_def ctx_memwords_def ctx_extwords_def ctx_preinited_def validate_insn_def validate_ld_def
        validate_st_def validate_jmp_def validate_misc_def mark_def bpf_field_defs bit_of_def Let_def)
  show "ctx_ok (Some cop_ctx)" using add_scratch_ok by (simp add: ctx_ok_def)
  show "start_ok (Some cop_ctx)
      \<lparr>ba_pkt = PktMbuf [[1, 2, 3], [4, 5]], ba_wirelen = 5, ba_buflen = 0, ba_mem = replicate 4 None\<rparr>"
    by (simp add: start_ok_def args_ok_def pkt_ok_def ctx_memwords_def ctx_extwords_def
        ctx_preinited_def covered_def)
qed

text \<open>
  C24. The validator accepts programs that shift the accumulator by 32 or more, which the
  interpreter then executes as a C shift by at least the operand's width: for every
  constant \<open>k\<close> of 32 or more the two-instruction program is accepted and undefined.
\<close>

theorem bpf_validate_accepts_wide_shift:
  assumes "32 \<le> unat k"
  shows "bpf_validate [BPF_STMT 0x64 k, BPF_STMT 0x16 0] 2 = Some True \<and>
     bpf_filter (Some [BPF_STMT 0x64 k, BPF_STMT 0x16 0]) p wirelen buflen = Some (Inl FaultShift)"
proof
  show "bpf_validate [BPF_STMT 0x64 k, BPF_STMT 0x16 0] 2 = Some True"
    by (simp add: bpf_validate_def bpf_validate_ext_def validate_insn_def validate_alu_def
        bpf_field_defs Let_def)
  show "bpf_filter (Some [BPF_STMT 0x64 k, BPF_STMT 0x16 0]) p wirelen buflen = Some (Inl FaultShift)"
    using assms
    by (simp add: bpf_filter_def bpf_filter_ext_def bpf_loop.simps bpf_step_def bpf_cases_def
        alu_step_def alu_exec_def bpf_src_val_def)
qed

theorem bpf_validate_accepts_wide_shift_witness:
  "bpf_validate [BPF_STMT 0x64 40, BPF_STMT 0x16 0] 2 = Some True \<and>
   bpf_filter (Some [BPF_STMT 0x64 40, BPF_STMT 0x16 0]) (PktBuf [0]) 1 1 = Some (Inl FaultShift)"
  by (rule bpf_validate_accepts_wide_shift) simp

end
