(* ===== verification/Bpf_Packet.thy ===== *)
theory Bpf_Packet
  imports Bpf_Safety
begin

text \<open>
  The interpreter reads a packet either from a contiguous buffer or by walking an mbuf
  chain.  The locale \<open>packet_access\<close> is the interface both implement: what a load
  returns as a function of the packet's bytes alone.  The two interpretations discharge
  it for \<open>bpf_ld_abs\<close> on a buffer and for \<open>m_xword\<close>, \<open>m_xhalf\<close>, \<open>m_xbyte\<close> on a chain, and the
  filter's result is shown not to depend on which of the two holds the packet.
\<close>

section \<open>The interface\<close>

definition pkt_extract :: "bpf_size \<Rightarrow> u8 list \<Rightarrow> nat \<Rightarrow> u32 option" where
  "pkt_extract sz b k =
     (case sz of SzW \<Rightarrow> EXTRACT_LONG b k | SzH \<Rightarrow> EXTRACT_SHORT b k | SzB \<Rightarrow> EXTRACT_BYTE b k)"

definition spec_load :: "bpf_size \<Rightarrow> u8 list \<Rightarrow> u32 \<Rightarrow> bpf_load" where
  "spec_load sz b k = (case pkt_extract sz b (unat k) of None \<Rightarrow> LdReject | Some v \<Rightarrow> LdVal v)"

locale packet_access =
  fixes valid :: "'p \<Rightarrow> bool"
    and bytes :: "'p \<Rightarrow> u8 list"
    and load :: "bpf_size \<Rightarrow> 'p \<Rightarrow> u32 \<Rightarrow> bpf_load"
  assumes load_spec: "valid p \<Longrightarrow> load sz p k = spec_load sz (bytes p) k"
begin

lemma load_no_fault: "valid p \<Longrightarrow> load sz p k \<noteq> LdFault"
  by (simp add: load_spec spec_load_def split: option.splits)

lemma load_accepts_iff:
  "valid p \<Longrightarrow> (\<exists>v. load sz p k = LdVal v) \<longleftrightarrow> unat k + bpf_nbytes sz \<le> length (bytes p)"
  by (auto simp: load_spec spec_load_def pkt_extract_def bpf_nbytes_def EXTRACT_LONG_def
      EXTRACT_SHORT_def EXTRACT_BYTE_def aget_def split: bpf_size.splits option.splits if_splits)

lemma load_half_is_two_bytes:
  assumes "valid p" "unat k + 1 < length (bytes p)" "k + 1 \<noteq> 0"
  shows "\<exists>a b. load SzB p k = LdVal (ucast (a::u8)) \<and> load SzB p (k + 1) = LdVal (ucast (b::u8))
           \<and> load SzH p k = LdVal (be16 a b)"
proof -
  have "unat (k + 1) = unat k + 1" using assms(3) by (simp add: unatSuc add.commute)
  then show ?thesis using assms
    by (auto simp: load_spec spec_load_def pkt_extract_def EXTRACT_SHORT_def EXTRACT_BYTE_def)
qed

end

section \<open>The contiguous buffer\<close>

definition buf_valid :: "u8 list \<Rightarrow> bool" where
  "buf_valid b \<longleftrightarrow> b \<noteq> [] \<and> length b < 2 ^ 32"

definition buf_args :: "u8 list \<Rightarrow> bpf_args" where
  "buf_args b = \<lparr>ba_pkt = PktBuf b, ba_wirelen = 0, ba_buflen = of_nat (length b), ba_mem = []\<rparr>"

lemma beyond_abs_iff: "beyond_abs sz buflen k \<longleftrightarrow> unat buflen < unat k + bpf_nbytes sz"
proof (cases "buflen < ucast k")
  case True
  then have "unat buflen < unat k" by (simp add: word_less_nat_alt)
  then show ?thesis using True by (auto simp: beyond_abs_def split: bpf_size.splits)
next
  case False
  then have "unat (buflen - ucast k) = unat buflen - unat k" "unat k \<le> unat buflen"
    by (simp_all add: unat_sub word_le_nat_alt not_less)
  then show ?thesis using False
    by (auto simp: beyond_abs_def bpf_nbytes_def word_less_nat_alt word_le_nat_alt
        split: bpf_size.splits)
qed

lemma beyond_ind_eq: "beyond_ind sz buflen k = beyond_abs sz buflen k"
  by (auto simp: beyond_abs_def beyond_ind_def split: bpf_size.splits
      dest!: order.not_eq_order_implies_strict [rotated])

lemma bpf_ld_ind_abs:
  "bpf_ld_ind sz p args X k = (if X + k < X then LdReject else bpf_ld_abs sz p args (X + k))"
  by (simp add: bpf_ld_ind_def bpf_ld_abs_def beyond_ind_eq Let_def)

lemma load_buf_spec:
  "unat k + bpf_nbytes sz \<le> length b \<Longrightarrow> load_buf sz (PktBuf b) k = spec_load sz b k"
  by (auto simp: load_buf_def spec_load_def pkt_extract_def bpf_nbytes_def EXTRACT_LONG_def
      EXTRACT_SHORT_def EXTRACT_BYTE_def split: bpf_size.splits)

lemma spec_load_reject: "length b < unat k + bpf_nbytes sz \<Longrightarrow> spec_load sz b k = LdReject"
  by (auto simp: spec_load_def pkt_extract_def bpf_nbytes_def EXTRACT_LONG_def
      EXTRACT_SHORT_def EXTRACT_BYTE_def aget_def split: bpf_size.splits)

lemma bpf_ld_abs_buf:
  assumes "unat (ba_buflen args) = length b" "b \<noteq> []"
  shows "bpf_ld_abs sz (PktBuf b) args k = spec_load sz b k"
proof -
  have "ba_buflen args \<noteq> 0" using assms by auto
  then show ?thesis using assms
    by (auto simp: bpf_ld_abs_def beyond_abs_iff load_buf_spec spec_load_reject not_less)
qed

interpretation buffer: packet_access buf_valid "\<lambda>b. b" "\<lambda>sz b k. bpf_ld_abs sz (PktBuf b) (buf_args b) k"
  by unfold_locales
     (auto simp: buf_valid_def buf_args_def unat_of_nat_small intro!: bpf_ld_abs_buf)

section \<open>The mbuf chain\<close>

text \<open>
  \<open>m_xword\<close> looks at two consecutive mbufs only and \<open>m_xhalf\<close> does not check that the
  second one holds a byte, so the walk is exact for chains whose mbufs after the first
  are not empty and, the last one excepted, hold at least three bytes.
\<close>

definition chain_ok :: "u8 list list \<Rightarrow> bool" where
  "chain_ok m \<longleftrightarrow> m \<noteq> [] \<and> [] \<notin> set (tl m) \<and> (\<forall>mb \<in> set (butlast (tl m)). 3 \<le> length mb)"

lemma extract_append: "pkt_extract sz (xs @ ys) (length xs + j) = pkt_extract sz ys j"
  by (auto simp: pkt_extract_def EXTRACT_LONG_def EXTRACT_SHORT_def EXTRACT_BYTE_def aget_def nth_append
      split: bpf_size.splits)

lemma MINDEX_None: "MINDEX ms k = None \<longleftrightarrow> length (concat ms) \<le> k"
  by (induction ms k rule: MINDEX.induct) auto

lemma extract_beyond: "length b \<le> k \<Longrightarrow> pkt_extract sz b k = None"
  by (auto simp: pkt_extract_def EXTRACT_LONG_def EXTRACT_SHORT_def EXTRACT_BYTE_def aget_def
      split: bpf_size.splits)

lemma extract_at_MINDEX:
  assumes "MINDEX m k = Some (cp, next, j)"
  shows "pkt_extract sz (concat m) k = pkt_extract sz (cp @ concat next) j"
  using assms by (elim MINDEX_SomeE) (simp add: extract_append)

lemma chain_ok_next:
  assumes "chain_ok m" "MINDEX m k = Some (cp, np # rest, j)"
  shows "np \<noteq> [] \<and> (rest \<noteq> [] \<longrightarrow> 3 \<le> length np)"
proof -
  obtain pre where m: "m = pre @ cp # np # rest" using assms(2) by (rule MINDEX_SomeE)
  have "np \<in> set (tl m)" using m by (cases pre) auto
  moreover have "np \<in> set (butlast (tl m))" if "rest \<noteq> []"
    using m that by (cases pre) (auto simp: butlast_append)
  ultimately show ?thesis using assms(1) by (auto simp: chain_ok_def)
qed

lemma MINDEX_None_extract: "MINDEX m k = None \<Longrightarrow> pkt_extract sz (concat m) k = None"
  by (simp add: MINDEX_None extract_beyond)

lemma load_mbuf_none:
  "chain_ok m \<Longrightarrow> MINDEX m (unat k) = None \<Longrightarrow>
   load_mbuf sz (PktMbuf m) k = spec_load sz (concat m) k"
  by (cases sz) (simp_all add: load_mbuf_def m_xword_def m_xhalf_def m_xbyte_def chain_ok_def
      spec_load_def MINDEX_None_extract)

lemma spec_load_at:
  "MINDEX m (unat k) = Some (cp, next, j) \<Longrightarrow>
   spec_load sz (concat m) k =
     (case pkt_extract sz (cp @ concat next) j of None \<Rightarrow> LdReject | Some v \<Rightarrow> LdVal v)"
  by (simp add: spec_load_def extract_at_MINDEX)

lemma m_xbyte_spec:
  assumes "chain_ok m"
  shows "load_mbuf SzB (PktMbuf m) k = spec_load SzB (concat m) k"
proof (cases "MINDEX m (unat k)")
  case (Some t)
  then obtain cp "next" j where t: "MINDEX m (unat k) = Some (cp, next, j)" by (cases t) auto
  have "pkt_extract SzB (concat m) (unat k) = Some (ucast (cp ! j))"
    unfolding extract_at_MINDEX [OF t] using MINDEX_bound [OF t]
    by (simp add: pkt_extract_def EXTRACT_BYTE_def nth_append)
  then show ?thesis using t assms
    by (simp add: load_mbuf_def m_xbyte_def chain_ok_def spec_load_def)
qed (simp add: assms load_mbuf_none)

lemma m_xhalf_spec:
  assumes "chain_ok m"
  shows "load_mbuf SzH (PktMbuf m) k = spec_load SzH (concat m) k"
proof (cases "MINDEX m (unat k)")
  case None
  then show ?thesis using assms by (simp add: load_mbuf_none)
next
  case (Some t)
  then obtain cp "next" j where t: "MINDEX m (unat k) = Some (cp, next, j)" by (cases t) auto
  note b = MINDEX_bound [OF t] and np = chain_ok_next [OF assms, of "unat k" cp]
  have m: "m \<noteq> []" using assms by (simp add: chain_ok_def)
  show ?thesis
  proof (cases "next")
    case Nil
    then show ?thesis unfolding spec_load_at [OF t] using t m b
      by (auto simp: load_mbuf_def m_xhalf_def mx_opt_def pkt_extract_def EXTRACT_SHORT_def)
  next
    case (Cons q rest)
    then obtain q0 q' where "q = q0 # q'" using np t by (cases q) auto
    then show ?thesis unfolding spec_load_at [OF t] using t m b Cons
      by (auto simp: load_mbuf_def m_xhalf_def mx_opt_def pkt_extract_def EXTRACT_SHORT_def
          nth_append)
  qed
qed

lemma m_xword_spec:
  assumes "chain_ok m"
  shows "load_mbuf SzW (PktMbuf m) k = spec_load SzW (concat m) k"
proof (cases "MINDEX m (unat k)")
  case None
  then show ?thesis using assms by (simp add: load_mbuf_none)
next
  case (Some t)
  then obtain cp "next" j where t: "MINDEX m (unat k) = Some (cp, next, j)" by (cases t) auto
  note b = MINDEX_bound [OF t] and np = chain_ok_next [OF assms, of "unat k" cp]
  have m: "m \<noteq> []" using assms by (simp add: chain_ok_def)
  have left: "length cp = j + 1 \<or> length cp = j + 2 \<or> length cp = j + 3 \<or> 4 \<le> length cp - j"
    using b by linarith
  show ?thesis
  proof (cases "next")
    case Nil
    then show ?thesis unfolding spec_load_at [OF t] using t m b
      by (auto simp: load_mbuf_def m_xword_def mx_opt_def pkt_extract_def EXTRACT_LONG_def Let_def)
  next
    case (Cons q rest)
    then have q: "rest \<noteq> [] \<Longrightarrow> 3 \<le> length q" using np t by blast
    have e: "length cp - j = 2 \<Longrightarrow> j + 3 - length cp = 1" by linarith
    from left show ?thesis unfolding spec_load_at [OF t] using t m b Cons q e
      by (cases rest) (auto simp: load_mbuf_def m_xword_def mx_opt_def pkt_extract_def
          EXTRACT_LONG_def Let_def nth_append)
  qed
qed

interpretation chain: packet_access chain_ok concat "\<lambda>sz m k. load_mbuf sz (PktMbuf m) k"
proof
  show "load_mbuf sz (PktMbuf m) k = spec_load sz (concat m) k" if "chain_ok m" for m sz k
    using that by (cases sz) (simp_all add: m_xword_spec m_xhalf_spec m_xbyte_spec)
qed

section \<open>The filter does not see how the packet is stored\<close>

text \<open>\<open>repack\<close> replaces the packet description in a machine state.\<close>

definition repack :: "bpf_pkt \<Rightarrow> u64 \<Rightarrow> bpf_state \<Rightarrow> bpf_state" where
  "repack p n s = s\<lparr>bs_p := p, bs_args := (bs_args s)\<lparr>ba_pkt := p, ba_buflen := n\<rparr>\<rparr>"

fun repack_out :: "bpf_pkt \<Rightarrow> u64 \<Rightarrow> bpf_out \<Rightarrow> bpf_out" where
  "repack_out p n (Next s) = Next (repack p n s)"
| "repack_out p n (Ret v) = Ret v"
| "repack_out p n (Fault e) = Fault e"

lemma repack_fields [simp]:
  "bs_A (repack p n s) = bs_A s" "bs_X (repack p n s) = bs_X s" "bs_pc (repack p n s) = bs_pc s"
  "bs_p (repack p n s) = p" "ba_pkt (bs_args (repack p n s)) = p" "ba_buflen (bs_args (repack p n s)) = n"
  "ba_mem (bs_args (repack p n s)) = ba_mem (bs_args s)"
  "ba_wirelen (bs_args (repack p n s)) = ba_wirelen (bs_args s)"
  by (simp_all add: repack_def)

definition same_loads :: "bpf_state \<Rightarrow> bpf_pkt \<Rightarrow> u64 \<Rightarrow> bool" where
  "same_loads s p n \<longleftrightarrow>
     (\<forall>sz k. bpf_ld_abs sz p (bs_args (repack p n s)) k = bpf_ld_abs sz (bs_p s) (bs_args s) k)"

lemma repack_advance:
  "advance (repack p n s) = repack_out p n (advance s)"
  "load_A (repack p n s) l = repack_out p n (load_A s l)"
  "load_msh (repack p n s) l = repack_out p n (load_msh s l)"
  "store_word (repack p n s) k v = repack_out p n (store_word s k v)"
  "branch (repack p n s) i b = repack_out p n (branch s i b)"
  by (auto simp: repack_def advance_def load_A_def load_msh_def store_word_def mem_write_def
      branch_def split: bpf_load.splits)

lemma repack_reads:
  "mem_read (bs_args (repack p n s)) k = mem_read (bs_args s) k"
  "bpf_src_val (repack p n s) i src = bpf_src_val s i src"
  by (simp add: mem_read_def) (cases src; simp add: bpf_src_val_def)

lemma repack_upd:
  "(repack p n s)\<lparr>bs_A := v\<rparr> = repack p n (s\<lparr>bs_A := v\<rparr>)"
  "(repack p n s)\<lparr>bs_X := v\<rparr> = repack p n (s\<lparr>bs_X := v\<rparr>)"
  "(repack p n s)\<lparr>bs_pc := c\<rparr> = repack p n (s\<lparr>bs_pc := c\<rparr>)"
  by (simp_all add: repack_def)

lemma repack_exec:
  assumes "same_loads s p n"
  shows "bpf_exec None (repack p n s) i c = repack_out p n (bpf_exec None s i c)"
  using assms
  by (cases c) (auto simp: repack_advance repack_reads repack_upd same_loads_def bpf_ld_ind_abs
      alu_step_def cop_call_def split: sum.splits)

lemma repack_step:
  "same_loads s p n \<Longrightarrow> bpf_step None f (repack p n s) = repack_out p n (bpf_step None f s)"
  by (auto simp: bpf_step_def repack_exec split: option.splits)

lemma same_loads_step:
  assumes "bpf_step None f s = Next s'"
  shows "bs_p s' = bs_p s \<and> ba_pkt (bs_args s') = ba_pkt (bs_args s) \<and> ba_buflen (bs_args s') = ba_buflen (bs_args s)"
proof -
  have "bpf_exec None s i c = Next s' \<Longrightarrow> ?thesis" for i c
    by (cases c)
       (auto simp: bpf_out_defs mem_write_def
             split: sum.splits bpf_load.splits option.splits if_splits prod.splits)
  then show ?thesis using assms by (auto simp: bpf_step_def split: option.splits)
qed

lemma chain_buffer_loads:
  assumes "chain_ok m" "buf_valid (concat m)"
    and "bs_p s = PktMbuf m" "ba_pkt (bs_args s) = PktMbuf m" "ba_buflen (bs_args s) = 0"
  shows "same_loads s (PktBuf (concat m)) (of_nat (length (concat m)))"
proof -
  have len: "unat (of_nat (length (concat m)) :: u64) = length (concat m)"
    using assms(2) by (intro unat_of_nat_small) (simp add: buf_valid_def)
  have "bpf_ld_abs sz (PktBuf (concat m)) (bs_args (repack (PktBuf (concat m)) (of_nat (length (concat m))) s)) k
      = spec_load sz (concat m) k" for sz k
    by (rule bpf_ld_abs_buf) (use len assms(2) in \<open>auto simp: buf_valid_def\<close>)
  moreover have "bpf_ld_abs sz (bs_p s) (bs_args s) k = spec_load sz (concat m) k" for sz k
    using assms(1,4,5) chain.load_spec by (simp add: bpf_ld_abs_def beyond_abs_empty)
  ultimately show ?thesis by (simp add: same_loads_def)
qed

text \<open>Two runs in step: if the one returns, so does the other, with the same result.\<close>

lemma repack_loop_returns:
  assumes "chain_ok m" "buf_valid (concat m)"
  defines "rp \<equiv> repack (PktBuf (concat m)) (of_nat (length (concat m)))"
  shows "bpf_loop bc f s = Some r \<Longrightarrow> bc = None \<Longrightarrow> bs_p s = PktMbuf m \<Longrightarrow> ba_pkt (bs_args s) = PktMbuf m \<Longrightarrow>
    ba_buflen (bs_args s) = 0 \<Longrightarrow> bpf_loop None f (rp s) = Some r"
proof (induction rule: bpf_loop.raw_induct [rotated, consumes 1])
  case (1 loop bc f s r)
  note step = repack_step [OF chain_buffer_loads [OF assms(1,2) 1(4-6)], of f, folded rp_def]
  show ?case
  proof (cases "bpf_step None f s")
    case (Next s')
    then have "bpf_loop None f (rp s') = Some r" using 1(1) [of bc f s' r] 1(2-6) same_loads_step [OF Next] by simp
    then show ?thesis using step Next by (subst bpf_loop.simps) (simp add: rp_def)
  qed (use step 1(2,3) in \<open>simp_all add: bpf_loop.simps [of None f "rp s"]\<close>)
qed

lemma repack_loop_returned:
  assumes "chain_ok m" "buf_valid (concat m)"
  defines "rp \<equiv> repack (PktBuf (concat m)) (of_nat (length (concat m)))"
  shows "bpf_loop bc f t = Some r \<Longrightarrow> bc = None \<Longrightarrow> t = rp s \<Longrightarrow> bs_p s = PktMbuf m \<Longrightarrow> ba_pkt (bs_args s) = PktMbuf m \<Longrightarrow>
    ba_buflen (bs_args s) = 0 \<Longrightarrow> bpf_loop None f s = Some r"
proof (induction arbitrary: s rule: bpf_loop.raw_induct [rotated, consumes 1])
  case (1 loop bc f t r)
  note step = repack_step [OF chain_buffer_loads [OF assms(1,2) 1(5-7)], of f, folded rp_def]
  show ?case
  proof (cases "bpf_step None f s")
    case (Next s')
    then have "bpf_loop None f s' = Some r" using 1(1) [of bc f "rp s'" r s'] 1(2-7) same_loads_step [OF Next] step by (simp add: rp_def)
    then show ?thesis using Next by (subst bpf_loop.simps) simp
  qed (use step 1(2-4) in \<open>simp_all add: bpf_loop.simps [of None f s]\<close>)
qed

lemma chain_buffer_loop:
  assumes "chain_ok m" "buf_valid (concat m)" "bs_p s = PktMbuf m" "ba_pkt (bs_args s) = PktMbuf m" "ba_buflen (bs_args s) = 0"
  shows "bpf_loop None f (repack (PktBuf (concat m)) (of_nat (length (concat m))) s) = bpf_loop None f s"
proof (cases "bpf_loop None f s")
  case None
  then show ?thesis using repack_loop_returned [OF assms(1,2) _ refl refl assms(3-5)] by (cases "bpf_loop None f (repack (PktBuf (concat m)) (of_nat (length (concat m))) s)") auto
next
  case (Some r)
  then show ?thesis using repack_loop_returns [OF assms(1,2) Some refl assms(3-5)] by simp
qed

section \<open>Properties\<close>

text \<open>
  C7. Filtering a packet in an mbuf chain (\<open>buflen = 0\<close>) and filtering the same bytes in
  one contiguous buffer give the same result, or both do not return, for every program,
  when the packet has at least one and fewer than \<open>2^32\<close> bytes, no mbuf after the first is
  empty, and every mbuf other than the first and the last holds at least three bytes.
  (With an empty mbuf \<open>m_xhalf\<close> reads outside the packet; with a shorter inner mbuf
  \<open>m_xword\<close> gives up where the buffer has the bytes.)
\<close>

theorem bpf_filter_chain_eq_buffer:
  assumes "chain_ok m" and "concat m \<noteq> []" and "length (concat m) < 2 ^ 32"
  shows "bpf_filter pc (PktMbuf m) wirelen 0 =
         bpf_filter pc (PktBuf (concat m)) wirelen (of_nat (length (concat m)))"
proof (cases pc)
  case (Some f)
  let ?s = "\<lparr>bs_A = 0, bs_X = 0, bs_pc = 0, bs_p = PktMbuf m, bs_args = \<lparr>ba_pkt = PktMbuf m,
      ba_wirelen = ucast wirelen, ba_buflen = 0, ba_mem = replicate 16 None\<rparr>\<rparr>"
  have "(ucast (of_nat (length (concat m)) :: u32) :: u64) = of_nat (length (concat m))"
    by (rule word_unat_eq_iff [THEN iffD2]) (use assms(3) in \<open>simp add: unat_of_nat_small\<close>)
  then show ?thesis
    using chain_buffer_loop [of m ?s f] assms Some
    by (simp add: bpf_filter_def bpf_filter_ext_def repack_def buf_valid_def)
qed (simp add: bpf_filter_def bpf_filter_ext_def)

theorem bpf_filter_chain_eq_buffer_witness:
  "bpf_filter (Some [BPF_STMT 0x20 1, BPF_STMT 0x16 0]) (PktMbuf [[1, 2], [3, 4, 5], [6]]) 6 0 =
   bpf_filter (Some [BPF_STMT 0x20 1, BPF_STMT 0x16 0]) (PktBuf [1, 2, 3, 4, 5, 6]) 6 6"
  using bpf_filter_chain_eq_buffer [of "[[1, 2], [3, 4, 5], [6]]"] by (simp add: chain_ok_def)

text \<open>
  C32. \<open>m_xhalf\<close> does not check that the following mbuf holds a byte: when the offset is
  the last byte of an mbuf and the next mbuf is empty, it reads outside the packet's
  data although it reports success.  (\<open>m_xword\<close> has the check.)
\<close>

theorem m_xhalf_empty_mbuf_reads_outside:
  assumes "cp \<noteq> []" and "unat k + 1 = length (concat pre) + length cp"
  shows "m_xhalf (pre @ cp # [] # rest) k = MxOob"
proof -
  have "MINDEX (pre @ cp # [] # rest) (length (concat pre) + j) = MINDEX (cp # [] # rest) j" for j
    by (induction pre) auto
  from this [of "length cp - 1"]
  have "MINDEX (pre @ cp # [] # rest) (unat k) = Some (cp, [] # rest, length cp - 1)"
    using assms by (cases cp) auto
  then show ?thesis using assms(1) by (cases cp) (simp_all add: m_xhalf_def)
qed

theorem m_xhalf_empty_mbuf_reads_outside_witness:
  "m_xhalf ([] @ [7] # [] # [[8, 9]]) 0 = MxOob"
  by (rule m_xhalf_empty_mbuf_reads_outside) simp_all

end
