(* ===== verification/Clock_Subr.thy ===== *)
theory Clock_Subr
  imports Kernel_Prelude
begin

text \<open>
  Conversion between POSIX seconds and calendar dates: \<^verbatim>\<open>sys/dev/clock_subr.c\<close> with the
  inline functions of \<^verbatim>\<open>sys/sys/clock.h\<close> and \<^verbatim>\<open>sys/dev/clock_subr.h\<close>.

  The fields of \<open>struct clock_ymdhms\<close> are integers in the range of their C types.  In
  \<open>clock_ymdhms_to_secs\<close> the sums are kept in \<open>uint64_t\<close> variables; they only pass
  through additions and multiplications, so the wrap-around is written once, on the
  final value.  In \<open>clock_secs_to_ymdhms\<close> every value shrinks and nothing wraps.
\<close>

section \<open>The calendar helpers\<close>

definition days_in_month :: "int \<Rightarrow> int" where
  "days_in_month m =
     (if m = 2 then 28
      else if m = 4 \<or> m = 6 \<or> m = 9 \<or> m = 11 then 30
      else if m = 1 \<or> m = 3 \<or> m = 5 \<or> m = 7 \<or> m = 8 \<or> m = 10 \<or> m = 12 then 31
      else - 1)"

definition is_leap_year :: "int \<Rightarrow> bool" where
  "is_leap_year year =
     (if year AND 3 \<noteq> 0 then False
      else if year mod 100 \<noteq> 0 then True
      else year mod 400 = 0)"

definition days_per_year :: "int \<Rightarrow> int" where
  "days_per_year year = (if is_leap_year year then 366 else 365)"

definition bcdtobin :: "u32 \<Rightarrow> u32" where
  "bcdtobin bcd = (drop_bit 4 bcd AND 0x0f) * 10 + (bcd AND 0x0f)"

definition bintobcd :: "u32 \<Rightarrow> u32" where
  "bintobcd bin = (push_bit 4 (bin div 10) AND 0xf0) OR (bin mod 10)"

abbreviation (input) POSIX_BASE_YEAR :: int where "POSIX_BASE_YEAR \<equiv> 1970"
abbreviation (input) FEBRUARY :: int where "FEBRUARY \<equiv> 2"
abbreviation (input) DAYSTO2000 :: int where "DAYSTO2000 \<equiv> 365 * 30 + 7"
abbreviation (input) DAYS4YEARS :: int where "DAYS4YEARS \<equiv> 365 * 4 + 1"
abbreviation (input) DAYS100YEARS :: int where "DAYS100YEARS \<equiv> 365 * 100 + 24"
abbreviation (input) DAYS400YEARS :: int where "DAYS400YEARS \<equiv> 365 * 400 + 97"
abbreviation (input) SECS_PER_DAY :: int where "SECS_PER_DAY \<equiv> 86400"
abbreviation (input) SECS_PER_HOUR :: int where "SECS_PER_HOUR \<equiv> 3600"
abbreviation (input) SECS_PER_MINUTE :: int where "SECS_PER_MINUTE \<equiv> 60"

record clock_ymdhms =
  dt_year :: int
  dt_mon :: int
  dt_day :: int
  dt_wday :: int
  dt_hour :: int
  dt_min :: int
  dt_sec :: int

section \<open>From a date to seconds\<close>

text \<open>\<open>for (i = i0; i < year; i++) days += days_per_year(i);\<close>\<close>

function add_years :: "int \<Rightarrow> int \<Rightarrow> int \<Rightarrow> int" where
  "add_years i year days =
     (if i < year then add_years (i + 1) year (days + days_per_year i) else days)"
  by pat_completeness auto
termination
  by (relation "measure (\<lambda>(i, year, days). nat (year - i))") auto

text \<open>\<open>for (i = i0; i < mon; i++) days += days_in_month(i);\<close>\<close>

function add_months :: "int \<Rightarrow> int \<Rightarrow> int \<Rightarrow> int" where
  "add_months i mon days =
     (if i < mon then add_months (i + 1) mon (days + days_in_month i) else days)"
  by pat_completeness auto
termination
  by (relation "measure (\<lambda>(i, mon, days). nat (mon - i))") auto

declare add_years.simps [simp del] add_months.simps [simp del]

text \<open>The days the branch on the year adds to \<open>days\<close>.\<close>

definition year_days :: "int \<Rightarrow> int \<Rightarrow> int" where
  "year_days dtyear days =
     (if dtyear < 2000 then add_years POSIX_BASE_YEAR dtyear days
      else
        let days = days + DAYSTO2000; year = dtyear - 2000;
            i = year div 400; days = days + i * DAYS400YEARS; year = year - i * 400;
            i = year div 100; days = days + i * DAYS100YEARS; year = year - i * 100;
            i = year div 4; days = days + i * DAYS4YEARS; year = year - i * 4
        in add_years (dtyear - year) dtyear days)"

definition clock_ymdhms_to_secs :: "clock_ymdhms \<Rightarrow> int" where
  "clock_ymdhms_to_secs dt =
     (let year = dt_year dt in
      if year < POSIX_BASE_YEAR then - 1
      else
        let days = (if is_leap_year year \<and> dt_mon dt > FEBRUARY then 1 else 0);
            days = year_days year days;
            days = add_months 1 (dt_mon dt) days;
            days = days + (dt_day dt - 1);
            secs = (((days * 24 + dt_hour dt) * 60 + dt_min dt) * 60 + dt_sec dt) mod 2 ^ 64
        in if secs \<ge> 2 ^ 63 then - 1 else secs)"

section \<open>From seconds to a date\<close>

text \<open>\<open>for (i = i0; days >= days_per_year(i); i++) days -= days_per_year(i);\<close>
  gives the final year and the days left.\<close>

lemma days_per_year_pos: "0 < days_per_year y"
  by (simp add: days_per_year_def)

function sub_years :: "int \<Rightarrow> int \<Rightarrow> int \<times> int" where
  "sub_years i days =
     (if days \<ge> days_per_year i then sub_years (i + 1) (days - days_per_year i) else (i, days))"
  by pat_completeness auto
termination
proof (relation "measure (\<lambda>(i, days). nat days)", goal_cases)
  case (2 i days)
  then show ?case using days_per_year_pos [of i] by auto
qed simp

declare sub_years.simps [simp del]

text \<open>The month loop; beyond December \<open>days_in_month\<close> is \<open>-1\<close> and the loop of the code
  would not end, which is \<open>None\<close>.\<close>

partial_function (option) sub_months :: "int \<Rightarrow> int \<Rightarrow> int \<Rightarrow> int \<Rightarrow> (int \<times> int) option" where
  "sub_months year leap i days =
     (if days \<ge> days_in_month i + leap then
        sub_months year (if i = 1 \<and> is_leap_year year then 1 else 0) (i + 1)
          (days - (days_in_month i + leap))
      else Some (i, days))"

definition split_year :: "int \<Rightarrow> int \<times> int" where
  "split_year days =
     (if days \<ge> DAYSTO2000 then
        let days = days - DAYSTO2000; year = 2000;
            i = days div DAYS400YEARS; days = days - i * DAYS400YEARS; year = year + i * 400;
            i = days div DAYS100YEARS; days = days - i * DAYS100YEARS; year = year + i * 100;
            i = days div DAYS4YEARS; days = days - i * DAYS4YEARS; year = year + i * 4
        in sub_years year days
      else sub_years POSIX_BASE_YEAR days)"

text \<open>\<open>clock_secs_to_ymdhms\<close>: the outer option is non-termination, \<open>Inl\<close> the error code.\<close>

definition clock_secs_to_ymdhms :: "int \<Rightarrow> (int + clock_ymdhms) option" where
  "clock_secs_to_ymdhms secs =
     (if secs < 0 then Some (Inl 22)
      else
        let days = secs div SECS_PER_DAY; rsec = secs mod SECS_PER_DAY;
            wday = (days + 4) mod 7
        in case split_year days of (year, days) \<Rightarrow>
           (case sub_months year 0 1 days of
              None \<Rightarrow> None
            | Some (mon, days) \<Rightarrow>
                Some (Inr \<lparr>dt_year = year, dt_mon = mon, dt_day = days + 1, dt_wday = wday,
                  dt_hour = rsec div SECS_PER_HOUR,
                  dt_min = rsec mod SECS_PER_HOUR div SECS_PER_MINUTE,
                  dt_sec = rsec mod SECS_PER_HOUR mod SECS_PER_MINUTE\<rparr>)))"

section \<open>The calendar these routines should compute\<close>

definition month_days :: "int \<Rightarrow> int \<Rightarrow> int" where
  "month_days y m = days_in_month m + (if m = 2 \<and> is_leap_year y then 1 else 0)"

definition valid_dt :: "clock_ymdhms \<Rightarrow> bool" where
  "valid_dt dt \<longleftrightarrow>
     1970 \<le> dt_year dt \<and> 1 \<le> dt_mon dt \<and> dt_mon dt \<le> 12 \<and>
     1 \<le> dt_day dt \<and> dt_day dt \<le> month_days (dt_year dt) (dt_mon dt) \<and>
     0 \<le> dt_hour dt \<and> dt_hour dt < 24 \<and> 0 \<le> dt_min dt \<and> dt_min dt < 60 \<and>
     0 \<le> dt_sec dt \<and> dt_sec dt < 60"

text \<open>Days from the epoch to the first of January of a year, and to a date.\<close>

definition epoch_year :: "int \<Rightarrow> int" where
  "epoch_year y = (\<Sum>k = 1970..<y. days_per_year k)"

definition epoch_days :: "int \<Rightarrow> int \<Rightarrow> int \<Rightarrow> int" where
  "epoch_days y m d = epoch_year y + (\<Sum>k = 1..<m. month_days y k) + (d - 1)"

definition epoch_secs :: "clock_ymdhms \<Rightarrow> int" where
  "epoch_secs dt =
     epoch_days (dt_year dt) (dt_mon dt) (dt_day dt) * 86400
       + dt_hour dt * 3600 + dt_min dt * 60 + dt_sec dt"

text \<open>The first four years of a century whose first year is not a leap year.\<close>

definition short_block :: "int \<Rightarrow> bool" where
  "short_block y \<longleftrightarrow> 2000 \<le> y \<and> y mod 100 < 4 \<and> 4 \<le> y mod 400"

end
