(* ===== verification/Clock_Calendar.thy ===== *)
theory Clock_Calendar
  imports Clock_Subr
begin

text \<open>
  The proleptic Gregorian calendar against \<open>clock_ymdhms_to_secs\<close> and
  \<open>clock_secs_to_ymdhms\<close>: where the two agree with it, and the dates on which they do
  not (the shortcut through blocks of 100 years takes every century to have 24 leap
  years, but the blocks start in 2000, whose century has 25).
\<close>

section \<open>Sums over years and months\<close>

lemma int_ivl_Suc: "(i::int) < n \<Longrightarrow> {i..<n} = insert i {i + 1..<n}"
  by auto

lemma sum_int_head: "(i::int) < n \<Longrightarrow> sum f {i..<n} = f i + sum f {i + 1..<n}"
  by (simp add: int_ivl_Suc)

lemma sum_int_split: "(a::int) \<le> b \<Longrightarrow> b \<le> c \<Longrightarrow> sum f {a..<b} + sum f {b..<c} = sum f {a..<c}"
  by (subst sum.union_disjoint [symmetric]) (auto simp: ivl_disj_un)

lemma add_years_sum: "add_years i year days = days + sum days_per_year {i..<year}"
  by (induction i year days rule: add_years.induct)
     (simp add: add_years.simps sum_int_head add.assoc)

lemma add_months_sum: "add_months i mon days = days + sum days_in_month {i..<mon}"
  by (induction i mon days rule: add_months.induct)
     (simp add: add_months.simps sum_int_head add.assoc)

lemma epoch_year_split: "1970 \<le> a \<Longrightarrow> a \<le> b \<Longrightarrow> epoch_year a + sum days_per_year {a..<b} = epoch_year b"
  by (simp add: epoch_year_def sum_int_split)

lemma sum_month_days:
  "sum (month_days y) {1..<m} = sum days_in_month {1..<m} + (if is_leap_year y \<and> 2 < m then 1 else 0)"
proof -
  have "sum (month_days y) {1..<m} =
      sum days_in_month {1..<m} + sum (\<lambda>k. if k = 2 then (if is_leap_year y then 1 else 0) else 0) {1..<m}"
    unfolding sum.distrib [symmetric] by (rule sum.cong) (auto simp: month_days_def)
  then show ?thesis by simp
qed

lemma year_is_months: "sum (month_days y) {1..<13} = days_per_year y"
  by (simp add: sum_month_days sum_int_head days_in_month_def days_per_year_def)

section \<open>Counting leap years\<close>

lemma and_3_mod: "(y::int) AND 3 = y mod 4"
proof -
  have "y AND mask 2 = take_bit 2 y" by (simp add: take_bit_eq_mask)
  then show ?thesis by (simp add: mask_eq_exp_minus_1 take_bit_eq_mod)
qed

lemma is_leap_year_iff:
  "is_leap_year y \<longleftrightarrow> y mod 4 = 0 \<and> (y mod 100 \<noteq> 0 \<or> y mod 400 = 0)"
  by (auto simp: is_leap_year_def and_3_mod)

text \<open>Leap years in \<open>[0, y)\<close>.\<close>

definition leaps :: "int \<Rightarrow> int" where
  "leaps y = (y + 3) div 4 - (y + 99) div 100 + (y + 399) div 400"

lemma ceil_div_step:
  assumes "0 < (n::int)"
  shows "(y + n) div n = (y + (n - 1)) div n + (if y mod n = 0 then 1 else 0)"
proof -
  define q r where "q = y div n" and "r = y mod n"
  have y: "y = n * q + r" "0 \<le> r" "r < n" using assms by (simp_all add: q_def r_def)
  have "(y + n) div n = q + 1" using assms by (simp add: q_def div_add_self2)
  moreover have "(y + (n - 1)) div n = q + (r + (n - 1)) div n"
    using assms unfolding y(1) by (simp add: add.assoc div_add1_eq [symmetric] div_mult_self4)
  moreover have "(r + (n - 1)) div n = (if r = 0 then 0 else 1)"
  proof (cases "r = 0")
    case False
    then have "(r + (n - 1)) div n = 1" using y(2,3) by (intro int_div_pos_eq [of _ _ _ "r - 1"]) auto
    then show ?thesis using False by simp
  qed (use assms in simp)
  ultimately show ?thesis by (simp add: r_def)
qed

lemma mod_chain: "(y::int) mod 400 = 0 \<Longrightarrow> y mod 100 = 0" "(y::int) mod 100 = 0 \<Longrightarrow> y mod 4 = 0"
  using mod_mod_cancel [of 100 400 y] mod_mod_cancel [of 4 100 y] by simp_all

lemma three_counts:
  "\<lbrakk>a' = a + (if P then 1 else 0); b' = b + (if Q then 1 else 0); c' = c + (if R then 1 else 0);
    R \<Longrightarrow> Q; Q \<Longrightarrow> P\<rbrakk>
   \<Longrightarrow> a' - b' + c' = a - b + c + (if P \<and> (\<not> Q \<or> R) then 1 else (0::int))"
  by auto

lemma leaps_step: "leaps (y + 1) = leaps y + (if is_leap_year y then 1 else 0)"
  unfolding leaps_def is_leap_year_iff
proof (rule three_counts)
  show "(y + 1 + 3) div 4 = (y + 3) div 4 + (if y mod 4 = 0 then 1 else 0)"
    using ceil_div_step [of 4 y] by (simp only: add.assoc) simp
  show "(y + 1 + 99) div 100 = (y + 99) div 100 + (if y mod 100 = 0 then 1 else 0)"
    using ceil_div_step [of 100 y] by (simp only: add.assoc) simp
  show "(y + 1 + 399) div 400 = (y + 399) div 400 + (if y mod 400 = 0 then 1 else 0)"
    using ceil_div_step [of 400 y] by (simp only: add.assoc) simp
qed (rule mod_chain, assumption)+

lemma epoch_year_closed: "1970 \<le> y \<Longrightarrow> epoch_year y = 365 * (y - 1970) + leaps y - 478"
proof (induction y rule: int_ge_induct)
  case base
  show ?case by (simp add: epoch_year_def leaps_def)
next
  case (step y)
  have "epoch_year (y + 1) = epoch_year y + days_per_year y"
    using epoch_year_split [of y "y + 1"] step.hyps by (simp add: sum_int_head)
  then show ?case using step by (simp add: leaps_step days_per_year_def)
qed

text \<open>The first year of each four-year block after 2000, and how far the constants of the
  code are from it.\<close>

lemma block_start:
  assumes "0 \<le> q4" "0 \<le> q1" "q1 < 4" "0 \<le> q" "q < 25"
  shows "epoch_year (2000 + 400 * q4 + 100 * q1 + 4 * q) =
           DAYSTO2000 + DAYS400YEARS * q4 + DAYS100YEARS * q1 + DAYS4YEARS * q
             + (if 0 < q1 \<and> q = 0 then 1 else 0)"
proof -
  let ?b = "2000 + 400 * q4 + 100 * q1 + 4 * q"
  have d4: "(?b + 3) div 4 = 500 + 100 * q4 + 25 * q1 + q"
    by (rule int_div_pos_eq [of _ _ _ 3]) auto
  have d100: "(?b + 99) div 100 = 20 + 4 * q4 + q1 + (if q = 0 then 0 else 1)"
    using assms by (cases "q = 0") (auto intro: int_div_pos_eq [of _ _ _ 99] int_div_pos_eq [of _ _ _ "4 * q - 1"])
  have d400: "(?b + 399) div 400 = 5 + q4 + (if q1 = 0 \<and> q = 0 then 0 else 1)"
    using assms by (cases "q1 = 0 \<and> q = 0")
      (auto intro: int_div_pos_eq [of _ _ _ 399] int_div_pos_eq [of _ _ _ "100 * q1 + 4 * q - 1"])
  have "1970 \<le> ?b" using assms by simp
  then show ?thesis using assms unfolding epoch_year_closed [OF \<open>1970 \<le> ?b\<close>] leaps_def d4 d100 d400
    by auto
qed

section \<open>Date to seconds\<close>

text \<open>A year from 2000 on, split the way the code splits it.\<close>

lemma year_digits:
  assumes "2000 \<le> (y::int)"
  obtains q4 q1 q t where "y = 2000 + 400 * q4 + 100 * q1 + 4 * q + t"
    "0 \<le> q4" "0 \<le> q1" "q1 < 4" "0 \<le> q" "q < 25" "0 \<le> t" "t < 4"
    "q4 = (y - 2000) div 400" "q1 = (y - 2000 - q4 * 400) div 100"
    "q = (y - 2000 - q4 * 400 - q1 * 100) div 4" "t = y - 2000 - q4 * 400 - q1 * 100 - q * 4"
proof -
  define q4 where "q4 = (y - 2000) div 400"
  define r where "r = y - 2000 - q4 * 400"
  define q1 where "q1 = r div 100"
  define u where "u = r - q1 * 100"
  define q where "q = u div 4"
  define t where "t = u - q * 4"
  have r: "r = (y - 2000) mod 400" by (simp add: r_def q4_def minus_div_mult_eq_mod)
  have u: "u = r mod 100" by (simp add: u_def q1_def minus_div_mult_eq_mod)
  have t: "t = u mod 4" by (simp add: t_def q_def minus_div_mult_eq_mod)
  have rb: "0 \<le> r" "r < 400" by (simp_all add: r)
  have ub: "0 \<le> u" "u < 100" by (simp_all add: u)
  show ?thesis
  proof (rule that [of q4 q1 q t])
    show "y = 2000 + 400 * q4 + 100 * q1 + 4 * q + t" by (simp add: t_def u_def r_def)
    show "0 \<le> q4" using assms by (simp add: q4_def pos_imp_zdiv_nonneg_iff)
    show "0 \<le> q1" using rb by (simp add: q1_def pos_imp_zdiv_nonneg_iff)
    show "q1 < 4" using rb by (simp add: q1_def)
    show "0 \<le> q" using ub by (simp add: q_def pos_imp_zdiv_nonneg_iff)
    show "q < 25" using ub by (simp add: q_def)
    show "0 \<le> t" "t < 4" by (simp_all add: t)
  qed (simp_all add: q4_def q1_def q_def t_def u_def r_def)
qed

lemma short_block_digits:
  assumes "y = 2000 + 400 * q4 + 100 * q1 + 4 * q + t" "0 \<le> q4"
    and "0 \<le> q1" "q1 < 4" "0 \<le> q" "q < 25" "0 \<le> t" "t < 4"
  shows "short_block y \<longleftrightarrow> 0 < q1 \<and> q = 0"
proof -
  have "y mod 100 = 4 * q + t" by (rule int_mod_pos_eq [of _ _ "20 + 4 * q4 + q1"]) (use assms in auto)
  moreover have "y mod 400 = 100 * q1 + 4 * q + t"
    by (rule int_mod_pos_eq [of _ _ "5 + q4"]) (use assms in auto)
  moreover have "2000 \<le> y" using assms by simp
  ultimately show ?thesis using assms unfolding short_block_def by auto
qed

lemma year_days_eq:
  assumes "1970 \<le> y"
  shows "year_days y d = d + epoch_year y - (if short_block y then 1 else 0)"
proof (cases "y < 2000")
  case True
  then show ?thesis using assms by (simp add: year_days_def add_years_sum epoch_year_def short_block_def)
next
  case False
  then have "2000 \<le> y" by simp
  then obtain q4 q1 q t where y: "y = 2000 + 400 * q4 + 100 * q1 + 4 * q + t"
    and b: "0 \<le> q4" "0 \<le> q1" "q1 < 4" "0 \<le> q" "q < 25" "0 \<le> t" "t < 4"
    and c: "q4 = (y - 2000) div 400" "q1 = (y - 2000 - q4 * 400) div 100"
      "q = (y - 2000 - q4 * 400 - q1 * 100) div 4" "t = y - 2000 - q4 * 400 - q1 * 100 - q * 4"
    by (rule year_digits)
  have "year_days y d = add_years (y - t) y
      (d + DAYSTO2000 + q4 * DAYS400YEARS + q1 * DAYS100YEARS + q * DAYS4YEARS)"
    using False unfolding year_days_def Let_def c(1) [symmetric] c(2) [symmetric] c(3) [symmetric]
      c(4) [symmetric] by simp
  moreover have "y - t = 2000 + 400 * q4 + 100 * q1 + 4 * q" using y by simp
  moreover have "epoch_year (y - t) + sum days_per_year {y - t..<y} = epoch_year y"
    using y b by (intro epoch_year_split) auto
  ultimately show ?thesis
    using block_start [OF b(1-5)] short_block_digits [OF y b] by (simp add: add_years_sum)
qed

lemma to_secs_eq:
  assumes "1970 \<le> dt_year dt"
  shows "clock_ymdhms_to_secs dt =
    (let v = (epoch_secs dt - (if short_block (dt_year dt) then 86400 else 0)) mod 2 ^ 64
     in if v \<ge> 2 ^ 63 then - 1 else v)"
proof -
  let ?lp = "if is_leap_year (dt_year dt) \<and> dt_mon dt > 2 then 1 else (0::int)"
  have "add_months 1 (dt_mon dt) (year_days (dt_year dt) ?lp) + (dt_day dt - 1)
    = epoch_days (dt_year dt) (dt_mon dt) (dt_day dt) - (if short_block (dt_year dt) then 1 else 0)"
    using assms by (simp add: add_months_sum year_days_eq epoch_days_def sum_month_days)
  then have "(((add_months 1 (dt_mon dt) (year_days (dt_year dt) ?lp) + (dt_day dt - 1)) * 24
      + dt_hour dt) * 60 + dt_min dt) * 60 + dt_sec dt
    = epoch_secs dt - (if short_block (dt_year dt) then 86400 else 0)"
    by (simp only: epoch_secs_def) (simp add: algebra_simps)
  then show ?thesis using assms
    unfolding clock_ymdhms_to_secs_def Let_def by simp
qed

lemma epoch_year_nonneg: "0 \<le> epoch_year y"
  unfolding epoch_year_def using days_per_year_pos by (intro sum_nonneg) (simp add: less_imp_le)

lemma month_days_pos: "1 \<le> m \<Longrightarrow> m \<le> 12 \<Longrightarrow> 28 \<le> month_days y m"
proof -
  assume "1 \<le> m" "m \<le> 12"
  then have "m = 1 \<or> m = 2 \<or> m = 3 \<or> m = 4 \<or> m = 5 \<or> m = 6 \<or> m = 7 \<or> m = 8 \<or> m = 9 \<or> m = 10
    \<or> m = 11 \<or> m = 12" by presburger
  then show ?thesis by (auto simp: month_days_def days_in_month_def)
qed

lemma sum_month_days_nonneg: "m \<le> 13 \<Longrightarrow> 0 \<le> sum (month_days y) {1..<m}"
proof (rule sum_nonneg)
  fix k assume "m \<le> 13" "k \<in> {1..<m}"
  then have "1 \<le> k" "k \<le> 12" by simp_all
  then show "0 \<le> month_days y k" using month_days_pos [of k y] by simp
qed

lemma epoch_secs_nonneg: "valid_dt dt \<Longrightarrow> 0 \<le> epoch_secs dt"
  using epoch_year_nonneg [of "dt_year dt"] sum_month_days_nonneg [of "dt_mon dt" "dt_year dt"]
  by (simp add: valid_dt_def epoch_secs_def epoch_days_def)

section \<open>Seconds to date\<close>

lemma sub_years_spec:
  "0 \<le> days \<Longrightarrow> sub_years i days = (y, d) \<Longrightarrow>
     i \<le> y \<and> 0 \<le> d \<and> d < days_per_year y \<and> days = sum days_per_year {i..<y} + d"
proof (induction i days rule: sub_years.induct)
  case (1 i days)
  show ?case
  proof (cases "days \<ge> days_per_year i")
    case True
    then have "i + 1 \<le> y \<and> 0 \<le> d \<and> d < days_per_year y \<and>
        days - days_per_year i = sum days_per_year {i + 1..<y} + d"
      using 1 by (simp add: sub_years.simps [of i days])
    then show ?thesis by (simp add: sum_int_head)
  next
    case False
    then show ?thesis using "1.prems" by (simp add: sub_years.simps)
  qed
qed

lemma sub_months_spec:
  "1 \<le> i \<Longrightarrow> i \<le> 12 \<Longrightarrow> 0 \<le> days \<Longrightarrow> days < sum (month_days year) {i..<13} \<Longrightarrow>
   \<exists>m d. sub_months year (if i = 2 \<and> is_leap_year year then 1 else 0) i days = Some (m, d) \<and>
     i \<le> m \<and> m \<le> 12 \<and> 0 \<le> d \<and> d < month_days year m \<and> days = sum (month_days year) {i..<m} + d"
proof (induction "nat (13 - i)" arbitrary: i days rule: less_induct)
  case less
  let ?leap = "if i = 2 \<and> is_leap_year year then 1 else 0"
  have md: "days_in_month i + ?leap = month_days year i" by (simp add: month_days_def)
  show ?case
  proof (cases "days \<ge> month_days year i")
    case True
    have sum: "sum (month_days year) {i..<13} = month_days year i + sum (month_days year) {i + 1..<13}"
      using less.prems by (intro sum_int_head) simp
    have "i \<noteq> 12" using True less.prems(4) sum by auto
    then have "\<exists>m d. sub_months year (if i + 1 = 2 \<and> is_leap_year year then 1 else 0) (i + 1)
        (days - month_days year i) = Some (m, d) \<and> i + 1 \<le> m \<and> m \<le> 12 \<and> 0 \<le> d \<and>
        d < month_days year m \<and> days - month_days year i = sum (month_days year) {i + 1..<m} + d"
      using less.prems True sum by (intro less.hyps) auto
    moreover have "(i + 1 = 2) = (i = 1)" by auto
    ultimately show ?thesis
      using True by (auto simp: sub_months.simps [of year ?leap i days] md sum_int_head)
  next
    case False
    then show ?thesis using less.prems by (auto simp: sub_months.simps [of year ?leap i days] md)
  qed
qed

lemma sub_months_year:
  "0 \<le> days \<Longrightarrow> days < days_per_year year \<Longrightarrow>
   \<exists>m d. sub_months year 0 1 days = Some (m, d) \<and> 1 \<le> m \<and> m \<le> 12 \<and> 0 \<le> d \<and>
     d < month_days year m \<and> days = sum (month_days year) {1..<m} + d"
  using sub_months_spec [of 1 days year] by (simp add: year_is_months)

lemma split_year_range:
  assumes "0 \<le> n" "split_year n = (y, d)"
  shows "0 \<le> d \<and> d < days_per_year y"
proof -
  have "\<exists>i days. 0 \<le> days \<and> sub_years i days = (y, d)"
  proof (cases "n \<ge> DAYSTO2000")
    case True
    define a b where "a = n - DAYSTO2000 - (n - DAYSTO2000) div DAYS400YEARS * DAYS400YEARS"
      and "b = a - a div DAYS100YEARS * DAYS100YEARS"
    have "split_year n = sub_years (2000 + (n - DAYSTO2000) div DAYS400YEARS * 400
        + a div DAYS100YEARS * 100 + b div DAYS4YEARS * 4) (b - b div DAYS4YEARS * DAYS4YEARS)"
      using True by (simp add: split_year_def Let_def a_def b_def)
    moreover have "0 \<le> b - b div DAYS4YEARS * DAYS4YEARS" by (simp add: minus_div_mult_eq_mod)
    ultimately show ?thesis using assms(2) by metis
  next
    case False
    then show ?thesis using assms by (auto simp: split_year_def)
  qed
  then show ?thesis using sub_years_spec by blast
qed

text \<open>The day numbers on which the year of the result is right.\<close>

definition regular_day :: "int \<Rightarrow> bool" where
  "regular_day n \<longleftrightarrow>
     (let c = (n - DAYSTO2000) mod DAYS400YEARS in
      n < DAYSTO2000 \<or> c < DAYS100YEARS \<or> DAYS4YEARS \<le> c mod DAYS100YEARS)"

lemma regular_day_digits:
  assumes "DAYSTO2000 \<le> n" "regular_day n"
  obtains q4 q1 q e where "n = DAYSTO2000 + q4 * DAYS400YEARS + q1 * DAYS100YEARS + q * DAYS4YEARS + e"
    "0 \<le> q4" "0 \<le> q1" "q1 < 4" "0 \<le> q" "q < 25" "0 \<le> e" "e < DAYS4YEARS" "\<not> (0 < q1 \<and> q = 0)"
    "split_year n = sub_years (2000 + 400 * q4 + 100 * q1 + 4 * q) e"
proof -
  define q4 where "q4 = (n - DAYSTO2000) div DAYS400YEARS"
  define r where "r = n - DAYSTO2000 - q4 * DAYS400YEARS"
  define q1 where "q1 = r div DAYS100YEARS"
  define u where "u = r - q1 * DAYS100YEARS"
  define q where "q = u div DAYS4YEARS"
  define e where "e = u - q * DAYS4YEARS"
  have r: "r = (n - DAYSTO2000) mod DAYS400YEARS" by (simp add: r_def q4_def minus_div_mult_eq_mod)
  have u: "u = r mod DAYS100YEARS" by (simp add: u_def q1_def minus_div_mult_eq_mod)
  have e: "e = u mod DAYS4YEARS" by (simp add: e_def q_def minus_div_mult_eq_mod)
  have rb: "0 \<le> r" "r < DAYS400YEARS" by (simp_all add: r)
  have ub: "0 \<le> u" "u < DAYS100YEARS" by (simp_all add: u)
  have reg: "r < DAYS100YEARS \<or> DAYS4YEARS \<le> u" using assms by (simp add: regular_day_def r u Let_def)
  show ?thesis
  proof (rule that [of q4 q1 q e])
    show "n = DAYSTO2000 + q4 * DAYS400YEARS + q1 * DAYS100YEARS + q * DAYS4YEARS + e"
      by (simp add: e_def u_def r_def)
    show "0 \<le> q4" using assms by (simp add: q4_def pos_imp_zdiv_nonneg_iff)
    show "0 \<le> q1" using rb by (simp add: q1_def pos_imp_zdiv_nonneg_iff)
    show "q1 < 4"
    proof (rule ccontr)
      assume "\<not> q1 < 4"
      then have "4 * DAYS100YEARS \<le> r" using ub(1) by (simp add: u_def)
      then have "u \<le> 0" using rb(2) \<open>\<not> q1 < 4\<close> by (simp add: u_def)
      then show False using reg \<open>4 * DAYS100YEARS \<le> r\<close> by simp
    qed
    show "0 \<le> q" using ub by (simp add: q_def pos_imp_zdiv_nonneg_iff)
    show "q < 25" using ub by (simp add: q_def)
    show "0 \<le> e" "e < DAYS4YEARS" by (simp_all add: e)
    show "\<not> (0 < q1 \<and> q = 0)"
    proof
      assume a: "0 < q1 \<and> q = 0"
      then have "DAYS100YEARS \<le> r" using ub(1) by (simp add: u_def)
      moreover have "u < DAYS4YEARS" using a \<open>e < DAYS4YEARS\<close> by (simp add: e_def)
      ultimately show False using reg by simp
    qed
    show "split_year n = sub_years (2000 + 400 * q4 + 100 * q1 + 4 * q) e"
      using assms(1) unfolding split_year_def Let_def q4_def [symmetric] r_def [symmetric]
        q1_def [symmetric] u_def [symmetric] q_def [symmetric] e_def [symmetric]
      by (simp add: algebra_simps)
  qed
qed

lemma block_length:
  assumes "b mod 4 = 0" "is_leap_year b" "0 \<le> e" "e < DAYS4YEARS" "sub_years b e = (y, d)"
  shows "y < b + 4"
proof (rule ccontr)
  assume "\<not> y < b + 4"
  then have "sum days_per_year {b..<b + 4} \<le> sum days_per_year {b..<y}"
    using days_per_year_pos by (intro sum_mono2) (auto simp: less_imp_le)
  moreover have "DAYS4YEARS \<le> sum days_per_year {b..<b + 4}"
    using assms(2) by (simp add: sum_int_head) (simp add: days_per_year_def)
  moreover have "0 \<le> d \<and> e = sum days_per_year {b..<y} + d"
    using sub_years_spec [OF assms(3,5)] by simp
  ultimately show False using assms(4) by simp
qed

lemma split_year_regular:
  assumes "0 \<le> n" "regular_day n" "split_year n = (y, d)"
  shows "1970 \<le> y \<and> \<not> short_block y \<and> n = epoch_year y + d"
proof (cases "n < DAYSTO2000")
  case True
  then have "sub_years 1970 n = (y, d)" using assms(3) by (simp add: split_year_def)
  note sp = sub_years_spec [OF assms(1) this]
  have "y < 2000"
  proof (rule ccontr)
    assume "\<not> y < 2000"
    then have "epoch_year 2000 \<le> epoch_year y"
      unfolding epoch_year_def using days_per_year_pos by (intro sum_mono2) (auto simp: less_imp_le)
    moreover have "epoch_year 2000 = DAYSTO2000" by (simp add: epoch_year_closed leaps_def)
    ultimately show False using sp True by (simp add: epoch_year_def)
  qed
  then show ?thesis using sp by (simp add: short_block_def epoch_year_def)
next
  case False
  then have "DAYSTO2000 \<le> n" by simp
  then obtain q4 q1 q e where n: "n = DAYSTO2000 + q4 * DAYS400YEARS + q1 * DAYS100YEARS + q * DAYS4YEARS + e"
    and b: "0 \<le> q4" "0 \<le> q1" "q1 < 4" "0 \<le> q" "q < 25" and e: "0 \<le> e" "e < DAYS4YEARS"
    and nb: "\<not> (0 < q1 \<and> q = 0)"
    and sy: "split_year n = sub_years (2000 + 400 * q4 + 100 * q1 + 4 * q) e"
    using assms(2) by (rule regular_day_digits)
  let ?b = "2000 + 400 * q4 + 100 * q1 + 4 * q"
  have sub: "sub_years ?b e = (y, d)" using sy assms(3) by simp
  note sp = sub_years_spec [OF e(1) sub]
  have m4: "?b mod 4 = 0" by (rule int_mod_pos_eq [of _ _ "500 + 100 * q4 + 25 * q1 + q"]) auto
  have "?b mod 100 = 4 * q" by (rule int_mod_pos_eq [of _ _ "20 + 4 * q4 + q1"]) (use b in auto)
  moreover have "?b mod 400 = 100 * q1 + 4 * q" by (rule int_mod_pos_eq [of _ _ "5 + q4"]) (use b in auto)
  ultimately have "is_leap_year ?b" using nb b m4 unfolding is_leap_year_iff by auto
  then have y: "y < ?b + 4" using block_length [OF m4 _ e sub] by blast
  have yt: "y = 2000 + 400 * q4 + 100 * q1 + 4 * q + (y - ?b)" by simp
  have "\<not> short_block y" using short_block_digits [OF yt b(1-5)] sp y nb by simp
  moreover have "epoch_year ?b + sum days_per_year {?b..<y} = epoch_year y"
    using sp b by (intro epoch_year_split) auto
  ultimately show ?thesis using sp b n block_start [OF b] nb by simp
qed

definition dt_of :: "int \<Rightarrow> int \<Rightarrow> int \<Rightarrow> int \<Rightarrow> clock_ymdhms" where
  "dt_of secs y m e = \<lparr>dt_year = y, dt_mon = m, dt_day = e + 1,
     dt_wday = (secs div 86400 + 4) mod 7, dt_hour = secs mod 86400 div 3600,
     dt_min = secs mod 86400 mod 3600 div 60, dt_sec = secs mod 86400 mod 3600 mod 60\<rparr>"

lemma clock_secs_to_ymdhms_cases:
  assumes "0 \<le> secs"
  obtains y d m e where "split_year (secs div 86400) = (y, d)"
    "1 \<le> m" "m \<le> 12" "0 \<le> e" "e < month_days y m" "d = sum (month_days y) {1..<m} + e"
    "clock_secs_to_ymdhms secs = Some (Inr (dt_of secs y m e))"
proof -
  obtain y d where sy: "split_year (secs div 86400) = (y, d)" by fastforce
  have "0 \<le> secs div 86400" using assms by (simp add: pos_imp_zdiv_nonneg_iff)
  then have "0 \<le> d \<and> d < days_per_year y" using split_year_range sy by blast
  then obtain m e where m: "sub_months y 0 1 d = Some (m, e)" "1 \<le> m" "m \<le> 12" "0 \<le> e"
    "e < month_days y m" "d = sum (month_days y) {1..<m} + e"
    using sub_months_year by blast
  have "clock_secs_to_ymdhms secs = Some (Inr (dt_of secs y m e))"
    using assms by (simp only: clock_secs_to_ymdhms_def Let_def sy dt_of_def) (simp add: m(1))
  then show ?thesis using that sy m(2-) by blast
qed

lemma hms_split: "(s::int) = s div 86400 * 86400 + s mod 86400 div 3600 * 3600
    + s mod 86400 mod 3600 div 60 * 60 + s mod 86400 mod 3600 mod 60"
  using div_mult_mod_eq [of s 86400] div_mult_mod_eq [of "s mod 86400" 3600]
    div_mult_mod_eq [of "s mod 86400 mod 3600" 60] by linarith

lemma hms_range:
  "0 \<le> (s::int) mod 86400 div 3600" "s mod 86400 div 3600 < 24"
  "0 \<le> s mod 86400 mod 3600 div 60" "s mod 86400 mod 3600 div 60 < 60"
  "0 \<le> s mod 86400 mod 3600 mod 60" "s mod 86400 mod 3600 mod 60 < 60"
proof -
  have a: "0 \<le> s mod 86400" "s mod 86400 < 86400" by simp_all
  then show "0 \<le> s mod 86400 div 3600" "s mod 86400 div 3600 < 24"
    by (simp_all add: pos_imp_zdiv_nonneg_iff div_less_iff_less_mult)
  have b: "0 \<le> s mod 86400 mod 3600" "s mod 86400 mod 3600 < 3600" by simp_all
  then show "0 \<le> s mod 86400 mod 3600 div 60" "s mod 86400 mod 3600 div 60 < 60"
    by (simp_all add: pos_imp_zdiv_nonneg_iff div_less_iff_less_mult)
qed simp_all

lemma rebase_days: "s = D * 86400 + H + M + S \<Longrightarrow> X * 86400 + H + M + S = (X - D) * 86400 + s"
  for s D H M S X :: int
  by (simp add: algebra_simps)

lemma dt_of_secs:
  "epoch_secs (dt_of secs y m e) = (epoch_days y m (e + 1) - secs div 86400) * 86400 + secs"
  unfolding epoch_secs_def dt_of_def clock_ymdhms.simps by (rule rebase_days [OF hms_split])

lemma dt_of_valid:
  "valid_dt (dt_of secs y m e) \<longleftrightarrow>
     1970 \<le> y \<and> 1 \<le> m \<and> m \<le> 12 \<and> 0 \<le> e \<and> e + 1 \<le> month_days y m"
proof -
  have "1 \<le> e + 1 \<longleftrightarrow> 0 \<le> e" by linarith
  then show ?thesis unfolding valid_dt_def dt_of_def clock_ymdhms.simps using hms_range [of secs] by blast
qed

lemma from_secs_regular:
  assumes "0 \<le> secs" "regular_day (secs div 86400)"
  shows "\<exists>dt. clock_secs_to_ymdhms secs = Some (Inr dt) \<and> valid_dt dt \<and>
    \<not> short_block (dt_year dt) \<and> epoch_secs dt = secs"
proof -
  obtain y d m e where c: "split_year (secs div 86400) = (y, d)"
    "1 \<le> m" "m \<le> 12" "0 \<le> e" "e < month_days y m" "d = sum (month_days y) {1..<m} + e"
    "clock_secs_to_ymdhms secs = Some (Inr (dt_of secs y m e))"
    using assms(1) by (rule clock_secs_to_ymdhms_cases)
  have "0 \<le> secs div 86400" using assms(1) by (simp add: pos_imp_zdiv_nonneg_iff)
  note y = split_year_regular [OF this assms(2) c(1)]
  then have "epoch_days y m (e + 1) = secs div 86400"
    using c(6) unfolding epoch_days_def by linarith
  then have "epoch_secs (dt_of secs y m e) = secs" by (simp only: dt_of_secs) simp
  moreover have "valid_dt (dt_of secs y m e)" using c(2-5) y by (simp only: dt_of_valid) simp
  moreover have "dt_year (dt_of secs y m e) = y" by (simp only: dt_of_def clock_ymdhms.simps)
  ultimately show ?thesis using c(7) y by metis
qed

section \<open>Properties\<close>

lemma epoch_secs_ge_block:
  assumes "valid_dt dt" "short_block (dt_year dt)"
  shows "86400 \<le> epoch_secs dt"
proof -
  have "epoch_year 1971 \<le> epoch_year (dt_year dt)"
    unfolding epoch_year_def using assms(2) days_per_year_pos
    by (intro sum_mono2) (auto simp: short_block_def less_imp_le)
  moreover have "epoch_year 1971 = 365" by (simp add: epoch_year_closed leaps_def)
  moreover have "0 \<le> (\<Sum>k = 1..<dt_mon dt. month_days (dt_year dt) k)"
    using assms(1) by (intro sum_month_days_nonneg) (simp add: valid_dt_def)
  ultimately have "1 \<le> epoch_days (dt_year dt) (dt_mon dt) (dt_day dt)"
    using assms(1) unfolding epoch_days_def valid_dt_def by linarith
  then show ?thesis using assms(1) unfolding epoch_secs_def valid_dt_def by linarith
qed

text \<open>C38. On every valid date whose time fits a \<open>time_t\<close>, \<open>clock_ymdhms_to_secs\<close> returns the
  seconds since the epoch of the Gregorian calendar, except in the first four years of a
  century that does not begin with a leap year (2100 to 2103, 2200 to 2203, ...), where the
  result is exactly one day too small.\<close>

theorem clock_ymdhms_to_secs_exact:
  assumes "valid_dt dt" "epoch_secs dt < 2 ^ 63"
  shows "clock_ymdhms_to_secs dt = epoch_secs dt - (if short_block (dt_year dt) then 86400 else 0)"
proof -
  let ?v = "epoch_secs dt - (if short_block (dt_year dt) then 86400 else 0)"
  have r: "0 \<le> ?v" "?v < 2 ^ 63"
    using epoch_secs_nonneg [OF assms(1)] epoch_secs_ge_block [OF assms(1)] assms(2) by auto
  then have "?v mod 2 ^ 64 = ?v" by (intro mod_pos_pos_trivial) auto
  then show ?thesis using assms(1) r by (subst to_secs_eq) (auto simp: valid_dt_def Let_def)
qed

text \<open>C39. A time on a day outside the miscounted blocks is converted by \<open>clock_secs_to_ymdhms\<close>
  to a valid date that denotes the same second, and \<open>clock_ymdhms_to_secs\<close> converts it back.\<close>

theorem clock_round_trip:
  assumes "0 \<le> secs" "secs < 2 ^ 63" "regular_day (secs div 86400)"
  shows "\<exists>dt. clock_secs_to_ymdhms secs = Some (Inr dt) \<and> valid_dt dt \<and>
    epoch_secs dt = secs \<and> clock_ymdhms_to_secs dt = secs"
proof -
  obtain dt where dt: "clock_secs_to_ymdhms secs = Some (Inr dt)" "valid_dt dt"
    "\<not> short_block (dt_year dt)" "epoch_secs dt = secs"
    using from_secs_regular [OF assms(1,3)] by blast
  have "secs mod 2 ^ 64 = secs" using assms(1,2) by (intro mod_pos_pos_trivial) auto
  then have "clock_ymdhms_to_secs dt = secs"
    using dt assms(2) by (subst to_secs_eq) (auto simp: valid_dt_def Let_def)
  then show ?thesis using dt by blast
qed

text \<open>\<open>clock_secs_to_ymdhms\<close> always ends: the month loop never runs past December.  A
  negative time is refused with \<open>EINVAL\<close>; every other time gives a day of a month.\<close>

theorem clock_secs_to_ymdhms_total:
  "(\<exists>dt. clock_secs_to_ymdhms secs = Some (Inr dt) \<and> 0 \<le> secs \<and>
      1 \<le> dt_mon dt \<and> dt_mon dt \<le> 12 \<and>
      1 \<le> dt_day dt \<and> dt_day dt \<le> month_days (dt_year dt) (dt_mon dt)) \<or>
   (clock_secs_to_ymdhms secs = Some (Inl 22) \<and> secs < 0)"
proof (cases "secs < 0")
  case False
  then have "0 \<le> secs" by simp
  then obtain y d m e where c: "1 \<le> m" "m \<le> 12" "0 \<le> e" "e < month_days y m"
    "clock_secs_to_ymdhms secs = Some (Inr (dt_of secs y m e))"
    by (rule clock_secs_to_ymdhms_cases)
  moreover have "dt_mon (dt_of secs y m e) = m" "dt_day (dt_of secs y m e) = e + 1"
    "dt_year (dt_of secs y m e) = y"
    by (simp_all only: dt_of_def clock_ymdhms.simps)
  ultimately show ?thesis using \<open>0 \<le> secs\<close> by fastforce
qed (simp add: clock_secs_to_ymdhms_def)

text \<open>The last second of 2099 (4102444799 seconds after the epoch) is converted to a date
  of the year 2100, and that date is not converted back to the same second.\<close>

theorem clock_century_bug:
  "clock_secs_to_ymdhms 4102444799 =
     Some (Inr \<lparr>dt_year = 2100, dt_mon = 1, dt_day = 1, dt_wday = 4,
       dt_hour = 23, dt_min = 59, dt_sec = 59\<rparr>) \<and>
   epoch_secs \<lparr>dt_year = 2099, dt_mon = 12, dt_day = 31, dt_wday = 4,
       dt_hour = 23, dt_min = 59, dt_sec = 59\<rparr> = 4102444799"
proof
  have "sub_months 2100 0 1 0 = Some (1, 0)"
    by (subst sub_months.simps) (simp add: days_in_month_def)
  moreover have "sub_years 2100 0 = (2100, 0)"
    by (subst sub_years.simps) (simp add: days_per_year_def)
  ultimately show "clock_secs_to_ymdhms 4102444799 =
     Some (Inr \<lparr>dt_year = 2100, dt_mon = 1, dt_day = 1, dt_wday = 4,
       dt_hour = 23, dt_min = 59, dt_sec = 59\<rparr>)"
    by (simp add: clock_secs_to_ymdhms_def split_year_def)
  show "epoch_secs \<lparr>dt_year = 2099, dt_mon = 12, dt_day = 31, dt_wday = 4,
       dt_hour = 23, dt_min = 59, dt_sec = 59\<rparr> = 4102444799"
    by (simp add: epoch_secs_def epoch_days_def epoch_year_closed leaps_def sum_month_days
        sum_int_head days_in_month_def is_leap_year_def)
qed

text \<open>\<open>bcdtobin\<close> inverts \<open>bintobcd\<close> on the two-digit numbers a clock chip stores.\<close>

theorem bcd_round_trip:
  assumes "n < 100"
  shows "bcdtobin (bintobcd n) = n"
proof -
  have "list_all (\<lambda>k. bcdtobin (bintobcd (word_of_int k)) = word_of_int k) [0..99]"
    by code_simp
  moreover have "uint n \<in> set [0..99]" using assms by (simp add: word_less_def)
  ultimately have "bcdtobin (bintobcd (word_of_int (uint n))) = word_of_int (uint n)"
    unfolding list_all_iff by blast
  then show ?thesis by simp
qed

section \<open>Witnesses\<close>

theorem clock_ymdhms_to_secs_exact_witness:
  "valid_dt \<lparr>dt_year = 2101, dt_mon = 3, dt_day = 1, dt_wday = 2,
      dt_hour = 0, dt_min = 0, dt_sec = 0\<rparr> \<and>
   clock_ymdhms_to_secs \<lparr>dt_year = 2101, dt_mon = 3, dt_day = 1, dt_wday = 2,
      dt_hour = 0, dt_min = 0, dt_sec = 0\<rparr> = 4139078400 - 86400"
proof -
  let ?dt = "\<lparr>dt_year = 2101, dt_mon = 3, dt_day = 1, dt_wday = 2,
      dt_hour = 0, dt_min = 0, dt_sec = 0\<rparr>"
  have v: "valid_dt ?dt" by (simp add: valid_dt_def month_days_def days_in_month_def)
  have "epoch_secs ?dt = 4139078400"
    by (simp add: epoch_secs_def epoch_days_def epoch_year_closed leaps_def sum_month_days
        sum_int_head days_in_month_def is_leap_year_def)
  then show ?thesis using clock_ymdhms_to_secs_exact [OF v] v by (simp add: short_block_def)
qed

theorem clock_round_trip_witness:
  "\<exists>dt. clock_secs_to_ymdhms 1709164800 = Some (Inr dt) \<and> valid_dt dt \<and>
    epoch_secs dt = 1709164800 \<and> clock_ymdhms_to_secs dt = 1709164800"
  using clock_round_trip [of 1709164800] by (simp add: regular_day_def)

theorem bcd_round_trip_witness: "bcdtobin (bintobcd 59) = 59"
  using bcd_round_trip [of 59] by simp

end
