(* ===== verification/Tty_Clist.thy ===== *)
theory Tty_Clist
  imports Kernel_Prelude
begin

text \<open>
  The character queues of the terminal drivers, \<^verbatim>\<open>sys/kern/tty_subr.c\<close> (built with
  \<open>QBITS\<close>), and \<open>struct clist\<close> of \<^verbatim>\<open>sys/sys/tty.h\<close>.

  A pointer into the ring is its offset from \<open>c_cs\<close>, and \<open>None\<close> is the null pointer; the
  ring and the quote bits are the contents of the memory \<open>c_cs\<close> and \<open>c_cq\<close> point to.  The
  operations return \<open>None\<close> when the code would read or write outside a buffer or loop
  forever.  \<open>spltty\<close>/\<open>splx\<close> only mask interrupts and have no counterpart.  The memory
  allocator is the argument \<open>kz\<close>.
\<close>

abbreviation (input) NBBY :: nat where "NBBY \<equiv> 8"
abbreviation (input) TTY_QUOTE :: int where "TTY_QUOTE \<equiv> 256"

section \<open>Bit arrays\<close>

definition setbit :: "u8 list \<Rightarrow> nat \<Rightarrow> u8 list option" where
  "setbit a i = do { b \<leftarrow> aget a (i div NBBY); aput a (i div NBBY) (b OR bit_of (i mod NBBY)) }"

definition clrbit :: "u8 list \<Rightarrow> nat \<Rightarrow> u8 list option" where
  "clrbit a i = do { b \<leftarrow> aget a (i div NBBY); aput a (i div NBBY) (b AND NOT (bit_of (i mod NBBY))) }"

definition isset :: "u8 list \<Rightarrow> nat \<Rightarrow> bool option" where
  "isset a i = do { b \<leftarrow> aget a (i div NBBY); Some (b AND bit_of (i mod NBBY) \<noteq> 0) }"

text \<open>\<open>*cp &= m\<close>, and the loop \<open>while (scp < ecp) *scp++ = 0x00\<close>.\<close>

definition and_byte :: "u8 list \<Rightarrow> nat \<Rightarrow> u8 \<Rightarrow> u8 list option" where
  "and_byte a i m = do { b \<leftarrow> aget a i; aput a i (b AND m) }"

function clr_bytes :: "u8 list \<Rightarrow> nat \<Rightarrow> nat \<Rightarrow> u8 list option" where
  "clr_bytes a scp ecp =
     (if scp < ecp then do { a \<leftarrow> aput a scp 0; clr_bytes a (scp + 1) ecp } else Some a)"
  by pat_completeness auto
termination
  by (relation "measure (\<lambda>(a, scp, ecp). ecp - scp)") auto

declare clr_bytes.simps [simp del]

text \<open>\<open>ecp\<close> can point one byte before the array when \<open>len\<close> is \<open>0\<close>, hence an integer.\<close>

definition clrbits :: "u8 list \<Rightarrow> nat \<Rightarrow> nat \<Rightarrow> u8 list option" where
  "clrbits cp off len =
     (let scp = off div NBBY; sbi = off mod NBBY; e = off + len + NBBY - 1;
          ecp = int (e div NBBY) - 1; ebi = e mod NBBY + 1
      in if int scp \<ge> ecp then
           and_byte cp scp (NOT (push_bit sbi (mask len)))
         else do {
           cp \<leftarrow> and_byte cp scp (mask sbi);
           cp \<leftarrow> and_byte cp (nat ecp) (NOT (mask ebi));
           clr_bytes cp (scp + 1) (nat ecp) })"

section \<open>Queues\<close>

record clist =
  c_cf :: "nat option"
  c_cl :: "nat option"
  c_cs :: "u8 list option"
  c_ce :: nat
  c_cq :: "u8 list option"
  c_cc :: nat
  c_cn :: nat

type_synonym kz = "nat \<Rightarrow> u8 list option"

definition QMEM :: "nat \<Rightarrow> nat" where
  "QMEM n = (n - 1) div NBBY + 1"

text \<open>When the second allocation fails \<open>c_cs\<close> keeps the address of the memory just freed: a
  pointer that is not null and has no byte to access.\<close>

definition clalloc :: "kz \<Rightarrow> clist \<Rightarrow> nat \<Rightarrow> bool \<Rightarrow> clist \<times> int" where
  "clalloc kz clp sz quot =
     (case kz sz of
        None \<Rightarrow> (clp\<lparr>c_cs := None\<rparr>, - 1)
      | Some buf \<Rightarrow>
          let init = (\<lambda>q. clp\<lparr>c_cf := None, c_cl := None, c_cs := Some buf, c_ce := sz,
                c_cq := q, c_cc := 0, c_cn := sz\<rparr>)
          in if quot then
               (case kz (QMEM sz) of
                  None \<Rightarrow> (clp\<lparr>c_cs := Some [], c_cq := None\<rparr>, - 1)
                | Some q \<Rightarrow> (init (Some q), 0))
             else (init None, 0))"

definition clfree :: "clist \<Rightarrow> clist" where
  "clfree clp = clp\<lparr>c_cs := None, c_cq := None\<rparr>"

text \<open>\<open>c = *p & 0xff; if (clp->c_cq) { if (isset(clp->c_cq, p - clp->c_cs)) c |= TTY_QUOTE; }\<close>\<close>

definition read_char :: "clist \<Rightarrow> nat \<Rightarrow> int option" where
  "read_char clp p = do {
     buf \<leftarrow> c_cs clp;
     b \<leftarrow> aget buf p;
     let c = uint b AND 0xff;
     case c_cq clp of
       None \<Rightarrow> Some c
     | Some q \<Rightarrow> do { s \<leftarrow> isset q p; Some (if s then c OR TTY_QUOTE else c) } }"

text \<open>\<open>if (clp->c_cc == 0) clp->c_cf = clp->c_cl = (u_char *)0;\<close>\<close>

definition reset_empty :: "clist \<Rightarrow> clist" where
  "reset_empty clp = (if c_cc clp = 0 then clp\<lparr>c_cf := None, c_cl := None\<rparr> else clp)"

definition wrap :: "clist \<Rightarrow> nat \<Rightarrow> nat" where
  "wrap clp p = (if p = c_ce clp then 0 else p)"

definition getc :: "clist \<Rightarrow> (clist \<times> int) option" where
  "getc clp =
     (if c_cc clp = 0 then Some (clp, - 1)
      else do {
        f \<leftarrow> c_cf clp;
        c \<leftarrow> read_char clp f;
        buf \<leftarrow> c_cs clp;
        buf \<leftarrow> aput buf f 0;
        let clp = clp\<lparr>c_cs := Some buf, c_cf := Some (wrap clp (f + 1)), c_cc := c_cc clp - 1\<rparr>;
        Some (reset_empty clp, c) })"

text \<open>The length of the run of queued characters that starts at \<open>c_cf\<close>.\<close>

definition run_out :: "clist \<Rightarrow> nat option" where
  "run_out clp = do {
     f \<leftarrow> c_cf clp;
     l \<leftarrow> c_cl clp;
     if f \<ge> l then psub (c_ce clp) f else psub l f }"

partial_function (option) q_to_b_loop :: "clist \<Rightarrow> u8 list \<Rightarrow> int \<Rightarrow> (clist \<times> u8 list) option" where
  "q_to_b_loop clp p count =
     (if count > 0 \<and> c_cc clp > 0 then do {
        cc \<leftarrow> run_out clp;
        let cc = (if int cc > count then nat count else cc);
        f \<leftarrow> c_cf clp;
        buf \<leftarrow> c_cs clp;
        bytes \<leftarrow> aslice buf f cc;
        n \<leftarrow> psub (c_cc clp) cc;
        q_to_b_loop (clp\<lparr>c_cc := n, c_cf := Some (wrap clp (f + cc))\<rparr>) (p @ bytes) (count - int cc) }
      else Some (clp, p))"

text \<open>The bytes written at \<open>cp\<close>, whose number is the value returned.\<close>

definition q_to_b :: "clist \<Rightarrow> int \<Rightarrow> (clist \<times> u8 list) option" where
  "q_to_b clp count = do {
     (clp, p) \<leftarrow> q_to_b_loop clp [] count;
     Some (reset_empty clp, p) }"

fun ndqb_quote :: "clist \<Rightarrow> int \<Rightarrow> nat \<Rightarrow> nat \<Rightarrow> nat \<Rightarrow> nat option" where
  "ndqb_quote clp flag i 0 count = Some count"
| "ndqb_quote clp flag i (Suc cc) count = do {
     buf \<leftarrow> c_cs clp;
     b \<leftarrow> aget buf i;
     let i = i + 1;
     stop \<leftarrow> (if uint b AND (flag AND NOT TTY_QUOTE) \<noteq> 0 then Some True
             else do { q \<leftarrow> c_cq clp; isset q i });
     if stop then Some count
     else if i = c_cn clp then Some (count + 1)
     else ndqb_quote clp flag i cc (count + 1) }"

fun ndqb_plain :: "clist \<Rightarrow> int \<Rightarrow> nat \<Rightarrow> nat \<Rightarrow> nat \<Rightarrow> nat option" where
  "ndqb_plain clp flag i 0 count = Some count"
| "ndqb_plain clp flag i (Suc cc) count = do {
     buf \<leftarrow> c_cs clp;
     b \<leftarrow> aget buf i;
     let i = i + 1;
     if uint b AND flag \<noteq> 0 then Some count
     else if i = c_cn clp then Some (count + 1)
     else ndqb_plain clp flag i cc (count + 1) }"

definition ndqb :: "clist \<Rightarrow> int \<Rightarrow> nat option" where
  "ndqb clp flag =
     (if c_cc clp = 0 then Some 0
      else do {
        f \<leftarrow> c_cf clp;
        l \<leftarrow> c_cl clp;
        if flag = 0 then (if l \<le> f then psub (c_ce clp) f else Some (l - f))
        else if flag AND TTY_QUOTE \<noteq> 0 then ndqb_quote clp flag f (c_cc clp) 0
        else ndqb_plain clp flag f (c_cc clp) 0 })"

partial_function (option) ndflush_loop :: "clist \<Rightarrow> int \<Rightarrow> clist option" where
  "ndflush_loop clp count =
     (if count > 0 \<and> c_cc clp > 0 then do {
        cc \<leftarrow> run_out clp;
        let cc = (if int cc > count then nat count else cc);
        f \<leftarrow> c_cf clp;
        n \<leftarrow> psub (c_cc clp) cc;
        ndflush_loop (clp\<lparr>c_cc := n, c_cf := Some (wrap clp (f + cc))\<rparr>) (count - int cc) }
      else Some clp)"

definition ndflush :: "clist \<Rightarrow> int \<Rightarrow> clist option" where
  "ndflush clp count =
     (if count = int (c_cc clp) then Some (clp\<lparr>c_cc := 0, c_cf := None, c_cl := None\<rparr>)
      else do { clp \<leftarrow> ndflush_loop clp count; Some (reset_empty clp) })"

text \<open>The beginning of \<open>putc\<close> and \<open>b_to_q\<close> on a queue that is not full: an empty queue
  gets its ring if it has none and starts at the beginning of it; \<open>Inl\<close> is a failure.\<close>

definition start_queue :: "kz \<Rightarrow> clist \<Rightarrow> clist + clist" where
  "start_queue kz clp =
     (if c_cc clp = 0 then
        (if c_cs clp = None then
           (case clalloc kz clp (c_cn clp) True of (clp, r) \<Rightarrow>
              if r \<noteq> 0 then Inl clp else Inr (clp\<lparr>c_cf := Some 0, c_cl := Some 0\<rparr>))
         else Inr (clp\<lparr>c_cf := Some 0, c_cl := Some 0\<rparr>))
      else Inr clp)"

definition put_quote :: "clist \<Rightarrow> nat \<Rightarrow> bool \<Rightarrow> clist option" where
  "put_quote clp i quoted =
     (case c_cq clp of
        None \<Rightarrow> Some clp
      | Some q \<Rightarrow> do { q \<leftarrow> (if quoted then setbit q i else clrbit q i); Some (clp\<lparr>c_cq := Some q\<rparr>) })"

definition putc :: "kz \<Rightarrow> int \<Rightarrow> clist \<Rightarrow> (clist \<times> int) option" where
  "putc kz c clp =
     (if c_cc clp = c_cn clp then Some (clp, - 1)
      else case start_queue kz clp of
        Inl clp \<Rightarrow> Some (clp, - 1)
      | Inr clp \<Rightarrow> do {
          l \<leftarrow> c_cl clp;
          buf \<leftarrow> c_cs clp;
          buf \<leftarrow> aput buf l (word_of_int (c AND 0xff));
          clp \<leftarrow> put_quote (clp\<lparr>c_cs := Some buf\<rparr>) l (c AND TTY_QUOTE \<noteq> 0);
          Some (clp\<lparr>c_cc := c_cc clp + 1, c_cl := Some (wrap clp (l + 1))\<rparr>, 0) })"

text \<open>The free space that starts at \<open>c_cl\<close>.\<close>

definition run_in :: "clist \<Rightarrow> nat option" where
  "run_in clp = do {
     f \<leftarrow> c_cf clp;
     l \<leftarrow> c_cl clp;
     if f > l then psub f l else psub (c_ce clp) l }"

definition clear_quotes :: "clist \<Rightarrow> nat \<Rightarrow> nat \<Rightarrow> clist option" where
  "clear_quotes clp l cc =
     (case c_cq clp of
        None \<Rightarrow> Some clp
      | Some q \<Rightarrow> do { q \<leftarrow> clrbits q l cc; Some (clp\<lparr>c_cq := Some q\<rparr>) })"

text \<open>\<open>p\<close> holds the bytes still to copy: \<open>count\<close> is its length.\<close>

partial_function (option) b_to_q_loop :: "u8 list \<Rightarrow> clist \<Rightarrow> (clist \<times> u8 list) option" where
  "b_to_q_loop p clp =
     (if length p > 0 \<and> c_cc clp < c_cn clp then do {
        cc \<leftarrow> run_in clp;
        let cc = (if cc > length p then length p else cc);
        l \<leftarrow> c_cl clp;
        buf \<leftarrow> c_cs clp;
        buf \<leftarrow> acopy buf l (take cc p);
        clp \<leftarrow> clear_quotes (clp\<lparr>c_cs := Some buf\<rparr>) l cc;
        b_to_q_loop (drop cc p)
          (clp\<lparr>c_cc := c_cc clp + cc, c_cl := Some (wrap clp (l + cc))\<rparr>) }
      else Some (clp, p))"

text \<open>The bytes that were not transferred, whose number is the value returned.\<close>

definition b_to_q :: "kz \<Rightarrow> u8 list \<Rightarrow> clist \<Rightarrow> (clist \<times> u8 list) option" where
  "b_to_q kz cp clp =
     (if cp = [] \<or> c_cc clp = c_cn clp then Some (clp, cp)
      else case start_queue kz clp of
        Inl clp \<Rightarrow> Some (clp, cp)
      | Inr clp \<Rightarrow> b_to_q_loop cp clp)"

text \<open>\<open>nextc\<close> and \<open>firstc\<close> share the file's static variable \<open>cc\<close>, which is passed and
  returned; the first component of the result is the new pointer, with the character
  stored in \<open>*c\<close>, or \<open>None\<close> for a null pointer.\<close>

definition nextc :: "clist \<Rightarrow> nat option \<Rightarrow> int \<Rightarrow> ((nat \<times> int) option \<times> int) option" where
  "nextc clp cp cc =
     (let cc = (if c_cf clp = cp then int (c_cc clp) else cc) in
      if cc = 0 \<or> cp = None then Some (None, cc)
      else
        let cc = cc - 1 in
        if cc = 0 then Some (None, cc)
        else do {
          p \<leftarrow> cp;
          let p = wrap clp (p + 1);
          c \<leftarrow> read_char clp p;
          Some (Some (p, c), cc) })"

definition firstc :: "clist \<Rightarrow> ((nat \<times> int) option \<times> int) option" where
  "firstc clp =
     (if c_cc clp = 0 then Some (None, 0)
      else do {
        p \<leftarrow> c_cf clp;
        c \<leftarrow> read_char clp p;
        Some (Some (p, c), int (c_cc clp)) })"

definition unputc :: "clist \<Rightarrow> (clist \<times> int) option" where
  "unputc clp =
     (if c_cc clp = 0 then Some (clp, - 1)
      else do {
        l \<leftarrow> c_cl clp;
        l \<leftarrow> (if l = 0 then psub (c_ce clp) 1 else Some (l - 1));
        let clp = clp\<lparr>c_cl := Some l, c_cc := c_cc clp - 1\<rparr>;
        c \<leftarrow> read_char clp l;
        Some (reset_empty clp, c) })"

text \<open>The two queues are distinct objects.\<close>

partial_function (option) catq :: "kz \<Rightarrow> clist \<Rightarrow> clist \<Rightarrow> (clist \<times> clist) option" where
  "catq kz src dst = do {
     (src, c) \<leftarrow> getc src;
     if c \<noteq> - 1 then do {
       (dst, r) \<leftarrow> putc kz c dst;
       catq kz src dst }
     else Some (src, dst) }"

end
