(* ===== verification/Tty_Queue.thy ===== *)
theory Tty_Queue
  imports Tty_Clist
begin

text \<open>
  Correctness of the character queues: the ring buffer of \<open>Tty_Clist\<close> implements a
  bounded first-in first-out queue of bytes, each with a quote mark.
\<close>

section \<open>Bit arrays\<close>

definition qbit :: "u8 list \<Rightarrow> nat \<Rightarrow> bool" where
  "qbit a i = bit (a ! (i div 8)) (i mod 8)"

lemma isset_qbit [simp]: "i < 8 * length a \<Longrightarrow> isset a i = Some (qbit a i)"
  by (simp add: isset_def qbit_def and_bit_of_eq_0 less_mult_imp_div_less mult.commute)

lemma div_mod_8_eq: "i div 8 = j div 8 \<Longrightarrow> i mod 8 = j mod 8 \<Longrightarrow> i = (j::nat)"
  by (metis div_mult_mod_eq)

lemma setbit_qbit:
  assumes "i < 8 * length a"
  obtains a' where "setbit a i = Some a'" "length a' = length a"
    "\<And>j. j < 8 * length a \<Longrightarrow> qbit a' j = (qbit a j \<or> j = i)"
proof
  have l: "i div 8 < length a" using assms by (simp add: less_mult_imp_div_less mult.commute)
  show "setbit a i = Some (a[i div 8 := a ! (i div 8) OR bit_of (i mod 8)])"
    using l by (simp add: setbit_def)
  show "qbit (a[i div 8 := a ! (i div 8) OR bit_of (i mod 8)]) j = (qbit a j \<or> j = i)"
    if "j < 8 * length a" for j
    using l div_mod_8_eq [of j i] by (auto simp: qbit_def nth_list_update bit_mask)
qed simp

lemma clrbit_qbit:
  assumes "i < 8 * length a"
  obtains a' where "clrbit a i = Some a'" "length a' = length a"
    "\<And>j. j < 8 * length a \<Longrightarrow> qbit a' j = (qbit a j \<and> j \<noteq> i)"
proof
  have l: "i div 8 < length a" using assms by (simp add: less_mult_imp_div_less mult.commute)
  show "clrbit a i = Some (a[i div 8 := a ! (i div 8) AND NOT (bit_of (i mod 8))])"
    using l by (simp add: clrbit_def)
  show "qbit (a[i div 8 := a ! (i div 8) AND NOT (bit_of (i mod 8))]) j = (qbit a j \<and> j \<noteq> i)"
    if "j < 8 * length a" for j
    using l div_mod_8_eq [of j i] by (auto simp: qbit_def nth_list_update bit_mask)
qed simp

lemma clr_bytes_nth:
  assumes "ecp \<le> length a"
  shows "\<exists>a'. clr_bytes a scp ecp = Some a' \<and> length a' = length a \<and>
    (\<forall>k < length a. a' ! k = (if scp \<le> k \<and> k < ecp then 0 else a ! k))"
  using assms
proof (induction a scp ecp rule: clr_bytes.induct)
  case (1 a scp ecp)
  show ?case
  proof (cases "scp < ecp")
    case True
    then have "aput a scp 0 = Some (a[scp := 0])" using 1(2) by simp
    then obtain a' where a': "clr_bytes (a[scp := 0]) (scp + 1) ecp = Some a'" "length a' = length a"
      "\<forall>k < length a. a' ! k = (if scp + 1 \<le> k \<and> k < ecp then 0 else a[scp := 0] ! k)"
      using 1(1) [OF True] 1(2) by fastforce
    have "clr_bytes a scp ecp = Some a'"
      using True 1(2) a'(1) by (simp add: clr_bytes.simps [of a])
    then show ?thesis using a' True by (auto simp: nth_list_update)
  qed (auto simp: clr_bytes.simps)
qed

lemma le_div_mod_8: "a \<le> b \<longleftrightarrow> a div 8 < b div 8 \<or> a div 8 = b div 8 \<and> a mod 8 \<le> b mod 8"
  for a b :: nat
proof -
  have m: "a mod 8 < 8" "b mod 8 < 8" by simp_all
  have e: "a = a div 8 * 8 + a mod 8" "b = b div 8 * 8 + b mod 8" by simp_all
  show ?thesis using div_le_mono [of a b 8] m e
    by (cases "a div 8" "b div 8" rule: linorder_cases) linarith+
qed

lemma lex_interval_one: "l = k \<Longrightarrow>
    (k < d \<or> k = d \<and> p \<le> r) \<and> (d < l \<or> d = l \<and> r \<le> t) \<longleftrightarrow> d = k \<and> p \<le> r \<and> r \<le> t"
  for k l d p r t :: nat
  by auto

lemma lex_interval_many: "k < l \<Longrightarrow>
    (k < d \<or> k = d \<and> p \<le> r) \<and> (d < l \<or> d = l \<and> r \<le> t) \<longleftrightarrow>
      (k < d \<and> d < l) \<or> (d = k \<and> p \<le> r) \<or> (d = l \<and> r \<le> t)"
  for k l d p r t :: nat
  by auto

text \<open>\<open>clrbits\<close> clears exactly the bits \<open>off, ..., off + len - 1\<close>.\<close>

lemma clrbits_qbit:
  assumes "0 < len" "off + len \<le> 8 * length a"
  obtains a' where "clrbits a off len = Some a'" "length a' = length a"
    "\<And>i. i < 8 * length a \<Longrightarrow> qbit a' i = (qbit a i \<and> \<not> (off \<le> i \<and> i < off + len))"
proof -
  define L where "L = off + len - 1"
  have L: "off \<le> L" "L < 8 * length a" "off + len + 8 - 1 = L + 8" "\<And>i. i < off + len \<longleftrightarrow> i \<le> L"
    using assms by (auto simp: L_def)
  have L8: "(L + 8) div 8 = L div 8 + 1" "(L + 8) mod 8 = L mod 8" by simp_all
  have Ld: "L div 8 < length a" using L(2) by (simp add: less_mult_imp_div_less mult.commute)
  show ?thesis
  proof (cases "L div 8 \<le> off div 8")
    case True
    then have d: "L div 8 = off div 8" using div_le_mono [OF L(1), of 8] by simp
    then have "off mod 8 + len = L mod 8 + 1"
      using div_mult_mod_eq [of off 8] div_mult_mod_eq [of L 8] assms(1) L_def by linarith
    then have m: "off mod 8 + len \<le> 8" "off mod 8 + len = L mod 8 + 1"
      by simp_all
    let ?a = "a[off div 8 := a ! (off div 8) AND NOT (push_bit (off mod 8) (mask len))]"
    show ?thesis
    proof (rule that [of ?a])
      show "clrbits a off len = Some ?a"
        using Ld d unfolding clrbits_def Let_def L(3) L8 by (simp add: and_byte_def)
      show "qbit ?a i = (qbit a i \<and> \<not> (off \<le> i \<and> i < off + len))" if "i < 8 * length a" for i
      proof -
        have "off \<le> i \<and> i < off + len \<longleftrightarrow>
            i div 8 = off div 8 \<and> off mod 8 \<le> i mod 8 \<and> i mod 8 \<le> L mod 8"
          by (simp only: L(4) le_div_mod_8 [of off i] le_div_mod_8 [of i L] lex_interval_one [OF d])
        moreover have "qbit ?a i = (qbit a i \<and>
            \<not> (i div 8 = off div 8 \<and> off mod 8 \<le> i mod 8 \<and> i mod 8 - off mod 8 < len))"
          using Ld d le_less_trans [OF diff_le_self, of "i mod 8" 8 "off mod 8"]
          by (auto simp: qbit_def nth_list_update bit_mask bit_push_bit_iff bit_mask_iff)
        moreover have "off mod 8 \<le> i mod 8 \<Longrightarrow> i mod 8 - off mod 8 < len \<longleftrightarrow> i mod 8 \<le> L mod 8"
          using m(2) by linarith
        ultimately show ?thesis by blast
      qed
    qed simp
  next
    case False
    let ?a1 = "a[off div 8 := a ! (off div 8) AND mask (off mod 8)]"
    let ?a2 = "?a1[L div 8 := ?a1 ! (L div 8) AND NOT (mask (L mod 8 + 1))]"
    obtain a3 where a3: "clr_bytes ?a2 (off div 8 + 1) (L div 8) = Some a3" "length a3 = length a"
      "\<forall>k < length a. a3 ! k = (if off div 8 + 1 \<le> k \<and> k < L div 8 then 0 else ?a2 ! k)"
      using clr_bytes_nth [of "L div 8" ?a2 "off div 8 + 1"] Ld by auto
    show ?thesis
    proof (rule that [OF _ a3(2)])
      show "clrbits a off len = Some a3"
        using Ld False a3(1) unfolding clrbits_def Let_def L(3) L8 by (simp add: and_byte_def)
      show "qbit a3 i = (qbit a i \<and> \<not> (off \<le> i \<and> i < off + len))" if "i < 8 * length a" for i
      proof -
        have "i div 8 < length a" using that by (simp add: less_mult_imp_div_less mult.commute)
        then have "qbit a3 i = (qbit a i \<and> \<not> ((off div 8 < i div 8 \<and> i div 8 < L div 8) \<or>
            (i div 8 = off div 8 \<and> off mod 8 \<le> i mod 8) \<or> (i div 8 = L div 8 \<and> i mod 8 \<le> L mod 8)))"
          using Ld False a3(3) by (auto simp: qbit_def nth_list_update bit_mask bit_mask_iff)
        moreover have "off \<le> i \<and> i < off + len \<longleftrightarrow> (off div 8 < i div 8 \<and> i div 8 < L div 8) \<or>
            (i div 8 = off div 8 \<and> off mod 8 \<le> i mod 8) \<or> (i div 8 = L div 8 \<and> i mod 8 \<le> L mod 8)"
          using False by (simp only: L(4) le_div_mod_8 [of off i] le_div_mod_8 [of i L]
              lex_interval_many not_le)
        ultimately show ?thesis by blast
      qed
    qed
  qed
qed

section \<open>Rings\<close>

text \<open>The \<open>k\<close> cells of a ring of \<open>n\<close> cells from position \<open>f\<close> on.\<close>

definition ring :: "(nat \<Rightarrow> 'a) \<Rightarrow> nat \<Rightarrow> nat \<Rightarrow> nat \<Rightarrow> 'a list" where
  "ring e n f k = map (\<lambda>j. e ((f + j) mod n)) [0..<k]"

lemma length_ring [simp]: "length (ring e n f k) = k"
  by (simp add: ring_def)

lemma ring_0 [simp]: "ring e n f 0 = []"
  by (simp add: ring_def)

lemma ring_cong:
  "(\<And>j. j < k \<Longrightarrow> e ((f + j) mod n) = e' ((f + j) mod n)) \<Longrightarrow> ring e n f k = ring e' n f k"
  by (simp add: ring_def)

lemma ring_Suc: "ring e n f (Suc k) = ring e n f k @ [e ((f + k) mod n)]"
  by (simp add: ring_def)

lemma ring_add: "ring e n f (j + k) = ring e n f j @ ring e n ((f + j) mod n) k"
  by (induction k) (simp_all add: ring_Suc mod_add_left_eq add.assoc)

lemma ring_drop: "j \<le> k \<Longrightarrow> drop j (ring e n f k) = ring e n ((f + j) mod n) (k - j)"
  using ring_add [of e n f j "k - j"] by simp

lemma ring_take: "j \<le> k \<Longrightarrow> take j (ring e n f k) = ring e n f j"
  using ring_add [of e n f j "k - j"] by simp

lemma ring_line: "f + k \<le> n \<Longrightarrow> ring e n f k = map e [f..<f + k]"
  by (rule nth_equalityI) (auto simp: ring_def)

lemma mod_wrap: "f < n \<Longrightarrow> k \<le> n \<Longrightarrow> (f + k) mod n = (if f + k < n then f + k else f + k - n)"
  for f k n :: nat
  by (auto simp: mod_if)

lemma mod_wrap_neq: "f < n \<Longrightarrow> j < k \<Longrightarrow> k \<le> i \<Longrightarrow> i < n \<Longrightarrow> (f + j) mod n \<noteq> (f + i) mod n"
  for f i j k n :: nat
  by (auto simp: mod_wrap split: if_splits)

lemma mod_wrap_pred:
  assumes "f < n" "Suc k \<le> n"
  shows "(if (f + Suc k) mod n = 0 then psub n 1 else Some ((f + Suc k) mod n - 1)) = Some ((f + k) mod n)"
  using assms unfolding mod_wrap [OF assms] mod_wrap [OF assms(1) Suc_leD [OF assms(2)]] by auto

section \<open>The abstraction\<close>

type_synonym cell = "u8 \<times> bool"

definition cell_char :: "cell \<Rightarrow> int" where
  "cell_char c = (if snd c then uint (fst c) OR 256 else uint (fst c))"

definition cell_of :: "clist \<Rightarrow> nat \<Rightarrow> cell" where
  "cell_of clp i = (the (c_cs clp) ! i, case c_cq clp of None \<Rightarrow> False | Some q \<Rightarrow> qbit q i)"

text \<open>The memory of a queue, and its two pointers when they are set.\<close>

definition ring_ok :: "clist \<Rightarrow> bool" where
  "ring_ok clp \<longleftrightarrow>
     0 < c_cn clp \<and> c_ce clp = c_cn clp \<and> c_cc clp \<le> c_cn clp \<and>
     c_cs clp \<noteq> None \<and> length (the (c_cs clp)) = c_cn clp \<and>
     (c_cq clp \<noteq> None \<longrightarrow> c_cn clp \<le> 8 * length (the (c_cq clp)))"

definition ring_at :: "clist \<Rightarrow> nat \<Rightarrow> bool" where
  "ring_at clp f \<longleftrightarrow>
     ring_ok clp \<and> f < c_cn clp \<and> c_cf clp = Some f \<and> c_cl clp = Some ((f + c_cc clp) mod c_cn clp)"

definition clist_wf :: "clist \<Rightarrow> bool" where
  "clist_wf clp \<longleftrightarrow>
     (if c_cc clp = 0 then ring_ok clp \<and> c_cf clp = None \<and> c_cl clp = None
      else case c_cf clp of None \<Rightarrow> False | Some f \<Rightarrow> ring_at clp f)"

definition contents :: "clist \<Rightarrow> cell list" where
  "contents clp =
     (case c_cf clp of None \<Rightarrow> [] | Some f \<Rightarrow> ring (cell_of clp) (c_cn clp) f (c_cc clp))"

text \<open>Two states of one queue: the same ring size, with or without quoting.\<close>

definition same_ring :: "clist \<Rightarrow> clist \<Rightarrow> bool" where
  "same_ring a b \<longleftrightarrow> c_cn a = c_cn b \<and> (c_cq a = None \<longleftrightarrow> c_cq b = None)"

lemma same_ring_trans: "same_ring a b \<Longrightarrow> same_ring b c \<Longrightarrow> same_ring a c"
  by (simp add: same_ring_def)

lemma same_ring_update [simp]:
  "same_ring a a" "same_ring (a\<lparr>c_cc := n\<rparr>) b = same_ring a b" "same_ring (a\<lparr>c_cf := f\<rparr>) b = same_ring a b"
  "same_ring (a\<lparr>c_cl := f\<rparr>) b = same_ring a b" "same_ring (a\<lparr>c_cs := m\<rparr>) b = same_ring a b"
  "same_ring (reset_empty a) b = same_ring a b"
  by (simp_all add: same_ring_def reset_empty_def)

lemma ring_okE:
  assumes "ring_ok clp"
  obtains buf where "c_cs clp = Some buf" "length buf = c_cn clp" "0 < c_cn clp"
    "c_ce clp = c_cn clp" "c_cc clp \<le> c_cn clp"
  using assms by (auto simp: ring_ok_def split: option.splits)

lemma wf_nonempty: "clist_wf clp \<Longrightarrow> 0 < c_cc clp \<Longrightarrow> \<exists>f. ring_at clp f"
  by (auto simp: clist_wf_def split: option.splits)

lemma wf_ring_ok: "clist_wf clp \<Longrightarrow> ring_ok clp"
  by (auto simp: clist_wf_def ring_at_def split: option.splits if_splits)

lemma contents_at: "ring_at clp f \<Longrightarrow> contents clp = ring (cell_of clp) (c_cn clp) f (c_cc clp)"
  by (simp add: contents_def ring_at_def)

lemma contents_empty [simp]: "c_cc clp = 0 \<Longrightarrow> contents clp = []"
  by (simp add: contents_def split: option.splits)

lemma length_contents: "clist_wf clp \<Longrightarrow> length (contents clp) = c_cc clp"
  by (auto simp: clist_wf_def contents_def split: option.splits if_splits)

lemma reset_empty_wf:
  assumes "ring_at clp f"
  shows "clist_wf (reset_empty clp)" "contents (reset_empty clp) = contents clp"
  using assms by (auto simp: reset_empty_def clist_wf_def ring_at_def ring_ok_def contents_def)

lemma cell_of_queue_update [simp]:
  "cell_of (clp\<lparr>c_cc := a\<rparr>) = cell_of clp" "cell_of (clp\<lparr>c_cf := b\<rparr>) = cell_of clp"
  "cell_of (clp\<lparr>c_cl := c\<rparr>) = cell_of clp"
  by (auto simp: cell_of_def)

lemma ring_ok_queue_update [simp]:
  "ring_ok (clp\<lparr>c_cf := b\<rparr>) = ring_ok clp" "ring_ok (clp\<lparr>c_cl := c\<rparr>) = ring_ok clp"
  by (auto simp: ring_ok_def)

lemma ring_ok_fewer: "ring_ok clp \<Longrightarrow> n \<le> c_cn clp \<Longrightarrow> ring_ok (clp\<lparr>c_cc := n\<rparr>)"
  by (auto simp: ring_ok_def)

lemma uint_and_255 [simp]: "uint (b::u8) AND 255 = uint b"
proof -
  have "take_bit 8 (uint b) = uint b" by (rule take_bit_int_eq_self) (use uint_bounded [of b] in auto)
  then show ?thesis by (simp add: take_bit_eq_mask mask_eq_exp_minus_1)
qed

lemma read_char_cell:
  assumes "ring_ok clp" "p < c_cn clp"
  shows "read_char clp p = Some (cell_char (cell_of clp p))"
  using assms by (auto simp: read_char_def ring_ok_def cell_of_def cell_char_def split: option.splits)

lemma wrap_mod: "ring_ok clp \<Longrightarrow> f < c_cn clp \<Longrightarrow> f + k \<le> c_cn clp \<Longrightarrow> wrap clp (f + k) = (f + k) mod c_cn clp"
  by (auto simp: wrap_def ring_ok_def mod_if)

section \<open>Taking characters out\<close>

text \<open>The state after \<open>k\<close> characters of the run at \<open>c_cf\<close> have been consumed.\<close>

lemma consume:
  assumes "ring_at clp f" "k \<le> c_cc clp" "f + k \<le> c_cn clp"
  shows "ring_at (clp\<lparr>c_cc := c_cc clp - k, c_cf := Some (wrap clp (f + k))\<rparr>) ((f + k) mod c_cn clp)"
    and "contents (clp\<lparr>c_cc := c_cc clp - k, c_cf := Some (wrap clp (f + k))\<rparr>) = drop k (contents clp)"
    and "take k (drop f (the (c_cs clp))) = map fst (take k (contents clp))"
proof -
  let ?c = "clp\<lparr>c_cc := c_cc clp - k, c_cf := Some (wrap clp (f + k))\<rparr>"
  have r: "ring_ok clp" "f < c_cn clp" "c_cl clp = Some ((f + c_cc clp) mod c_cn clp)" "0 < c_cn clp"
    "c_cc clp \<le> c_cn clp" "length (the (c_cs clp)) = c_cn clp"
    using assms(1) by (auto simp: ring_at_def ring_ok_def)
  have w: "wrap clp (f + k) = (f + k) mod c_cn clp" using r assms(3) by (intro wrap_mod)
  have "f + k + (c_cc clp - k) = f + c_cc clp" using assms(2) by simp
  then have "((f + k) mod c_cn clp + (c_cc clp - k)) mod c_cn clp = (f + c_cc clp) mod c_cn clp"
    by (simp only: mod_add_left_eq)
  then show at: "ring_at ?c ((f + k) mod c_cn clp)"
    using r by (simp add: ring_at_def w ring_ok_fewer)
  show "contents ?c = drop k (contents clp)"
    using assms(2) by (simp add: contents_at [OF at] contents_at [OF assms(1)] ring_drop)
  show "take k (drop f (the (c_cs clp))) = map fst (take k (contents clp))"
    unfolding contents_at [OF assms(1)] ring_take [OF assms(2)] ring_line [OF assms(3)]
    by (rule nth_equalityI) (use r assms in \<open>auto simp: cell_of_def\<close>)
qed

lemma run_out_at:
  assumes "ring_at clp f" "0 < c_cc clp"
  shows "run_out clp = Some (min (c_cc clp) (c_cn clp - f))"
  using assms by (auto simp: run_out_def ring_at_def ring_ok_def mod_wrap min_def)

text \<open>The number of characters one round of the loops moves.\<close>

lemma clip_run:
  assumes "ring_at clp f" "count > 0 \<and> c_cc clp > 0"
  obtains k where "0 < k" "k \<le> c_cc clp" "f + k \<le> c_cn clp" "k \<le> nat count"
    "(if int (min (c_cc clp) (c_cn clp - f)) > count then nat count else min (c_cc clp) (c_cn clp - f)) = k"
  by (rule that [of "min (min (c_cc clp) (c_cn clp - f)) (nat count)"])
    (use assms in \<open>auto simp: ring_at_def\<close>)

lemma q_to_b_loop_at:
  "ring_at clp f \<Longrightarrow> \<exists>clp' f'.
     q_to_b_loop clp p count = Some (clp', p @ map fst (take (nat count) (contents clp))) \<and>
     ring_at clp' f' \<and> contents clp' = drop (nat count) (contents clp) \<and> same_ring clp' clp"
proof (induction "nat count" arbitrary: clp f p count rule: less_induct)
  case less
  have lc: "length (contents clp) = c_cc clp" using less(2) by (simp add: contents_at)
  show ?case
  proof (cases "count > 0 \<and> c_cc clp > 0")
    case False
    then show ?thesis using less(2) lc by (auto simp: q_to_b_loop.simps)
  next
    case True
    have fc: "c_cf clp = Some f" "ring_ok clp" using less(2) by (auto simp: ring_at_def)
    obtain k where k: "0 < k" "k \<le> c_cc clp" "f + k \<le> c_cn clp" "k \<le> nat count"
      "(if int (min (c_cc clp) (c_cn clp - f)) > count then nat count else min (c_cc clp) (c_cn clp - f)) = k"
      using less(2) True by (rule clip_run)
    note con = consume [OF less(2) k(2,3)]
    let ?c = "clp\<lparr>c_cc := c_cc clp - k, c_cf := Some (wrap clp (f + k))\<rparr>"
    obtain buf where buf: "c_cs clp = Some buf" "length buf = c_cn clp" using fc(2) by (rule ring_okE)
    have step: "q_to_b_loop clp p count =
        q_to_b_loop ?c (p @ map fst (take k (contents clp))) (count - int k)"
      using True k fc buf con(3)
      by (simp add: q_to_b_loop.simps [of clp] run_out_at [OF less(2)] Let_def)
    have "nat (count - int k) < nat count" using True k by simp
    from less(1) [OF this con(1)] obtain clp' f' where
      IH: "q_to_b_loop ?c (p @ map fst (take k (contents clp))) (count - int k) =
            Some (clp', (p @ map fst (take k (contents clp))) @
              map fst (take (nat (count - int k)) (contents ?c)))"
          "ring_at clp' f'" "contents clp' = drop (nat (count - int k)) (contents ?c)" "same_ring clp' ?c"
      by blast
    have "same_ring clp' clp" using IH(4) by (rule same_ring_trans) simp
    have s: "nat (count - int k) + k = nat count" using k True by simp
    have "take k (contents clp) @ take (nat (count - int k)) (contents ?c) = take (nat count) (contents clp)"
      unfolding con(2) s [symmetric] by (simp add: take_add add.commute)
    moreover have "contents clp' = drop (nat count) (contents clp)"
      using IH(3) unfolding con(2) drop_drop s .
    ultimately show ?thesis using step IH(1,2) \<open>same_ring clp' clp\<close> by (metis append.assoc map_append)
  qed
qed

lemma ndflush_loop_at:
  "ring_at clp f \<Longrightarrow> \<exists>clp' f'.
     ndflush_loop clp count = Some clp' \<and> ring_at clp' f' \<and>
     contents clp' = drop (nat count) (contents clp) \<and> same_ring clp' clp"
proof (induction "nat count" arbitrary: clp f count rule: less_induct)
  case less
  have lc: "length (contents clp) = c_cc clp" using less(2) by (simp add: contents_at)
  show ?case
  proof (cases "count > 0 \<and> c_cc clp > 0")
    case False
    then show ?thesis using less(2) lc by (auto simp: ndflush_loop.simps)
  next
    case True
    have fc: "c_cf clp = Some f" "ring_ok clp" using less(2) by (auto simp: ring_at_def)
    obtain k where k: "0 < k" "k \<le> c_cc clp" "f + k \<le> c_cn clp" "k \<le> nat count"
      "(if int (min (c_cc clp) (c_cn clp - f)) > count then nat count else min (c_cc clp) (c_cn clp - f)) = k"
      using less(2) True by (rule clip_run)
    note con = consume [OF less(2) k(2,3)]
    let ?c = "clp\<lparr>c_cc := c_cc clp - k, c_cf := Some (wrap clp (f + k))\<rparr>"
    have step: "ndflush_loop clp count = ndflush_loop ?c (count - int k)"
      using True k fc by (simp add: ndflush_loop.simps [of clp] run_out_at [OF less(2)] Let_def)
    have "nat (count - int k) < nat count" using True k by simp
    from less(1) [OF this con(1)] obtain clp' f' where
      IH: "ndflush_loop ?c (count - int k) = Some clp'"
          "ring_at clp' f'" "contents clp' = drop (nat (count - int k)) (contents ?c)" "same_ring clp' ?c"
      by blast
    have "same_ring clp' clp" using IH(4) by (rule same_ring_trans) simp
    have s: "nat (count - int k) + k = nat count" using k True by simp
    have "contents clp' = drop (nat count) (contents clp)"
      using IH(3) unfolding con(2) drop_drop s .
    then show ?thesis using step IH(1,2) \<open>same_ring clp' clp\<close> by metis
  qed
qed

lemma getc_spec:
  assumes "clist_wf clp" "contents clp = c # cs"
  obtains clp' where "getc clp = Some (clp', cell_char c)" "clist_wf clp'" "contents clp' = cs"
    "same_ring clp' clp"
proof -
  have cc: "0 < c_cc clp" using length_contents [OF assms(1)] assms(2) by simp
  then obtain f where at: "ring_at clp f" using wf_nonempty assms(1) by blast
  then have f: "f < c_cn clp" "c_cf clp = Some f" "ring_ok clp" by (auto simp: ring_at_def)
  obtain buf where buf: "c_cs clp = Some buf" "length buf = c_cn clp" "c_cc clp \<le> c_cn clp"
    using f(3) by (rule ring_okE)
  define d where "d = clp\<lparr>c_cc := c_cc clp - 1, c_cf := Some (wrap clp (f + 1))\<rparr>"
  define d' where "d' = d\<lparr>c_cs := Some (buf[f := 0])\<rparr>"
  have con: "ring_at d ((f + 1) mod c_cn clp)" "contents d = drop 1 (contents clp)"
    unfolding d_def using consume [OF at, of 1] cc f(1) by auto
  then have at': "ring_at d' ((f + 1) mod c_cn clp)"
    using buf by (auto simp: d'_def d_def ring_at_def ring_ok_def)
  have "cell_of d' ((f + Suc j) mod c_cn clp) = cell_of d ((f + Suc j) mod c_cn clp)" if "Suc j < c_cc clp" for j
  proof -
    have "(f + 0) mod c_cn clp \<noteq> (f + Suc j) mod c_cn clp"
      by (rule mod_wrap_neq [of _ _ _ 1]) (use f buf that in auto)
    then show ?thesis using f by (simp add: cell_of_def d'_def d_def buf)
  qed
  moreover have "c_cn d' = c_cn clp" "c_cn d = c_cn clp" "c_cc d' = c_cc clp - 1" "c_cc d = c_cc clp - 1"
    by (simp_all add: d'_def d_def)
  ultimately have "contents d' = contents d"
    by (simp add: contents_at [OF at'] contents_at [OF con(1)], intro ring_cong)
      (simp add: mod_Suc_eq mod_add_left_eq)
  then have cd: "contents d' = cs" using con(2) assms(2) by simp
  have "c = cell_of clp f"
    using assms(2) cc f(1) by (simp add: contents_at [OF at] ring_def upt_conv_Cons)
  moreover have "d' = clp\<lparr>c_cs := Some (buf[f := 0]), c_cf := Some (wrap clp (f + 1)), c_cc := c_cc clp - 1\<rparr>"
    by (rule clist.equality) (simp_all add: d'_def d_def)
  ultimately have "getc clp = Some (reset_empty d', cell_char c)"
    using cc f buf by (simp add: getc_def read_char_cell Let_def)
  then show ?thesis
    using that reset_empty_wf [OF at'] cd by (auto simp: d'_def d_def)
qed

lemma getc_empty: "clist_wf clp \<Longrightarrow> contents clp = [] \<Longrightarrow> getc clp = Some (clp, - 1)"
  using length_contents [of clp] by (simp add: getc_def)

lemma q_to_b_spec:
  assumes "clist_wf clp"
  shows "\<exists>clp'. q_to_b clp count = Some (clp', map fst (take (nat count) (contents clp))) \<and>
    clist_wf clp' \<and> contents clp' = drop (nat count) (contents clp) \<and> same_ring clp' clp"
proof (cases "c_cc clp = 0")
  case True
  then show ?thesis using assms
    by (auto simp: q_to_b_def q_to_b_loop.simps reset_empty_def clist_wf_def contents_def)
next
  case False
  then obtain f where "ring_at clp f" using wf_nonempty assms by blast
  from q_to_b_loop_at [OF this, of "[]" count] obtain clp' f' where
    "q_to_b_loop clp [] count = Some (clp', map fst (take (nat count) (contents clp)))"
    "ring_at clp' f'" "contents clp' = drop (nat count) (contents clp)" "same_ring clp' clp" by auto
  then show ?thesis using reset_empty_wf by (auto simp: q_to_b_def)
qed

lemma ndflush_spec:
  assumes "clist_wf clp"
  shows "\<exists>clp'. ndflush clp count = Some clp' \<and> clist_wf clp' \<and>
    contents clp' = drop (nat count) (contents clp) \<and> same_ring clp' clp"
proof (cases "count = int (c_cc clp)")
  case True
  then show ?thesis using assms wf_ring_ok [OF assms] length_contents [OF assms]
    by (auto simp: ndflush_def clist_wf_def ring_ok_def)
next
  case neq: False
  show ?thesis
  proof (cases "c_cc clp = 0")
    case True
    then show ?thesis using assms neq
      by (auto simp: ndflush_def ndflush_loop.simps reset_empty_def clist_wf_def contents_def)
  next
    case False
    then obtain f where "ring_at clp f" using wf_nonempty assms by blast
    from ndflush_loop_at [OF this, of count] obtain clp' f' where
      "ndflush_loop clp count = Some clp'" "ring_at clp' f'"
      "contents clp' = drop (nat count) (contents clp)" "same_ring clp' clp" by auto
    then show ?thesis using neq reset_empty_wf by (auto simp: ndflush_def)
  qed
qed

lemma unputc_spec:
  assumes "clist_wf clp" "contents clp = cs @ [c]"
  shows "\<exists>clp'. unputc clp = Some (clp', cell_char c) \<and> clist_wf clp' \<and> contents clp' = cs \<and>
    same_ring clp' clp"
proof -
  have cc: "0 < c_cc clp" using length_contents [OF assms(1)] assms(2) by simp
  then obtain f where at: "ring_at clp f" using wf_nonempty assms(1) by blast
  then have f: "f < c_cn clp" "c_cf clp = Some f" "ring_ok clp" "c_cl clp = Some ((f + c_cc clp) mod c_cn clp)"
    "c_cc clp \<le> c_cn clp" "c_ce clp = c_cn clp"
    by (auto simp: ring_at_def ring_ok_def)
  obtain n where n: "c_cc clp = Suc n" using cc by (cases "c_cc clp") auto
  define d where "d = clp\<lparr>c_cl := Some ((f + n) mod c_cn clp), c_cc := n\<rparr>"
  have at': "ring_at d f" using at f n by (simp add: ring_at_def d_def ring_ok_fewer)
  have "contents clp = contents d @ [cell_of clp ((f + n) mod c_cn clp)]"
    unfolding contents_at [OF at] contents_at [OF at'] n ring_Suc by (simp add: d_def)
  then have c: "c = cell_of clp ((f + n) mod c_cn clp)" "contents d = cs" using assms(2) by auto
  have "(if (f + Suc n) mod c_cn clp = 0 then psub (c_cn clp) 1 else Some ((f + Suc n) mod c_cn clp - 1))
    = Some ((f + n) mod c_cn clp)"
    using f(1,5) n by (simp add: mod_wrap_pred del: add_Suc_right)
  moreover have "read_char d ((f + n) mod c_cn clp) = Some (cell_char c)"
    using at' f c by (subst read_char_cell) (auto simp: ring_at_def d_def)
  ultimately have "unputc clp = Some (reset_empty d, cell_char c)"
    using f n unfolding unputc_def d_def
    by (cases "(f + Suc n) mod c_cn clp = 0") (simp_all add: Let_def del: add_Suc_right)
  then show ?thesis using reset_empty_wf [OF at'] c(2) by (auto simp: d_def)
qed

section \<open>Putting characters in\<close>

lemma start_queue_at:
  assumes "clist_wf clp" "c_cc clp < c_cn clp"
  obtains clp' f where "start_queue kz clp = Inr clp'" "ring_at clp' f" "contents clp' = contents clp"
    "c_cc clp' = c_cc clp" "c_cn clp' = c_cn clp" "c_cq clp' = c_cq clp"
proof (cases "c_cc clp = 0")
  case True
  then have "ring_ok clp" "c_cs clp \<noteq> None" "c_cf clp = None"
    using assms(1) by (auto simp: clist_wf_def ring_ok_def)
  then show ?thesis using True assms(2) that [of "clp\<lparr>c_cf := Some 0, c_cl := Some 0\<rparr>" 0]
    by (auto simp: start_queue_def ring_at_def)
next
  case False
  then obtain f where "ring_at clp f" using wf_nonempty [OF assms(1)] by auto
  then show ?thesis using that [of clp f] False by (simp add: start_queue_def)
qed

text \<open>Adding \<open>k\<close> cells at \<open>c_cl\<close>: what the memory must hold afterwards.\<close>

lemma produce:
  assumes "ring_at clp f" "c_cc clp + length ys \<le> c_cn clp"
    and clp': "ring_ok clp'" "c_cn clp' = c_cn clp" "c_cf clp' = Some f" "c_cc clp' = c_cc clp + length ys"
      "c_cl clp' = Some ((f + c_cc clp') mod c_cn clp)"
    and new: "\<And>j. j < length ys \<Longrightarrow> cell_of clp' ((f + (c_cc clp + j)) mod c_cn clp) = ys ! j"
    and old: "\<And>i. i < c_cn clp \<Longrightarrow>
      (\<And>j. j < length ys \<Longrightarrow> i \<noteq> (f + (c_cc clp + j)) mod c_cn clp) \<Longrightarrow> cell_of clp' i = cell_of clp i"
  shows "ring_at clp' f \<and> contents clp' = contents clp @ ys"
proof -
  have f: "f < c_cn clp" using assms(1) by (simp add: ring_at_def)
  have at: "ring_at clp' f" using clp' f by (simp add: ring_at_def)
  have "ring (cell_of clp') (c_cn clp) f (c_cc clp) = ring (cell_of clp) (c_cn clp) f (c_cc clp)"
  proof (rule ring_cong, rule old)
    fix j i assume "j < c_cc clp" "i < length ys"
    then show "(f + j) mod c_cn clp \<noteq> (f + (c_cc clp + i)) mod c_cn clp"
      using f assms(2) by (intro mod_wrap_neq [of _ _ _ "c_cc clp"]) auto
  qed (use f in auto)
  moreover have "ring (cell_of clp') (c_cn clp) ((f + c_cc clp) mod c_cn clp) (length ys) = ys"
    by (rule nth_equalityI) (auto simp: ring_def mod_add_left_eq add.assoc new)
  ultimately show ?thesis
    using at by (simp add: contents_at [OF at] contents_at [OF assms(1)] clp' ring_add)
qed

definition char_cell :: "clist \<Rightarrow> int \<Rightarrow> cell" where
  "char_cell clp c = (word_of_int (c AND 255), c_cq clp \<noteq> None \<and> c AND 256 \<noteq> 0)"

lemma put_quote_cell:
  assumes "ring_ok clp" "i < c_cn clp"
  obtains clp' q' where "put_quote clp i b = Some clp'" "clp' = clp\<lparr>c_cq := q'\<rparr>" "ring_ok clp'"
    "q' = None \<longleftrightarrow> c_cq clp = None"
    "cell_of clp' i = (the (c_cs clp) ! i, c_cq clp \<noteq> None \<and> b)"
    "\<And>j. j < c_cn clp \<Longrightarrow> j \<noteq> i \<Longrightarrow> cell_of clp' j = cell_of clp j"
proof (cases "c_cq clp")
  case None
  then show ?thesis using assms that [of clp None] by (simp add: put_quote_def cell_of_def)
next
  case (Some q)
  then have l: "c_cn clp \<le> 8 * length q" using assms(1) by (simp add: ring_ok_def)
  obtain q' where q': "(if b then setbit q i else clrbit q i) = Some q'" "length q' = length q"
    "\<And>j. j < 8 * length q \<Longrightarrow> qbit q' j = (if j = i then b else qbit q j)"
  proof (cases b)
    case True
    obtain a' where "setbit q i = Some a'" "length a' = length q"
      "\<And>j. j < 8 * length q \<Longrightarrow> qbit a' j = (qbit q j \<or> j = i)"
      using assms(2) l by (auto intro: setbit_qbit [of i q])
    then show ?thesis using that [of a'] True by auto
  next
    case False
    obtain a' where "clrbit q i = Some a'" "length a' = length q"
      "\<And>j. j < 8 * length q \<Longrightarrow> qbit a' j = (qbit q j \<and> j \<noteq> i)"
      using assms(2) l by (auto intro: clrbit_qbit [of i q])
    then show ?thesis using that [of a'] False by auto
  qed
  show ?thesis
    by (rule that [of "clp\<lparr>c_cq := Some q'\<rparr>" "Some q'"])
      (use assms l q' Some in \<open>auto simp: put_quote_def cell_of_def ring_ok_def\<close>)
qed

lemma putc_spec:
  assumes "clist_wf clp" "c_cc clp < c_cn clp"
  obtains clp' where "putc kz c clp = Some (clp', 0)" "clist_wf clp'"
    "contents clp' = contents clp @ [char_cell clp c]"
    "same_ring clp' clp"
proof -
  obtain s f where s: "start_queue kz clp = Inr s" "ring_at s f" "contents s = contents clp"
    "c_cc s = c_cc clp" "c_cn s = c_cn clp" "c_cq s = c_cq clp"
    using assms by (rule start_queue_at)
  define l where "l = (f + c_cc s) mod c_cn s"
  have f: "f < c_cn s" "c_cl s = Some l" "ring_ok s" "c_cf s = Some f" "l < c_cn s"
    using s(2) by (auto simp: ring_at_def l_def)
  obtain buf where buf: "c_cs s = Some buf" "length buf = c_cn s" "c_ce s = c_cn s" using f(3) by (rule ring_okE)
  define u where "u = s\<lparr>c_cs := Some (buf[l := word_of_int (c AND 255)])\<rparr>"
  have u: "ring_ok u" using f(3) buf by (simp add: u_def ring_ok_def)
  obtain v q' where v: "put_quote u l (c AND 256 \<noteq> 0) = Some v" "v = u\<lparr>c_cq := q'\<rparr>" "ring_ok v"
    "q' = None \<longleftrightarrow> c_cq u = None" "cell_of v l = (the (c_cs u) ! l, c_cq u \<noteq> None \<and> c AND 256 \<noteq> 0)"
    "\<And>j. j < c_cn u \<Longrightarrow> j \<noteq> l \<Longrightarrow> cell_of v j = cell_of u j"
    using put_quote_cell [OF u, of l] f(5) by (auto simp: u_def)
  define w where "w = v\<lparr>c_cc := c_cc v + 1, c_cl := Some (wrap v (l + 1))\<rparr>"
  have wr: "wrap v (l + 1) = (f + (c_cc s + 1)) mod c_cn s"
    using wrap_mod [OF v(3), of l 1] f(5) v(2) u_def l_def by (simp add: mod_Suc_eq)
  have "ring_at w f \<and> contents w = contents s @ [char_cell clp c]"
  proof (rule produce [OF s(2)])
    show "ring_ok w" using v(3) assms(2) s by (simp add: w_def v(2) u_def ring_ok_fewer)
    show "cell_of w i = cell_of s i"
      if "i < c_cn s" "\<And>j. j < length [char_cell clp c] \<Longrightarrow> i \<noteq> (f + (c_cc s + j)) mod c_cn s" for i
      using that(1) that(2) [of 0] v(6) [of i] by (simp add: w_def l_def [symmetric] u_def cell_of_def buf)
    show "cell_of w ((f + (c_cc s + j)) mod c_cn s) = [char_cell clp c] ! j"
      if "j < length [char_cell clp c]" for j
      using that v(5) f(5) by (simp add: w_def l_def [symmetric] u_def buf char_cell_def s(6))
  qed (use assms(2) s wr f in \<open>auto simp: w_def v(2) u_def\<close>)
  moreover have "putc kz c clp = Some (w, 0)"
    using assms(2) s f buf v(1) by (simp add: putc_def u_def w_def)
  moreover have "ring_at w f \<Longrightarrow> clist_wf w"
    by (simp add: clist_wf_def ring_at_def w_def)
  ultimately show ?thesis using that s v(2,4) by (auto simp: w_def u_def same_ring_def)
qed

lemma clear_quotes_cell:
  assumes "ring_ok clp" "0 < k" "l + k \<le> c_cn clp"
  obtains q' where "clear_quotes clp l k = Some (clp\<lparr>c_cq := q'\<rparr>)" "ring_ok (clp\<lparr>c_cq := q'\<rparr>)"
    "q' = None \<longleftrightarrow> c_cq clp = None"
    "\<And>j. j < c_cn clp \<Longrightarrow> cell_of (clp\<lparr>c_cq := q'\<rparr>) j =
      (the (c_cs clp) ! j, if l \<le> j \<and> j < l + k then False else snd (cell_of clp j))"
proof (cases "c_cq clp")
  case None
  show ?thesis
    by (rule that [of None]) (use assms None in \<open>auto simp: clear_quotes_def cell_of_def ring_ok_def\<close>)
next
  case (Some q)
  then have l: "l + k \<le> 8 * length q" using assms(1,3) by (simp add: ring_ok_def)
  obtain a' where "clrbits q l k = Some a'" "length a' = length q"
    "\<And>j. j < 8 * length q \<Longrightarrow> qbit a' j = (qbit q j \<and> \<not> (l \<le> j \<and> j < l + k))"
    using assms(2) l by (auto intro: clrbits_qbit [of k l q])
  then show ?thesis using assms Some that [of "Some a'"]
    by (auto simp: clear_quotes_def cell_of_def ring_ok_def)
qed

lemma run_in_at:
  assumes "ring_at clp f" "c_cc clp < c_cn clp"
  shows "run_in clp = Some (if f + c_cc clp < c_cn clp then c_cn clp - (f + c_cc clp) else c_cn clp - c_cc clp)"
  using assms by (auto simp: run_in_def ring_at_def ring_ok_def mod_wrap)

text \<open>One round of the loop of \<open>b_to_q\<close>.\<close>

lemma b_to_q_round:
  assumes at: "ring_at clp f" and p: "p \<noteq> []" "c_cc clp < c_cn clp"
  obtains k clp' where "0 < k" "k \<le> length p" "c_cc clp + k \<le> c_cn clp"
    "b_to_q_loop p clp = b_to_q_loop (drop k p) clp'" "ring_at clp' f"
    "contents clp' = contents clp @ map (\<lambda>b. (b, False)) (take k p)"
    "c_cc clp' = c_cc clp + k" "same_ring clp' clp"
proof -
  define l where "l = (f + c_cc clp) mod c_cn clp"
  have f: "f < c_cn clp" "c_cl clp = Some l" "ring_ok clp" "c_cf clp = Some f" "l < c_cn clp"
    using at by (auto simp: ring_at_def l_def)
  obtain buf where buf: "c_cs clp = Some buf" "length buf = c_cn clp" "c_ce clp = c_cn clp"
    using f(3) by (rule ring_okE)
  obtain r where r: "run_in clp = Some r" "0 < r" "c_cc clp + r \<le> c_cn clp" "l + r \<le> c_cn clp"
    using run_in_at [OF at p(2)] f(1) p(2) by (auto simp: l_def mod_wrap)
  define k where "k = (if r > length p then length p else r)"
  have k: "0 < k" "k \<le> length p" "c_cc clp + k \<le> c_cn clp" "l + k \<le> c_cn clp"
    using p(1) r by (auto simp: k_def)
  define buf' where "buf' = take l buf @ take k p @ drop (l + k) buf"
  have b': "acopy buf l (take k p) = Some buf'" "length buf' = c_cn clp"
    "\<And>j. j < c_cn clp \<Longrightarrow> buf' ! j = (if l \<le> j \<and> j < l + k then p ! (j - l) else buf ! j)"
    using k buf acopy_nth [of l "take k p" buf] by (auto simp: buf'_def min_absorb2)
  define u where "u = clp\<lparr>c_cs := Some buf'\<rparr>"
  have u: "ring_ok u" using f(3) b' by (simp add: u_def ring_ok_def)
  obtain q' where q': "clear_quotes u l k = Some (u\<lparr>c_cq := q'\<rparr>)" "ring_ok (u\<lparr>c_cq := q'\<rparr>)"
    "q' = None \<longleftrightarrow> c_cq u = None"
    "\<And>j. j < c_cn u \<Longrightarrow> cell_of (u\<lparr>c_cq := q'\<rparr>) j =
      (the (c_cs u) ! j, if l \<le> j \<and> j < l + k then False else snd (cell_of u j))"
    using clear_quotes_cell [OF u k(1), of l] k(4) by (auto simp: u_def)
  define v where "v = u\<lparr>c_cq := q'\<rparr>"
  define w where "w = v\<lparr>c_cc := c_cc v + k, c_cl := Some (wrap v (l + k))\<rparr>"
  have pos: "(f + (c_cc clp + j)) mod c_cn clp = l + j" if "j < k" for j
    using that k(4) mod_add_left_eq [of "f + c_cc clp" "c_cn clp" j] by (simp add: l_def add.assoc)
  have wr: "wrap v (l + k) = (f + (c_cc clp + k)) mod c_cn clp"
    using wrap_mod [OF q'(2), of l k] f(5) k(4) mod_add_left_eq [of "f + c_cc clp" "c_cn clp" k]
    by (simp add: v_def u_def l_def add.assoc)
  have cw: "cell_of w j = (if l \<le> j \<and> j < l + k then (p ! (j - l), False) else cell_of clp j)"
    if "j < c_cn clp" for j
    using q'(4) [of j] that b'(3) by (auto simp: w_def v_def u_def cell_of_def buf)
  have "ring_at w f \<and> contents w = contents clp @ map (\<lambda>b. (b, False)) (take k p)"
  proof (rule produce [OF at])
    show "ring_ok w" using q'(2) k(3) by (simp add: w_def v_def u_def ring_ok_fewer)
    show "cell_of w ((f + (c_cc clp + j)) mod c_cn clp) = map (\<lambda>b. (b, False)) (take k p) ! j"
      if "j < length (map (\<lambda>b. (b, False)) (take k p))" for j
      using that cw pos k by simp
    show "cell_of w i = cell_of clp i" if "i < c_cn clp"
      "\<And>j. j < length (map (\<lambda>b. (b, False)) (take k p)) \<Longrightarrow> i \<noteq> (f + (c_cc clp + j)) mod c_cn clp" for i
    proof -
      have "\<not> (l \<le> i \<and> i < l + k)"
      proof
        assume a: "l \<le> i \<and> i < l + k"
        then have "i - l < k" by (simp add: less_diff_conv2 add.commute)
        then show False using that(2) [of "i - l"] pos [of "i - l"] k a by simp
      qed
      then show ?thesis using cw [OF that(1)] by auto
    qed
  qed (use k f wr in \<open>auto simp: w_def v_def u_def\<close>)
  moreover have "b_to_q_loop p clp = b_to_q_loop (drop k p) w"
    using p r(1) f buf b'(1) q'(1) k_def by (simp add: b_to_q_loop.simps [of p] w_def v_def u_def Let_def)
  ultimately show ?thesis using that [of k w] k q'(3) by (simp add: w_def v_def u_def same_ring_def)
qed

lemma b_to_q_loop_at:
  "ring_at clp f \<Longrightarrow> \<exists>clp'.
     b_to_q_loop p clp = Some (clp', drop (c_cn clp - c_cc clp) p) \<and> ring_at clp' f \<and>
     contents clp' = contents clp @ map (\<lambda>b. (b, False)) (take (c_cn clp - c_cc clp) p) \<and>
     (p \<noteq> [] \<and> c_cc clp < c_cn clp \<longrightarrow> 0 < c_cc clp') \<and> same_ring clp' clp"
proof (induction "length p" arbitrary: clp p rule: less_induct)
  case less
  show ?case
  proof (cases "p \<noteq> [] \<and> c_cc clp < c_cn clp")
    case False
    then have "b_to_q_loop p clp = Some (clp, p)" by (auto simp: b_to_q_loop.simps)
    then show ?thesis using False less(2) by (cases "p = []") (auto simp: ring_at_def ring_ok_def)
  next
    case True
    then obtain k clp' where r: "0 < k" "k \<le> length p" "c_cc clp + k \<le> c_cn clp"
      "b_to_q_loop p clp = b_to_q_loop (drop k p) clp'" "ring_at clp' f"
      "contents clp' = contents clp @ map (\<lambda>b. (b, False)) (take k p)"
      "c_cc clp' = c_cc clp + k" "same_ring clp' clp"
      using less(2) by (auto elim: b_to_q_round)
    have "length (drop k p) < length p" using r True by simp
    from less(1) [OF this r(5)] obtain d where d: "b_to_q_loop (drop k p) clp' = Some (d, drop (c_cn clp' - c_cc clp') (drop k p))"
      "ring_at d f" "contents d = contents clp' @ map (\<lambda>b. (b, False)) (take (c_cn clp' - c_cc clp') (drop k p))"
      "same_ring d clp'"
      by blast
    have s: "c_cn clp - c_cc clp = k + (c_cn clp' - c_cc clp')" using r by (simp add: same_ring_def)
    have "same_ring d clp" using d(4) r(8) by (rule same_ring_trans)
    have "c_cc d = length (contents d)" using d(2) by (simp add: contents_at)
    then have "0 < c_cc d" using d(3) r True by simp
    then show ?thesis unfolding s take_add using r(4,6) d \<open>same_ring d clp\<close> by (simp add: add.commute)
  qed
qed

lemma b_to_q_spec:
  assumes "clist_wf clp"
  shows "\<exists>clp'. b_to_q kz cp clp = Some (clp', drop (c_cn clp - length (contents clp)) cp) \<and> clist_wf clp' \<and>
    contents clp' = contents clp @ map (\<lambda>b. (b, False)) (take (c_cn clp - length (contents clp)) cp) \<and>
    same_ring clp' clp"
proof (cases "cp = [] \<or> c_cc clp = c_cn clp")
  case True
  then show ?thesis using assms length_contents [OF assms] by (auto simp: b_to_q_def)
next
  case False
  then have lt: "c_cc clp < c_cn clp" using wf_ring_ok [OF assms] by (auto simp: ring_ok_def)
  obtain s f where s: "start_queue kz clp = Inr s" "ring_at s f" "contents s = contents clp"
    "c_cc s = c_cc clp" "c_cn s = c_cn clp" "c_cq s = c_cq clp"
    using assms lt by (rule start_queue_at)
  from b_to_q_loop_at [OF s(2), of cp] obtain d where
    d: "b_to_q_loop cp s = Some (d, drop (c_cn s - c_cc s) cp)" "ring_at d f"
      "contents d = contents s @ map (\<lambda>b. (b, False)) (take (c_cn s - c_cc s) cp)" "0 < c_cc d" "same_ring d clp"
    using False lt s(4-6) by (auto simp: same_ring_def)
  moreover have "clist_wf d" using d(2,4) by (simp add: clist_wf_def ring_at_def)
  ultimately show ?thesis using False s length_contents [OF assms] by (auto simp: b_to_q_def)
qed

end
