(* ===== verification/Tty_Fifo.thy ===== *)
theory Tty_Fifo
  imports Tty_Queue
begin

text \<open>
  What the character queues promise their clients.  The locale \<open>bounded_queue\<close> is the
  contract of \<open>putc\<close> and \<open>getc\<close>; it is interpreted on the ring buffer, and \<open>catq\<close> is
  verified against the contract alone.  The remaining operations are related to an
  abstract queue by a refinement theorem on arbitrary sequences of calls.
\<close>

section \<open>The contract\<close>

locale bounded_queue =
  fixes wf :: "'q \<Rightarrow> bool"
    and items :: "'q \<Rightarrow> 'a list"
    and cap :: "'q \<Rightarrow> nat"
    and enc :: "'q \<Rightarrow> int \<Rightarrow> 'a"
    and dec :: "'a \<Rightarrow> int"
    and put :: "int \<Rightarrow> 'q \<Rightarrow> ('q \<times> int) option"
    and get :: "'q \<Rightarrow> ('q \<times> int) option"
  assumes items_cap: "wf q \<Longrightarrow> length (items q) \<le> cap q"
    and put_room: "wf q \<Longrightarrow> length (items q) < cap q \<Longrightarrow>
      \<exists>q'. put c q = Some (q', 0) \<and> wf q' \<and> items q' = items q @ [enc q c] \<and> cap q' = cap q \<and> enc q' = enc q"
    and put_full: "wf q \<Longrightarrow> length (items q) = cap q \<Longrightarrow> put c q = Some (q, - 1)"
    and get_item: "wf q \<Longrightarrow> items q = x # xs \<Longrightarrow>
      \<exists>q'. get q = Some (q', dec x) \<and> wf q' \<and> items q' = xs \<and> cap q' = cap q \<and> enc q' = enc q"
    and get_none: "wf q \<Longrightarrow> items q = [] \<Longrightarrow> get q = Some (q, - 1)"
    and dec_code: "dec x \<noteq> - 1"

locale queue_transfer = bounded_queue +
  fixes cat :: "'a \<Rightarrow> 'a \<Rightarrow> ('a \<times> 'a) option"
  assumes cat_unfold: "cat src dst = do {
     (src, c) \<leftarrow> get src;
     if c \<noteq> - 1 then do { (dst, r) \<leftarrow> put c dst; cat src dst } else Some (src, dst) }"
begin

text \<open>A transfer empties the source and fills the destination up to its capacity.\<close>

lemma cat_moves:
  "wf src \<Longrightarrow> wf dst \<Longrightarrow> \<exists>src' dst'. cat src dst = Some (src', dst') \<and> wf src' \<and> wf dst' \<and>
     items src' = [] \<and> cap dst' = cap dst \<and>
     items dst' = items dst @ take (cap dst - length (items dst)) (map (enc dst \<circ> dec) (items src))"
proof (induction "items src" arbitrary: src dst)
  case Nil
  then show ?case using get_none [of src] by (simp add: cat_unfold [of src])
next
  case (Cons x xs)
  obtain s where s: "get src = Some (s, dec x)" "wf s" "items s = xs"
    using get_item [OF Cons(3), of x xs] Cons(2) by auto
  show ?case
  proof (cases "length (items dst) < cap dst")
    case True
    then obtain d where d: "put (dec x) dst = Some (d, 0)" "wf d" "items d = items dst @ [enc dst (dec x)]"
      "cap d = cap dst" "enc d = enc dst"
      using put_room [OF Cons(4)] by blast
    have n: "cap dst - length (items dst) = Suc (cap dst - length (items d))" using True d(3) by simp
    have step: "cat src dst = cat s d" using s(1) d(1) dec_code [of x] by (simp add: cat_unfold [of src])
    from Cons(1) [of s d] s(2,3) d(2) obtain s' d' where
      "cat s d = Some (s', d')" "wf s'" "wf d'" "items s' = []" "cap d' = cap d"
      "items d' = items d @ take (cap d - length (items d)) (map (enc d \<circ> dec) xs)" by auto
    then show ?thesis using step d n Cons(2) [symmetric] by (simp add: n)
  next
    case False
    then have f: "length (items dst) = cap dst" using items_cap [OF Cons(4)] by simp
    have step: "cat src dst = cat s dst"
      using s(1) put_full [OF Cons(4) f] dec_code [of x] by (simp add: cat_unfold [of src])
    from Cons(1) [of s dst] s(2,3) Cons(4) obtain s' d' where
      "cat s dst = Some (s', d')" "wf s'" "wf d'" "items s' = []" "cap d' = cap dst"
      "items d' = items dst @ take (cap dst - length (items dst)) (map (enc dst \<circ> dec) xs)" by auto
    then show ?thesis using step f by simp
  qed
qed

end

lemma cell_char_code: "cell_char x \<noteq> - 1"
proof -
  have "0 \<le> cell_char x" by (simp add: cell_char_def)
  then show ?thesis by simp
qed

lemma bit_256: "(256::int) = 2 ^ 8"
  by simp

lemma and_256_iff: "c AND 256 \<noteq> 0 \<longleftrightarrow> bit c 8" for c :: int
  unfolding bit_256 using and_exp_eq_0_iff_not_bit [of c 8] by blast

lemma char_cell_of_cell:
  "char_cell dst (cell_char (b, q)) = (b, c_cq dst \<noteq> None \<and> q)"
proof -
  have n: "\<not> bit (uint b) 8" by (simp add: bit_uint_iff)
  have "(uint b OR 256) AND 255 = uint b"
    by (simp add: bit.conj_disj_distrib2)
  moreover have "(uint b OR 256) AND 256 \<noteq> 0" unfolding and_256_iff by (simp add: bit_or_iff)
  moreover have "uint b AND 256 = 0" using n and_256_iff [of "uint b"] by blast
  ultimately show ?thesis by (simp add: char_cell_def cell_char_def)
qed

lemma same_ring_char_cell: "same_ring a b \<Longrightarrow> char_cell a = char_cell b"
  by (auto simp: same_ring_def char_cell_def fun_eq_iff)

lemma same_ring_kind:
  "same_ring a b \<Longrightarrow> c_cn a = c_cn b \<and> char_cell a = char_cell b \<and> (c_cq a \<noteq> None) = (c_cq b \<noteq> None)"
  using same_ring_char_cell [of a b] by (auto simp: same_ring_def)

lemma putc_full: "clist_wf clp \<Longrightarrow> length (contents clp) = c_cn clp \<Longrightarrow> putc kz c clp = Some (clp, - 1)"
  using length_contents [of clp] by (simp add: putc_def)

interpretation clq: queue_transfer clist_wf contents c_cn char_cell cell_char "putc kz" getc "catq kz" for kz
proof
  fix q x xs c src dst
  assume wf: "clist_wf q"
  note len = length_contents [OF wf]
  show "length (contents q) \<le> c_cn q" using wf_ring_ok [OF wf] len by (simp add: ring_ok_def)
  show "contents q = [] \<Longrightarrow> getc q = Some (q, - 1)" using wf by (rule getc_empty)
  show "length (contents q) = c_cn q \<Longrightarrow> putc kz c q = Some (q, - 1)" using wf by (rule putc_full)
  show "\<exists>q'. putc kz c q = Some (q', 0) \<and> clist_wf q' \<and> contents q' = contents q @ [char_cell q c] \<and>
      c_cn q' = c_cn q \<and> char_cell q' = char_cell q" if "length (contents q) < c_cn q"
  proof -
    have "c_cc q < c_cn q" using that len by simp
    then show ?thesis
      by (rule putc_spec [OF wf, of kz c]) (auto dest!: same_ring_kind)
  qed
  show "\<exists>q'. getc q = Some (q', cell_char x) \<and> clist_wf q' \<and> contents q' = xs \<and>
      c_cn q' = c_cn q \<and> char_cell q' = char_cell q" if "contents q = x # xs"
    by (rule getc_spec [OF wf that]) (auto dest!: same_ring_kind)
qed (simp_all add: cell_char_code catq.simps)

section \<open>Sequences of calls\<close>

datatype clop = Putc int | Getc | Unputc | BtoQ "u8 list" | QtoB int | Flush int

datatype clres = Code int | Bytes "u8 list" | Done

fun clist_op :: "kz \<Rightarrow> clop \<Rightarrow> clist \<Rightarrow> (clist \<times> clres) option" where
  "clist_op kz (Putc c) clp = do { (clp, r) \<leftarrow> putc kz c clp; Some (clp, Code r) }"
| "clist_op kz Getc clp = do { (clp, r) \<leftarrow> getc clp; Some (clp, Code r) }"
| "clist_op kz Unputc clp = do { (clp, r) \<leftarrow> unputc clp; Some (clp, Code r) }"
| "clist_op kz (BtoQ bs) clp = do { (clp, r) \<leftarrow> b_to_q kz bs clp; Some (clp, Bytes r) }"
| "clist_op kz (QtoB n) clp = do { (clp, r) \<leftarrow> q_to_b clp n; Some (clp, Bytes r) }"
| "clist_op kz (Flush n) clp = do { clp \<leftarrow> ndflush clp n; Some (clp, Done) }"

fun clist_ops :: "kz \<Rightarrow> clop list \<Rightarrow> clist \<Rightarrow> (clist \<times> clres list) option" where
  "clist_ops kz [] clp = Some (clp, [])"
| "clist_ops kz (op # ops) clp = do {
     (clp, r) \<leftarrow> clist_op kz op clp;
     (clp, rs) \<leftarrow> clist_ops kz ops clp;
     Some (clp, r # rs) }"

text \<open>The abstract queue: a list of at most \<open>n\<close> cells; \<open>qt\<close> tells whether quotes are kept.\<close>

fun queue_op :: "nat \<Rightarrow> bool \<Rightarrow> clop \<Rightarrow> cell list \<Rightarrow> cell list \<times> clres" where
  "queue_op n qt (Putc c) xs =
     (if length xs < n then (xs @ [(word_of_int (c AND 255), qt \<and> c AND 256 \<noteq> 0)], Code 0)
      else (xs, Code (- 1)))"
| "queue_op n qt Getc xs = (case xs of [] \<Rightarrow> ([], Code (- 1)) | x # xs \<Rightarrow> (xs, Code (cell_char x)))"
| "queue_op n qt Unputc xs =
     (if xs = [] then ([], Code (- 1)) else (butlast xs, Code (cell_char (last xs))))"
| "queue_op n qt (BtoQ bs) xs =
     (xs @ map (\<lambda>b. (b, False)) (take (n - length xs) bs), Bytes (drop (n - length xs) bs))"
| "queue_op n qt (QtoB k) xs = (drop (nat k) xs, Bytes (map fst (take (nat k) xs)))"
| "queue_op n qt (Flush k) xs = (drop (nat k) xs, Done)"

fun queue_ops :: "nat \<Rightarrow> bool \<Rightarrow> clop list \<Rightarrow> cell list \<Rightarrow> cell list \<times> clres list" where
  "queue_ops n qt [] xs = (xs, [])"
| "queue_ops n qt (op # ops) xs =
     (let (xs, r) = queue_op n qt op xs; (xs, rs) = queue_ops n qt ops xs in (xs, r # rs))"

lemma clist_op_refines:
  assumes wf: "clist_wf clp"
  shows "\<exists>clp' r. clist_op kz op clp = Some (clp', r) \<and> clist_wf clp' \<and> same_ring clp' clp \<and>
    queue_op (c_cn clp) (c_cq clp \<noteq> None) op (contents clp) = (contents clp', r)"
proof (cases op)
  case (Putc c)
  show ?thesis
  proof (cases "length (contents clp) < c_cn clp")
    case True
    then have "c_cc clp < c_cn clp" using length_contents [OF wf] by simp
    then show ?thesis
      by (rule putc_spec [OF wf, of kz c]) (use Putc True in \<open>auto simp: char_cell_def\<close>)
  next
    case False
    then show ?thesis using Putc wf putc_full [OF wf, of kz c] clq.items_cap [OF wf] by auto
  qed
next
  case Getc
  show ?thesis
  proof (cases "contents clp")
    case Nil
    then show ?thesis using Getc wf getc_empty by auto
  next
    case (Cons x xs)
    show ?thesis by (rule getc_spec [OF wf Cons]) (use Getc Cons in auto)
  qed
next
  case Unputc
  show ?thesis
  proof (cases "contents clp" rule: rev_cases)
    case Nil
    then show ?thesis using Unputc wf length_contents [OF wf] by (auto simp: unputc_def)
  next
    case (snoc xs x)
    then show ?thesis using Unputc unputc_spec [OF wf snoc] by auto
  qed
next
  case (BtoQ bs)
  then show ?thesis using b_to_q_spec [OF wf, of kz bs] by auto
next
  case (QtoB n)
  then show ?thesis using q_to_b_spec [OF wf, of n] by auto
next
  case (Flush n)
  then show ?thesis using ndflush_spec [OF wf, of n] by auto
qed

lemma clist_ops_refine:
  "clist_wf clp \<Longrightarrow> \<exists>clp' rs. clist_ops kz ops clp = Some (clp', rs) \<and> clist_wf clp' \<and> same_ring clp' clp \<and>
    queue_ops (c_cn clp) (c_cq clp \<noteq> None) ops (contents clp) = (contents clp', rs)"
proof (induction ops arbitrary: clp)
  case (Cons op ops)
  obtain d r where d: "clist_op kz op clp = Some (d, r)" "clist_wf d" "same_ring d clp"
    "queue_op (c_cn clp) (c_cq clp \<noteq> None) op (contents clp) = (contents d, r)"
    using clist_op_refines [OF Cons(2)] by blast
  then have "c_cn d = c_cn clp" "(c_cq d \<noteq> None) = (c_cq clp \<noteq> None)" by (auto simp: same_ring_def)
  moreover obtain e rs where "clist_ops kz ops d = Some (e, rs)" "clist_wf e" "same_ring e d"
    "queue_ops (c_cn d) (c_cq d \<noteq> None) ops (contents d) = (contents e, rs)"
    using Cons(1) [OF d(2)] by blast
  ultimately show ?case using d same_ring_trans [of e d clp] by simp
qed simp

lemma clalloc_wf:
  assumes "kz n = Some buf" "length buf = n" "kz (QMEM n) = Some q" "length q = QMEM n" "0 < n"
  shows "\<exists>clp'. clalloc kz clp n qt = (clp', 0) \<and> clist_wf clp' \<and> contents clp' = [] \<and>
    c_cn clp' = n \<and> (c_cq clp' \<noteq> None) = qt"
proof -
  have "n \<le> 8 * QMEM n" using assms(5) dividend_less_times_div [of 8 "n - 1"]
    by (cases n) (auto simp: QMEM_def)
  then show ?thesis using assms by (auto simp: clalloc_def Let_def clist_wf_def ring_ok_def contents_def)
qed

text \<open>C16. The ring buffer refines a bounded queue: on a queue set up by \<open>clalloc\<close>, with or
  without quoting, every sequence of calls of \<open>putc\<close>, \<open>getc\<close>, \<open>unputc\<close>, \<open>b_to_q\<close>,
  \<open>q_to_b\<close> and \<open>ndflush\<close> ends, never accesses memory outside the ring or the quote bits,
  and returns exactly what the abstract queue of at most \<open>n\<close> characters returns.\<close>

theorem clist_refines_queue:
  assumes "0 < n" "kz n = Some buf" "length buf = n" "kz (QMEM n) = Some q" "length q = QMEM n"
  shows "\<exists>clp clp'. clalloc kz clp0 n qt = (clp, 0) \<and>
    clist_ops kz ops clp = Some (clp', snd (queue_ops n qt ops [])) \<and> clist_wf clp' \<and>
    contents clp' = fst (queue_ops n qt ops [])"
proof -
  obtain clp where clp: "clalloc kz clp0 n qt = (clp, 0)" "clist_wf clp" "contents clp = []"
    "c_cn clp = n" "(c_cq clp \<noteq> None) = qt"
    using clalloc_wf [OF assms(2-5,1)] by blast
  moreover obtain clp' rs where r: "clist_ops kz ops clp = Some (clp', rs)" "clist_wf clp'"
    "queue_ops (c_cn clp) (c_cq clp \<noteq> None) ops (contents clp) = (contents clp', rs)"
    using clist_ops_refine [OF clp(2), of kz ops] by blast
  ultimately have "queue_ops n qt ops [] = (contents clp', rs)" by simp
  then show ?thesis using clp(1) r(1,2) by simp
qed

text \<open>\<open>catq\<close> on two well-formed queues ends with the source empty and the destination
  holding its characters followed by those of the source, cut at its capacity; quote
  marks survive when the destination keeps them.\<close>

theorem catq_moves_all:
  assumes "clist_wf src" "clist_wf dst"
  shows "\<exists>src' dst'. catq kz src dst = Some (src', dst') \<and> clist_wf src' \<and> clist_wf dst' \<and>
    contents src' = [] \<and>
    contents dst' = contents dst @ take (c_cn dst - length (contents dst))
      (map (\<lambda>(b, q). (b, c_cq dst \<noteq> None \<and> q)) (contents src))"
proof -
  have "(char_cell dst \<circ> cell_char) x = (\<lambda>(b, q). (b, c_cq dst \<noteq> None \<and> q)) x" for x
    by (cases x) (simp add: char_cell_of_cell)
  then have "map (char_cell dst \<circ> cell_char) xs = map (\<lambda>(b, q). (b, c_cq dst \<noteq> None \<and> q)) xs" for xs
    by (intro map_cong) auto
  then show ?thesis using clq.cat_moves [OF assms] by metis
qed

section \<open>Walking through a queue\<close>

text \<open>The loop of the line discipline, \<open>for (cp = firstc(q, &c); cp; cp = nextc(q, cp, &c))\<close>
  (\<^verbatim>\<open>sys/kern/tty.c\<close>), collecting the characters; the first argument bounds the rounds.\<close>

fun walk_on :: "nat \<Rightarrow> clist \<Rightarrow> nat \<Rightarrow> int \<Rightarrow> int list option" where
  "walk_on 0 clp p cc = None"
| "walk_on (Suc n) clp p cc = do {
     (r, cc) \<leftarrow> nextc clp (Some p) cc;
     case r of None \<Rightarrow> Some []
     | Some (p, c) \<Rightarrow> do { cs \<leftarrow> walk_on n clp p cc; Some (c # cs) } }"

definition walk :: "nat \<Rightarrow> clist \<Rightarrow> int list option" where
  "walk n clp = do {
     (r, cc) \<leftarrow> firstc clp;
     case r of None \<Rightarrow> Some []
     | Some (p, c) \<Rightarrow> do { cs \<leftarrow> walk_on n clp p cc; Some (c # cs) } }"

lemma walk_on_at:
  assumes at: "ring_at clp f"
  shows "i < c_cc clp \<Longrightarrow> c_cc clp - i \<le> n \<Longrightarrow>
    walk_on n clp ((f + i) mod c_cn clp) (int (c_cc clp - i)) =
    Some (map cell_char (drop (Suc i) (contents clp)))"
proof (induction n arbitrary: i)
  case (Suc n)
  have r: "ring_ok clp" "f < c_cn clp" "c_cf clp = Some f" "c_cc clp \<le> c_cn clp"
    using at by (auto simp: ring_at_def ring_ok_def)
  have first: "(if c_cf clp = Some ((f + i) mod c_cn clp) then int (c_cc clp) else int (c_cc clp - i))
      = int (c_cc clp - i)"
  proof (cases "i = 0")
    case False
    then have "(f + 0) mod c_cn clp \<noteq> (f + i) mod c_cn clp"
      using r Suc(2) by (intro mod_wrap_neq [of _ _ _ 1]) auto
    then show ?thesis using r by simp
  qed simp
  show ?case
  proof (cases "Suc i < c_cc clp")
    case False
    then have "c_cc clp - i = 1" using Suc(2) by simp
    then have "nextc clp (Some ((f + i) mod c_cn clp)) (int (c_cc clp - i)) = Some (None, 0)"
      using Suc(2) unfolding nextc_def first Let_def by simp
    moreover have "drop (Suc i) (contents clp) = []" using False at by (simp add: contents_at)
    ultimately show ?thesis by simp
  next
    case True
    have w: "wrap clp ((f + i) mod c_cn clp + 1) = (f + Suc i) mod c_cn clp"
      using wrap_mod [OF r(1), of "(f + i) mod c_cn clp" 1] r(2) by (simp add: mod_Suc_eq Suc_leI)
    have c: "read_char clp ((f + Suc i) mod c_cn clp) = Some (cell_char (contents clp ! Suc i))"
      using True r(1,2) by (subst read_char_cell) (auto simp: contents_at [OF at] ring_def simp del: upt_Suc)
    have n: "int (c_cc clp - i) - 1 = int (c_cc clp - Suc i)" "c_cc clp - i \<noteq> 0" "c_cc clp - Suc i \<noteq> 0"
      using True by auto
    have "nextc clp (Some ((f + i) mod c_cn clp)) (int (c_cc clp - i)) =
        Some (Some ((f + Suc i) mod c_cn clp, cell_char (contents clp ! Suc i)), int (c_cc clp - Suc i))"
      using n(2,3) unfolding nextc_def first Let_def n(1) by (simp add: w [unfolded One_nat_def] c del: add_Suc_right)
    moreover have "walk_on n clp ((f + Suc i) mod c_cn clp) (int (c_cc clp - Suc i)) =
        Some (map cell_char (drop (Suc (Suc i)) (contents clp)))"
      using True Suc(3) by (intro Suc(1)) auto
    moreover have "drop (Suc i) (contents clp) = contents clp ! Suc i # drop (Suc (Suc i)) (contents clp)"
      using True at by (intro Cons_nth_drop_Suc [symmetric]) (simp add: contents_at)
    ultimately show ?thesis by (simp del: add_Suc_right)
  qed
qed simp

text \<open>The \<open>firstc\<close>/\<open>nextc\<close> loop visits the characters of a queue in order, quote marks
  included, each once, in no more rounds than the queue has characters, also when the
  ring is full and its two pointers coincide.\<close>

theorem walk_visits_contents:
  assumes "clist_wf clp" "c_cc clp \<le> n"
  shows "walk n clp = Some (map cell_char (contents clp))"
proof (cases "c_cc clp = 0")
  case True
  then show ?thesis by (simp add: walk_def firstc_def)
next
  case False
  then obtain f where at: "ring_at clp f" using wf_nonempty [OF assms(1)] by blast
  have r: "ring_ok clp" "f < c_cn clp" "c_cf clp = Some f" using at by (auto simp: ring_at_def)
  obtain x xs where x: "contents clp = x # xs"
    using length_contents [OF assms(1)] False by (cases "contents clp") auto
  have "cell_of clp f = contents clp ! 0"
    using False r(2) by (simp add: contents_at [OF at] ring_def)
  then have "firstc clp = Some (Some (f, cell_char x), int (c_cc clp))"
    using False r x by (simp add: firstc_def read_char_cell)
  moreover have "walk_on n clp f (int (c_cc clp)) = Some (map cell_char xs)"
    using walk_on_at [OF at, of 0 n] False assms(2) r(2) x by simp
  ultimately show ?thesis by (simp add: walk_def x)
qed

section \<open>Contiguous characters\<close>

text \<open>\<open>ndqb(clp, 0)\<close> tells how many queued characters lie contiguously at \<open>c_cf\<close>: the
  memory there holds that many first characters of the queue, and the count is
  positive when the queue is not empty, so that a driver that repeats
  \<open>ndqb\<close>/\<open>ndflush\<close> drains the queue.\<close>

theorem ndqb_contiguous:
  assumes "clist_wf clp"
  shows "\<exists>n. ndqb clp 0 = Some n \<and> n \<le> length (contents clp) \<and>
    (contents clp = [] \<or> 0 < n \<and>
      take n (drop (the (c_cf clp)) (the (c_cs clp))) = map fst (take n (contents clp)))"
proof (cases "c_cc clp = 0")
  case True
  then show ?thesis by (simp add: ndqb_def)
next
  case False
  then obtain f where at: "ring_at clp f" using wf_nonempty [OF assms] by blast
  let ?n = "min (c_cc clp) (c_cn clp - f)"
  have r: "c_cf clp = Some f" "f < c_cn clp" using at by (auto simp: ring_at_def)
  have "ndqb clp 0 = Some ?n"
    using at False by (auto simp: ndqb_def ring_at_def ring_ok_def mod_wrap min_def)
  moreover have "take ?n (drop f (the (c_cs clp))) = map fst (take ?n (contents clp))"
    using r(2) by (intro consume(3) [OF at]) auto
  ultimately show ?thesis using length_contents [OF assms] r False by (auto intro!: exI [of _ ?n])
qed

text \<open>With \<open>TTY_QUOTE\<close> in its flag \<open>ndqb\<close> looks at the quote bit of the character after
  the one it is counting: a queue of one quoted character is counted as one plain
  character.\<close>

theorem ndqb_quote_off_by_one:
  "\<exists>clp. clist_wf clp \<and> contents clp = [(65, True)] \<and> ndqb clp 256 = Some 1"
proof (intro exI conjI)
  let ?c = "\<lparr>c_cf = Some 0, c_cl = Some 1, c_cs = Some [65, 0], c_ce = 2, c_cq = Some [1], c_cc = 1, c_cn = 2\<rparr>"
  show "clist_wf ?c" by (simp add: clist_wf_def ring_at_def ring_ok_def)
  show "contents ?c = [(65, True)]" by (simp add: contents_def ring_def cell_of_def qbit_def)
  show "ndqb ?c 256 = Some 1" by (simp add: ndqb_def isset_def bit_of_def)
qed

section \<open>Witnesses\<close>

definition kmem_zalloc :: kz where
  "kmem_zalloc n = Some (replicate n 0)"

definition fresh_clist :: clist where
  "fresh_clist = \<lparr>c_cf = None, c_cl = None, c_cs = None, c_ce = 0, c_cq = None, c_cc = 0, c_cn = 0\<rparr>"

definition full_clist :: clist where
  "full_clist = \<lparr>c_cf = Some 1, c_cl = Some 1, c_cs = Some [7, 5, 6], c_ce = 3, c_cq = Some [4],
     c_cc = 3, c_cn = 3\<rparr>"

lemma full_clist_wf: "clist_wf full_clist"
  by (simp add: full_clist_def clist_wf_def ring_at_def ring_ok_def)

lemma full_clist_contents: "contents full_clist = [(5, False), (6, True), (7, False)]"
  by code_simp

definition half_clist :: clist where
  "half_clist = \<lparr>c_cf = Some 3, c_cl = Some 1, c_cs = Some [9, 0, 0, 8], c_ce = 4, c_cq = Some [0],
     c_cc = 2, c_cn = 4\<rparr>"

lemma half_clist_wf: "clist_wf half_clist"
  by (simp add: half_clist_def clist_wf_def ring_at_def ring_ok_def)

lemma half_clist_fields: "contents half_clist = [(8, False), (9, False)]" "c_cn half_clist = 4"
  "c_cq half_clist \<noteq> None"
  by code_simp+

theorem clist_refines_queue_witness:
  "\<exists>clp clp'. clalloc kmem_zalloc fresh_clist 3 True = (clp, 0) \<and>
    clist_ops kmem_zalloc [Putc 300, BtoQ [1, 2, 3], Getc, Unputc] clp =
      Some (clp', [Code 0, Bytes [3], Code 300, Code 2]) \<and> clist_wf clp' \<and> contents clp' = [(1, False)]"
  using clist_refines_queue [of 3 kmem_zalloc "replicate 3 0" "replicate (QMEM 3) 0" fresh_clist True
      "[Putc 300, BtoQ [1, 2, 3], Getc, Unputc]"]
  by (simp add: kmem_zalloc_def cell_char_def)

theorem catq_moves_all_witness:
  "\<exists>src' dst'. catq kmem_zalloc full_clist half_clist = Some (src', dst') \<and> contents src' = [] \<and>
    contents dst' = [(8, False), (9, False), (5, False), (6, True)]"
  using catq_moves_all [OF full_clist_wf half_clist_wf, of kmem_zalloc] half_clist_fields(3)
  by (auto simp: full_clist_contents half_clist_fields(1,2))

theorem walk_visits_contents_witness: "walk 3 full_clist = Some [5, 262, 7]"
  using walk_visits_contents [OF full_clist_wf, of 3]
  by (simp add: full_clist_contents cell_char_def) (simp add: full_clist_def)

theorem ndqb_contiguous_witness: "\<exists>n. ndqb full_clist 0 = Some n \<and> 0 < n"
  using ndqb_contiguous [OF full_clist_wf] by (auto simp: full_clist_contents)

end
