(* ===== verification/Lockf.thy ===== *)
theory Lockf
  imports Kernel_Prelude
begin

text \<open>
  Advisory byte-range locks: \<^verbatim>\<open>sys/kern/vfs_lockf.c\<close>.

  The list of locks held on a vnode, linked through \<open>lf_next\<close>, is a list; the pointers
  \<open>prev\<close> and \<open>overlap\<close> that the code moves along it are a splitting of that list.  The
  queue \<open>lf_blkhd\<close> of a held lock holds the identities of the requests that sleep on it;
  \<open>lf_next\<close> of such a request is the lock whose queue it is in.  Offsets are
  integers, and every sum and difference the code computes is brought back into the 64-bit
  signed range of \<open>off_t\<close> by \<open>off_t\<close>, the wrap-around of two's complement.
  Everything between two sleeps runs under one mutex, so that each definition here is one
  atomic step.
\<close>

datatype lf_kind = F_RDLCK | F_WRLCK | F_UNLCK

abbreviation (input) EAGAIN :: nat where "EAGAIN \<equiv> 35"
abbreviation (input) EDEADLK :: nat where "EDEADLK \<equiv> 11"
abbreviation (input) EINVAL :: nat where "EINVAL \<equiv> 22"
abbreviation (input) ENOMEM :: nat where "ENOMEM \<equiv> 12"

text \<open>\<open>__off_t\<close> is \<open>__int64_t\<close>.\<close>

abbreviation OFF_MAX :: int where "OFF_MAX \<equiv> 9223372036854775807"
abbreviation OFF_MIN :: int where "OFF_MIN \<equiv> - 9223372036854775808"

definition off_t :: "int \<Rightarrow> int" where
  "off_t i = (i + 9223372036854775808) mod 18446744073709551616 - 9223372036854775808"

lemma off_t_id [simp]: "OFF_MIN \<le> i \<Longrightarrow> i \<le> OFF_MAX \<Longrightarrow> off_t i = i"
  by (simp add: off_t_def)

lemma off_t_wraps [simp]: "off_t (OFF_MAX + 1) = OFF_MIN" "off_t 9223372036854775808 = OFF_MIN"
  by (simp_all add: off_t_def)

text \<open>The bits of \<open>lf_flags\<close>.\<close>

record lf_flagset =
  F_WAIT :: bool
  F_FLOCK :: bool
  F_POSIX :: bool

record lockf =
  lf_flags :: lf_flagset
  lf_type :: lf_kind
  lf_start :: int
  lf_end :: int
  lf_id :: nat
  lf_blkhd :: "nat list"
  lf_uid :: nat

datatype lf_who = SELF | OTHERS

section \<open>Searching the list\<close>

text \<open>\<open>lf_findoverlap\<close> returns the case number, the locks it skipped (after which \<open>*prev\<close>
  points) and the list from \<open>*overlap\<close> on.  Case number 6 stands for the panic at the end.\<close>

definition lf_case :: "lockf \<Rightarrow> int \<Rightarrow> int \<Rightarrow> nat" where
  "lf_case lf s e =
     (if lf_start lf = s \<and> lf_end lf = e then 1
      else if lf_start lf \<le> s \<and> e \<noteq> - 1 \<and> (lf_end lf \<ge> e \<or> lf_end lf = - 1) then 2
      else if s \<le> lf_start lf \<and> (e = - 1 \<or> (lf_end lf \<noteq> - 1 \<and> e \<ge> lf_end lf)) then 3
      else if lf_start lf < s \<and> (lf_end lf \<ge> s \<or> lf_end lf = - 1) then 4
      else if lf_start lf > s \<and> e \<noteq> - 1 \<and> (lf_end lf > e \<or> lf_end lf = - 1) then 5
      else 6)"

fun lf_findoverlap :: "lockf list \<Rightarrow> lockf \<Rightarrow> lf_who \<Rightarrow> nat \<times> lockf list \<times> lockf list" where
  "lf_findoverlap [] lock who = (0, [], [])"
| "lf_findoverlap (lf # rest) lock who =
     (let s = lf_start lock; e = lf_end lock;
          skip = (case lf_findoverlap rest lock who of (c, pre, ov) \<Rightarrow> (c, lf # pre, ov))
      in if (who = SELF \<and> lf_id lf \<noteq> lf_id lock) \<or> (who = OTHERS \<and> lf_id lf = lf_id lock) then skip
         else if (lf_end lf \<noteq> - 1 \<and> s > lf_end lf) \<or> (e \<noteq> - 1 \<and> lf_start lf > e) then
           (if who = SELF \<and> e \<noteq> - 1 \<and> lf_start lf > e then (0, [], lf # rest) else skip)
         else (lf_case lf s e, [], lf # rest))"

lemma lf_findoverlap_append:
  "lf_findoverlap lfs lock who = (c, pre, ov) \<Longrightarrow> lfs = pre @ ov"
  by (induction lfs arbitrary: c pre ov) (auto simp: Let_def split: prod.splits if_splits)

lemma lf_findoverlap_shorter:
  "lf_findoverlap lfs lock who = (c, pre, x # xs) \<Longrightarrow> length xs < length lfs"
  by (auto dest!: lf_findoverlap_append)

section \<open>Splitting and waking\<close>

text \<open>\<open>lf_split\<close> cuts \<open>lock2\<close> out of \<open>lock1\<close>: the locks linked before \<open>lock1\<close>, \<open>lock1\<close>, the
  locks linked after it, and the spare lock if it was not used.  The spare becomes a copy of
  \<open>lock1\<close> with an empty queue; \<open>None\<close> is the access through a null spare pointer.\<close>

definition lf_split :: "lockf \<Rightarrow> lockf \<Rightarrow> lockf option \<Rightarrow>
    (lockf list \<times> lockf \<times> lockf list \<times> lockf option) option" where
  "lf_split lock1 lock2 spare =
     (if lf_start lock1 = lf_start lock2 then
        Some ([lock2], lock1\<lparr>lf_start := off_t (lf_end lock2 + 1)\<rparr>, [], spare)
      else if lf_end lock1 = lf_end lock2 then
        Some ([], lock1\<lparr>lf_end := off_t (lf_start lock2 - 1)\<rparr>, [lock2], spare)
      else case spare of
        None \<Rightarrow> None
      | Some _ \<Rightarrow>
          let splitlock = lock1\<lparr>lf_start := off_t (lf_end lock2 + 1), lf_blkhd := []\<rparr>
          in Some ([], lock1\<lparr>lf_end := off_t (lf_start lock2 - 1)\<rparr>, [lock2, splitlock], None))"

text \<open>\<open>lf_wakelock\<close>: the lock with its queue emptied, and the requests awakened.\<close>

definition lf_wakelock :: "lockf \<Rightarrow> lockf \<times> nat list" where
  "lf_wakelock listhead = (listhead\<lparr>lf_blkhd := []\<rparr>, lf_blkhd listhead)"

text \<open>What an operation leaves: the list, the requests it awakened in order, the locks it
  passed to \<open>lf_free\<close>, and the spare lock.\<close>

record lf_out =
  out_locks :: "lockf list"
  out_woken :: "nat list"
  out_freed :: "lockf list"
  out_spare :: "lockf option"

definition lf_behind :: "lockf list \<Rightarrow> nat list \<Rightarrow> lockf list \<Rightarrow> lf_out \<Rightarrow> lf_out" where
  "lf_behind pre woken freed out =
     out\<lparr>out_locks := pre @ out_locks out, out_woken := woken @ out_woken out,
         out_freed := freed @ out_freed out\<rparr>"

section \<open>Removing a range\<close>

text \<open>The loop of \<open>lf_clearlock\<close> on the list from \<open>lf\<close> on.  \<open>None\<close> is a panic.\<close>

function lf_clearlock :: "lockf list \<Rightarrow> lockf \<Rightarrow> lockf option \<Rightarrow> lf_out option" where
  "lf_clearlock lfs unlock spare =
     (case lf_findoverlap lfs unlock SELF of
        (c, pre, []) \<Rightarrow>
          if c = 0 then Some \<lparr>out_locks = lfs, out_woken = [], out_freed = [], out_spare = spare\<rparr> else None
      | (c, pre, ov # nxt) \<Rightarrow>
          if c = 0 then Some \<lparr>out_locks = lfs, out_woken = [], out_freed = [], out_spare = spare\<rparr>
          else case lf_wakelock ov of (overlap, woken) \<Rightarrow>
            if c = 1 then
              Some \<lparr>out_locks = pre @ nxt, out_woken = woken, out_freed = [overlap], out_spare = spare\<rparr>
            else if c = 2 then
              (if lf_start overlap = lf_start unlock then
                 Some \<lparr>out_locks = pre @ overlap\<lparr>lf_start := off_t (lf_end unlock + 1)\<rparr> # nxt,
                       out_woken = woken, out_freed = [], out_spare = spare\<rparr>
               else case lf_split overlap unlock spare of
                 None \<Rightarrow> None
               | Some (before, lock1, after, spare) \<Rightarrow>
                   Some \<lparr>out_locks = pre @ lock1 # tl after @ nxt,
                         out_woken = woken, out_freed = [], out_spare = spare\<rparr>)
            else if c = 3 then
              map_option (lf_behind pre woken [overlap]) (lf_clearlock nxt unlock spare)
            else if c = 4 then
              map_option (lf_behind (pre @ [overlap\<lparr>lf_end := off_t (lf_start unlock - 1)\<rparr>]) woken [])
                (lf_clearlock nxt unlock spare)
            else if c = 5 then
              Some \<lparr>out_locks = pre @ overlap\<lparr>lf_start := off_t (lf_end unlock + 1)\<rparr> # nxt,
                    out_woken = woken, out_freed = [], out_spare = spare\<rparr>
            else None)"
  by pat_completeness auto
termination
  by (relation "measure (\<lambda>(lfs, unlock, spare). length lfs)")
    (auto dest: lf_findoverlap_shorter [OF sym])

declare lf_clearlock.simps [simp del]

section \<open>Testing for conflicts\<close>

text \<open>\<open>lf_getblock\<close> returns the blocking lock or a null pointer; \<open>None\<close> is the panic of
  \<open>lf_findoverlap\<close>.\<close>

function lf_getblock :: "lockf list \<Rightarrow> lockf \<Rightarrow> lockf option option" where
  "lf_getblock lfs lock =
     (case lf_findoverlap lfs lock OTHERS of
        (c, pre, []) \<Rightarrow> Some None
      | (c, pre, overlap # nxt) \<Rightarrow>
          if c = 0 then Some None
          else if c = 6 then None
          else if lf_type lock = F_WRLCK \<or> lf_type overlap = F_WRLCK then Some (Some overlap)
          else lf_getblock nxt lock)"
  by pat_completeness auto
termination
  by (relation "measure (\<lambda>(lfs, lock). length lfs)") (auto dest: lf_findoverlap_shorter [OF sym])

declare lf_getblock.simps [simp del]

section \<open>Granting a lock\<close>

text \<open>\<open>lock->lf_type == F_RDLCK && overlap->lf_type == F_WRLCK\<close>\<close>

definition downgrade :: "lockf \<Rightarrow> lockf \<Rightarrow> bool" where
  "downgrade lock overlap \<longleftrightarrow> lf_type lock = F_RDLCK \<and> lf_type overlap = F_WRLCK"

text \<open>Case 3 of \<open>lf_setlock\<close>: a downgrade wakes the queue of the overlap, otherwise the queue
  moves to the new lock.  The result is the new lock and the requests awakened.\<close>

definition take_queue :: "lockf \<Rightarrow> lockf \<Rightarrow> lockf \<times> nat list" where
  "take_queue lock overlap =
     (if downgrade lock overlap then (lock, lf_blkhd overlap)
      else (lock\<lparr>lf_blkhd := lf_blkhd lock @ lf_blkhd overlap\<rparr>, []))"

text \<open>The loop of \<open>lf_setlock\<close> once the lock is linked (\<open>needtolink\<close> is 0), on the list
  after the lock: the lock itself, which may still receive sleepers, and what follows it.
  In the cases 1, 2 and 4 the code would link or free the lock a second time: \<open>None\<close>.\<close>

function lf_set_linked :: "lockf list \<Rightarrow> lockf \<Rightarrow> (lockf \<times> lf_out) option" where
  "lf_set_linked lfs lock =
     (case lf_findoverlap lfs lock SELF of
        (c, pre, []) \<Rightarrow>
          if c = 0 then Some (lock, \<lparr>out_locks = lfs, out_woken = [], out_freed = [], out_spare = None\<rparr>)
          else None
      | (c, pre, overlap # nxt) \<Rightarrow>
          if c = 0 then Some (lock, \<lparr>out_locks = lfs, out_woken = [], out_freed = [], out_spare = None\<rparr>)
          else if c = 3 then
            (case take_queue lock overlap of (lock, woken) \<Rightarrow>
               map_option (\<lambda>(lock, out). (lock, lf_behind pre woken [overlap] out))
                 (lf_set_linked nxt lock))
          else if c = 5 then
            (case lf_wakelock (overlap\<lparr>lf_start := off_t (lf_end lock + 1)\<rparr>) of (overlap, woken) \<Rightarrow>
               Some (lock, \<lparr>out_locks = pre @ overlap # nxt, out_woken = woken, out_freed = [],
                            out_spare = None\<rparr>))
          else None)"
  by pat_completeness auto
termination
  by (relation "measure (\<lambda>(lfs, lock). length lfs)") (auto dest: lf_findoverlap_shorter [OF sym])

declare lf_set_linked.simps [simp del]

text \<open>The first round of the loop, with \<open>needtolink\<close> set.\<close>

definition lf_grant :: "lockf list \<Rightarrow> lockf \<Rightarrow> lockf option \<Rightarrow> lf_out option" where
  "lf_grant lfs lock spare =
     (case lf_findoverlap lfs lock SELF of
        (c, pre, []) \<Rightarrow>
          if c = 0 then Some \<lparr>out_locks = pre @ [lock], out_woken = [], out_freed = [], out_spare = spare\<rparr>
          else None
      | (c, pre, overlap # nxt) \<Rightarrow>
          if c = 0 then
            Some \<lparr>out_locks = pre @ lock # overlap # nxt, out_woken = [], out_freed = [], out_spare = spare\<rparr>
          else if c = 1 then
            (case (if downgrade lock overlap then lf_wakelock overlap else (overlap, [])) of
               (overlap, woken) \<Rightarrow>
                 Some \<lparr>out_locks = pre @ overlap\<lparr>lf_type := lf_type lock\<rparr> # nxt, out_woken = woken,
                       out_freed = [lock], out_spare = spare\<rparr>)
          else if c = 2 then
            (if lf_type overlap = lf_type lock then
               Some \<lparr>out_locks = lfs, out_woken = [], out_freed = [lock], out_spare = spare\<rparr>
             else if lf_start overlap = lf_start lock then
               (case lf_wakelock (overlap\<lparr>lf_start := off_t (lf_end lock + 1)\<rparr>) of (overlap, woken) \<Rightarrow>
                  Some \<lparr>out_locks = pre @ lock # overlap # nxt, out_woken = woken, out_freed = [],
                        out_spare = spare\<rparr>)
             else case lf_split overlap lock spare of
               None \<Rightarrow> None
             | Some (before, lock1, after, spare) \<Rightarrow>
                 (case lf_wakelock lock1 of (lock1, woken) \<Rightarrow>
                    Some \<lparr>out_locks = pre @ before @ lock1 # after @ nxt, out_woken = woken,
                          out_freed = [], out_spare = spare\<rparr>))
          else if c = 3 then
            (case take_queue lock overlap of (lock, woken) \<Rightarrow>
               map_option (\<lambda>(lock, out). (lf_behind (pre @ [lock]) woken [overlap] out)\<lparr>out_spare := spare\<rparr>)
                 (lf_set_linked nxt lock))
          else if c = 4 then
            (case lf_wakelock (overlap\<lparr>lf_end := off_t (lf_start lock - 1)\<rparr>) of (overlap, woken) \<Rightarrow>
               map_option (\<lambda>(lock, out). (lf_behind (pre @ [overlap, lock]) woken [] out)\<lparr>out_spare := spare\<rparr>)
                 (lf_set_linked nxt lock))
          else if c = 5 then
            (case lf_wakelock (overlap\<lparr>lf_start := off_t (lf_end lock + 1)\<rparr>) of (overlap, woken) \<Rightarrow>
               Some \<lparr>out_locks = pre @ lock # overlap # nxt, out_woken = woken, out_freed = [],
                     out_spare = spare\<rparr>)
          else None)"

section \<open>Setting a lock\<close>

text \<open>Deadlock detection.  \<open>waits p\<close> is the lock that blocks the only thread of process \<open>p\<close>:
  \<open>None\<close> when \<open>p\<close> has several threads or its thread does not sleep in this module.  The
  result tells whether \<open>EDEADLK\<close> is returned; \<open>i\<close> counts the rounds as in the code.\<close>

function lf_follow :: "(nat \<Rightarrow> lockf option) \<Rightarrow> nat \<Rightarrow> nat \<Rightarrow> nat \<Rightarrow> nat \<Rightarrow> bool" where
  "lf_follow waits maxlockdepth curproc p i =
     (if i < maxlockdepth then
        (case waits p of
           None \<Rightarrow> i + 1 \<ge> maxlockdepth
         | Some waitblock \<Rightarrow>
             if \<not> F_POSIX (lf_flags waitblock) then i + 1 \<ge> maxlockdepth
             else if lf_id waitblock = curproc then True
             else lf_follow waits maxlockdepth curproc (lf_id waitblock) (i + 1))
      else i + 1 \<ge> maxlockdepth)"
  by pat_completeness auto
termination
  by (relation "measure (\<lambda>(waits, m, c, p, i). m - i)") auto

declare lf_follow.simps [simp del]

text \<open>A held lock is identified by its owner and its first byte.\<close>

definition same_lock :: "lockf \<Rightarrow> lockf \<Rightarrow> bool" where
  "same_lock a b \<longleftrightarrow> lf_id a = lf_id b \<and> lf_start a = lf_start b"

text \<open>\<open>TAILQ_INSERT_TAIL(&block->lf_blkhd, lock, lf_block)\<close> and
  \<open>TAILQ_REMOVE(&lock->lf_next->lf_blkhd, lock, lf_block)\<close> for the request \<open>w\<close>.\<close>

definition lf_enqueue :: "nat \<Rightarrow> lockf \<Rightarrow> lockf list \<Rightarrow> lockf list" where
  "lf_enqueue w block lfs =
     map (\<lambda>lf. if same_lock lf block then lf\<lparr>lf_blkhd := lf_blkhd lf @ [w]\<rparr> else lf) lfs"

definition lf_dequeue :: "nat \<Rightarrow> lockf list \<Rightarrow> lockf list" where
  "lf_dequeue w lfs = map (\<lambda>lf. lf\<lparr>lf_blkhd := remove1 w (lf_blkhd lf)\<rparr>) lfs"

text \<open>One round of the outer loop of \<open>lf_setlock\<close> for the request \<open>w\<close>: it grants the lock,
  fails, or puts the request to sleep.\<close>

datatype lf_round = Granted lf_out | Failed nat | Asleep lf_out | Panic

definition lf_setlock ::
  "(nat \<Rightarrow> lockf option) \<Rightarrow> nat \<Rightarrow> nat \<Rightarrow> lockf list \<Rightarrow> lockf \<Rightarrow> lockf option \<Rightarrow> lf_round" where
  "lf_setlock waits maxlockdepth w lfs lock spare =
     (case lf_getblock lfs lock of
        None \<Rightarrow> Panic
      | Some None \<Rightarrow> (case lf_grant lfs lock spare of None \<Rightarrow> Panic | Some out \<Rightarrow> Granted out)
      | Some (Some block) \<Rightarrow>
          if \<not> F_WAIT (lf_flags lock) then Failed EAGAIN
          else if F_POSIX (lf_flags lock) \<and> F_POSIX (lf_flags block) \<and>
            lf_follow waits maxlockdepth (lf_id lock) (lf_id block) 0 then Failed EDEADLK
          else
            (case (if F_FLOCK (lf_flags lock) \<and> lf_type lock = F_WRLCK
                   then lf_clearlock lfs (lock\<lparr>lf_type := F_UNLCK\<rparr>) None
                   else Some \<lparr>out_locks = lfs, out_woken = [], out_freed = [], out_spare = None\<rparr>) of
               None \<Rightarrow> Panic
             | Some out \<Rightarrow>
                 Asleep (out\<lparr>out_locks := lf_enqueue w block (out_locks out), out_spare := spare\<rparr>)))"

section \<open>Reporting a lock\<close>

datatype lf_whence = SEEK_SET | SEEK_CUR | SEEK_END | SEEK_BAD

record flock =
  l_start :: int
  l_len :: int
  l_pid :: int
  l_type :: lf_kind
  l_whence :: lf_whence

text \<open>\<open>pid_of\<close> is the process identifier of a lock owner.\<close>

definition lf_getlock :: "(nat \<Rightarrow> int) \<Rightarrow> lockf list \<Rightarrow> lockf \<Rightarrow> flock \<Rightarrow> flock option" where
  "lf_getlock pid_of lfs lock fl =
     map_option (\<lambda>found. case found of
        Some block \<Rightarrow>
          fl\<lparr>l_type := lf_type block, l_whence := SEEK_SET, l_start := lf_start block,
             l_len := (if lf_end block = - 1 then 0 else off_t (off_t (lf_end block - lf_start block) + 1)),
             l_pid := (if F_POSIX (lf_flags block) then pid_of (lf_id block) else - 1)\<rparr>
      | None \<Rightarrow> fl\<lparr>l_type := F_UNLCK\<rparr>) (lf_getblock lfs lock)"

section \<open>Allocation\<close>

type_synonym lockcnt = "nat \<Rightarrow> u64"

text \<open>The fields other than \<open>lf_uid\<close> are set by the caller.\<close>

definition blank_lock :: "nat \<Rightarrow> lockf" where
  "blank_lock uid = \<lparr>lf_flags = \<lparr>F_WAIT = False, F_FLOCK = False, F_POSIX = False\<rparr>,
     lf_type = F_UNLCK, lf_start = 0, lf_end = 0, lf_id = 0, lf_blkhd = [], lf_uid = uid\<rparr>"

definition lf_alloc :: "u64 \<Rightarrow> nat \<Rightarrow> nat \<Rightarrow> lockcnt \<Rightarrow> lockf option \<times> lockcnt" where
  "lf_alloc maxlocksperuid uid allowfail cnt =
     (let lcnt = cnt uid + 1
      in if uid \<noteq> 0 \<and> allowfail \<noteq> 0 \<and>
           lcnt > (if allowfail = 1 then maxlocksperuid else maxlocksperuid * 2)
         then (None, cnt(uid := lcnt - 1))
         else (Some (blank_lock uid), cnt(uid := lcnt)))"

definition lf_free :: "lockf \<Rightarrow> lockcnt \<Rightarrow> lockcnt" where
  "lf_free lock cnt = cnt(lf_uid lock := cnt (lf_uid lock) - 1)"

definition lf_free_opt :: "lockf option \<Rightarrow> lockcnt \<Rightarrow> lockcnt" where
  "lf_free_opt lock cnt = (case lock of None \<Rightarrow> cnt | Some lock \<Rightarrow> lf_free lock cnt)"

section \<open>The advisory lock operation\<close>

datatype lf_op = F_SETLK | OP_UNLCK | F_GETLK | OP_BAD

text \<open>The start and the end of the request, or \<open>None\<close> for \<open>EINVAL\<close>.\<close>

definition lf_range :: "flock \<Rightarrow> int \<Rightarrow> (int \<times> int) option" where
  "lf_range fl sz =
     (case (case l_whence fl of
              SEEK_SET \<Rightarrow> Some (l_start fl)
            | SEEK_CUR \<Rightarrow> Some (l_start fl)
            | SEEK_END \<Rightarrow> Some (off_t (sz + l_start fl))
            | SEEK_BAD \<Rightarrow> None) of
        None \<Rightarrow> None
      | Some start \<Rightarrow>
          let (start, e) =
            (if l_len fl = 0 then (start, - 1)
             else if l_len fl > 0 then (start, off_t (off_t (start + l_len fl) - 1))
             else (off_t (start + l_len fl), off_t (start - 1)))
          in if start < 0 then None else Some (start, e))"

record lf_state =
  lf_head :: "lockf list"
  ui_lockcnt :: lockcnt

text \<open>The outcome of a call: an error number (0 for success), or the request sleeps with
  the lock and the spare it has allocated, or a panic.\<close>

datatype lf_ret = Return nat | Sleeping lockf "lockf option" | Panicked

record lf_call =
  call_state :: lf_state
  call_ret :: lf_ret
  call_woken :: "nat list"
  call_fl :: flock

definition lf_done :: "lf_state \<Rightarrow> nat \<Rightarrow> flock \<Rightarrow> lf_call" where
  "lf_done st err fl = \<lparr>call_state = st, call_ret = Return err, call_woken = [], call_fl = fl\<rparr>"

record lf_args =
  a_op :: lf_op
  a_flags :: lf_flagset
  a_id :: nat
  a_uid :: nat
  a_req :: nat

text \<open>The allocations before the mutex is taken: the spare lock, the lock and the counters.
  \<open>a_uid\<close> is the effective user of the caller and \<open>a_req\<close> the identity of the request.\<close>

definition lf_adv_alloc :: "u64 \<Rightarrow> lf_args \<Rightarrow> int \<Rightarrow> int \<Rightarrow> lockcnt \<Rightarrow>
    lockf option \<times> lockf option \<times> lockcnt" where
  "lf_adv_alloc maxlocks ap start e cnt =
     (let (spare, cnt) =
        (if a_op ap \<noteq> F_GETLK \<and> \<not> F_FLOCK (a_flags ap) then lf_alloc maxlocks (a_uid ap) 0 cnt
         else (None, cnt));
        (lock, cnt) = lf_alloc maxlocks (a_uid ap)
          (case a_op ap of
             F_SETLK \<Rightarrow> 1
           | OP_UNLCK \<Rightarrow> (if start = 0 \<or> e = - 1 then 0 else 2)
           | _ \<Rightarrow> 0) cnt
      in (spare, lock, cnt))"

text \<open>What \<open>lf_advlock\<close> does with the result of the operation proper: the locks the
  operation freed, the lock of the call unless it is kept, and the spare are freed.\<close>

definition lf_finish :: "lf_out \<Rightarrow> lockf option \<Rightarrow> lockcnt \<Rightarrow> flock \<Rightarrow> lf_call" where
  "lf_finish out lock cnt fl =
     \<lparr>call_state = \<lparr>lf_head = out_locks out,
        ui_lockcnt = lf_free_opt (out_spare out) (lf_free_opt lock (fold lf_free (out_freed out) cnt))\<rparr>,
      call_ret = Return 0, call_woken = out_woken out, call_fl = fl\<rparr>"

definition lf_advlock :: "(nat \<Rightarrow> lockf option) \<Rightarrow> nat \<Rightarrow> u64 \<Rightarrow> (nat \<Rightarrow> int) \<Rightarrow>
    lf_args \<Rightarrow> flock \<Rightarrow> int \<Rightarrow> lf_state \<Rightarrow> lf_call" where
  "lf_advlock waits maxlockdepth maxlocks pid_of ap fl sz st =
     (case lf_range fl sz of
        None \<Rightarrow> lf_done st EINVAL fl
      | Some (start, e) \<Rightarrow>
        if a_op ap = OP_BAD then lf_done st EINVAL fl
        else case lf_adv_alloc maxlocks ap start e (ui_lockcnt st) of
          (spare, None, cnt) \<Rightarrow> lf_done (st\<lparr>ui_lockcnt := lf_free_opt spare cnt\<rparr>) ENOMEM fl
        | (spare, Some lock, cnt) \<Rightarrow>
            if lf_head st = [] \<and> a_op ap \<noteq> F_SETLK then
              lf_done (st\<lparr>ui_lockcnt := lf_free_opt spare (lf_free lock cnt)\<rparr>) 0 (fl\<lparr>l_type := F_UNLCK\<rparr>)
            else
              let lock = lock\<lparr>lf_start := start, lf_end := e, lf_type := l_type fl, lf_blkhd := [],
                    lf_flags := a_flags ap, lf_id := a_id ap\<rparr>;
                  panicked = \<lparr>call_state = st, call_ret = Panicked, call_woken = [], call_fl = fl\<rparr>
              in case a_op ap of
                F_SETLK \<Rightarrow>
                  (case lf_setlock waits maxlockdepth (a_req ap) (lf_head st) lock spare of
                     Granted out \<Rightarrow> lf_finish out None cnt fl
                   | Failed err \<Rightarrow> lf_done (st\<lparr>ui_lockcnt := lf_free_opt spare (lf_free lock cnt)\<rparr>) err fl
                   | Asleep out \<Rightarrow>
                       \<lparr>call_state = \<lparr>lf_head = out_locks out, ui_lockcnt = fold lf_free (out_freed out) cnt\<rparr>,
                        call_ret = Sleeping lock (out_spare out), call_woken = out_woken out, call_fl = fl\<rparr>
                   | Panic \<Rightarrow> panicked)
              | OP_UNLCK \<Rightarrow>
                  (case lf_clearlock (lf_head st) lock spare of
                     None \<Rightarrow> panicked
                   | Some out \<Rightarrow> lf_finish out (Some lock) cnt fl)
              | F_GETLK \<Rightarrow>
                  (case lf_getlock pid_of (lf_head st) lock fl of
                     None \<Rightarrow> panicked
                   | Some fl \<Rightarrow> lf_done (st\<lparr>ui_lockcnt := lf_free_opt spare (lf_free lock cnt)\<rparr>) 0 fl)
              | OP_BAD \<Rightarrow> panicked)"

end
