(* ===== verification/Lockf_Ranges.thy ===== *)
theory Lockf_Ranges
  imports Lockf "HOL-Library.Multiset"
begin

text \<open>
  Correctness of the operations on the list of held locks: which bytes are locked by whom
  after a lock is granted or a range is removed, that the list stays well formed, and what
  happens to the sleeping requests.
\<close>

section \<open>Ranges\<close>

definition in_range :: "lockf \<Rightarrow> int \<Rightarrow> bool" where
  "in_range lf b \<longleftrightarrow> lf_start lf \<le> b \<and> (lf_end lf = - 1 \<or> b \<le> lf_end lf)"

text \<open>A range ends before the largest offset or reaches the end of the file, so that the code
  can compute the byte after it.\<close>

definition valid_range :: "lockf \<Rightarrow> bool" where
  "valid_range lf \<longleftrightarrow> 0 \<le> lf_start lf \<and> lf_start lf \<le> OFF_MAX \<and>
     (lf_end lf = - 1 \<or> lf_start lf \<le> lf_end lf \<and> lf_end lf < OFF_MAX)"

lemma valid_range_off_t [simp]:
  "valid_range lf \<Longrightarrow> off_t (lf_end lf + 1) = lf_end lf + 1"
  "valid_range lf \<Longrightarrow> off_t (lf_start lf - 1) = lf_start lf - 1"
  by (auto simp: valid_range_def)

definition apart :: "lockf \<Rightarrow> lockf \<Rightarrow> bool" where
  "apart a b \<longleftrightarrow> (lf_end a \<noteq> - 1 \<and> lf_start b > lf_end a) \<or> (lf_end b \<noteq> - 1 \<and> lf_start a > lf_end b)"

lemma apart_iff: "valid_range a \<Longrightarrow> valid_range b \<Longrightarrow> apart a b \<longleftrightarrow> (\<forall>i. \<not> (in_range a i \<and> in_range b i))"
proof -
  assume v: "valid_range a" "valid_range b"
  have "\<not> apart a b \<Longrightarrow> in_range a (max (lf_start a) (lf_start b)) \<and> in_range b (max (lf_start a) (lf_start b))"
    using v by (auto simp: valid_range_def in_range_def apart_def)
  moreover have "apart a b \<Longrightarrow> \<not> (in_range a i \<and> in_range b i)" for i
    by (auto simp: apart_def in_range_def)
  ultimately show ?thesis by blast
qed

text \<open>The first of two locks of one owner ends before the second begins.\<close>

definition own_before :: "lockf \<Rightarrow> lockf \<Rightarrow> bool" where
  "own_before a b \<longleftrightarrow> (lf_id a = lf_id b \<longrightarrow> lf_end a \<noteq> - 1 \<and> lf_end a < lf_start b)"

definition within :: "lockf \<Rightarrow> lockf \<Rightarrow> bool" where
  "within a b \<longleftrightarrow> lf_id a = lf_id b \<and> lf_start b \<le> lf_start a \<and>
     (lf_end b = - 1 \<or> lf_end a \<noteq> - 1 \<and> lf_end a \<le> lf_end b)"

definition lf_wf :: "lockf list \<Rightarrow> bool" where
  "lf_wf lfs \<longleftrightarrow> (\<forall>lf \<in> set lfs. valid_range lf \<and> lf_type lf \<noteq> F_UNLCK) \<and> sorted_wrt own_before lfs"

text \<open>Owner \<open>n\<close> holds a lock of type \<open>t\<close> on byte \<open>b\<close>.\<close>

definition owns :: "lockf list \<Rightarrow> nat \<Rightarrow> int \<Rightarrow> lf_kind \<Rightarrow> bool" where
  "owns lfs n b t \<longleftrightarrow> (\<exists>lf \<in> set lfs. lf_id lf = n \<and> in_range lf b \<and> lf_type lf = t)"

lemma owns_simps [simp]:
  "owns [] n b t = False"
  "owns (lf # lfs) n b t = (lf_id lf = n \<and> in_range lf b \<and> lf_type lf = t \<or> owns lfs n b t)"
  "owns (xs @ ys) n b t = (owns xs n b t \<or> owns ys n b t)"
  by (auto simp: owns_def)

lemma within_refl [simp]: "within a a"
  by (simp add: within_def)

lemma within_mem: "p \<in> set ys \<Longrightarrow> \<exists>y \<in> set ys. within p y"
  by (rule bexI [of _ p]) simp_all

lemma within_trans: "within a b \<Longrightarrow> within b c \<Longrightarrow> within a c"
  by (auto simp: within_def)

lemma own_before_within: "own_before p y \<Longrightarrow> within x y \<Longrightarrow> own_before p x"
  by (auto simp: own_before_def within_def)

lemma within_own_before: "within x y \<Longrightarrow> own_before y q \<Longrightarrow> own_before x q"
  by (auto simp: own_before_def within_def)

lemma lf_wf_append:
  "lf_wf (xs @ ys) \<longleftrightarrow> lf_wf xs \<and> lf_wf ys \<and> (\<forall>x \<in> set xs. \<forall>y \<in> set ys. own_before x y)"
  by (auto simp: lf_wf_def sorted_wrt_append)

lemma lf_wf_Cons:
  "lf_wf (x # ys) \<longleftrightarrow> valid_range x \<and> lf_type x \<noteq> F_UNLCK \<and> lf_wf ys \<and> (\<forall>y \<in> set ys. own_before x y)"
  by (auto simp: lf_wf_def)

lemma lf_wf_Nil [simp]: "lf_wf []"
  by (simp add: lf_wf_def)

text \<open>At most one lock of an owner covers a byte.\<close>

lemma owns_unique: "lf_wf lfs \<Longrightarrow> owns lfs n b t \<Longrightarrow> owns lfs n b u \<Longrightarrow> t = u"
  by (induction lfs) (auto simp: lf_wf_Cons owns_def own_before_def in_range_def)

section \<open>The search\<close>

text \<open>What the overlap cases mean for two ranges that are not apart.\<close>

lemma lf_case_range:
  assumes "valid_range lf" "valid_range lock" "\<not> apart lf lock" "lf_case lf (lf_start lock) (lf_end lock) = c"
  shows "c = 1 \<and> lf_start lf = lf_start lock \<and> lf_end lf = lf_end lock \<or>
    c = 2 \<and> lf_start lf \<le> lf_start lock \<and> lf_end lock \<noteq> - 1 \<and> (lf_end lf = - 1 \<or> lf_end lock \<le> lf_end lf) \<and>
      (lf_start lf \<noteq> lf_start lock \<or> lf_end lf \<noteq> lf_end lock) \<or>
    c = 3 \<and> lf_start lock \<le> lf_start lf \<and> (lf_end lock = - 1 \<or> lf_end lf \<noteq> - 1 \<and> lf_end lf \<le> lf_end lock) \<or>
    c = 4 \<and> lf_start lf < lf_start lock \<and> (lf_end lf = - 1 \<or> lf_start lock \<le> lf_end lf) \<and>
      (lf_end lock = - 1 \<or> lf_end lf \<noteq> - 1 \<and> lf_end lf < lf_end lock) \<or>
    c = 5 \<and> lf_start lock < lf_start lf \<and> lf_end lock \<noteq> - 1 \<and> lf_start lf \<le> lf_end lock \<and>
      (lf_end lf = - 1 \<or> lf_end lock < lf_end lf)"
  using assms unfolding lf_case_def valid_range_def apart_def by (auto split: if_splits)

lemma find_self:
  "lf_findoverlap lfs lock SELF = (c, pre, ov) \<Longrightarrow>
     lfs = pre @ ov \<and> (\<forall>lf \<in> set pre. own_before lf lock) \<and>
     (c = 0 \<and> (ov = [] \<or> lf_id (hd ov) = lf_id lock \<and> lf_end lock \<noteq> - 1 \<and> lf_end lock < lf_start (hd ov)) \<or>
      ov \<noteq> [] \<and> lf_id (hd ov) = lf_id lock \<and> \<not> apart (hd ov) lock \<and>
        c = lf_case (hd ov) (lf_start lock) (lf_end lock))"
proof (induction lfs arbitrary: c pre ov)
  case (Cons lf lfs)
  obtain c' pre' ov' where r: "lf_findoverlap lfs lock SELF = (c', pre', ov')" by (metis prod_cases3)
  note IH = Cons(1) [OF r]
  consider "lf_id lf \<noteq> lf_id lock" | "lf_id lf = lf_id lock" "lf_end lock \<noteq> - 1 \<and> lf_start lf > lf_end lock"
    | "lf_id lf = lf_id lock" "\<not> (lf_end lock \<noteq> - 1 \<and> lf_start lf > lf_end lock)"
      "lf_end lf \<noteq> - 1 \<and> lf_start lock > lf_end lf"
    | "lf_id lf = lf_id lock" "\<not> apart lf lock"
    by (auto simp: apart_def)
  then show ?case
  proof cases
    case 1
    then have "c = c'" "pre = lf # pre'" "ov = ov'" using Cons(2) r by (simp_all add: Let_def)
    then show ?thesis using IH 1 by (auto simp: own_before_def)
  next
    case 2
    then have "c = 0" "pre = []" "ov = lf # lfs" using Cons(2) by (auto simp: Let_def)
    then show ?thesis using 2 by simp
  next
    case 3
    then have "c = c'" "pre = lf # pre'" "ov = ov'" using Cons(2) r by (auto simp: Let_def)
    then show ?thesis using IH 3 by (auto simp: own_before_def)
  next
    case 4
    then have "c = lf_case lf (lf_start lock) (lf_end lock)" "pre = []" "ov = lf # lfs"
      using Cons(2) by (auto simp: Let_def apart_def)
    then show ?thesis using 4 by simp
  qed
qed simp

lemma lf_case_pos: "lf_case lf s e \<noteq> 0"
  by (simp add: lf_case_def)

text \<open>The search among one's own locks ends in one of two ways.\<close>

lemma find_self_cases:
  assumes "lf_wf lfs" "valid_range lock"
  obtains (none) pre ov where "lf_findoverlap lfs lock SELF = (0, pre, ov)" "lfs = pre @ ov"
    "\<forall>lf \<in> set pre. own_before lf lock" "\<forall>lf \<in> set ov. own_before lock lf"
  | (some) c pre x nxt where "lf_findoverlap lfs lock SELF = (c, pre, x # nxt)" "lfs = pre @ x # nxt"
    "\<forall>lf \<in> set pre. own_before lf lock" "lf_id x = lf_id lock" "\<not> apart x lock" "c \<noteq> 0"
    "c = lf_case x (lf_start lock) (lf_end lock)" "valid_range x"
proof -
  obtain c pre ov where r: "lf_findoverlap lfs lock SELF = (c, pre, ov)" by (metis prod_cases3)
  note f = find_self [OF r]
  show ?thesis
  proof (cases "c = 0")
    case True
    then have "\<forall>lf \<in> set ov. own_before lock lf"
      using f assms(1) lf_case_pos by (cases ov) (auto simp: lf_wf_append lf_wf_Cons own_before_def valid_range_def)
    then show ?thesis using none r f True by auto
  next
    case False
    then obtain x nxt where "ov = x # nxt" using f by (cases ov) auto
    then show ?thesis using some r f False assms(1) by (auto simp: lf_wf_append lf_wf_Cons)
  qed
qed

section \<open>Sleepers\<close>

definition sleepers :: "lockf list \<Rightarrow> nat list" where
  "sleepers lfs = concat (map lf_blkhd lfs)"

lemma sleepers_simps [simp]:
  "sleepers [] = []" "sleepers (lf # lfs) = lf_blkhd lf @ sleepers lfs"
  "sleepers (xs @ ys) = sleepers xs @ sleepers ys"
  by (simp_all add: sleepers_def)

lemma set_sleepers: "set (sleepers lfs) = (\<Union>lf \<in> set lfs. set (lf_blkhd lf))"
  by (simp add: sleepers_def)

section \<open>Removing a range\<close>

text \<open>The contract of \<open>lf_clearlock\<close>: the result is well formed, every lock left is part of an
  old one, exactly the bytes of the range are given up, and every sleeper of a lock that
  changed is awakened.\<close>

definition cleared :: "lockf list \<Rightarrow> lockf \<Rightarrow> lf_out \<Rightarrow> bool" where
  "cleared lfs unlock out \<longleftrightarrow>
     lf_wf (out_locks out) \<and>
     (\<forall>x \<in> set (out_locks out). \<exists>y \<in> set lfs. within x y) \<and>
     (\<forall>n b t. owns (out_locks out) n b t \<longleftrightarrow> owns lfs n b t \<and> \<not> (n = lf_id unlock \<and> in_range unlock b)) \<and>
     (\<forall>x \<in> set (out_locks out). lf_blkhd x \<noteq> [] \<longrightarrow> x \<in> set lfs) \<and>
     (\<forall>y \<in> set lfs. lf_id y \<noteq> lf_id unlock \<longrightarrow> y \<in> set (out_locks out)) \<and>
     mset (sleepers (out_locks out)) + mset (out_woken out) = mset (sleepers lfs)"

lemma own_before_not_in_range:
  "own_before a b \<Longrightarrow> lf_id a = lf_id b \<Longrightarrow> in_range a i \<Longrightarrow> \<not> in_range b i"
  by (auto simp: own_before_def in_range_def)

lemma owns_before: "\<forall>lf \<in> set pre. own_before lf lock \<Longrightarrow> owns pre (lf_id lock) b t \<Longrightarrow> \<not> in_range lock b"
  by (auto simp: owns_def dest: own_before_not_in_range)

lemma owns_after: "\<forall>lf \<in> set post. own_before lock lf \<Longrightarrow> owns post (lf_id lock) b t \<Longrightarrow> \<not> in_range lock b"
  unfolding owns_def using own_before_not_in_range by metis

lemma cleared_none:
  assumes "lf_wf (pre @ ov)" "\<forall>lf \<in> set pre. own_before lf lock" "\<forall>lf \<in> set ov. own_before lock lf"
  shows "cleared (pre @ ov) lock \<lparr>out_locks = pre @ ov, out_woken = [], out_freed = [], out_spare = sp\<rparr>"
  using assms owns_before [OF assms(2)] owns_after [OF assms(3)]
  by (auto simp: cleared_def) (use within_refl in blast)+

text \<open>Replacing the lock \<open>x\<close> found by the search with the parts \<open>ps\<close> of it that lie outside
  the range, when nothing that follows meets the range.\<close>

lemma cleared_replace:
  assumes wf: "lf_wf (pre @ x # nxt)" and pre: "\<forall>lf \<in> set pre. own_before lf lock" and x: "lf_id x = lf_id lock"
    and ps: "lf_wf ps" "\<forall>p \<in> set ps. within p x \<and> lf_type p = lf_type x \<and> lf_blkhd p = []"
      "\<And>b. (\<exists>p \<in> set ps. in_range p b) \<longleftrightarrow> in_range x b \<and> \<not> in_range lock b"
    and nxt: "\<forall>lf \<in> set nxt. own_before lock lf"
  shows "cleared (pre @ x # nxt) lock
    \<lparr>out_locks = pre @ ps @ nxt, out_woken = lf_blkhd x, out_freed = fr, out_spare = sp\<rparr>"
proof -
  have o: "owns ps n b t \<longleftrightarrow> n = lf_id lock \<and> t = lf_type x \<and> in_range x b \<and> \<not> in_range lock b" for n b t
    using ps(2,3) x unfolding owns_def within_def by metis
  have "lf_wf (pre @ ps @ nxt)"
    using wf ps(1,2) own_before_within within_own_before by (fastforce simp: lf_wf_append lf_wf_Cons)
  moreover have "owns (pre @ ps @ nxt) n b t \<longleftrightarrow>
      owns (pre @ x # nxt) n b t \<and> \<not> (n = lf_id lock \<and> in_range lock b)" for n b t
    using owns_before [OF pre] owns_after [OF nxt] x by (auto simp: o)
  moreover have "sleepers ps = []" using ps(2) by (simp add: sleepers_def)
  moreover have "\<exists>y \<in> set (pre @ x # nxt). within p y" if "p \<in> set (pre @ ps @ nxt)" for p
  proof (cases "p \<in> set ps")
    case False
    then show ?thesis using that by (intro within_mem) auto
  qed (use ps(2) in auto)
  ultimately show ?thesis using ps(2) x by (auto simp: cleared_def)
qed

text \<open>The same when the rest of the list is cleared recursively.\<close>

lemma cleared_behind:
  assumes wf: "lf_wf (pre @ x # nxt)" and pre: "\<forall>lf \<in> set pre. own_before lf lock" and x: "lf_id x = lf_id lock"
    and ps: "lf_wf ps" "\<forall>p \<in> set ps. within p x \<and> lf_type p = lf_type x \<and> lf_blkhd p = []"
      "\<And>b. (\<exists>p \<in> set ps. in_range p b) \<longleftrightarrow> in_range x b \<and> \<not> in_range lock b"
    and rest: "cleared nxt lock out"
  shows "cleared (pre @ x # nxt) lock (lf_behind (pre @ ps) (lf_blkhd x) fr out)"
proof -
  have o: "owns ps n b t \<longleftrightarrow> n = lf_id lock \<and> t = lf_type x \<and> in_range x b \<and> \<not> in_range lock b" for n b t
    using ps(2,3) x unfolding owns_def within_def by metis
  have r: "lf_wf (out_locks out)" "\<And>q. q \<in> set (out_locks out) \<Longrightarrow> \<exists>y \<in> set nxt. within q y"
    "\<And>n b t. owns (out_locks out) n b t \<longleftrightarrow> owns nxt n b t \<and> \<not> (n = lf_id lock \<and> in_range lock b)"
    "\<And>q. q \<in> set (out_locks out) \<Longrightarrow> lf_blkhd q \<noteq> [] \<Longrightarrow> q \<in> set nxt"
    "mset (sleepers (out_locks out)) + mset (out_woken out) = mset (sleepers nxt)"
    "\<And>y. y \<in> set nxt \<Longrightarrow> lf_id y \<noteq> lf_id lock \<Longrightarrow> y \<in> set (out_locks out)"
    using rest by (auto simp: cleared_def)
  have b: "own_before p q" if p: "p \<in> set pre \<or> p \<in> set ps" and q: "q \<in> set (out_locks out)" for p q
  proof -
    obtain y where "y \<in> set nxt" "within q y" using r(2) [OF q] by blast
    moreover have "own_before p y" using p wf ps(2) \<open>y \<in> set nxt\<close> within_own_before
      by (auto simp: lf_wf_append lf_wf_Cons)
    ultimately show ?thesis using own_before_within by blast
  qed
  have "lf_wf ((pre @ ps) @ out_locks out)"
    using wf ps(1,2) r(1) b own_before_within by (fastforce simp: lf_wf_append lf_wf_Cons)
  moreover have "owns ((pre @ ps) @ out_locks out) n b t \<longleftrightarrow>
      owns (pre @ x # nxt) n b t \<and> \<not> (n = lf_id lock \<and> in_range lock b)" for n b t
    using owns_before [OF pre] x by (auto simp: o r(3))
  moreover have "sleepers ps = []" using ps(2) by (simp add: sleepers_def)
  moreover have "\<exists>y \<in> set (pre @ x # nxt). within p y" if "p \<in> set ((pre @ ps) @ out_locks out)" for p
  proof (cases "p \<in> set pre")
    case True
    then show ?thesis by (intro within_mem) auto
  qed (use that ps(2) r(2) in auto)
  ultimately show ?thesis using ps(2) r(4-6) x by (auto simp: cleared_def lf_behind_def)
qed

lemma in_range_update [simp]:
  "in_range (lf\<lparr>lf_blkhd := q\<rparr>) = in_range lf" "in_range (lf\<lparr>lf_type := t\<rparr>) = in_range lf"
  by (auto simp: in_range_def)

lemma nxt_after:
  assumes "lf_wf (pre @ x # nxt)" "lf_id x = lf_id lock"
    "lf_end x = - 1 \<or> lf_end lock \<noteq> - 1 \<and> lf_end lock \<le> lf_end x"
  shows "\<forall>lf \<in> set nxt. own_before lock lf"
  using assms by (auto simp: lf_wf_append lf_wf_Cons own_before_def)

text \<open>The parts of a lock that survive, by case.\<close>

lemma part_before:
  assumes "lf_wf (pre @ x # nxt)" "lf_start x < lf_start lock" "lf_end x = - 1 \<or> lf_start lock \<le> lf_end x"
    "lf_end lock = - 1 \<or> lf_end x \<noteq> - 1 \<and> lf_end x \<le> lf_end lock" "valid_range lock"
  defines "p \<equiv> x\<lparr>lf_blkhd := [], lf_end := lf_start lock - 1\<rparr>"
  shows "lf_wf [p] \<and> (\<forall>p \<in> set [p]. within p x \<and> lf_type p = lf_type x \<and> lf_blkhd p = []) \<and>
    (\<forall>b. (\<exists>p \<in> set [p]. in_range p b) \<longleftrightarrow> in_range x b \<and> \<not> in_range lock b)"
  using assms by (auto simp: lf_wf_append lf_wf_Cons valid_range_def within_def in_range_def)

lemma part_after:
  assumes "lf_wf (pre @ x # nxt)" "lf_start lock \<le> lf_start x" "lf_end lock \<noteq> - 1"
    "lf_end x = - 1 \<or> lf_end lock < lf_end x" "lf_start x \<le> lf_end lock" "valid_range lock"
  defines "p \<equiv> x\<lparr>lf_blkhd := [], lf_start := lf_end lock + 1\<rparr>"
  shows "lf_wf [p] \<and> (\<forall>p \<in> set [p]. within p x \<and> lf_type p = lf_type x \<and> lf_blkhd p = []) \<and>
    (\<forall>b. (\<exists>p \<in> set [p]. in_range p b) \<longleftrightarrow> in_range x b \<and> \<not> in_range lock b)"
  using assms by (auto simp: lf_wf_append lf_wf_Cons valid_range_def within_def in_range_def)

lemma parts_around:
  assumes "lf_wf (pre @ x # nxt)" "lf_start x < lf_start lock" "lf_end lock \<noteq> - 1"
    "lf_end x = - 1 \<or> lf_end lock < lf_end x" "valid_range lock"
  defines "p \<equiv> x\<lparr>lf_blkhd := [], lf_end := lf_start lock - 1\<rparr>"
    and "q \<equiv> x\<lparr>lf_start := lf_end lock + 1, lf_blkhd := []\<rparr>"
  shows "lf_wf [p, q] \<and> (\<forall>p \<in> set [p, q]. within p x \<and> lf_type p = lf_type x \<and> lf_blkhd p = []) \<and>
    (\<forall>b. (\<exists>p \<in> set [p, q]. in_range p b) \<longleftrightarrow> in_range x b \<and> \<not> in_range lock b)"
  using assms
  by (auto simp: lf_wf_append lf_wf_Cons valid_range_def within_def in_range_def own_before_def)

lemma part_none:
  assumes "lf_start lock \<le> lf_start x" "lf_end lock = - 1 \<or> lf_end x \<noteq> - 1 \<and> lf_end x \<le> lf_end lock"
  shows "(\<exists>p \<in> set []. in_range p b) \<longleftrightarrow> in_range x b \<and> \<not> in_range lock b"
  using assms by (auto simp: in_range_def)

lemma clearlock_spec:
  "lf_wf lfs \<Longrightarrow> valid_range unlock \<Longrightarrow> spare \<noteq> None \<or> lf_end unlock = - 1 \<Longrightarrow>
     \<exists>out. lf_clearlock lfs unlock spare = Some out \<and> cleared lfs unlock out"
proof (induction lfs rule: measure_induct_rule [of length])
  case (less lfs)
  from less(2,3) show ?case
  proof (cases rule: find_self_cases)
    case (none pre ov)
    have "lf_clearlock lfs unlock spare =
        Some \<lparr>out_locks = lfs, out_woken = [], out_freed = [], out_spare = spare\<rparr>"
      using none(1) by (cases ov) (simp_all add: lf_clearlock.simps [of lfs])
    then show ?thesis using cleared_none [OF less(2) [unfolded none(2)] none(3,4)] none(2) by simp
  next
    case (some c pre x nxt)
    note wf = less(2) [unfolded some(2)]
    note valid_range_off_t [OF less(3), simp]
    note rep = cleared_replace [OF wf some(3,4)]
    note rec = cleared_behind [OF wf some(3,4)]
    note step = lf_clearlock.simps [of lfs unlock spare, unfolded some(1) lf_wakelock_def, simplified]
    have IH: "\<exists>out. lf_clearlock nxt unlock spare = Some out \<and> cleared nxt unlock out"
      using less(1) [of nxt] wf less(3,4) some(2) by (simp add: lf_wf_append lf_wf_Cons)
    consider
        (1) "c = 1" "lf_start x = lf_start unlock" "lf_end x = lf_end unlock"
      | (2) "c = 2" "lf_start x \<le> lf_start unlock" "lf_end unlock \<noteq> - 1"
          "lf_end x = - 1 \<or> lf_end unlock \<le> lf_end x" "lf_start x \<noteq> lf_start unlock \<or> lf_end x \<noteq> lf_end unlock"
      | (3) "c = 3" "lf_start unlock \<le> lf_start x" "lf_end unlock = - 1 \<or> lf_end x \<noteq> - 1 \<and> lf_end x \<le> lf_end unlock"
      | (4) "c = 4" "lf_start x < lf_start unlock" "lf_end x = - 1 \<or> lf_start unlock \<le> lf_end x"
          "lf_end unlock = - 1 \<or> lf_end x \<noteq> - 1 \<and> lf_end x < lf_end unlock"
      | (5) "c = 5" "lf_start unlock < lf_start x" "lf_end unlock \<noteq> - 1" "lf_start x \<le> lf_end unlock"
          "lf_end x = - 1 \<or> lf_end unlock < lf_end x"
      using lf_case_range [OF some(8) less(3) some(5)] some(7) by metis
    then show ?thesis
    proof cases
      case 1
      have "cleared lfs unlock \<lparr>out_locks = pre @ [] @ nxt, out_woken = lf_blkhd x,
          out_freed = [x\<lparr>lf_blkhd := []\<rparr>], out_spare = spare\<rparr>"
        unfolding some(2) by (rule rep) (use nxt_after [OF wf some(4)] part_none [of unlock x] 1 in auto)
      then show ?thesis using 1(1) step by simp
    next
      case 3
      from IH obtain out where o: "lf_clearlock nxt unlock spare = Some out" "cleared nxt unlock out" by blast
      have "cleared lfs unlock (lf_behind (pre @ []) (lf_blkhd x) [x\<lparr>lf_blkhd := []\<rparr>] out)"
        unfolding some(2) by (rule rec) (use part_none [OF 3(2,3)] o(2) in auto)
      then show ?thesis using 3(1) step o(1) by simp
    next
      case 4
      from IH obtain out where o: "lf_clearlock nxt unlock spare = Some out" "cleared nxt unlock out" by blast
      have "cleared lfs unlock (lf_behind (pre @ [x\<lparr>lf_blkhd := [], lf_end := lf_start unlock - 1\<rparr>])
          (lf_blkhd x) [] out)"
        unfolding some(2) using part_before [OF wf 4(2,3) _ less(3)] 4(4) o(2) by (intro rec) auto
      then show ?thesis using 4(1) step o(1) by simp
    next
      case 5
      have "cleared lfs unlock \<lparr>out_locks = pre @ [x\<lparr>lf_blkhd := [], lf_start := lf_end unlock + 1\<rparr>] @ nxt,
          out_woken = lf_blkhd x, out_freed = [], out_spare = spare\<rparr>"
        unfolding some(2) using part_after [OF wf _ 5(3,5,4) less(3)] nxt_after [OF wf some(4)] 5
        by (intro rep) auto
      then show ?thesis using 5(1) step by simp
    next
      case 2
      have after: "\<forall>lf \<in> set nxt. own_before unlock lf" using nxt_after [OF wf some(4)] 2 by auto
      consider (a) "lf_start x = lf_start unlock" | (b) "lf_start x \<noteq> lf_start unlock" "lf_end x = lf_end unlock"
        | (c) "lf_start x \<noteq> lf_start unlock" "lf_end x \<noteq> lf_end unlock" by blast
      then show ?thesis
      proof cases
        case a
        have "cleared lfs unlock \<lparr>out_locks = pre @ [x\<lparr>lf_blkhd := [], lf_start := lf_end unlock + 1\<rparr>] @ nxt,
            out_woken = lf_blkhd x, out_freed = [], out_spare = spare\<rparr>"
          unfolding some(2) using part_after [OF wf _ 2(3) _ _ less(3)] after a 2 less(3)
          by (intro rep) (auto simp: valid_range_def)
        then show ?thesis using 2(1) step a by simp
      next
        case b
        have "cleared lfs unlock \<lparr>out_locks = pre @ [x\<lparr>lf_blkhd := [], lf_end := lf_start unlock - 1\<rparr>] @ nxt,
            out_woken = lf_blkhd x, out_freed = [], out_spare = spare\<rparr>"
          unfolding some(2) using part_before [OF wf _ _ _ less(3)] after b 2 less(3)
          by (intro rep) (auto simp: valid_range_def)
        then show ?thesis using 2(1) step b by (simp add: lf_split_def)
      next
        case c
        obtain sp where sp: "spare = Some sp" using less(4) 2(3) by auto
        have "cleared lfs unlock \<lparr>out_locks = pre @ [x\<lparr>lf_blkhd := [], lf_end := lf_start unlock - 1\<rparr>,
            x\<lparr>lf_start := lf_end unlock + 1, lf_blkhd := []\<rparr>] @ nxt,
            out_woken = lf_blkhd x, out_freed = [], out_spare = None\<rparr>"
          unfolding some(2) using parts_around [OF wf _ 2(3) _ less(3)] after c 2
          by (intro rep) auto
        then show ?thesis using 2(1) step c sp by (simp add: lf_split_def)
      qed
    qed
  qed
qed

end
