(* ===== verification/Lockf_Grant.thy ===== *)
theory Lockf_Grant
  imports Lockf_Ranges
begin

text \<open>
  Correctness of \<open>lf_getblock\<close> and of the part of \<open>lf_setlock\<close> that adds a lock.
\<close>

section \<open>Blocking\<close>

text \<open>A held lock blocks a request of another owner that meets it, when one is exclusive.\<close>

definition blocks :: "lockf \<Rightarrow> lockf \<Rightarrow> bool" where
  "blocks lf lock \<longleftrightarrow> lf_id lf \<noteq> lf_id lock \<and> \<not> apart lf lock \<and> (lf_type lock = F_WRLCK \<or> lf_type lf = F_WRLCK)"

lemma find_others:
  "lf_findoverlap lfs lock OTHERS = (c, pre, ov) \<Longrightarrow>
     lfs = pre @ ov \<and> (\<forall>lf \<in> set pre. \<not> blocks lf lock) \<and>
     (c = 0 \<and> ov = [] \<or> c \<noteq> 0 \<and> ov \<noteq> [] \<and> lf_id (hd ov) \<noteq> lf_id lock \<and> \<not> apart (hd ov) lock \<and>
        c = lf_case (hd ov) (lf_start lock) (lf_end lock))"
proof (induction lfs arbitrary: c pre ov)
  case (Cons lf lfs)
  obtain c' pre' ov' where r: "lf_findoverlap lfs lock OTHERS = (c', pre', ov')" by (metis prod_cases3)
  show ?case
  proof (cases "lf_id lf = lf_id lock \<or> apart lf lock")
    case True
    then have "c = c'" "pre = lf # pre'" "ov = ov'" using Cons(2) r by (auto simp: Let_def apart_def split: if_splits)
    then show ?thesis using Cons(1) [OF r] True by (auto simp: blocks_def)
  next
    case False
    then have "c = lf_case lf (lf_start lock) (lf_end lock)" "pre = []" "ov = lf # lfs"
      using Cons(2) by (auto simp: Let_def apart_def)
    then show ?thesis using False lf_case_pos by simp
  qed
qed simp

text \<open>\<open>lf_getblock\<close> returns the first lock of the list that blocks the request; on valid ranges
  \<open>lf_findoverlap\<close> does not panic.\<close>

lemma getblock_find:
  "lf_wf lfs \<Longrightarrow> valid_range lock \<Longrightarrow> lf_getblock lfs lock = Some (find (\<lambda>lf. blocks lf lock) lfs)"
proof (induction lfs rule: measure_induct_rule [of length])
  case (less lfs)
  obtain c pre ov where r: "lf_findoverlap lfs lock OTHERS = (c, pre, ov)" by (metis prod_cases3)
  note f = find_others [OF r]
  have pre: "find (\<lambda>lf. blocks lf lock) pre = None" using f by (simp add: find_None_iff)
  show ?case
  proof (cases ov)
    case Nil
    then have "lf_getblock lfs lock = Some None" using r by (simp add: lf_getblock.simps [of lfs])
    then show ?thesis using Nil f pre by simp
  next
    case (Cons x nxt)
    have "find (\<lambda>lf. blocks lf lock) lfs = find (\<lambda>lf. blocks lf lock) (x # nxt)"
      using f pre Cons by (simp add: find_append_None)
    moreover have "blocks x lock \<longleftrightarrow> lf_type lock = F_WRLCK \<or> lf_type x = F_WRLCK"
      using f Cons by (simp add: blocks_def)
    moreover have wf: "lf_wf nxt" "valid_range x" using less(2) f Cons by (auto simp: lf_wf_append lf_wf_Cons)
    moreover have "lf_getblock nxt lock = Some (find (\<lambda>lf. blocks lf lock) nxt)"
      using less(1) [of nxt] less(3) wf f Cons by simp
    moreover have "c \<noteq> 0" "c \<noteq> 6" using f Cons lf_case_range [OF wf(2) less(3), of c] by auto
    ultimately show ?thesis using r Cons by (simp add: lf_getblock.simps [of lfs])
  qed
qed

section \<open>Adding a lock\<close>

text \<open>\<open>x\<close> blocks every request that \<open>y\<close> blocks.\<close>

definition stronger :: "lockf \<Rightarrow> lockf \<Rightarrow> bool" where
  "stronger x y \<longleftrightarrow> lf_id x = lf_id y \<and> lf_start x \<le> lf_start y \<and>
     (lf_end x = - 1 \<or> lf_end y \<noteq> - 1 \<and> lf_end y \<le> lf_end x) \<and>
     (lf_type y = F_WRLCK \<longrightarrow> lf_type x = F_WRLCK)"

lemma stronger_blocks: "stronger x y \<Longrightarrow> blocks y lock \<Longrightarrow> blocks x lock"
  by (auto simp: stronger_def blocks_def apart_def)

lemma stronger_refl [simp]: "stronger x x"
  by (simp add: stronger_def)

lemma update_comm:
  "x\<lparr>lf_blkhd := q, lf_start := s\<rparr> = x\<lparr>lf_start := s, lf_blkhd := q\<rparr>"
  "x\<lparr>lf_blkhd := q, lf_end := e\<rparr> = x\<lparr>lf_end := e, lf_blkhd := q\<rparr>"
  by simp_all

text \<open>The contract of adding a lock.\<close>

definition granted :: "lockf list \<Rightarrow> lockf \<Rightarrow> lf_out \<Rightarrow> bool" where
  "granted lfs lock out \<longleftrightarrow>
     lf_wf (out_locks out) \<and>
     (\<forall>n b t. owns (out_locks out) n b t \<longleftrightarrow>
        (if n = lf_id lock \<and> in_range lock b then t = lf_type lock else owns lfs n b t)) \<and>
     (\<forall>x \<in> set (out_locks out). \<forall>w \<in> set (lf_blkhd x). \<exists>y \<in> set lfs. w \<in> set (lf_blkhd y) \<and> stronger x y) \<and>
     mset (sleepers (out_locks out)) + mset (out_woken out) = mset (sleepers lfs)"

text \<open>The contract of the loop once the lock is linked, on the list that follows the lock.\<close>

definition linked :: "lockf list \<Rightarrow> lockf \<Rightarrow> lockf \<Rightarrow> lf_out \<Rightarrow> bool" where
  "linked lfs lock lock' out \<longleftrightarrow>
     lock' = lock\<lparr>lf_blkhd := lf_blkhd lock'\<rparr> \<and>
     lf_wf (out_locks out) \<and>
     (\<forall>x \<in> set (out_locks out). \<exists>y \<in> set lfs. within x y) \<and>
     (\<forall>n b t. owns (out_locks out) n b t \<longleftrightarrow> owns lfs n b t \<and> \<not> (n = lf_id lock \<and> in_range lock b)) \<and>
     (\<forall>x \<in> set (out_locks out). own_before lock x) \<and>
     (\<forall>x \<in> set (out_locks out). lf_blkhd x \<noteq> [] \<longrightarrow> x \<in> set lfs) \<and>
     (\<forall>w \<in> set (lf_blkhd lock'). w \<in> set (lf_blkhd lock) \<or>
        (\<exists>y \<in> set lfs. w \<in> set (lf_blkhd y) \<and> stronger lock y)) \<and>
     mset (lf_blkhd lock') + mset (sleepers (out_locks out)) + mset (out_woken out) =
       mset (lf_blkhd lock) + mset (sleepers lfs)"

lemma take_queue_spec:
  assumes "take_queue lock x = (lock1, woken)" "lf_type lock \<noteq> F_UNLCK" "lf_id x = lf_id lock"
    "lf_start lock \<le> lf_start x" "lf_end lock = - 1 \<or> lf_end x \<noteq> - 1 \<and> lf_end x \<le> lf_end lock"
  shows "lock1 = lock\<lparr>lf_blkhd := lf_blkhd lock1\<rparr>"
    "mset (lf_blkhd lock1) + mset woken = mset (lf_blkhd lock) + mset (lf_blkhd x)"
    "\<forall>w \<in> set (lf_blkhd lock1). w \<in> set (lf_blkhd lock) \<or> w \<in> set (lf_blkhd x) \<and> stronger lock x"
  using assms by (cases "lf_type lock"; auto simp: take_queue_def downgrade_def stronger_def split: if_splits)+

lemma blkhd_update_frame [simp]:
  "own_before (a\<lparr>lf_blkhd := q\<rparr>) b = own_before a b" "own_before a (b\<lparr>lf_blkhd := q\<rparr>) = own_before a b"
  "valid_range (a\<lparr>lf_blkhd := q\<rparr>) = valid_range a"
  "stronger (a\<lparr>lf_blkhd := q\<rparr>) b = stronger a b"
  by (auto simp: own_before_def valid_range_def stronger_def)

lemma pre_foreign:
  assumes "lf_wf (pre @ ov)" "\<forall>lf \<in> set pre. own_before lf lock"
    "\<forall>x \<in> set (pre @ ov). lf_id x = lf_id lock \<longrightarrow> lf_start lock < lf_start x"
  shows "\<forall>x \<in> set pre. lf_id x \<noteq> lf_id lock"
  using assms by (fastforce simp: own_before_def lf_wf_def valid_range_def)

lemma owns_foreign: "\<forall>x \<in> set pre. lf_id x \<noteq> n \<Longrightarrow> \<not> owns pre n b t"
  by (auto simp: owns_def)

lemma linked_behind:
  assumes wf: "lf_wf (pre @ x # nxt)" and pre: "\<forall>p \<in> set pre. lf_id p \<noteq> lf_id lock"
    and x: "lf_id x = lf_id lock" "lf_start lock \<le> lf_start x"
      "lf_end lock = - 1 \<or> lf_end x \<noteq> - 1 \<and> lf_end x \<le> lf_end lock"
    and tq: "take_queue lock x = (lock1, woken)" "lf_type lock \<noteq> F_UNLCK"
    and rest: "linked nxt lock1 lock' out"
  shows "linked (pre @ x # nxt) lock lock' (lf_behind pre woken fr out)"
proof -
  note q = take_queue_spec [OF tq x]
  have l1: "lf_id lock1 = lf_id lock" "in_range lock1 = in_range lock" "own_before lock1 = own_before lock"
    "stronger lock1 = stronger lock"
    by (subst q(1), simp add: fun_eq_iff)+
  have r: "lock' = lock1\<lparr>lf_blkhd := lf_blkhd lock'\<rparr>" "lf_wf (out_locks out)"
    "\<And>p. p \<in> set (out_locks out) \<Longrightarrow> \<exists>y \<in> set nxt. within p y"
    "\<And>n b t. owns (out_locks out) n b t \<longleftrightarrow> owns nxt n b t \<and> \<not> (n = lf_id lock \<and> in_range lock b)"
    "\<forall>p \<in> set (out_locks out). own_before lock p"
    "\<forall>p \<in> set (out_locks out). lf_blkhd p \<noteq> [] \<longrightarrow> p \<in> set nxt"
    "\<forall>w \<in> set (lf_blkhd lock'). w \<in> set (lf_blkhd lock1) \<or> (\<exists>y \<in> set nxt. w \<in> set (lf_blkhd y) \<and> stronger lock y)"
    "mset (lf_blkhd lock') + mset (sleepers (out_locks out)) + mset (out_woken out) =
       mset (lf_blkhd lock1) + mset (sleepers nxt)"
    using rest unfolding linked_def l1 by blast+
  have "lf_wf (pre @ out_locks out)"
  proof -
    have "own_before p o1" if p: "p \<in> set pre" and o: "o1 \<in> set (out_locks out)" for p o1
    proof -
      obtain y where y: "y \<in> set nxt" "within o1 y" using r(3) [OF o] by blast
      then have "own_before p y" using wf p by (simp add: lf_wf_append)
      then show ?thesis using y(2) by (rule own_before_within)
    qed
    then show ?thesis using wf r(2) by (auto simp: lf_wf_append)
  qed
  moreover have "lock' = lock\<lparr>lf_blkhd := lf_blkhd lock'\<rparr>" by (subst r(1), subst q(1)) simp
  moreover have "\<exists>y \<in> set (pre @ x # nxt). within p y" if "p \<in> set (pre @ out_locks out)" for p
  proof (cases "p \<in> set pre")
    case True
    then show ?thesis by (intro within_mem) auto
  qed (use that r(3) in auto)
  moreover have "owns (pre @ out_locks out) n b t \<longleftrightarrow>
      owns (pre @ x # nxt) n b t \<and> \<not> (n = lf_id lock \<and> in_range lock b)" for n b t
    using owns_foreign [OF pre] x by (auto simp: r(4) in_range_def)
  moreover have "\<forall>p \<in> set (pre @ out_locks out). own_before lock p"
    using pre r(5) by (auto simp: own_before_def)
  moreover have "\<forall>w \<in> set (lf_blkhd lock'). w \<in> set (lf_blkhd lock) \<or>
      (\<exists>y \<in> set (pre @ x # nxt). w \<in> set (lf_blkhd y) \<and> stronger lock y)"
    using r(7) q(3) by auto
  moreover have "mset (lf_blkhd lock') + mset (sleepers (pre @ out_locks out)) + mset (woken @ out_woken out) =
      mset (lf_blkhd lock) + mset (sleepers (pre @ x # nxt))"
    using r(8) q(2) by (simp add: ac_simps)
  moreover have "\<forall>p \<in> set (pre @ out_locks out). lf_blkhd p \<noteq> [] \<longrightarrow> p \<in> set (pre @ x # nxt)"
    using r(6) by auto
  ultimately show ?thesis by (simp add: linked_def lf_behind_def)
qed

lemma set_linked_spec:
  "lf_wf lfs \<Longrightarrow> valid_range lock \<Longrightarrow> lf_type lock \<noteq> F_UNLCK \<Longrightarrow>
   \<forall>x \<in> set lfs. lf_id x = lf_id lock \<longrightarrow> lf_start lock < lf_start x \<Longrightarrow>
     \<exists>lock' out. lf_set_linked lfs lock = Some (lock', out) \<and> linked lfs lock lock' out"
proof (induction lfs arbitrary: lock rule: measure_induct_rule [of length])
  case (less lfs)
  from less(2,3) show ?case
  proof (cases rule: find_self_cases)
    case (none pre ov)
    have "lf_set_linked lfs lock =
        Some (lock, \<lparr>out_locks = lfs, out_woken = [], out_freed = [], out_spare = None\<rparr>)"
      using none(1) by (cases ov) (simp_all add: lf_set_linked.simps [of lfs])
    moreover have "\<forall>x \<in> set lfs. own_before lock x"
      using pre_foreign [of pre ov lock] none(2-4) less(2,5) by (auto simp: own_before_def)
    moreover have "cleared lfs lock \<lparr>out_locks = lfs, out_woken = [], out_freed = [], out_spare = None\<rparr>"
      using cleared_none [OF less(2) [unfolded none(2)] none(3,4)] none(2) by simp
    ultimately show ?thesis by (auto simp: linked_def cleared_def)
  next
    case (some c pre x nxt)
    note wf = less(2) [unfolded some(2)]
    have foreign: "\<forall>p \<in> set pre. lf_id p \<noteq> lf_id lock"
      using pre_foreign [of pre "x # nxt" lock] some(2,3) less(2,5) by simp
    have xs: "lf_start lock < lf_start x" using less(5) some(2,4) by simp
    note valid_range_off_t [OF less(3), simp]
    note step = lf_set_linked.simps [of lfs lock, unfolded some(1) lf_wakelock_def, simplified]
    consider (3) "c = 3" "lf_end lock = - 1 \<or> lf_end x \<noteq> - 1 \<and> lf_end x \<le> lf_end lock"
      | (5) "c = 5" "lf_end lock \<noteq> - 1" "lf_start x \<le> lf_end lock" "lf_end x = - 1 \<or> lf_end lock < lf_end x"
      using lf_case_range [OF some(8) less(3) some(5)] some(7) xs by force
    then show ?thesis
    proof cases
      case 3
      obtain lock1 woken where tq: "take_queue lock x = (lock1, woken)" by fastforce
      note q = take_queue_spec [OF tq less(4) some(4) less_imp_le [OF xs] 3(2)]
      have l1: "valid_range lock1" "lf_type lock1 = lf_type lock" "lf_id lock1 = lf_id lock" "lf_start lock1 = lf_start lock"
        using less(3) by (subst q(1), simp)+
      have "\<forall>y \<in> set nxt. lf_id y = lf_id lock1 \<longrightarrow> lf_start lock1 < lf_start y" using less(5) some(2) l1 by simp
      then obtain lock' out where r: "lf_set_linked nxt lock1 = Some (lock', out)" "linked nxt lock1 lock' out"
        using less(1) [of nxt lock1] wf less(4) some(2) l1 by (auto simp: lf_wf_append lf_wf_Cons)
      then have "lf_set_linked lfs lock = Some (lock', lf_behind pre woken [x] out)"
        using 3(1) step tq by simp
      moreover have "linked lfs lock lock' (lf_behind pre woken [x] out)"
        unfolding some(2) using foreign some(4) xs 3(2) tq less(4) r(2) by (intro linked_behind [OF wf]) auto
      ultimately show ?thesis by blast
    next
      case 5
      let ?x = "x\<lparr>lf_start := lf_end lock + 1, lf_blkhd := []\<rparr>"
      let ?out = "\<lparr>out_locks = pre @ [?x] @ nxt, out_woken = lf_blkhd x, out_freed = [], out_spare = None\<rparr>"
      have after: "\<forall>lf \<in> set nxt. own_before lock lf" using nxt_after [OF wf some(4)] 5 by auto
      have "cleared lfs lock ?out"
        unfolding some(2) using part_after [OF wf _ 5(2,4,3) less(3)] after xs
        by (intro cleared_replace [OF wf some(3,4)]) (auto simp: update_comm)
      moreover have "\<forall>p \<in> set (pre @ [?x] @ nxt). own_before lock p"
        using foreign after some(4) 5 by (auto simp: own_before_def)
      moreover have "lf_set_linked lfs lock = Some (lock, ?out)" using 5(1) step by simp
      ultimately show ?thesis by (auto simp: linked_def cleared_def add.assoc)
    qed
  qed
qed

text \<open>Putting the new lock in front of what the range leaves of the following locks.\<close>

lemma granted_insert:
  assumes wf: "lf_wf (pre @ x # nxt)" and pre: "\<forall>p \<in> set pre. own_before p lock"
    and x: "lf_id x = lf_id lock" and lock: "valid_range lock" "lf_type lock \<noteq> F_UNLCK" "lf_blkhd lock = []"
    and ps: "lf_wf ps" "\<forall>p \<in> set ps. within p x \<and> lf_type p = lf_type x \<and> lf_blkhd p = []"
    and qs: "lf_wf qs" "\<forall>p \<in> set qs. within p x \<and> lf_type p = lf_type x \<and> lf_blkhd p = []"
    and parts: "\<And>b. (\<exists>p \<in> set ps \<union> set qs. in_range p b) \<longleftrightarrow> in_range x b \<and> \<not> in_range lock b"
    and order: "\<forall>p \<in> set ps. own_before p lock" "\<forall>p \<in> set (qs @ nxt). own_before lock p"
      "\<forall>p \<in> set ps. \<forall>q \<in> set qs. own_before p q"
  shows "granted (pre @ x # nxt) lock
    \<lparr>out_locks = pre @ ps @ lock # qs @ nxt, out_woken = lf_blkhd x, out_freed = fr, out_spare = sp\<rparr>"
proof -
  have o: "owns (ps @ qs) n b t \<longleftrightarrow> n = lf_id lock \<and> t = lf_type x \<and> in_range x b \<and> \<not> in_range lock b" for n b t
  proof -
    have "lf_id p = lf_id lock \<and> lf_type p = lf_type x" if "p \<in> set ps \<union> set qs" for p
      using that ps(2) qs(2) x by (auto simp: within_def)
    then show ?thesis using parts [of b] unfolding owns_def set_append by metis
  qed
  have "lf_wf (pre @ ps @ lock # qs @ nxt)"
    using wf pre lock ps qs order own_before_within within_own_before
    by (fastforce simp: lf_wf_append lf_wf_Cons)
  moreover have "owns (pre @ ps @ lock # qs @ nxt) n b t \<longleftrightarrow>
      (if n = lf_id lock \<and> in_range lock b then t = lf_type lock else owns (pre @ x # nxt) n b t)" for n b t
  proof -
    have "owns (pre @ ps @ lock # qs @ nxt) n b t \<longleftrightarrow>
        owns pre n b t \<or> owns (ps @ qs) n b t \<or> owns nxt n b t \<or> n = lf_id lock \<and> in_range lock b \<and> t = lf_type lock"
      by auto
    then show ?thesis using owns_before [OF pre] owns_after [of nxt lock] order(2) x unfolding o by auto
  qed
  moreover have "sleepers ps = []" "sleepers qs = []" using ps(2) qs(2) by (simp_all add: sleepers_def)
  moreover have "\<exists>y \<in> set (pre @ x # nxt). w \<in> set (lf_blkhd y) \<and> stronger p y"
    if "p \<in> set (pre @ ps @ lock # qs @ nxt)" "w \<in> set (lf_blkhd p)" for p w
  proof -
    have "p \<in> set (pre @ nxt)" using that ps(2) qs(2) lock(3) by auto
    then show ?thesis using that(2) by (intro bexI [of _ p]) auto
  qed
  ultimately show ?thesis using lock(3) by (auto simp: granted_def)
qed

text \<open>The new lock followed by the loop on the rest.\<close>

lemma granted_linked:
  assumes wf: "lf_wf (pre @ x # nxt)" and pre: "\<forall>p \<in> set pre. own_before p lock"
    and x: "lf_id x = lf_id lock" and lock: "valid_range lock" "lf_type lock \<noteq> F_UNLCK"
    and ps: "lf_wf ps" "\<forall>p \<in> set ps. within p x \<and> lf_type p = lf_type x \<and> lf_blkhd p = []"
      "\<forall>p \<in> set ps. own_before p lock"
    and parts: "\<And>b. (\<exists>p \<in> set ps. in_range p b) \<longleftrightarrow> in_range x b \<and> \<not> in_range lock b"
    and q: "mset (lf_blkhd lock) + mset woken = mset (lf_blkhd x)"
      "\<forall>w \<in> set (lf_blkhd lock). w \<in> set (lf_blkhd x) \<and> stronger lock x"
    and rest: "linked nxt lock lock' out"
  shows "granted (pre @ x # nxt) lock ((lf_behind (pre @ ps @ [lock']) woken fr out)\<lparr>out_spare := sp\<rparr>)"
proof -
  have o: "owns ps n b t \<longleftrightarrow> n = lf_id lock \<and> t = lf_type x \<and> in_range x b \<and> \<not> in_range lock b" for n b t
    using ps(2) parts x unfolding owns_def within_def by metis
  have r: "lock' = lock\<lparr>lf_blkhd := lf_blkhd lock'\<rparr>" "lf_wf (out_locks out)"
    "\<And>p. p \<in> set (out_locks out) \<Longrightarrow> \<exists>y \<in> set nxt. within p y"
    "\<And>n b t. owns (out_locks out) n b t \<longleftrightarrow> owns nxt n b t \<and> \<not> (n = lf_id lock \<and> in_range lock b)"
    "\<forall>p \<in> set (out_locks out). own_before lock p"
    "\<forall>p \<in> set (out_locks out). lf_blkhd p \<noteq> [] \<longrightarrow> p \<in> set nxt"
    "\<forall>w \<in> set (lf_blkhd lock'). w \<in> set (lf_blkhd lock) \<or> (\<exists>y \<in> set nxt. w \<in> set (lf_blkhd y) \<and> stronger lock y)"
    "mset (lf_blkhd lock') + mset (sleepers (out_locks out)) + mset (out_woken out) =
       mset (lf_blkhd lock) + mset (sleepers nxt)"
    using rest unfolding linked_def by blast+
  have l': "lf_id lock' = lf_id lock" "in_range lock' = in_range lock" "own_before lock' = own_before lock"
    "stronger lock' = stronger lock" "valid_range lock' = valid_range lock" "lf_type lock' = lf_type lock"
    "\<And>p. own_before p lock' = own_before p lock"
    by (subst r(1), simp add: fun_eq_iff)+
  have before: "own_before p o1" if p: "p \<in> set pre \<or> p \<in> set ps" and o1: "o1 \<in> set (out_locks out)" for p o1
  proof -
    obtain y where y: "y \<in> set nxt" "within o1 y" using r(3) [OF o1] by blast
    then have "own_before p y" using wf p ps(2) within_own_before by (auto simp: lf_wf_append lf_wf_Cons)
    then show ?thesis using y(2) by (rule own_before_within)
  qed
  have pp: "own_before p q" if "p \<in> set pre" "q \<in> set ps" for p q
    using that wf ps(2) own_before_within by (auto simp: lf_wf_append)
  have "lf_wf ((pre @ ps @ [lock']) @ out_locks out)"
    using wf pre lock ps(1,3) r(2,5) before pp by (auto simp: lf_wf_append lf_wf_Cons l')
  moreover have "owns ((pre @ ps @ [lock']) @ out_locks out) n b t \<longleftrightarrow>
      (if n = lf_id lock \<and> in_range lock b then t = lf_type lock else owns (pre @ x # nxt) n b t)" for n b t
    using owns_before [OF pre] x by (auto simp: o r(4) l')
  moreover have "sleepers ps = []" using ps(2) by (simp add: sleepers_def)
  moreover have "\<exists>y \<in> set (pre @ x # nxt). w \<in> set (lf_blkhd y) \<and> stronger p y"
    if p: "p \<in> set ((pre @ ps @ [lock']) @ out_locks out)" and w: "w \<in> set (lf_blkhd p)" for p w
  proof (cases "p = lock'")
    case True
    then show ?thesis using w r(7) q(2) by (auto simp: l')
  next
    case False
    then have "p \<in> set (pre @ nxt)" using p w ps(2) r(6) by fastforce
    then show ?thesis using w by (intro bexI [of _ p]) auto
  qed
  moreover have "mset (sleepers ((pre @ ps @ [lock']) @ out_locks out)) + mset (woken @ out_woken out) =
      mset (sleepers (pre @ x # nxt))"
  proof -
    have "mset (lf_blkhd lock') + mset (sleepers (out_locks out)) + mset (out_woken out) + mset woken =
        mset (lf_blkhd x) + mset (sleepers nxt)"
      using r(8) q(1) by (metis add.assoc add.commute)
    then show ?thesis using \<open>sleepers ps = []\<close> by (simp add: ac_simps)
  qed
  ultimately show ?thesis by (auto simp: granted_def lf_behind_def)
qed

lemma granted_none:
  assumes "lf_wf (pre @ ov)" "\<forall>lf \<in> set pre. own_before lf lock" "\<forall>lf \<in> set ov. own_before lock lf"
    "valid_range lock" "lf_type lock \<noteq> F_UNLCK" "lf_blkhd lock = []"
  shows "granted (pre @ ov) lock \<lparr>out_locks = pre @ lock # ov, out_woken = [], out_freed = [], out_spare = sp\<rparr>"
proof -
  have "\<exists>y \<in> set (pre @ ov). w \<in> set (lf_blkhd y) \<and> stronger p y"
    if "p \<in> set (pre @ lock # ov)" "w \<in> set (lf_blkhd p)" for p w
    using that assms(6) by (intro bexI [of _ p]) auto
  then show ?thesis using assms owns_before [OF assms(2)] owns_after [OF assms(3)]
    by (auto simp: granted_def lf_wf_append lf_wf_Cons)
qed

text \<open>Case 1: the overlap takes the type of the request.\<close>

lemma granted_retype:
  assumes wf: "lf_wf (pre @ x # nxt)" and pre: "\<forall>p \<in> set pre. own_before p lock"
    and x: "lf_id x = lf_id lock" "lf_start x = lf_start lock" "lf_end x = lf_end lock"
    and lock: "lf_type lock \<noteq> F_UNLCK"
    and q: "(y, woken) = (if downgrade lock x then lf_wakelock x else (x, []))"
  shows "granted (pre @ x # nxt) lock \<lparr>out_locks = pre @ y\<lparr>lf_type := lf_type lock\<rparr> # nxt,
    out_woken = woken, out_freed = fr, out_spare = sp\<rparr>"
proof -
  let ?y = "y\<lparr>lf_type := lf_type lock\<rparr>"
  have y: "y = x\<lparr>lf_blkhd := lf_blkhd y\<rparr>" using q by (auto simp: lf_wakelock_def split: if_splits)
  have after: "\<forall>lf \<in> set nxt. own_before lock lf" using nxt_after [OF wf x(1)] x(3) by auto
  have "valid_range ?y" "\<And>p. own_before p ?y = own_before p x" "own_before ?y = own_before x"
    "in_range y = in_range lock" "lf_id y = lf_id lock"
    by (subst y, use wf x in \<open>simp add: fun_eq_iff own_before_def in_range_def lf_wf_append lf_wf_Cons valid_range_def\<close>)+
  note this [simp]
  have "lf_wf (pre @ ?y # nxt)" using wf lock by (simp add: lf_wf_append lf_wf_Cons)
  moreover have "in_range x = in_range lock" using x by (simp add: fun_eq_iff in_range_def)
  then have "owns (pre @ ?y # nxt) n b t \<longleftrightarrow>
      (if n = lf_id lock \<and> in_range lock b then t = lf_type lock else owns (pre @ x # nxt) n b t)" for n b t
    using owns_before [OF pre] owns_after [OF after] x(1) by auto
  moreover have "stronger ?y x" if "lf_blkhd y \<noteq> []"
    using q that lock by (subst y) (cases "lf_type lock"; auto simp: stronger_def lf_wakelock_def downgrade_def split: if_splits)
  then have "\<exists>z \<in> set (pre @ x # nxt). w \<in> set (lf_blkhd z) \<and> stronger p z"
    if "p \<in> set (pre @ ?y # nxt)" "w \<in> set (lf_blkhd p)" for p w
  proof (cases "p = ?y")
    case True
    then have "lf_blkhd y \<noteq> []" using that(2) by auto
    moreover have "w \<in> set (lf_blkhd x)" using True that(2) q by (auto simp: lf_wakelock_def split: if_splits)
    ultimately show ?thesis using True \<open>lf_blkhd y \<noteq> [] \<Longrightarrow> stronger ?y x\<close> by auto
  next
    case False
    then show ?thesis using that by (intro bexI [of _ p]) auto
  qed
  moreover have "mset (lf_blkhd y) + mset woken = mset (lf_blkhd x)"
    using q by (auto simp: lf_wakelock_def split: if_splits)
  ultimately show ?thesis by (auto simp: granted_def ac_simps)
qed

lemma granted_same_type:
  assumes wf: "lf_wf (pre @ x # nxt)" and x: "lf_id x = lf_id lock" "lf_type x = lf_type lock"
    "lf_start x \<le> lf_start lock" "lf_end lock \<noteq> - 1" "lf_end x = - 1 \<or> lf_end lock \<le> lf_end x"
  shows "granted (pre @ x # nxt) lock \<lparr>out_locks = pre @ x # nxt, out_woken = [], out_freed = fr, out_spare = sp\<rparr>"
proof -
  have "owns (pre @ x # nxt) (lf_id lock) b (lf_type lock)" if "in_range lock b" for b
    using x that by (auto simp: in_range_def)
  then have "owns (pre @ x # nxt) n b t \<longleftrightarrow>
      (if n = lf_id lock \<and> in_range lock b then t = lf_type lock else owns (pre @ x # nxt) n b t)" for n b t
    using owns_unique [OF wf] by metis
  moreover have "\<exists>z \<in> set (pre @ x # nxt). w \<in> set (lf_blkhd z) \<and> stronger p z"
    if "p \<in> set (pre @ x # nxt)" "w \<in> set (lf_blkhd p)" for p w
    using that by (intro bexI [of _ p]) auto
  ultimately show ?thesis using wf by (simp add: granted_def)
qed

lemma granted_blkhd [simp]: "granted lfs (lock\<lparr>lf_blkhd := q\<rparr>) out = granted lfs lock out"
  by (simp add: granted_def)

text \<open>Case 2: the overlap contains the request.\<close>

lemma grant_contains:
  assumes lfs: "lfs = pre @ x # nxt" and wf: "lf_wf (pre @ x # nxt)"
    and pre: "\<forall>p \<in> set pre. own_before p lock" and x: "lf_id x = lf_id lock"
    and lock: "valid_range lock" "lf_type lock \<noteq> F_UNLCK" "lf_blkhd lock = []"
    and sp: "spare \<noteq> None \<or> lf_end lock = - 1"
    and r: "lf_start x \<le> lf_start lock" "lf_end lock \<noteq> - 1" "lf_end x = - 1 \<or> lf_end lock \<le> lf_end x"
      "lf_start x \<noteq> lf_start lock \<or> lf_end x \<noteq> lf_end lock"
  shows "\<exists>out. (if lf_type x = lf_type lock then
       Some \<lparr>out_locks = lfs, out_woken = [], out_freed = [lock], out_spare = spare\<rparr>
     else if lf_start x = lf_start lock then
       (case lf_wakelock (x\<lparr>lf_start := off_t (lf_end lock + 1)\<rparr>) of (overlap, woken) \<Rightarrow>
          Some \<lparr>out_locks = pre @ lock # overlap # nxt, out_woken = woken, out_freed = [], out_spare = spare\<rparr>)
     else case lf_split x lock spare of
       None \<Rightarrow> None
     | Some (before, lock1, after, spare) \<Rightarrow>
         (case lf_wakelock lock1 of (lock1, woken) \<Rightarrow>
            Some \<lparr>out_locks = pre @ before @ lock1 # after @ nxt, out_woken = woken,
                  out_freed = [], out_spare = spare\<rparr>)) = Some out \<and> granted lfs lock out"
proof -
  note valid_range_off_t [OF lock(1), simp]
  note ins = granted_insert [OF wf pre x lock]
  have vx: "valid_range x" using wf by (simp add: lf_wf_append lf_wf_Cons)
  have after: "\<forall>lf \<in> set nxt. own_before lock lf" using nxt_after [OF wf x] r by auto
  let ?p = "x\<lparr>lf_blkhd := [], lf_end := lf_start lock - 1\<rparr>"
  let ?q = "x\<lparr>lf_start := lf_end lock + 1, lf_blkhd := []\<rparr>"
  consider (same) "lf_type x = lf_type lock"
    | (a) "lf_type x \<noteq> lf_type lock" "lf_start x = lf_start lock"
    | (b) "lf_type x \<noteq> lf_type lock" "lf_start x \<noteq> lf_start lock" "lf_end x = lf_end lock"
    | (c) "lf_type x \<noteq> lf_type lock" "lf_start x \<noteq> lf_start lock" "lf_end x \<noteq> lf_end lock" by blast
  then show ?thesis
  proof cases
    case same
    then show ?thesis using granted_same_type [OF wf x same r(1-3)] lfs by simp
  next
    case a
    have "granted (pre @ x # nxt) lock \<lparr>out_locks = pre @ [] @ lock # [?q] @ nxt, out_woken = lf_blkhd x,
        out_freed = [], out_spare = spare\<rparr>"
      using part_after [OF wf _ r(2) _ _ lock(1), unfolded update_comm] after a r lock(1)
      by (intro ins) (auto simp: valid_range_def own_before_def)
    then show ?thesis using lfs a by (simp add: lf_wakelock_def)
  next
    case b
    have "granted (pre @ x # nxt) lock \<lparr>out_locks = pre @ [?p] @ lock # [] @ nxt, out_woken = lf_blkhd x,
        out_freed = [], out_spare = spare\<rparr>"
      using part_before [OF wf _ _ _ lock(1)] after b r lock(1) vx
      by (intro ins) (auto simp: valid_range_def own_before_def)
    then show ?thesis using lfs b by (simp add: lf_wakelock_def lf_split_def update_comm)
  next
    case c
    obtain s1 where s1: "spare = Some s1" using sp r(2) by auto
    have "granted (pre @ x # nxt) lock \<lparr>out_locks = pre @ [?p] @ lock # [?q] @ nxt, out_woken = lf_blkhd x,
        out_freed = [], out_spare = None\<rparr>"
      using parts_around [OF wf _ r(2) _ lock(1)] after c r lock(1) vx
      by (intro ins) (auto simp: valid_range_def own_before_def lf_wf_Cons)
    then show ?thesis using lfs c s1 by (simp add: lf_wakelock_def lf_split_def update_comm)
  qed
qed

lemma grant_spec:
  assumes "lf_wf lfs" "valid_range lock" "lf_type lock \<noteq> F_UNLCK" "lf_blkhd lock = []"
    "spare \<noteq> None \<or> lf_end lock = - 1"
  shows "\<exists>out. lf_grant lfs lock spare = Some out \<and> granted lfs lock out"
  using assms(1,2)
proof (cases rule: find_self_cases)
  case (none pre ov)
  then have "lf_grant lfs lock spare =
      Some \<lparr>out_locks = pre @ lock # ov, out_woken = [], out_freed = [], out_spare = spare\<rparr>"
    by (cases ov) (simp_all add: lf_grant_def)
  then show ?thesis using granted_none [OF assms(1) [unfolded none(2)] none(3,4) assms(2-4)] none(2) by simp
next
  case (some c pre x nxt)
  note wf = assms(1) [unfolded some(2)]
  note ins = granted_insert [OF wf some(3,4) assms(2-4)]
  note valid_range_off_t [OF assms(2), simp]
  note step = lf_grant_def [of lfs lock spare, unfolded some(1), simplified]
  have wn: "lf_wf nxt" using wf by (simp add: lf_wf_append lf_wf_Cons)
  consider
      (1) "c = 1" "lf_start x = lf_start lock" "lf_end x = lf_end lock"
    | (2) "c = 2" "lf_start x \<le> lf_start lock" "lf_end lock \<noteq> - 1" "lf_end x = - 1 \<or> lf_end lock \<le> lf_end x"
        "lf_start x \<noteq> lf_start lock \<or> lf_end x \<noteq> lf_end lock"
    | (3) "c = 3" "lf_start lock \<le> lf_start x" "lf_end lock = - 1 \<or> lf_end x \<noteq> - 1 \<and> lf_end x \<le> lf_end lock"
    | (4) "c = 4" "lf_start x < lf_start lock" "lf_end x = - 1 \<or> lf_start lock \<le> lf_end x"
        "lf_end lock = - 1 \<or> lf_end x \<noteq> - 1 \<and> lf_end x < lf_end lock"
    | (5) "c = 5" "lf_start lock < lf_start x" "lf_end lock \<noteq> - 1" "lf_start x \<le> lf_end lock"
        "lf_end x = - 1 \<or> lf_end lock < lf_end x"
    using lf_case_range [OF some(8) assms(2) some(5)] some(7) by metis
  then show ?thesis
  proof cases
    case 1
    obtain y woken where y: "(y, woken) = (if downgrade lock x then lf_wakelock x else (x, []))" by (metis surj_pair)
    then have "lf_grant lfs lock spare = Some \<lparr>out_locks = pre @ y\<lparr>lf_type := lf_type lock\<rparr> # nxt,
        out_woken = woken, out_freed = [lock], out_spare = spare\<rparr>"
      using 1(1) step by (simp add: y [symmetric])
    then show ?thesis using granted_retype [OF wf some(3,4) 1(2,3) assms(3) y] some(2) by simp
  next
    case 2
    then show ?thesis using grant_contains [OF some(2) wf some(3,4) assms(2-5) 2(2-5)] step by simp
  next
    case 3
    obtain lock1 woken where tq: "take_queue lock x = (lock1, woken)" by fastforce
    note q = take_queue_spec [OF tq assms(3) some(4) 3(2,3)]
    have l1: "valid_range lock1" "lf_type lock1 = lf_type lock" "lf_id lock1 = lf_id lock"
      "lf_start lock1 = lf_start lock" "stronger lock1 = stronger lock" "\<And>p. own_before p lock1 = own_before p lock"
      "in_range lock1 = in_range lock" "granted lfs lock1 = granted lfs lock"
      using assms(2) by (subst q(1), simp add: fun_eq_iff)+
    have "\<forall>y \<in> set nxt. lf_id y = lf_id lock1 \<longrightarrow> lf_start lock1 < lf_start y"
      using wf 3(2) some(4) l1 by (auto simp: lf_wf_append lf_wf_Cons own_before_def valid_range_def)
    then obtain lock' out where r: "lf_set_linked nxt lock1 = Some (lock', out)" "linked nxt lock1 lock' out"
      using set_linked_spec [OF wn l1(1)] l1(2) assms(3) by auto
    have "granted lfs lock1 ((lf_behind (pre @ [] @ [lock']) woken [x] out)\<lparr>out_spare := spare\<rparr>)"
      unfolding some(2) using some(3,4) part_none [OF 3(2,3)] q(2,3) assms(3,4) l1 r(2)
      by (intro granted_linked [OF wf]) auto
    then show ?thesis using 3(1) step tq r(1) l1(8) by simp
  next
    case 4
    let ?p = "x\<lparr>lf_blkhd := [], lf_end := lf_start lock - 1\<rparr>"
    have "\<forall>y \<in> set nxt. lf_id y = lf_id lock \<longrightarrow> lf_start lock < lf_start y"
      using wf 4(3) some(4) by (auto simp: lf_wf_append lf_wf_Cons own_before_def valid_range_def)
    then obtain lock' out where r: "lf_set_linked nxt lock = Some (lock', out)" "linked nxt lock lock' out"
      using set_linked_spec [OF wn assms(2,3)] by auto
    have "granted lfs lock ((lf_behind (pre @ [?p] @ [lock']) (lf_blkhd x) [] out)\<lparr>out_spare := spare\<rparr>)"
      unfolding some(2) using some(3,4) part_before [OF wf 4(2,3) _ assms(2)] 4 assms(2-4) some(8) r(2)
      by (intro granted_linked [OF wf]) (auto simp: own_before_def valid_range_def)
    then show ?thesis using 4(1) step r(1) by (simp add: lf_wakelock_def update_comm)
  next
    case 5
    let ?p = "x\<lparr>lf_blkhd := [], lf_start := lf_end lock + 1\<rparr>"
    have "granted lfs lock \<lparr>out_locks = pre @ [] @ lock # [?p] @ nxt, out_woken = lf_blkhd x,
        out_freed = [], out_spare = spare\<rparr>"
      unfolding some(2) using part_after [OF wf _ 5(3,5,4) assms(2)] nxt_after [OF wf some(4)] 5
      by (intro ins) (auto simp: own_before_def)
    then show ?thesis using 5(1) step by (simp add: lf_wakelock_def update_comm)
  qed
qed

end
