(* ===== verification/Lockf_System.thy ===== *)
theory Lockf_System
  imports Lockf_Grant
begin

text \<open>
  The lock manager as a whole: threads that request locks, sleep, are awakened, are
  interrupted and release ranges, in any order.  The contract of the list operations is the
  locale \<open>lock_manager\<close>, interpreted on the definitions of \<open>Lockf\<close>.
\<close>

section \<open>The contract\<close>

locale lock_manager =
  fixes wf :: "'s \<Rightarrow> bool"
    and holds :: "'s \<Rightarrow> nat \<Rightarrow> int \<Rightarrow> lf_kind \<Rightarrow> bool"
    and conflict :: "'s \<Rightarrow> lockf \<Rightarrow> bool"
    and add :: "'s \<Rightarrow> lockf \<Rightarrow> 's \<Rightarrow> bool"
    and remove :: "'s \<Rightarrow> lockf \<Rightarrow> 's \<Rightarrow> bool"
  assumes add_wf: "wf s \<Longrightarrow> valid_range lock \<Longrightarrow> add s lock s' \<Longrightarrow> wf s'"
    and add_holds: "wf s \<Longrightarrow> valid_range lock \<Longrightarrow> add s lock s' \<Longrightarrow> holds s' n b t \<longleftrightarrow>
      (if n = lf_id lock \<and> in_range lock b then t = lf_type lock else holds s n b t)"
    and remove_wf: "wf s \<Longrightarrow> valid_range lock \<Longrightarrow> remove s lock s' \<Longrightarrow> wf s'"
    and remove_holds: "wf s \<Longrightarrow> valid_range lock \<Longrightarrow> remove s lock s' \<Longrightarrow>
      holds s' n b t \<longleftrightarrow> holds s n b t \<and> \<not> (n = lf_id lock \<and> in_range lock b)"
    and conflict_holds: "wf s \<Longrightarrow> valid_range lock \<Longrightarrow> conflict s lock \<longleftrightarrow>
      (\<exists>n b t. holds s n b t \<and> n \<noteq> lf_id lock \<and> in_range lock b \<and> (t = F_WRLCK \<or> lf_type lock = F_WRLCK))"
begin

text \<open>An exclusive lock on a byte excludes every other owner.\<close>

definition exclusive :: "'s \<Rightarrow> bool" where
  "exclusive s \<longleftrightarrow> (\<forall>n m b t. holds s n b F_WRLCK \<longrightarrow> holds s m b t \<longrightarrow> n = m)"

lemma add_exclusive:
  assumes "wf s" "valid_range lock" "exclusive s" "\<not> conflict s lock" "add s lock s'"
  shows "exclusive s'"
  unfolding exclusive_def
proof (intro allI impI)
  fix n m b t
  assume h: "holds s' n b F_WRLCK" "holds s' m b t"
  have free: "k = lf_id lock" if "holds s k b u" "in_range lock b" "u = F_WRLCK \<or> lf_type lock = F_WRLCK" for k u
    using that conflict_holds [OF assms(1,2)] assms(4) by blast
  show "n = m"
    using h free [of n F_WRLCK] free [of m t] assms(3)
    unfolding add_holds [OF assms(1,2,5)] exclusive_def by (metis (full_types))
qed

lemma remove_exclusive:
  "wf s \<Longrightarrow> valid_range lock \<Longrightarrow> exclusive s \<Longrightarrow> remove s lock s' \<Longrightarrow> exclusive s'"
  unfolding exclusive_def by (simp add: remove_holds) blast

end

definition lf_adds :: "lockf list \<Rightarrow> lockf \<Rightarrow> lockf list \<Rightarrow> bool" where
  "lf_adds lfs lock lfs' \<longleftrightarrow> lf_type lock \<noteq> F_UNLCK \<and> lf_blkhd lock = [] \<and>
     (\<exists>spare out. (spare \<noteq> None \<or> lf_end lock = - 1) \<and> lf_grant lfs lock spare = Some out \<and> out_locks out = lfs')"

definition lf_removes :: "lockf list \<Rightarrow> lockf \<Rightarrow> lockf list \<Rightarrow> bool" where
  "lf_removes lfs lock lfs' \<longleftrightarrow>
     (\<exists>spare out. (spare \<noteq> None \<or> lf_end lock = - 1) \<and> lf_clearlock lfs lock spare = Some out \<and> out_locks out = lfs')"

lemma adds_granted:
  assumes "lf_wf lfs" "valid_range lock" "lf_adds lfs lock lfs'"
  obtains out where "granted lfs lock out" "out_locks out = lfs'"
  using assms grant_spec unfolding lf_adds_def by (metis option.inject)

lemma removes_cleared:
  assumes "lf_wf lfs" "valid_range lock" "lf_removes lfs lock lfs'"
  obtains out where "cleared lfs lock out" "out_locks out = lfs'"
  using assms clearlock_spec unfolding lf_removes_def by (metis option.inject)

lemma getblock_owns:
  assumes "lf_wf lfs" "valid_range lock"
  shows "lf_getblock lfs lock \<noteq> Some None \<longleftrightarrow>
    (\<exists>n b t. owns lfs n b t \<and> n \<noteq> lf_id lock \<and> in_range lock b \<and> (t = F_WRLCK \<or> lf_type lock = F_WRLCK))"
proof -
  have "lf_getblock lfs lock \<noteq> Some None \<longleftrightarrow> (\<exists>lf \<in> set lfs. blocks lf lock)"
    unfolding getblock_find [OF assms] by (auto simp: find_None_iff)
  moreover have "blocks lf lock \<longleftrightarrow> (\<exists>b. in_range lf b \<and> in_range lock b) \<and> lf_id lf \<noteq> lf_id lock \<and>
      (lf_type lf = F_WRLCK \<or> lf_type lock = F_WRLCK)" if "lf \<in> set lfs" for lf
    using apart_iff [of lf lock] that assms unfolding blocks_def lf_wf_def by blast
  ultimately show ?thesis unfolding owns_def by metis
qed

interpretation lfm: lock_manager lf_wf owns "\<lambda>lfs lock. lf_getblock lfs lock \<noteq> Some None" lf_adds lf_removes
proof
  fix lfs lock lfs' n b t
  assume wf: "lf_wf lfs" and v: "valid_range lock"
  show "lf_wf lfs'" if "lf_adds lfs lock lfs'"
    using adds_granted [OF wf v that] unfolding granted_def by metis
  show "owns lfs' n b t \<longleftrightarrow> (if n = lf_id lock \<and> in_range lock b then t = lf_type lock else owns lfs n b t)"
    if "lf_adds lfs lock lfs'"
    using adds_granted [OF wf v that] unfolding granted_def by metis
  show "lf_wf lfs'" if "lf_removes lfs lock lfs'"
    using removes_cleared [OF wf v that] unfolding cleared_def by metis
  show "owns lfs' n b t \<longleftrightarrow> owns lfs n b t \<and> \<not> (n = lf_id lock \<and> in_range lock b)"
    if "lf_removes lfs lock lfs'"
    using removes_cleared [OF wf v that] unfolding cleared_def by metis
  show "lf_getblock lfs lock \<noteq> Some None \<longleftrightarrow>
      (\<exists>n b t. owns lfs n b t \<and> n \<noteq> lf_id lock \<and> in_range lock b \<and> (t = F_WRLCK \<or> lf_type lock = F_WRLCK))"
    by (rule getblock_owns [OF wf v])
qed

section \<open>Threads\<close>

text \<open>\<open>held\<close> is the list of the vnode and \<open>pend\<close> the request a thread is inside \<open>lf_setlock\<close>
  with.  A thread sleeps while it is in the queue of a held lock.\<close>

record lf_sys =
  held :: "lockf list"
  pend :: "nat \<Rightarrow> lockf option"

definition lf_initial :: lf_sys where
  "lf_initial = \<lparr>held = [], pend = (\<lambda>_. None)\<rparr>"

text \<open>What \<open>lf_advlock\<close> passes to \<open>lf_setlock\<close> and \<open>lf_clearlock\<close>: a range and a spare
  lock, unless the range reaches the end of the file, as with \<open>flock\<close>.  A range that ends
  at the largest offset itself is left out: \<open>lf_overflow_breaks_exclusion\<close> shows what the
  code does with it.\<close>

definition request_ok :: "lockf \<Rightarrow> lockf option \<Rightarrow> bool" where
  "request_ok lock spare \<longleftrightarrow> valid_range lock \<and> lf_blkhd lock = [] \<and> (spare \<noteq> None \<or> lf_end lock = - 1) \<and>
     (F_FLOCK (lf_flags lock) \<longrightarrow> lf_end lock = - 1)"

text \<open>Thread \<open>w\<close> is about to run a round of \<open>lf_setlock\<close> for \<open>lock\<close>: it makes a new request
  or it has been awakened.\<close>

definition runs :: "lf_sys \<Rightarrow> nat \<Rightarrow> lockf \<Rightarrow> bool" where
  "runs s w lock \<longleftrightarrow> (pend s w = None \<or> pend s w = Some lock) \<and> w \<notin> set (sleepers (held s))"

text \<open>The steps: a round of \<open>lf_setlock\<close> that grants the lock, sleeps or fails, a return from the
  sleep with an error or without one, and an unlock; \<open>waits\<close> and \<open>maxlockdepth\<close> are what deadlock detection sees at that time.\<close>

inductive lf_step :: "lf_sys \<Rightarrow> lf_sys \<Rightarrow> bool" where
  step_grant: "runs s w lock \<Longrightarrow> request_ok lock spare \<Longrightarrow> lf_type lock \<noteq> F_UNLCK \<Longrightarrow>
    lf_setlock waits maxlockdepth w (held s) lock spare = Granted out \<Longrightarrow>
    lf_step s \<lparr>held = out_locks out, pend = (pend s)(w := None)\<rparr>"
| step_sleep: "runs s w lock \<Longrightarrow> request_ok lock spare \<Longrightarrow> lf_type lock \<noteq> F_UNLCK \<Longrightarrow>
    lf_setlock waits maxlockdepth w (held s) lock spare = Asleep out \<Longrightarrow>
    lf_step s \<lparr>held = out_locks out, pend = (pend s)(w := Some lock)\<rparr>"
| step_fail: "runs s w lock \<Longrightarrow>
    lf_setlock waits maxlockdepth w (held s) lock spare = Failed err \<Longrightarrow>
    lf_step s \<lparr>held = held s, pend = (pend s)(w := None)\<rparr>"
| step_signal: "lf_step s \<lparr>held = lf_dequeue w (held s), pend = (pend s)(w := None)\<rparr>"
| step_resume: "lf_step s \<lparr>held = lf_dequeue w (held s), pend = pend s\<rparr>"
| step_unlock: "request_ok lock spare \<Longrightarrow> lf_clearlock (held s) lock spare = Some out \<Longrightarrow>
    lf_step s \<lparr>held = out_locks out, pend = pend s\<rparr>"

inductive_cases lf_stepE: "lf_step s t"

definition lf_inv :: "lf_sys \<Rightarrow> bool" where
  "lf_inv s \<longleftrightarrow> lf_wf (held s) \<and> lfm.exclusive (held s) \<and> distinct (sleepers (held s)) \<and>
     (\<forall>w lock. pend s w = Some lock \<longrightarrow> valid_range lock) \<and>
     (\<forall>lf \<in> set (held s). \<forall>w \<in> set (lf_blkhd lf). \<exists>lock. pend s w = Some lock \<and> blocks lf lock)"

section \<open>The invariant\<close>

lemma sleepers_submset:
  assumes "mset a + mset c = mset b"
  shows "distinct b \<Longrightarrow> distinct a" "set a \<subseteq> set b"
proof -
  have e: "mset (a @ c) = mset b" using assms by simp
  show "set a \<subseteq> set b" using mset_eq_setD [OF e] by auto
  show "distinct b \<Longrightarrow> distinct a" using mset_eq_imp_distinct_iff [OF e] by simp
qed

lemma same_lock_unique: "lf_wf (xs @ block # ys) \<Longrightarrow> lf \<in> set xs \<union> set ys \<Longrightarrow> \<not> same_lock lf block"
  by (fastforce simp: lf_wf_def sorted_wrt_append same_lock_def own_before_def valid_range_def)

lemma enqueue_split:
  assumes "lf_wf lfs" "block \<in> set lfs"
  obtains xs ys where "lfs = xs @ block # ys"
    "lf_enqueue w block lfs = xs @ block\<lparr>lf_blkhd := lf_blkhd block @ [w]\<rparr> # ys"
proof -
  obtain xs ys where l: "lfs = xs @ block # ys" using assms(2) by (metis split_list)
  have "map (\<lambda>lf. if same_lock lf block then lf\<lparr>lf_blkhd := lf_blkhd lf @ [w]\<rparr> else lf) zs = zs"
    if "set zs \<subseteq> set xs \<union> set ys" for zs
    using that same_lock_unique [of xs block ys] assms(1) l by (intro map_idI) auto
  then have "lf_enqueue w block lfs = xs @ block\<lparr>lf_blkhd := lf_blkhd block @ [w]\<rparr> # ys"
    by (simp add: l lf_enqueue_def same_lock_def [of block block])
  then show ?thesis using that l by blast
qed

lemma owns_blkhd: "owns (xs @ block\<lparr>lf_blkhd := q\<rparr> # ys) = owns (xs @ block # ys)"
  by (auto simp: fun_eq_iff)

lemma wf_blkhd: "lf_wf (xs @ block\<lparr>lf_blkhd := q\<rparr> # ys) = lf_wf (xs @ block # ys)"
  by (simp add: lf_wf_append lf_wf_Cons)

lemma exclusive_cong: "owns a = owns b \<Longrightarrow> lfm.exclusive a = lfm.exclusive b"
  by (simp add: lfm.exclusive_def)

lemma blocks_blkhd [simp]: "blocks (lf\<lparr>lf_blkhd := q\<rparr>) lock = blocks lf lock"
  by (simp add: blocks_def apart_def)

text \<open>The state after the ranges of \<open>out\<close> replace the list, when \<open>w\<close> does not sleep.\<close>

lemma inv_granted:
  assumes inv: "lf_inv s" and w: "w \<notin> set (sleepers (held s))"
    and lock: "valid_range lock" "lf_type lock \<noteq> F_UNLCK" "lf_blkhd lock = []" "spare \<noteq> None \<or> lf_end lock = - 1"
    and free: "lf_getblock (held s) lock = Some None" and out: "lf_grant (held s) lock spare = Some out"
  shows "lf_inv \<lparr>held = out_locks out, pend = (pend s)(w := None)\<rparr>"
proof -
  have wf: "lf_wf (held s)" and ex: "lfm.exclusive (held s)" using inv by (auto simp: lf_inv_def)
  have g: "granted (held s) lock out" using grant_spec [OF wf lock] out by simp
  have "lf_adds (held s) lock (out_locks out)" using lock out by (auto simp: lf_adds_def)
  then have "lfm.exclusive (out_locks out)" using lfm.add_exclusive wf lock(1) ex free by blast
  moreover have m: "mset (sleepers (out_locks out)) + mset (out_woken out) = mset (sleepers (held s))"
    using g by (simp add: granted_def)
  moreover have "\<exists>l. ((pend s)(w := None)) v = Some l \<and> blocks lf l"
    if lf: "lf \<in> set (out_locks out)" "v \<in> set (lf_blkhd lf)" for lf v
  proof -
    obtain y where y: "y \<in> set (held s)" "v \<in> set (lf_blkhd y)" "stronger lf y"
      using g lf unfolding granted_def by blast
    then have "v \<noteq> w" using w by (auto simp: set_sleepers)
    moreover obtain l where "pend s v = Some l" "blocks y l" using y inv unfolding lf_inv_def by blast
    ultimately show ?thesis using stronger_blocks [OF y(3)] by auto
  qed
  ultimately show ?thesis
    using g inv sleepers_submset [OF m] by (auto simp: lf_inv_def granted_def)
qed

lemma inv_cleared:
  assumes inv: "lf_inv s" and w: "w \<notin> set (sleepers (held s))"
    and lock: "valid_range lock" "spare \<noteq> None \<or> lf_end lock = - 1"
    and out: "lf_clearlock (held s) lock spare = Some out" and r: "r = None \<or> r = pend s w"
  shows "lf_inv \<lparr>held = out_locks out, pend = (pend s)(w := r)\<rparr>"
proof -
  have wf: "lf_wf (held s)" and ex: "lfm.exclusive (held s)" using inv by (auto simp: lf_inv_def)
  have c: "cleared (held s) lock out" using clearlock_spec [OF wf lock] out by simp
  have "lf_removes (held s) lock (out_locks out)" using lock out by (auto simp: lf_removes_def)
  then have "lfm.exclusive (out_locks out)" using lfm.remove_exclusive wf lock(1) ex by blast
  moreover have m: "mset (sleepers (out_locks out)) + mset (out_woken out) = mset (sleepers (held s))"
    using c by (simp add: cleared_def)
  moreover have "\<exists>l. ((pend s)(w := r)) v = Some l \<and> blocks lf l"
    if lf: "lf \<in> set (out_locks out)" "v \<in> set (lf_blkhd lf)" for lf v
  proof -
    have y: "lf \<in> set (held s)" using c lf unfolding cleared_def by (metis list.set(1) empty_iff)
    then have "v \<noteq> w" using w lf(2) by (auto simp: set_sleepers)
    then show ?thesis using y lf(2) inv by (auto simp: lf_inv_def)
  qed
  ultimately show ?thesis
    using c inv r sleepers_submset [OF m] by (auto simp: lf_inv_def cleared_def)
qed

lemma inv_enqueue:
  assumes inv: "lf_inv s" and w: "w \<notin> set (sleepers (held s))"
    and block: "block \<in> set (held s)" "blocks block lock" and v: "valid_range lock"
  shows "lf_inv \<lparr>held = lf_enqueue w block (held s), pend = (pend s)(w := Some lock)\<rparr>"
proof -
  have "lf_wf (held s)" using inv by (simp add: lf_inv_def)
  then obtain xs ys where l: "held s = xs @ block # ys"
    "lf_enqueue w block (held s) = xs @ block\<lparr>lf_blkhd := lf_blkhd block @ [w]\<rparr> # ys"
    using block(1) by (rule enqueue_split)
  let ?n = "xs @ block\<lparr>lf_blkhd := lf_blkhd block @ [w]\<rparr> # ys"
  have "lfm.exclusive ?n" using inv exclusive_cong [OF owns_blkhd] l(1)
    by (simp add: lf_inv_def)
  moreover have "distinct (sleepers ?n)" using inv w by (auto simp: lf_inv_def l(1))
  moreover have "\<exists>l. ((pend s)(w := Some lock)) v = Some l \<and> blocks lf l"
    if lf: "lf \<in> set ?n" "v \<in> set (lf_blkhd lf)" for lf v
  proof (cases "v = w")
    case True
    then have "lf = block\<lparr>lf_blkhd := lf_blkhd block @ [w]\<rparr>" using lf w by (auto simp: l(1) set_sleepers)
    then show ?thesis using True block(2) by simp
  next
    case False
    then show ?thesis using lf inv by (auto simp: lf_inv_def l(1))
  qed
  moreover have "lf_wf ?n" using inv by (simp add: lf_inv_def l(1) wf_blkhd)
  moreover have "\<forall>u l. ((pend s)(w := Some lock)) u = Some l \<longrightarrow> valid_range l"
    using inv v by (auto simp: lf_inv_def)
  ultimately show ?thesis unfolding lf_inv_def l(2) lf_sys.simps by blast
qed

lemma sleepers_dequeue: "set (sleepers (lf_dequeue w lfs)) \<subseteq> set (sleepers lfs)"
  by (auto simp: lf_dequeue_def set_sleepers dest: notin_set_remove1 set_mp [OF set_remove1_subset])

lemma inv_dequeue:
  assumes inv: "lf_inv s" and r: "r = None \<or> r = pend s w"
  shows "lf_inv \<lparr>held = lf_dequeue w (held s), pend = (pend s)(w := r)\<rparr>"
proof -
  have "owns (lf_dequeue w (held s)) = owns (held s)" by (auto simp: fun_eq_iff owns_def lf_dequeue_def)
  from exclusive_cong [OF this] have "lfm.exclusive (lf_dequeue w (held s))" using inv by (simp add: lf_inv_def)
  moreover have "lf_wf (lf_dequeue w (held s))"
    using inv by (simp add: lf_inv_def lf_wf_def lf_dequeue_def sorted_wrt_map)
  moreover have "distinct (sleepers (lf_dequeue w lfs)) \<and> w \<notin> set (sleepers (lf_dequeue w lfs))"
    if "distinct (sleepers lfs)" for lfs
    using that
  proof (induction lfs)
    case (Cons lf lfs)
    then show ?case using sleepers_dequeue [of w lfs] by (auto simp: lf_dequeue_def dest: in_set_remove1 set_mp [OF set_remove1_subset])
  qed (simp add: lf_dequeue_def)
  moreover have "\<exists>l. ((pend s)(w := r)) v = Some l \<and> blocks lf l"
    if lf: "lf \<in> set (lf_dequeue w (held s))" "v \<in> set (lf_blkhd lf)" for lf v
  proof -
    have "v \<noteq> w" using calculation(3) [of "held s"] inv lf by (auto simp: lf_inv_def set_sleepers)
    then show ?thesis using lf inv by (auto simp: lf_inv_def lf_dequeue_def dest!: set_mp [OF set_remove1_subset])
  qed
  ultimately show ?thesis using inv r by (auto simp: lf_inv_def)
qed

lemma find_SomeD: "find P xs = Some x \<Longrightarrow> x \<in> set xs \<and> P x"
  by (auto simp: find_Some_iff)

lemma inv_asleep:
  assumes inv: "lf_inv s" and run: "runs s w lock" and req: "request_ok lock spare"
    and out: "lf_setlock waits maxlockdepth w (held s) lock spare = Asleep out"
  shows "lf_inv \<lparr>held = out_locks out, pend = (pend s)(w := Some lock)\<rparr>"
proof -
  have wf: "lf_wf (held s)" and vl: "valid_range lock" using inv req by (auto simp: lf_inv_def request_ok_def)
  obtain block where gb: "lf_getblock (held s) lock = Some (Some block)"
    using out by (auto simp: lf_setlock_def split: option.splits)
  then have block: "block \<in> set (held s)" "blocks block lock"
    using find_SomeD unfolding getblock_find [OF wf vl] by fastforce+
  have w: "w \<notin> set (sleepers (held s))" using run by (simp add: runs_def)
  let ?flock = "F_FLOCK (lf_flags lock) \<and> lf_type lock = F_WRLCK"
  let ?unlock = "lock\<lparr>lf_type := F_UNLCK\<rparr>"
  show ?thesis
  proof (cases ?flock)
    case True
    then obtain o1 where o1: "lf_clearlock (held s) ?unlock None = Some o1"
      "out_locks out = lf_enqueue w block (out_locks o1)"
      using out gb by (auto simp: lf_setlock_def split: option.splits if_splits)
    have v: "valid_range ?unlock" "None \<noteq> None \<or> lf_end ?unlock = - 1"
      using req True by (auto simp: request_ok_def valid_range_def)
    define t where "t = \<lparr>held = out_locks o1, pend = (pend s)(w := None)\<rparr>"
    have "lf_inv t" unfolding t_def using inv_cleared [OF inv w v o1(1)] by simp
    moreover from wf have c: "cleared (held s) ?unlock o1" using clearlock_spec [OF _ v] o1(1) by fastforce
    moreover have "w \<notin> set (sleepers (held t))"
      using c w sleepers_submset(2) [of "sleepers (out_locks o1)" "out_woken o1" "sleepers (held s)"]
      by (auto simp: cleared_def t_def)
    moreover have "block \<in> set (held t)" using c block by (auto simp: cleared_def t_def blocks_def)
    ultimately have "lf_inv \<lparr>held = lf_enqueue w block (held t), pend = (pend t)(w := Some lock)\<rparr>"
      using block(2) vl by (intro inv_enqueue) auto
    then show ?thesis using o1(2) by (simp add: t_def)
  next
    case False
    then have "out_locks out = lf_enqueue w block (held s)"
      using out gb by (auto simp: lf_setlock_def split: option.splits if_splits)
    then show ?thesis using inv_enqueue [OF inv w block vl] by simp
  qed
qed

lemma lf_step_inv: "lf_step s t \<Longrightarrow> lf_inv s \<Longrightarrow> lf_inv t"
proof (induction rule: lf_step.induct)
  case (step_grant s w lock spare waits maxlockdepth out)
  have "lf_getblock (held s) lock = Some None" "lf_grant (held s) lock spare = Some out"
    using step_grant(4) by (auto simp: lf_setlock_def split: option.splits if_splits)
  then show ?case using step_grant
    by (intro inv_granted [of s w lock spare out]) (auto simp: runs_def request_ok_def)
next
  case (step_sleep s w lock spare waits maxlockdepth out)
  then show ?case by (intro inv_asleep) auto
next
  case (step_fail s w lock waits maxlockdepth spare err)
  then show ?case by (fastforce simp: lf_inv_def runs_def set_sleepers)
next
  case (step_signal s w)
  then show ?case using inv_dequeue [of s None w] by simp
next
  case (step_resume s w)
  then show ?case using inv_dequeue [of s "pend s w" w] by simp
next
  case (step_unlock lock spare s out)
  obtain w where w: "w \<notin> set (sleepers (held s))" using ex_new_if_finite [OF infinite_UNIV_nat] by blast
  have "lf_inv \<lparr>held = out_locks out, pend = (pend s)(w := pend s w)\<rparr>"
    using step_unlock by (intro inv_cleared [OF _ w]) (auto simp: request_ok_def)
  then show ?case by simp
qed

lemma lf_reachable_inv: "lf_step\<^sup>*\<^sup>* lf_initial s \<Longrightarrow> lf_inv s"
proof (induction rule: rtranclp_induct)
  case base
  show ?case by (simp add: lf_inv_def lf_initial_def lfm.exclusive_def)
qed (use lf_step_inv in blast)

section \<open>Properties\<close>

text \<open>C2. In every reachable state of the lock manager, whatever requests were granted, slept,
  were awakened, interrupted or released before, a byte that one owner has locked
  exclusively is locked by no other owner.  The ranges locked and unlocked on the way are
  those of \<open>request_ok\<close>: they end below the largest value of \<open>off_t\<close> or reach the end of the
  file, since beyond that bound \<open>lf_end + 1\<close> wraps and the code breaks this very property
  (\<open>lf_overflow_breaks_exclusion\<close>).\<close>

theorem lf_mutual_exclusion:
  assumes "lf_step\<^sup>*\<^sup>* lf_initial s" "owns (held s) n b F_WRLCK" "owns (held s) m b t"
  shows "n = m"
  using lf_reachable_inv [OF assms(1)] assms(2,3) by (auto simp: lf_inv_def lfm.exclusive_def)

text \<open>C3. No wakeup is lost: in every reachable state a request that sleeps is still blocked by
  a held lock, so that a request whose last blocking lock is released, shrunk or downgraded
  has been awakened.  The ranges are bounded as in \<open>lf_mutual_exclusion\<close>: each ends below the
  largest value of \<open>off_t\<close> or reaches the end of the file.\<close>

theorem lf_no_lost_wakeup:
  assumes "lf_step\<^sup>*\<^sup>* lf_initial s" "w \<in> set (sleepers (held s))"
  shows "\<exists>lock block. pend s w = Some lock \<and> lf_getblock (held s) lock = Some (Some block)"
proof -
  have inv: "lf_inv s" using assms(1) by (rule lf_reachable_inv)
  obtain lf where lf: "lf \<in> set (held s)" "w \<in> set (lf_blkhd lf)" using assms(2) by (auto simp: set_sleepers)
  then obtain lock where lock: "pend s w = Some lock" "blocks lf lock"
    using inv unfolding lf_inv_def by blast
  then have "lf_wf (held s)" "valid_range lock" using inv by (auto simp: lf_inv_def)
  moreover have "find (\<lambda>lf. blocks lf lock) (held s) \<noteq> None" using lf(1) lock(2) by (auto simp: find_None_iff)
  ultimately show ?thesis using lock(1) by (auto simp: getblock_find)
qed

text \<open>C13. A request that no lock of another owner blocks is granted at once, without a panic or
  a use of a missing spare lock; afterwards its owner holds the requested type on exactly
  the bytes of the range, its other bytes and all other owners' bytes are unchanged, and
  the list is well formed.  As everywhere, the ranges of the list and of the request end
  below the largest value of \<open>off_t\<close> or reach the end of the file (\<open>valid_range\<close>).\<close>

theorem lf_setlock_grants:
  assumes "lf_wf lfs" "request_ok lock spare" "lf_type lock \<noteq> F_UNLCK"
    "\<not> (\<exists>n b t. owns lfs n b t \<and> n \<noteq> lf_id lock \<and> in_range lock b \<and> (t = F_WRLCK \<or> lf_type lock = F_WRLCK))"
  shows "\<exists>out. lf_setlock waits maxlockdepth w lfs lock spare = Granted out \<and> lf_wf (out_locks out) \<and>
    (\<forall>n b t. owns (out_locks out) n b t =
      (if n = lf_id lock \<and> in_range lock b then t = lf_type lock else owns lfs n b t))"
proof -
  have "lf_getblock lfs lock = Some None"
    using getblock_owns [of lfs lock] assms(1,2,4) by (auto simp: request_ok_def)
  moreover obtain out where "lf_grant lfs lock spare = Some out" "granted lfs lock out"
    using grant_spec [of lfs lock spare] assms by (auto simp: request_ok_def)
  ultimately show ?thesis by (auto simp: lf_setlock_def granted_def)
qed

text \<open>C15. Unlocking a range removes exactly the caller's locks on the bytes of the range: the
  caller keeps what it holds outside, other owners keep everything, and the list stays well
  formed; no panic and no missing spare lock.  The ranges of the list and the range
  unlocked end below the largest value of \<open>off_t\<close> or reach the end of the file.\<close>

theorem lf_clearlock_releases:
  assumes "lf_wf lfs" "request_ok lock spare"
  shows "\<exists>out. lf_clearlock lfs lock spare = Some out \<and> lf_wf (out_locks out) \<and>
    (\<forall>n b t. owns (out_locks out) n b t = (owns lfs n b t \<and> \<not> (n = lf_id lock \<and> in_range lock b)))"
  using clearlock_spec [OF assms(1), of lock spare] assms(2) by (auto simp: request_ok_def cleared_def)

text \<open>\<open>F_GETLK\<close> reports \<open>F_UNLCK\<close> exactly when the request could be granted, and otherwise the
  type, start and owner of a held lock that meets the range and blocks it.\<close>

theorem lf_getlock_reports:
  assumes "lf_wf lfs" "valid_range lock"
  shows "\<exists>fl'. lf_getlock pid_of lfs lock fl = Some fl' \<and>
    (l_type fl' = F_UNLCK \<longleftrightarrow>
      \<not> (\<exists>n b t. owns lfs n b t \<and> n \<noteq> lf_id lock \<and> in_range lock b \<and> (t = F_WRLCK \<or> lf_type lock = F_WRLCK))) \<and>
    (l_type fl' = F_UNLCK \<or>
      (\<exists>lf \<in> set lfs. blocks lf lock \<and> fl' =
        \<lparr>l_start = lf_start lf, l_len = (if lf_end lf = - 1 then 0 else lf_end lf - lf_start lf + 1),
         l_pid = (if F_POSIX (lf_flags lf) then pid_of (lf_id lf) else - 1),
         l_type = lf_type lf, l_whence = SEEK_SET\<rparr>))"
proof (cases "find (\<lambda>lf. blocks lf lock) lfs")
  case None
  then show ?thesis using getblock_owns [OF assms] getblock_find [OF assms] by (simp add: lf_getlock_def)
next
  case (Some lf)
  then have lf: "lf \<in> set lfs" "blocks lf lock" using find_SomeD by fastforce+
  have t: "lf_type lf \<noteq> F_UNLCK" and v: "valid_range lf" using assms(1) lf(1) by (auto simp: lf_wf_def)
  have "off_t (off_t (lf_end lf - lf_start lf) + 1) = lf_end lf - lf_start lf + 1" if "lf_end lf \<noteq> - 1"
    using v that by (simp add: valid_range_def)
  then show ?thesis using getblock_owns [OF assms] getblock_find [OF assms] Some lf t
    by (auto simp: lf_getlock_def intro!: bexI [of _ lf])
qed

section \<open>Deadlock detection\<close>

text \<open>The process reached after following \<open>k\<close> times which process blocks which.\<close>

fun wait_chain :: "(nat \<Rightarrow> lockf option) \<Rightarrow> nat \<Rightarrow> nat \<Rightarrow> nat option" where
  "wait_chain waits p 0 = Some p"
| "wait_chain waits p (Suc k) =
     (case waits p of
        None \<Rightarrow> None
      | Some b \<Rightarrow> if F_POSIX (lf_flags b) then wait_chain waits (lf_id b) k else None)"

lemma lf_follow_chain:
  assumes "i < m"
  shows "lf_follow waits m cur p i \<longleftrightarrow>
    (\<exists>k. 0 < k \<and> k < m - i \<and> wait_chain waits p k = Some cur) \<or> wait_chain waits p (m - Suc i) \<noteq> None"
  using assms
proof (induction "m - i" arbitrary: p i)
  case (Suc n)
  show ?case
  proof (cases "m = Suc i")
    case True
    have "lf_follow waits m cur q m" for q by (simp add: lf_follow.simps [of waits m cur q m])
    then have "lf_follow waits m cur p i"
      using Suc(3) True by (subst lf_follow.simps) (auto split: option.split)
    then show ?thesis using True by simp
  next
    case False
    then have i: "Suc i < m" using Suc(3) by simp
    obtain d where d: "m - Suc i = Suc d" using i by (metis Suc_diff_Suc)
    have IH: "lf_follow waits m cur q (Suc i) \<longleftrightarrow>
        (\<exists>k. 0 < k \<and> k < Suc d \<and> wait_chain waits q k = Some cur) \<or> wait_chain waits q d \<noteq> None" for q
    proof -
      have "n = m - Suc i" "m - Suc (Suc i) = d" using Suc(2) i d by auto
      then show ?thesis using Suc(1) [of "Suc i" q] i d by simp
    qed
    have ex: "(\<exists>k. 0 < k \<and> k < m - i \<and> wait_chain waits p k = Some cur) \<longleftrightarrow>
        (\<exists>k. k < Suc d \<and> wait_chain waits p (Suc k) = Some cur)"
    proof -
      have "m - i = Suc (Suc d)" using d i by simp
      then show ?thesis by (metis Suc_less_eq gr0_conv_Suc zero_less_Suc)
    qed
    show ?thesis
    proof (cases "waits p")
      case None
      then show ?thesis using i d ex by (simp add: lf_follow.simps [of waits m cur p i])
    next
      case (Some b)
      have z: "(\<exists>k < Suc d. wait_chain waits q k = Some cur) \<longleftrightarrow>
          q = cur \<or> (\<exists>k. 0 < k \<and> k < Suc d \<and> wait_chain waits q k = Some cur)" for q
        by (metis gr0I option.inject wait_chain.simps(1) zero_less_Suc)
      show ?thesis using Some i d unfolding ex
        by (auto simp: lf_follow.simps [of waits m cur p i] IH z)
    qed
  qed
qed simp

text \<open>C35. Deadlock detection, exactly: with a depth limit of \<open>m\<close> the search from the owner of the
  blocking lock reports a deadlock if and only if it comes back to the caller within
  \<open>m - 1\<close> hops or the chain of waiting processes has at least \<open>m - 1\<close> hops.  In particular
  every cycle of fewer than \<open>m\<close> hops through the caller is found, and a chain that ends
  within fewer than \<open>m - 1\<close> hops elsewhere is never taken for a deadlock.\<close>

theorem lf_deadlock_exact:
  assumes "0 < m"
  shows "lf_follow waits m cur p 0 \<longleftrightarrow>
    (\<exists>k. 0 < k \<and> k < m \<and> wait_chain waits p k = Some cur) \<or> wait_chain waits p (m - 1) \<noteq> None"
  using lf_follow_chain [OF assms, of waits cur p] by simp

section \<open>The operation as a whole\<close>

text \<open>The sums by which \<open>lf_advlock\<close> computes the range stay inside \<open>off_t\<close>, and the range ends
  below its largest value.\<close>

definition range_fits :: "flock \<Rightarrow> int \<Rightarrow> bool" where
  "range_fits fl sz \<longleftrightarrow>
     (let start = (if l_whence fl = SEEK_END then sz + l_start fl else l_start fl)
      in OFF_MIN < start \<and> start \<le> OFF_MAX \<and> OFF_MIN \<le> start + l_len fl \<and> start + l_len fl \<le> OFF_MAX)"

lemma lf_range_valid:
  "lf_range fl sz = Some (s, e) \<Longrightarrow> range_fits fl sz \<Longrightarrow>
     0 \<le> s \<and> s \<le> OFF_MAX \<and> (e = - 1 \<or> s \<le> e \<and> e < OFF_MAX)"
  by (auto simp: lf_range_def range_fits_def Let_def split: lf_whence.splits if_splits)

lemma lf_alloc_zero: "\<exists>lock cnt'. lf_alloc m uid 0 cnt = (Some lock, cnt')"
  by (simp add: lf_alloc_def)

lemma lf_adv_alloc_spare:
  "lf_adv_alloc maxlocks ap s e cnt = (spare, lock, cnt') \<Longrightarrow> a_op ap \<noteq> F_GETLK \<Longrightarrow>
    \<not> F_FLOCK (a_flags ap) \<Longrightarrow> spare \<noteq> None"
  using lf_alloc_zero [of maxlocks "a_uid ap" cnt]
  by (auto simp: lf_adv_alloc_def Let_def split: prod.splits)

lemma enqueue_wf [simp]: "lf_wf (lf_enqueue w block lfs) = lf_wf lfs"
proof -
  have "own_before (if P then a\<lparr>lf_blkhd := q\<rparr> else a) (if R then b\<lparr>lf_blkhd := r\<rparr> else b) = own_before a b" for P R a b q r
    by simp
  moreover have "valid_range (if P then a\<lparr>lf_blkhd := q\<rparr> else a) = valid_range a"
      "lf_type (if P then a\<lparr>lf_blkhd := q\<rparr> else a) = lf_type a" for P a q
    by simp_all
  ultimately show ?thesis by (simp add: lf_wf_def lf_enqueue_def sorted_wrt_map del: if_image_distrib)
qed

lemma lf_setlock_wf:
  assumes "lf_wf lfs" "request_ok lock spare" "lf_type lock \<noteq> F_UNLCK"
  shows "lf_setlock waits m w lfs lock spare \<noteq> Panic \<and>
    (\<forall>out. lf_setlock waits m w lfs lock spare = Granted out \<or> lf_setlock waits m w lfs lock spare = Asleep out
      \<longrightarrow> lf_wf (out_locks out))"
proof (cases "find (\<lambda>lf. blocks lf lock) lfs")
  case None
  moreover have "lf_getblock lfs lock = Some (find (\<lambda>lf. blocks lf lock) lfs)"
    using assms(1,2) by (intro getblock_find) (auto simp: request_ok_def)
  ultimately show ?thesis using grant_spec [OF assms(1), of lock spare] assms(2,3)
    by (auto simp: lf_setlock_def request_ok_def granted_def)
next
  case (Some block)
  have "F_FLOCK (lf_flags lock) \<Longrightarrow>
      \<exists>out. lf_clearlock lfs (lock\<lparr>lf_type := F_UNLCK\<rparr>) None = Some out \<and> lf_wf (out_locks out)"
    using clearlock_spec [OF assms(1), of "lock\<lparr>lf_type := F_UNLCK\<rparr>" None] assms(2)
    by (auto simp: request_ok_def valid_range_def cleared_def)
  moreover have "lf_getblock lfs lock = Some (find (\<lambda>lf. blocks lf lock) lfs)"
    using assms(1,2) by (intro getblock_find) (auto simp: request_ok_def)
  ultimately show ?thesis using Some assms(1) by (auto simp: lf_setlock_def)
qed

text \<open>What \<open>lf_advlock\<close> does with a request to set or clear a lock once it has the lock.\<close>

lemma lf_advlock_request:
  assumes "lf_range fl sz = Some (s, e)" "lf_adv_alloc maxlocks ap s e (ui_lockcnt st) = (spare, Some l0, cnt)"
    "\<not> (a_op ap = OP_BAD \<or> lf_head st = [] \<and> a_op ap \<noteq> F_SETLK \<or> a_op ap = F_GETLK)"
  defines "lock \<equiv> l0\<lparr>lf_start := s, lf_end := e, lf_type := l_type fl, lf_blkhd := [], lf_flags := a_flags ap, lf_id := a_id ap\<rparr>"
  shows "lf_advlock waits maxlockdepth maxlocks pid_of ap fl sz st =
      (case a_op ap of
        F_SETLK \<Rightarrow>
          (case lf_setlock waits maxlockdepth (a_req ap) (lf_head st) lock spare of
             Granted out \<Rightarrow> lf_finish out None cnt fl
           | Failed err \<Rightarrow> lf_done (st\<lparr>ui_lockcnt := lf_free_opt spare (lf_free lock cnt)\<rparr>) err fl
           | Asleep out \<Rightarrow>
               \<lparr>call_state = \<lparr>lf_head = out_locks out, ui_lockcnt = fold lf_free (out_freed out) cnt\<rparr>,
                call_ret = Sleeping lock (out_spare out), call_woken = out_woken out, call_fl = fl\<rparr>
           | Panic \<Rightarrow> \<lparr>call_state = st, call_ret = Panicked, call_woken = [], call_fl = fl\<rparr>)
      | _ \<Rightarrow>
          (case lf_clearlock (lf_head st) lock spare of
             None \<Rightarrow> \<lparr>call_state = st, call_ret = Panicked, call_woken = [], call_fl = fl\<rparr>
           | Some out \<Rightarrow> lf_finish out (Some lock) cnt fl))"
  using assms(1-3) unfolding lf_advlock_def lock_def Let_def by (cases "a_op ap") auto

text \<open>C34. \<open>lf_advlock\<close> never panics on a well-formed list: for every operation, owner and
  limits it returns or sleeps, and it leaves the list well formed.  The call is one its
  callers make: \<open>F_SETLK\<close> comes with \<open>F_RDLCK\<close> or \<open>F_WRLCK\<close> (an unlock has the operation
  \<open>F_UNLCK\<close> and any type), a \<open>flock\<close> call has length 0, and the sums that give the range stay
  inside \<open>off_t\<close> with the end below its largest value (\<open>range_fits\<close>).\<close>

theorem lf_advlock_no_panic:
  assumes wf: "lf_wf (lf_head st)" and flock: "F_FLOCK (a_flags ap) \<longrightarrow> l_len fl = 0"
    and ty: "a_op ap = F_SETLK \<longrightarrow> l_type fl \<noteq> F_UNLCK" and fits: "range_fits fl sz"
  shows "call_ret (lf_advlock waits maxlockdepth maxlocks pid_of ap fl sz st) \<noteq> Panicked \<and>
    lf_wf (lf_head (call_state (lf_advlock waits maxlockdepth maxlocks pid_of ap fl sz st)))"
proof (cases "lf_range fl sz")
  case None
  then show ?thesis using wf by (simp add: lf_advlock_def lf_done_def)
next
  case (Some se)
  obtain s e where se: "se = (s, e)" by fastforce
  obtain spare lk cnt where al: "lf_adv_alloc maxlocks ap s e (ui_lockcnt st) = (spare, lk, cnt)" by (metis prod_cases3)
  show ?thesis
  proof (cases "a_op ap = OP_BAD \<or> lk = None \<or> lf_head st = [] \<and> a_op ap \<noteq> F_SETLK \<or> a_op ap = F_GETLK")
    case True
    have "lf_getlock pid_of (lf_head st) (l0\<lparr>lf_start := s, lf_end := e, lf_type := l_type fl, lf_blkhd := [],
        lf_flags := a_flags ap, lf_id := a_id ap\<rparr>) fl \<noteq> None" (is "?get l0 \<noteq> None") for l0
      using lf_range_valid [OF Some [unfolded se] fits] wf
      by (simp add: lf_getlock_def getblock_find valid_range_def)
    then obtain fl' where "?get (the lk) = Some fl'" by blast
    with True show ?thesis using wf Some se al
      by (cases lk) (auto simp: lf_advlock_def lf_done_def Let_def split: lf_op.splits)
  next
    case False
    then obtain l0 where l0: "lk = Some l0" by auto
    define lock where "lock = l0\<lparr>lf_start := s, lf_end := e, lf_type := l_type fl, lf_blkhd := [],
      lf_flags := a_flags ap, lf_id := a_id ap\<rparr>"
    have "e = - 1" if "F_FLOCK (a_flags ap)"
      using Some se flock that by (auto simp: lf_range_def Let_def split: lf_whence.splits if_splits)
    then have req: "request_ok lock spare"
      using lf_range_valid [OF Some [unfolded se] fits] lf_adv_alloc_spare [OF al] False
      by (auto simp: request_ok_def lock_def valid_range_def)
    note eq = lf_advlock_request [OF Some [unfolded se] al [unfolded l0], of waits maxlockdepth pid_of, folded lock_def]
    show ?thesis
    proof (cases "a_op ap = F_SETLK")
      case True
      then show ?thesis using lf_setlock_wf [OF wf req] ty eq wf False
        by (auto simp: lf_finish_def lf_done_def lock_def split: lf_round.splits)
    next
      case F: False
      then show ?thesis using clearlock_spec [OF wf, of lock spare] req eq False
        by (cases "a_op ap") (auto simp: lf_finish_def request_ok_def cleared_def)
    qed
  qed
qed

section \<open>Two defects\<close>

definition posix_flags :: lf_flagset where
  "posix_flags = \<lparr>F_WAIT = False, F_FLOCK = False, F_POSIX = True\<rparr>"

definition fl_set :: "int \<Rightarrow> int \<Rightarrow> lf_kind \<Rightarrow> flock" where
  "fl_set start len t = \<lparr>l_start = start, l_len = len, l_pid = 0, l_type = t, l_whence = SEEK_SET\<rparr>"

text \<open>A call of the process \<open>n\<close> with the effective user \<open>uid\<close>.\<close>

definition posix_call :: "lf_op \<Rightarrow> nat \<Rightarrow> nat \<Rightarrow> int \<Rightarrow> int \<Rightarrow> lf_kind \<Rightarrow> lf_state \<Rightarrow> lf_state" where
  "posix_call op n uid start len t st = call_state (lf_advlock (\<lambda>_. None) 50 1024 int
     \<lparr>a_op = op, a_flags = posix_flags, a_id = n, a_uid = uid, a_req = n\<rparr> (fl_set start len t) 0 st)"

definition no_locks :: lf_state where
  "no_locks = \<lparr>lf_head = [], ui_lockcnt = (\<lambda>_. 0)\<rparr>"

lemmas lf_call_simps = posix_call_def posix_flags_def fl_set_def no_locks_def lf_advlock_def lf_range_def
  lf_adv_alloc_def lf_alloc_def blank_lock_def lf_setlock_def lf_getblock.simps lf_grant_def lf_case_def
  lf_clearlock.simps lf_split_def lf_wakelock_def lf_finish_def lf_free_opt_def lf_free_def lf_behind_def
  lf_done_def Let_def

definition split_as_other :: "lf_state \<Rightarrow> lf_state" where
  "split_as_other st = posix_call OP_UNLCK 7 2 0 0 F_UNLCK
     (posix_call OP_UNLCK 7 2 10 10 F_UNLCK (posix_call F_SETLK 7 1 0 100 F_WRLCK st))"

text \<open>The lock counters drift when the effective user changes.  A process that locks 100 bytes
  as user 1, unlocks ten of them in the middle as user 2 and then unlocks the rest holds no
  lock; doing so three times leaves three locks charged to user 2 and the unsigned counter of
  user 1 three below zero, so that user 1 is refused every further lock.\<close>

theorem lf_lockcnt_drifts:
  "let st = split_as_other (split_as_other (split_as_other no_locks))
   in lf_head st = [] \<and> ui_lockcnt st 2 = 3 \<and> ui_lockcnt st 1 = - 3 \<and>
      call_ret (lf_advlock (\<lambda>_. None) 50 1024 int
        \<lparr>a_op = F_SETLK, a_flags = posix_flags, a_id = 8, a_uid = 1, a_req = 8\<rparr> (fl_set 0 1 F_RDLCK) 0 st)
      = Return ENOMEM"
  by (simp add: split_as_other_def lf_call_simps)

text \<open>C33. The sum \<open>lf_end + 1\<close> leaves the range of \<open>off_t\<close>, and exclusion is lost.  Process 1 locks
  exclusively from byte \<open>a\<close> to the end of the file, process 2 the bytes 0 to \<open>b\<close> before it;
  when process 1 then unlocks the bytes from \<open>c\<close> to the largest offset, a request whose
  fields are all representable, the tail of its lock starts at \<open>lf_end + 1\<close>, the smallest
  \<open>off_t\<close>, and both processes hold the bytes 0 to \<open>b\<close> exclusively.\<close>

theorem lf_overflow_breaks_exclusion:
  assumes "0 \<le> b" "b < a" "a < c" "c \<le> OFF_MAX" "0 \<le> i" "i \<le> b"
  defines "st \<equiv> posix_call OP_UNLCK 1 0 c (OFF_MAX - c + 1) F_UNLCK
      (posix_call F_SETLK 2 0 0 (b + 1) F_WRLCK (posix_call F_SETLK 1 0 a 0 F_WRLCK no_locks))"
  shows "owns (lf_head st) 1 i F_WRLCK \<and> owns (lf_head st) 2 i F_WRLCK"
proof -
  let ?f = posix_flags
  define la where "la = (blank_lock 0)\<lparr>lf_start := a, lf_end := - 1, lf_type := F_WRLCK, lf_flags := ?f, lf_id := 1\<rparr>"
  define lb where "lb = (blank_lock 0)\<lparr>lf_start := 0, lf_end := b, lf_type := F_WRLCK, lf_flags := ?f, lf_id := 2\<rparr>"
  have "off_t (off_t (b + 1) - 1) = b" using assms by simp
  then have 1: "lf_head (posix_call F_SETLK 2 0 0 (b + 1) F_WRLCK (posix_call F_SETLK 1 0 a 0 F_WRLCK no_locks)) = [la, lb]"
    using assms by (simp add: lf_call_simps la_def lb_def)
  have "off_t (off_t (c + (OFF_MAX - c + 1)) - 1) = OFF_MAX" by (simp add: off_t_def)
  then have "lf_head (posix_call OP_UNLCK 1 0 c (OFF_MAX - c + 1) F_UNLCK s) =
      [la\<lparr>lf_end := c - 1\<rparr>, la\<lparr>lf_start := OFF_MIN\<rparr>, lb]" if "lf_head s = [la, lb]" for s
    using assms that by (simp add: lf_call_simps la_def lb_def)
  then show ?thesis using 1 assms unfolding st_def by (simp add: la_def lb_def in_range_def)
qed

section \<open>Witnesses\<close>

definition sample_lock :: "nat \<Rightarrow> int \<Rightarrow> int \<Rightarrow> lf_kind \<Rightarrow> nat list \<Rightarrow> lockf" where
  "sample_lock n s e t q = \<lparr>lf_flags = \<lparr>F_WAIT = True, F_FLOCK = False, F_POSIX = True\<rparr>, lf_type = t,
     lf_start = s, lf_end = e, lf_id = n, lf_blkhd = q, lf_uid = 0\<rparr>"

text \<open>Owner 1 holds bytes 0 to 9 exclusively and owner 2 sleeps for bytes 5 to 20.\<close>

definition sample_sys :: lf_sys where
  "sample_sys = \<lparr>held = [sample_lock 1 0 9 F_WRLCK [2]], pend = (\<lambda>_. None)(2 := Some (sample_lock 2 5 20 F_WRLCK []))\<rparr>"

lemma sample_sys_reachable: "lf_step\<^sup>*\<^sup>* lf_initial sample_sys"
proof -
  let ?a = "sample_lock 1 0 9 F_WRLCK []" and ?b = "sample_lock 2 5 20 F_WRLCK []"
  let ?mid = "\<lparr>held = [?a], pend = (\<lambda>_. None)\<rparr>"
  have 1: "lf_setlock (\<lambda>_. None) 50 1 [] ?a (Some ?a) =
      Granted \<lparr>out_locks = [?a], out_woken = [], out_freed = [], out_spare = Some ?a\<rparr>"
    by (simp add: lf_call_simps)
  have ok: "request_ok ?a (Some ?a)" "request_ok ?b (Some ?a)" "lf_type ?a \<noteq> F_UNLCK" "lf_type ?b \<noteq> F_UNLCK"
    by (simp_all add: request_ok_def valid_range_def sample_lock_def)
  have "lf_step lf_initial ?mid"
    using step_grant [of lf_initial 1 ?a "Some ?a" "\<lambda>_. None" 50] 1 ok
    by (simp add: runs_def lf_initial_def)
  moreover have "lf_setlock (\<lambda>_. None) 50 2 [?a] ?b (Some ?a) =
      Asleep \<lparr>out_locks = [sample_lock 1 0 9 F_WRLCK [2]], out_woken = [], out_freed = [], out_spare = Some ?a\<rparr>"
    by (simp add: lf_call_simps sample_lock_def lf_follow.simps lf_enqueue_def same_lock_def)
  then have "lf_step ?mid sample_sys"
    using step_sleep [of ?mid 2 ?b "Some ?a" "\<lambda>_. None" 50] ok
    by (simp add: runs_def sample_sys_def sample_lock_def)
  ultimately show ?thesis by (meson rtranclp.rtrancl_into_rtrancl rtranclp.rtrancl_refl)
qed

theorem lf_mutual_exclusion_witness: "owns (held sample_sys) 1 3 F_WRLCK \<and> \<not> owns (held sample_sys) 2 3 F_RDLCK"
proof
  show w: "owns (held sample_sys) 1 3 F_WRLCK" by (simp add: sample_sys_def sample_lock_def in_range_def)
  show "\<not> owns (held sample_sys) 2 3 F_RDLCK"
    using lf_mutual_exclusion [OF sample_sys_reachable w, of 2 F_RDLCK] by auto
qed

theorem lf_no_lost_wakeup_witness:
  "\<exists>lock block. pend sample_sys 2 = Some lock \<and> lf_getblock (held sample_sys) lock = Some (Some block)"
  using lf_no_lost_wakeup [OF sample_sys_reachable, of 2] by (simp add: sample_sys_def sample_lock_def)

theorem lf_setlock_grants_witness:
  "\<exists>out. lf_setlock (\<lambda>_. None) 50 2 [sample_lock 1 0 9 F_WRLCK []] (sample_lock 2 10 20 F_WRLCK []) (Some (blank_lock 0))
      = Granted out \<and> owns (out_locks out) 2 15 F_WRLCK"
  using lf_setlock_grants [of "[sample_lock 1 0 9 F_WRLCK []]" "sample_lock 2 10 20 F_WRLCK []" "Some (blank_lock 0)"
      "\<lambda>_. None" 50 2]
  by (auto simp: lf_wf_Cons request_ok_def valid_range_def sample_lock_def in_range_def)

theorem lf_clearlock_releases_witness:
  "\<exists>out. lf_clearlock [sample_lock 1 0 9 F_WRLCK [2]] (sample_lock 1 3 5 F_UNLCK []) (Some (blank_lock 0)) = Some out \<and>
     \<not> owns (out_locks out) 1 4 F_WRLCK \<and> owns (out_locks out) 1 7 F_WRLCK"
  using lf_clearlock_releases [of "[sample_lock 1 0 9 F_WRLCK [2]]" "sample_lock 1 3 5 F_UNLCK []" "Some (blank_lock 0)"]
  by (auto simp: lf_wf_Cons request_ok_def valid_range_def sample_lock_def in_range_def)

theorem lf_getlock_reports_witness:
  "\<exists>fl. lf_getlock int [sample_lock 1 0 9 F_WRLCK []] (sample_lock 2 5 6 F_RDLCK []) (fl_set 5 2 F_RDLCK) = Some fl \<and>
     l_type fl \<noteq> F_UNLCK"
proof -
  have "owns [sample_lock 1 0 9 F_WRLCK []] 1 5 F_WRLCK" by (simp add: sample_lock_def in_range_def)
  moreover have "in_range (sample_lock 2 5 6 F_RDLCK []) 5" "lf_id (sample_lock 2 5 6 F_RDLCK []) = 2"
    by (simp_all add: sample_lock_def in_range_def)
  moreover have "lf_wf [sample_lock 1 0 9 F_WRLCK []]" "valid_range (sample_lock 2 5 6 F_RDLCK [])"
    by (simp_all add: lf_wf_Cons valid_range_def sample_lock_def)
  ultimately show ?thesis
    using lf_getlock_reports [of "[sample_lock 1 0 9 F_WRLCK []]" "sample_lock 2 5 6 F_RDLCK []" int "fl_set 5 2 F_RDLCK"]
    by (metis n_not_Suc_n numeral_1_eq_Suc_0 numeral_2_eq_2 numeral_One)
qed

theorem lf_deadlock_exact_witness:
  "\<not> lf_follow (\<lambda>p. if p = 3 then Some (sample_lock 4 0 9 F_WRLCK []) else None) 3 5 3 0"
proof -
  let ?w = "\<lambda>p. if p = 3 then Some (sample_lock 4 0 9 F_WRLCK []) else None"
  have c: "wait_chain ?w 3 (Suc 0) = Some 4" "wait_chain ?w 3 (Suc (Suc 0)) = None"
    by (simp_all add: sample_lock_def)
  have "wait_chain ?w 3 k \<noteq> Some 5" if "0 < k" "k < 3" for k
    using that c by (cases "k = 1") (auto simp: less_Suc_eq numeral_3_eq_3)
  then show ?thesis using lf_deadlock_exact [of 3 ?w 5 3] c(2) by (auto simp: numeral_2_eq_2)
qed

theorem lf_advlock_no_panic_witness:
  "call_ret (lf_advlock (\<lambda>_. None) 50 1024 int \<lparr>a_op = OP_UNLCK, a_flags = posix_flags, a_id = 1, a_uid = 0, a_req = 1\<rparr>
     (fl_set 3 2 F_UNLCK) 0 \<lparr>lf_head = [sample_lock 1 0 9 F_WRLCK []], ui_lockcnt = (\<lambda>_. 1)\<rparr>) \<noteq> Panicked"
  using lf_advlock_no_panic [of "\<lparr>lf_head = [sample_lock 1 0 9 F_WRLCK []], ui_lockcnt = (\<lambda>_. 1)\<rparr>"
      "\<lparr>a_op = OP_UNLCK, a_flags = posix_flags, a_id = 1, a_uid = 0, a_req = 1\<rparr>" "fl_set 3 2 F_UNLCK" 0 "\<lambda>_. None" 50 1024 int]
  by (simp add: posix_flags_def fl_set_def lf_wf_Cons valid_range_def sample_lock_def range_fits_def)

theorem lf_overflow_breaks_exclusion_witness:
  "owns (lf_head (posix_call OP_UNLCK 1 0 150 (OFF_MAX - 150 + 1) F_UNLCK
     (posix_call F_SETLK 2 0 0 (50 + 1) F_WRLCK (posix_call F_SETLK 1 0 100 0 F_WRLCK no_locks)))) 2 20 F_WRLCK"
  using lf_overflow_breaks_exclusion [of 50 100 150 20] by simp

end
