(* ===== verification/Bufq.thy ===== *)
theory Bufq
  imports Kernel_Prelude "HOL-Library.Multiset"
begin

text \<open>
  Queues of disk requests: the framework \<^verbatim>\<open>sys/kern/subr_bufq.c\<close> with
  \<^verbatim>\<open>sys/sys/bufq_impl.h\<close>, and the four strategies \<^verbatim>\<open>bufq_fcfs.c\<close>,
  \<^verbatim>\<open>bufq_disksort.c\<close>, \<^verbatim>\<open>bufq_readprio.c\<close> and \<^verbatim>\<open>bufq_priocscan.c\<close>.

  A buffer is the record of the fields the queues look at; \<open>b_addr\<close> is its address, and two
  pointers are equal when the records are.  A tail queue is a list.  The red-black tree of
  \<open>priocscan\<close> is the list of its nodes in order.  \<open>get\<close> has the flag \<open>remove\<close> of the code
  and returns the new private data with the buffer or \<open>None\<close> for a null pointer.
\<close>

datatype buf_prio = BPRIO_TIMECRITICAL | BPRIO_TIMELIMITED | BPRIO_TIMENONCRITICAL

record buf =
  b_addr :: nat
  b_rawblkno :: int
  b_cylinder :: int
  b_read :: bool
  b_prio :: buf_prio
  b_bcount :: int

datatype bufq_sort = BUFQ_SORT_RAWBLOCK | BUFQ_SORT_CYLINDER

text \<open>\<open>buf_inorder\<close> on two buffers, and on pointers that may be null.\<close>

definition inorder :: "bufq_sort \<Rightarrow> buf \<Rightarrow> buf \<Rightarrow> bool" where
  "inorder sortby bp bq =
     (if sortby = BUFQ_SORT_CYLINDER then
        (if b_cylinder bp \<noteq> b_cylinder bq then b_cylinder bp < b_cylinder bq
         else b_rawblkno bp < b_rawblkno bq)
      else b_rawblkno bp < b_rawblkno bq)"

definition buf_inorder :: "buf option \<Rightarrow> buf option \<Rightarrow> bufq_sort \<Rightarrow> bool" where
  "buf_inorder bp bq sortby =
     (case (bp, bq) of
        (Some bp, Some bq) \<Rightarrow> inorder sortby bp bq
      | _ \<Rightarrow> bq = None)"

section \<open>The framework\<close>

record 's bufq_state =
  bq_put :: "'s \<Rightarrow> buf \<Rightarrow> 's"
  bq_get :: "'s \<Rightarrow> bool \<Rightarrow> 's \<times> buf option"
  bq_cancel :: "'s \<Rightarrow> buf \<Rightarrow> 's \<times> buf option"
  bq_private :: 's

definition bufq_put :: "'s bufq_state \<Rightarrow> buf \<Rightarrow> 's bufq_state" where
  "bufq_put bufq bp = bufq\<lparr>bq_private := bq_put bufq (bq_private bufq) bp\<rparr>"

definition bufq_get :: "'s bufq_state \<Rightarrow> 's bufq_state \<times> buf option" where
  "bufq_get bufq = (case bq_get bufq (bq_private bufq) True of (s, bp) \<Rightarrow> (bufq\<lparr>bq_private := s\<rparr>, bp))"

definition bufq_peek :: "'s bufq_state \<Rightarrow> 's bufq_state \<times> buf option" where
  "bufq_peek bufq = (case bq_get bufq (bq_private bufq) False of (s, bp) \<Rightarrow> (bufq\<lparr>bq_private := s\<rparr>, bp))"

definition bufq_cancel :: "'s bufq_state \<Rightarrow> buf \<Rightarrow> 's bufq_state \<times> buf option" where
  "bufq_cancel bufq bp = (case bq_cancel bufq (bq_private bufq) bp of (s, bp) \<Rightarrow> (bufq\<lparr>bq_private := s\<rparr>, bp))"

text \<open>\<open>bufq_drain\<close>: the requests completed with \<open>EIO\<close>, in order.  \<open>bufq_move\<close> returns the
  destination and the source.\<close>

partial_function (option) bufq_drain :: "'s bufq_state \<Rightarrow> ('s bufq_state \<times> buf list) option" where
  "bufq_drain bufq =
     (case bufq_get bufq of
        (bufq, None) \<Rightarrow> Some (bufq, [])
      | (bufq, Some bp) \<Rightarrow> do { (bufq, bps) \<leftarrow> bufq_drain bufq; Some (bufq, bp # bps) })"

partial_function (option) bufq_move ::
    "'d bufq_state \<Rightarrow> 's bufq_state \<Rightarrow> ('d bufq_state \<times> 's bufq_state) option" where
  "bufq_move dst src =
     (case bufq_get src of
        (src, None) \<Rightarrow> Some (dst, src)
      | (src, Some bp) \<Rightarrow> bufq_move (bufq_put dst bp) src)"

text \<open>Selection of a strategy by name and priority.  \<open>None\<close> for \<open>strategy\<close> is
  \<open>BUFQ_STRAT_ANY\<close>; the result is \<open>Inl\<close> an error number or \<open>Inr\<close> the strategy and the flags its
  \<open>bs_initfn\<close> finds in the queue, and \<open>None\<close> a panic.  The entry \<open>dummy\<close> only keeps the table
  from being empty.\<close>

record bufq_strat =
  bs_name :: string
  bs_prio :: int

fun select_strat :: "string option \<Rightarrow> bufq_strat list \<Rightarrow> bufq_strat option \<Rightarrow> bufq_strat option" where
  "select_strat strategy [] bsp = bsp"
| "select_strat strategy (it # rest) bsp =
     (if bs_name it = ''dummy'' then select_strat strategy rest bsp
      else if strategy = Some (bs_name it) then Some it
      else select_strat strategy rest
        (case bsp of
           None \<Rightarrow> Some it
         | Some b \<Rightarrow> if bs_prio it > bs_prio b then Some it else bsp))"

definition bufq_sort_flags :: "u32 \<Rightarrow> u32 option" where
  "bufq_sort_flags flags =
     (let sort = flags AND 15
      in if sort = 1 \<or> sort = 2 then Some flags
         else if sort = 0 then Some (flags OR 1)
         else None)"

definition bufq_alloc :: "bufq_strat list \<Rightarrow> string option \<Rightarrow> u32 \<Rightarrow> (nat + bufq_strat \<times> u32) option" where
  "bufq_alloc strats strategy flags = do {
     flags \<leftarrow> bufq_sort_flags flags;
     bsp \<leftarrow> select_strat strategy strats None;
     if strategy \<noteq> None \<and> strategy \<noteq> Some (bs_name bsp) \<and> flags AND 16 \<noteq> 0 then Some (Inl 2)
     else Some (Inr (bsp, flags)) }"

section \<open>First come, first served\<close>

definition bufq_fcfs_put :: "buf list \<Rightarrow> buf \<Rightarrow> buf list" where
  "bufq_fcfs_put bq_head bp = bq_head @ [bp]"

definition bufq_fcfs_get :: "buf list \<Rightarrow> bool \<Rightarrow> buf list \<times> buf option" where
  "bufq_fcfs_get bq_head remove =
     (case bq_head of
        [] \<Rightarrow> (bq_head, None)
      | bp # rest \<Rightarrow> (if remove then rest else bq_head, Some bp))"

definition bufq_fcfs_cancel :: "buf list \<Rightarrow> buf \<Rightarrow> buf list \<times> buf option" where
  "bufq_fcfs_cancel bq_head b =
     (if b \<in> set bq_head then (remove1 b bq_head, Some b) else (bq_head, None))"

definition bufq_fcfs_init :: "buf list bufq_state" where
  "bufq_fcfs_init = \<lparr>bq_put = bufq_fcfs_put, bq_get = bufq_fcfs_get, bq_cancel = bufq_fcfs_cancel,
     bq_private = []\<rparr>"

section \<open>One-way seek sort\<close>

text \<open>The second request list, from \<open>bq\<close> on: the first inversion has been found before \<open>nbq\<close>.\<close>

fun disksort_second :: "bufq_sort \<Rightarrow> buf \<Rightarrow> buf list \<Rightarrow> buf list" where
  "disksort_second sortby bp [] = [bp]"
| "disksort_second sortby bp (nbq # rest) =
     (if inorder sortby bp nbq then bp # nbq # rest else nbq # disksort_second sortby bp rest)"

text \<open>Looking for the inversion after \<open>bq\<close>.\<close>

fun disksort_invert :: "bufq_sort \<Rightarrow> buf \<Rightarrow> buf \<Rightarrow> buf list \<Rightarrow> buf list" where
  "disksort_invert sortby bp bq [] = [bp]"
| "disksort_invert sortby bp bq (nbq # rest) =
     (if inorder sortby nbq bq then disksort_second sortby bp (nbq # rest)
      else nbq # disksort_invert sortby bp nbq rest)"

text \<open>The first request list after \<open>bq\<close>.\<close>

fun disksort_first :: "bufq_sort \<Rightarrow> buf \<Rightarrow> buf \<Rightarrow> buf list \<Rightarrow> buf list" where
  "disksort_first sortby bp bq [] = [bp]"
| "disksort_first sortby bp bq (nbq # rest) =
     (if inorder sortby nbq bq \<or> inorder sortby bp nbq then bp # nbq # rest
      else nbq # disksort_first sortby bp nbq rest)"

definition bufq_disksort_put :: "bufq_sort \<Rightarrow> buf list \<Rightarrow> buf \<Rightarrow> buf list" where
  "bufq_disksort_put sortby bq_head bp =
     (case bq_head of
        [] \<Rightarrow> [bp]
      | bq # rest \<Rightarrow>
          if inorder sortby bp bq then bq # disksort_invert sortby bp bq rest
          else bq # disksort_first sortby bp bq rest)"

definition bufq_disksort_get :: "buf list \<Rightarrow> bool \<Rightarrow> buf list \<times> buf option" where
  "bufq_disksort_get bq_head remove =
     (case bq_head of
        [] \<Rightarrow> (bq_head, None)
      | bp # rest \<Rightarrow> (if remove then rest else bq_head, Some bp))"

definition bufq_disksort_cancel :: "buf list \<Rightarrow> buf \<Rightarrow> buf list \<times> buf option" where
  "bufq_disksort_cancel bq_head b =
     (if b \<in> set bq_head then (remove1 b bq_head, Some b) else (bq_head, None))"

definition bufq_disksort_init :: "bufq_sort \<Rightarrow> buf list bufq_state" where
  "bufq_disksort_init sortby = \<lparr>bq_put = bufq_disksort_put sortby, bq_get = bufq_disksort_get,
     bq_cancel = bufq_disksort_cancel, bq_private = []\<rparr>"

section \<open>Priority to reads\<close>

abbreviation (input) PRIO_READ_BURST :: nat where "PRIO_READ_BURST \<equiv> 48"
abbreviation (input) PRIO_WRITE_REQ :: nat where "PRIO_WRITE_REQ \<equiv> 16"

record bufq_prio =
  bq_read :: "buf list"
  bq_write :: "buf list"
  bq_write_next :: "buf option"
  bq_next :: "buf option"
  bq_read_burst :: nat

text \<open>\<open>TAILQ_FIRST\<close> and \<open>TAILQ_NEXT\<close>.\<close>

definition tailq_first :: "buf list \<Rightarrow> buf option" where
  "tailq_first xs = (case xs of [] \<Rightarrow> None | x # _ \<Rightarrow> Some x)"

fun tailq_next :: "buf list \<Rightarrow> buf \<Rightarrow> buf option" where
  "tailq_next [] b = None"
| "tailq_next (x # xs) b = (if x = b then tailq_first xs else tailq_next xs b)"

text \<open>The search from \<open>bq\<close> for the first request that is not before \<open>bp\<close>, and the insertion
  there; \<open>xs\<close> is the list from \<open>bq\<close> on.\<close>

fun prio_insert :: "bufq_sort \<Rightarrow> buf \<Rightarrow> buf list \<Rightarrow> buf list" where
  "prio_insert sortby bp [] = [bp]"
| "prio_insert sortby bp (bq # rest) =
     (if inorder sortby bq bp then bq # prio_insert sortby bp rest else bp # bq # rest)"

text \<open>The same, starting at the element \<open>w\<close> of the list.\<close>

fun prio_insert_from :: "bufq_sort \<Rightarrow> buf \<Rightarrow> buf \<Rightarrow> buf list \<Rightarrow> buf list" where
  "prio_insert_from sortby w bp [] = [bp]"
| "prio_insert_from sortby w bp (x # xs) =
     (if x = w then prio_insert sortby bp (x # xs) else x # prio_insert_from sortby w bp xs)"

definition bufq_prio_put :: "bufq_sort \<Rightarrow> bufq_prio \<Rightarrow> buf \<Rightarrow> bufq_prio" where
  "bufq_prio_put sortby prio bp =
     (if b_read bp then prio\<lparr>bq_read := bq_read prio @ [bp]\<rparr>
      else if bq_write prio = [] then prio\<lparr>bq_write := [bp], bq_write_next := Some bp\<rparr>
      else case bq_write_next prio of
        Some w \<Rightarrow>
          if inorder sortby w bp then prio\<lparr>bq_write := prio_insert_from sortby w bp (bq_write prio)\<rparr>
          else prio\<lparr>bq_write := prio_insert sortby bp (bq_write prio)\<rparr>
      | None \<Rightarrow> prio\<lparr>bq_write := prio_insert sortby bp (bq_write prio)\<rparr>)"

text \<open>The choice of \<open>bq_next\<close> when there is no current request.\<close>

definition prio_select :: "bufq_prio \<Rightarrow> bufq_prio" where
  "prio_select prio =
     (if bq_next prio \<noteq> None then prio
      else if bq_read prio = [] then prio\<lparr>bq_next := bq_write_next prio, bq_read_burst := 0\<rparr>
      else if bq_write_next prio = None then
        prio\<lparr>bq_next := tailq_first (bq_read prio), bq_read_burst := 0\<rparr>
      else
        let burst = bq_read_burst prio; prio = prio\<lparr>bq_read_burst := burst + 1\<rparr>
        in if burst < PRIO_READ_BURST then prio\<lparr>bq_next := tailq_first (bq_read prio)\<rparr>
           else if bq_read_burst prio < PRIO_READ_BURST + PRIO_WRITE_REQ then
             prio\<lparr>bq_next := bq_write_next prio\<rparr>
           else prio\<lparr>bq_next := tailq_first (bq_read prio), bq_read_burst := 0\<rparr>)"

text \<open>The removal of \<open>bq_write_next\<close> from the write list: the pointer is advanced first and
  starts over at the beginning of the list.\<close>

definition prio_advance :: "bufq_prio \<Rightarrow> buf \<Rightarrow> bufq_prio" where
  "prio_advance prio b =
     (let nxt = (case bq_write_next prio of None \<Rightarrow> None | Some w \<Rightarrow> tailq_next (bq_write prio) w);
          write = remove1 b (bq_write prio)
      in prio\<lparr>bq_write := write, bq_write_next := (if nxt = None then tailq_first write else nxt)\<rparr>)"

definition bufq_prio_get :: "bufq_prio \<Rightarrow> bool \<Rightarrow> bufq_prio \<times> buf option" where
  "bufq_prio_get prio remove =
     (let prio = prio_select prio
      in case bq_next prio of
           None \<Rightarrow> (prio, None)
         | Some bp \<Rightarrow>
             if remove then
               ((if b_read bp then prio\<lparr>bq_read := remove1 bp (bq_read prio)\<rparr>
                 else prio_advance prio bp)\<lparr>bq_next := None\<rparr>, Some bp)
             else (prio, Some bp))"

definition bufq_prio_cancel :: "bufq_prio \<Rightarrow> buf \<Rightarrow> bufq_prio \<times> buf option" where
  "bufq_prio_cancel prio b =
     (if b \<in> set (bq_read prio) then (prio\<lparr>bq_read := remove1 b (bq_read prio), bq_next := None\<rparr>, Some b)
      else if b \<in> set (bq_write prio) then
        ((if bq_write_next prio = Some b then prio_advance prio b
          else prio\<lparr>bq_write := remove1 b (bq_write prio)\<rparr>)\<lparr>bq_next := None\<rparr>, Some b)
      else (prio, None))"

definition bufq_readprio_init :: "bufq_sort \<Rightarrow> bufq_prio bufq_state" where
  "bufq_readprio_init sortby = \<lparr>bq_put = bufq_prio_put sortby, bq_get = bufq_prio_get,
     bq_cancel = bufq_prio_cancel,
     bq_private = \<lparr>bq_read = [], bq_write = [], bq_write_next = None, bq_next = None, bq_read_burst = 0\<rparr>\<rparr>"

section \<open>Priorities with cyclical scans\<close>

record cscan_key =
  k_rawblkno :: int
  k_cylinder :: int

record cscan_queue =
  cq_buffers :: "buf list"
  cq_lastkey :: cscan_key
  cq_sortby :: bufq_sort

definition buf_cmp :: "buf \<Rightarrow> buf \<Rightarrow> bufq_sort \<Rightarrow> int" where
  "buf_cmp b1 b2 sortby =
     (if inorder sortby b2 b1 then 1 else if inorder sortby b1 b2 then - 1 else 0)"

definition cscan_tree_compare_nodes :: "bufq_sort \<Rightarrow> buf \<Rightarrow> buf \<Rightarrow> int" where
  "cscan_tree_compare_nodes sortby b1 b2 =
     (let diff = buf_cmp b1 b2 sortby
      in if diff \<noteq> 0 then diff
         else if b_addr b1 > b_addr b2 then 1
         else if b_addr b1 < b_addr b2 then - 1
         else 0)"

definition key_buf :: "cscan_key \<Rightarrow> buf" where
  "key_buf key = \<lparr>b_addr = 0, b_rawblkno = k_rawblkno key, b_cylinder = k_cylinder key, b_read = False,
     b_prio = BPRIO_TIMECRITICAL, b_bcount = 0\<rparr>"

definition cscan_tree_compare_key :: "bufq_sort \<Rightarrow> buf \<Rightarrow> cscan_key \<Rightarrow> int" where
  "cscan_tree_compare_key sortby b1 key = buf_cmp b1 (key_buf key) sortby"

text \<open>\<open>rb_tree_insert_node\<close>: the node goes before the first node that is greater; a node equal
  to one in the tree is not inserted.\<close>

fun tree_insert :: "bufq_sort \<Rightarrow> buf \<Rightarrow> buf list \<Rightarrow> buf list" where
  "tree_insert sortby b [] = [b]"
| "tree_insert sortby b (x # xs) =
     (if cscan_tree_compare_nodes sortby x b > 0 then b # x # xs
      else if cscan_tree_compare_nodes sortby x b = 0 then x # xs
      else x # tree_insert sortby b xs)"

definition cscan_empty :: "cscan_queue \<Rightarrow> bool" where
  "cscan_empty q \<longleftrightarrow> cq_buffers q = []"

definition cscan_put :: "cscan_queue \<Rightarrow> buf \<Rightarrow> cscan_queue" where
  "cscan_put q bp = q\<lparr>cq_buffers := tree_insert (cq_sortby q) bp (cq_buffers q)\<rparr>"

text \<open>The first node not before the key, or else the first node; its removal moves the key to
  the end of the request.\<close>

definition cscan_get :: "cscan_queue \<Rightarrow> bool \<Rightarrow> cscan_queue \<times> buf option" where
  "cscan_get q remove =
     (let bp = (case find (\<lambda>b. cscan_tree_compare_key (cq_sortby q) b (cq_lastkey q) \<ge> 0) (cq_buffers q) of
                  Some b \<Rightarrow> Some b
                | None \<Rightarrow> tailq_first (cq_buffers q))
      in case bp of
           None \<Rightarrow> (q, None)
         | Some b \<Rightarrow>
             if remove then
               (q\<lparr>cq_buffers := remove1 b (cq_buffers q),
                  cq_lastkey := \<lparr>k_rawblkno = b_rawblkno b + drop_bit 9 (b_bcount b), k_cylinder = b_cylinder b\<rparr>\<rparr>,
                Some b)
             else (q, Some b))"

definition cscan_init :: "bufq_sort \<Rightarrow> cscan_queue" where
  "cscan_init sortby = \<lparr>cq_buffers = [], cq_lastkey = \<lparr>k_rawblkno = 0, k_cylinder = 0\<rparr>, cq_sortby = sortby\<rparr>"

abbreviation (input) PRIOCSCAN_NQUEUE :: nat where "PRIOCSCAN_NQUEUE \<equiv> 3"

record priocscan_queue =
  q_queue :: cscan_queue
  q_burst :: nat

type_synonym bufq_priocscan = "priocscan_queue list"

definition priocscan_burst :: "nat list" where
  "priocscan_burst = [64, 16, 4]"

definition priocscan_priomap :: "buf_prio \<Rightarrow> nat" where
  "priocscan_priomap p =
     (case p of BPRIO_TIMENONCRITICAL \<Rightarrow> 2 | BPRIO_TIMELIMITED \<Rightarrow> 1 | BPRIO_TIMECRITICAL \<Rightarrow> 0)"

text \<open>The index of the queue \<open>bufq_priocscan_selectqueue\<close> returns.\<close>

definition bufq_priocscan_selectqueue :: "buf \<Rightarrow> nat" where
  "bufq_priocscan_selectqueue bp = priocscan_priomap (b_prio bp)"

definition bufq_priocscan_put :: "bufq_priocscan \<Rightarrow> buf \<Rightarrow> bufq_priocscan" where
  "bufq_priocscan_put q bp =
     (let i = bufq_priocscan_selectqueue bp
      in q[i := (q ! i)\<lparr>q_queue := cscan_put (q_queue (q ! i)) bp\<rparr>])"

abbreviation (input) pq_nonempty :: "bufq_priocscan \<Rightarrow> nat \<Rightarrow> bool" where
  "pq_nonempty q i \<equiv> \<not> cscan_empty (q_queue (q ! i))"

text \<open>\<open>for (npq = pq + 1; npq < epq; npq++)\<close>: the candidate and whether it is the only queue
  with requests.\<close>

fun priocscan_scan :: "bufq_priocscan \<Rightarrow> nat list \<Rightarrow> nat \<Rightarrow> bool \<Rightarrow> nat \<times> bool" where
  "priocscan_scan q [] pq single = (pq, single)"
| "priocscan_scan q (npq # rest) pq single =
     (if pq_nonempty q npq then
        (if q_burst (q ! pq) > 0 then (pq, False) else priocscan_scan q rest npq False)
      else priocscan_scan q rest pq single)"

definition reset_bursts :: "bufq_priocscan \<Rightarrow> bufq_priocscan" where
  "reset_bursts q = map (\<lambda>i. (q ! i)\<lparr>q_burst := priocscan_burst ! i\<rparr>) [0..<PRIOCSCAN_NQUEUE]"

definition serve :: "bufq_priocscan \<Rightarrow> nat \<Rightarrow> bool \<Rightarrow> bufq_priocscan \<times> buf option" where
  "serve q i remove =
     (case cscan_get (q_queue (q ! i)) remove of (cq, bp) \<Rightarrow> (q[i := (q ! i)\<lparr>q_queue := cq\<rparr>], bp))"

definition bufq_priocscan_get :: "bufq_priocscan \<Rightarrow> bool \<Rightarrow> bufq_priocscan \<times> buf option" where
  "bufq_priocscan_get q remove =
     (case find (pq_nonempty q) [0..<PRIOCSCAN_NQUEUE] of
        None \<Rightarrow> (q, None)
      | Some first \<Rightarrow>
          (case priocscan_scan q [first + 1..<PRIOCSCAN_NQUEUE] first True of
             (pq, single) \<Rightarrow>
               if single then serve q pq remove
               else
                 let (q, pq) =
                   (if q_burst (q ! pq) = 0 then (if remove then reset_bursts q else q, first) else (q, pq));
                   q = (if remove then q[pq := (q ! pq)\<lparr>q_burst := q_burst (q ! pq) - 1\<rparr>] else q)
                 in serve q pq remove))"

fun priocscan_cancel_from :: "bufq_priocscan \<Rightarrow> buf \<Rightarrow> nat list \<Rightarrow> bufq_priocscan \<times> buf option" where
  "priocscan_cancel_from q bp [] = (q, None)"
| "priocscan_cancel_from q bp (i # is) =
     (let cq = q_queue (q ! i)
      in if bp \<in> set (cq_buffers cq) then
           (q[i := (q ! i)\<lparr>q_queue := cq\<lparr>cq_buffers := remove1 bp (cq_buffers cq)\<rparr>\<rparr>], Some bp)
         else priocscan_cancel_from q bp is)"

definition bufq_priocscan_cancel :: "bufq_priocscan \<Rightarrow> buf \<Rightarrow> bufq_priocscan \<times> buf option" where
  "bufq_priocscan_cancel q bp = priocscan_cancel_from q bp [0..<PRIOCSCAN_NQUEUE]"

definition bufq_priocscan_init :: "bufq_sort \<Rightarrow> bufq_priocscan bufq_state" where
  "bufq_priocscan_init sortby = \<lparr>bq_put = bufq_priocscan_put, bq_get = bufq_priocscan_get,
     bq_cancel = bufq_priocscan_cancel,
     bq_private = replicate PRIOCSCAN_NQUEUE \<lparr>q_queue = cscan_init sortby, q_burst = 0\<rparr>\<rparr>"

end
