(* ===== verification/Bufq_Queues.thy ===== *)
theory Bufq_Queues
  imports Bufq
begin

text \<open>
  What the disk queues promise the framework.  The locale \<open>bufq_strategy\<close> is the contract
  between \<open>subr_bufq.c\<close> and a strategy: the requests a queue holds form a multiset, and
  \<open>put\<close>, \<open>get\<close> and \<open>cancel\<close> change it by one request each.  The clients \<open>bufq_drain\<close>
  and \<open>bufq_move\<close>, and every history of calls, are verified against the contract; it is
  interpreted on the four strategies.
\<close>

section \<open>The order of requests\<close>

lemma inorder_irrefl [simp]: "\<not> inorder s a a"
  by (simp add: inorder_def)

lemma inorder_trans: "inorder s a b \<Longrightarrow> inorder s b c \<Longrightarrow> inorder s a c"
  by (auto simp: inorder_def split: if_splits)

lemma inorder_cotrans: "inorder s a c \<Longrightarrow> inorder s a b \<or> inorder s b c"
  by (auto simp: inorder_def split: if_splits)

lemma inorder_asym: "inorder s a b \<Longrightarrow> \<not> inorder s b a"
  using inorder_trans inorder_irrefl by blast

abbreviation asc :: "bufq_sort \<Rightarrow> buf list \<Rightarrow> bool" where
  "asc s \<equiv> sorted_wrt (\<lambda>a b. \<not> inorder s b a)"

lemma asc_Cons_iff: "asc s (a # xs) \<longleftrightarrow> (xs = [] \<or> \<not> inorder s (hd xs) a) \<and> asc s xs"
  by (cases xs) (use inorder_cotrans in \<open>auto simp: sorted_wrt.simps(2)\<close>, blast)

section \<open>The contract\<close>

abbreviation addrs :: "buf multiset \<Rightarrow> nat set" where
  "addrs M \<equiv> b_addr ` set_mset M"

locale bufq_strategy =
  fixes wf :: "'s \<Rightarrow> bool"
    and reqs :: "'s \<Rightarrow> buf multiset"
    and put :: "'s \<Rightarrow> buf \<Rightarrow> 's"
    and get :: "'s \<Rightarrow> bool \<Rightarrow> 's \<times> buf option"
    and cancel :: "'s \<Rightarrow> buf \<Rightarrow> 's \<times> buf option"
  assumes put_new: "wf s \<Longrightarrow> b_addr b \<notin> addrs (reqs s) \<Longrightarrow>
      wf (put s b) \<and> reqs (put s b) = add_mset b (reqs s)"
    and get_law: "wf s \<Longrightarrow> get s r = (s', x) \<Longrightarrow> wf s' \<and>
      (case x of None \<Rightarrow> reqs s = {#} \<and> reqs s' = {#}
       | Some b \<Rightarrow> b \<in># reqs s \<and> reqs s' = (if r then reqs s - {#b#} else reqs s))"
    and peek_get: "wf s \<Longrightarrow> snd (get (fst (get s False)) True) = snd (get s False)"
    and cancel_in: "wf s \<Longrightarrow> b \<in># reqs s \<Longrightarrow> \<exists>s'. cancel s b = (s', Some b) \<and> wf s' \<and>
      reqs s' = reqs s - {#b#}"
    and cancel_out: "wf s \<Longrightarrow> b \<notin># reqs s \<Longrightarrow> cancel s b = (s, None)"
begin

lemma get_none: "wf s \<Longrightarrow> reqs s = {#} \<Longrightarrow> \<exists>s'. get s r = (s', None) \<and> wf s' \<and> reqs s' = {#}"
  by (cases "get s r", drule (1) get_law) (auto split: option.splits)

lemma get_some:
  "wf s \<Longrightarrow> reqs s \<noteq> {#} \<Longrightarrow> \<exists>s' b. get s r = (s', Some b) \<and> wf s' \<and>
     b \<in># reqs s \<and> reqs s' = (if r then reqs s - {#b#} else reqs s)"
  by (cases "get s r", drule (1) get_law) (auto split: option.splits)

abbreviation manages :: "'s bufq_state \<Rightarrow> bool" where
  "manages q \<equiv> bq_put q = put \<and> bq_get q = get \<and> bq_cancel q = cancel \<and> wf (bq_private q)"

abbreviation pending :: "'s bufq_state \<Rightarrow> buf multiset" where
  "pending q \<equiv> reqs (bq_private q)"

lemma bufq_put_new:
  "manages q \<Longrightarrow> b_addr b \<notin> addrs (pending q) \<Longrightarrow>
     manages (bufq_put q b) \<and> pending (bufq_put q b) = add_mset b (pending q)"
  using put_new [of "bq_private q" b] by (simp add: bufq_put_def)

lemma bufq_get_none:
  "manages q \<Longrightarrow> pending q = {#} \<Longrightarrow> \<exists>q'. bufq_get q = (q', None) \<and> manages q' \<and> pending q' = {#}"
  using get_none [of "bq_private q" True] by (auto simp: bufq_get_def)

lemma bufq_get_some:
  assumes "manages q" "pending q \<noteq> {#}"
  obtains q' b where "bufq_get q = (q', Some b)" "manages q'" "b \<in># pending q" "pending q' = pending q - {#b#}"
  using get_some [of "bq_private q" True] assms by (auto simp: bufq_get_def)

lemma bufq_get_result:
  assumes "manages q" "bufq_get q = (q', r)"
  shows "manages q' \<and> pending q = pending q' + (case r of None \<Rightarrow> {#} | Some b \<Rightarrow> {#b#})"
proof (cases "pending q = {#}")
  case True
  then show ?thesis using bufq_get_none [OF assms(1)] assms(2) by auto
next
  case False
  then obtain s b where "bufq_get q = (s, Some b)" "manages s" "b \<in># pending q" "pending s = pending q - {#b#}"
    by (rule bufq_get_some [OF assms(1)])
  then show ?thesis using assms(2) by simp
qed

lemma bufq_peek_result:
  assumes "manages q" "bufq_peek q = (q', r)"
  shows "manages q' \<and> pending q' = pending q"
  using assms get_none [of "bq_private q" False] get_some [of "bq_private q" False]
  by (cases "pending q = {#}") (auto simp: bufq_peek_def)

lemma bufq_cancel_result:
  assumes "manages q" "bufq_cancel q b = (q', r)"
  shows "manages q' \<and> pending q = pending q' + (case r of None \<Rightarrow> {#} | Some b \<Rightarrow> {#b#})"
  using assms cancel_in [of "bq_private q" b] cancel_out [of "bq_private q" b]
  by (cases "b \<in># pending q") (auto simp: bufq_cancel_def)

text \<open>Draining returns every pending request once and leaves the queue empty.\<close>

lemma bufq_drain_all:
  "manages q \<Longrightarrow> \<exists>q' bps. bufq_drain q = Some (q', bps) \<and> manages q' \<and> pending q' = {#} \<and> mset bps = pending q"
proof (induction "size (pending q)" arbitrary: q)
  case 0
  then show ?case using bufq_get_none [of q] by (auto simp: bufq_drain.simps [of q])
next
  case (Suc n)
  then have "pending q \<noteq> {#}" by auto
  then obtain q1 b where g: "bufq_get q = (q1, Some b)" "manages q1" "b \<in># pending q"
    "pending q1 = pending q - {#b#}"
    using bufq_get_some [OF Suc.prems] by metis
  have "n = size (pending q1)" using Suc.hyps(2) g(3,4) by (simp add: size_Diff_singleton)
  from Suc.hyps(1) [OF this g(2)] obtain q2 bps where
    "bufq_drain q1 = Some (q2, bps)" "manages q2" "pending q2 = {#}" "mset bps = pending q1" by auto
  then show ?case using g by (simp add: bufq_drain.simps [of q])
qed

end

text \<open>Moving requests between two queues, of one strategy or of two.\<close>

locale bufq_transfer =
  old: bufq_strategy wf reqs put get cancel +
  new: bufq_strategy wf' reqs' put' get' cancel'
  for wf reqs put get cancel wf' reqs' put' get' cancel'
begin

lemma bufq_move_all:
  "old.manages src \<Longrightarrow> new.manages dst \<Longrightarrow> distinct (map b_addr (bps @ ds)) \<Longrightarrow>
   mset bps = old.pending src \<Longrightarrow> mset ds = new.pending dst \<Longrightarrow>
   \<exists>dst' src'. bufq_move dst src = Some (dst', src') \<and> old.manages src' \<and> new.manages dst' \<and>
     old.pending src' = {#} \<and> new.pending dst' = new.pending dst + old.pending src"
proof (induction "length bps" arbitrary: src dst bps ds)
  case 0
  then show ?case using old.bufq_get_none [of src] by (auto simp: bufq_move.simps [of dst src])
next
  case (Suc n)
  then have "old.pending src \<noteq> {#}" by auto
  then obtain src1 b where g: "bufq_get src = (src1, Some b)" "old.manages src1" "b \<in># old.pending src"
    "old.pending src1 = old.pending src - {#b#}"
    using old.bufq_get_some [OF Suc.prems(1)] by metis
  have b: "b \<in> set bps" using g(3) Suc.prems(4) by (metis set_mset_mset)
  have nb: "b_addr b \<notin> addrs (new.pending dst)"
    using Suc.prems(3,5) b by (metis (no_types, lifting) IntI append_self_conv distinct_append emptyE image_eqI
        image_set map_append set_mset_mset)
  have "mset (remove1 b bps @ b # ds) = mset (bps @ ds)" using b by simp
  then have "mset (map b_addr (remove1 b bps @ b # ds)) = mset (map b_addr (bps @ ds))"
    by (simp only: mset_map)
  then have d: "distinct (map b_addr (remove1 b bps @ b # ds))"
    using Suc.prems(3) mset_eq_imp_distinct_iff by blast
  note p = new.bufq_put_new [OF Suc.prems(2) nb]
  have eqs: "n = length (remove1 b bps)" "mset (remove1 b bps) = old.pending src1"
    "mset (b # ds) = new.pending (bufq_put dst b)"
    using Suc.hyps(2) Suc.prems(4,5) b p g(4) by (simp_all add: length_remove1)
  from Suc.hyps(1) [OF eqs(1) g(2) conjunct1 [OF p] d eqs(2,3)]
  obtain dst' src' where "bufq_move (bufq_put dst b) src1 = Some (dst', src')" "old.manages src'"
    "new.manages dst'" "old.pending src' = {#}"
    "new.pending dst' = new.pending (bufq_put dst b) + old.pending src1" by blast
  moreover have "bufq_move dst src = bufq_move (bufq_put dst b) src1"
    using g(1) by (simp add: bufq_move.simps [of dst src])
  ultimately show ?case using g(3,4) p by (metis (no_types) add_mset_add_single insert_DiffM
      union_mset_add_mset_left union_mset_add_mset_right)
qed

end

section \<open>Histories of calls\<close>

text \<open>\<open>bufq_history q0 q ins outs\<close>: calls on the queue \<open>q0\<close> led to \<open>q\<close>; \<open>ins\<close> are the requests
  put, each while it was not on the queue, and \<open>outs\<close> those returned by \<open>get\<close> and \<open>cancel\<close>.\<close>

inductive bufq_history :: "'s bufq_state \<Rightarrow> 's bufq_state \<Rightarrow> buf list \<Rightarrow> buf list \<Rightarrow> bool"
  for q0 :: "'s bufq_state" where
  start: "bufq_history q0 q0 [] []"
| put: "bufq_history q0 q ins outs \<Longrightarrow> b_addr b \<notin> addrs (mset ins - mset outs) \<Longrightarrow>
    bufq_history q0 (bufq_put q b) (ins @ [b]) outs"
| get: "bufq_history q0 q ins outs \<Longrightarrow> bufq_get q = (q', Some b) \<Longrightarrow> bufq_history q0 q' ins (outs @ [b])"
| get_empty: "bufq_history q0 q ins outs \<Longrightarrow> bufq_get q = (q', None) \<Longrightarrow> bufq_history q0 q' ins outs"
| peek: "bufq_history q0 q ins outs \<Longrightarrow> bufq_peek q = (q', r) \<Longrightarrow> bufq_history q0 q' ins outs"
| cancel: "bufq_history q0 q ins outs \<Longrightarrow> bufq_cancel q b = (q', Some b') \<Longrightarrow>
    bufq_history q0 q' ins (outs @ [b'])"
| cancel_absent: "bufq_history q0 q ins outs \<Longrightarrow> bufq_cancel q b = (q', None) \<Longrightarrow>
    bufq_history q0 q' ins outs"

context bufq_strategy
begin

lemma history_pending:
  assumes "bufq_history q0 q ins outs" "manages q0" "pending q0 = {#}"
  shows "manages q \<and> mset ins = mset outs + pending q"
  using assms
proof (induction rule: bufq_history.induct)
  case (put q ins outs b)
  then have m: "manages q" "mset ins = mset outs + pending q" by simp_all
  then show ?case using bufq_put_new [of q b] put.hyps by simp
next
  case (get q ins outs q' b)
  then show ?case using bufq_get_result [of q q' "Some b"] by simp
next
  case (get_empty q ins outs q')
  then show ?case using bufq_get_result [of q q' None] by simp
next
  case (peek q ins outs q' r)
  then show ?case using bufq_peek_result [of q q' r] by simp
next
  case (cancel q ins outs b q' b')
  then show ?case using bufq_cancel_result [of q b q' "Some b'"] by simp
next
  case (cancel_absent q ins outs b q')
  then show ?case using bufq_cancel_result [of q b q' None] by simp
qed simp

lemma history_wf:
  "bufq_history q0 q ins outs \<Longrightarrow> manages q0 \<Longrightarrow> pending q0 = {#} \<Longrightarrow> wf (bq_private q)"
  by (drule history_pending) auto

lemma history_drained:
  assumes "bufq_history q0 q ins outs" "manages q0" "pending q0 = {#}"
  shows "\<exists>q' rest. bufq_drain q = Some (q', rest) \<and> mset (outs @ rest) = mset ins"
  using history_pending [OF assms] bufq_drain_all [of q] by auto

lemma peek_then_get:
  assumes "bufq_history q0 q ins outs" "manages q0" "pending q0 = {#}"
  shows "snd (bufq_get (fst (bufq_peek q))) = snd (bufq_peek q)"
proof -
  note m = conjunct1 [OF history_pending [OF assms]]
  then show ?thesis using peek_get [of "bq_private q"]
    by (cases "get (bq_private q) False", cases "get (fst (get (bq_private q) False)) True")
      (simp add: bufq_get_def bufq_peek_def)
qed

end

section \<open>Bounded waiting\<close>

text \<open>\<open>bypass P q0 M0 q M n\<close>: from the queue \<open>q0\<close> with the requests \<open>M0\<close>, calls of \<open>put\<close> and \<open>n\<close>
  calls of \<open>get\<close>, none of which returned a request of the class \<open>P\<close>, led to \<open>q\<close> with \<open>M\<close>.\<close>

inductive bypass :: "(buf \<Rightarrow> bool) \<Rightarrow> 's bufq_state \<Rightarrow> buf multiset \<Rightarrow> 's bufq_state \<Rightarrow> buf multiset \<Rightarrow> nat \<Rightarrow> bool"
  for P q0 M0 where
  start: "bypass P q0 M0 q0 M0 0"
| put: "bypass P q0 M0 q M n \<Longrightarrow> b_addr b \<notin> addrs M \<Longrightarrow> bypass P q0 M0 (bufq_put q b) (add_mset b M) n"
| get: "bypass P q0 M0 q M n \<Longrightarrow> bufq_get q = (q', Some b) \<Longrightarrow> \<not> P b \<Longrightarrow>
    bypass P q0 M0 q' (M - {#b#}) (Suc n)"

locale bufq_fair = bufq_strategy +
  fixes P :: "buf \<Rightarrow> bool" and wait :: "'a \<Rightarrow> nat" and bound :: nat
  assumes wait_bound: "wf s \<Longrightarrow> wait s \<le> bound"
    and wait_put: "wf s \<Longrightarrow> b_addr b \<notin> addrs (reqs s) \<Longrightarrow> x \<in># reqs s \<Longrightarrow> P x \<Longrightarrow> wait (put s b) \<le> wait s"
    and wait_get: "wf s \<Longrightarrow> x \<in># reqs s \<Longrightarrow> P x \<Longrightarrow> get s True = (s', Some b) \<Longrightarrow> \<not> P b \<Longrightarrow> wait s' < wait s"
begin

lemma bypass_wait:
  assumes "bypass P q0 M0 q M n" "manages q0" "pending q0 = M0" "x \<in># M0" "P x"
  shows "manages q \<and> pending q = M \<and> x \<in># M \<and> n + wait (bq_private q) \<le> wait (bq_private q0)"
  using assms
proof (induction rule: bypass.induct)
  case (put q M n b)
  then have m: "manages q" "pending q = M" "x \<in># M" "n + wait (bq_private q) \<le> wait (bq_private q0)" by simp_all
  have "wait (bq_private (bufq_put q b)) \<le> wait (bq_private q)"
    using wait_put [of "bq_private q" b x] m put.hyps(2) assms(5) by (simp add: bufq_put_def)
  then show ?case using bufq_put_new [of q b] m put.hyps(2) by auto
next
  case (get q M n q' b)
  then have m: "manages q" "pending q = M" "x \<in># M" "n + wait (bq_private q) \<le> wait (bq_private q0)" by simp_all
  have "x \<noteq> b" using get.hyps(3) assms(5) by auto
  have "get (bq_private q) True = (bq_private q', Some b)"
    using get.hyps(2) m(1) by (auto simp: bufq_get_def split: prod.splits)
  then have "wait (bq_private q') < wait (bq_private q)"
    using wait_get [of "bq_private q" x _ b] m get.hyps(3) assms(5) by simp
  moreover have "pending q' = M - {#b#}" "manages q'" "x \<in># M - {#b#}"
    using bufq_get_result [OF m(1) get.hyps(2)] m(2,3) \<open>x \<noteq> b\<close> by (auto simp: in_diff_count)
  ultimately show ?case using m(4) by linarith
qed simp

lemma bypass_bounded:
  assumes h: "bufq_history q0 q ins outs" "manages q0" "pending q0 = {#}"
    and b: "bypass P q (mset ins - mset outs) q' M n" and x: "x \<in># mset ins - mset outs" "P x"
  shows "n \<le> bound"
proof -
  have m: "manages q" "pending q = mset ins - mset outs" using history_pending [OF h] by auto
  show ?thesis using bypass_wait [OF b m x] wait_bound [of "bq_private q"] m(1) by linarith
qed

end

end
