(* ===== verification/Bufq_Strategies.thy ===== *)
theory Bufq_Strategies
  imports Bufq_Queues
begin

text \<open>
  The strategies \<open>fcfs\<close>, \<open>disksort\<close> and \<open>readprio\<close> against the contract of the queues, the
  order in which \<open>disksort\<close> serves requests, the sorted write list of \<open>readprio\<close> and the way
  it alternates between reads and writes.
\<close>

section \<open>First come, first served\<close>

interpretation fcfs: bufq_strategy "\<lambda>_. True" mset bufq_fcfs_put bufq_fcfs_get bufq_fcfs_cancel
  by unfold_locales
    (auto simp: bufq_fcfs_put_def bufq_fcfs_get_def bufq_fcfs_cancel_def split: list.splits)

section \<open>One-way seek sort\<close>

lemma mset_disksort_second [simp]: "mset (disksort_second s b xs) = add_mset b (mset xs)"
  by (induction s b xs rule: disksort_second.induct) simp_all

lemma mset_disksort_invert [simp]: "mset (disksort_invert s b x xs) = add_mset b (mset xs)"
  by (induction s b x xs rule: disksort_invert.induct) simp_all

lemma mset_disksort_first [simp]: "mset (disksort_first s b x xs) = add_mset b (mset xs)"
  by (induction s b x xs rule: disksort_first.induct) simp_all

text \<open>The queue is two ascending lists; all requests of the second are before the first
  request of the first.\<close>

definition two_runs :: "bufq_sort \<Rightarrow> buf list \<Rightarrow> buf list \<Rightarrow> bool" where
  "two_runs s A B \<longleftrightarrow> asc s A \<and> asc s B \<and> (A = [] \<longrightarrow> B = []) \<and> (\<forall>b \<in> set B. inorder s b (hd A))"

lemma two_runs_Nil [simp]: "two_runs s [] []" "two_runs s [] B \<longleftrightarrow> B = []"
  by (auto simp: two_runs_def)

lemma set_disksort_second [simp]: "set (disksort_second s b xs) = insert b (set xs)"
  using mset_disksort_second [of s b xs] by (metis set_mset_add_mset_insert set_mset_mset)

lemma asc_disksort_second: "asc s xs \<Longrightarrow> asc s (disksort_second s b xs)"
proof (induction s b xs rule: disksort_second.induct)
  case (2 s b x xs)
  have "\<not> inorder s y b" if "inorder s b x" "y \<in> set xs" for y
    using 2(2) that inorder_trans [of s y b x] by auto
  then show ?case using 2 inorder_asym [of s b x] by auto
qed simp

text \<open>Below the inversion the two loops act on the two lists separately.\<close>

lemma disksort_invert_runs:
  "asc s (x # A) \<Longrightarrow> (\<forall>b \<in> set B. inorder s b x) \<Longrightarrow>
     disksort_invert s bp x (A @ B) = A @ disksort_second s bp B"
proof (induction A arbitrary: x)
  case Nil
  then show ?case by (cases B) auto
next
  case (Cons a A)
  have "inorder s b a" if "b \<in> set B" for b
    using Cons.prems that inorder_cotrans [of s b x a] by auto
  moreover have "\<not> inorder s a x" using Cons.prems(1) by simp
  ultimately show ?case using Cons by simp
qed

lemma disksort_first_runs:
  "asc s (x # A) \<Longrightarrow> (\<forall>b \<in> set B. inorder s b x) \<Longrightarrow> \<not> inorder s bp x \<Longrightarrow>
     \<exists>A'. disksort_first s bp x (A @ B) = A' @ B \<and> asc s (x # A') \<and> mset A' = add_mset bp (mset A)"
proof (induction A arbitrary: x)
  case Nil
  then show ?case by (cases B) (auto intro: exI [of _ "[bp]"])
next
  case (Cons a A)
  have B: "\<forall>b \<in> set B. inorder s b a" using Cons.prems inorder_cotrans [of s _ x a] by auto
  have na: "\<not> inorder s a x" using Cons.prems(1) by simp
  show ?case
  proof (cases "inorder s bp a")
    case True
    have "asc s (x # bp # a # A)"
      using Cons.prems(1,3) True inorder_asym [of s bp a] inorder_cotrans [of s _ a bp]
      by (auto dest: inorder_trans inorder_asym)
    then show ?thesis using True by (auto intro: exI [of _ "bp # a # A"])
  next
    case False
    obtain A' where A': "disksort_first s bp a (A @ B) = A' @ B" "asc s (a # A')" "mset A' = add_mset bp (mset A)"
      using Cons.IH [of a] Cons.prems(1) B False by auto
    have "asc s (x # a # A')" using A'(2) na asc_Cons_iff [of s x "a # A'"] by simp
    then show ?thesis using A' False na by (auto intro!: exI [of _ "a # A'"])
  qed
qed

lemma two_runs_put:
  assumes "two_runs s A B"
  shows "\<exists>A' B'. bufq_disksort_put s (A @ B) b = A' @ B' \<and> two_runs s A' B'"
proof (cases A)
  case Nil
  then show ?thesis using assms
    by (intro exI [of _ "[b]"] exI [of _ "[]"]) (auto simp: bufq_disksort_put_def two_runs_def)
next
  case (Cons x xs)
  note A = assms [unfolded two_runs_def Cons, simplified]
  show ?thesis
  proof (cases "inorder s b x")
    case True
    then have "bufq_disksort_put s (A @ B) b = A @ disksort_second s b B"
      using disksort_invert_runs [of s x xs B b] A Cons by (simp add: bufq_disksort_put_def)
    moreover have "two_runs s A (disksort_second s b B)"
      using A True Cons by (auto simp: two_runs_def asc_disksort_second)
    ultimately show ?thesis by blast
  next
    case False
    then obtain A' where "disksort_first s b x (xs @ B) = A' @ B" "asc s (x # A')"
      using disksort_first_runs [of s x xs B b] A by auto
    then show ?thesis using A False Cons
      by (intro exI [of _ "x # A'"] exI [of _ B]) (auto simp: bufq_disksort_put_def two_runs_def)
  qed
qed

lemma two_runs_tl: "two_runs s (x # A) B \<Longrightarrow> \<exists>A' B'. A @ B = A' @ B' \<and> two_runs s A' B'"
proof (cases A)
  case Nil
  assume "two_runs s (x # A) B"
  then show ?thesis using Nil by (intro exI [of _ B] exI [of _ "[]"]) (auto simp: two_runs_def)
next
  case (Cons a A')
  assume "two_runs s (x # A) B"
  then have "two_runs s A B" using Cons inorder_cotrans [of s _ x a] by (auto simp: two_runs_def)
  then show ?thesis by blast
qed

lemma asc_remove1: "asc s xs \<Longrightarrow> asc s (remove1 b xs)"
proof (induction xs)
  case (Cons x xs)
  then show ?case using notin_set_remove1 [of _ xs b] by auto
qed simp

lemma two_runs_remove1:
  assumes "two_runs s A B"
  shows "\<exists>A' B'. remove1 b (A @ B) = A' @ B' \<and> two_runs s A' B'"
proof (cases "b \<in> set A")
  case True
  show ?thesis
  proof (cases A)
    case (Cons x xs)
    show ?thesis
    proof (cases "b = x")
      case True
      then show ?thesis using two_runs_tl [of s x xs B] assms Cons by auto
    next
      case False
      then have "two_runs s (remove1 b A) B"
        using assms Cons asc_remove1 [of s A b] by (auto simp: two_runs_def)
      then show ?thesis using True by (auto simp: remove1_append)
    qed
  qed (use True in simp)
next
  case False
  then have "two_runs s A (remove1 b B)"
    using assms asc_remove1 [of s B b] by (auto simp: two_runs_def dest: notin_set_remove1)
  then show ?thesis using False by (auto simp: remove1_append)
qed

definition disksort_wf :: "bufq_sort \<Rightarrow> buf list \<Rightarrow> bool" where
  "disksort_wf s xs \<longleftrightarrow> (\<exists>A B. xs = A @ B \<and> two_runs s A B)"

lemma disksort_wf_put: "disksort_wf s xs \<Longrightarrow> disksort_wf s (bufq_disksort_put s xs b)"
  using two_runs_put by (auto simp: disksort_wf_def)

lemma disksort_wf_remove1: "disksort_wf s xs \<Longrightarrow> disksort_wf s (remove1 b xs)"
  using two_runs_remove1 by (auto simp: disksort_wf_def)

lemma disksort_wf_tl: "disksort_wf s (b # xs) \<Longrightarrow> disksort_wf s xs"
  using disksort_wf_remove1 [of s "b # xs" b] by simp

lemma mset_disksort_put: "mset (bufq_disksort_put s xs b) = add_mset b (mset xs)"
  by (cases xs) (simp_all add: bufq_disksort_put_def)

interpretation disksort: bufq_strategy "disksort_wf s" mset "bufq_disksort_put s" bufq_disksort_get
    bufq_disksort_cancel for s
  by unfold_locales (auto simp: bufq_disksort_get_def bufq_disksort_cancel_def disksort_wf_put
      mset_disksort_put disksort_wf_remove1 split: list.splits dest: disksort_wf_tl)

section \<open>Priority to reads\<close>

lemma tailq_first_simps [simp]:
  "tailq_first [] = None" "tailq_first (x # xs) = Some x"
  "tailq_first xs = None \<longleftrightarrow> xs = []" "None = tailq_first xs \<longleftrightarrow> xs = []"
  by (auto simp: tailq_first_def split: list.splits)

lemma tailq_first_set: "tailq_first xs = Some x \<Longrightarrow> x \<in> set xs"
  by (cases xs) auto

lemma tailq_next_set: "tailq_next xs w = Some v \<Longrightarrow> v \<in> set (remove1 w xs)"
  by (induction xs w rule: tailq_next.induct) (auto simp: tailq_first_set split: if_splits)

lemma mset_prio_insert [simp]: "mset (prio_insert s b xs) = add_mset b (mset xs)"
  by (induction s b xs rule: prio_insert.induct) simp_all

lemma set_prio_insert [simp]: "set (prio_insert s b xs) = insert b (set xs)"
  using mset_prio_insert [of s b xs] by (metis set_mset_add_mset_insert set_mset_mset)

lemma prio_insert_not_Nil [simp]: "prio_insert s b xs \<noteq> []"
  by (cases xs) auto

lemma asc_prio_insert: "asc s xs \<Longrightarrow> asc s (prio_insert s b xs)"
proof (induction s b xs rule: prio_insert.induct)
  case (2 s b x xs)
  have "\<not> inorder s y b" if "\<not> inorder s x b" "y \<in> set xs" for y
    using 2(2) that inorder_cotrans [of s y b x] by auto
  then show ?case using 2 inorder_asym [of s x b] by auto
qed simp

text \<open>Starting the search at a request that lies before the new one finds the same place.\<close>

lemma prio_insert_from_eq:
  "asc s xs \<Longrightarrow> w \<in> set xs \<Longrightarrow> inorder s w b \<Longrightarrow> prio_insert_from s w b xs = prio_insert s b xs"
proof (induction s w b xs rule: prio_insert_from.induct)
  case (2 s w b x xs)
  then show ?case using inorder_cotrans [of s w b x] by (cases "x = w") auto
qed simp

definition prio_wf :: "bufq_sort \<Rightarrow> bufq_prio \<Rightarrow> bool" where
  "prio_wf s p \<longleftrightarrow> asc s (bq_write p) \<and> distinct (map b_addr (bq_read p @ bq_write p)) \<and>
     (\<forall>b \<in> set (bq_read p). b_read b) \<and> (\<forall>b \<in> set (bq_write p). \<not> b_read b) \<and>
     (bq_write p = [] \<longrightarrow> bq_write_next p = None) \<and>
     (bq_write p \<noteq> [] \<longrightarrow> (\<exists>w \<in> set (bq_write p). bq_write_next p = Some w)) \<and>
     (bq_next p = None \<or> bq_next p = tailq_first (bq_read p) \<or> bq_next p = bq_write_next p) \<and>
     bq_read_burst p < 64 \<and>
     (\<forall>b. bq_next p = Some b \<longrightarrow> (if b_read b then bq_read_burst p \<le> 48 else bq_read_burst p \<noteq> 48))"

definition prio_reqs :: "bufq_prio \<Rightarrow> buf multiset" where
  "prio_reqs p = mset (bq_read p) + mset (bq_write p)"

lemma prio_wf_write_next: "prio_wf s p \<Longrightarrow> bq_write_next p = None \<longleftrightarrow> bq_write p = []"
  by (auto simp: prio_wf_def)

text \<open>A write request goes to its place in the sorted list, wherever the search starts.\<close>

lemma bufq_prio_put_write:
  assumes "prio_wf s p" "\<not> b_read b"
  shows "bufq_prio_put s p b = p\<lparr>bq_write := prio_insert s b (bq_write p),
    bq_write_next := (if bq_write p = [] then Some b else bq_write_next p)\<rparr>"
proof (cases "bq_write p = []")
  case False
  then obtain w where "w \<in> set (bq_write p)" "bq_write_next p = Some w" "asc s (bq_write p)"
    using assms(1) by (auto simp: prio_wf_def)
  then show ?thesis using False assms(2) by (simp add: bufq_prio_put_def prio_insert_from_eq)
qed (use assms in \<open>simp add: bufq_prio_put_def\<close>)

lemma distinct_addr_insert:
  assumes "mset ys = add_mset b (mset xs)" "b_addr b \<notin> b_addr ` set xs"
  shows "distinct (map b_addr ys) = distinct (map b_addr xs)"
proof -
  have "mset (map b_addr ys) = mset (map b_addr (b # xs))" using assms(1) by (simp only: mset_map) simp
  then have "distinct (map b_addr ys) = distinct (map b_addr (b # xs))" by (rule mset_eq_imp_distinct_iff)
  then show ?thesis using assms(2) by simp
qed

lemma prio_put_new:
  assumes wf: "prio_wf s p" and new: "b_addr b \<notin> addrs (prio_reqs p)"
  shows "prio_wf s (bufq_prio_put s p b) \<and> prio_reqs (bufq_prio_put s p b) = add_mset b (prio_reqs p)"
proof (cases "b_read b")
  case True
  then have eq: "bufq_prio_put s p b = p\<lparr>bq_read := bq_read p @ [b]\<rparr>" by (simp add: bufq_prio_put_def)
  have "tailq_first (bq_read p @ [b]) = tailq_first (bq_read p)" if "bq_read p \<noteq> []"
    using that by (cases "bq_read p") auto
  then show ?thesis unfolding eq using wf new True
    by (auto simp: prio_wf_def prio_reqs_def tailq_first_def split: list.splits)
next
  case False
  have "distinct (map b_addr (bq_read p @ prio_insert s b (bq_write p)))"
    using wf new distinct_addr_insert [of "bq_read p @ prio_insert s b (bq_write p)" b "bq_read p @ bq_write p"]
    by (auto simp: prio_wf_def prio_reqs_def)
  then show ?thesis unfolding bufq_prio_put_write [OF wf False] using wf False
    by (auto simp: prio_wf_def prio_reqs_def asc_prio_insert)
qed

lemma prio_wf_select: "prio_wf s p \<Longrightarrow> prio_wf s (prio_select p)"
  by (cases "bq_write p = []") (auto simp: prio_select_def prio_wf_def Let_def dest: tailq_first_set)

lemma prio_select_lists [simp]:
  "bq_read (prio_select p) = bq_read p" "bq_write (prio_select p) = bq_write p"
  "bq_write_next (prio_select p) = bq_write_next p" "prio_reqs (prio_select p) = prio_reqs p"
  by (simp_all add: prio_select_def Let_def prio_reqs_def)

lemma prio_select_next:
  "prio_wf s p \<Longrightarrow> bq_next (prio_select p) = None \<longleftrightarrow> prio_reqs p = {#}"
  by (auto simp: prio_select_def Let_def prio_reqs_def prio_wf_def split: option.splits)

lemma prio_next_in:
  "prio_wf s p \<Longrightarrow> bq_next p = Some b \<Longrightarrow>
     (if b_read b then b \<in> set (bq_read p) else b \<in> set (bq_write p) \<and> bq_write_next p = Some b)"
  by (cases "bq_write p = []") (auto simp: prio_wf_def dest: tailq_first_set dest!: sym [of "Some b"])

lemma distinct_addr_remove1:
  "distinct (map b_addr (xs @ ys)) \<Longrightarrow> distinct (map b_addr (remove1 b xs @ ys))"
  "distinct (map b_addr (xs @ ys)) \<Longrightarrow> distinct (map b_addr (xs @ remove1 b ys))"
  using set_remove1_subset [of b xs] set_remove1_subset [of b ys]
  by (auto simp: distinct_map inj_on_subset)

lemma prio_advance_wf:
  assumes wf: "prio_wf s p" and b: "bq_write_next p = Some b" "b \<in> set (bq_write p)"
  shows "prio_wf s (prio_advance p b\<lparr>bq_next := None\<rparr>) \<and>
    prio_reqs (prio_advance p b\<lparr>bq_next := None\<rparr>) = prio_reqs p - {#b#}"
proof -
  let ?w = "remove1 b (bq_write p)"
  have d: "distinct (map b_addr (bq_read p @ ?w))"
    using wf by (simp add: prio_wf_def distinct_addr_remove1 del: map_append distinct_append)
  define n where "n = (if tailq_next (bq_write p) b = None then tailq_first ?w else tailq_next (bq_write p) b)"
  have "(?w = [] \<longrightarrow> n = None) \<and> (?w \<noteq> [] \<longrightarrow> (\<exists>w \<in> set ?w. n = Some w))"
    using tailq_next_set [of "bq_write p" b] by (cases ?w) (auto simp: n_def)
  moreover have "prio_advance p b = p\<lparr>bq_write := ?w, bq_write_next := n\<rparr>"
    by (simp add: prio_advance_def Let_def b(1) n_def)
  moreover have "mset (bq_read p) + (mset (bq_write p) - {#b#}) = mset (bq_read p) + mset (bq_write p) - {#b#}"
    using b(2) by (intro multiset_diff_union_assoc [symmetric]) simp
  moreover have "\<forall>x \<in> set ?w. \<not> b_read x" using wf by (auto simp: prio_wf_def dest: notin_set_remove1)
  ultimately show ?thesis using wf d
    by (simp add: prio_wf_def prio_reqs_def asc_remove1 del: map_append distinct_append)
qed

lemma prio_remove_read:
  assumes wf: "prio_wf s p" and b: "b \<in> set (bq_read p)"
  shows "prio_wf s (p\<lparr>bq_read := remove1 b (bq_read p), bq_next := None\<rparr>) \<and>
    prio_reqs (p\<lparr>bq_read := remove1 b (bq_read p), bq_next := None\<rparr>) = prio_reqs p - {#b#}"
proof -
  have "distinct (map b_addr (remove1 b (bq_read p) @ bq_write p))"
    using wf by (simp add: prio_wf_def distinct_addr_remove1 del: map_append distinct_append)
  then show ?thesis using wf b
    by (auto simp: prio_wf_def prio_reqs_def simp del: map_append distinct_append dest: notin_set_remove1)
qed

lemma prio_remove_write:
  assumes wf: "prio_wf s p" and b: "b \<in> set (bq_write p)" "bq_write_next p \<noteq> Some b"
  shows "prio_wf s (p\<lparr>bq_write := remove1 b (bq_write p), bq_next := None\<rparr>) \<and>
    prio_reqs (p\<lparr>bq_write := remove1 b (bq_write p), bq_next := None\<rparr>) = prio_reqs p - {#b#}"
proof -
  have "distinct (map b_addr (bq_read p @ remove1 b (bq_write p)))"
    using wf by (simp add: prio_wf_def distinct_addr_remove1 del: map_append distinct_append)
  moreover obtain w where "w \<in> set (bq_write p)" "bq_write_next p = Some w" using wf b(1) by (auto simp: prio_wf_def)
  moreover have "w \<in> set (remove1 b (bq_write p))" using b(2) calculation by (simp add: in_set_remove1)
  moreover have "mset (bq_read p) + (mset (bq_write p) - {#b#}) = mset (bq_read p) + mset (bq_write p) - {#b#}"
    using b(1) by (intro multiset_diff_union_assoc [symmetric]) simp
  moreover have "\<forall>x \<in> set (remove1 b (bq_write p)). \<not> b_read x"
    using wf by (auto simp: prio_wf_def dest: notin_set_remove1)
  moreover have "asc s (remove1 b (bq_write p))" using wf by (simp add: prio_wf_def asc_remove1)
  moreover have "remove1 b (bq_write p) \<noteq> []" using calculation by (metis empty_iff empty_set)
  ultimately show ?thesis using wf
    by (simp add: prio_wf_def prio_reqs_def del: map_append distinct_append)
qed

lemma prio_get_law:
  assumes wf: "prio_wf s p" and g: "bufq_prio_get p r = (p', x)"
  shows "prio_wf s p' \<and> (case x of None \<Rightarrow> prio_reqs p = {#} \<and> prio_reqs p' = {#}
    | Some b \<Rightarrow> b \<in># prio_reqs p \<and> prio_reqs p' = (if r then prio_reqs p - {#b#} else prio_reqs p))"
proof (cases "bq_next (prio_select p)")
  case None
  then show ?thesis using g prio_wf_select [OF wf] prio_select_next [OF wf] by (auto simp: bufq_prio_get_def Let_def)
next
  case (Some b)
  note w = prio_wf_select [OF wf]
  note i = prio_next_in [OF w Some]
  have "b \<in># prio_reqs p" using i by (auto simp: prio_reqs_def split: if_splits)
  moreover have "x = Some b \<and> p' = (if r then if b_read b
      then (prio_select p)\<lparr>bq_read := remove1 b (bq_read p), bq_next := None\<rparr>
      else prio_advance (prio_select p) b\<lparr>bq_next := None\<rparr> else prio_select p)"
    using g Some by (cases r) (auto simp: bufq_prio_get_def Let_def)
  ultimately show ?thesis
    using w i prio_remove_read [OF w, of b] prio_advance_wf [OF w, of b]
    by (simp split: if_splits)
qed

lemma prio_select_idem: "bq_next (prio_select p) \<noteq> None \<Longrightarrow> prio_select (prio_select p) = prio_select p"
  by (simp add: prio_select_def [of "prio_select p"])

lemma prio_peek_get:
  assumes wf: "prio_wf s p"
  shows "snd (bufq_prio_get (fst (bufq_prio_get p False)) True) = snd (bufq_prio_get p False)"
proof (cases "bq_next (prio_select p)")
  case None
  then have "prio_reqs (prio_select p) = {#}" using prio_select_next [OF wf] by simp
  then have "bq_next (prio_select (prio_select p)) = None"
    using prio_select_next [OF prio_wf_select [OF wf]] by simp
  then show ?thesis using None by (simp add: bufq_prio_get_def)
next
  case (Some b)
  then show ?thesis by (simp add: bufq_prio_get_def Let_def prio_select_idem)
qed

lemma prio_cancel_in:
  assumes wf: "prio_wf s p" and b: "b \<in># prio_reqs p"
  shows "\<exists>p'. bufq_prio_cancel p b = (p', Some b) \<and> prio_wf s p' \<and> prio_reqs p' = prio_reqs p - {#b#}"
  using b prio_remove_read [OF wf, of b] prio_advance_wf [OF wf, of b] prio_remove_write [OF wf, of b]
  by (cases "b \<in> set (bq_read p)") (auto simp: bufq_prio_cancel_def prio_reqs_def)

interpretation readprio: bufq_strategy "prio_wf s" prio_reqs "bufq_prio_put s" bufq_prio_get
    bufq_prio_cancel for s
proof
  fix p b r p' x
  assume wf: "prio_wf s p"
  show "b_addr b \<notin> addrs (prio_reqs p) \<Longrightarrow> prio_wf s (bufq_prio_put s p b) \<and>
    prio_reqs (bufq_prio_put s p b) = add_mset b (prio_reqs p)" using wf by (rule prio_put_new)
  show "bufq_prio_get p r = (p', x) \<Longrightarrow> prio_wf s p' \<and> (case x of None \<Rightarrow> prio_reqs p = {#} \<and> prio_reqs p' = {#}
    | Some b \<Rightarrow> b \<in># prio_reqs p \<and> prio_reqs p' = (if r then prio_reqs p - {#b#} else prio_reqs p))"
    using wf by (rule prio_get_law)
  show "snd (bufq_prio_get (fst (bufq_prio_get p False)) True) = snd (bufq_prio_get p False)"
    using wf by (rule prio_peek_get)
  show "b \<in># prio_reqs p \<Longrightarrow> \<exists>p'. bufq_prio_cancel p b = (p', Some b) \<and> prio_wf s p' \<and>
    prio_reqs p' = prio_reqs p - {#b#}" using wf by (rule prio_cancel_in)
  show "b \<notin># prio_reqs p \<Longrightarrow> bufq_prio_cancel p b = (p, None)"
    by (simp add: bufq_prio_cancel_def prio_reqs_def)
qed

section \<open>Reads and writes in turn\<close>

text \<open>How many reads may still be served before a write, and the converse.\<close>

definition write_wait :: "bufq_prio \<Rightarrow> nat" where
  "write_wait p = (if \<exists>b. bq_next p = Some b \<and> b_read b then 49 - bq_read_burst p
     else if bq_next p \<noteq> None then 0
     else if bq_read_burst p < 48 then 48 - bq_read_burst p
     else if bq_read_burst p < 63 then 0 else 49)"

definition read_wait :: "bufq_prio \<Rightarrow> nat" where
  "read_wait p = (if \<exists>b. bq_next p = Some b \<and> \<not> b_read b then
       (if bq_read_burst p < 48 then 1 else 64 - bq_read_burst p)
     else if bq_read_burst p < 48 \<or> bq_next p \<noteq> None then 0 else 63 - bq_read_burst p)"

lemma prio_put_keeps [simp]:
  "bq_next (bufq_prio_put s p b) = bq_next p" "bq_read_burst (bufq_prio_put s p b) = bq_read_burst p"
  by (simp_all add: bufq_prio_put_def split: option.splits)

lemma prio_get_keeps:
  "bufq_prio_get p True = (p', Some b) \<Longrightarrow> bq_next (prio_select p) = Some b \<and> bq_next p' = None \<and>
     bq_read_burst p' = bq_read_burst (prio_select p)"
  by (auto simp: bufq_prio_get_def prio_advance_def Let_def split: option.splits if_splits)

lemma prio_wf_heads:
  assumes "prio_wf s p"
  shows "bq_write_next p = Some w \<Longrightarrow> \<not> b_read w" "tailq_first (bq_read p) = Some r \<Longrightarrow> b_read r"
  using assms by (cases "bq_write p = []"; auto simp: prio_wf_def dest: tailq_first_set)+

lemma prio_select_turn:
  assumes wf: "prio_wf s p" and n: "bq_next (prio_select p) = Some b"
  shows "write_wait (prio_select p) \<le> write_wait p \<or> bq_write p = []"
    "read_wait (prio_select p) \<le> read_wait p \<or> bq_read p = []"
  using n prio_wf_heads [OF wf] prio_wf_write_next [OF wf]
  by (auto simp: prio_select_def write_wait_def read_wait_def Let_def split: if_splits)

lemma write_wait_get:
  assumes wf: "prio_wf s p" and x: "x \<in># prio_reqs p" "\<not> b_read x"
    and g: "bufq_prio_get p True = (p', Some b)" and b: "b_read b"
  shows "write_wait p' < write_wait p"
proof -
  have w: "bq_write p \<noteq> []" using wf x by (auto simp: prio_reqs_def prio_wf_def)
  note k = prio_get_keeps [OF g]
  have "bq_read_burst (prio_select p) \<le> 48" using prio_wf_select [OF wf] k b by (auto simp: prio_wf_def)
  then have "write_wait p' < write_wait (prio_select p)" using k b by (auto simp: write_wait_def)
  then show ?thesis using prio_select_turn(1) [OF wf] k w by fastforce
qed

lemma read_wait_get:
  assumes wf: "prio_wf s p" and x: "x \<in># prio_reqs p" "b_read x"
    and g: "bufq_prio_get p True = (p', Some b)" and b: "\<not> b_read b"
  shows "read_wait p' < read_wait p"
proof -
  have w: "bq_read p \<noteq> []" using wf x by (auto simp: prio_reqs_def prio_wf_def)
  note k = prio_get_keeps [OF g]
  have "bq_read_burst (prio_select p) < 64" using prio_wf_select [OF wf] by (simp add: prio_wf_def)
  then have "read_wait p' < read_wait (prio_select p)" using k b by (auto simp: read_wait_def)
  then show ?thesis using prio_select_turn(2) [OF wf] k w by fastforce
qed

interpretation writes: bufq_fair "prio_wf s" prio_reqs "bufq_prio_put s" bufq_prio_get bufq_prio_cancel
    "\<lambda>b. \<not> b_read b" write_wait 49 for s
proof
  fix p p' b x
  assume wf: "prio_wf s p"
  show "write_wait p \<le> 49" by (auto simp: write_wait_def)
  show "write_wait (bufq_prio_put s p b) \<le> write_wait p" unfolding write_wait_def prio_put_keeps by (rule order_refl)
  show "x \<in># prio_reqs p \<Longrightarrow> \<not> b_read x \<Longrightarrow> bufq_prio_get p True = (p', Some b) \<Longrightarrow> \<not> \<not> b_read b \<Longrightarrow>
    write_wait p' < write_wait p" using write_wait_get [OF wf] by blast
qed

interpretation reads: bufq_fair "prio_wf s" prio_reqs "bufq_prio_put s" bufq_prio_get bufq_prio_cancel
    b_read read_wait 15 for s
proof
  fix p p' b x
  assume wf: "prio_wf s p"
  show "read_wait p \<le> 15" using wf by (auto simp: read_wait_def prio_wf_def)
  show "read_wait (bufq_prio_put s p b) \<le> read_wait p" unfolding read_wait_def prio_put_keeps by (rule order_refl)
  show "x \<in># prio_reqs p \<Longrightarrow> b_read x \<Longrightarrow> bufq_prio_get p True = (p', Some b) \<Longrightarrow> \<not> b_read b \<Longrightarrow>
    read_wait p' < read_wait p" using wf by (rule read_wait_get)
qed

end
