(* ===== verification/Bufq_Priocscan.thy ===== *)
theory Bufq_Priocscan
  imports Bufq_Strategies
begin

text \<open>
  The strategy \<open>priocscan\<close>: the trees stay ordered, a scan returns the least request not before
  the head position, the queue meets the contract, and no class of requests waits for more than
  160 requests of the others.
\<close>

section \<open>The ordered tree\<close>

definition node_less :: "bufq_sort \<Rightarrow> buf \<Rightarrow> buf \<Rightarrow> bool" where
  "node_less s a b \<longleftrightarrow> cscan_tree_compare_nodes s a b < 0"

lemma compare_nodes_flip: "cscan_tree_compare_nodes s a b = - cscan_tree_compare_nodes s b a"
  using inorder_asym [of s a b] by (auto simp: cscan_tree_compare_nodes_def buf_cmp_def Let_def)

lemma node_less_iff:
  "node_less s a b \<longleftrightarrow> inorder s a b \<or> (\<not> inorder s b a \<and> b_addr a < b_addr b)"
  using inorder_asym [of s a b] by (auto simp: node_less_def cscan_tree_compare_nodes_def buf_cmp_def Let_def)

lemma node_less_trans: "node_less s a b \<Longrightarrow> node_less s b c \<Longrightarrow> node_less s a c"
  using inorder_trans inorder_cotrans unfolding node_less_iff by (meson order.strict_trans)

lemma node_less_irrefl [simp]: "\<not> node_less s a a"
  by (simp add: node_less_iff)

lemma node_less_total: "b_addr a \<noteq> b_addr b \<Longrightarrow> node_less s a b \<or> node_less s b a"
  by (auto simp: node_less_iff)

lemma node_less_inorder: "node_less s a b \<Longrightarrow> \<not> inorder s b a"
  using inorder_asym by (auto simp: node_less_iff)

abbreviation tree_ok :: "bufq_sort \<Rightarrow> buf list \<Rightarrow> bool" where
  "tree_ok s \<equiv> sorted_wrt (node_less s)"

lemma tree_insert_simps:
  "tree_insert s b [] = [b]"
  "b_addr x \<noteq> b_addr b \<Longrightarrow> tree_insert s b (x # xs) = (if node_less s b x then b # x # xs else x # tree_insert s b xs)"
  using compare_nodes_flip [of s x b] node_less_total [of x b s]
  by (auto simp: node_less_def)

lemma mset_tree_insert: "b_addr b \<notin> b_addr ` set xs \<Longrightarrow> mset (tree_insert s b xs) = add_mset b (mset xs)"
  by (induction xs) (auto simp del: tree_insert.simps simp: tree_insert_simps)

lemma set_tree_insert: "b_addr b \<notin> b_addr ` set xs \<Longrightarrow> set (tree_insert s b xs) = insert b (set xs)"
  using mset_tree_insert [of b xs s] by (metis set_mset_add_mset_insert set_mset_mset)

lemma tree_ok_insert: "tree_ok s xs \<Longrightarrow> b_addr b \<notin> b_addr ` set xs \<Longrightarrow> tree_ok s (tree_insert s b xs)"
proof (induction xs)
  case (Cons x xs)
  have n: "b_addr x \<noteq> b_addr b" "b_addr b \<notin> b_addr ` set xs" using Cons.prems(2) by auto
  show ?case
  proof (cases "node_less s b x")
    case True
    then show ?thesis using Cons.prems n node_less_trans [of s b x]
      by (auto simp: tree_insert_simps simp del: tree_insert.simps)
  next
    case False
    then have "node_less s x b" using node_less_total [OF n(1)] by blast
    then show ?thesis using Cons n False
      by (auto simp: tree_insert_simps set_tree_insert simp del: tree_insert.simps)
  qed
qed (simp add: tree_insert_simps)

lemma tree_ok_distinct: "tree_ok s xs \<Longrightarrow> distinct xs"
  by (induction xs) auto

lemma tree_ok_remove1: "tree_ok s xs \<Longrightarrow> tree_ok s (remove1 b xs)"
  by (induction xs) (auto dest: notin_set_remove1)

section \<open>One cyclical scan\<close>

definition cscan_wf :: "cscan_queue \<Rightarrow> bool" where
  "cscan_wf q \<longleftrightarrow> tree_ok (cq_sortby q) (cq_buffers q)"

lemma cscan_get_eq:
  "cscan_get q r = (if cq_buffers q = [] then (q, None) else
     let b = (case find (\<lambda>b. \<not> inorder (cq_sortby q) b (key_buf (cq_lastkey q))) (cq_buffers q) of
                Some b \<Rightarrow> b | None \<Rightarrow> hd (cq_buffers q))
     in (if r then q\<lparr>cq_buffers := remove1 b (cq_buffers q),
           cq_lastkey := \<lparr>k_rawblkno = b_rawblkno b + drop_bit 9 (b_bcount b), k_cylinder = b_cylinder b\<rparr>\<rparr> else q,
         Some b))"
proof -
  have "(\<lambda>b. cscan_tree_compare_key (cq_sortby q) b (cq_lastkey q) \<ge> 0)
      = (\<lambda>b. \<not> inorder (cq_sortby q) b (key_buf (cq_lastkey q)))"
    using inorder_asym by (auto simp: cscan_tree_compare_key_def buf_cmp_def fun_eq_iff)
  then show ?thesis
    by (cases "cq_buffers q") (auto simp: cscan_get_def Let_def split: option.splits)
qed

lemma find_first:
  assumes "find P xs = Some x"
  obtains ys zs where "xs = ys @ x # zs" "P x" "\<forall>y \<in> set ys. \<not> P y"
proof -
  have "\<exists>ys zs. xs = ys @ x # zs \<and> P x \<and> (\<forall>y \<in> set ys. \<not> P y)"
    using assms
  proof (induction xs)
    case (Cons a xs)
    show ?case
    proof (cases "P a")
      case False
      then obtain ys zs where "xs = ys @ x # zs" "P x" "\<forall>y \<in> set ys. \<not> P y" using Cons by auto
      then show ?thesis using False by (intro exI [of _ "a # ys"] exI [of _ zs]) auto
    qed (use Cons in \<open>auto intro: exI [of _ "[]"]\<close>)
  qed simp
  then show thesis using that by blast
qed

text \<open>The request returned: the least one not before the head position; when there is none, the
  least of all.\<close>

lemma cscan_get_least:
  assumes wf: "cscan_wf q" and g: "cscan_get q r = (q', Some b)" and y: "y \<in> set (cq_buffers q)"
  defines "s \<equiv> cq_sortby q" and "h \<equiv> key_buf (cq_lastkey q)"
  shows "b \<in> set (cq_buffers q) \<and> (if inorder s b h then inorder s y h \<and> \<not> inorder s y b
    else inorder s y h \<or> \<not> inorder s y b)"
proof (cases "find (\<lambda>b. \<not> inorder s b h) (cq_buffers q)")
  case None
  have b: "b = hd (cq_buffers q)" using g None y by (auto simp: cscan_get_eq s_def h_def Let_def split: if_splits)
  then have "\<forall>y \<in> set (cq_buffers q). y = b \<or> node_less s b y"
    using wf y by (cases "cq_buffers q") (auto simp: cscan_wf_def s_def)
  moreover have "b \<in> set (cq_buffers q)" using b y by (cases "cq_buffers q") auto
  ultimately show ?thesis using None y node_less_inorder [of s b y] by (auto simp: find_None_iff)
next
  case (Some c)
  have b: "c = b" using g Some y by (auto simp: cscan_get_eq s_def h_def Let_def split: if_splits)
  obtain ys zs where e: "cq_buffers q = ys @ c # zs" "\<not> inorder s c h" "\<forall>y \<in> set ys. inorder s y h"
    using find_first [OF Some] by auto
  then show ?thesis using wf y b node_less_inorder [of s b y]
    by (auto simp: cscan_wf_def s_def sorted_wrt_append)
qed

lemma cscan_get_law:
  assumes wf: "cscan_wf q" and g: "cscan_get q r = (q', x)"
  shows "cscan_wf q' \<and> cq_sortby q' = cq_sortby q \<and>
    (case x of None \<Rightarrow> cq_buffers q = [] \<and> q' = q
     | Some b \<Rightarrow> b \<in> set (cq_buffers q) \<and> cq_buffers q' = (if r then remove1 b (cq_buffers q) else cq_buffers q) \<and>
         (\<not> r \<longrightarrow> q' = q))"
proof (cases "cq_buffers q = []")
  case False
  then obtain b where x: "x = Some b" using g by (auto simp: cscan_get_eq Let_def)
  have "b \<in> set (cq_buffers q)" using cscan_get_least [OF wf g [unfolded x]] False by (meson list.set_sel(1))
  then show ?thesis using g x False wf tree_ok_remove1 [of "cq_sortby q" "cq_buffers q"]
    by (auto simp: cscan_get_eq Let_def cscan_wf_def split: if_splits)
qed (use assms in \<open>auto simp: cscan_get_eq\<close>)

lemma cscan_peek_same: "snd (cscan_get q True) = snd (cscan_get q False)"
  by (simp add: cscan_get_eq Let_def)

section \<open>The three queues\<close>

abbreviation pq_buffers :: "priocscan_queue \<Rightarrow> buf list" where
  "pq_buffers p \<equiv> cq_buffers (q_queue p)"

definition pq_ok :: "bufq_sort \<Rightarrow> nat \<Rightarrow> priocscan_queue \<Rightarrow> bool" where
  "pq_ok s i p \<longleftrightarrow> cscan_wf (q_queue p) \<and> cq_sortby (q_queue p) = s \<and>
     (\<forall>b \<in> set (pq_buffers p). bufq_priocscan_selectqueue b = i) \<and> q_burst p \<le> priocscan_burst ! i"

definition priocscan_wf :: "bufq_sort \<Rightarrow> bufq_priocscan \<Rightarrow> bool" where
  "priocscan_wf s q \<longleftrightarrow> length q = 3 \<and> (\<forall>i<3. pq_ok s i (q ! i))"

definition priocscan_reqs :: "bufq_priocscan \<Rightarrow> buf multiset" where
  "priocscan_reqs q = (\<Sum>p\<leftarrow>q. mset (pq_buffers p))"

lemma selectqueue_less [simp]: "bufq_priocscan_selectqueue b < 3"
  by (simp add: bufq_priocscan_selectqueue_def priocscan_priomap_def split: buf_prio.splits)

lemma reqs_split:
  assumes "i < length q"
  shows "\<exists>R. priocscan_reqs q = mset (pq_buffers (q ! i)) + R \<and>
    (\<forall>p. priocscan_reqs (q[i := p]) = mset (pq_buffers p) + R)"
proof -
  have app: "priocscan_reqs (a @ p # c) = mset (pq_buffers p) + (priocscan_reqs a + priocscan_reqs c)" for a p c
    by (simp add: priocscan_reqs_def ac_simps)
  then have "priocscan_reqs (take i q @ q ! i # drop (Suc i) q)
      = mset (pq_buffers (q ! i)) + (priocscan_reqs (take i q) + priocscan_reqs (drop (Suc i) q))" .
  then show ?thesis using assms app by (auto simp: upd_conv_take_nth_drop simp flip: id_take_nth_drop)
qed

lemma in_reqs: "b \<in># priocscan_reqs q \<longleftrightarrow> (\<exists>i<length q. b \<in> set (pq_buffers (q ! i)))"
  by (induction q) (auto simp: priocscan_reqs_def less_Suc_eq_0_disj)

lemma wf_update: "priocscan_wf s q \<Longrightarrow> pq_ok s i p \<Longrightarrow> priocscan_wf s (q[i := p])"
  by (cases "i < 3") (auto simp: priocscan_wf_def nth_list_update split: if_splits)

lemma priocscan_put_new:
  assumes wf: "priocscan_wf s q" and n: "b_addr b \<notin> addrs (priocscan_reqs q)"
  shows "priocscan_wf s (bufq_priocscan_put q b) \<and> priocscan_reqs (bufq_priocscan_put q b) = add_mset b (priocscan_reqs q)"
proof -
  let ?i = "bufq_priocscan_selectqueue b"
  have i: "?i < length q" using wf by (simp add: priocscan_wf_def)
  have f: "b_addr b \<notin> b_addr ` set (pq_buffers (q ! ?i))" using n i in_reqs [of _ q] by fastforce
  obtain R where "priocscan_reqs q = mset (pq_buffers (q ! ?i)) + R"
    "\<forall>p. priocscan_reqs (q[?i := p]) = mset (pq_buffers p) + R" using reqs_split [OF i] by auto
  moreover have "pq_ok s ?i (q ! ?i)" using wf by (simp add: priocscan_wf_def)
  then have "pq_ok s ?i ((q ! ?i)\<lparr>q_queue := cscan_put (q_queue (q ! ?i)) b\<rparr>)"
    using f by (auto simp: pq_ok_def cscan_put_def cscan_wf_def tree_ok_insert set_tree_insert)
  ultimately show ?thesis using f wf_update [OF wf]
    by (simp add: bufq_priocscan_put_def Let_def cscan_put_def mset_tree_insert)
qed

lemma priocscan_scan_spec:
  assumes "priocscan_scan q xs pq single = (pq', single')" "pq_nonempty q pq"
  shows "pq_nonempty q pq' \<and> pq' \<in> insert pq (set xs) \<and>
    (single' \<longleftrightarrow> single \<and> (\<forall>x \<in> set xs. \<not> pq_nonempty q x)) \<and> (single' \<longrightarrow> pq' = pq) \<and>
    (q_burst (q ! pq') = 0 \<longrightarrow> (\<forall>x \<in> insert pq (set xs). pq_nonempty q x \<longrightarrow> q_burst (q ! x) = 0))"
  using assms
proof (induction q xs pq single rule: priocscan_scan.induct)
  case (2 q npq rest pq single)
  show ?case
  proof (cases "pq_nonempty q npq \<and> q_burst (q ! pq) = 0")
    case True
    then show ?thesis using 2(1) 2(3) by auto
  next
    case False
    then show ?thesis using 2(2-) by (auto split: if_splits)
  qed
qed auto

text \<open>A call of \<open>get\<close> serves one queue after the bookkeeping of the burst counts.\<close>

definition same_queues :: "bufq_priocscan \<Rightarrow> bufq_priocscan \<Rightarrow> bool" where
  "same_queues q q' \<longleftrightarrow> length q' = length q \<and> (\<forall>i<length q. q_queue (q' ! i) = q_queue (q ! i))"

lemma same_queues_refl [simp]: "same_queues q q"
  by (simp add: same_queues_def)

lemma same_queues_reqs: "same_queues q q' \<Longrightarrow> priocscan_reqs q' = priocscan_reqs q"
  unfolding priocscan_reqs_def same_queues_def
  by (intro arg_cong [of _ _ sum_list] nth_equalityI) auto

lemma nonempty_first:
  assumes "find (pq_nonempty q) [0..<3] = Some f"
  shows "f < 3" "pq_nonempty q f" "\<forall>j<f. \<not> pq_nonempty q j"
proof -
  obtain ys zs where e: "[0..<3] = ys @ f # zs" "pq_nonempty q f" "\<forall>y \<in> set ys. \<not> pq_nonempty q y"
    using find_first [OF assms] by metis
  have l: "length ys < 3" using arg_cong [OF e(1), of length] by simp
  have "f = [0..<3] ! length ys" unfolding e(1) by simp
  then have f: "f = length ys" using l by (simp only: nth_upt)
  have "j \<in> set ys" if "j < f" for j
    using that f l e(1) by (metis add_0 length_upt diff_zero nth_append nth_mem nth_upt order.strict_trans)
  then show "f < 3" "pq_nonempty q f" "\<forall>j<f. \<not> pq_nonempty q j" using e(2,3) l f by blast+
qed

text \<open>The queue served, and the burst counts when a request is taken from it.\<close>

definition use_burst :: "nat \<Rightarrow> bufq_priocscan \<Rightarrow> bufq_priocscan" where
  "use_burst j q = q[j := (q ! j)\<lparr>q_burst := q_burst (q ! j) - 1\<rparr>]"

definition choice :: "bufq_priocscan \<Rightarrow> (nat \<times> bufq_priocscan) option" where
  "choice q = (case find (pq_nonempty q) [0..<3] of
     None \<Rightarrow> None
   | Some f \<Rightarrow> (case priocscan_scan q [f + 1..<3] f True of
       (j, single) \<Rightarrow> Some (if single then (j, q)
         else if q_burst (q ! j) = 0 then (f, use_burst f (reset_bursts q)) else (j, use_burst j q))))"

lemma priocscan_get_choice:
  "bufq_priocscan_get q r = (case choice q of None \<Rightarrow> (q, None)
     | Some (j, q1) \<Rightarrow> serve (if r then q1 else q) j r)"
  by (cases "find (pq_nonempty q) [0..<3]")
    (auto simp: bufq_priocscan_get_def choice_def use_burst_def Let_def split: prod.splits)

lemma length_reset [simp]: "length (reset_bursts q) = 3"
  by (simp add: reset_bursts_def)

lemma reset_nth [simp]: "i < 3 \<Longrightarrow> reset_bursts q ! i = (q ! i)\<lparr>q_burst := priocscan_burst ! i\<rparr>"
  by (simp add: reset_bursts_def del: upt_Suc)

lemma pq_ok_burst: "pq_ok s i p \<Longrightarrow> n \<le> priocscan_burst ! i \<Longrightarrow> pq_ok s i (p\<lparr>q_burst := n\<rparr>)"
  by (simp add: pq_ok_def)

lemma wf_reset: "priocscan_wf s q \<Longrightarrow> priocscan_wf s (reset_bursts q)"
  by (simp add: priocscan_wf_def pq_ok_burst)

lemma wf_use_burst: "priocscan_wf s q \<Longrightarrow> j < 3 \<Longrightarrow> priocscan_wf s (use_burst j q)"
  unfolding use_burst_def by (rule wf_update) (auto simp: priocscan_wf_def pq_ok_def)

lemma use_burst_nth: "k < length q \<Longrightarrow> use_burst j q ! k =
    (if k = j then (q ! k)\<lparr>q_burst := q_burst (q ! k) - 1\<rparr> else q ! k)"
  by (simp add: use_burst_def)

lemma same_queues_burst [simp]: "length q = 3 \<Longrightarrow> same_queues q (use_burst j q)"
  "length q = 3 \<Longrightarrow> same_queues q (use_burst j (reset_bursts q))"
  by (auto simp: same_queues_def use_burst_nth) (auto simp: use_burst_def)

lemma choice_None: "choice q = None \<longleftrightarrow> (\<forall>j<3. \<not> pq_nonempty q j)"
  using nonempty_first(1,2) [of q] by (fastforce simp: choice_def find_None_iff split: option.splits prod.splits)

lemma choice_Some:
  assumes wf: "priocscan_wf s q" and c: "choice q = Some (j, q1)"
  shows "j < 3" "pq_nonempty q j" "same_queues q q1" "priocscan_wf s q1"
    "(\<forall>k<3. k \<noteq> j \<longrightarrow> \<not> pq_nonempty q k) \<or> (0 < q_burst (q ! j) \<and> q1 = use_burst j q) \<or>
     ((\<forall>k<3. pq_nonempty q k \<longrightarrow> q_burst (q ! k) = 0) \<and> q1 = use_burst j (reset_bursts q))"
proof -
  obtain f where f: "find (pq_nonempty q) [0..<3] = Some f" using c by (auto simp: choice_def split: option.splits)
  note n = nonempty_first [OF f]
  obtain j' single where sc: "priocscan_scan q [f + 1..<3] f True = (j', single)" by fastforce
  note sp = priocscan_scan_spec [OF sc n(2)]
  have l: "length q = 3" using wf by (simp add: priocscan_wf_def)
  have j: "j' < 3" using sp n(1) by auto
  have none: "x = f \<or> x \<in> set [f + 1..<3]" if "x < 3" "pq_nonempty q x" for x
  proof -
    have "\<not> x < f" using n(3) that by blast
    then show ?thesis using that(1) by auto
  qed
  have e: "(j, q1) = (if single then (j', q) else if q_burst (q ! j') = 0
      then (f, use_burst f (reset_bursts q)) else (j', use_burst j' q))"
    using c f sc by (simp add: choice_def)
  consider "single" "j = j'" "q1 = q" | "\<not> single" "q_burst (q ! j') = 0" "j = f" "q1 = use_burst f (reset_bursts q)"
    | "\<not> single" "q_burst (q ! j') > 0" "j = j'" "q1 = use_burst j' q"
    using e by (auto split: if_splits)
  note sel = this
  show j3: "j < 3" by (cases rule: sel) (use j n(1) in simp_all)
  show "priocscan_wf s q1"
    by (cases rule: sel) (use j3 j n(1) wf in \<open>simp_all add: wf_use_burst wf_reset\<close>)
  show "pq_nonempty q j" by (cases rule: sel) (use sp n(2) in simp_all)
  show "same_queues q q1" by (cases rule: sel) (use l in simp_all)
  show "(\<forall>k<3. k \<noteq> j \<longrightarrow> \<not> pq_nonempty q k) \<or> (0 < q_burst (q ! j) \<and> q1 = use_burst j q) \<or>
     ((\<forall>k<3. pq_nonempty q k \<longrightarrow> q_burst (q ! k) = 0) \<and> q1 = use_burst j (reset_bursts q))"
  proof (cases rule: sel)
    case 1
    then have "\<forall>k<3. k \<noteq> j \<longrightarrow> \<not> pq_nonempty q k" using sp none by blast
    then show ?thesis ..
  next
    case 2
    then have "\<forall>k<3. pq_nonempty q k \<longrightarrow> q_burst (q ! k) = 0" using sp none by blast
    then show ?thesis using 2 by blast
  next
    case 3
    then show ?thesis by blast
  qed
qed

lemma serve_law:
  assumes wf: "priocscan_wf s q" and j: "j < 3" "pq_nonempty q j" and sv: "serve q j r = (q', x)"
  shows "\<exists>b. x = Some b \<and> priocscan_wf s q' \<and> b \<in> set (pq_buffers (q ! j)) \<and>
    priocscan_reqs q' = (if r then priocscan_reqs q - {#b#} else priocscan_reqs q) \<and> (\<not> r \<longrightarrow> q' = q) \<and>
    (\<forall>k<3. q_burst (q' ! k) = q_burst (q ! k))"
proof -
  have ok: "pq_ok s j (q ! j)" and l: "j < length q" "length q = 3" using wf j by (auto simp: priocscan_wf_def)
  obtain cq x' where g: "cscan_get (q_queue (q ! j)) r = (cq, x')" by fastforce
  have q': "q' = q[j := (q ! j)\<lparr>q_queue := cq\<rparr>]" "x' = x" using sv g by (simp_all add: serve_def)
  note law = cscan_get_law [OF conjunct1 [OF ok [unfolded pq_ok_def]] g]
  then obtain b where b: "x = Some b" "b \<in> set (pq_buffers (q ! j))"
    "cq_buffers cq = (if r then remove1 b (pq_buffers (q ! j)) else pq_buffers (q ! j))" "\<not> r \<longrightarrow> cq = q_queue (q ! j)"
    using j(2) q' by (auto simp: cscan_empty_def split: option.splits)
  obtain R where R: "priocscan_reqs q = mset (pq_buffers (q ! j)) + R"
    "\<forall>p. priocscan_reqs (q[j := p]) = mset (pq_buffers p) + R" using reqs_split [OF l(1)] by auto
  have "pq_ok s j ((q ! j)\<lparr>q_queue := cq\<rparr>)"
    using ok law b(3) notin_set_remove1 [of _ "pq_buffers (q ! j)" b] by (auto simp: pq_ok_def)
  then have "priocscan_wf s q'" unfolding q' by (rule wf_update [OF wf])
  moreover have "mset (remove1 b (pq_buffers (q ! j))) + R = priocscan_reqs q - {#b#}" using R(1) b(2) by simp
  ultimately show ?thesis using q' b R l by (auto simp: nth_list_update)
qed

lemma reqs_empty: "length q = 3 \<Longrightarrow> priocscan_reqs q = {#} \<longleftrightarrow> (\<forall>j<3. \<not> pq_nonempty q j)"
proof -
  assume l: "length q = 3"
  have "priocscan_reqs q = {#} \<longleftrightarrow> (\<forall>b. b \<notin># priocscan_reqs q)" by auto
  then show ?thesis unfolding in_reqs l cscan_empty_def by (metis empty_iff last_in_set list.set(1))
qed

lemma same_queues_nth: "same_queues q q1 \<Longrightarrow> k < length q \<Longrightarrow> q_queue (q1 ! k) = q_queue (q ! k)"
  by (simp add: same_queues_def)

lemma get_served:
  assumes wf: "priocscan_wf s q" and c: "choice q = Some (j, q1)" and g: "bufq_priocscan_get q r = (q', x)"
  shows "\<exists>b. x = Some b \<and> priocscan_wf s q' \<and> b \<in> set (pq_buffers (q ! j)) \<and>
    priocscan_reqs q' = (if r then priocscan_reqs q - {#b#} else priocscan_reqs q) \<and> (\<not> r \<longrightarrow> q' = q) \<and>
    (r \<longrightarrow> (\<forall>k<3. q_burst (q' ! k) = q_burst (q1 ! k)))"
proof -
  note ch = choice_Some [OF wf c]
  have e: "q_queue (q1 ! j) = q_queue (q ! j)"
    using same_queues_nth [OF ch(3)] ch(1) wf by (simp add: priocscan_wf_def)
  show ?thesis
    using serve_law [OF ch(4) ch(1), of True q' x] serve_law [OF wf ch(1,2), of False q' x] g c e ch(2)
      same_queues_reqs [OF ch(3)]
    by (cases r) (auto simp: priocscan_get_choice)
qed

lemma priocscan_get_law:
  assumes wf: "priocscan_wf s q" and g: "bufq_priocscan_get q r = (q', x)"
  shows "priocscan_wf s q' \<and> (case x of None \<Rightarrow> priocscan_reqs q = {#} \<and> priocscan_reqs q' = {#}
    | Some b \<Rightarrow> b \<in># priocscan_reqs q \<and> priocscan_reqs q' = (if r then priocscan_reqs q - {#b#} else priocscan_reqs q))"
proof (cases "choice q")
  case None
  then have "\<forall>j<3. \<not> pq_nonempty q j" by (simp add: choice_None)
  then have "priocscan_reqs q = {#}" using wf by (simp add: reqs_empty priocscan_wf_def)
  then show ?thesis using wf g None by (auto simp: priocscan_get_choice)
next
  case (Some jq)
  obtain j q1 where c: "choice q = Some (j, q1)" using Some by (cases jq) auto
  obtain b where b: "x = Some b" "priocscan_wf s q'" "b \<in> set (pq_buffers (q ! j))"
    "priocscan_reqs q' = (if r then priocscan_reqs q - {#b#} else priocscan_reqs q)"
    using get_served [OF wf c g] by auto
  have "b \<in># priocscan_reqs q" using b(3) choice_Some(1) [OF wf c] wf in_reqs [of b q] by (auto simp: priocscan_wf_def)
  then show ?thesis using b by simp
qed

lemma priocscan_peek_get:
  assumes wf: "priocscan_wf s q"
  shows "snd (bufq_priocscan_get (fst (bufq_priocscan_get q False)) True) = snd (bufq_priocscan_get q False)"
proof (cases "choice q")
  case (Some jq)
  obtain j q1 where c: "choice q = Some (j, q1)" using Some by (cases jq) auto
  obtain q' x where g: "bufq_priocscan_get q False = (q', x)" by fastforce
  have "q' = q" using get_served [OF wf c g] by auto
  moreover have "q_queue (q1 ! j) = q_queue (q ! j)"
    using choice_Some [OF wf c] wf by (simp add: same_queues_nth priocscan_wf_def)
  ultimately show ?thesis using g c cscan_peek_same [of "q_queue (q ! j)"]
    by (cases "cscan_get (q_queue (q ! j)) True") (auto simp: priocscan_get_choice serve_def split: prod.splits)
qed (simp add: priocscan_get_choice)

lemma priocscan_cancel_from_in:
  "b \<in> set (pq_buffers (q ! i)) \<Longrightarrow> i \<in> set is \<Longrightarrow> \<exists>k \<in> set is. b \<in> set (pq_buffers (q ! k)) \<and>
    priocscan_cancel_from q b is =
      (q[k := (q ! k)\<lparr>q_queue := q_queue (q ! k)\<lparr>cq_buffers := remove1 b (pq_buffers (q ! k))\<rparr>\<rparr>], Some b)"
proof (induction "is")
  case (Cons a "is")
  show ?case
  proof (cases "b \<in> set (pq_buffers (q ! a))")
    case True
    then show ?thesis by (intro bexI [of _ a]) (simp_all add: Let_def)
  next
    case False
    then have "priocscan_cancel_from q b (a # is) = priocscan_cancel_from q b is" "i \<in> set is"
      using Cons.prems by (auto simp: Let_def)
    then show ?thesis using Cons.IH [OF Cons.prems(1)] by auto
  qed
qed simp

lemma priocscan_cancel_from_out:
  "\<forall>i \<in> set is. b \<notin> set (pq_buffers (q ! i)) \<Longrightarrow> priocscan_cancel_from q b is = (q, None)"
  by (induction "is") (auto simp: Let_def)

lemma priocscan_cancel_in:
  assumes wf: "priocscan_wf s q" and b: "b \<in># priocscan_reqs q"
  shows "\<exists>q'. bufq_priocscan_cancel q b = (q', Some b) \<and> priocscan_wf s q' \<and> priocscan_reqs q' = priocscan_reqs q - {#b#}"
proof -
  obtain i where "i \<in> set [0..<3]" "b \<in> set (pq_buffers (q ! i))" using wf b by (auto simp: in_reqs priocscan_wf_def)
  then obtain k where k: "k \<in> set [0..<3]" "b \<in> set (pq_buffers (q ! k))" "bufq_priocscan_cancel q b =
      (q[k := (q ! k)\<lparr>q_queue := q_queue (q ! k)\<lparr>cq_buffers := remove1 b (pq_buffers (q ! k))\<rparr>\<rparr>], Some b)"
    using priocscan_cancel_from_in [of b q i "[0..<3]"] unfolding bufq_priocscan_cancel_def by blast
  have ok: "pq_ok s k (q ! k)" "k < length q" using wf k(1) by (auto simp: priocscan_wf_def)
  obtain R where R: "priocscan_reqs q = mset (pq_buffers (q ! k)) + R"
    "\<forall>p. priocscan_reqs (q[k := p]) = mset (pq_buffers p) + R" using reqs_split [OF ok(2)] by auto
  have "pq_ok s k ((q ! k)\<lparr>q_queue := q_queue (q ! k)\<lparr>cq_buffers := remove1 b (pq_buffers (q ! k))\<rparr>\<rparr>)"
    using ok(1) notin_set_remove1 [of _ "pq_buffers (q ! k)" b] by (auto simp: pq_ok_def cscan_wf_def tree_ok_remove1)
  then show ?thesis using k R wf_update [OF wf] by simp
qed

interpretation priocscan: bufq_strategy "priocscan_wf s" priocscan_reqs bufq_priocscan_put bufq_priocscan_get
    bufq_priocscan_cancel for s
proof
  fix q b r q' x
  assume wf: "priocscan_wf s q"
  show "b_addr b \<notin> addrs (priocscan_reqs q) \<Longrightarrow> priocscan_wf s (bufq_priocscan_put q b) \<and>
    priocscan_reqs (bufq_priocscan_put q b) = add_mset b (priocscan_reqs q)" using wf by (rule priocscan_put_new)
  show "bufq_priocscan_get q r = (q', x) \<Longrightarrow> priocscan_wf s q' \<and>
    (case x of None \<Rightarrow> priocscan_reqs q = {#} \<and> priocscan_reqs q' = {#}
    | Some b \<Rightarrow> b \<in># priocscan_reqs q \<and> priocscan_reqs q' = (if r then priocscan_reqs q - {#b#} else priocscan_reqs q))"
    using wf by (rule priocscan_get_law)
  show "snd (bufq_priocscan_get (fst (bufq_priocscan_get q False)) True) = snd (bufq_priocscan_get q False)"
    using wf by (rule priocscan_peek_get)
  show "b \<in># priocscan_reqs q \<Longrightarrow> \<exists>q'. bufq_priocscan_cancel q b = (q', Some b) \<and> priocscan_wf s q' \<and>
    priocscan_reqs q' = priocscan_reqs q - {#b#}" using wf by (rule priocscan_cancel_in)
  show "b \<notin># priocscan_reqs q \<Longrightarrow> bufq_priocscan_cancel q b = (q, None)"
    using wf by (simp add: bufq_priocscan_cancel_def in_reqs priocscan_wf_def priocscan_cancel_from_out)
qed

section \<open>Bounded waiting of a class\<close>

text \<open>What the other queues may still serve before the queue \<open>i\<close>, over at most one reset.\<close>

definition class_wait :: "nat \<Rightarrow> bufq_priocscan \<Rightarrow> nat" where
  "class_wait i q = (\<Sum>k\<in>{..<3} - {i}. q_burst (q ! k)) +
     (if q_burst (q ! i) = 0 then \<Sum>k\<in>{..<3} - {i}. priocscan_burst ! k else 0)"

lemma class_wait_burst:
  assumes "\<forall>k<3. q_burst (q' ! k) = q_burst (q ! k)" "i < 3"
  shows "class_wait i q' = class_wait i q"
  using assms by (simp add: class_wait_def)

lemma sum_dec_less:
  fixes g :: "nat \<Rightarrow> nat"
  assumes "finite A" "j \<in> A" "0 < g j" "f j = g j - 1" "\<And>k. k \<in> A \<Longrightarrow> k \<noteq> j \<Longrightarrow> f k = g k"
  shows "sum f A < sum g A"
proof -
  have "sum f (A - {j}) = sum g (A - {j})" by (rule sum.cong) (use assms(5) in auto)
  then show ?thesis using assms(1-4) sum.remove [OF assms(1,2), of f] sum.remove [OF assms(1,2), of g] by simp
qed

lemma priocscan_burst_pos: "i < 3 \<Longrightarrow> 0 < priocscan_burst ! i"
  by (auto simp: priocscan_burst_def less_Suc_eq numeral_eq_Suc)

lemma class_wait_choice:
  assumes wf: "priocscan_wf s q" and c: "choice q = Some (j, q1)" and i: "i < 3" "pq_nonempty q i" "i \<noteq> j"
  shows "class_wait i q1 < class_wait i q"
proof -
  note ch = choice_Some [OF wf c]
  have l: "length q = 3" using wf by (simp add: priocscan_wf_def)
  have jin: "j \<in> {..<3} - {i}" using ch(1) i(3) by simp
  consider "0 < q_burst (q ! j)" "q1 = use_burst j q"
    | "\<forall>k<3. pq_nonempty q k \<longrightarrow> q_burst (q ! k) = 0" "q1 = use_burst j (reset_bursts q)"
    using ch(5)
  proof (elim disjE)
    assume "\<forall>k<3. k \<noteq> j \<longrightarrow> \<not> pq_nonempty q k"
    then show thesis using i by blast
  qed (use that in blast)+
  then show ?thesis
  proof cases
    case 1
    have "(\<Sum>k\<in>{..<3} - {i}. q_burst (q1 ! k)) < (\<Sum>k\<in>{..<3} - {i}. q_burst (q ! k))"
      by (rule sum_dec_less [OF _ jin]) (use 1 ch(1) in \<open>auto simp: use_burst_nth l\<close>)
    then show ?thesis using 1(2) i l by (simp add: class_wait_def use_burst_nth)
  next
    case 2
    have "(\<Sum>k\<in>{..<3} - {i}. q_burst (q1 ! k)) < (\<Sum>k\<in>{..<3} - {i}. priocscan_burst ! k)"
      by (rule sum_dec_less [OF _ jin]) (use 2(2) ch(1) priocscan_burst_pos in \<open>auto simp: use_burst_nth\<close>)
    moreover have "q_burst (q1 ! i) \<noteq> 0" using 2(2) i priocscan_burst_pos [OF i(1)] by (simp add: use_burst_nth)
    moreover have "q_burst (q ! i) = 0" using 2(1) i by blast
    ultimately show ?thesis by (simp add: class_wait_def)
  qed
qed

definition class_bound :: "nat \<Rightarrow> nat" where
  "class_bound i = 2 * (\<Sum>k\<in>{..<3} - {i}. priocscan_burst ! k)"

interpretation prio_class: bufq_fair "priocscan_wf s" priocscan_reqs bufq_priocscan_put bufq_priocscan_get
    bufq_priocscan_cancel "\<lambda>b. b_prio b = c" "class_wait (priocscan_priomap c)" "class_bound (priocscan_priomap c)" for s c
proof
  fix q q' b x
  let ?i = "priocscan_priomap c"
  assume wf: "priocscan_wf s q"
  have i: "?i < 3" by (simp add: priocscan_priomap_def split: buf_prio.splits)
  have "(\<Sum>k\<in>{..<3} - {?i}. q_burst (q ! k)) \<le> (\<Sum>k\<in>{..<3} - {?i}. priocscan_burst ! k)"
    by (rule sum_mono) (use wf in \<open>auto simp: priocscan_wf_def pq_ok_def\<close>)
  then show "class_wait ?i q \<le> class_bound ?i" by (simp add: class_wait_def class_bound_def)
  show "class_wait ?i (bufq_priocscan_put q b) \<le> class_wait ?i q"
    by (rule eq_refl, rule class_wait_burst)
      (use wf i in \<open>auto simp: bufq_priocscan_put_def Let_def nth_list_update priocscan_wf_def\<close>)
  assume x: "x \<in># priocscan_reqs q" "b_prio x = c" and g: "bufq_priocscan_get q True = (q', Some b)" "b_prio b \<noteq> c"
  have sel: "bufq_priocscan_selectqueue y = k" if "k < 3" "y \<in> set (pq_buffers (q ! k))" for y k
    using wf that by (auto simp: priocscan_wf_def pq_ok_def)
  have "\<exists>k<3. x \<in> set (pq_buffers (q ! k))" using x(1) wf by (simp add: in_reqs priocscan_wf_def)
  then have "x \<in> set (pq_buffers (q ! ?i))" using sel x(2) by (auto simp: bufq_priocscan_selectqueue_def)
  then have ne: "pq_nonempty q ?i" by (auto simp: cscan_empty_def)
  then have "choice q \<noteq> None" using i by (auto simp: choice_None)
  then obtain j q1 where c: "choice q = Some (j, q1)" by auto
  have b: "b \<in> set (pq_buffers (q ! j))" "\<forall>k<3. q_burst (q' ! k) = q_burst (q1 ! k)"
    using get_served [OF wf c g(1)] by auto
  have "bufq_priocscan_selectqueue b = j" using sel b(1) choice_Some(1) [OF wf c] by blast
  then have "?i \<noteq> j" using g(2) by (auto simp: bufq_priocscan_selectqueue_def priocscan_priomap_def split: buf_prio.splits)
  then show "class_wait ?i q' < class_wait ?i q"
    using class_wait_choice [OF wf c i ne] class_wait_burst [OF b(2) i] by simp
qed

end
