(* ===== verification/Bufq_System.thy ===== *)
theory Bufq_System
  imports Bufq_Priocscan
begin

text \<open>
  The properties of the disk queues: no request is lost or duplicated under any strategy, the
  order each strategy serves requests in, bounded waiting, and the choice of a strategy.
\<close>

section \<open>New queues\<close>

lemma fcfs_init: "fcfs.manages bufq_fcfs_init \<and> fcfs.pending bufq_fcfs_init = {#}"
  by (simp add: bufq_fcfs_init_def)

lemma disksort_init: "disksort.manages s (bufq_disksort_init s) \<and> mset (bq_private (bufq_disksort_init s)) = {#}"
  by (simp add: bufq_disksort_init_def disksort_wf_def)

lemma readprio_init:
  "readprio.manages s (bufq_readprio_init s) \<and> prio_reqs (bq_private (bufq_readprio_init s)) = {#}"
  by (simp add: bufq_readprio_init_def prio_wf_def prio_reqs_def)

lemma priocscan_init:
  "priocscan.manages s (bufq_priocscan_init s) \<and> priocscan_reqs (bq_private (bufq_priocscan_init s)) = {#}"
  by (auto simp: bufq_priocscan_init_def priocscan_wf_def pq_ok_def cscan_wf_def cscan_init_def
      reqs_empty cscan_empty_def)

lemmas init_facts = fcfs_init disksort_init readprio_init priocscan_init

lemmas history_drained_all =
  fcfs.history_drained [OF _ conjunct1 [OF fcfs_init] conjunct2 [OF fcfs_init]]
  disksort.history_drained [OF _ conjunct1 [OF disksort_init] conjunct2 [OF disksort_init]]
  readprio.history_drained [OF _ conjunct1 [OF readprio_init] conjunct2 [OF readprio_init]]
  priocscan.history_drained [OF _ conjunct1 [OF priocscan_init] conjunct2 [OF priocscan_init]]

lemmas peek_then_get_all =
  fcfs.peek_then_get [OF _ conjunct1 [OF fcfs_init] conjunct2 [OF fcfs_init]]
  disksort.peek_then_get [OF _ conjunct1 [OF disksort_init] conjunct2 [OF disksort_init]]
  readprio.peek_then_get [OF _ conjunct1 [OF readprio_init] conjunct2 [OF readprio_init]]
  priocscan.peek_then_get [OF _ conjunct1 [OF priocscan_init] conjunct2 [OF priocscan_init]]

text \<open>Every request put on the queue has been returned once or is returned by draining it.\<close>

definition accounted :: "'s bufq_state \<Rightarrow> buf list \<Rightarrow> buf list \<Rightarrow> bool" where
  "accounted q ins outs \<longleftrightarrow> (\<exists>q' rest. bufq_drain q = Some (q', rest) \<and> mset (outs @ rest) = mset ins)"

definition req :: "nat \<Rightarrow> int \<Rightarrow> bool \<Rightarrow> buf_prio \<Rightarrow> buf" where
  "req a n r p = \<lparr>b_addr = a, b_rawblkno = n, b_cylinder = 0, b_read = r, b_prio = p, b_bcount = 512\<rparr>"

abbreviation "req_a \<equiv> req 1 7 True BPRIO_TIMELIMITED"
abbreviation "req_b \<equiv> req 2 3 False BPRIO_TIMECRITICAL"
abbreviation "req_c \<equiv> req 3 3 False BPRIO_TIMECRITICAL"
abbreviation "req_d \<equiv> req 4 9 True BPRIO_TIMENONCRITICAL"

lemma history_two:
  "b_addr a \<noteq> b_addr b \<Longrightarrow> bufq_history q (bufq_put (bufq_put q a) b) [a, b] []"
  using bufq_history.put [OF bufq_history.put [OF bufq_history.start, of a q], of b] by simp

text \<open>C4. No request is lost or duplicated.  Whatever calls are made on a queue of any of the four
  strategies (a request being put only while it is not on the queue), draining the queue ends
  and returns exactly the requests that were put and neither fetched nor cancelled.\<close>

theorem bufq_no_request_lost:
  "(\<forall>q ins outs. bufq_history bufq_fcfs_init q ins outs \<longrightarrow> accounted q ins outs) \<and>
   (\<forall>s q ins outs. bufq_history (bufq_disksort_init s) q ins outs \<longrightarrow> accounted q ins outs) \<and>
   (\<forall>s q ins outs. bufq_history (bufq_readprio_init s) q ins outs \<longrightarrow> accounted q ins outs) \<and>
   (\<forall>s q ins outs. bufq_history (bufq_priocscan_init s) q ins outs \<longrightarrow> accounted q ins outs)"
  unfolding accounted_def using history_drained_all by blast

theorem bufq_no_request_lost_witness:
  "accounted (bufq_put (bufq_put bufq_fcfs_init req_a) req_b) [req_a, req_b] [] \<and>
   accounted (bufq_put (bufq_put (bufq_disksort_init BUFQ_SORT_RAWBLOCK) req_a) req_b) [req_a, req_b] [] \<and>
   accounted (bufq_put (bufq_put (bufq_readprio_init BUFQ_SORT_CYLINDER) req_a) req_b) [req_a, req_b] [] \<and>
   accounted (bufq_put (bufq_put (bufq_priocscan_init BUFQ_SORT_RAWBLOCK) req_a) req_b) [req_a, req_b] []"
proof (intro conjI)
  have ne: "b_addr req_a \<noteq> b_addr req_b" by (simp add: req_def)
  note h = history_two [OF ne]
  show "accounted (bufq_put (bufq_put bufq_fcfs_init req_a) req_b) [req_a, req_b] []"
    using bufq_no_request_lost h [of bufq_fcfs_init] by blast
  show "accounted (bufq_put (bufq_put (bufq_disksort_init BUFQ_SORT_RAWBLOCK) req_a) req_b) [req_a, req_b] []"
    using bufq_no_request_lost h [of "bufq_disksort_init BUFQ_SORT_RAWBLOCK"] by blast
  show "accounted (bufq_put (bufq_put (bufq_readprio_init BUFQ_SORT_CYLINDER) req_a) req_b) [req_a, req_b] []"
    using bufq_no_request_lost h [of "bufq_readprio_init BUFQ_SORT_CYLINDER"] by blast
  show "accounted (bufq_put (bufq_put (bufq_priocscan_init BUFQ_SORT_RAWBLOCK) req_a) req_b) [req_a, req_b] []"
    using bufq_no_request_lost h [of "bufq_priocscan_init BUFQ_SORT_RAWBLOCK"] by blast
qed

text \<open>A call of \<open>bufq_peek\<close> returns the request the next \<open>bufq_get\<close> returns, under every
  strategy and after any calls.\<close>

theorem bufq_peek_predicts_get:
  "(\<forall>q ins outs. bufq_history bufq_fcfs_init q ins outs \<longrightarrow>
     snd (bufq_get (fst (bufq_peek q))) = snd (bufq_peek q)) \<and>
   (\<forall>s q ins outs. bufq_history (bufq_disksort_init s) q ins outs \<longrightarrow>
     snd (bufq_get (fst (bufq_peek q))) = snd (bufq_peek q)) \<and>
   (\<forall>s q ins outs. bufq_history (bufq_readprio_init s) q ins outs \<longrightarrow>
     snd (bufq_get (fst (bufq_peek q))) = snd (bufq_peek q)) \<and>
   (\<forall>s q ins outs. bufq_history (bufq_priocscan_init s) q ins outs \<longrightarrow>
     snd (bufq_get (fst (bufq_peek q))) = snd (bufq_peek q))"
  using peek_then_get_all by blast

theorem bufq_peek_predicts_get_witness:
  "snd (bufq_get (fst (bufq_peek (bufq_put (bufq_put (bufq_priocscan_init BUFQ_SORT_RAWBLOCK) req_a) req_b))))
     = Some req_b"
proof -
  let ?q = "bufq_put (bufq_put (bufq_priocscan_init BUFQ_SORT_RAWBLOCK) req_a) req_b"
  have "bufq_history (bufq_priocscan_init BUFQ_SORT_RAWBLOCK) ?q [req_a, req_b] []"
    by (rule history_two) (simp add: req_def)
  then have "snd (bufq_get (fst (bufq_peek ?q))) = snd (bufq_peek ?q)" using bufq_peek_predicts_get by blast
  moreover have "snd (bufq_peek ?q) = Some req_b" by code_simp
  ultimately show ?thesis by simp
qed

section \<open>Switching strategies\<close>

interpretation switch: bufq_transfer "prio_wf s" prio_reqs "bufq_prio_put s" bufq_prio_get bufq_prio_cancel
    "priocscan_wf s'" priocscan_reqs bufq_priocscan_put bufq_priocscan_get bufq_priocscan_cancel for s s'
  by (rule bufq_transfer.intro [OF readprio.bufq_strategy_axioms priocscan.bufq_strategy_axioms])

text \<open>\<open>bufq_move\<close> ends, empties the source and puts each of its requests on the
  destination once, next to those already there.\<close>

theorem bufq_move_complete:
  assumes "bufq_history (bufq_readprio_init s) src ins outs"
    and "bufq_history (bufq_priocscan_init s') dst ins' outs'"
    and "mset bps = mset ins - mset outs" "mset bps' = mset ins' - mset outs'"
    and "distinct (map b_addr (bps @ bps'))"
  shows "\<exists>dst' src' rest. bufq_move dst src = Some (dst', src') \<and> snd (bufq_get src') = None \<and>
    (\<exists>e. bufq_drain dst' = Some (e, rest)) \<and> mset rest = mset (bps @ bps')"
proof -
  have o: "readprio.manages s src" "mset bps = prio_reqs (bq_private src)"
    using readprio.history_pending [OF assms(1) conjunct1 [OF readprio_init] conjunct2 [OF readprio_init]] assms(3)
    by simp_all
  have n: "priocscan.manages s' dst" "mset bps' = priocscan_reqs (bq_private dst)"
    using priocscan.history_pending [OF assms(2) conjunct1 [OF priocscan_init] conjunct2 [OF priocscan_init]] assms(4)
    by simp_all
  obtain dst' src' where m: "bufq_move dst src = Some (dst', src')" "readprio.manages s src'"
    "priocscan.manages s' dst'" "prio_reqs (bq_private src') = {#}"
    "priocscan_reqs (bq_private dst') = priocscan_reqs (bq_private dst) + prio_reqs (bq_private src)"
    using switch.bufq_move_all [OF o(1) n(1) assms(5) o(2) n(2)] by auto
  moreover obtain e rest where "bufq_drain dst' = Some (e, rest)" "mset rest = priocscan_reqs (bq_private dst')"
    using priocscan.bufq_drain_all [OF m(3)] by auto
  moreover have "snd (bufq_get src') = None" using readprio.bufq_get_none [OF m(2,4)] by auto
  ultimately show ?thesis using o n by auto
qed

theorem bufq_move_complete_witness:
  "\<exists>dst' src' rest. bufq_move (bufq_put (bufq_put (bufq_priocscan_init BUFQ_SORT_RAWBLOCK) req_c) req_d)
      (bufq_put (bufq_put (bufq_readprio_init BUFQ_SORT_RAWBLOCK) req_a) req_b) = Some (dst', src') \<and>
    snd (bufq_get src') = None \<and> (\<exists>e. bufq_drain dst' = Some (e, rest)) \<and>
    mset rest = mset ([req_a, req_b] @ [req_c, req_d])"
  by (rule bufq_move_complete [OF history_two history_two]) (simp_all add: req_def)

section \<open>The order of service\<close>

text \<open>C29. One-way scan.  After any calls a \<open>disksort\<close> queue consists of two ascending lists, every
  request of the second lying before the first request of the first, and requests are fetched
  in this order.\<close>

theorem disksort_one_way_scan:
  assumes "bufq_history (bufq_disksort_init s) q ins outs"
  shows "\<exists>A B. bq_private q = A @ B \<and> asc s A \<and> asc s B \<and> (A = [] \<longrightarrow> B = []) \<and>
    (\<forall>b \<in> set B. inorder s b (hd A)) \<and> map_option snd (bufq_drain q) = Some (A @ B)"
proof -
  note i = conjunct1 [OF disksort_init [of s]] conjunct2 [OF disksort_init [of s]]
  have m: "disksort.manages s q" using disksort.history_pending [OF assms i] by blast
  obtain A B where AB: "bq_private q = A @ B" "two_runs s A B" using m by (auto simp: disksort_wf_def)
  have "map_option snd (bufq_drain q) = Some xs" if "bq_get q = bufq_disksort_get" "bq_private q = xs"
    for q :: "buf list bufq_state" and xs
    using that
  proof (induction xs arbitrary: q)
    case Nil
    then show ?case by (simp add: bufq_drain.simps [of q] bufq_get_def bufq_disksort_get_def)
  next
    case (Cons x xs)
    obtain e where "bufq_drain (q\<lparr>bq_private := xs\<rparr>) = Some (e, xs)"
      using Cons.IH [of "q\<lparr>bq_private := xs\<rparr>"] Cons.prems by auto
    then show ?case using Cons.prems by (simp add: bufq_drain.simps [of q] bufq_get_def bufq_disksort_get_def)
  qed
  then have "map_option snd (bufq_drain q) = Some (A @ B)" using AB(1) m by blast
  then show ?thesis using AB unfolding two_runs_def by blast
qed

theorem disksort_one_way_scan_witness:
  "\<exists>A B. bq_private (bufq_put (bufq_put (bufq_disksort_init BUFQ_SORT_RAWBLOCK) req_a) req_b) = A @ B \<and>
    asc BUFQ_SORT_RAWBLOCK A \<and> asc BUFQ_SORT_RAWBLOCK B \<and> (A = [] \<longrightarrow> B = []) \<and>
    (\<forall>b \<in> set B. inorder BUFQ_SORT_RAWBLOCK b (hd A)) \<and>
    map_option snd (bufq_drain (bufq_put (bufq_put (bufq_disksort_init BUFQ_SORT_RAWBLOCK) req_a) req_b)) = Some (A @ B)"
  by (rule disksort_one_way_scan [OF history_two]) (simp add: req_def)

text \<open>C30. Starting the search for the place of a write request at \<open>bq_write_next\<close> is only an
  optimisation: after any calls the write list is ascending, and \<open>bufq_put\<close> inserts a write
  request before the first one that is not before it in the whole list.\<close>

theorem readprio_search_from_next:
  assumes h: "bufq_history (bufq_readprio_init s) q ins outs" and w: "\<not> b_read b"
  shows "asc s (bq_write (bq_private q)) \<and>
    bq_write (bq_private (bufq_put q b)) = prio_insert s b (bq_write (bq_private q))"
proof -
  note i = conjunct1 [OF readprio_init [of s]] conjunct2 [OF readprio_init [of s]]
  have m: "readprio.manages s q" using readprio.history_pending [OF h i] by blast
  then have "bufq_put q b = q\<lparr>bq_private := bufq_prio_put s (bq_private q) b\<rparr>" by (simp add: bufq_put_def)
  then show ?thesis using m w bufq_prio_put_write [of s "bq_private q" b] by (simp add: prio_wf_def)
qed

theorem readprio_search_from_next_witness:
  "bq_write (bq_private (bufq_put (bufq_put (bufq_put (bufq_readprio_init BUFQ_SORT_RAWBLOCK) req_b) req_a)
     (req 5 4 False BPRIO_TIMELIMITED))) = [req_b, req 5 4 False BPRIO_TIMELIMITED]"
proof -
  let ?q = "bufq_put (bufq_put (bufq_readprio_init BUFQ_SORT_RAWBLOCK) req_b) req_a"
  let ?w = "req 5 4 False BPRIO_TIMELIMITED"
  have "bq_write (bq_private (bufq_put ?q ?w)) = prio_insert BUFQ_SORT_RAWBLOCK ?w (bq_write (bq_private ?q))"
    by (rule conjunct2, rule readprio_search_from_next [OF history_two]) (simp_all add: req_def)
  also have "\<dots> = [req_b, ?w]" by code_simp
  finally show ?thesis .
qed

section \<open>Bounded waiting\<close>

text \<open>C20. Reads and writes under \<open>readprio\<close>.  While a write request waits at most 49 reads are
  fetched in a row, and while a read request waits at most 15 writes, whatever is put on the
  queue meanwhile.  The calls before may be any; those while the request waits are \<open>bufq_put\<close> and
  \<open>bufq_get\<close>.  With \<open>bufq_peek\<close> and \<open>bufq_cancel\<close> among them there is no such bound: a peek that
  chooses another write clears \<open>bq_read_burst\<close>, and cancelling that write leaves the counter cleared
  (\<open>readprio_cancel_restarts_burst\<close>).\<close>

theorem readprio_bounded_waiting:
  assumes "bufq_history (bufq_readprio_init s) q ins outs" and "x \<in># mset ins - mset outs"
    and "bypass (\<lambda>b. b_read b = b_read x) q (mset ins - mset outs) q' M n"
  shows "n \<le> (if b_read x then 15 else 49)"
proof -
  note i = conjunct1 [OF readprio_init [of s]] conjunct2 [OF readprio_init [of s]]
  have "b_read x \<Longrightarrow> (\<lambda>b. b_read b = b_read x) = b_read" "\<not> b_read x \<Longrightarrow> (\<lambda>b. b_read b = b_read x) = (\<lambda>b. \<not> b_read b)"
    by auto
  then show ?thesis
    using writes.bypass_bounded [OF assms(1) i _ assms(2), of q' M n]
      reads.bypass_bounded [OF assms(1) i _ assms(2), of q' M n] assms(3)
    by (cases "b_read x") simp_all
qed

theorem readprio_bounded_waiting_witness:
  "let q = bufq_put (bufq_put (bufq_readprio_init BUFQ_SORT_RAWBLOCK) req_a) req_b; q' = fst (bufq_get q)
   in bufq_history (bufq_readprio_init BUFQ_SORT_RAWBLOCK) q [req_a, req_b] [] \<and> b_read req_a \<and> \<not> b_read req_b \<and>
      bufq_get q = (q', Some req_a) \<and> bypass (\<lambda>b. b_read b = b_read req_b) q {#req_a, req_b#} q' {#req_b#} 1 \<and>
      (\<forall>q'' M n. bypass (\<lambda>b. b_read b = b_read req_b) q {#req_a, req_b#} q'' M n \<longrightarrow> n \<le> 49)"
proof -
  let ?q = "bufq_put (bufq_put (bufq_readprio_init BUFQ_SORT_RAWBLOCK) req_a) req_b"
  have "snd (bufq_get ?q) = Some req_a" by code_simp
  then have g: "bufq_get ?q = (fst (bufq_get ?q), Some req_a)" by (metis prod.collapse)
  have h: "bufq_history (bufq_readprio_init BUFQ_SORT_RAWBLOCK) ?q [req_a, req_b] []"
    by (rule history_two) (simp add: req_def)
  have r: "b_read req_a" "\<not> b_read req_b" by (simp_all add: req_def)
  have "bypass (\<lambda>b. b_read b = b_read req_b) ?q {#req_a, req_b#} (fst (bufq_get ?q)) ({#req_a, req_b#} - {#req_a#}) (Suc 0)"
    by (rule bypass.get [OF bypass.start g]) (use r in simp)
  moreover have "n \<le> 49" if "bypass (\<lambda>b. b_read b = b_read req_b) ?q {#req_a, req_b#} q'' M n" for q'' M n
    using readprio_bounded_waiting [OF h, of req_b q'' M n] that r(2) by simp
  ultimately show ?thesis using h g r unfolding Let_def by simp
qed

text \<open>The burst of reads starts over after a write that was peeked at is cancelled.  With no read on
  the queue peeking chooses \<open>bq_write_next\<close> and clears \<open>bq_read_burst\<close>, as fetching it would;
  cancelling that write then takes it off the queue, and the counter stays cleared whatever other
  writes still wait.\<close>

lemma readprio_cancel_restarts_burst:
  assumes "bq_next p = None" "bq_read p = []" "bq_write_next p = Some w" "w \<in> set (bq_write p)"
  shows "bufq_prio_get p False = (p\<lparr>bq_next := Some w, bq_read_burst := 0\<rparr>, Some w) \<and>
    bq_read_burst (fst (bufq_prio_cancel (fst (bufq_prio_get p False)) w)) = 0 \<and>
    bq_write (fst (bufq_prio_cancel (fst (bufq_prio_get p False)) w)) = remove1 w (bq_write p)"
  using assms by (simp add: bufq_prio_get_def bufq_prio_cancel_def prio_select_def prio_advance_def Let_def)

text \<open>C19. Classes under \<open>priocscan\<close>.  While a request of a class waits, at most 40 requests of the
  other classes are fetched in a row when the class is time critical, 136 when it is time
  limited and 160 otherwise, whatever is put on the queue meanwhile.  The calls before may be any;
  those while the request waits are \<open>bufq_put\<close> and \<open>bufq_get\<close>: \<open>bufq_peek\<close> would use up the burst
  of the class it finds without fetching its request.\<close>

theorem priocscan_bounded_waiting:
  assumes "bufq_history (bufq_priocscan_init s) q ins outs" and "x \<in># mset ins - mset outs"
    and "bypass (\<lambda>b. b_prio b = b_prio x) q (mset ins - mset outs) q' M n"
  shows "n \<le> (case b_prio x of BPRIO_TIMECRITICAL \<Rightarrow> 40 | BPRIO_TIMELIMITED \<Rightarrow> 136 | BPRIO_TIMENONCRITICAL \<Rightarrow> 160)"
proof -
  note i = conjunct1 [OF priocscan_init [of s]] conjunct2 [OF priocscan_init [of s]]
  have b: "class_bound 0 = 40" "class_bound 1 = 136" "class_bound 2 = 160"
    by code_simp+
  show ?thesis using prio_class.bypass_bounded [OF assms(1) i assms(3,2) refl] b
    by (cases "b_prio x") (simp_all add: priocscan_priomap_def)
qed

theorem priocscan_bounded_waiting_witness:
  "let q = bufq_put (bufq_put (bufq_priocscan_init BUFQ_SORT_RAWBLOCK) req_a) req_b; q' = fst (bufq_get q)
   in bufq_history (bufq_priocscan_init BUFQ_SORT_RAWBLOCK) q [req_a, req_b] [] \<and> b_prio req_a \<noteq> b_prio req_b \<and>
      bufq_get q = (q', Some req_b) \<and> bypass (\<lambda>b. b_prio b = b_prio req_a) q {#req_a, req_b#} q' {#req_a#} 1 \<and>
      (\<forall>q'' M n. bypass (\<lambda>b. b_prio b = b_prio req_a) q {#req_a, req_b#} q'' M n \<longrightarrow>
         n \<le> (case b_prio req_a of BPRIO_TIMECRITICAL \<Rightarrow> 40 | BPRIO_TIMELIMITED \<Rightarrow> 136 | BPRIO_TIMENONCRITICAL \<Rightarrow> 160))"
proof -
  let ?q = "bufq_put (bufq_put (bufq_priocscan_init BUFQ_SORT_RAWBLOCK) req_a) req_b"
  have "snd (bufq_get ?q) = Some req_b" by code_simp
  then have g: "bufq_get ?q = (fst (bufq_get ?q), Some req_b)" by (metis prod.collapse)
  have h: "bufq_history (bufq_priocscan_init BUFQ_SORT_RAWBLOCK) ?q [req_a, req_b] []"
    by (rule history_two) (simp add: req_def)
  have r: "b_prio req_a \<noteq> b_prio req_b" "req_a \<noteq> req_b" by (simp_all add: req_def)
  have "bypass (\<lambda>b. b_prio b = b_prio req_a) ?q {#req_a, req_b#} (fst (bufq_get ?q)) ({#req_a, req_b#} - {#req_b#}) (Suc 0)"
    by (rule bypass.get [OF bypass.start g]) (use r in simp)
  moreover have "n \<le> (case b_prio req_a of BPRIO_TIMECRITICAL \<Rightarrow> 40 | BPRIO_TIMELIMITED \<Rightarrow> 136 | BPRIO_TIMENONCRITICAL \<Rightarrow> 160)"
    if "bypass (\<lambda>b. b_prio b = b_prio req_a) ?q {#req_a, req_b#} q'' M n" for q'' M n
    using priocscan_bounded_waiting [OF h, of req_a q'' M n] that by simp
  ultimately show ?thesis using h g r unfolding Let_def by simp
qed

section \<open>The cyclical scan\<close>

lemma priocscan_get_scan:
  assumes wf: "priocscan_wf s q" and g: "bufq_priocscan_get q True = (q', Some b)"
  defines "j \<equiv> bufq_priocscan_selectqueue b"
  shows "\<exists>cq. cscan_get (q_queue (q ! j)) True = (cq, Some b) \<and> cscan_wf (q_queue (q ! j)) \<and> cq_sortby (q_queue (q ! j)) = s"
proof -
  obtain k q1 where c: "choice q = Some (k, q1)" using g by (cases "choice q") (auto simp: priocscan_get_choice)
  note ch = choice_Some [OF wf c]
  have b: "b \<in> set (pq_buffers (q ! k))" using get_served [OF wf c g] by simp
  have ok: "pq_ok s k (q ! k)" using wf ch(1) by (simp add: priocscan_wf_def)
  then have k: "k = j" using b by (simp add: pq_ok_def j_def)
  have "q_queue (q1 ! k) = q_queue (q ! k)" using ch wf by (simp add: same_queues_nth priocscan_wf_def)
  then show ?thesis using g c ok k by (auto simp: priocscan_get_choice serve_def pq_ok_def split: prod.splits)
qed

text \<open>The scan of a class.  The request \<open>bufq_get\<close> fetches from a \<open>priocscan\<close> queue is, among
  those of its class, the least that is not before the position where the last request of the
  class ended; only when there is none does the scan start over at the least of all.\<close>

theorem priocscan_fetches_next_in_scan:
  assumes h: "bufq_history (bufq_priocscan_init s) q ins outs" and g: "bufq_get q = (q', Some b)"
    and y: "y \<in># mset ins - mset outs" "b_prio y = b_prio b"
  shows "let pos = key_buf (cq_lastkey (q_queue (bq_private q ! bufq_priocscan_selectqueue b)))
    in if inorder s b pos then inorder s y pos \<and> \<not> inorder s y b
       else inorder s y pos \<or> \<not> inorder s y b"
proof -
  note i = conjunct1 [OF priocscan_init [of s]] conjunct2 [OF priocscan_init [of s]]
  have m: "priocscan.manages s q" "priocscan_reqs (bq_private q) = mset ins - mset outs"
    using priocscan.history_pending [OF h i] by auto
  have g': "bufq_priocscan_get (bq_private q) True = (bq_private q', Some b)"
    using g m(1) by (auto simp: bufq_get_def split: prod.splits)
  let ?j = "bufq_priocscan_selectqueue b"
  obtain cq where c: "cscan_get (q_queue (bq_private q ! ?j)) True = (cq, Some b)"
    "cscan_wf (q_queue (bq_private q ! ?j))" "cq_sortby (q_queue (bq_private q ! ?j)) = s"
    using priocscan_get_scan [OF _ g'] m(1) by blast
  obtain k where k: "k < 3" "y \<in> set (pq_buffers (bq_private q ! k))"
    using y(1) m(1) unfolding m(2) [symmetric] in_reqs priocscan_wf_def by auto
  then have "bufq_priocscan_selectqueue y = k" using m(1) by (simp add: priocscan_wf_def pq_ok_def)
  then have "y \<in> set (pq_buffers (bq_private q ! ?j))"
    using k y(2) by (simp add: bufq_priocscan_selectqueue_def)
  from cscan_get_least [OF c(2,1) this] show ?thesis unfolding c(3) Let_def by simp
qed

theorem priocscan_fetches_next_in_scan_witness:
  "let pos = key_buf (cq_lastkey (q_queue (bq_private (bufq_put (bufq_put (bufq_priocscan_init BUFQ_SORT_RAWBLOCK)
        req_b) req_a) ! bufq_priocscan_selectqueue req_b)))
   in if inorder BUFQ_SORT_RAWBLOCK req_b pos then inorder BUFQ_SORT_RAWBLOCK req_b pos \<and> \<not> inorder BUFQ_SORT_RAWBLOCK req_b req_b
      else inorder BUFQ_SORT_RAWBLOCK req_b pos \<or> \<not> inorder BUFQ_SORT_RAWBLOCK req_b req_b"
proof -
  let ?q = "bufq_put (bufq_put (bufq_priocscan_init BUFQ_SORT_RAWBLOCK) req_b) req_a"
  have h: "bufq_history (bufq_priocscan_init BUFQ_SORT_RAWBLOCK) ?q [req_b, req_a] []"
    by (rule history_two) (simp add: req_def)
  have "snd (bufq_get ?q) = Some req_b" by code_simp
  then have g: "bufq_get ?q = (fst (bufq_get ?q), Some req_b)" by (metis prod.collapse)
  show ?thesis by (rule priocscan_fetches_next_in_scan [OF h g]) simp_all
qed

section \<open>Choosing a strategy\<close>

abbreviation (input) candidates :: "bufq_strat list \<Rightarrow> bufq_strat set" where
  "candidates strats \<equiv> {t \<in> set strats. bs_name t \<noteq> ''dummy''}"

lemma select_strat_named:
  "\<exists>t \<in> candidates strats. bs_name t = n \<Longrightarrow>
     \<exists>t \<in> candidates strats. select_strat (Some n) strats bsp = Some t \<and> bs_name t = n"
  by (induction "Some n" strats bsp rule: select_strat.induct) auto

lemma select_strat_best:
  assumes "\<forall>t \<in> candidates strats. strategy \<noteq> Some (bs_name t)" "candidates strats \<noteq> {} \<or> bsp \<noteq> None"
  shows "\<exists>t. select_strat strategy strats bsp = Some t \<and> (t \<in> candidates strats \<or> bsp = Some t) \<and>
    (\<forall>u \<in> candidates strats \<union> set_option bsp. bs_prio u \<le> bs_prio t)"
  using assms
proof (induction strategy strats bsp rule: select_strat.induct)
  case (2 strategy it rest bsp)
  show ?case
  proof (cases "bs_name it = ''dummy''")
    case False
    let ?b = "case bsp of None \<Rightarrow> Some it | Some b \<Rightarrow> if bs_prio it > bs_prio b then Some it else bsp"
    have "strategy \<noteq> Some (bs_name it)" using 2(3) False by auto
    moreover have "?b \<noteq> None" by (auto split: option.splits)
    ultimately obtain t where "select_strat strategy rest ?b = Some t" "t \<in> candidates rest \<or> ?b = Some t"
      "\<forall>u \<in> candidates rest \<union> set_option ?b. bs_prio u \<le> bs_prio t"
      using 2(2) [OF False] 2(3) by auto
    then show ?thesis using False \<open>strategy \<noteq> Some (bs_name it)\<close>
      by (cases bsp) (auto split: if_splits intro: order_trans less_imp_le)
  qed (use 2 in auto)
qed auto

text \<open>\<open>bufq_alloc\<close>.  The strategy asked for is used when it is present.  Otherwise, and when any
  strategy will do, one of the highest priority is used, but with \<open>BUFQ_EXACT\<close> the call fails
  with \<open>ENOENT\<close>.  Flags without a sort criterion sort by raw block number.\<close>

theorem bufq_alloc_chooses:
  assumes "candidates strats \<noteq> {}" and "bufq_sort_flags flags = Some flags'"
  shows "\<exists>t \<in> candidates strats.
    (if \<exists>u \<in> candidates strats. strategy = Some (bs_name u) then
       strategy = Some (bs_name t) \<and> bufq_alloc strats strategy flags = Some (Inr (t, flags'))
     else (\<forall>u \<in> candidates strats. bs_prio u \<le> bs_prio t) \<and>
       bufq_alloc strats strategy flags =
         Some (if strategy \<noteq> None \<and> flags' AND 16 \<noteq> 0 then Inl 2 else Inr (t, flags')))"
proof (cases "\<exists>u \<in> candidates strats. strategy = Some (bs_name u)")
  case True
  then obtain n where n: "strategy = Some n" "\<exists>u \<in> candidates strats. bs_name u = n" by auto
  then obtain t where "t \<in> candidates strats" "select_strat strategy strats None = Some t" "bs_name t = n"
    using select_strat_named [of strats n None] by auto
  then show ?thesis using True n(1) assms(2) by (intro bexI [of _ t]) (auto simp: bufq_alloc_def)
next
  case False
  then obtain t where t: "t \<in> candidates strats" "select_strat strategy strats None = Some t"
    "\<forall>u \<in> candidates strats. bs_prio u \<le> bs_prio t"
    using select_strat_best [of strats strategy None] assms(1) by auto
  then show ?thesis using False assms(2) by (intro bexI [of _ t]) (auto simp: bufq_alloc_def)
qed

text \<open>The strategies of the kernel.\<close>

definition bufq_strats :: "bufq_strat list" where
  "bufq_strats = [\<lparr>bs_name = ''dummy'', bs_prio = 0\<rparr>, \<lparr>bs_name = ''fcfs'', bs_prio = 10\<rparr>,
     \<lparr>bs_name = ''disksort'', bs_prio = 20\<rparr>, \<lparr>bs_name = ''readprio'', bs_prio = 30\<rparr>,
     \<lparr>bs_name = ''priocscan'', bs_prio = 40\<rparr>]"

theorem bufq_alloc_chooses_witness:
  "\<exists>t \<in> candidates bufq_strats.
    (if \<exists>u \<in> candidates bufq_strats. Some ''cfq'' = Some (bs_name u) then
       Some ''cfq'' = Some (bs_name t) \<and> bufq_alloc bufq_strats (Some ''cfq'') 16 = Some (Inr (t, 17))
     else (\<forall>u \<in> candidates bufq_strats. bs_prio u \<le> bs_prio t) \<and>
       bufq_alloc bufq_strats (Some ''cfq'') 16 =
         Some (if Some ''cfq'' \<noteq> None \<and> 17 AND 16 \<noteq> (0 :: u32) then Inl 2 else Inr (t, 17)))"
proof (rule bufq_alloc_chooses)
  have "bufq_strats ! 1 \<in> candidates bufq_strats" by (simp add: bufq_strats_def)
  then show "candidates bufq_strats \<noteq> {}" by blast
  show "bufq_sort_flags 16 = Some 17" by (simp add: bufq_sort_flags_def Let_def)
qed

end
