(* ===== verification/Blist.thy ===== *)
theory Blist
  imports Kernel_Prelude
begin

text \<open>
  The bitmap allocator of \<^verbatim>\<open>sys/kern/subr_blist.c\<close> (swap space and others).  The radix tree
  lies in one array of nodes; a pointer \<open>scan\<close> is the index of a node, and \<open>scan[i]\<close> the node
  \<open>i\<close> further on.  Block numbers and counts are natural numbers, \<open>BLIST_NONE\<close> is the largest
  value of \<open>blist_blkno_t\<close>; the trees that \<open>blist_create\<close> can build have at most \<open>2^29\<close> blocks, so
  no sum of a block number and a count wraps, and counts passed as \<open>int\<close> are below \<open>2^31\<close>.  The computation of the radix, which does wrap, is
  on 32-bit words (\<open>blist_dims\<close>).  The two members of the union are two fields: a node is a leaf or an
  inner node by its level for the whole life of the tree.

  The result \<open>None\<close> stands for a panic, an access outside the array, an undefined shift or a loop
  that does not end.
\<close>

definition BLIST_NONE :: nat where
  "BLIST_NONE = 4294967295"

abbreviation (input) BLIST_BMAP_RADIX :: nat where "BLIST_BMAP_RADIX \<equiv> 32"
abbreviation (input) BLIST_META_RADIX :: nat where "BLIST_META_RADIX \<equiv> 16"

record blmeta =
  bmu_avail :: nat
  bmu_bitmap :: u32
  bm_bighint :: nat

record blist =
  bl_blocks :: nat
  bl_radix :: nat
  bl_skip :: nat
  bl_free :: nat
  bl_root :: "blmeta list"
  bl_rootblks :: nat

section \<open>Leaves\<close>

text \<open>The halving search for one free block.\<close>

function leaf_first :: "u32 \<Rightarrow> u32 \<Rightarrow> nat \<Rightarrow> nat \<Rightarrow> nat" where
  "leaf_first orig msk j r =
     (if j = 0 then r
      else if orig AND msk = 0 then leaf_first (drop_bit j orig) (drop_bit (j div 2) msk) (j div 2) (r + j)
      else leaf_first orig (drop_bit (j div 2) msk) (j div 2) r)"
  by pat_completeness auto
termination by (relation "measure (\<lambda>(orig, msk, j, r). j)") auto

text \<open>The search for a run of free blocks: the position and the mask.\<close>

function leaf_scan :: "u32 \<Rightarrow> u32 \<Rightarrow> nat \<Rightarrow> nat \<Rightarrow> (nat \<times> u32) option" where
  "leaf_scan orig msk j n =
     (if j \<le> n then (if orig AND msk = msk then Some (j, msk) else leaf_scan orig (push_bit 1 msk) (j + 1) n)
      else None)"
  by pat_completeness auto
termination by (relation "measure (\<lambda>(orig, msk, j, n). n + 1 - j)") auto

declare leaf_first.simps [simp del] leaf_scan.simps [simp del]

definition blst_leaf_alloc :: "blmeta list \<Rightarrow> nat \<Rightarrow> nat \<Rightarrow> nat \<Rightarrow> (blmeta list \<times> nat) option" where
  "blst_leaf_alloc mem scan blk count = do {
     n \<leftarrow> aget mem scan;
     let orig = bmu_bitmap n;
     if orig = 0 then do { mem \<leftarrow> aput mem scan (n\<lparr>bm_bighint := 0\<rparr>); Some (mem, BLIST_NONE) }
     else if count = 1 then do {
       let r = leaf_first orig (drop_bit (BLIST_BMAP_RADIX div 2) (- 1)) (BLIST_BMAP_RADIX div 2) 0;
       mem \<leftarrow> aput mem scan (n\<lparr>bmu_bitmap := orig AND NOT (bit_of r)\<rparr>);
       Some (mem, blk + r) }
     else if count = 0 then None
     else case (if count \<le> BLIST_BMAP_RADIX
                then leaf_scan orig (drop_bit (BLIST_BMAP_RADIX - count) (- 1)) 0 (BLIST_BMAP_RADIX - count)
                else None) of
         Some (j, msk) \<Rightarrow> do {
           mem \<leftarrow> aput mem scan (n\<lparr>bmu_bitmap := orig AND NOT msk\<rparr>);
           Some (mem, blk + j) }
       | None \<Rightarrow> do {
           mem \<leftarrow> aput mem scan (n\<lparr>bm_bighint := count - 1\<rparr>);
           Some (mem, BLIST_NONE) } }"

text \<open>The mask of \<open>count\<close> blocks from the position \<open>n\<close> on.\<close>

definition leaf_mask :: "nat \<Rightarrow> nat \<Rightarrow> u32 option" where
  "leaf_mask n count =
     (if n + count \<le> BLIST_BMAP_RADIX \<and> 0 < n + count
      then Some (push_bit n (- 1) AND drop_bit (BLIST_BMAP_RADIX - count - n) (- 1)) else None)"

definition blst_leaf_free :: "blmeta list \<Rightarrow> nat \<Rightarrow> nat \<Rightarrow> nat \<Rightarrow> blmeta list option" where
  "blst_leaf_free mem scan blk count = do {
     n \<leftarrow> aget mem scan;
     msk \<leftarrow> leaf_mask (blk mod BLIST_BMAP_RADIX) count;
     if bmu_bitmap n AND msk \<noteq> 0 then None
     else aput mem scan (n\<lparr>bmu_bitmap := bmu_bitmap n OR msk, bm_bighint := BLIST_BMAP_RADIX\<rparr>) }"

text \<open>\<open>for (nblks = 0; bitmap != 0; nblks++) bitmap &= bitmap - 1\<close>; a word has at most 32 bits.\<close>

fun count_bits :: "nat \<Rightarrow> u32 \<Rightarrow> nat option" where
  "count_bits 0 bitmap = (if bitmap = 0 then Some 0 else None)"
| "count_bits (Suc fuel) bitmap =
     (if bitmap = 0 then Some 0 else map_option Suc (count_bits fuel (bitmap AND (bitmap - 1))))"

definition blst_leaf_fill :: "blmeta list \<Rightarrow> nat \<Rightarrow> nat \<Rightarrow> nat \<Rightarrow> (blmeta list \<times> nat) option" where
  "blst_leaf_fill mem scan blk count = do {
     n \<leftarrow> aget mem scan;
     msk \<leftarrow> leaf_mask (blk mod BLIST_BMAP_RADIX) count;
     nblks \<leftarrow> count_bits BLIST_BMAP_RADIX (bmu_bitmap n AND msk);
     mem \<leftarrow> aput mem scan (n\<lparr>bmu_bitmap := bmu_bitmap n AND NOT msk\<rparr>);
     Some (mem, nblks) }"

section \<open>Inner nodes\<close>

text \<open>The loops that initialise the level below a collapsed node, all free and all allocated.\<close>

function meta_expand :: "blmeta list \<Rightarrow> nat \<Rightarrow> nat \<Rightarrow> nat \<Rightarrow> nat \<Rightarrow> blmeta list option" where
  "meta_expand mem scan radix skip i =
     (if i > skip then Some mem
      else if skip div BLIST_META_RADIX = 0 then None
      else do {
        c \<leftarrow> aget mem (scan + i);
        if bm_bighint c = BLIST_NONE then Some mem
        else do {
          mem \<leftarrow> aput mem (scan + i)
            (if skip div BLIST_META_RADIX = 1 then c\<lparr>bmu_bitmap := - 1, bm_bighint := BLIST_BMAP_RADIX\<rparr>
             else c\<lparr>bm_bighint := radix, bmu_avail := radix\<rparr>);
          meta_expand mem scan radix skip (i + skip div BLIST_META_RADIX) } })"
  by pat_completeness auto
termination by (relation "measure (\<lambda>(mem, scan, radix, skip, i). skip + 1 - i)") auto

function meta_clear :: "blmeta list \<Rightarrow> nat \<Rightarrow> nat \<Rightarrow> nat \<Rightarrow> blmeta list option" where
  "meta_clear mem scan skip i =
     (if i > skip then Some mem
      else if skip div BLIST_META_RADIX = 0 then None
      else do {
        c \<leftarrow> aget mem (scan + i);
        if bm_bighint c = BLIST_NONE then Some mem
        else do {
          mem \<leftarrow> aput mem (scan + i)
            (if skip div BLIST_META_RADIX = 1 then c\<lparr>bm_bighint := 0, bmu_bitmap := 0\<rparr>
             else c\<lparr>bm_bighint := 0, bmu_avail := 0\<rparr>);
          meta_clear mem scan skip (i + skip div BLIST_META_RADIX) } })"
  by pat_completeness auto
termination by (relation "measure (\<lambda>(mem, scan, skip, i). skip + 1 - i)") auto

declare meta_expand.simps [simp del] meta_clear.simps [simp del]

definition alloc_failed :: "blmeta list \<Rightarrow> nat \<Rightarrow> nat \<Rightarrow> (blmeta list \<times> nat) option" where
  "alloc_failed mem scan count = do {
     n \<leftarrow> aget mem scan;
     mem \<leftarrow> (if bm_bighint n \<ge> count then aput mem scan
       (n\<lparr>bm_bighint := (if count = 0 then 2 ^ 32 - 1 else count - 1)\<rparr>) else Some mem);
     Some (mem, BLIST_NONE) }"

definition alloc_done :: "blmeta list \<Rightarrow> nat \<Rightarrow> nat \<Rightarrow> blmeta list option" where
  "alloc_done mem scan count = do {
     n \<leftarrow> aget mem scan;
     let avail = bmu_avail n - count;
     aput mem scan (n\<lparr>bmu_avail := avail, bm_bighint := (if bm_bighint n > avail then avail else bm_bighint n)\<rparr>) }"

function (sequential) blst_meta_alloc ::
    "blmeta list \<Rightarrow> nat \<Rightarrow> nat \<Rightarrow> nat \<Rightarrow> nat \<Rightarrow> nat \<Rightarrow> (blmeta list \<times> nat) option"
  and meta_alloc_loop ::
    "blmeta list \<Rightarrow> nat \<Rightarrow> nat \<Rightarrow> nat \<Rightarrow> nat \<Rightarrow> nat \<Rightarrow> nat \<Rightarrow> (blmeta list \<times> nat) option" where
  "blst_meta_alloc mem scan blk count radix skip = do {
     n \<leftarrow> aget mem scan;
     if bmu_avail n = 0 then do {
       mem \<leftarrow> aput mem scan (n\<lparr>bm_bighint := count\<rparr>);
       Some (mem, BLIST_NONE) }
     else do {
       mem \<leftarrow> (if bmu_avail n = radix then meta_expand mem scan (radix div BLIST_META_RADIX) skip 1 else Some mem);
       meta_alloc_loop mem scan blk count (radix div BLIST_META_RADIX) skip 1 } }"
| "meta_alloc_loop mem scan blk count radix skip i =
     (if i > skip then alloc_failed mem scan count
      else if skip div BLIST_META_RADIX = 0 then None
      else do {
        c \<leftarrow> aget mem (scan + i);
        if bm_bighint c = BLIST_NONE then alloc_failed mem scan count
        else if count \<le> bm_bighint c then do {
          (mem, r) \<leftarrow> (if skip div BLIST_META_RADIX = 1 then blst_leaf_alloc mem (scan + i) blk count
            else blst_meta_alloc mem (scan + i) blk count radix (skip div BLIST_META_RADIX - 1));
          if r \<noteq> BLIST_NONE then do { mem \<leftarrow> alloc_done mem scan count; Some (mem, r) }
          else meta_alloc_loop mem scan (blk + radix) count radix skip (i + skip div BLIST_META_RADIX) }
        else if count > radix then None
        else meta_alloc_loop mem scan (blk + radix) count radix skip (i + skip div BLIST_META_RADIX) })"
  by pat_completeness auto
termination
  by (relation "measures [case_sum (\<lambda>(mem, scan, blk, count, radix, skip). skip)
        (\<lambda>(mem, scan, blk, count, radix, skip, i). skip),
      case_sum (\<lambda>(mem, scan, blk, count, radix, skip). skip + 2)
        (\<lambda>(mem, scan, blk, count, radix, skip, i). skip + 1 - i)]") auto

function (sequential) blst_meta_free ::
    "blmeta list \<Rightarrow> nat \<Rightarrow> nat \<Rightarrow> nat \<Rightarrow> nat \<Rightarrow> nat \<Rightarrow> nat \<Rightarrow> blmeta list option"
  and meta_free_loop ::
    "blmeta list \<Rightarrow> nat \<Rightarrow> nat \<Rightarrow> nat \<Rightarrow> nat \<Rightarrow> nat \<Rightarrow> nat \<Rightarrow> nat \<Rightarrow> blmeta list option" where
  "blst_meta_free mem scan freeBlk count radix skip blk = do {
     n \<leftarrow> aget mem scan;
     mem \<leftarrow> (if bmu_avail n = 0 then do {
               mem \<leftarrow> aput mem scan (n\<lparr>bmu_avail := count, bm_bighint := count\<rparr>);
               if count \<noteq> radix then meta_clear mem scan skip 1 else Some mem }
             else aput mem scan (n\<lparr>bmu_avail := bmu_avail n + count\<rparr>));
     n \<leftarrow> aget mem scan;
     if bmu_avail n = radix then Some mem
     else if bmu_avail n > radix then None
     else
       let radix = radix div BLIST_META_RADIX; i = (freeBlk - blk) div radix
       in meta_free_loop mem scan freeBlk count radix skip (blk + i * radix)
            (i * (skip div BLIST_META_RADIX) + 1) }"
| "meta_free_loop mem scan freeBlk count radix skip blk i =
     (if i \<le> skip \<and> blk < freeBlk + count then
        if skip div BLIST_META_RADIX = 0 then None
        else do {
          let v = min (blk + radix - freeBlk) count;
          n \<leftarrow> aget mem scan;
          if bm_bighint n = BLIST_NONE then None
          else do {
            mem \<leftarrow> (if skip div BLIST_META_RADIX = 1 then blst_leaf_free mem (scan + i) freeBlk v
              else blst_meta_free mem (scan + i) freeBlk v radix (skip div BLIST_META_RADIX - 1) blk);
            n \<leftarrow> aget mem scan;
            c \<leftarrow> aget mem (scan + i);
            mem \<leftarrow> (if bm_bighint n < bm_bighint c then aput mem scan (n\<lparr>bm_bighint := bm_bighint c\<rparr>) else Some mem);
            meta_free_loop mem scan (freeBlk + v) (count - v) radix skip (blk + radix)
              (i + skip div BLIST_META_RADIX) } }
      else Some mem)"
  by pat_completeness auto
termination
  by (relation "measures [case_sum (\<lambda>(mem, scan, freeBlk, count, radix, skip, blk). skip)
        (\<lambda>(mem, scan, freeBlk, count, radix, skip, blk, i). skip),
      case_sum (\<lambda>(mem, scan, freeBlk, count, radix, skip, blk). skip + 2)
        (\<lambda>(mem, scan, freeBlk, count, radix, skip, blk, i). skip + 1 - i)]") auto

function (sequential) blst_meta_fill ::
    "blmeta list \<Rightarrow> nat \<Rightarrow> nat \<Rightarrow> nat \<Rightarrow> nat \<Rightarrow> nat \<Rightarrow> nat \<Rightarrow> (blmeta list \<times> nat) option"
  and meta_fill_loop ::
    "blmeta list \<Rightarrow> nat \<Rightarrow> nat \<Rightarrow> nat \<Rightarrow> nat \<Rightarrow> nat \<Rightarrow> nat \<Rightarrow> nat \<Rightarrow> nat \<Rightarrow> (blmeta list \<times> nat) option" where
  "blst_meta_fill mem scan allocBlk count radix skip blk = do {
     n \<leftarrow> aget mem scan;
     if count = radix \<or> bmu_avail n = 0 then do {
       mem \<leftarrow> aput mem scan (n\<lparr>bmu_avail := 0, bm_bighint := count\<rparr>);
       Some (mem, bmu_avail n) }
     else if count > radix then None
     else do {
       mem \<leftarrow> (if bmu_avail n = radix then meta_expand mem scan (radix div BLIST_META_RADIX) skip 1 else Some mem);
       let radix = radix div BLIST_META_RADIX;
       let i = (allocBlk - blk) div radix;
       (mem, nblks) \<leftarrow> meta_fill_loop mem scan allocBlk count radix skip (blk + i * radix)
         (i * (skip div BLIST_META_RADIX) + 1) 0;
       n \<leftarrow> aget mem scan;
       mem \<leftarrow> aput mem scan (n\<lparr>bmu_avail := bmu_avail n - nblks\<rparr>);
       Some (mem, nblks) } }"
| "meta_fill_loop mem scan allocBlk count radix skip blk i nblks =
     (if i \<le> skip \<and> blk < allocBlk + count then
        if skip div BLIST_META_RADIX = 0 then None
        else do {
          let v = min (blk + radix - allocBlk) count;
          n \<leftarrow> aget mem scan;
          if bm_bighint n = BLIST_NONE then None
          else do {
            (mem, m) \<leftarrow> (if skip div BLIST_META_RADIX = 1 then blst_leaf_fill mem (scan + i) allocBlk v
              else blst_meta_fill mem (scan + i) allocBlk v radix (skip div BLIST_META_RADIX - 1) blk);
            meta_fill_loop mem scan (allocBlk + v) (count - v) radix skip (blk + radix)
              (i + skip div BLIST_META_RADIX) (nblks + m) } }
      else Some (mem, nblks))"
  by pat_completeness auto
termination
  by (relation "measures [case_sum (\<lambda>(mem, scan, allocBlk, count, radix, skip, blk). skip)
        (\<lambda>(mem, scan, allocBlk, count, radix, skip, blk, i, nblks). skip),
      case_sum (\<lambda>(mem, scan, allocBlk, count, radix, skip, blk). skip + 2)
        (\<lambda>(mem, scan, allocBlk, count, radix, skip, blk, i, nblks). skip + 1 - i)]") auto

declare blst_meta_alloc.simps [simp del] meta_alloc_loop.simps [simp del]
  blst_meta_free.simps [simp del] meta_free_loop.simps [simp del]
  blst_meta_fill.simps [simp del] meta_fill_loop.simps [simp del]

section \<open>Creation\<close>

text \<open>\<open>blst_radix_init\<close> with the array, or \<open>None\<close> for the null pointer of the run that only
  computes the size.\<close>

definition node_put :: "blmeta list option \<Rightarrow> nat \<Rightarrow> (blmeta \<Rightarrow> blmeta) \<Rightarrow> blmeta list option option" where
  "node_put memp scan f =
     (case memp of None \<Rightarrow> Some None
      | Some mem \<Rightarrow> do { n \<leftarrow> aget mem scan; mem \<leftarrow> aput mem scan (f n); Some (Some mem) })"

function (sequential) blst_radix_init ::
    "blmeta list option \<Rightarrow> nat \<Rightarrow> nat \<Rightarrow> nat \<Rightarrow> nat \<Rightarrow> (blmeta list option \<times> nat) option"
  and radix_init_loop ::
    "blmeta list option \<Rightarrow> nat \<Rightarrow> nat \<Rightarrow> nat \<Rightarrow> nat \<Rightarrow> nat \<Rightarrow> nat \<Rightarrow> (blmeta list option \<times> nat) option" where
  "blst_radix_init mem scan radix skip count =
     (if radix = BLIST_BMAP_RADIX then do {
        mem \<leftarrow> node_put mem scan (\<lambda>n. n\<lparr>bm_bighint := 0, bmu_bitmap := 0\<rparr>);
        Some (mem, 0) }
      else do {
        mem \<leftarrow> node_put mem scan (\<lambda>n. n\<lparr>bm_bighint := 0, bmu_avail := 0\<rparr>);
        radix_init_loop mem scan (radix div BLIST_META_RADIX) skip count 1 0 })"
| "radix_init_loop mem scan radix skip count i memindex =
     (if i > skip then Some (mem, if memindex < i then i else memindex)
      else if skip div BLIST_META_RADIX = 0 then None
      else if count > 0 then do {
        (mem, k) \<leftarrow> blst_radix_init mem (scan + i) radix (skip div BLIST_META_RADIX - 1)
          (if count \<ge> radix then radix else count);
        radix_init_loop mem scan radix skip (if count \<ge> radix then count - radix else 0)
          (i + skip div BLIST_META_RADIX) (i + k) }
      else do {
        mem \<leftarrow> node_put mem (scan + i) (\<lambda>n. n\<lparr>bm_bighint := BLIST_NONE\<rparr>);
        Some (mem, if memindex < i then i else memindex) })"
  by pat_completeness auto
termination
  by (relation "measures [case_sum (\<lambda>(mem, scan, radix, skip, count). skip)
        (\<lambda>(mem, scan, radix, skip, count, i, memindex). skip),
      case_sum (\<lambda>(mem, scan, radix, skip, count). skip + 2)
        (\<lambda>(mem, scan, radix, skip, count, i, memindex). skip + 1 - i)]") auto

declare blst_radix_init.simps [simp del] radix_init_loop.simps [simp del]

text \<open>The loop that computes the radix and the skip, in 32 bits.\<close>

partial_function (option) blist_dims :: "u32 \<Rightarrow> u32 \<Rightarrow> u32 \<Rightarrow> (u32 \<times> u32) option" where
  "blist_dims blocks radix skip =
     (if radix < blocks then blist_dims blocks (radix * 16) ((skip + 1) * 16) else Some (radix, skip))"

declare blist_dims.simps [code]

text \<open>\<open>junk\<close> is what the memory of the tree holds before it is initialised.\<close>

definition blist_create :: "(nat \<Rightarrow> blmeta) \<Rightarrow> u32 \<Rightarrow> blist option" where
  "blist_create junk blocks = do {
     (radix, skip) \<leftarrow> blist_dims blocks 32 0;
     (_, k) \<leftarrow> blst_radix_init None 0 (unat radix) (unat skip) (unat blocks);
     (root, _) \<leftarrow> blst_radix_init (Some (map junk [0..<1 + k])) 0 (unat radix) (unat skip) (unat blocks);
     root \<leftarrow> root;
     Some \<lparr>bl_blocks = unat blocks, bl_radix = unat radix, bl_skip = unat skip, bl_free = 0,
       bl_root = root, bl_rootblks = 1 + k\<rparr> }"

section \<open>The interface\<close>

definition blist_alloc :: "blist \<Rightarrow> nat \<Rightarrow> (blist \<times> nat) option" where
  "blist_alloc bl count = do {
     (root, blk) \<leftarrow> (if bl_radix bl = BLIST_BMAP_RADIX then blst_leaf_alloc (bl_root bl) 0 0 count
       else blst_meta_alloc (bl_root bl) 0 0 count (bl_radix bl) (bl_skip bl));
     Some (bl\<lparr>bl_root := root, bl_free := (if blk \<noteq> BLIST_NONE then bl_free bl - count else bl_free bl)\<rparr>, blk) }"

definition blist_free :: "blist \<Rightarrow> nat \<Rightarrow> nat \<Rightarrow> blist option" where
  "blist_free bl blkno count = do {
     root \<leftarrow> (if bl_radix bl = BLIST_BMAP_RADIX then blst_leaf_free (bl_root bl) 0 blkno count
       else blst_meta_free (bl_root bl) 0 blkno count (bl_radix bl) (bl_skip bl) 0);
     Some (bl\<lparr>bl_root := root, bl_free := bl_free bl + count\<rparr>) }"

definition blist_fill :: "blist \<Rightarrow> nat \<Rightarrow> nat \<Rightarrow> (blist \<times> nat) option" where
  "blist_fill bl blkno count = do {
     (root, filled) \<leftarrow> (if bl_radix bl = BLIST_BMAP_RADIX then blst_leaf_fill (bl_root bl) 0 blkno count
       else blst_meta_fill (bl_root bl) 0 blkno count (bl_radix bl) (bl_skip bl) 0);
     Some (bl\<lparr>bl_root := root, bl_free := bl_free bl - filled\<rparr>, filled) }"

text \<open>\<open>blst_copy\<close>: the loop over the bits of a leaf, and the walk over the tree.\<close>

fun copy_bits :: "u32 \<Rightarrow> nat \<Rightarrow> nat list \<Rightarrow> blist \<Rightarrow> blist option" where
  "copy_bits v blk [] dest = Some dest"
| "copy_bits v blk (j # js) dest =
     (if v AND bit_of j \<noteq> 0 then do { dest \<leftarrow> blist_free dest (blk + j) 1; copy_bits v blk js dest }
      else copy_bits v blk js dest)"

function (sequential) blst_copy ::
    "blmeta list \<Rightarrow> nat \<Rightarrow> nat \<Rightarrow> nat \<Rightarrow> nat \<Rightarrow> blist \<Rightarrow> nat \<Rightarrow> blist option"
  and copy_loop ::
    "blmeta list \<Rightarrow> nat \<Rightarrow> nat \<Rightarrow> nat \<Rightarrow> nat \<Rightarrow> blist \<Rightarrow> nat \<Rightarrow> nat \<Rightarrow> blist option" where
  "blst_copy mem scan blk radix skip dest count = do {
     n \<leftarrow> aget mem scan;
     if radix = BLIST_BMAP_RADIX then
       let v = bmu_bitmap n
       in if v = - 1 then blist_free dest blk count
          else if v \<noteq> 0 then copy_bits v blk [0..<min BLIST_BMAP_RADIX count] dest
          else Some dest
     else if bmu_avail n = 0 then Some dest
     else if bmu_avail n = radix then
       if count < radix then blist_free dest blk count else blist_free dest blk radix
     else copy_loop mem scan blk (radix div BLIST_META_RADIX) skip dest count 1 }"
| "copy_loop mem scan blk radix skip dest count i =
     (if count = 0 \<or> i > skip then Some dest
      else if skip div BLIST_META_RADIX = 0 then None
      else do {
        c \<leftarrow> aget mem (scan + i);
        if bm_bighint c = BLIST_NONE then Some dest
        else do {
          dest \<leftarrow> blst_copy mem (scan + i) blk radix (skip div BLIST_META_RADIX - 1) dest
            (if count \<ge> radix then radix else count);
          copy_loop mem scan (blk + radix) radix skip dest (if count \<ge> radix then count - radix else 0)
            (i + skip div BLIST_META_RADIX) } })"
  by pat_completeness auto
termination
  by (relation "measures [case_sum (\<lambda>(mem, scan, blk, radix, skip, dest, count). skip)
        (\<lambda>(mem, scan, blk, radix, skip, dest, count, i). skip),
      case_sum (\<lambda>(mem, scan, blk, radix, skip, dest, count). skip + 2)
        (\<lambda>(mem, scan, blk, radix, skip, dest, count, i). skip + 1 - i)]") auto

declare blst_copy.simps [simp del] copy_loop.simps [simp del]

definition blist_resize :: "(nat \<Rightarrow> blmeta) \<Rightarrow> blist \<Rightarrow> u32 \<Rightarrow> bool \<Rightarrow> blist option" where
  "blist_resize junk save count freenew = do {
     newbl \<leftarrow> blist_create junk count;
     let count = (if unat count > bl_blocks save then bl_blocks save else unat count);
     newbl \<leftarrow> blst_copy (bl_root save) 0 0 (bl_radix save) (bl_skip save) newbl count;
     if freenew \<and> count < bl_blocks newbl then blist_free newbl count (bl_blocks newbl - count)
     else Some newbl }"

end
