(* ===== verification/Blist_Leaf.thy ===== *)
theory Blist_Leaf
  imports Blist
begin

text \<open>
  The leaves of the radix tree: the searches, masks and the bit count, related to the set of
  free blocks of a bitmap.
\<close>

abbreviation bits :: "u32 \<Rightarrow> nat set" where
  "bits w \<equiv> {j. bit w j}"

lemma bits_less: "j \<in> bits w \<Longrightarrow> j < 32"
  using bit_imp_le_length [of w j] by simp

lemma finite_bits [simp]: "finite (bits w)"
  by (rule finite_subset [of _ "{..<32}"]) (use bits_less in auto)

lemma bits_eq_iff: "bits v = bits w \<longleftrightarrow> v = w"
  by (auto intro: bit_word_eqI)

lemma bits_empty_iff: "bits w = {} \<longleftrightarrow> w = 0"
  using bits_eq_iff [of w 0] by simp

lemma drop_bit_full: "drop_bit k (- 1 :: u32) = mask (32 - k)"
  by (rule bit_word_eqI) (auto simp: bit_drop_bit_eq bit_mask_iff)

lemma bits_run: "bits (push_bit j (mask c)) = {j..<j + c} \<inter> {..<32}"
  by (auto simp: bit_push_bit_iff bit_mask_iff)

lemma bits_minus_one: "bits (- 1) = {..<32}"
  by auto

lemma bits_ops [simp]:
  "bits (v AND NOT m) = bits v - bits m" "bits (v OR m) = bits v \<union> bits m" "bits (v AND m) = bits v \<inter> bits m"
  using bits_less by (auto simp: bit_simps)

lemma and_mask_subset: "v AND m = m \<longleftrightarrow> bits m \<subseteq> bits v"
  using bits_eq_iff [of "v AND m" m] by auto

lemma and_zero_disjoint: "v AND m = 0 \<longleftrightarrow> bits m \<inter> bits v = {}"
  using bits_empty_iff [of "v AND m"] by auto

section \<open>One block\<close>

lemma leaf_first_least:
  "bit w i \<Longrightarrow> (\<forall>k<i. \<not> bit w k) \<Longrightarrow> i < 2 ^ Suc e \<Longrightarrow> e \<le> 4 \<Longrightarrow> leaf_first w (mask (2 ^ e)) (2 ^ e) r = r + i"
proof (induction e arbitrary: w i r)
  case 0
  then have "i = 0 \<or> i = 1" by auto
  moreover have "w AND 1 = 0 \<longleftrightarrow> \<not> bit w 0" using and_zero_disjoint [of w 1] by (auto simp: bit_1_iff)
  ultimately show ?case using 0
    by (auto simp: leaf_first.simps [of w] leaf_first.simps [of _ _ 0] leaf_first.simps [of "drop_bit (Suc 0) w"])
next
  case (Suc e)
  let ?h = "2 ^ Suc e :: nat"
  have "?h \<le> 2 ^ 4" using Suc.prems(4) by (intro power_increasing) simp_all
  then have half: "?h div 2 = 2 ^ e" "drop_bit (2 ^ e) (mask ?h :: u32) = mask (2 ^ e)"
    by (auto intro!: bit_word_eqI simp: bit_drop_bit_eq bit_mask_iff)
  have low: "w AND mask ?h = 0 \<longleftrightarrow> ?h \<le> i"
    using Suc.prems(1,2) bits_less [of i w] by (auto simp: and_zero_disjoint bit_mask_iff disjoint_iff not_le)
  show ?case
  proof (cases "?h \<le> i")
    case True
    have "leaf_first (drop_bit ?h w) (mask (2 ^ e)) (2 ^ e) (r + ?h) = r + ?h + (i - ?h)"
      by (rule Suc.IH) (use Suc.prems True in \<open>auto simp: bit_drop_bit_eq\<close>)
    then show ?thesis using True low by (subst leaf_first.simps) (simp only: half, simp)
  next
    case False
    have "leaf_first w (mask (2 ^ e)) (2 ^ e) r = r + i"
      by (rule Suc.IH) (use Suc.prems False in auto)
    then show ?thesis using False low by (subst leaf_first.simps) (simp only: half, simp)
  qed
qed

lemma leaf_first_bit:
  assumes "w \<noteq> 0"
  shows "bit w (leaf_first w (mask 16) 16 0)"
proof -
  obtain j where "bit w j" using assms bits_empty_iff [of w] by blast
  then have b: "bit w (LEAST j. bit w j)" by (rule LeastI)
  have l: "\<forall>k < (LEAST j. bit w j). \<not> bit w k" using not_less_Least by blast
  have p: "(2::nat) ^ Suc 4 = 32" "(2::nat) ^ 4 = 16" by simp_all
  have "(LEAST j. bit w j) < 2 ^ Suc 4" unfolding p using b bits_less [of _ w] by blast
  from leaf_first_least [OF b l this order_refl, of 0] show ?thesis using b unfolding p by (simp only: add_0)
qed

section \<open>A run of blocks\<close>

lemma leaf_scan_step:
  "leaf_scan w (push_bit j (mask c)) j n = (if j \<le> n then
     if w AND push_bit j (mask c) = push_bit j (mask c) then Some (j, push_bit j (mask c))
     else leaf_scan w (push_bit (Suc j) (mask c)) (Suc j) n else None)"
  by (subst leaf_scan.simps) (simp only: push_bit_push_bit Suc_eq_plus1 add.commute)

lemma leaf_scan_run:
  assumes "leaf_scan w (push_bit j (mask c)) j n = Some (k, m)" "n + c = 32"
  shows "j \<le> k \<and> k \<le> n \<and> bits m = {k..<k + c} \<and> {k..<k + c} \<subseteq> bits w"
  using assms
proof (induction "n + 1 - j" arbitrary: j)
  case 0
  then show ?case by (simp add: leaf_scan_step)
next
  case (Suc x)
  have run: "j \<le> n" "bits (push_bit j (mask c)) = {j..<j + c}" using Suc.hyps(2) Suc.prems(2) by (auto simp: bits_run)
  show ?case
  proof (cases "w AND push_bit j (mask c) = push_bit j (mask c)")
    case True
    then have "k = j" "m = push_bit j (mask c)" using Suc.prems(1) run(1) by (auto simp: leaf_scan_step [of w j])
    then show ?thesis using run True unfolding and_mask_subset by simp
  next
    case False
    then have "leaf_scan w (push_bit (Suc j) (mask c)) (Suc j) n = Some (k, m)"
      using Suc.prems(1) run(1) by (simp only: leaf_scan_step [of w j] if_True if_False)
    then have "Suc j \<le> k \<and> k \<le> n \<and> bits m = {k..<k + c} \<and> {k..<k + c} \<subseteq> bits w"
      by (rule Suc.hyps(1) [rotated]) (use Suc.hyps(2) Suc.prems(2) in auto)
    then show ?thesis by simp
  qed
qed

lemma leaf_scan_none:
  assumes "leaf_scan w (push_bit j (mask c)) j n = None" "n + c = 32" "j \<le> k" "k \<le> n"
  shows "\<not> {k..<k + c} \<subseteq> bits w"
  using assms
proof (induction "n + 1 - j" arbitrary: j)
  case (Suc x)
  have run: "j \<le> n" "bits (push_bit j (mask c)) = {j..<j + c}" using Suc.prems by (auto simp: bits_run)
  have "\<not> w AND push_bit j (mask c) = push_bit j (mask c)" using Suc.prems(1) run(1)
    by (auto simp: leaf_scan_step [of w j])
  moreover from this have "leaf_scan w (push_bit (Suc j) (mask c)) (Suc j) n = None"
    using Suc.prems(1) run(1) by (simp only: leaf_scan_step [of w j] if_True if_False)
  ultimately show ?case using Suc.hyps(1) [of "Suc j"] Suc.hyps(2) Suc.prems run(2)
    unfolding and_mask_subset by (cases "k = j") auto
qed simp

section \<open>Masks and counting\<close>

lemma leaf_mask_run:
  "0 < count \<Longrightarrow> n + count \<le> 32 \<Longrightarrow> \<exists>m. leaf_mask n count = Some m \<and> bits m = {n..<n + count}"
  by (auto simp: leaf_mask_def drop_bit_full bit_push_bit_iff bit_mask_iff bit_and_iff bit_not_iff_eq)

lemma pred_clears_least:
  "n > 0 \<Longrightarrow> \<exists>i. bit n i \<and> {j. bit (n AND (n - 1)) j} = {j. bit n j} - {i}" for n :: nat
proof (induction n rule: less_induct)
  case (less n)
  show ?case
  proof (cases "even n")
    case True
    then obtain a where a: "n = 2 * a" "0 < a" using less.prems by (auto elim!: evenE)
    then obtain i where i: "bit a i" "{j. bit (a AND (a - 1)) j} = {j. bit a j} - {i}" using less.IH [of a] by auto
    have n1: "n - 1 = 1 + 2 * (a - 1)" using a by simp
    have c: "bit (a AND (a - 1)) k \<longleftrightarrow> bit a k \<and> k \<noteq> i" for k using i(2) by blast
    have "bit (n AND (n - 1)) j \<longleftrightarrow> bit n j \<and> j \<noteq> Suc i" for j
    proof (cases j)
      case (Suc k)
      have "bit n j = bit a k" "bit (n - 1) j = bit (a - 1) k" unfolding n1 using a(1) Suc by (simp_all add: bit_Suc)
      then show ?thesis using c [of k] Suc by (auto simp: bit_and_iff)
    qed (use True in \<open>simp add: bit_0 even_and_iff\<close>)
    moreover have "bit n (Suc i)" using i a by (simp add: bit_Suc)
    ultimately show ?thesis by (intro exI [of _ "Suc i"]) auto
  next
    case False
    then obtain a where a: "n = Suc (2 * a)" by (auto elim!: oddE)
    have "bit (n AND (n - 1)) j \<longleftrightarrow> bit n j \<and> j \<noteq> 0" for j
    proof (cases j)
      case (Suc k)
      have "bit n j = bit a k" "bit (n - 1) j = bit a k" unfolding a using Suc by (simp_all add: bit_Suc)
      then show ?thesis using Suc by (simp add: bit_and_iff)
    qed (simp add: a bit_0 even_and_iff)
    then show ?thesis using a by (intro exI [of _ 0]) (auto simp: bit_0)
  qed
qed

lemma bits_pred:
  assumes "w \<noteq> 0"
  shows "\<exists>i \<in> bits w. bits (w AND (w - 1)) = bits w - {i}"
proof -
  have b: "bit (unat v) j \<longleftrightarrow> bit v j" for v :: u32 and j
    using bit_imp_le_length [of v j] by (auto simp: bit_unsigned_iff)
  have "unat (w AND (w - 1)) = unat w AND (unat w - 1)"
    using unat_minus_one [OF assms] by (simp add: unsigned_and_eq)
  moreover have "0 < unat w" using assms by (simp add: unat_gt_0)
  ultimately show ?thesis using pred_clears_least [of "unat w"] b by (metis (no_types, lifting) Collect_cong mem_Collect_eq)
qed

lemma count_bits_card: "card (bits w) \<le> fuel \<Longrightarrow> count_bits fuel w = Some (card (bits w))"
proof (induction fuel w rule: count_bits.induct)
  case (1 w)
  then show ?case using bits_empty_iff [of w] by auto
next
  case (2 fuel w)
  show ?case
  proof (cases "w = 0")
    case False
    then obtain i where "i \<in> bits w" "bits (w AND (w - 1)) = bits w - {i}" using bits_pred by blast
    then have c: "Suc (card (bits (w AND (w - 1)))) = card (bits w)" by (metis card_Suc_Diff1 finite_bits)
    then show ?thesis using False 2 by (simp del: bits_ops)
  qed simp
qed

lemma card_bits: "card (bits w) \<le> 32"
  using card_mono [of "{..<32}" "bits w"] bits_less by auto

lemma count_bits_32 [simp]: "count_bits 32 w = Some (card (bits w))"
  by (rule count_bits_card [OF card_bits])

end
