(* ===== verification/Blist_Tree.thy ===== *)
theory Blist_Tree
  imports Blist_Leaf
begin

text \<open>
  The radix tree in its array.  \<open>shape\<close> says where the nodes and terminators of a subtree lie,
  \<open>node\<close> that a subtree represents a set of free blocks; both look only at the part of the
  array that belongs to the subtree.
\<close>

section \<open>Layout\<close>

primrec sz :: "nat \<Rightarrow> nat" where
  "sz 0 = 1"
| "sz (Suc d) = 1 + 16 * sz d"

primrec rad :: "nat \<Rightarrow> nat" where
  "rad 0 = 32"
| "rad (Suc d) = 16 * rad d"

text \<open>The distance of the child \<open>k\<close> from its parent.\<close>

definition off :: "nat \<Rightarrow> nat \<Rightarrow> nat" where
  "off d k = 1 + k * sz d"

definition kid :: "nat \<Rightarrow> nat \<Rightarrow> nat \<Rightarrow> nat" where
  "kid s d k = s + off d k"

lemma sz_pos [simp]: "0 < sz d" "Suc 0 \<le> sz d"
  by (induction d) auto

lemma rad_ge: "32 \<le> rad d"
  by (induction d) auto

lemma rad_pos [simp]: "0 < rad d"
  using rad_ge [of d] by linarith

lemma sz_rad_ne [simp]: "sz d \<noteq> 0" "rad d \<noteq> 0"
  using sz_pos(1) [of d] rad_pos [of d] by linarith+

lemma kid_block: "k < 16 \<Longrightarrow> k * r + r \<le> 16 * (r::nat)"
proof -
  assume "k < 16"
  then have "Suc k * r \<le> 16 * r" by (intro mult_le_mono1) simp
  moreover have "Suc k * r = k * r + r" by simp
  ultimately show ?thesis by linarith
qed

lemma sz_1_iff [simp]: "sz d = Suc 0 \<longleftrightarrow> d = 0"
  by (cases d) auto

lemma rad_32_iff: "rad d = 32 \<longleftrightarrow> d = 0"
proof (cases d)
  case (Suc e)
  then show ?thesis using rad_ge [of e] by simp
qed simp

lemma kid_apart: "j \<noteq> k \<Longrightarrow> kid s d j < kid s d k \<or> kid s d k + sz d \<le> kid s d j"
proof -
  assume "j \<noteq> k"
  then consider "j < k" | "Suc k \<le> j" by linarith
  then show ?thesis
  proof cases
    case 2
    then have "Suc k * sz d \<le> j * sz d" by (rule mult_le_mono1)
    then show ?thesis by (simp add: kid_def off_def)
  qed (simp add: kid_def off_def)
qed

lemma kid_eq_iff [simp]: "kid s d j = kid s d k \<longleftrightarrow> j = k"
  using sz_pos(1) [of d] by (simp add: kid_def off_def del: sz_pos)

lemma kid_range: "k < 16 \<Longrightarrow> s < kid s d k \<and> kid s d k + sz d \<le> s + sz (Suc d)"
  using kid_block [of k "sz d"] by (simp add: kid_def off_def)

lemma kid_ne [simp]: "kid s d k \<noteq> s" "s \<noteq> kid s d k"
  by (simp_all add: kid_def off_def)

text \<open>The part of the blocks \<open>A\<close> of a node that belongs to its child \<open>k\<close>, and the number of
  blocks the child covers.\<close>

definition slice :: "nat \<Rightarrow> nat set \<Rightarrow> nat \<Rightarrow> nat set" where
  "slice d A k = {j. j < rad d \<and> k * rad d + j \<in> A}"

abbreviation cover :: "nat \<Rightarrow> nat \<Rightarrow> nat \<Rightarrow> nat" where
  "cover d n k \<equiv> min (rad d) (n - k * rad d)"

abbreviation none :: "blmeta list \<Rightarrow> nat \<Rightarrow> bool" where
  "none mem i \<equiv> bm_bighint (mem ! i) = BLIST_NONE"

fun shape :: "blmeta list \<Rightarrow> nat \<Rightarrow> nat \<Rightarrow> nat \<Rightarrow> bool" where
  "shape mem s 0 n \<longleftrightarrow> s < length mem \<and> \<not> none mem s \<and> 0 < n \<and> n \<le> 32"
| "shape mem s (Suc d) n \<longleftrightarrow> s < length mem \<and> \<not> none mem s \<and> 0 < n \<and> n \<le> rad (Suc d) \<and>
     (\<forall>k<16. k * rad d < n \<longrightarrow> shape mem (kid s d k) d (cover d n k)) \<and>
     (\<forall>k<15. k * rad d < n \<and> n \<le> Suc k * rad d \<longrightarrow>
        kid s d (Suc k) < length mem \<and> none mem (kid s d (Suc k)))"

fun node :: "blmeta list \<Rightarrow> nat \<Rightarrow> nat \<Rightarrow> nat \<Rightarrow> nat set \<Rightarrow> bool" where
  "node mem s 0 n A \<longleftrightarrow> shape mem s 0 n \<and> A \<subseteq> {..<n} \<and> A = bits (bmu_bitmap (mem ! s))"
| "node mem s (Suc d) n A \<longleftrightarrow> shape mem s (Suc d) n \<and> A \<subseteq> {..<n} \<and> bmu_avail (mem ! s) = card A \<and>
     (A \<noteq> {} \<and> card A \<noteq> rad (Suc d) \<longrightarrow>
        (\<forall>k<16. k * rad d < n \<longrightarrow> node mem (kid s d k) d (cover d n k) (slice d A k)))"

text \<open>The node \<open>s\<close> with all its children represented, whatever its own counters say.\<close>

definition opened :: "blmeta list \<Rightarrow> nat \<Rightarrow> nat \<Rightarrow> nat \<Rightarrow> nat set \<Rightarrow> bool" where
  "opened mem s d n A \<longleftrightarrow> shape mem s (Suc d) n \<and> A \<subseteq> {..<n} \<and>
     (\<forall>k<16. k * rad d < n \<longrightarrow> node mem (kid s d k) d (cover d n k) (slice d A k))"

lemma shape_head: "shape mem s d n \<Longrightarrow> s < length mem \<and> \<not> none mem s \<and> 0 < n \<and> n \<le> rad d"
  by (cases d) auto

lemma node_shape: "node mem s d n A \<Longrightarrow> shape mem s d n"
  by (cases d) auto

lemma node_subset: "node mem s d n A \<Longrightarrow> A \<subseteq> {..<n}"
  by (cases d) auto

lemma node_finite: "node mem s d n A \<Longrightarrow> finite A \<and> card A \<le> n"
  using node_subset [of mem s d n A] card_mono [of "{..<n}" A] by (auto intro: finite_subset)

lemma node_opened: "node mem s (Suc d) n A \<Longrightarrow> A \<noteq> {} \<Longrightarrow> card A \<noteq> rad (Suc d) \<Longrightarrow> opened mem s d n A"
  by (simp add: opened_def)

lemma opened_node: "opened mem s d n A \<Longrightarrow> bmu_avail (mem ! s) = card A \<Longrightarrow> node mem s (Suc d) n A"
  by (simp add: opened_def)

section \<open>Framing\<close>

definition only :: "blmeta list \<Rightarrow> blmeta list \<Rightarrow> nat \<Rightarrow> nat \<Rightarrow> bool" where
  "only mem mem' s w \<longleftrightarrow> length mem' = length mem \<and> (\<forall>i. i < s \<or> s + w \<le> i \<longrightarrow> mem' ! i = mem ! i)"

lemma only_refl [simp]: "only mem mem s w"
  by (simp add: only_def)

lemma only_trans: "only mem mem' s w \<Longrightarrow> only mem' mem'' s w \<Longrightarrow> only mem mem'' s w"
  by (simp add: only_def)

lemma only_head: "only mem (mem[s := x]) s (sz d)"
  by (cases d) (auto simp: only_def nth_list_update)

lemma only_kid: "k < 16 \<Longrightarrow> only mem mem' (kid s d k) (sz d) \<Longrightarrow> only mem mem' s (sz (Suc d))"
  using kid_range [of k s d] by (auto simp: only_def)

lemma only_length: "only mem mem' s w \<Longrightarrow> length mem' = length mem"
  by (simp add: only_def)

definition agree :: "blmeta list \<Rightarrow> blmeta list \<Rightarrow> nat \<Rightarrow> nat \<Rightarrow> bool" where
  "agree mem mem' s w \<longleftrightarrow> length mem' = length mem \<and> (\<forall>i. s \<le> i \<and> i < s + w \<longrightarrow> mem' ! i = mem ! i)"

lemma agree_kid: "agree mem mem' s (sz (Suc d)) \<Longrightarrow> k < 16 \<Longrightarrow> agree mem mem' (kid s d k) (sz d)"
  using kid_range [of k s d] by (auto simp: agree_def)

lemma agree_head: "agree mem mem' s (sz d) \<Longrightarrow> length mem' = length mem \<and> mem' ! s = mem ! s"
  using sz_pos [of d] by (auto simp: agree_def)

lemma only_agree_kid: "only mem mem' (kid s d k) (sz d) \<Longrightarrow> j \<noteq> k \<Longrightarrow> agree mem mem' (kid s d j) (sz d)"
  using kid_apart [of j k s d] kid_apart [of k j s d] by (auto simp: only_def agree_def)

lemma only_kid_head: "only mem mem' (kid s d k) (sz d) \<Longrightarrow> mem' ! s = mem ! s"
  by (auto simp: only_def kid_def off_def)

lemma agree_shape: "agree mem mem' s (sz d) \<Longrightarrow> shape mem s d n \<Longrightarrow> shape mem' s d n"
proof (induction d arbitrary: s n)
  case 0
  then show ?case using agree_head [of mem mem' s 0] by auto
next
  case (Suc d)
  note k = agree_kid [OF Suc.prems(1)]
  have "mem' ! kid s d (Suc k) = mem ! kid s d (Suc k)" if "k < 15" for k
    using agree_head [OF k [of "Suc k"]] that by simp
  then show ?case using Suc.IH [OF k] Suc.prems(2) agree_head [OF Suc.prems(1)] by (auto simp del: rad.simps)
qed

lemma agree_node: "agree mem mem' s (sz d) \<Longrightarrow> node mem s d n A \<Longrightarrow> node mem' s d n A"
proof (induction d arbitrary: s n A)
  case 0
  then show ?case using agree_head [of mem mem' s 0] by auto
next
  case (Suc d)
  then show ?case using Suc.IH [OF agree_kid [OF Suc.prems(1)]] agree_shape [OF Suc.prems(1)]
      agree_head [OF Suc.prems(1)] by (auto simp del: shape.simps rad.simps)
qed

text \<open>Changing the head of a subtree, and changing one child.\<close>

lemma agree_set_head: "agree mem (mem[s := x]) (kid s d k) w"
  by (auto simp: agree_def kid_def off_def nth_list_update)

lemma shape_set_head:
  assumes "shape mem s d n" "bm_bighint x \<noteq> BLIST_NONE"
  shows "shape (mem[s := x]) s d n"
proof (cases d)
  case (Suc e)
  then show ?thesis using assms agree_shape [OF agree_set_head] by (auto simp del: rad.simps)
qed (use assms in auto)

lemma opened_set_head:
  assumes "opened mem s d n A" "bm_bighint x \<noteq> BLIST_NONE"
  shows "opened (mem[s := x]) s d n A"
  using assms shape_set_head [of mem s "Suc d" n x] agree_node [OF agree_set_head]
  by (auto simp: opened_def simp del: shape.simps)

lemma shape_update_kid:
  assumes sh: "shape mem s (Suc d) n" and k: "k < 16" "k * rad d < n"
    and o: "only mem mem' (kid s d k) (sz d)" and kid: "shape mem' (kid s d k) d (cover d n k)"
  shows "shape mem' s (Suc d) n"
proof -
  have "shape mem' (kid s d j) d (cover d n j)" if "j < 16" "j * rad d < n" for j
    using that kid sh agree_shape [OF only_agree_kid [OF o, of j]] by (cases "j = k") auto
  moreover have "mem' ! kid s d (Suc j) = mem ! kid s d (Suc j)" if "n \<le> Suc j * rad d" for j
  proof -
    have "Suc j \<noteq> k" using that k by auto
    then show ?thesis using agree_head [OF only_agree_kid [OF o]] by blast
  qed
  ultimately show ?thesis using sh only_kid_head [OF o] only_length [OF o] by (auto simp del: rad.simps)
qed

lemma opened_update_kid:
  assumes op: "opened mem s d n A" and k: "k < 16" "k * rad d < n"
    and o: "only mem mem' (kid s d k) (sz d)"
    and kid: "node mem' (kid s d k) d (cover d n k) (slice d A' k)"
    and A': "A' \<subseteq> {..<n}" "\<And>j. j \<noteq> k \<Longrightarrow> slice d A' j = slice d A j"
  shows "opened mem' s d n A'"
proof -
  have "node mem' (kid s d j) d (cover d n j) (slice d A' j)" if "j < 16" "j * rad d < n" for j
    using that kid op A'(2) [of j] agree_node [OF only_agree_kid [OF o, of j]] by (cases "j = k") (auto simp: opened_def)
  then show ?thesis using op A'(1) shape_update_kid [OF _ k o node_shape [OF kid]] by (auto simp: opened_def)
qed

section \<open>Slices\<close>

lemma slice_mem: "j \<in> slice d A k \<longleftrightarrow> j < rad d \<and> k * rad d + j \<in> A"
  by (simp add: slice_def)

lemma slice_subset: "A \<subseteq> {..<n} \<Longrightarrow> slice d A k \<subseteq> {..<cover d n k}"
  by (auto simp: slice_def)

lemma slice_ops:
  "slice d (A - B) k = slice d A k - slice d B k" "slice d (A \<union> B) k = slice d A k \<union> slice d B k"
  "slice d (A \<inter> B) k = slice d A k \<inter> slice d B k" "slice d {} k = {}"
  by (auto simp: slice_def)

text \<open>A range of blocks within one child.\<close>

lemma block_unique:
  assumes "k * r \<le> (x::nat)" "x < Suc k * r" "j * r \<le> x" "x < Suc j * r"
  shows "j = k"
proof (rule ccontr)
  assume "j \<noteq> k"
  then consider "Suc j \<le> k" | "Suc k \<le> j" by linarith
  then show False
  proof cases
    case 1
    then have "Suc j * r \<le> k * r" by (rule mult_le_mono1)
    then show False using assms by linarith
  next
    case 2
    then have "Suc k * r \<le> j * r" by (rule mult_le_mono1)
    then show False using assms by linarith
  qed
qed

lemma slice_run:
  assumes "b + c \<le> rad d"
  shows "slice d {k * rad d + b..<k * rad d + b + c} j = (if j = k then {b..<b + c} else {})"
proof (cases "j = k")
  case False
  have "x \<notin> slice d {k * rad d + b..<k * rad d + b + c} j" for x
  proof
    assume "x \<in> slice d {k * rad d + b..<k * rad d + b + c} j"
    then have "x < rad d" "k * rad d + b \<le> j * rad d + x" "j * rad d + x < k * rad d + b + c" by (auto simp: slice_def)
    then have "j = k" using assms by (intro block_unique [of k "rad d" "j * rad d + x"]) auto
    then show False using False by simp
  qed
  then show ?thesis using False by auto
qed (use assms in \<open>auto simp: slice_def\<close>)

lemma slice_full: "k < 16 \<Longrightarrow> slice d {..<rad (Suc d)} k = {..<rad d}"
proof -
  assume "k < 16"
  then have "x < rad d \<Longrightarrow> k * rad d + x < 16 * rad d" for x using kid_block [of k "rad d"] by linarith
  then show ?thesis by (auto simp: slice_def)
qed

lemma cover_full: "k < 16 \<Longrightarrow> cover d (rad (Suc d)) k = rad d \<and> k * rad d < rad (Suc d)"
proof -
  assume "k < 16"
  from kid_block [OF this, of "rad d"] have "rad d \<le> rad (Suc d) - k * rad d" "k * rad d < rad (Suc d)"
    unfolding rad.simps using rad_pos [of d] by linarith+
  then show ?thesis by simp
qed

lemma full_set:
  assumes "A \<subseteq> {..<n}" "n \<le> m" "card A = m"
  shows "n = m \<and> A = {..<m}"
proof -
  have "m \<le> n" using card_mono [OF _ assms(1)] assms(3) by simp
  then have n: "n = m" using assms(2) by simp
  then show ?thesis using card_subset_eq [OF _ assms(1)] assms(3) by simp
qed

lemma covered_kid: "n \<le> rad (Suc d) \<Longrightarrow> k * rad d < n \<Longrightarrow> k < 16"
  by (metis less_le_trans mult_less_cancel2 rad.simps(2))

section \<open>Resetting the level below\<close>

text \<open>The contents of a node that make it represent \<open>B\<close> whatever lies below.\<close>

definition plain :: "nat \<Rightarrow> blmeta \<Rightarrow> nat set \<Rightarrow> bool" where
  "plain d c B \<longleftrightarrow> bm_bighint c \<noteq> BLIST_NONE \<and>
     (if d = 0 then B = bits (bmu_bitmap c) else bmu_avail c = card B \<and> (B = {} \<or> card B = rad d))"

lemma plain_node: "shape mem s d n \<Longrightarrow> plain d (mem ! s) B \<Longrightarrow> B \<subseteq> {..<n} \<Longrightarrow> node mem s d n B"
  by (cases d) (auto simp: plain_def)

lemma reset_kids:
  assumes sh: "shape mem s (Suc d) n" and len: "length mem' = length mem"
    and kids: "\<And>k. k < 16 \<Longrightarrow> k * rad d < n \<Longrightarrow> plain d (mem' ! kid s d k) (slice d A k)"
    and rest: "\<And>i. (\<forall>k<16. k * rad d < n \<longrightarrow> i \<noteq> kid s d k) \<Longrightarrow> mem' ! i = mem ! i"
    and A: "A \<subseteq> {..<n}"
  shows "opened mem' s d n A"
proof -
  have in_kid: "i = kid s d k" if "i = kid s d j" "kid s d k \<le> i" "i < kid s d k + sz d" for i j k
    using that kid_apart [of j k s d] by (cases "j = k") auto
  have shk: "shape mem' (kid s d k) d (cover d n k)" if k: "k < 16" "k * rad d < n" for k
  proof -
    let ?x = "mem' ! kid s d k"
    have l: "kid s d k < length mem" "shape mem (kid s d k) d (cover d n k)" using sh k shape_head by (auto dest: shape_head)
    have "shape (mem[kid s d k := ?x]) (kid s d k) d (cover d n k)"
      using shape_set_head [OF l(2)] kids [OF k] by (simp add: plain_def)
    moreover have "agree (mem[kid s d k := ?x]) mem' (kid s d k) (sz d)"
      unfolding agree_def
    proof (intro conjI allI impI)
      fix i
      assume i: "kid s d k \<le> i \<and> i < kid s d k + sz d"
      show "mem' ! i = mem[kid s d k := ?x] ! i"
      proof (cases "i = kid s d k")
        case False
        then have "mem' ! i = mem ! i" using i in_kid by (intro rest) blast
        then show ?thesis using False by simp
      qed (use l(1) in simp)
    qed (simp add: len)
    ultimately show ?thesis by (rule agree_shape [rotated])
  qed
  have "mem' ! kid s d (Suc k) = mem ! kid s d (Suc k)" if "n \<le> Suc k * rad d" for k
    using that by (intro rest) auto
  moreover have "mem' ! s = mem ! s" by (intro rest) simp
  ultimately have "shape mem' s (Suc d) n" using sh shk len by (auto simp del: rad.simps)
  then show ?thesis using plain_node [OF shk kids] slice_subset [OF A] A by (simp add: opened_def)
qed

end
