(* ===== verification/Blist_Ops.thy ===== *)
theory Blist_Ops
  imports Blist_Tree
begin

text \<open>
  Allocation, release and filling in the radix tree: each operation succeeds on a well-formed
  tree, touches only the subtree it is given, and changes the set of free blocks it represents
  as it should.
\<close>

lemma none_value: "x \<le> 32 \<Longrightarrow> x \<noteq> BLIST_NONE"
  by (simp add: BLIST_NONE_def)

lemma skip_div: "16 * sz d div 16 = sz d"
  by simp

lemma off_in_skip: "k < 16 \<Longrightarrow> \<not> 16 * sz d < off d k"
  unfolding off_def using kid_block [of k "sz d"] sz_pos(1) [of d] by linarith

lemma off_simps: "off d k + sz d = off d (Suc k)" "16 * sz d < off d 16" "off d 0 = 1"
  by (simp_all add: off_def)

lemmas loop_simps = off_in_skip off_simps kid_def [symmetric]

section \<open>The initialisation loops\<close>

lemma kid_cases:
  assumes sh: "shape mem s (Suc d) n" and k: "k \<le> 16" "k = 0 \<or> (k - 1) * rad d < n"
  obtains "k = 16" | "k < 16" "kid s d k < length mem" "none mem (kid s d k)" "n \<le> k * rad d"
  | "k < 16" "kid s d k < length mem" "\<not> none mem (kid s d k)" "k * rad d < n" "shape mem (kid s d k) d (cover d n k)"
proof -
  consider "k = 16" | "k < 16" "k * rad d < n" | "k < 16" "n \<le> k * rad d" using k(1) by linarith
  then show thesis
  proof cases
    case 2
    then have "shape mem (kid s d k) d (cover d n k)" using sh by simp
    then show thesis using 2 that(3) shape_head by blast
  next
    case 3
    then obtain j where j: "k = Suc j" using shape_head [OF sh] by (cases k) auto
    then have "kid s d k < length mem \<and> none mem (kid s d k)" using sh k(2) 3 by auto
    then show thesis using 3 that(2) by blast
  qed (use that in blast)
qed

definition full_kid :: "nat \<Rightarrow> blmeta \<Rightarrow> blmeta" where
  "full_kid d c = (if d = 0 then c\<lparr>bmu_bitmap := - 1, bm_bighint := 32\<rparr> else c\<lparr>bm_bighint := rad d, bmu_avail := rad d\<rparr>)"

definition empty_kid :: "nat \<Rightarrow> blmeta \<Rightarrow> blmeta" where
  "empty_kid d c = (if d = 0 then c\<lparr>bm_bighint := 0, bmu_bitmap := 0\<rparr> else c\<lparr>bm_bighint := 0, bmu_avail := 0\<rparr>)"

text \<open>Both loops apply a function to the heads of the children from \<open>k\<close> on, up to the terminator.\<close>

definition reset_from :: "(blmeta \<Rightarrow> blmeta) \<Rightarrow> blmeta list \<Rightarrow> blmeta list \<Rightarrow> nat \<Rightarrow> nat \<Rightarrow> nat \<Rightarrow> nat \<Rightarrow> bool" where
  "reset_from f mem mem' s d n k \<longleftrightarrow> length mem' = length mem \<and>
     (\<forall>j. k \<le> j \<and> j < 16 \<and> j * rad d < n \<longrightarrow> mem' ! kid s d j = f (mem ! kid s d j)) \<and>
     (\<forall>i. (\<forall>j. k \<le> j \<and> j < 16 \<and> j * rad d < n \<longrightarrow> i \<noteq> kid s d j) \<longrightarrow> mem' ! i = mem ! i)"

lemma reset_from_end: "k = 16 \<or> n \<le> k * rad d \<Longrightarrow> reset_from f mem mem s d n k"
proof -
  assume k: "k = 16 \<or> n \<le> k * rad d"
  have "\<not> j * rad d < n" if "k \<le> j" "j < 16" for j
    using k that mult_le_mono1 [OF that(1), of "rad d"] by linarith
  then show ?thesis by (auto simp: reset_from_def)
qed

lemma reset_from_step:
  assumes "reset_from f (mem[kid s d k := f (mem ! kid s d k)]) mem' s d n (Suc k)"
    "k < 16" "k * rad d < n" "kid s d k < length mem"
  shows "reset_from f mem mem' s d n k"
proof -
  note r = assms(1) [unfolded reset_from_def]
  have "mem' ! kid s d j = f (mem ! kid s d j)" if "k \<le> j" "j < 16" "j * rad d < n" for j
  proof (cases "j = k")
    case True
    then show ?thesis using r assms(4) by (simp add: Suc_le_eq)
  next
    case False
    then show ?thesis using r that by (simp add: Suc_le_eq)
  qed
  moreover have "mem' ! i = mem ! i" if "\<forall>j. k \<le> j \<and> j < 16 \<and> j * rad d < n \<longrightarrow> i \<noteq> kid s d j" for i
  proof -
    have "i \<noteq> kid s d k" using that assms(2,3) by blast
    moreover have "mem' ! i = mem[kid s d k := f (mem ! kid s d k)] ! i" using r that by (meson Suc_leD)
    ultimately show ?thesis by simp
  qed
  ultimately show ?thesis using r by (simp add: reset_from_def)
qed

lemma meta_expand_reset:
  assumes "shape mem s (Suc d) n" "k \<le> 16" "k = 0 \<or> (k - 1) * rad d < n" "bm_bighint (full_kid d x) \<noteq> BLIST_NONE"
  shows "\<exists>mem'. meta_expand mem s (rad d) (16 * sz d) (off d k) = Some mem' \<and> reset_from (full_kid d) mem mem' s d n k"
  using assms
proof (induction "16 - k" arbitrary: k mem)
  case 0
  then have "k = 16" by simp
  then show ?case by (auto simp: meta_expand.simps loop_simps reset_from_end)
next
  case (Suc m)
  then have k: "k < 16" by simp
  note unf = meta_expand.simps [of mem s "rad d" "16 * sz d" "off d k", unfolded skip_div]
  from Suc.prems(1-3) show ?case
  proof (cases rule: kid_cases)
    case 2
    then show ?thesis using unf
      by (intro exI [of _ mem]) (simp add: loop_simps reset_from_end)
  next
    case 3
    let ?mem = "mem[kid s d k := full_kid d (mem ! kid s d k)]"
    have "bm_bighint (full_kid d (mem ! kid s d k)) \<noteq> BLIST_NONE" using Suc.prems(4) by (auto simp: full_kid_def split: if_splits)
    then have "shape (mem[kid s d k := full_kid d (mem ! kid s d k)]) (kid s d k) d (cover d n k)"
      by (rule shape_set_head [OF 3(5)])
    then have "shape ?mem s (Suc d) n" by (rule shape_update_kid [OF Suc.prems(1) 3(1,4) only_head])
    moreover have "m = 16 - Suc k" "Suc k \<le> 16" "Suc k = 0 \<or> (Suc k - 1) * rad d < n" using Suc.hyps(2) 3(4) by simp_all
    ultimately obtain mem' where "meta_expand ?mem s (rad d) (16 * sz d) (off d (Suc k)) = Some mem'"
      "reset_from (full_kid d) ?mem mem' s d n (Suc k)"
      using Suc.hyps(1) [of "Suc k" ?mem] Suc.prems(4) by blast
    moreover have "meta_expand mem s (rad d) (16 * sz d) (off d k)
        = meta_expand ?mem s (rad d) (16 * sz d) (off d (Suc k))"
      using unf 3 by (simp add: loop_simps full_kid_def)
    ultimately show ?thesis using reset_from_step [OF _ 3(1,4,2)] by auto
  qed (use k in simp)
qed

lemma meta_clear_reset:
  assumes "shape mem s (Suc d) n" "k \<le> 16" "k = 0 \<or> (k - 1) * rad d < n"
  shows "\<exists>mem'. meta_clear mem s (16 * sz d) (off d k) = Some mem' \<and> reset_from (empty_kid d) mem mem' s d n k"
  using assms
proof (induction "16 - k" arbitrary: k mem)
  case 0
  then have "k = 16" by simp
  then show ?case by (auto simp: meta_clear.simps loop_simps reset_from_end)
next
  case (Suc m)
  then have k: "k < 16" by simp
  note unf = meta_clear.simps [of mem s "16 * sz d" "off d k", unfolded skip_div]
  from Suc.prems(1-3) show ?case
  proof (cases rule: kid_cases)
    case 2
    then show ?thesis using unf
      by (intro exI [of _ mem]) (simp add: loop_simps reset_from_end)
  next
    case 3
    let ?mem = "mem[kid s d k := empty_kid d (mem ! kid s d k)]"
    have "bm_bighint (empty_kid d (mem ! kid s d k)) \<noteq> BLIST_NONE" using none_value [of 0] by (simp add: empty_kid_def)
    then have "shape ?mem (kid s d k) d (cover d n k)" by (rule shape_set_head [OF 3(5)])
    then have "shape ?mem s (Suc d) n" by (rule shape_update_kid [OF Suc.prems(1) 3(1,4) only_head])
    moreover have "m = 16 - Suc k" "Suc k \<le> 16" "Suc k = 0 \<or> (Suc k - 1) * rad d < n" using Suc.hyps(2) 3(4) by simp_all
    ultimately obtain mem' where "meta_clear ?mem s (16 * sz d) (off d (Suc k)) = Some mem'"
      "reset_from (empty_kid d) ?mem mem' s d n (Suc k)"
      using Suc.hyps(1) [of "Suc k" ?mem] by blast
    moreover have "meta_clear mem s (16 * sz d) (off d k) = meta_clear ?mem s (16 * sz d) (off d (Suc k))"
      using unf 3 by (simp add: loop_simps empty_kid_def)
    ultimately show ?thesis using reset_from_step [OF _ 3(1,4,2)] by auto
  qed (use k in simp)
qed

lemma reset_from_only: "reset_from f mem mem' s d n 0 \<Longrightarrow> only mem mem' s (sz (Suc d)) \<and> mem' ! s = mem ! s"
proof
  assume r: "reset_from f mem mem' s d n 0"
  show "mem' ! s = mem ! s" using r kid_ne(2) [of s d] unfolding reset_from_def by blast
  have "mem' ! i = mem ! i" if "i < s \<or> s + sz (Suc d) \<le> i" for i
  proof -
    have "i \<noteq> kid s d j" if "j < 16" for j
      using that \<open>i < s \<or> s + sz (Suc d) \<le> i\<close> kid_range [of j s d] sz_pos(1) [of d] by linarith
    then show ?thesis using r unfolding reset_from_def by blast
  qed
  then show "only mem mem' s (sz (Suc d))" using r by (simp add: only_def reset_from_def)
qed

lemma reset_from_opened:
  assumes sh: "shape mem s (Suc d) n" and r: "reset_from f mem mem' s d n 0" and A: "A \<subseteq> {..<n}"
    and f: "\<And>k c. k < 16 \<Longrightarrow> plain d (f c) (slice d A k)"
  shows "opened mem' s d n A"
proof (rule reset_kids [OF sh _ _ _ A])
  note r = r [unfolded reset_from_def]
  show "length mem' = length mem" using r by blast
  show "plain d (mem' ! kid s d k) (slice d A k)" if "k < 16" "k * rad d < n" for k
    using r f [OF that(1), of "mem ! kid s d k"] that by simp
  show "mem' ! i = mem ! i" if "\<forall>k<16. k * rad d < n \<longrightarrow> i \<noteq> kid s d k" for i
    using r that by blast
qed

text \<open>The level below an all-free node, and below an all-allocated one.\<close>

lemma expand_opened:
  assumes "shape mem s (Suc d) (rad (Suc d))" "rad d < BLIST_NONE"
  obtains mem' where "meta_expand mem s (rad d) (16 * sz d) 1 = Some mem'" "opened mem' s d (rad (Suc d)) {..<rad (Suc d)}"
    "only mem mem' s (sz (Suc d))" "mem' ! s = mem ! s"
proof -
  have h: "bm_bighint (full_kid d x) \<noteq> BLIST_NONE" for x using assms(2) none_value [of 32] by (simp add: full_kid_def)
  have "plain d (full_kid d c) (slice d {..<rad (Suc d)} k)" if "k < 16" for c k
  proof (cases "d = 0")
    case True
    have "{..<32} = bits (bmu_bitmap (full_kid d c))" using True by (intro set_eqI) (simp add: full_kid_def)
    then show ?thesis unfolding slice_full [OF that] plain_def using h [of c] True by simp
  next
    case False
    then show ?thesis unfolding slice_full [OF that] plain_def using h [of c] by (simp add: full_kid_def)
  qed
  moreover obtain mem' where m: "meta_expand mem s (rad d) (16 * sz d) 1 = Some mem'"
    "reset_from (full_kid d) mem mem' s d (rad (Suc d)) 0"
    using meta_expand_reset [OF assms(1), of 0, OF _ _ h] by (auto simp: off_simps)
  ultimately have "opened mem' s d (rad (Suc d)) {..<rad (Suc d)}" using reset_from_opened [OF assms(1) m(2) order_refl] by blast
  then show thesis using that m reset_from_only [OF m(2)] by blast
qed

lemma clear_opened:
  assumes "shape mem s (Suc d) n"
  obtains mem' where "meta_clear mem s (16 * sz d) 1 = Some mem'" "opened mem' s d n {}"
    "only mem mem' s (sz (Suc d))" "mem' ! s = mem ! s"
proof -
  have "plain d (empty_kid d c) (slice d {} k)" if "k < 16" for c k
    using none_value [of 0] by (simp add: plain_def empty_kid_def slice_ops)
  moreover obtain mem' where m: "meta_clear mem s (16 * sz d) 1 = Some mem'"
    "reset_from (empty_kid d) mem mem' s d n 0"
    using meta_clear_reset [OF assms, of 0] by (auto simp: off_simps)
  ultimately have "opened mem' s d n {}" using reset_from_opened [OF assms m(2)] by blast
  then show thesis using that m reset_from_only [OF m(2)] by blast
qed

section \<open>Allocation\<close>

text \<open>An allocation of \<open>c\<close> blocks at the subtree \<open>s\<close>, whose first block has the number \<open>blk\<close>,
  fails and changes no block, or takes a free run.\<close>

definition allocates :: "(blmeta list \<times> nat) option \<Rightarrow> blmeta list \<Rightarrow> nat \<Rightarrow> nat \<Rightarrow> nat \<Rightarrow> nat set \<Rightarrow> nat \<Rightarrow> nat \<Rightarrow> bool" where
  "allocates res mem s d n A blk c \<longleftrightarrow> (\<exists>mem' r. res = Some (mem', r) \<and> only mem mem' s (sz d) \<and>
     (r = BLIST_NONE \<and> node mem' s d n A \<or>
      (\<exists>b. r = blk + b \<and> b + c \<le> n \<and> {b..<b + c} \<subseteq> A \<and> node mem' s d n (A - {b..<b + c}))))"

lemma allocates_run:
  "res = Some (mem', blk + b) \<Longrightarrow> only mem mem' s (sz d) \<Longrightarrow> b + c \<le> n \<Longrightarrow> {b..<b + c} \<subseteq> A \<Longrightarrow>
     node mem' s d n (A - {b..<b + c}) \<Longrightarrow> allocates res mem s d n A blk c"
  unfolding allocates_def by blast

lemma set_leaf:
  assumes "node mem s 0 n A" "bm_bighint x \<noteq> BLIST_NONE" "B = bits (bmu_bitmap x)" "B \<subseteq> {..<n}"
  shows "node (mem[s := x]) s 0 n B"
  using assms shape_head [OF node_shape [OF assms(1)]] by simp

lemma leaf_alloc_allocates:
  assumes n: "node mem s 0 n A" and c: "0 < c" "c \<le> 32"
  shows "allocates (blst_leaf_alloc mem s blk c) mem s 0 n A blk c"
proof -
  let ?n = "mem ! s" let ?w = "bmu_bitmap ?n"
  have s: "s < length mem" "bm_bighint ?n \<noteq> BLIST_NONE" using shape_head [OF node_shape [OF n]] by auto
  have A: "A = bits ?w" "A \<subseteq> {..<n}" using n by auto
  have hint: "node (mem[s := ?n\<lparr>bm_bighint := h\<rparr>]) s 0 n A" if "h \<le> 32" for h
    by (rule set_leaf [OF n]) (use none_value [OF that] A in \<open>simp_all\<close>)
  have take: "node (mem[s := ?n\<lparr>bmu_bitmap := ?w AND NOT m\<rparr>]) s 0 n (A - bits m)" for m
  proof (rule set_leaf [OF n])
    show "A - bits m = bits (bmu_bitmap (?n\<lparr>bmu_bitmap := ?w AND NOT m\<rparr>))" using A(1) bits_ops(1) [of ?w m] by simp
  qed (use s A(2) in auto)
  note only = only_head [of mem s _ 0]
  consider "?w = 0" | "?w \<noteq> 0" "c = 1" | "?w \<noteq> 0" "c \<noteq> 1" by blast
  then show ?thesis
  proof cases
    case 1
    then show ?thesis using s only hint [of 0] by (simp add: blst_leaf_alloc_def allocates_def Let_def del: node.simps)
  next
    case 2
    let ?r = "leaf_first ?w (mask 16) 16 0"
    have r: "?r \<in> bits ?w" using leaf_first_bit [OF 2(1)] by simp
    then have "bits (bit_of ?r) = {?r..<?r + c}" using bits_less 2(2) by (auto simp: bit_bit_of)
    then have t: "node (mem[s := ?n\<lparr>bmu_bitmap := ?w AND NOT (bit_of ?r)\<rparr>]) s 0 n (A - {?r..<?r + c})"
      using take [of "bit_of ?r"] by (simp only:)
    show ?thesis
    proof (rule allocates_run [OF _ only _ _ t])
      show "blst_leaf_alloc mem s blk c = Some (mem[s := ?n\<lparr>bmu_bitmap := ?w AND NOT (bit_of ?r)\<rparr>], blk + ?r)"
        using 2 s drop_bit_full [of 16] by (simp add: blst_leaf_alloc_def Let_def)
      show "?r + c \<le> n" "{?r..<?r + c} \<subseteq> A" using r A 2(2) by (auto simp: less_Suc_eq_le)
    qed
  next
    case 3
    let ?sc = "leaf_scan ?w (mask c) 0 (32 - c)"
    have eq: "drop_bit (32 - c) (- 1 :: u32) = mask c" using c drop_bit_full [of "32 - c"] by simp
    show ?thesis
    proof (cases ?sc)
      case None
      then show ?thesis using 3 c s only hint [of "c - 1"] eq
        by (simp add: blst_leaf_alloc_def allocates_def Let_def del: node.simps)
    next
      case (Some jm)
      obtain j m where jm: "jm = (j, m)" by fastforce
      have run: "bits m = {j..<j + c}" "{j..<j + c} \<subseteq> bits ?w" "j \<le> 32 - c"
        using leaf_scan_run [of ?w 0 c "32 - c" j m] Some jm c by auto
      have "j + c \<le> n" using run(2) A c(1) by (auto simp: subset_iff dest: spec [of _ "j + c - 1"])
      moreover have "node (mem[s := ?n\<lparr>bmu_bitmap := ?w AND NOT m\<rparr>]) s 0 n (A - {j..<j + c})"
        using take [of m] run(1) by (simp only:)
      moreover have "blst_leaf_alloc mem s blk c = Some (mem[s := ?n\<lparr>bmu_bitmap := ?w AND NOT m\<rparr>], blk + j)"
        using Some jm 3 c s eq by (simp add: blst_leaf_alloc_def Let_def)
      ultimately show ?thesis using allocates_run [OF _ only] run(2) A(1) by blast
    qed
  qed
qed

definition kid_alloc :: "nat \<Rightarrow> blmeta list \<Rightarrow> nat \<Rightarrow> nat \<Rightarrow> nat \<Rightarrow> (blmeta list \<times> nat) option" where
  "kid_alloc d mem s blk c =
     (if sz d = 1 then blst_leaf_alloc mem s blk c else blst_meta_alloc mem s blk c (rad d) (sz d - 1))"

lemma meta_alloc_loop_step:
  assumes "k < 16" "kid s d k < length mem"
  shows "meta_alloc_loop mem s b c (rad d) (16 * sz d) (off d k) =
    (if none mem (kid s d k) then alloc_failed mem s c
     else if c \<le> bm_bighint (mem ! kid s d k) then do {
       (mem, r) \<leftarrow> kid_alloc d mem (kid s d k) b c;
       if r \<noteq> BLIST_NONE then do { mem \<leftarrow> alloc_done mem s c; Some (mem, r) }
       else meta_alloc_loop mem s (b + rad d) c (rad d) (16 * sz d) (off d (Suc k)) }
     else if c > rad d then None
     else meta_alloc_loop mem s (b + rad d) c (rad d) (16 * sz d) (off d (Suc k)))"
  using assms unfolding meta_alloc_loop.simps [of mem s b c "rad d" "16 * sz d" "off d k"] skip_div off_simps(1) kid_alloc_def
  by (simp add: loop_simps del: sz_1_iff One_nat_def)

lemma alloc_failed_allocates:
  assumes op: "opened mem s d n A" and av: "bmu_avail (mem ! s) = card A" and c: "0 < c" "c \<le> 32"
  shows "allocates (alloc_failed mem s c) mem s (Suc d) n A blk c"
proof -
  have s: "s < length mem" using op shape_head by (auto simp: opened_def)
  have nd: "node mem s (Suc d) n A" by (rule opened_node [OF op av])
  have "opened (mem[s := (mem ! s)\<lparr>bm_bighint := c - 1\<rparr>]) s d n A"
    by (rule opened_set_head [OF op]) (use c none_value [of "c - 1"] in simp)
  then have "node (mem[s := (mem ! s)\<lparr>bm_bighint := c - 1\<rparr>]) s (Suc d) n A" by (rule opened_node) (use av s in simp)
  then show ?thesis using nd s c(1) only_head [of mem s _ "Suc d"]
    by (auto simp: alloc_failed_def allocates_def simp del: node.simps sz.simps)
qed

lemma alloc_done_node:
  assumes op: "opened mem s d n (A - R)" and av: "bmu_avail (mem ! s) = card A" and R: "R \<subseteq> A" "card R = c"
    and A: "finite A" "card A \<le> n" "n < BLIST_NONE"
  shows "\<exists>mem'. alloc_done mem s c = Some mem' \<and> node mem' s (Suc d) n (A - R) \<and> only mem mem' s (sz (Suc d))"
proof -
  have s: "s < length mem" "bm_bighint (mem ! s) \<noteq> BLIST_NONE" using op shape_head by (auto simp: opened_def)
  define x where "x = (mem ! s)\<lparr>bmu_avail := card A - c,
    bm_bighint := (if bm_bighint (mem ! s) > card A - c then card A - c else bm_bighint (mem ! s))\<rparr>"
  have "bm_bighint x \<noteq> BLIST_NONE" using A(2,3) s(2) by (auto simp: x_def)
  then have "opened (mem[s := x]) s d n (A - R)" by (rule opened_set_head [OF op])
  moreover have "card (A - R) = card A - c" using R A(1) by (simp add: card_Diff_subset finite_subset)
  ultimately have "node (mem[s := x]) s (Suc d) n (A - R)" using s by (intro opened_node) (simp_all add: x_def)
  moreover have "alloc_done mem s c = Some (mem[s := x])" using s av by (simp add: alloc_done_def x_def Let_def)
  ultimately show ?thesis using only_head by blast
qed

lemma meta_alloc_loop_allocates:
  assumes kids: "\<And>mem s n A blk. node mem s d n A \<Longrightarrow> blk + n \<le> BLIST_NONE \<Longrightarrow> allocates (kid_alloc d mem s blk c) mem s d n A blk c"
    and c: "0 < c" "c \<le> 32"
    and op: "opened mem s d n A" "bmu_avail (mem ! s) = card A" and blk: "blk + n \<le> BLIST_NONE" "n < BLIST_NONE"
    and k: "k \<le> 16" "k = 0 \<or> (k - 1) * rad d < n"
  shows "allocates (meta_alloc_loop mem s (blk + k * rad d) c (rad d) (16 * sz d) (off d k)) mem s (Suc d) n A blk c"
  using op k
proof (induction "16 - k" arbitrary: k mem)
  case 0
  then have "k = 16" by simp
  then show ?case using alloc_failed_allocates [OF 0(2,3) c] by (simp add: meta_alloc_loop.simps loop_simps)
next
  case (Suc m)
  note unf = meta_alloc_loop_step [of k s d mem "blk + k * rad d" c]
  have sh: "shape mem s (Suc d) n" and A: "A \<subseteq> {..<n}" using Suc.prems(1) by (auto simp: opened_def)
  have fin: "finite A" "card A \<le> n" using A finite_subset card_mono [OF _ A] by auto
  from sh Suc.prems(3,4) show ?case
  proof (cases rule: kid_cases)
    case 2
    then show ?thesis using unf alloc_failed_allocates [OF Suc.prems(1,2) c] by simp
  next
    case 3
    have blk2: "blk + k * rad d + rad d = blk + Suc k * rad d" by simp
    have next_ok: "m = 16 - Suc k" "Suc k \<le> 16" "Suc k = 0 \<or> (Suc k - 1) * rad d < n"
      using Suc.hyps(2) 3(1,4) by simp_all
    note loop = Suc.hyps(1) [OF next_ok(1) _ _ next_ok(2,3)]
    show ?thesis
    proof (cases "c \<le> bm_bighint (mem ! kid s d k)")
      case False
      then have "meta_alloc_loop mem s (blk + k * rad d) c (rad d) (16 * sz d) (off d k)
          = meta_alloc_loop mem s (blk + Suc k * rad d) c (rad d) (16 * sz d) (off d (Suc k))"
        using unf 3 c rad_ge [of d] blk2 by simp
      then show ?thesis using loop [OF Suc.prems(1,2)] by simp
    next
      case True
      have nk: "node mem (kid s d k) d (cover d n k) (slice d A k)" using Suc.prems(1) 3 by (simp add: opened_def)
      have "blk + k * rad d + cover d n k \<le> BLIST_NONE" using blk 3(4) by linarith
      from kids [OF nk this] obtain mem' r where ka: "kid_alloc d mem (kid s d k) (blk + k * rad d) c = Some (mem', r)"
        "only mem mem' (kid s d k) (sz d)"
        "r = BLIST_NONE \<and> node mem' (kid s d k) d (cover d n k) (slice d A k) \<or>
         (\<exists>b. r = blk + k * rad d + b \<and> b + c \<le> cover d n k \<and> {b..<b + c} \<subseteq> slice d A k \<and>
            node mem' (kid s d k) d (cover d n k) (slice d A k - {b..<b + c}))"
        unfolding allocates_def by blast
      have av: "bmu_avail (mem' ! s) = card A" using Suc.prems(2) only_kid_head [OF ka(2)] by simp
      note o = only_kid [OF 3(1) ka(2)]
      from ka(3) show ?thesis
      proof (elim disjE conjE exE)
        assume r: "r = BLIST_NONE" and "node mem' (kid s d k) d (cover d n k) (slice d A k)"
        then have op': "opened mem' s d n A" by (intro opened_update_kid [OF Suc.prems(1) 3(1,4) ka(2)]) (use A in auto)
        have "meta_alloc_loop mem s (blk + k * rad d) c (rad d) (16 * sz d) (off d k)
            = meta_alloc_loop mem' s (blk + Suc k * rad d) c (rad d) (16 * sz d) (off d (Suc k))"
          using unf 3 True ka(1) r blk2 by simp
        then show ?thesis using loop [OF op' av] only_trans [OF o] unfolding allocates_def by metis
      next
        fix b
        assume b: "r = blk + k * rad d + b" "b + c \<le> cover d n k" "{b..<b + c} \<subseteq> slice d A k"
          "node mem' (kid s d k) d (cover d n k) (slice d A k - {b..<b + c})"
        let ?R = "{k * rad d + b..<k * rad d + b + c}"
        have bc: "b + c \<le> rad d" "k * rad d + b + c \<le> n" using b(2) 3(4) by linarith+
        have RA: "?R \<subseteq> A"
        proof
          fix x
          assume "x \<in> ?R"
          then have "x - k * rad d \<in> {b..<b + c}" "x = k * rad d + (x - k * rad d)" by auto
          then show "x \<in> A" using b(3) by (metis slice_mem subsetD)
        qed
        have op': "opened mem' s d n (A - ?R)"
          by (rule opened_update_kid [OF Suc.prems(1) 3(1,4) ka(2)])
            (use b(4) A in \<open>auto simp: slice_ops slice_run [OF bc(1)]\<close>)
        obtain mem'' where dn: "alloc_done mem' s c = Some mem''" "node mem'' s (Suc d) n (A - ?R)"
          "only mem' mem'' s (sz (Suc d))"
          using alloc_done_node [OF op' av RA _ fin blk(2)] by auto
        have "r \<noteq> BLIST_NONE" using b(1) bc(2) c(1) blk(1) by linarith
        then have "meta_alloc_loop mem s (blk + k * rad d) c (rad d) (16 * sz d) (off d k) = Some (mem'', r)"
          using unf 3 True ka(1) dn(1) by simp
        moreover have "r = blk + (k * rad d + b)" using b(1) by simp
        ultimately show ?thesis using dn RA bc only_trans [OF o dn(3)] unfolding allocates_def
          by (metis add.assoc)
      qed
    qed
  qed (use Suc.hyps(2) in simp)
qed

lemma meta_alloc_allocates:
  assumes kids: "\<And>mem s n A blk. node mem s d n A \<Longrightarrow> blk + n \<le> BLIST_NONE \<Longrightarrow> allocates (kid_alloc d mem s blk c) mem s d n A blk c"
    and c: "0 < c" "c \<le> 32" and nd: "node mem s (Suc d) n A" and blk: "blk + n \<le> BLIST_NONE" "rad (Suc d) < BLIST_NONE"
  shows "allocates (blst_meta_alloc mem s blk c (rad (Suc d)) (16 * sz d)) mem s (Suc d) n A blk c"
proof -
  have sh: "shape mem s (Suc d) n" by (rule node_shape [OF nd])
  note h = shape_head [OF sh]
  have av: "bmu_avail (mem ! s) = card A" and A: "A \<subseteq> {..<n}" using nd by auto
  have n: "n < BLIST_NONE" using h blk(2) by linarith
  have r16: "rad (Suc d) div 16 = rad d" by simp
  note unf = blst_meta_alloc.simps [of mem s blk c "rad (Suc d)" "16 * sz d", unfolded r16]
  have fin: "finite A" using A finite_subset by blast
  consider "A = {}" | "card A = rad (Suc d)" | "A \<noteq> {}" "card A \<noteq> rad (Suc d)" by blast
  then show ?thesis
  proof cases
    case 1
    have "shape (mem[s := (mem ! s)\<lparr>bm_bighint := c\<rparr>]) s (Suc d) n"
      by (rule shape_set_head [OF sh]) (use c none_value in simp)
    then have "node (mem[s := (mem ! s)\<lparr>bm_bighint := c\<rparr>]) s (Suc d) n A" using 1 av h by (simp del: shape.simps)
    moreover have "blst_meta_alloc mem s blk c (rad (Suc d)) (16 * sz d) = Some (mem[s := (mem ! s)\<lparr>bm_bighint := c\<rparr>], BLIST_NONE)"
      using unf h av 1 by (simp del: rad.simps)
    ultimately show ?thesis using only_head [of mem s _ "Suc d"] unfolding allocates_def by blast
  next
    case 2
    note full = full_set [OF A _ 2] h
    have n2: "n = rad (Suc d)" "A = {..<rad (Suc d)}" using full by blast+
    obtain mem' where e: "meta_expand mem s (rad d) (16 * sz d) 1 = Some mem'" "opened mem' s d n A"
      "only mem mem' s (sz (Suc d))" "mem' ! s = mem ! s"
      using expand_opened [of mem s d] sh blk(2) n2 by (auto simp del: shape.simps)
    have "allocates (meta_alloc_loop mem' s (blk + 0 * rad d) c (rad d) (16 * sz d) (off d 0)) mem' s (Suc d) n A blk c"
      by (rule meta_alloc_loop_allocates [OF kids c e(2) _ blk(1) n]) (use av e(4) in simp_all)
    moreover have "blst_meta_alloc mem s blk c (rad (Suc d)) (16 * sz d) = meta_alloc_loop mem' s blk c (rad d) (16 * sz d) 1"
      using unf h av 2 e(1) by (simp del: rad.simps)
    ultimately show ?thesis using only_trans [OF e(3)] unfolding allocates_def by (metis add_0_right mult_0 off_simps(3))
  next
    case 3
    have op: "opened mem s d n A" by (rule node_opened [OF nd 3])
    have "allocates (meta_alloc_loop mem s (blk + 0 * rad d) c (rad d) (16 * sz d) (off d 0)) mem s (Suc d) n A blk c"
      by (rule meta_alloc_loop_allocates [OF kids c op av blk(1) n]) simp_all
    moreover have "blst_meta_alloc mem s blk c (rad (Suc d)) (16 * sz d) = meta_alloc_loop mem s blk c (rad d) (16 * sz d) 1"
      using unf h av 3 fin by (simp del: rad.simps)
    ultimately show ?thesis by (simp add: off_simps)
  qed
qed

theorem kid_alloc_allocates:
  assumes "0 < c" "c \<le> 32" "rad d < BLIST_NONE" "node mem s d n A" "blk + n \<le> BLIST_NONE"
  shows "allocates (kid_alloc d mem s blk c) mem s d n A blk c"
  using assms(3-)
proof (induction d arbitrary: mem s n A blk)
  case 0
  then show ?case using leaf_alloc_allocates [OF 0(2) assms(1,2), of blk] by (simp only: kid_alloc_def sz.simps simp_thms if_True)
next
  case (Suc d)
  have r: "rad d < BLIST_NONE" using Suc.prems(1) by simp
  have "kid_alloc (Suc d) mem s blk c = blst_meta_alloc mem s blk c (rad (Suc d)) (16 * sz d)" by (simp add: kid_alloc_def)
  then show ?case using meta_alloc_allocates [OF Suc.IH [OF r] assms(1,2) Suc.prems(2,3,1)] by (simp only:)
qed

end
