(* ===== verification/Blist_Release.thy ===== *)
theory Blist_Release
  imports Blist_Ops
begin

text \<open>Releasing and filling a range of blocks, which may spread over several children.\<close>

section \<open>The part of a range in one child\<close>

lemma piece_bounds:
  assumes "k * r \<le> f" "f < k * r + r" "f + c \<le> (n::nat)" "0 < c" "v = min (k * r + r - f) c"
  shows "0 < v" "v \<le> c" "f - k * r + v \<le> r" "f - k * r + v \<le> min r (n - k * r)"
    "k * r + (f - k * r) = f" "k * r + (f - k * r) + v = f + v" "k * r < n"
  using assms by auto

lemma piece_next:
  assumes "k * r \<le> f" "f < k * r + r" "0 < c" "v = min (k * r + r - f) (c::nat)" "0 < r"
  shows "if c - v = 0 then f + v \<le> Suc k * r else Suc k * r \<le> f + v \<and> f + v < Suc k * r + r"
  using assms by auto

lemma piece_slice:
  assumes "k * rad d \<le> f" "f - k * rad d + v \<le> rad d"
  shows "slice d {f..<f + v} j = (if j = k then {f - k * rad d..<f - k * rad d + v} else {})"
  using slice_run [of "f - k * rad d" v d k j] assms by simp

lemma range_split: "v \<le> c \<Longrightarrow> {f..<f + c} = {f..<f + v} \<union> {f + v..<f + v + (c - (v::nat))}"
  by auto

lemma rad_dvd: "32 dvd rad d"
  by (induction d) auto

section \<open>Release\<close>

definition releases :: "blmeta list option \<Rightarrow> blmeta list \<Rightarrow> nat \<Rightarrow> nat \<Rightarrow> nat \<Rightarrow> nat set \<Rightarrow> nat \<Rightarrow> nat \<Rightarrow> bool" where
  "releases res mem s d n A f c \<longleftrightarrow> (\<exists>mem'. res = Some mem' \<and> only mem mem' s (sz d) \<and> node mem' s d n (A \<union> {f..<f + c}))"

lemma leaf_free_releases:
  assumes n: "node mem s 0 n A" and c: "0 < c" "f + c \<le> n" and b: "32 dvd blk" and dis: "{f..<f + c} \<inter> A = {}"
  shows "releases (blst_leaf_free mem s (blk + f) c) mem s 0 n A f c"
proof -
  let ?n = "mem ! s"
  have s: "s < length mem" "n \<le> 32" using shape_head [OF node_shape [OF n]] by auto
  have A: "A = bits (bmu_bitmap ?n)" "A \<subseteq> {..<n}" using n by auto
  have m: "(blk + f) mod 32 = f" using b c s by (auto elim!: dvdE)
  obtain m where m: "leaf_mask ((blk + f) mod 32) c = Some m" "bits m = {f..<f + c}"
    using leaf_mask_run [of c f] c s m by auto
  define x where "x = ?n\<lparr>bmu_bitmap := bmu_bitmap ?n OR m, bm_bighint := 32\<rparr>"
  have "bmu_bitmap ?n AND m = 0" unfolding and_zero_disjoint using m(2) dis A(1) by blast
  then have "blst_leaf_free mem s (blk + f) c = Some (mem[s := x])" using m(1) s by (simp add: blst_leaf_free_def x_def)
  moreover have "node (mem[s := x]) s 0 n (A \<union> {f..<f + c})"
  proof (rule set_leaf [OF n])
    show "A \<union> {f..<f + c} = bits (bmu_bitmap x)" unfolding x_def using m(2) A(1) bits_ops(2) [of "bmu_bitmap ?n" m] by simp
  qed (use none_value [of 32] A(2) c in \<open>auto simp: x_def\<close>)
  ultimately show ?thesis using only_head [of mem s x 0] unfolding releases_def by blast
qed

definition kid_free :: "nat \<Rightarrow> blmeta list \<Rightarrow> nat \<Rightarrow> nat \<Rightarrow> nat \<Rightarrow> nat \<Rightarrow> blmeta list option" where
  "kid_free d mem s fb c blk =
     (if sz d = 1 then blst_leaf_free mem s fb c else blst_meta_free mem s fb c (rad d) (sz d - 1) blk)"

lemma meta_free_loop_step:
  assumes "k < 16" "kid s d k < length mem" "s < length mem" "\<not> none mem s" "b < fb + c"
  shows "meta_free_loop mem s fb c (rad d) (16 * sz d) b (off d k) = do {
    mem \<leftarrow> kid_free d mem (kid s d k) fb (min (b + rad d - fb) c) b;
    n \<leftarrow> aget mem s;
    x \<leftarrow> aget mem (kid s d k);
    mem \<leftarrow> (if bm_bighint n < bm_bighint x then aput mem s (n\<lparr>bm_bighint := bm_bighint x\<rparr>) else Some mem);
    meta_free_loop mem s (fb + min (b + rad d - fb) c) (c - min (b + rad d - fb) c) (rad d) (16 * sz d)
      (b + rad d) (off d (Suc k)) }"
  using assms off_in_skip [OF assms(1), of d]
  unfolding meta_free_loop.simps [of mem s fb c "rad d" "16 * sz d" b "off d k"] skip_div off_simps(1) kid_free_def
  by (simp add: Let_def kid_def [symmetric] not_less del: sz_1_iff One_nat_def)

lemma meta_free_loop_end: "\<not> b < fb + c \<Longrightarrow> meta_free_loop mem s fb c r sk b i = Some mem"
  by (simp add: meta_free_loop.simps)

text \<open>The loop, with \<open>f\<close> the number of the first block of the range within the node.\<close>

lemma meta_free_loop_releases:
  assumes kids: "\<And>mem s n A f c blk. node mem s d n A \<Longrightarrow> 0 < c \<Longrightarrow> f + c \<le> n \<Longrightarrow> 32 dvd blk \<Longrightarrow>
      {f..<f + c} \<inter> A = {} \<Longrightarrow> releases (kid_free d mem s (blk + f) c blk) mem s d n A f c"
    and blk: "32 dvd blk"
    and op: "opened mem s d n A" and f: "f + c \<le> n" "{f..<f + c} \<inter> A = {}"
    and k: "if c = 0 then f \<le> k * rad d else k * rad d \<le> f \<and> f < k * rad d + rad d"
  shows "\<exists>mem'. meta_free_loop mem s (blk + f) c (rad d) (16 * sz d) (blk + k * rad d) (off d k) = Some mem' \<and>
    opened mem' s d n (A \<union> {f..<f + c}) \<and> only mem mem' s (sz (Suc d)) \<and> bmu_avail (mem' ! s) = bmu_avail (mem ! s)"
  using op f k
proof (induction c arbitrary: f k mem A rule: less_induct)
  case (less c)
  show ?case
  proof (cases "c = 0")
    case True
    then show ?thesis using less.prems meta_free_loop_end [of "blk + k * rad d" "blk + f" c] by auto
  next
    case False
    have kf: "k * rad d \<le> f" "f < k * rad d + rad d" "0 < c" using False less.prems(4) by auto
    define v where "v = min (k * rad d + rad d - f) c"
    note pb = piece_bounds [OF kf(1,2) less.prems(2) kf(3) v_def]
    have sh: "shape mem s (Suc d) n" and A: "A \<subseteq> {..<n}" using less.prems(1) by (auto simp: opened_def)
    note h = shape_head [OF sh]
    have k16: "k < 16" using covered_kid [OF _ pb(7)] h by blast
    have nk: "node mem (kid s d k) d (cover d n k) (slice d A k)" using less.prems(1) k16 pb(7) by (simp add: opened_def)
    have ps: "slice d {f..<f + v} j = (if j = k then {f - k * rad d..<f - k * rad d + v} else {})" for j
      by (rule piece_slice [OF kf(1) pb(3)])
    note split = range_split [OF pb(2), of f]
    have sub: "{f..<f + v} \<inter> A = {}" using less.prems(3) split by blast
    then have "slice d ({f..<f + v} \<inter> A) k = {}" by (simp add: slice_ops)
    then have dis: "{f - k * rad d..<f - k * rad d + v} \<inter> slice d A k = {}" using ps [of k] by (simp add: slice_ops)
    have b32: "32 dvd blk + k * rad d" using blk rad_dvd [of d] by simp
    have fb: "blk + k * rad d + (f - k * rad d) = blk + f" using pb(5) by linarith
    from kids [OF nk pb(1,4) b32 dis] obtain mem1 where m1: "kid_free d mem (kid s d k) (blk + f) v (blk + k * rad d) = Some mem1"
      "only mem mem1 (kid s d k) (sz d)" "node mem1 (kid s d k) d (cover d n k) (slice d A k \<union> {f - k * rad d..<f - k * rad d + v})"
      unfolding releases_def fb by blast
    have op1: "opened mem1 s d n (A \<union> {f..<f + v})"
      by (rule opened_update_kid [OF less.prems(1) k16 pb(7) m1(2)])
        (use m1(3) A less.prems(2) pb(2) in \<open>auto simp: slice_ops ps\<close>)
    have h1: "s < length mem1" "kid s d k < length mem1" "bm_bighint (mem1 ! kid s d k) \<noteq> BLIST_NONE"
      using h only_length [OF m1(2)] shape_head [OF node_shape [OF m1(3)]] by auto
    define mem2 where "mem2 = (if bm_bighint (mem1 ! s) < bm_bighint (mem1 ! kid s d k)
      then mem1[s := (mem1 ! s)\<lparr>bm_bighint := bm_bighint (mem1 ! kid s d k)\<rparr>] else mem1)"
    have op2: "opened mem2 s d n (A \<union> {f..<f + v})" using op1 opened_set_head [OF op1] h1(3) by (simp add: mem2_def)
    have o2: "only mem mem2 s (sz (Suc d))" using only_trans [OF only_kid [OF k16 m1(2)] only_head [of mem1 s _ "Suc d"]]
        only_kid [OF k16 m1(2)] by (simp add: mem2_def del: sz.simps)
    have av2: "bmu_avail (mem2 ! s) = bmu_avail (mem ! s)" using only_kid_head [OF m1(2)] h1(1) by (simp add: mem2_def)
    have vv: "min (blk + k * rad d + rad d - (blk + f)) c = v" by (simp add: v_def)
    have step: "meta_free_loop mem s (blk + f) c (rad d) (16 * sz d) (blk + k * rad d) (off d k)
        = meta_free_loop mem2 s (blk + (f + v)) (c - v) (rad d) (16 * sz d) (blk + Suc k * rad d) (off d (Suc k))"
      using meta_free_loop_step [of k s d mem "blk + k * rad d" "blk + f" c] k16 shape_head [OF node_shape [OF nk]] h kf m1(1) h1
      unfolding vv mem2_def by (simp add: add.assoc [symmetric] add.commute [of "rad d"] del: sz.simps)
    have "{f + v..<f + v + (c - v)} \<inter> {f..<f + v} = {}" by auto
    then have "{f + v..<f + v + (c - v)} \<inter> (A \<union> {f..<f + v}) = {}" using less.prems(3) split by blast
    moreover have "f + v + (c - v) \<le> n" "c - v < c" using less.prems(2) pb(1,2) by auto
    moreover have "if c - v = 0 then f + v \<le> Suc k * rad d else Suc k * rad d \<le> f + v \<and> f + v < Suc k * rad d + rad d"
      by (rule piece_next [OF kf v_def rad_pos])
    ultimately obtain mem' where "meta_free_loop mem2 s (blk + (f + v)) (c - v) (rad d) (16 * sz d) (blk + Suc k * rad d) (off d (Suc k)) = Some mem'"
      "opened mem' s d n (A \<union> {f..<f + v} \<union> {f + v..<f + v + (c - v)})" "only mem2 mem' s (sz (Suc d))"
      "bmu_avail (mem' ! s) = bmu_avail (mem2 ! s)"
      using less.IH [OF _ op2, of "c - v" "f + v" "Suc k"] by blast
    then show ?thesis using step o2 av2 only_trans [OF o2] split by (simp add: Un_assoc del: sz.simps)
  qed
qed

lemma meta_free_releases:
  assumes kids: "\<And>mem s n A f c blk. node mem s d n A \<Longrightarrow> 0 < c \<Longrightarrow> f + c \<le> n \<Longrightarrow> 32 dvd blk \<Longrightarrow>
      {f..<f + c} \<inter> A = {} \<Longrightarrow> releases (kid_free d mem s (blk + f) c blk) mem s d n A f c"
    and nd: "node mem s (Suc d) n A" and c: "0 < c" "f + c \<le> n" and blk: "32 dvd blk"
    and dis: "{f..<f + c} \<inter> A = {}" and r: "rad (Suc d) < BLIST_NONE"
  shows "releases (blst_meta_free mem s (blk + f) c (rad (Suc d)) (16 * sz d) blk) mem s (Suc d) n A f c"
proof -
  have sh: "shape mem s (Suc d) n" by (rule node_shape [OF nd])
  note h = shape_head [OF sh]
  have av: "bmu_avail (mem ! s) = card A" and A: "A \<subseteq> {..<n}" using nd by auto
  have fin: "finite A" using A finite_subset by blast
  have card: "card (A \<union> {f..<f + c}) = card A + c" using dis fin by (simp add: card_Un_disjoint Int_commute)
  have sub: "A \<union> {f..<f + c} \<subseteq> {..<n}" using A c by auto
  have le: "card A + c \<le> n" using card card_mono [OF _ sub] by simp
  define mem1 where "mem1 = mem[s := (if A = {} then (mem ! s)\<lparr>bmu_avail := c, bm_bighint := c\<rparr>
    else (mem ! s)\<lparr>bmu_avail := card A + c\<rparr>)]"
  have av1: "bmu_avail (mem1 ! s) = card A + c" "s < length mem1" using h by (auto simp: mem1_def)
  have hint: "bm_bighint (if A = {} then (mem ! s)\<lparr>bmu_avail := c, bm_bighint := c\<rparr> else (mem ! s)\<lparr>bmu_avail := card A + c\<rparr>) \<noteq> BLIST_NONE"
    using h c r by auto
  have sh1: "shape mem1 s (Suc d) n" unfolding mem1_def by (rule shape_set_head [OF sh hint])
  have o1: "only mem mem1 s (sz (Suc d))" unfolding mem1_def by (rule only_head)
  show ?thesis
  proof (cases "card A + c = rad (Suc d)")
    case True
    have "blst_meta_free mem s (blk + f) c (rad (Suc d)) (16 * sz d) blk = Some mem1"
      using h av True av1 fin
      by (cases "A = {}") (auto simp: blst_meta_free.simps [of mem] mem1_def simp del: rad.simps)
    moreover have "node mem1 s (Suc d) n (A \<union> {f..<f + c})" using sh1 sub av1(1) card True by (simp del: shape.simps rad.simps)
    ultimately show ?thesis using o1 unfolding releases_def by blast
  next
    case False
    obtain mem2 where m2: "(if A = {} then meta_clear mem1 s (16 * sz d) 1 else Some mem1) = Some mem2"
      "opened mem2 s d n A" "only mem1 mem2 s (sz (Suc d))" "mem2 ! s = mem1 ! s"
    proof (cases "A = {}")
      case True
      obtain m where "meta_clear mem1 s (16 * sz d) 1 = Some m" "opened m s d n {}" "only mem1 m s (sz (Suc d))" "m ! s = mem1 ! s"
        by (rule clear_opened [OF sh1])
      then show thesis using that True by simp
    next
      case False
      have "card A \<noteq> rad (Suc d)" using le c(1) h by linarith
      then have "opened mem1 s d n A" unfolding mem1_def using hint by (intro opened_set_head node_opened [OF nd False])
      then show thesis using that False by simp
    qed
    have r16: "rad (Suc d) div 16 = rad d" by simp
    define k where "k = f div rad d"
    have k: "k * rad d \<le> f" "f < k * rad d + rad d"
      using div_mult_mod_eq [of f "rad d"] mod_less_divisor [OF rad_pos, of f d] unfolding k_def by linarith+
    have off: "k * (16 * sz d div 16) + 1 = off d k" by (simp add: off_def)
    have eq: "blst_meta_free mem s (blk + f) c (rad (Suc d)) (16 * sz d) blk
        = meta_free_loop mem2 s (blk + f) c (rad d) (16 * sz d) (blk + k * rad d) (off d k)"
    proof -
      have nr: "c \<noteq> rad (Suc d)" if "A = {}" using False that by simp
      have "\<not> rad (Suc d) < card A + c" using le h by linarith
      then show ?thesis using h av av1 m2 fin nr False only_length [OF m2(3)]
        unfolding blst_meta_free.simps [of mem] r16 off [symmetric]
        by (cases "A = {}") (auto simp: mem1_def k_def Let_def simp del: rad.simps)
    qed
    have "if c = 0 then f \<le> k * rad d else k * rad d \<le> f \<and> f < k * rad d + rad d" using k c by simp
    from meta_free_loop_releases [OF kids blk m2(2) c(2) dis this]
    obtain mem' where m': "meta_free_loop mem2 s (blk + f) c (rad d) (16 * sz d) (blk + k * rad d) (off d k) = Some mem'"
      "opened mem' s d n (A \<union> {f..<f + c})" "only mem2 mem' s (sz (Suc d))" "bmu_avail (mem' ! s) = bmu_avail (mem2 ! s)" by blast
    have "node mem' s (Suc d) n (A \<union> {f..<f + c})" by (rule opened_node [OF m'(2)]) (simp only: m'(4) m2(4) av1(1) card)
    then show ?thesis using eq m'(1) only_trans [OF only_trans [OF o1 m2(3)] m'(3)] unfolding releases_def eq by blast
  qed
qed

lemma kid_free_releases:
  assumes "rad d < BLIST_NONE" "node mem s d n A" "0 < c" "f + c \<le> n" "32 dvd blk" "{f..<f + c} \<inter> A = {}"
  shows "releases (kid_free d mem s (blk + f) c blk) mem s d n A f c"
  using assms
proof (induction d arbitrary: mem s n A f c blk)
  case 0
  have "kid_free 0 mem s (blk + f) c blk = blst_leaf_free mem s (blk + f) c" by (simp add: kid_free_def)
  then show ?case using leaf_free_releases [OF 0(2-6)] by (simp only:)
next
  case (Suc d)
  have r: "rad d < BLIST_NONE" using Suc.prems(1) by simp
  have "kid_free (Suc d) mem s (blk + f) c blk = blst_meta_free mem s (blk + f) c (rad (Suc d)) (16 * sz d) blk"
    by (simp add: kid_free_def)
  then show ?case using meta_free_releases [OF Suc.IH [OF r] Suc.prems(2-6,1)] by (simp only:)
qed

section \<open>Filling\<close>

definition fills :: "(blmeta list \<times> nat) option \<Rightarrow> blmeta list \<Rightarrow> nat \<Rightarrow> nat \<Rightarrow> nat \<Rightarrow> nat set \<Rightarrow> nat \<Rightarrow> nat \<Rightarrow> bool" where
  "fills res mem s d n A f c \<longleftrightarrow> (\<exists>mem'. res = Some (mem', card (A \<inter> {f..<f + c})) \<and> only mem mem' s (sz d) \<and>
     node mem' s d n (A - {f..<f + c}))"

lemma leaf_fill_fills:
  assumes n: "node mem s 0 n A" and c: "0 < c" "f + c \<le> n" and b: "32 dvd blk"
  shows "fills (blst_leaf_fill mem s (blk + f) c) mem s 0 n A f c"
proof -
  let ?n = "mem ! s"
  have s: "s < length mem" "n \<le> 32" "bm_bighint ?n \<noteq> BLIST_NONE" using shape_head [OF node_shape [OF n]] by auto
  have A: "A = bits (bmu_bitmap ?n)" "A \<subseteq> {..<n}" using n by auto
  have m: "(blk + f) mod 32 = f" using b c s by (auto elim!: dvdE)
  obtain m where m: "leaf_mask ((blk + f) mod 32) c = Some m" "bits m = {f..<f + c}"
    using leaf_mask_run [of c f] c s m by auto
  define x where "x = ?n\<lparr>bmu_bitmap := bmu_bitmap ?n AND NOT m\<rparr>"
  have "bits (bmu_bitmap ?n AND m) = A \<inter> {f..<f + c}" using m(2) A(1) bits_ops(3) [of "bmu_bitmap ?n" m] by (simp only:)
  then have "blst_leaf_fill mem s (blk + f) c = Some (mem[s := x], card (A \<inter> {f..<f + c}))"
    using m(1) s by (simp add: blst_leaf_fill_def x_def del: bits_ops)
  moreover have "node (mem[s := x]) s 0 n (A - {f..<f + c})"
  proof (rule set_leaf [OF n])
    show "A - {f..<f + c} = bits (bmu_bitmap x)" unfolding x_def using m(2) A(1) bits_ops(1) [of "bmu_bitmap ?n" m] by simp
  qed (use s A(2) in \<open>auto simp: x_def\<close>)
  ultimately show ?thesis using only_head [of mem s x 0] unfolding fills_def by blast
qed

definition kid_fill :: "nat \<Rightarrow> blmeta list \<Rightarrow> nat \<Rightarrow> nat \<Rightarrow> nat \<Rightarrow> nat \<Rightarrow> (blmeta list \<times> nat) option" where
  "kid_fill d mem s ab c blk =
     (if sz d = 1 then blst_leaf_fill mem s ab c else blst_meta_fill mem s ab c (rad d) (sz d - 1) blk)"

lemma meta_fill_loop_step:
  assumes "k < 16" "s < length mem" "\<not> none mem s" "b < ab + c"
  shows "meta_fill_loop mem s ab c (rad d) (16 * sz d) b (off d k) nb = do {
    (mem, m) \<leftarrow> kid_fill d mem (kid s d k) ab (min (b + rad d - ab) c) b;
    meta_fill_loop mem s (ab + min (b + rad d - ab) c) (c - min (b + rad d - ab) c) (rad d) (16 * sz d)
      (b + rad d) (off d (Suc k)) (nb + m) }"
  using assms off_in_skip [OF assms(1), of d]
  unfolding meta_fill_loop.simps [of mem s ab c "rad d" "16 * sz d" b "off d k"] skip_div off_simps(1) kid_fill_def
  by (simp add: Let_def kid_def [symmetric] not_less del: sz_1_iff One_nat_def)

lemma meta_fill_loop_end: "\<not> b < ab + c \<Longrightarrow> meta_fill_loop mem s ab c r sk b i nb = Some (mem, nb)"
  by (simp add: meta_fill_loop.simps)

lemma meta_fill_loop_fills:
  assumes kids: "\<And>mem s n A f c blk. node mem s d n A \<Longrightarrow> 0 < c \<Longrightarrow> f + c \<le> n \<Longrightarrow> 32 dvd blk \<Longrightarrow>
      fills (kid_fill d mem s (blk + f) c blk) mem s d n A f c"
    and blk: "32 dvd blk" and op: "opened mem s d n A" and f: "f + c \<le> n"
    and k: "if c = 0 then f \<le> k * rad d else k * rad d \<le> f \<and> f < k * rad d + rad d"
  shows "\<exists>mem'. meta_fill_loop mem s (blk + f) c (rad d) (16 * sz d) (blk + k * rad d) (off d k) nb
      = Some (mem', nb + card (A \<inter> {f..<f + c})) \<and>
    opened mem' s d n (A - {f..<f + c}) \<and> only mem mem' s (sz (Suc d)) \<and> mem' ! s = mem ! s"
  using op f k
proof (induction c arbitrary: f k mem A nb rule: less_induct)
  case (less c)
  show ?case
  proof (cases "c = 0")
    case True
    then show ?thesis using less.prems meta_fill_loop_end [of "blk + k * rad d" "blk + f" c] by auto
  next
    case False
    have kf: "k * rad d \<le> f" "f < k * rad d + rad d" "0 < c" using False less.prems(3) by auto
    define v where "v = min (k * rad d + rad d - f) c"
    note pb = piece_bounds [OF kf(1,2) less.prems(2) kf(3) v_def]
    have sh: "shape mem s (Suc d) n" and A: "A \<subseteq> {..<n}" using less.prems(1) by (auto simp: opened_def)
    note h = shape_head [OF sh]
    have k16: "k < 16" using covered_kid [OF _ pb(7)] h by blast
    have nk: "node mem (kid s d k) d (cover d n k) (slice d A k)" using less.prems(1) k16 pb(7) by (simp add: opened_def)
    have ps: "slice d {f..<f + v} j = (if j = k then {f - k * rad d..<f - k * rad d + v} else {})" for j
      by (rule piece_slice [OF kf(1) pb(3)])
    note split = range_split [OF pb(2), of f]
    have b32: "32 dvd blk + k * rad d" using blk rad_dvd [of d] by simp
    have fb: "blk + k * rad d + (f - k * rad d) = blk + f" using pb(5) by linarith
    have "A \<inter> {f..<f + v} = (\<lambda>x. k * rad d + x) ` (slice d A k \<inter> {f - k * rad d..<f - k * rad d + v})"
    proof (rule set_eqI)
      fix x
      show "x \<in> A \<inter> {f..<f + v} \<longleftrightarrow> x \<in> (\<lambda>x. k * rad d + x) ` (slice d A k \<inter> {f - k * rad d..<f - k * rad d + v})"
        using kf(1) pb(3) by (auto simp: slice_def image_iff intro!: bexI [of _ "x - k * rad d"])
    qed
    then have cd: "card (slice d A k \<inter> {f - k * rad d..<f - k * rad d + v}) = card (A \<inter> {f..<f + v})"
      by (simp add: card_image)
    from kids [OF nk pb(1,4) b32] obtain mem1 where
      m1: "kid_fill d mem (kid s d k) (blk + f) v (blk + k * rad d) = Some (mem1, card (A \<inter> {f..<f + v}))"
      "only mem mem1 (kid s d k) (sz d)" "node mem1 (kid s d k) d (cover d n k) (slice d A k - {f - k * rad d..<f - k * rad d + v})"
      unfolding fills_def fb cd by blast
    have op1: "opened mem1 s d n (A - {f..<f + v})"
      by (rule opened_update_kid [OF less.prems(1) k16 pb(7) m1(2)]) (use m1(3) A in \<open>auto simp: slice_ops ps\<close>)
    have o1: "only mem mem1 s (sz (Suc d))" "mem1 ! s = mem ! s" using only_kid [OF k16 m1(2)] only_kid_head [OF m1(2)] by auto
    have vv: "min (blk + k * rad d + rad d - (blk + f)) c = v" by (simp add: v_def)
    have step: "meta_fill_loop mem s (blk + f) c (rad d) (16 * sz d) (blk + k * rad d) (off d k) nb
        = meta_fill_loop mem1 s (blk + (f + v)) (c - v) (rad d) (16 * sz d) (blk + Suc k * rad d) (off d (Suc k))
            (nb + card (A \<inter> {f..<f + v}))"
      using meta_fill_loop_step [of k s mem "blk + k * rad d" "blk + f" c d nb] k16 h kf m1(1)
      unfolding vv by (simp add: add.assoc [symmetric] add.commute [of "rad d"] del: sz.simps)
    have fin: "finite A" using A finite_subset by blast
    have "A \<inter> {f..<f + c} = (A \<inter> {f..<f + v}) \<union> ((A - {f..<f + v}) \<inter> {f + v..<f + v + (c - v)})" using split by auto
    then have cu: "card (A \<inter> {f..<f + c}) = card (A \<inter> {f..<f + v}) + card ((A - {f..<f + v}) \<inter> {f + v..<f + v + (c - v)})"
      using fin by (simp only:) (rule card_Un_disjoint, auto)
    have "f + v + (c - v) \<le> n" "c - v < c" using less.prems(2) pb(1,2) by auto
    moreover have "if c - v = 0 then f + v \<le> Suc k * rad d else Suc k * rad d \<le> f + v \<and> f + v < Suc k * rad d + rad d"
      by (rule piece_next [OF kf v_def rad_pos])
    ultimately obtain mem' where "meta_fill_loop mem1 s (blk + (f + v)) (c - v) (rad d) (16 * sz d) (blk + Suc k * rad d) (off d (Suc k))
        (nb + card (A \<inter> {f..<f + v})) = Some (mem', nb + card (A \<inter> {f..<f + v}) + card ((A - {f..<f + v}) \<inter> {f + v..<f + v + (c - v)}))"
      "opened mem' s d n (A - {f..<f + v} - {f + v..<f + v + (c - v)})" "only mem1 mem' s (sz (Suc d))" "mem' ! s = mem1 ! s"
      using less.IH [OF _ op1, of "c - v" "f + v" "Suc k"] by blast
    then show ?thesis using step o1 cu only_trans [OF o1(1)] split by (simp add: Diff_eq Int_assoc Compl_Un del: sz.simps)
  qed
qed

lemma meta_fill_fills:
  assumes kids: "\<And>mem s n A f c blk. node mem s d n A \<Longrightarrow> 0 < c \<Longrightarrow> f + c \<le> n \<Longrightarrow> 32 dvd blk \<Longrightarrow>
      fills (kid_fill d mem s (blk + f) c blk) mem s d n A f c"
    and nd: "node mem s (Suc d) n A" and c: "0 < c" "f + c \<le> n" and blk: "32 dvd blk" and r: "rad (Suc d) < BLIST_NONE"
  shows "fills (blst_meta_fill mem s (blk + f) c (rad (Suc d)) (16 * sz d) blk) mem s (Suc d) n A f c"
proof -
  have sh: "shape mem s (Suc d) n" by (rule node_shape [OF nd])
  note h = shape_head [OF sh]
  have av: "bmu_avail (mem ! s) = card A" and A: "A \<subseteq> {..<n}" using nd by auto
  have fin: "finite A" using A finite_subset by blast
  have r16: "rad (Suc d) div 16 = rad d" by simp
  note unf = blst_meta_fill.simps [of mem s "blk + f" c "rad (Suc d)" "16 * sz d" blk, unfolded r16]
  show ?thesis
  proof (cases "c = rad (Suc d) \<or> A = {}")
    case True
    define x where "x = (mem ! s)\<lparr>bmu_avail := 0, bm_bighint := c\<rparr>"
    have all: "A \<subseteq> {f..<f + c}" using True A c h by auto
    then have ie: "A \<inter> {f..<f + c} = A" "A - {f..<f + c} = {}" by auto
    have "shape (mem[s := x]) s (Suc d) n" by (rule shape_set_head [OF sh]) (use c h r in \<open>auto simp: x_def\<close>)
    then have "node (mem[s := x]) s (Suc d) n {}" using h by (simp add: x_def del: shape.simps)
    moreover have "blst_meta_fill mem s (blk + f) c (rad (Suc d)) (16 * sz d) blk = Some (mem[s := x], card A)"
      using unf True h av fin by (auto simp: x_def simp del: rad.simps)
    ultimately show ?thesis using only_head [of mem s x "Suc d"] unfolding fills_def ie by blast
  next
    case False
    obtain mem1 where m1: "(if card A = rad (Suc d) then meta_expand mem s (rad d) (16 * sz d) 1 else Some mem) = Some mem1"
      "opened mem1 s d n A" "only mem mem1 s (sz (Suc d))" "mem1 ! s = mem ! s"
    proof (cases "card A = rad (Suc d)")
      case True
      have n2: "n = rad (Suc d)" "A = {..<rad (Suc d)}" using full_set [OF A _ True] h by blast+
      obtain m where "meta_expand mem s (rad d) (16 * sz d) 1 = Some m" "opened m s d (rad (Suc d)) {..<rad (Suc d)}"
        "only mem m s (sz (Suc d))" "m ! s = mem ! s"
        by (rule expand_opened [of mem s d]) (use sh n2 r in \<open>auto simp del: shape.simps\<close>)
      then show thesis using that [of m] True n2 by (simp del: rad.simps sz.simps)
    next
      case no: False
      then show thesis using that [of mem] node_opened [OF nd _ no] False by simp
    qed
    define k where "k = f div rad d"
    have k: "k * rad d \<le> f" "f < k * rad d + rad d"
      using div_mult_mod_eq [of f "rad d"] mod_less_divisor [OF rad_pos, of f d] unfolding k_def by linarith+
    have off: "k * (16 * sz d div 16) + 1 = off d k" by (simp add: off_def)
    have "if c = 0 then f \<le> k * rad d else k * rad d \<le> f \<and> f < k * rad d + rad d" using k c by simp
    from meta_fill_loop_fills [OF kids blk m1(2) c(2) this, of 0]
    obtain mem2 where m2: "meta_fill_loop mem1 s (blk + f) c (rad d) (16 * sz d) (blk + k * rad d) (off d k) 0
        = Some (mem2, card (A \<inter> {f..<f + c}))"
      "opened mem2 s d n (A - {f..<f + c})" "only mem1 mem2 s (sz (Suc d))" "mem2 ! s = mem1 ! s" by auto
    define x where "x = (mem ! s)\<lparr>bmu_avail := card A - card (A \<inter> {f..<f + c})\<rparr>"
    have s2: "s < length mem2" using h only_length [OF m1(3)] only_length [OF m2(3)] by simp
    have "card A - card (A \<inter> {f..<f + c}) = card (A - {f..<f + c})" using fin by (simp add: card_Diff_subset_Int)
    moreover have "opened (mem2[s := x]) s d n (A - {f..<f + c})" by (rule opened_set_head [OF m2(2)]) (use h in \<open>simp add: x_def\<close>)
    ultimately have "node (mem2[s := x]) s (Suc d) n (A - {f..<f + c})" using s2 by (intro opened_node) (simp_all add: x_def)
    moreover have "blst_meta_fill mem s (blk + f) c (rad (Suc d)) (16 * sz d) blk = Some (mem2[s := x], card (A \<inter> {f..<f + c}))"
    proof -
      have "\<not> rad (Suc d) < c" "c \<noteq> rad (Suc d)" "card A \<noteq> 0" using False c h fin by auto
      then show ?thesis using unf h av m1(1) m2(1) m1(4) m2(4) s2 unfolding off [symmetric]
        by (simp add: x_def k_def Let_def del: rad.simps)
    qed
    moreover have "only mem (mem2[s := x]) s (sz (Suc d))"
      by (rule only_trans [OF only_trans [OF m1(3) m2(3)] only_head])
    ultimately show ?thesis unfolding fills_def by blast
  qed
qed

lemma kid_fill_fills:
  assumes "rad d < BLIST_NONE" "node mem s d n A" "0 < c" "f + c \<le> n" "32 dvd blk"
  shows "fills (kid_fill d mem s (blk + f) c blk) mem s d n A f c"
  using assms
proof (induction d arbitrary: mem s n A f c blk)
  case 0
  have "kid_fill 0 mem s (blk + f) c blk = blst_leaf_fill mem s (blk + f) c" by (simp add: kid_fill_def)
  then show ?case using leaf_fill_fills [OF 0(2-5)] by (simp only:)
next
  case (Suc d)
  have r: "rad d < BLIST_NONE" using Suc.prems(1) by simp
  have "kid_fill (Suc d) mem s (blk + f) c blk = blst_meta_fill mem s (blk + f) c (rad (Suc d)) (16 * sz d) blk"
    by (simp add: kid_fill_def)
  then show ?case using meta_fill_fills [OF Suc.IH [OF r] Suc.prems(2-5,1)] by (simp only:)
qed

section \<open>Initialisation\<close>

text \<open>Both runs of \<open>blst_radix_init\<close> compute the same size \<open>K\<close>; in an array that has room for it the
  second builds the tree with all blocks allocated.\<close>

definition inits :: "(blmeta list option \<Rightarrow> (blmeta list option \<times> nat) option) \<Rightarrow> nat \<Rightarrow> nat \<Rightarrow> nat \<Rightarrow> bool" where
  "inits f s d n \<longleftrightarrow> (\<exists>K \<le> sz d. f None = Some (None, K) \<and>
     (\<forall>mem. s + K < length mem \<longrightarrow> (\<exists>mem'. f (Some mem) = Some (Some mem', K) \<and> only mem mem' s (sz d) \<and> node mem' s d n {})))"

text \<open>The children before \<open>k\<close> of a node are in place.\<close>

definition started :: "blmeta list \<Rightarrow> nat \<Rightarrow> nat \<Rightarrow> nat \<Rightarrow> nat \<Rightarrow> bool" where
  "started mem s d n k \<longleftrightarrow> s < length mem \<and> bm_bighint (mem ! s) = 0 \<and> bmu_avail (mem ! s) = 0 \<and>
     (\<forall>j<k. j < 16 \<longrightarrow> j * rad d < n \<longrightarrow> shape mem (kid s d j) d (cover d n j))"

lemma node_put_Some: "s < length mem \<Longrightarrow> node_put (Some mem) s f = Some (Some (mem[s := f (mem ! s)]))"
  by (simp add: node_put_def)

lemma node_put_None [simp]: "node_put None s f = Some None"
  by (simp add: node_put_def)

lemma radix_init_loop_simps:
  "radix_init_loop mem s r (16 * sz d) c (off d 16) mi = Some (mem, if mi < off d 16 then off d 16 else mi)"
  "k < 16 \<Longrightarrow> 0 < c \<Longrightarrow> radix_init_loop mem s r (16 * sz d) c (off d k) mi = do {
     (mem, K) \<leftarrow> blst_radix_init mem (kid s d k) r (sz d - 1) (if c \<ge> r then r else c);
     radix_init_loop mem s r (16 * sz d) (if c \<ge> r then c - r else 0) (off d (Suc k)) (off d k + K) }"
  "k < 16 \<Longrightarrow> radix_init_loop mem s r (16 * sz d) 0 (off d k) mi = do {
     mem \<leftarrow> node_put mem (kid s d k) (\<lambda>n. n\<lparr>bm_bighint := BLIST_NONE\<rparr>);
     Some (mem, if mi < off d k then off d k else mi) }"
  using off_in_skip [of k d] off_simps(2) [of d]
  by (subst radix_init_loop.simps, simp add: skip_div off_simps kid_def)+

lemma started_shape:
  assumes st: "started mem s d n k" and n: "0 < n" "n \<le> rad (Suc d)"
    and all: "\<And>j. j < 16 \<Longrightarrow> j * rad d < n \<Longrightarrow> j < k"
    and ends: "\<And>j. j < 15 \<Longrightarrow> j * rad d < n \<Longrightarrow> n \<le> Suc j * rad d \<Longrightarrow> kid s d (Suc j) < length mem \<and> none mem (kid s d (Suc j))"
  shows "node mem s (Suc d) n {}"
  using assms none_value [of 0] by (auto simp: started_def simp del: rad.simps)

text \<open>The loop from the child \<open>k\<close> on, with \<open>n - k * rad d\<close> blocks left.\<close>

lemma radix_init_loop_inits:
  assumes kids: "\<And>s n. 0 < n \<Longrightarrow> n \<le> rad d \<Longrightarrow> inits (\<lambda>mem. blst_radix_init mem s (rad d) (sz d - 1) n) s d n"
    and n: "0 < n" "n \<le> rad (Suc d)" and k: "k \<le> 16" "k = 0 \<or> (k - 1) * rad d < n" and mi: "mi \<le> off d k"
  shows "\<exists>K \<le> sz (Suc d). off d k \<le> K \<and>
    radix_init_loop None s (rad d) (16 * sz d) (n - k * rad d) (off d k) mi = Some (None, K) \<and>
    (\<forall>mem. started mem s d n k \<longrightarrow> s + K < length mem \<longrightarrow>
      (\<exists>mem'. radix_init_loop (Some mem) s (rad d) (16 * sz d) (n - k * rad d) (off d k) mi = Some (Some mem', K) \<and>
         only mem mem' s (sz (Suc d)) \<and> node mem' s (Suc d) n {}))"
  using k mi
proof (induction "16 - k" arbitrary: k mi)
  case 0
  then have k: "k = 16" by simp
  have "off d 16 \<le> sz (Suc d)" by (simp add: off_def)
  moreover have "node mem s (Suc d) n {}" if "started mem s d n 16" for mem
  proof (rule started_shape [OF that n])
    fix j
    assume j: "j < 15" "n \<le> Suc j * rad d"
    then have "Suc j * rad d \<le> 15 * rad d" by (intro mult_le_mono1) simp
    moreover have "15 * rad d < n" using 0(3) k by simp
    ultimately show "kid s d (Suc j) < length mem \<and> none mem (kid s d (Suc j))" using j(2) by linarith
  qed
  ultimately show ?case using 0(4) k by (auto simp: radix_init_loop_simps(1) simp del: sz.simps node.simps)
next
  case (Suc m)
  then have k16: "k < 16" by simp
  have k1: "off d (Suc k) \<le> sz (Suc d)" using kid_block [OF k16, of "sz d"] by (simp add: off_def)
  have kid_w: "kid s d k < s + sz (Suc d)" using kid_range [OF k16, of s d] sz_pos(1) [of d] by linarith
  show ?case
  proof (cases "k * rad d < n")
    case False
    then have n0: "n - k * rad d = 0" by simp
    have le: "off d k \<le> sz (Suc d)" using k1 off_simps(1) [of d k] by linarith
    have "\<exists>mem'. radix_init_loop (Some mem) s (rad d) (16 * sz d) 0 (off d k) mi = Some (Some mem', off d k) \<and>
        only mem mem' s (sz (Suc d)) \<and> node mem' s (Suc d) n {}"
      if st: "started mem s d n k" and len: "s + off d k < length mem" for mem
    proof (intro exI conjI)
      let ?mem = "mem[kid s d k := (mem ! kid s d k)\<lparr>bm_bighint := BLIST_NONE\<rparr>]"
      have l: "kid s d k < length mem" using len by (simp add: kid_def)
      show "radix_init_loop (Some mem) s (rad d) (16 * sz d) 0 (off d k) mi = Some (Some ?mem, off d k)"
        using Suc.prems(3) by (simp add: radix_init_loop_simps(3) [OF k16] node_put_Some [OF l])
      have o: "only mem ?mem (kid s d k) (sz d)" by (rule only_head)
      show "only mem ?mem s (sz (Suc d))" by (rule only_kid [OF k16 o])
      have jk: "j < k" if "j * rad d < n" for j
      proof (rule ccontr)
        assume "\<not> j < k"
        then have "k * rad d \<le> j * rad d" by (intro mult_le_mono1) simp
        then show False using that False by linarith
      qed
      have "started ?mem s d n k"
        using st only_kid_head [OF o] jk agree_shape [OF only_agree_kid [OF o]] by (auto simp: started_def)
      then show "node ?mem s (Suc d) n {}"
      proof (rule started_shape [OF _ n])
        fix j
        assume j: "j < 15" "j * rad d < n" "n \<le> Suc j * rad d"
        have "\<not> Suc j < k"
        proof
          assume "Suc j < k"
          then have "Suc j \<le> k - 1" "k \<noteq> 0" by linarith+
          then have "Suc j * rad d \<le> (k - 1) * rad d" by (intro mult_le_mono1)
          then show False using Suc.prems(2) j(3) \<open>k \<noteq> 0\<close> by linarith
        qed
        then have "Suc j = k" using jk [OF j(2)] by linarith
        then show "kid s d (Suc j) < length ?mem \<and> none ?mem (kid s d (Suc j))" using l by simp
      qed (rule jk)
    qed
    then show ?thesis using le Suc.prems(3) unfolding n0 by (auto simp: radix_init_loop_simps(3) [OF k16] simp del: sz.simps node.simps)
  next
    case True
    let ?c = "cover d n k" let ?r = "n - k * rad d"
    have c: "0 < ?c" "?c \<le> rad d" "(if rad d \<le> ?r then rad d else ?r) = ?c"
      "(if rad d \<le> ?r then ?r - rad d else 0) = n - Suc k * rad d" "0 < ?r" using True by auto
    obtain K where K: "K \<le> sz d" "blst_radix_init None (kid s d k) (rad d) (sz d - 1) ?c = Some (None, K)"
      and Km: "\<And>mem. kid s d k + K < length mem \<Longrightarrow> \<exists>mem'. blst_radix_init (Some mem) (kid s d k) (rad d) (sz d - 1) ?c
        = Some (Some mem', K) \<and> only mem mem' (kid s d k) (sz d) \<and> node mem' (kid s d k) d ?c {}"
      using kids [OF c(1,2), of "kid s d k"] unfolding inits_def by blast
    have mi': "off d k + K \<le> off d (Suc k)" using K(1) off_simps(1) [of d k] by linarith
    have "m = 16 - Suc k" "Suc k \<le> 16" "Suc k = 0 \<or> (Suc k - 1) * rad d < n" using Suc.hyps(2) True by simp_all
    from Suc.hyps(1) [OF this mi'] obtain K' where K': "K' \<le> sz (Suc d)" "off d (Suc k) \<le> K'"
      "radix_init_loop None s (rad d) (16 * sz d) (n - Suc k * rad d) (off d (Suc k)) (off d k + K) = Some (None, K')"
      and K'm: "\<And>mem. started mem s d n (Suc k) \<Longrightarrow> s + K' < length mem \<Longrightarrow>
      (\<exists>mem'. radix_init_loop (Some mem) s (rad d) (16 * sz d) (n - Suc k * rad d) (off d (Suc k)) (off d k + K) = Some (Some mem', K') \<and>
         only mem mem' s (sz (Suc d)) \<and> node mem' s (Suc d) n {})" by blast
    have lp: "radix_init_loop mem s (rad d) (16 * sz d) ?r (off d k) mi = do {
        (mem, K) \<leftarrow> blst_radix_init mem (kid s d k) (rad d) (sz d - 1) ?c;
        radix_init_loop mem s (rad d) (16 * sz d) (n - Suc k * rad d) (off d (Suc k)) (off d k + K) }" for mem
      using radix_init_loop_simps(2) [OF k16 c(5), of mem s "rad d" d mi] unfolding c(3,4) .
    have "\<exists>mem'. radix_init_loop (Some mem) s (rad d) (16 * sz d) ?r (off d k) mi = Some (Some mem', K') \<and>
        only mem mem' s (sz (Suc d)) \<and> node mem' s (Suc d) n {}"
      if st: "started mem s d n k" and len: "s + K' < length mem" for mem
    proof -
      have "kid s d k + K < length mem" using len K'(2) mi' by (simp add: kid_def)
      then obtain mem1 where m1: "blst_radix_init (Some mem) (kid s d k) (rad d) (sz d - 1) ?c = Some (Some mem1, K)"
        "only mem mem1 (kid s d k) (sz d)" "node mem1 (kid s d k) d ?c {}" using Km by blast
      have "started mem1 s d n (Suc k)"
        using st only_kid_head [OF m1(2)] only_length [OF m1(2)] agree_shape [OF only_agree_kid [OF m1(2)]] node_shape [OF m1(3)]
        by (auto simp: started_def less_Suc_eq)
      then obtain mem' where "radix_init_loop (Some mem1) s (rad d) (16 * sz d) (n - Suc k * rad d) (off d (Suc k)) (off d k + K) = Some (Some mem', K')"
        "only mem1 mem' s (sz (Suc d))" "node mem' s (Suc d) n {}" using K'm [of mem1] len only_length [OF m1(2)] by auto
      then show ?thesis using lp [of "Some mem"] m1(1) only_trans [OF only_kid [OF k16 m1(2)]] by auto
    qed
    moreover have "off d k \<le> K'" using K'(2) off_simps(1) [of d k] by linarith
    ultimately show ?thesis using K' lp [of None] K(2) by auto
  qed
qed

lemma radix_init_inits:
  "0 < n \<Longrightarrow> n \<le> rad d \<Longrightarrow> inits (\<lambda>mem. blst_radix_init mem s (rad d) (sz d - 1) n) s d n"
proof (induction d arbitrary: s n)
  case 0
  have "node (mem[s := (mem ! s)\<lparr>bm_bighint := 0, bmu_bitmap := 0\<rparr>]) s 0 n {}" if "s < length mem" for mem
    using that 0 none_value [of 0] by simp
  then show ?case unfolding inits_def
    by (intro exI [of _ 0]) (auto simp: blst_radix_init.simps node_put_Some only_def nth_list_update simp del: node.simps)
next
  case (Suc d)
  have r: "rad (Suc d) \<noteq> 32" "rad (Suc d) div 16 = rad d" "sz (Suc d) - 1 = 16 * sz d" using rad_ge [of d] by auto
  have s0: "0 < off d 0" by (simp add: off_simps)
  obtain K where K: "K \<le> sz (Suc d)" "off d 0 \<le> K"
    "radix_init_loop None s (rad d) (16 * sz d) (n - 0 * rad d) (off d 0) 0 = Some (None, K)"
    and Km: "\<And>mem. started mem s d n 0 \<Longrightarrow> s + K < length mem \<Longrightarrow>
      (\<exists>mem'. radix_init_loop (Some mem) s (rad d) (16 * sz d) (n - 0 * rad d) (off d 0) 0 = Some (Some mem', K) \<and>
         only mem mem' s (sz (Suc d)) \<and> node mem' s (Suc d) n {})"
    using radix_init_loop_inits [OF Suc.IH Suc.prems, of 0 0 s] by auto
  have unf: "blst_radix_init mem s (rad (Suc d)) (sz (Suc d) - 1) n = do {
      mem \<leftarrow> node_put mem s (\<lambda>n. n\<lparr>bm_bighint := 0, bmu_avail := 0\<rparr>);
      radix_init_loop mem s (rad d) (16 * sz d) (n - 0 * rad d) (off d 0) 0 }" for mem
    unfolding blst_radix_init.simps [of mem] r using r(1) by (simp add: off_simps)
  have "\<exists>mem'. blst_radix_init (Some mem) s (rad (Suc d)) (sz (Suc d) - 1) n = Some (Some mem', K) \<and>
      only mem mem' s (sz (Suc d)) \<and> node mem' s (Suc d) n {}" if len: "s + K < length mem" for mem
  proof -
    let ?mem = "mem[s := (mem ! s)\<lparr>bm_bighint := 0, bmu_avail := 0\<rparr>]"
    have s: "s < length mem" using len by simp
    have "started ?mem s d n 0" using s by (simp add: started_def)
    then obtain mem' where "radix_init_loop (Some ?mem) s (rad d) (16 * sz d) (n - 0 * rad d) (off d 0) 0 = Some (Some mem', K)"
      "only ?mem mem' s (sz (Suc d))" "node mem' s (Suc d) n {}" using Km [of ?mem] len by auto
    moreover have "only mem ?mem s (sz (Suc d))" by (rule only_head)
    ultimately show ?thesis using unf [of "Some mem"] node_put_Some [OF s] only_trans by (auto simp del: sz.simps node.simps)
  qed
  then show ?case using K unf [of None] unfolding inits_def by auto
qed

end
