(* ===== verification/Blist_System.thy ===== *)
theory Blist_System
  imports Blist_Release
begin

text \<open>
  The interface of the block allocator.  The locale \<open>block_allocator\<close> is what it promises a client
  such as the swap code: a set of free blocks from which ranges are taken and to which they are
  returned.  It is interpreted on \<open>blist_alloc\<close>, \<open>blist_free\<close> and \<open>blist_fill\<close>; creation and resizing
  are verified against the same invariant.
\<close>

section \<open>The contract\<close>

locale block_allocator =
  fixes ok :: "'b \<Rightarrow> nat set \<Rightarrow> bool"
    and blocks :: "'b \<Rightarrow> nat"
    and alloc :: "'b \<Rightarrow> nat \<Rightarrow> ('b \<times> nat) option"
    and release :: "'b \<Rightarrow> nat \<Rightarrow> nat \<Rightarrow> 'b option"
    and fill :: "'b \<Rightarrow> nat \<Rightarrow> nat \<Rightarrow> ('b \<times> nat) option"
    and lim :: nat and nothing :: nat
  assumes ok_range: "ok b A \<Longrightarrow> A \<subseteq> {..<blocks b}"
    and alloc_law: "ok b A \<Longrightarrow> 0 < c \<Longrightarrow> c \<le> lim \<Longrightarrow> \<exists>b' r. alloc b c = Some (b', r) \<and> blocks b' = blocks b \<and>
      (if r = nothing then ok b' A else {r..<r + c} \<subseteq> A \<and> ok b' (A - {r..<r + c}))"
    and release_law: "ok b A \<Longrightarrow> 0 < c \<Longrightarrow> f + c \<le> blocks b \<Longrightarrow> {f..<f + c} \<inter> A = {} \<Longrightarrow>
      \<exists>b'. release b f c = Some b' \<and> blocks b' = blocks b \<and> ok b' (A \<union> {f..<f + c})"
    and fill_law: "ok b A \<Longrightarrow> 0 < c \<Longrightarrow> f + c \<le> blocks b \<Longrightarrow>
      \<exists>b'. fill b f c = Some (b', card (A \<inter> {f..<f + c})) \<and> blocks b' = blocks b \<and> ok b' (A - {f..<f + c})"

text \<open>Histories of a client that returns only ranges it holds.\<close>

inductive alloc_history ::
    "('b \<Rightarrow> nat \<Rightarrow> ('b \<times> nat) option) \<Rightarrow> ('b \<Rightarrow> nat \<Rightarrow> nat \<Rightarrow> 'b option) \<Rightarrow> nat \<Rightarrow> nat \<Rightarrow> 'b \<Rightarrow> 'b \<Rightarrow> (nat \<times> nat) list \<Rightarrow> bool"
  for alloc release lim nothing b0 where
  start: "alloc_history alloc release lim nothing b0 b0 []"
| alloc: "alloc_history alloc release lim nothing b0 b held \<Longrightarrow> 0 < c \<Longrightarrow> c \<le> lim \<Longrightarrow> alloc b c = Some (b', r) \<Longrightarrow>
    r \<noteq> nothing \<Longrightarrow> alloc_history alloc release lim nothing b0 b' ((r, c) # held)"
| alloc_fails: "alloc_history alloc release lim nothing b0 b held \<Longrightarrow> 0 < c \<Longrightarrow> c \<le> lim \<Longrightarrow>
    alloc b c = Some (b', nothing) \<Longrightarrow> alloc_history alloc release lim nothing b0 b' held"
| release: "alloc_history alloc release lim nothing b0 b held \<Longrightarrow> (r, c) \<in> set held \<Longrightarrow>
    release b r c = Some b' \<Longrightarrow> alloc_history alloc release lim nothing b0 b' (remove1 (r, c) held)"

definition blocks_of :: "(nat \<times> nat) list \<Rightarrow> nat set" where
  "blocks_of held = (\<Union>(r, c) \<in> set held. {r..<r + c})"

text \<open>No two of the ranges share a block.\<close>

primrec ranges_apart :: "(nat \<times> nat) list \<Rightarrow> bool" where
  "ranges_apart [] = True"
| "ranges_apart (p # ps) = ({fst p..<fst p + snd p} \<inter> blocks_of ps = {} \<and> ranges_apart ps)"

lemma blocks_of_simps [simp]: "blocks_of [] = {}" "blocks_of ((r, c) # ps) = {r..<r + c} \<union> blocks_of ps"
  by (auto simp: blocks_of_def)

lemma ranges_apart_remove1:
  assumes "ranges_apart ps" "(r, c) \<in> set ps"
  shows "ranges_apart (remove1 (r, c) ps) \<and> blocks_of (remove1 (r, c) ps) = blocks_of ps - {r..<r + c} \<and>
    {r..<r + c} \<subseteq> blocks_of ps"
  using assms
proof (induction ps)
  case (Cons p ps)
  obtain q e where p: "p = (q, e)" by fastforce
  show ?case
  proof (cases "p = (r, c)")
    case True
    then show ?thesis using Cons.prems by auto
  next
    case False
    then have IH: "ranges_apart (remove1 (r, c) ps)" "blocks_of (remove1 (r, c) ps) = blocks_of ps - {r..<r + c}"
      "{r..<r + c} \<subseteq> blocks_of ps" using Cons by auto
    have "{q..<q + e} \<inter> blocks_of ps = {}" using Cons.prems(1) p by simp
    then show ?thesis using IH False p by auto
  qed
qed simp

context block_allocator
begin

lemma history_ok:
  assumes "alloc_history alloc release lim nothing b0 b held" "ok b0 A"
  shows "ok b (A - blocks_of held) \<and> blocks_of held \<subseteq> A \<and> ranges_apart held \<and> blocks b = blocks b0 \<and> (\<forall>(r, c) \<in> set held. 0 < c)"
  using assms
proof (induction rule: alloc_history.induct)
  case (alloc b held c b' r)
  then have h: "ok b (A - blocks_of held)" "blocks_of held \<subseteq> A" "ranges_apart held" "blocks b = blocks b0" by auto
  have "blocks b' = blocks b" "{r..<r + c} \<subseteq> A - blocks_of held" "ok b' (A - blocks_of held - {r..<r + c})"
    using alloc_law [OF h(1) alloc.hyps(2,3)] alloc.hyps(4,5) by auto
  moreover have "A - blocks_of held - {r..<r + c} = A - blocks_of ((r, c) # held)" by auto
  ultimately show ?case using h alloc by auto
next
  case (alloc_fails b held c b')
  then have h: "ok b (A - blocks_of held)" by auto
  show ?case using alloc_law [OF h alloc_fails.hyps(2,3)] alloc_fails by auto
next
  case (release b held r c b')
  then have h: "ok b (A - blocks_of held)" "blocks_of held \<subseteq> A" "ranges_apart held" "blocks b = blocks b0" "0 < c" by auto
  note ra = ranges_apart_remove1 [OF h(3) release.hyps(2)]
  have "{r..<r + c} \<inter> (A - blocks_of held) = {}" using ra by blast
  moreover have "r + c \<le> blocks b"
  proof -
    have "r + c - 1 \<in> {r..<r + c}" using h(5) by auto
    then have "r + c - 1 \<in> A" using ra h(2) by blast
    then show ?thesis using ok_range [OF release.prems] h(4,5) by (auto simp: subset_iff)
  qed
  ultimately have "\<exists>b''. release b r c = Some b'' \<and> blocks b'' = blocks b \<and> ok b'' (A - blocks_of held \<union> {r..<r + c})"
    by (intro release_law [OF h(1,5)])
  then have "ok b' (A - blocks_of held \<union> {r..<r + c})" "blocks b' = blocks b" using release.hyps(3) by auto
  moreover have "A - blocks_of held \<union> {r..<r + c} = A - blocks_of (remove1 (r, c) held)" using ra h(2) by blast
  moreover have "\<forall>(r, c) \<in> set (remove1 (r, c) held). 0 < c" using release by (auto dest: notin_set_remove1)
  moreover have "blocks_of (remove1 (r, c) held) \<subseteq> A" using ra h(2) by blast
  ultimately show ?case using ra h(4) by (simp only:)
qed simp

end

section \<open>The invariant\<close>

definition blist_ok :: "blist \<Rightarrow> nat set \<Rightarrow> bool" where
  "blist_ok bl A \<longleftrightarrow> (\<exists>d. bl_radix bl = rad d \<and> bl_skip bl = sz d - 1 \<and> rad d < BLIST_NONE \<and>
     node (bl_root bl) 0 d (bl_blocks bl) A \<and> bl_free bl = card A)"

lemma root_ops:
  "(if rad d = 32 then blst_leaf_alloc mem 0 0 c else blst_meta_alloc mem 0 0 c (rad d) (sz d - 1)) = kid_alloc d mem 0 0 c"
  "(if rad d = 32 then blst_leaf_free mem 0 f c else blst_meta_free mem 0 f c (rad d) (sz d - 1) 0) = kid_free d mem 0 f c 0"
  "(if rad d = 32 then blst_leaf_fill mem 0 f c else blst_meta_fill mem 0 f c (rad d) (sz d - 1) 0) = kid_fill d mem 0 f c 0"
  by (simp_all add: kid_alloc_def kid_free_def kid_fill_def rad_32_iff)

lemma blist_okI:
  "bl_radix bl = rad d \<Longrightarrow> bl_skip bl = sz d - 1 \<Longrightarrow> rad d < BLIST_NONE \<Longrightarrow> node mem 0 d (bl_blocks bl) A \<Longrightarrow> f = card A \<Longrightarrow>
     blist_ok (bl\<lparr>bl_root := mem, bl_free := f\<rparr>) A"
  unfolding blist_ok_def by (intro exI [of _ d]) (simp del: node.simps)

lemma blist_alloc_law:
  assumes "blist_ok bl A" "0 < c" "c \<le> 32"
  shows "\<exists>bl' r. blist_alloc bl c = Some (bl', r) \<and> bl_blocks bl' = bl_blocks bl \<and>
    (if r = BLIST_NONE then blist_ok bl' A else {r..<r + c} \<subseteq> A \<and> blist_ok bl' (A - {r..<r + c}))"
proof -
  obtain d where d: "bl_radix bl = rad d" "bl_skip bl = sz d - 1" "rad d < BLIST_NONE" "node (bl_root bl) 0 d (bl_blocks bl) A"
    "bl_free bl = card A" using assms(1) by (auto simp: blist_ok_def)
  have n: "bl_blocks bl \<le> rad d" using shape_head [OF node_shape [OF d(4)]] by blast
  have "0 + bl_blocks bl \<le> BLIST_NONE" using n d(3) by linarith
  from kid_alloc_allocates [OF assms(2,3) d(3,4) this] obtain mem r where
    a: "kid_alloc d (bl_root bl) 0 0 c = Some (mem, r)"
    "r = BLIST_NONE \<and> node mem 0 d (bl_blocks bl) A \<or>
     (r + c \<le> bl_blocks bl \<and> {r..<r + c} \<subseteq> A \<and> node mem 0 d (bl_blocks bl) (A - {r..<r + c}))"
    unfolding allocates_def by auto
  have "r \<noteq> BLIST_NONE" if "r + c \<le> bl_blocks bl" using that n d(3) assms(2) by linarith
  moreover have "card (A - {r..<r + c}) = card A - c" if "{r..<r + c} \<subseteq> A" using that by (simp add: card_Diff_subset)
  moreover have "blist_alloc bl c = Some (bl\<lparr>bl_root := mem, bl_free := (if r \<noteq> BLIST_NONE then card A - c else card A)\<rparr>, r)"
    using a(1) unfolding blist_alloc_def d(1,2,5) root_ops by simp
  ultimately show ?thesis using a(2) blist_okI [OF d(1-3), of mem A "card A"]
      blist_okI [OF d(1-3), of mem "A - {r..<r + c}" "card A - c"] by auto
qed

lemma blist_free_law:
  assumes "blist_ok bl A" "0 < c" "f + c \<le> bl_blocks bl" "{f..<f + c} \<inter> A = {}"
  shows "\<exists>bl'. blist_free bl f c = Some bl' \<and> bl_blocks bl' = bl_blocks bl \<and> blist_ok bl' (A \<union> {f..<f + c})"
proof -
  obtain d where d: "bl_radix bl = rad d" "bl_skip bl = sz d - 1" "rad d < BLIST_NONE" "node (bl_root bl) 0 d (bl_blocks bl) A"
    "bl_free bl = card A" using assms(1) by (auto simp: blist_ok_def)
  obtain mem where "kid_free d (bl_root bl) 0 f c 0 = Some mem" "node mem 0 d (bl_blocks bl) (A \<union> {f..<f + c})"
    using kid_free_releases [OF d(3,4) assms(2,3) _ assms(4), of 0] unfolding releases_def by auto
  moreover have "card A + c = card (A \<union> {f..<f + c})"
    using assms(4) node_finite [OF d(4)] by (simp add: card_Un_disjoint Int_commute)
  ultimately have "blist_free bl f c = Some (bl\<lparr>bl_root := mem, bl_free := card (A \<union> {f..<f + c})\<rparr>)"
    and "blist_ok (bl\<lparr>bl_root := mem, bl_free := card (A \<union> {f..<f + c})\<rparr>) (A \<union> {f..<f + c})"
    using blist_okI [OF d(1-3) _ refl] unfolding blist_free_def d(1,2,5) root_ops by simp_all
  then show ?thesis by simp
qed

lemma blist_fill_law:
  assumes "blist_ok bl A" "0 < c" "f + c \<le> bl_blocks bl"
  shows "\<exists>bl'. blist_fill bl f c = Some (bl', card (A \<inter> {f..<f + c})) \<and> bl_blocks bl' = bl_blocks bl \<and>
    blist_ok bl' (A - {f..<f + c})"
proof -
  obtain d where d: "bl_radix bl = rad d" "bl_skip bl = sz d - 1" "rad d < BLIST_NONE" "node (bl_root bl) 0 d (bl_blocks bl) A"
    "bl_free bl = card A" using assms(1) by (auto simp: blist_ok_def)
  obtain mem where "kid_fill d (bl_root bl) 0 f c 0 = Some (mem, card (A \<inter> {f..<f + c}))" "node mem 0 d (bl_blocks bl) (A - {f..<f + c})"
    using kid_fill_fills [OF d(3,4) assms(2,3), of 0] unfolding fills_def by auto
  moreover have "card A - card (A \<inter> {f..<f + c}) = card (A - {f..<f + c})"
    using node_finite [OF d(4)] by (simp add: card_Diff_subset_Int)
  ultimately have "blist_fill bl f c = Some (bl\<lparr>bl_root := mem, bl_free := card (A - {f..<f + c})\<rparr>, card (A \<inter> {f..<f + c}))"
    and "blist_ok (bl\<lparr>bl_root := mem, bl_free := card (A - {f..<f + c})\<rparr>) (A - {f..<f + c})"
    using blist_okI [OF d(1-3) _ refl] unfolding blist_fill_def d(1,2,5) root_ops by simp_all
  then show ?thesis by simp
qed

lemma blist_ok_range: "blist_ok bl A \<Longrightarrow> A \<subseteq> {..<bl_blocks bl}"
  unfolding blist_ok_def using node_subset by blast

interpretation bl: block_allocator blist_ok bl_blocks blist_alloc blist_free blist_fill 32 BLIST_NONE
  by unfold_locales (fact blist_ok_range blist_alloc_law blist_free_law blist_fill_law)+

section \<open>Creation\<close>

lemma rad_power: "rad d = 32 * 16 ^ d"
  by (induction d) auto

lemma sz_power: "15 * sz d + 1 = 16 ^ Suc d"
  by (induction d) auto

lemma dims_words:
  assumes "d \<le> 6"
  shows "rad d \<le> 2 ^ 29" "sz d - 1 < 2 ^ 29" "unat (of_nat (rad d) :: u32) = rad d" "unat (of_nat (sz d - 1) :: u32) = sz d - 1"
proof -
  have "(16::nat) ^ d \<le> 16 ^ 6" "(16::nat) ^ Suc d \<le> 16 ^ 7" using assms by (intro power_increasing; simp)+
  then show r: "rad d \<le> 2 ^ 29" "sz d - 1 < 2 ^ 29" using sz_power [of d] by (simp_all add: rad_power)
  show "unat (of_nat (rad d) :: u32) = rad d" "unat (of_nat (sz d - 1) :: u32) = sz d - 1"
    by (rule unat_of_nat_small, use r in simp)+
qed

lemma blist_dims_rad:
  assumes "unat blocks \<le> 2 ^ 29" "d \<le> 6"
  shows "\<exists>e \<le> 6. blist_dims blocks (of_nat (rad d)) (of_nat (sz d - 1)) = Some (of_nat (rad e), of_nat (sz e - 1)) \<and> unat blocks \<le> rad e"
  using assms(2)
proof (induction "6 - d" arbitrary: d)
  case 0
  then have "d = 6" by simp
  moreover have "rad 6 = 2 ^ 29" by (simp add: rad_power)
  ultimately show ?case using assms(1) dims_words(3) [of 6]
    by (intro exI [of _ 6]) (auto simp: blist_dims.simps [of blocks] word_less_nat_alt)
next
  case (Suc m)
  show ?case
  proof (cases "rad d < unat blocks")
    case True
    have "(of_nat (rad d) * 16 :: u32) = of_nat (rad (Suc d))" by (simp add: mult.commute)
    moreover have "((of_nat (sz d - 1) + 1) * 16 :: u32) = of_nat (sz (Suc d) - 1)"
    proof -
      have "sz (Suc d) - 1 = (sz d - 1 + 1) * 16" using sz_pos(1) [of d] by simp
      then show ?thesis by (simp only: of_nat_mult of_nat_add) simp
    qed
    ultimately have "blist_dims blocks (of_nat (rad d)) (of_nat (sz d - 1)) = blist_dims blocks (of_nat (rad (Suc d))) (of_nat (sz (Suc d) - 1))"
      using True dims_words(3) [OF Suc.prems] by (subst blist_dims.simps) (simp only: word_less_nat_alt, simp)
    moreover have "m = 6 - Suc d" "Suc d \<le> 6" using Suc.hyps(2) by auto
    ultimately show ?thesis using Suc.hyps(1) [of "Suc d"] by (simp only:)
  next
    case False
    then show ?thesis using dims_words(3) [OF Suc.prems] Suc.prems
      by (intro exI [of _ d]) (auto simp: blist_dims.simps [of blocks] word_less_nat_alt)
  qed
qed

lemma blist_create_ok:
  assumes "0 < unat blocks" "unat blocks \<le> 2 ^ 29"
  shows "\<exists>bl. blist_create junk blocks = Some bl \<and> blist_ok bl {} \<and> bl_blocks bl = unat blocks"
proof -
  obtain e where e: "e \<le> 6" "blist_dims blocks 32 0 = Some (of_nat (rad e), of_nat (sz e - 1))" "unat blocks \<le> rad e"
    using blist_dims_rad [OF assms(2), of 0] by auto
  note w = dims_words [OF e(1)]
  obtain K where K: "blst_radix_init None 0 (rad e) (sz e - 1) (unat blocks) = Some (None, K)"
    "\<forall>mem. 0 + K < length mem \<longrightarrow> (\<exists>mem'. blst_radix_init (Some mem) 0 (rad e) (sz e - 1) (unat blocks) = Some (Some mem', K) \<and>
       only mem mem' 0 (sz e) \<and> node mem' 0 e (unat blocks) {})"
    using radix_init_inits [OF assms(1) e(3), of 0] unfolding inits_def by auto
  obtain root where r: "blst_radix_init (Some (map junk [0..<1 + K])) 0 (rad e) (sz e - 1) (unat blocks) = Some (Some root, K)"
    "node root 0 e (unat blocks) {}" using K(2) [rule_format, of "map junk [0..<1 + K]"] by auto
  have "rad e < BLIST_NONE" using w(1) by (simp add: BLIST_NONE_def)
  then show ?thesis using e K(1) r w(3,4) by (auto simp: blist_create_def blist_ok_def simp del: node.simps)
qed

text \<open>The loop on the radix once it has wrapped to zero.\<close>

lemma blist_dims_zero: "0 < blocks \<Longrightarrow> blist_dims blocks 0 skip = None"
proof (rule ccontr)
  assume b: "0 < blocks" and "blist_dims blocks 0 skip \<noteq> None"
  then obtain p where p: "blist_dims blocks 0 skip = Some p" by auto
  from p have "(0::u32) = 0 \<longrightarrow> blocks = 0"
    by (rule blist_dims.raw_induct [rotated, where P = "\<lambda>blocks radix skip p. radix = 0 \<longrightarrow> blocks = 0"])
      (auto split: if_splits simp: word_gt_0)
  then show False using b by auto
qed

section \<open>Resizing\<close>

text \<open>A step of \<open>blst_copy\<close> on the blocks \<open>blk\<close> to \<open>blk + m\<close>: those of \<open>A\<close> are freed in the
  destination.\<close>

definition copies :: "(blist \<Rightarrow> blist option) \<Rightarrow> nat \<Rightarrow> nat \<Rightarrow> nat set \<Rightarrow> bool" where
  "copies f blk m A \<longleftrightarrow> (\<forall>dest D. blist_ok dest D \<longrightarrow> blk + m \<le> bl_blocks dest \<longrightarrow> {blk..<blk + m} \<inter> D = {} \<longrightarrow>
     (\<exists>dest'. f dest = Some dest' \<and> bl_blocks dest' = bl_blocks dest \<and>
        blist_ok dest' (D \<union> (+) blk ` (A \<inter> {..<m}))))"

lemma copies_nothing: "A \<inter> {..<m} = {} \<Longrightarrow> copies Some blk m A"
  by (simp add: copies_def)

lemma copies_free:
  assumes "0 < m" "{..<m} \<subseteq> A"
  shows "copies (\<lambda>dest. blist_free dest blk m) blk m A"
proof -
  have "(+) blk ` (A \<inter> {..<m}) = {blk..<blk + m}"
    using assms(2) image_add_atLeastLessThan [of blk 0 m] by (auto simp: inf_absorb2 lessThan_atLeast0 add.commute)
  then show ?thesis unfolding copies_def using blist_free_law [OF _ assms(1)] by simp
qed

lemma copies_seq:
  assumes f: "copies f blk m A" and g: "copies g (blk + m) m' B" and C: "C \<inter> {..<m} = A \<inter> {..<m}"
    "\<And>x. x < m' \<Longrightarrow> m + x \<in> C \<longleftrightarrow> x \<in> B"
  shows "copies (\<lambda>dest. do { dest \<leftarrow> f dest; g dest }) blk (m + m') C"
  unfolding copies_def
proof (intro allI impI)
  fix dest D
  assume ok: "blist_ok dest D" "blk + (m + m') \<le> bl_blocks dest" "{blk..<blk + (m + m')} \<inter> D = {}"
  have a: "{blk..<blk + m} \<inter> D = {}" "blk + m \<le> bl_blocks dest" using ok(2,3) by fastforce+
  obtain d1 where d1: "f dest = Some d1" "bl_blocks d1 = bl_blocks dest" "blist_ok d1 (D \<union> (+) blk ` (A \<inter> {..<m}))"
    using f [unfolded copies_def, rule_format, OF ok(1) a(2,1)] by blast
  have "{blk + m..<blk + m + m'} \<subseteq> {blk..<blk + (m + m')}" "{blk + m..<blk + m + m'} \<inter> (+) blk ` (A \<inter> {..<m}) = {}" by auto
  then have b: "{blk + m..<blk + m + m'} \<inter> (D \<union> (+) blk ` (A \<inter> {..<m})) = {}" "blk + m + m' \<le> bl_blocks d1"
    using ok(2,3) d1(2) by (blast, simp)
  obtain d2 where d2: "g d1 = Some d2" "bl_blocks d2 = bl_blocks d1"
    "blist_ok d2 (D \<union> (+) blk ` (A \<inter> {..<m}) \<union> (+) (blk + m) ` (B \<inter> {..<m'}))"
    using g [unfolded copies_def, rule_format, OF d1(3) b(2,1)] by blast
  have "(+) (blk + m) ` (B \<inter> {..<m'}) = (+) blk ` (C \<inter> {m..<m + m'})"
  proof (rule set_eqI)
    fix y
    show "y \<in> (+) (blk + m) ` (B \<inter> {..<m'}) \<longleftrightarrow> y \<in> (+) blk ` (C \<inter> {m..<m + m'})"
    proof
      assume "y \<in> (+) (blk + m) ` (B \<inter> {..<m'})"
      then obtain x where "y = blk + (m + x)" "x \<in> B" "x < m'" by auto
      then show "y \<in> (+) blk ` (C \<inter> {m..<m + m'})" using C(2) by auto
    next
      assume "y \<in> (+) blk ` (C \<inter> {m..<m + m'})"
      then obtain x where x: "y = blk + x" "x \<in> C" "m \<le> x" "x < m + m'" by auto
      then have "x - m \<in> B" "x - m < m'" using C(2) [of "x - m"] by auto
      then show "y \<in> (+) (blk + m) ` (B \<inter> {..<m'})" using x by (intro image_eqI [of _ _ "x - m"]) auto
    qed
  qed
  moreover have "{..<m + m'} = {..<m} \<union> {m..<m + m'}" by auto
  then have "C \<inter> {..<m + m'} = (A \<inter> {..<m}) \<union> (C \<inter> {m..<m + m'})" using C(1) by blast
  ultimately show "\<exists>dest'. f dest \<bind> g = Some dest' \<and> bl_blocks dest' = bl_blocks dest \<and>
      blist_ok dest' (D \<union> (+) blk ` (C \<inter> {..<m + m'}))"
    using d1 d2 by (simp add: image_Un Un_assoc)
qed

lemma copy_bits_copies: "copies (copy_bits v blk [k..<k + m]) (blk + k) m {x. k + x \<in> bits v}"
proof (induction m arbitrary: k)
  case 0
  then show ?case by (simp add: copies_nothing)
next
  case (Suc m)
  have up: "[k..<k + Suc m] = k # [Suc k..<Suc k + m]" by (simp add: upt_rec)
  show ?case
  proof (cases "k \<in> bits v")
    case True
    have b: "v AND bit_of k \<noteq> 0" using True bits_less [OF True] by (simp add: and_bit_of_eq_0)
    have "copies (\<lambda>dest. do { dest \<leftarrow> blist_free dest (blk + k) 1; copy_bits v blk [Suc k..<Suc k + m] dest })
        (blk + k) (1 + m) {x. k + x \<in> bits v}"
      by (rule copies_seq [OF copies_free [of 1 "{x. k + x \<in> bits v}"]]) (use True Suc.IH [of "Suc k"] in auto)
    then show ?thesis using b unfolding up by simp
  next
    case False
    have b: "v AND bit_of k = 0" using False by (cases "k < 32") (auto simp: and_bit_of_eq_0 and_zero_disjoint bit_bit_of)
    have "copies (\<lambda>dest. do { dest \<leftarrow> Some dest; copy_bits v blk [Suc k..<Suc k + m] dest })
        (blk + k) (1 + m) {x. k + x \<in> bits v}"
      by (rule copies_seq [OF copies_nothing [of "{x. k + x \<in> bits v}" 1]]) (use False Suc.IH [of "Suc k"] in auto)
    then show ?thesis using b unfolding up by simp
  qed
qed

lemma copy_loop_step:
  assumes "k < 16" "kid s d k < length mem" "\<not> none mem (kid s d k)" "0 < m"
  shows "copy_loop mem s b (rad d) (16 * sz d) dest m (off d k) = do {
    dest \<leftarrow> blst_copy mem (kid s d k) b (rad d) (sz d - 1) dest (if m \<ge> rad d then rad d else m);
    copy_loop mem s (b + rad d) (rad d) (16 * sz d) dest (if m \<ge> rad d then m - rad d else 0) (off d (Suc k)) }"
  using assms off_in_skip [OF assms(1), of d]
  unfolding copy_loop.simps [of mem s b "rad d" "16 * sz d" dest m "off d k"] skip_div off_simps(1)
  by (simp add: kid_def [symmetric])

lemma copy_loop_end: "m = 0 \<Longrightarrow> copy_loop mem s b r sk dest m i = Some dest"
  by (simp add: copy_loop.simps)

lemma copy_loop_copies:
  assumes kids: "\<And>s n A b m. node mem s d n A \<Longrightarrow> 0 < m \<Longrightarrow> m \<le> n \<Longrightarrow>
      copies (\<lambda>dest. blst_copy mem s b (rad d) (sz d - 1) dest m) b m A"
    and op: "opened mem s d n A" and m: "k * rad d + m \<le> n"
  shows "copies (\<lambda>dest. copy_loop mem s b (rad d) (16 * sz d) dest m (off d k)) b m {x. k * rad d + x \<in> A}"
  using m
proof (induction m arbitrary: k b rule: less_induct)
  case (less m)
  show ?case
  proof (cases "m = 0")
    case True
    then show ?thesis by (simp add: copy_loop_end copies_nothing)
  next
    case False
    have sh: "shape mem s (Suc d) n" using op by (simp add: opened_def)
    have k: "k * rad d < n" "k < 16" using False less.prems covered_kid [of n d k] shape_head [OF sh] by auto
    then have nd: "node mem (kid s d k) d (cover d n k) (slice d A k)" using op by (simp add: opened_def)
    note h = shape_head [OF node_shape [OF nd]]
    define v where "v = (if m \<ge> rad d then rad d else m)"
    have v: "0 < v" "v \<le> m" "v \<le> rad d" "v \<le> cover d n k" "(if m \<ge> rad d then m - rad d else 0) = m - v" "v < rad d \<Longrightarrow> m - v = 0"
      using False less.prems by (auto simp: v_def)
    have rest: "copies (\<lambda>dest. copy_loop mem s (b + rad d) (rad d) (16 * sz d) dest (m - v) (off d (Suc k))) (b + v) (m - v)
        {x. Suc k * rad d + x \<in> A}"
    proof (cases "m - v = 0")
      case False
      then have vr: "v = rad d" using v(3,6) by linarith
      have "m - v < m" using v(1,2) by linarith
      moreover have "Suc k * rad d + (m - v) \<le> n" using v(2) less.prems vr by simp
      ultimately have "m - v < m" "Suc k * rad d + (m - v) \<le> n" by blast+
      from less.IH [OF this, of "b + rad d"] show ?thesis using vr by simp
    qed (simp add: copy_loop_end copies_nothing)
    have "copies (\<lambda>dest. do { dest \<leftarrow> blst_copy mem (kid s d k) b (rad d) (sz d - 1) dest v;
        copy_loop mem s (b + rad d) (rad d) (16 * sz d) dest (m - v) (off d (Suc k)) }) b (v + (m - v)) {x. k * rad d + x \<in> A}"
    proof (rule copies_seq [OF kids [OF nd v(1,4)] rest])
      show "{x. k * rad d + x \<in> A} \<inter> {..<v} = slice d A k \<inter> {..<v}" using v(3) by (auto simp: slice_def)
      show "v + x \<in> {x. k * rad d + x \<in> A} \<longleftrightarrow> x \<in> {x. Suc k * rad d + x \<in> A}" if "x < m - v" for x
      proof -
        have "v = rad d" using v(3,6) that by linarith
        then show ?thesis by (simp add: add.assoc add.left_commute)
      qed
    qed
    then show ?thesis using copy_loop_step [OF k(2) _ _ , of s d mem m b] h False v(2,5) unfolding v_def [symmetric] by simp
  qed
qed

lemma blst_copy_copies:
  "node mem s d n A \<Longrightarrow> 0 < m \<Longrightarrow> m \<le> n \<Longrightarrow> copies (\<lambda>dest. blst_copy mem s b (rad d) (sz d - 1) dest m) b m A"
proof (induction d arbitrary: s n A b m)
  case 0
  let ?v = "bmu_bitmap (mem ! s)"
  have h: "s < length mem" "n \<le> 32" using shape_head [OF node_shape [OF 0(1)]] by auto
  have A: "A = bits ?v" using 0(1) by auto
  consider "?v = - 1" | "?v = 0" | "?v \<noteq> - 1" "?v \<noteq> 0" by blast
  then show ?case
  proof cases
    case 1
    then have "{..<m} \<subseteq> A" using A 0 h bits_minus_one by auto
    then show ?thesis using copies_free [OF 0(2)] 1 h by (simp add: blst_copy.simps)
  next
    case 2
    then have "A \<inter> {..<m} = {}" using A bits_empty_iff [of ?v] by blast
    then show ?thesis using copies_nothing 2 h by (simp add: blst_copy.simps)
  next
    case 3
    have "copies (copy_bits ?v b [0..<m]) b m {x. x \<in> bits ?v}" using copy_bits_copies [of ?v b 0 m] by simp
    moreover have "min 32 m = m" using 0 h by simp
    ultimately show ?thesis using 3 h A by (simp add: blst_copy.simps Let_def)
  qed
next
  case (Suc d)
  have sh: "shape mem s (Suc d) n" by (rule node_shape [OF Suc.prems(1)])
  note h = shape_head [OF sh]
  have av: "bmu_avail (mem ! s) = card A" "A \<subseteq> {..<n}" using Suc.prems(1) by auto
  have r: "rad (Suc d) \<noteq> 32" "rad (Suc d) div 16 = rad d" "sz (Suc d) - 1 = 16 * sz d" using rad_ge [of d] by auto
  note unf = blst_copy.simps [of mem s b "rad (Suc d)" "sz (Suc d) - 1" _ m, unfolded r(2)]
  have fin: "finite A" using av(2) finite_subset by blast
  consider "A = {}" | "card A = rad (Suc d)" | "A \<noteq> {}" "card A \<noteq> rad (Suc d)" by blast
  then show ?case
  proof cases
    case 1
    then show ?thesis using copies_nothing unf h av r(1) by (simp del: rad.simps sz.simps)
  next
    case 2
    have full: "n = rad (Suc d)" "A = {..<rad (Suc d)}" using full_set [OF av(2) _ 2] h by blast+
    have "copies (\<lambda>dest. blist_free dest b m) b m A" using copies_free [OF Suc.prems(2)] full Suc.prems(3) by simp
    moreover have "blst_copy mem s b (rad (Suc d)) (sz (Suc d) - 1) dest m = blist_free dest b m" for dest
      using unf [of dest] h av(1) 2 r(1) full Suc.prems(3) by (auto simp del: rad.simps sz.simps)
    ultimately show ?thesis by (simp only:)
  next
    case 3
    have op: "opened mem s d n A" by (rule node_opened [OF Suc.prems(1) 3])
    have "copies (\<lambda>dest. copy_loop mem s b (rad d) (16 * sz d) dest m (off d 0)) b m {x. 0 * rad d + x \<in> A}"
      by (rule copy_loop_copies [OF Suc.IH op]) (use Suc.prems(3) in auto)
    moreover have "blst_copy mem s b (rad (Suc d)) (sz (Suc d) - 1) dest m = copy_loop mem s b (rad d) (16 * sz d) dest m (off d 0)" for dest
      using unf [of dest] h av(1) 3 r(1,3) fin by (simp add: off_simps del: rad.simps sz.simps)
    ultimately show ?thesis by (simp del: rad.simps sz.simps)
  qed
qed

section \<open>Properties\<close>

abbreviation blist_history :: "blist \<Rightarrow> blist \<Rightarrow> (nat \<times> nat) list \<Rightarrow> bool" where
  "blist_history \<equiv> alloc_history blist_alloc blist_free 32 BLIST_NONE"

text \<open>The memory of a new tree before it is initialised.\<close>

definition junk0 :: "nat \<Rightarrow> blmeta" where
  "junk0 i = \<lparr>bmu_avail = 0, bmu_bitmap = 0, bm_bighint = 0\<rparr>"

lemma blist_new:
  assumes "0 < unat blocks" "unat blocks \<le> 2 ^ 29"
  obtains bl bl' where "blist_create junk blocks = Some bl" "blist_free bl 0 (unat blocks) = Some bl'"
    "blist_ok bl' {..<unat blocks}" "bl_blocks bl' = unat blocks"
proof -
  obtain bl where c: "blist_create junk blocks = Some bl" "blist_ok bl {}" "bl_blocks bl = unat blocks"
    using blist_create_ok [OF assms] by auto
  from blist_free_law [OF c(2) assms(1), of 0] c(3) show thesis using that [OF c(1)] by (auto simp: atLeast0LessThan)
qed

text \<open>C5. No block is handed out twice.  On a new tree whose blocks have been freed, in every history
  of allocations of at most 32 blocks and of releases of ranges that are held, the ranges held
  share no block and lie in the area of the tree, the counter of free blocks is exact, and neither
  an allocation nor the release of a range that is held panics or leaves the array.\<close>

theorem blist_no_double_allocation:
  assumes n: "0 < unat blocks" "unat blocks \<le> 2 ^ 29"
    and bl: "blist_create junk blocks = Some bl" "blist_free bl 0 (unat blocks) = Some bl0"
    and h: "blist_history bl0 b held"
  shows "ranges_apart held \<and> blocks_of held \<subseteq> {..<unat blocks} \<and> bl_free b = unat blocks - card (blocks_of held) \<and>
    (\<forall>c. 0 < c \<and> c \<le> 32 \<longrightarrow> blist_alloc b c \<noteq> None) \<and> (\<forall>(r, c) \<in> set held. blist_free b r c \<noteq> None)"
proof -
  have ok0: "blist_ok bl0 {..<unat blocks}" "bl_blocks bl0 = unat blocks"
    by (rule blist_new [OF n, of junk], use bl in simp)+
  have ok: "blist_ok b ({..<unat blocks} - blocks_of held)" "blocks_of held \<subseteq> {..<unat blocks}" "ranges_apart held"
    "bl_blocks b = unat blocks" "\<forall>(r, c) \<in> set held. 0 < c"
    using bl.history_ok [OF h ok0(1)] ok0(2) by auto
  have "bl_free b = card ({..<unat blocks} - blocks_of held)" using ok(1) unfolding blist_ok_def by blast
  then have "bl_free b = unat blocks - card (blocks_of held)"
    using ok(2) by (simp add: card_Diff_subset finite_subset [OF ok(2)])
  moreover have "\<forall>c. 0 < c \<and> c \<le> 32 \<longrightarrow> blist_alloc b c \<noteq> None" by (metis blist_alloc_law [OF ok(1)] option.discI)
  moreover have "blist_free b r c \<noteq> None" if "(r, c) \<in> set held" for r c
  proof -
    have c: "0 < c" using ok(5) that by auto
    have sub: "{r..<r + c} \<subseteq> blocks_of held" using ranges_apart_remove1 [OF ok(3) that] by blast
    have "r + c - 1 \<in> {r..<r + c}" using c by auto
    then have "r + c - 1 < unat blocks" using ok(2) sub by blast
    then have "r + c \<le> bl_blocks b" using ok(4) c by linarith
    moreover have "{r..<r + c} \<inter> ({..<unat blocks} - blocks_of held) = {}" using sub by blast
    ultimately show ?thesis using blist_free_law [OF ok(1) c, of r] by fastforce
  qed
  ultimately show ?thesis using ok by blast
qed

lemmas blist_eval = blist_create_def blst_radix_init.simps radix_init_loop.simps upt_rec junk0_def node_put_def
  aget_def aput_def BLIST_NONE_def blist_free_def blst_meta_free.simps meta_free_loop.simps meta_clear.simps
  blst_leaf_free_def leaf_mask_def blist_alloc_def blst_meta_alloc.simps meta_alloc_loop.simps meta_expand.simps
  blst_leaf_alloc_def leaf_scan.simps alloc_failed_def alloc_done_def mask_eq_exp_minus_1 Let_def

lemma dims_100: "blist_dims 100 32 0 = Some (512, 16)"
  by (simp add: blist_dims.simps)

lemma alloc_run:
  "do { bl \<leftarrow> blist_create junk0 100;
        bl \<leftarrow> blist_free bl 0 100;
        (bl, r1) \<leftarrow> blist_alloc bl 20;
        (bl, r2) \<leftarrow> blist_alloc bl 30;
        bl \<leftarrow> blist_free bl 0 20;
        Some (r1, r2) } = Some (0, 32)"
  by (simp add: blist_eval dims_100)

theorem blist_no_double_allocation_witness:
  "\<exists>bl bl0 bl1 bl2 bl3. blist_create junk0 100 = Some bl \<and> blist_free bl 0 100 = Some bl0 \<and>
     blist_alloc bl0 20 = Some (bl1, 0) \<and> blist_alloc bl1 30 = Some (bl2, 32) \<and>
     blist_history bl0 bl2 [(32, 30), (0, 20)] \<and> bl_free bl2 = 50 \<and>
     blist_free bl2 0 20 = Some bl3 \<and> blist_history bl0 bl3 [(32, 30)] \<and> bl_free bl3 = 70"
proof -
  have u: "0 < unat (100 :: u32)" "unat (100 :: u32) \<le> 2 ^ 29" "unat (100 :: u32) = 100" by simp_all
  obtain bl bl0 bl1 bl2 bl3 where bl: "blist_create junk0 100 = Some bl" "blist_free bl 0 (unat (100 :: u32)) = Some bl0"
    and a: "blist_alloc bl0 20 = Some (bl1, 0)" "blist_alloc bl1 30 = Some (bl2, 32)" and f: "blist_free bl2 0 20 = Some bl3"
    using alloc_run unfolding u(3) by (auto simp: bind_eq_Some_conv)
  have h1: "blist_history bl0 bl1 [(0, 20)]"
    by (rule alloc_history.alloc [of blist_alloc, OF alloc_history.start _ _ a(1)]) (simp_all add: BLIST_NONE_def)
  have h2: "blist_history bl0 bl2 [(32, 30), (0, 20)]"
    by (rule alloc_history.alloc [of blist_alloc, OF h1 _ _ a(2)]) (simp_all add: BLIST_NONE_def)
  have h3: "blist_history bl0 bl3 [(32, 30)]" using alloc_history.release [OF h2 _ f] by simp
  have "blocks_of [(32, 30), (0, 20)] = {32..<62} \<union> {0..<20}" "blocks_of [(32, 30)] = {32..<62}"
    by (auto simp: blocks_of_def)
  moreover have "card ({32..<62::nat} \<union> {0..<20}) = 50" by (subst card_Un_disjoint) auto
  ultimately have "bl_free bl2 = 50" "bl_free bl3 = 70"
    using blist_no_double_allocation [OF u(1,2) bl h2] blist_no_double_allocation [OF u(1,2) bl h3] u(3) by simp_all
  then show ?thesis using bl a f h2 h3 unfolding u(3) by blast
qed

text \<open>C17. The operations act on the set of free blocks.  On a well-formed tree that represents the free
  blocks \<open>A\<close>, an allocation fails and leaves \<open>A\<close> or takes a run of \<open>A\<close>; freeing a range of
  allocated blocks adds it; filling a range removes it and returns how many of its blocks were
  free.  None of them panics.\<close>

theorem blist_refines_free_set:
  assumes "blist_ok bl A" "0 < c"
  shows "(c \<le> 32 \<longrightarrow> (\<exists>bl' r. blist_alloc bl c = Some (bl', r) \<and>
      (if r = BLIST_NONE then blist_ok bl' A else {r..<r + c} \<subseteq> A \<and> blist_ok bl' (A - {r..<r + c})))) \<and>
    (f + c \<le> bl_blocks bl \<and> {f..<f + c} \<inter> A = {} \<longrightarrow> (\<exists>bl'. blist_free bl f c = Some bl' \<and> blist_ok bl' (A \<union> {f..<f + c}))) \<and>
    (f + c \<le> bl_blocks bl \<longrightarrow>
      (\<exists>bl'. blist_fill bl f c = Some (bl', card (A \<inter> {f..<f + c})) \<and> blist_ok bl' (A - {f..<f + c})))"
  using blist_alloc_law [OF assms] blist_free_law [OF assms, of f] blist_fill_law [OF assms, of f] by blast

theorem blist_refines_free_set_witness:
  "\<exists>bl bl'. blist_ok bl {..<100} \<and> blist_fill bl 40 20 = Some (bl', card ({..<100 :: nat} \<inter> {40..<40 + 20})) \<and>
     blist_ok bl' ({..<100} - {40..<40 + 20})"
proof -
  have u: "0 < unat (100 :: u32)" "unat (100 :: u32) \<le> 2 ^ 29" "unat (100 :: u32) = 100" by simp_all
  obtain bl where bl: "blist_ok bl {..<unat (100 :: u32)}" "bl_blocks bl = unat (100 :: u32)"
    by (rule blist_new [OF u(1,2), of junk0])
  have "\<exists>bl'. blist_fill bl 40 20 = Some (bl', card ({..<unat (100 :: u32)} \<inter> {40..<40 + 20})) \<and>
      blist_ok bl' ({..<unat (100 :: u32)} - {40..<40 + 20})"
    using blist_refines_free_set [OF bl(1), of 20 40] bl(2) by simp
  then show ?thesis using bl(1) unfolding u(3) by blast
qed

text \<open>C31. Resizing keeps the free blocks.  The new tree has the free blocks of the old one that are below
  both sizes and, when asked for, the new blocks.\<close>

theorem blist_resize_keeps:
  assumes ok: "blist_ok save A" and n: "0 < unat count" "unat count \<le> 2 ^ 29"
  shows "\<exists>bl. blist_resize junk save count freenew = Some bl \<and> bl_blocks bl = unat count \<and>
    blist_ok bl (A \<inter> {..<unat count} \<union> (if freenew then {bl_blocks save..<unat count} else {}))"
proof -
  obtain bl where c: "blist_create junk count = Some bl" "blist_ok bl {}" "bl_blocks bl = unat count"
    using blist_create_ok [OF n] by auto
  obtain d where d: "bl_radix save = rad d" "bl_skip save = sz d - 1" "node (bl_root save) 0 d (bl_blocks save) A"
    using ok by (auto simp: blist_ok_def)
  define m where "m = (if unat count > bl_blocks save then bl_blocks save else unat count)"
  have m: "0 < m" "m \<le> bl_blocks save" "0 + m \<le> bl_blocks bl"
    using n(1) c(3) shape_head [OF node_shape [OF d(3)]] by (auto simp: m_def)
  obtain bl1 where b1: "blst_copy (bl_root save) 0 0 (rad d) (sz d - 1) bl m = Some bl1" "bl_blocks bl1 = unat count"
    "blist_ok bl1 (A \<inter> {..<m})"
    using blst_copy_copies [OF d(3) m(1,2), of 0] c(2,3) m(3) unfolding copies_def by force
  have A: "A \<subseteq> {..<bl_blocks save}" by (rule blist_ok_range [OF ok])
  have Am: "A \<inter> {..<m} = A \<inter> {..<unat count}" using A by (auto simp: m_def)
  show ?thesis
  proof (cases "freenew \<and> m < unat count")
    case True
    then have ms: "m = bl_blocks save" "0 < unat count - m" "m + (unat count - m) = unat count" by (auto simp: m_def)
    have dis: "{m..<m + (unat count - m)} \<inter> (A \<inter> {..<m}) = {}" by auto
    obtain bl2 where "blist_free bl1 m (unat count - m) = Some bl2" "bl_blocks bl2 = unat count"
      "blist_ok bl2 (A \<inter> {..<m} \<union> {m..<unat count})"
      using blist_free_law [OF b1(3) ms(2) _ dis] b1(2) ms(3) by auto
    then show ?thesis using c b1 d True ms(1) Am by (simp add: blist_resize_def m_def [symmetric] Let_def)
  next
    case False
    have "(if freenew then {bl_blocks save..<unat count} else {}) = {}" using False by (auto simp: m_def split: if_splits)
    then show ?thesis using c b1 d False Am by (auto simp: blist_resize_def m_def [symmetric] Let_def)
  qed
qed

theorem blist_resize_keeps_witness:
  "\<exists>save bl. blist_ok save {..<100} \<and> blist_resize junk0 save 600 True = Some bl \<and> bl_blocks bl = 600 \<and>
     blist_ok bl ({..<100} \<inter> {..<600} \<union> (if True then {bl_blocks save..<600} else {}))"
proof -
  have u: "0 < unat (100 :: u32)" "unat (100 :: u32) \<le> 2 ^ 29" "unat (100 :: u32) = 100"
    "0 < unat (600 :: u32)" "unat (600 :: u32) \<le> 2 ^ 29" "unat (600 :: u32) = 600" by simp_all
  obtain save where "blist_ok save {..<unat (100 :: u32)}" by (rule blist_new [OF u(1,2), of junk0])
  from blist_resize_keeps [OF this u(4,5), of junk0 True] this show ?thesis unfolding u(3,6) by blast
qed

lemma blist_dims_overflow:
  assumes "2 ^ 29 < unat blocks" "d \<le> 6"
  shows "blist_dims blocks (of_nat (rad d)) skip = None"
  using assms(2)
proof (induction "6 - d" arbitrary: d skip)
  case 0
  have d: "rad d = 2 ^ 29" using 0 by (simp add: rad_power)
  have "(of_nat (rad d) :: u32) < blocks" using assms(1) unat_of_nat_small [of "2 ^ 29", where 'a = 32] unfolding d word_less_nat_alt by simp
  moreover have "(of_nat (rad d) * 16 :: u32) = 0" unfolding d by simp
  moreover have "0 < blocks" using assms(1) by (simp add: word_gt_0) (metis unat_0 not_less_zero)
  ultimately show ?case by (simp add: blist_dims.simps [of blocks "of_nat (rad d)"] blist_dims_zero)
next
  case (Suc m)
  have "(of_nat (rad d) :: u32) < blocks" using assms(1) dims_words(1,3) [OF Suc.prems] unfolding word_less_nat_alt by linarith
  moreover have "(of_nat (rad d) * 16 :: u32) = of_nat (rad (Suc d))" by (simp add: mult.commute)
  ultimately have "blist_dims blocks (of_nat (rad d)) skip = blist_dims blocks (of_nat (rad (Suc d))) ((skip + 1) * 16)"
    by (subst blist_dims.simps) (simp only: if_True)
  moreover have "m = 6 - Suc d" "Suc d \<le> 6" using Suc.hyps(2) by auto
  ultimately show ?case using Suc.hyps(1) [of "Suc d" "(skip + 1) * 16"] by (simp only:)
qed

text \<open>C37. When \<open>blist_create\<close> returns.  Up to \<open>2^29\<close> blocks it builds a tree with all blocks allocated;
  for more blocks the radix wraps to zero and the loop that computes it never ends.\<close>

theorem blist_create_returns:
  "(0 < unat blocks \<and> unat blocks \<le> 2 ^ 29 \<longrightarrow>
     (\<exists>bl. blist_create junk blocks = Some bl \<and> blist_ok bl {} \<and> bl_blocks bl = unat blocks)) \<and>
   (2 ^ 29 < unat blocks \<longrightarrow> blist_dims blocks 32 0 = None \<and> blist_create junk blocks = None)"
  using blist_create_ok [of blocks junk] blist_dims_overflow [of blocks 0 0] by (auto simp: blist_create_def)

theorem blist_create_returns_witness:
  "(\<exists>bl. blist_create junk0 100 = Some bl \<and> blist_ok bl {} \<and> bl_blocks bl = 100) \<and> blist_create junk0 (2 ^ 29 + 1) = None"
proof -
  have "unat (2 ^ 29 + 1 :: u32) = 2 ^ 29 + 1" by simp
  then show ?thesis using blist_create_returns [of 100 junk0] blist_create_returns [of "2 ^ 29 + 1" junk0] by simp
qed

section \<open>The hint\<close>

lemma dims_513: "blist_dims 513 32 0 = Some (8192, 272)"
  by (simp add: blist_dims.simps)

lemma hint_run:
  "do { bl \<leftarrow> blist_create junk0 513;
        bl \<leftarrow> blist_free bl 0 16;
        (bl, r1) \<leftarrow> blist_alloc bl 32;
        bl \<leftarrow> blist_free bl 16 496;
        (bl, r2) \<leftarrow> blist_alloc bl 32;
        Some (r1, r2) } = Some (BLIST_NONE, BLIST_NONE)"
  by (simp add: blist_eval dims_513)

text \<open>The hint of a node can be too low.  In a tree of 513 blocks, free the blocks 0 to 15, try to
  allocate 32 blocks, which fails, and free the blocks 16 to 511: now 512 blocks in a row are
  free, but an allocation of 32 blocks still fails.\<close>

theorem blist_hint_too_low:
  "\<exists>bl1 bl2 bl3 bl4 bl5. blist_create junk0 513 = Some bl1 \<and> blist_free bl1 0 16 = Some bl2 \<and>
     blist_alloc bl2 32 = Some (bl3, BLIST_NONE) \<and> blist_free bl3 16 496 = Some bl4 \<and> blist_ok bl4 {0..<512} \<and>
     blist_alloc bl4 32 = Some (bl5, BLIST_NONE)"
proof -
  have u: "0 < unat (513 :: u32)" "unat (513 :: u32) \<le> 2 ^ 29" by simp_all
  obtain bl1 where b1: "blist_create junk0 513 = Some bl1" "blist_ok bl1 {}" "bl_blocks bl1 = 513"
    using blist_create_ok [OF u, of junk0] by auto
  obtain bl2 where b2: "blist_free bl1 0 16 = Some bl2" "blist_ok bl2 {0..<16}" "bl_blocks bl2 = 513"
    using blist_free_law [OF b1(2), of 16 0] b1(3) by auto
  have c32: "0 < (32::nat)" "(32::nat) \<le> 32" by simp_all
  obtain bl3 r where b3: "blist_alloc bl2 32 = Some (bl3, r)" "bl_blocks bl3 = 513"
    "if r = BLIST_NONE then blist_ok bl3 {0..<16} else {r..<r + 32} \<subseteq> {0..<16}"
    using blist_alloc_law [OF b2(2) c32] unfolding b2(3) by (smt (verit))
  have "\<not> {r..<r + 32} \<subseteq> {0..<16}" by (auto simp: subset_iff intro!: exI [of _ "r + 16"])
  then have r: "r = BLIST_NONE" "blist_ok bl3 {0..<16}" using b3(3) by (auto split: if_splits)
  have e: "{0..<16::nat} \<union> {16..<16 + 496} = {0..<512}" by auto
  obtain bl4 where b4: "blist_free bl3 16 496 = Some bl4" "blist_ok bl4 {0..<512}"
    using blist_free_law [OF r(2), of 496 16] b3(2) unfolding e by auto
  obtain bl5 r2 where b5: "blist_alloc bl4 32 = Some (bl5, r2)" using blist_alloc_law [OF b4(2), of 32] by auto
  have "r2 = BLIST_NONE" using hint_run b1(1) b2(1) b3(1) b4(1) b5 by simp
  then show ?thesis using b1 b2 b3 b4 b5 r by blast
qed

end
