(* ===== verification/Extent.thy ===== *)
theory Extent
  imports Kernel_Prelude
begin

text \<open>
  The extent manager of \<^verbatim>\<open>sys/kern/subr_extent.c\<close>, which the bus space and DVMA code uses to hand
  out ranges of addresses.  \<open>u_long\<close> is a 64-bit word.  An extent and its \<open>extent_fixed\<close> part are
  one record; a list of region descriptors is a list of records, and a position in the region list
  (\<open>last\<close>, \<open>after\<close>) is the number of regions up to and including the one pointed to, 0 for the null
  pointer.

  An operation runs until it returns or goes to sleep.  \<open>ex_lock\<close> is the mutex: taking it when it
  is held is the outcome \<open>Stuck\<close>.  \<open>ex_cv\<close> counts the broadcasts on the condition variable, so a
  sleeper that went to sleep at count \<open>g\<close> has been awakened when the count is above \<open>g\<close>.

  \<open>diag\<close> says whether the kernel is built with \<^verbatim>\<open>DIAGNOSTIC\<close>; \<open>pool\<close> is what \<open>pool_get\<close> returns,
  memory with arbitrary contents or the null pointer.
\<close>

section \<open>Data\<close>

record extent_region =
  er_start :: u64
  er_end :: u64
  er_flags :: u32

abbreviation (input) ER_ALLOC :: u32 where "ER_ALLOC \<equiv> 0x01"

record extent =
  ex_lock :: bool
  ex_cv :: nat
  ex_regions :: "extent_region list"
  ex_start :: u64
  ex_end :: u64
  ex_flags :: u32
  fex_freelist :: "extent_region list"

abbreviation (input) EXF_FIXED :: u32 where "EXF_FIXED \<equiv> 0x01"
abbreviation (input) EXF_NOCOALESCE :: u32 where "EXF_NOCOALESCE \<equiv> 0x02"
abbreviation (input) EXF_FLWANTED :: u32 where "EXF_FLWANTED \<equiv> 0x08"
abbreviation (input) EX_WAITOK :: u32 where "EX_WAITOK \<equiv> 0x01"
abbreviation (input) EX_FAST :: u32 where "EX_FAST \<equiv> 0x02"
abbreviation (input) EX_CATCH :: u32 where "EX_CATCH \<equiv> 0x04"
abbreviation (input) EX_NOCOALESCE :: u32 where "EX_NOCOALESCE \<equiv> 0x08"
abbreviation (input) EX_MALLOCOK :: u32 where "EX_MALLOCOK \<equiv> 0x10"
abbreviation (input) EX_WAITSPACE :: u32 where "EX_WAITSPACE \<equiv> 0x20"
abbreviation (input) EX_BOUNDZERO :: u32 where "EX_BOUNDZERO \<equiv> 0x40"

abbreviation (input) ENOMEM :: int where "ENOMEM \<equiv> 12"
abbreviation (input) EINVAL :: int where "EINVAL \<equiv> 22"
abbreviation (input) EAGAIN :: int where "EAGAIN \<equiv> 35"

definition flagged :: "u32 \<Rightarrow> u32 \<Rightarrow> bool" where
  "flagged flags f \<longleftrightarrow> flags AND f \<noteq> 0"

text \<open>Where a thread sleeps: in the descriptor allocator, or for space, with its descriptor.\<close>

datatype sleeper = At_descriptor | At_space extent_region

text \<open>Releasing a descriptor.  The comment of the function asks for the lock; the error paths of the
  allocation functions call it after \<open>mutex_exit\<close>.\<close>

definition cv_broadcast :: "extent \<Rightarrow> extent" where
  "cv_broadcast ex = ex\<lparr>ex_cv := Suc (ex_cv ex)\<rparr>"

definition extent_free_region_descriptor :: "extent \<Rightarrow> extent_region \<Rightarrow> extent" where
  "extent_free_region_descriptor ex rp =
     (if flagged (ex_flags ex) EXF_FIXED then
        let ex = (if flagged (er_flags rp) ER_ALLOC then
                    (if flagged (ex_flags ex) EXF_FLWANTED
                     then ex\<lparr>fex_freelist := rp\<lparr>er_flags := ER_ALLOC\<rparr> # fex_freelist ex\<rparr>
                     else ex)
                  else ex\<lparr>fex_freelist := rp\<lparr>er_flags := 0\<rparr> # fex_freelist ex\<rparr>)
        in cv_broadcast (ex\<lparr>ex_flags := ex_flags ex AND NOT EXF_FLWANTED\<rparr>)
      else ex)"

text \<open>How a piece of code ends: it returns, sleeps, panics or waits for the lock for ever.
  \<open>Unlocked ex rp x\<close> is the state after the \<open>mutex_exit\<close> of an error path: what is left is to
  release \<open>rp\<close>, without the lock, and to return \<open>x\<close>.\<close>

datatype 'a ex_res = Ret extent 'a | Sleep extent sleeper | Unlocked extent extent_region 'a | Panic | Stuck extent

fun ex_bind :: "'a ex_res \<Rightarrow> (extent \<Rightarrow> 'a \<Rightarrow> 'b ex_res) \<Rightarrow> 'b ex_res" where
  "ex_bind (Ret ex x) f = f ex x"
| "ex_bind (Sleep ex s) f = Sleep ex s"
| "ex_bind (Unlocked ex rp x) f = f (extent_free_region_descriptor ex rp) x"
| "ex_bind Panic f = Panic"
| "ex_bind (Stuck ex) f = Stuck ex"

text \<open>A whole call of one thread, the release after the lock included.\<close>

definition ex_finish :: "'a ex_res \<Rightarrow> 'a ex_res" where
  "ex_finish res = ex_bind res Ret"

definition mutex_enter :: "extent \<Rightarrow> unit ex_res" where
  "mutex_enter ex = (if ex_lock ex then Stuck ex else Ret (ex\<lparr>ex_lock := True\<rparr>) ())"

definition mutex_exit :: "extent \<Rightarrow> extent" where
  "mutex_exit ex = ex\<lparr>ex_lock := False\<rparr>"

section \<open>Region descriptors\<close>

definition pool_descriptor :: "extent_region option \<Rightarrow> extent \<Rightarrow> extent_region option ex_res" where
  "pool_descriptor pool ex = Ret ex (map_option (\<lambda>rp. rp\<lparr>er_flags := ER_ALLOC\<rparr>) pool)"

text \<open>One round of the loop for a fixed extent, with the lock held.\<close>

definition descriptor_loop :: "extent_region option \<Rightarrow> extent \<Rightarrow> u32 \<Rightarrow> extent_region option ex_res" where
  "descriptor_loop pool ex flags =
     (case fex_freelist ex of
        rp # rest \<Rightarrow> Ret (mutex_exit (ex\<lparr>fex_freelist := rest\<rparr>)) (Some rp)
      | [] \<Rightarrow>
          if flagged flags EX_MALLOCOK then pool_descriptor pool (mutex_exit ex)
          else if \<not> flagged flags EX_WAITOK then Ret (mutex_exit ex) None
          else Sleep (mutex_exit (ex\<lparr>ex_flags := ex_flags ex OR EXF_FLWANTED\<rparr>)) At_descriptor)"

definition extent_alloc_region_descriptor ::
    "extent_region option \<Rightarrow> extent \<Rightarrow> u32 \<Rightarrow> extent_region option ex_res" where
  "extent_alloc_region_descriptor pool ex flags =
     ex_bind (mutex_enter ex) (\<lambda>ex _.
       let exflags = ex_flags ex; ex = mutex_exit ex
       in if flagged exflags EXF_FIXED
          then ex_bind (mutex_enter ex) (\<lambda>ex _. descriptor_loop pool ex flags)
          else pool_descriptor pool ex)"

text \<open>The rest of the loop after \<open>cv_wait\<close> or \<open>cv_wait_sig\<close> returns \<open>error\<close>: the wait takes the
  lock again.\<close>

definition descriptor_wake :: "extent_region option \<Rightarrow> extent \<Rightarrow> u32 \<Rightarrow> int \<Rightarrow> extent_region option ex_res" where
  "descriptor_wake pool ex flags error =
     ex_bind (mutex_enter ex) (\<lambda>ex _.
       if error \<noteq> 0 then Ret (mutex_exit ex) None else descriptor_loop pool ex flags)"

section \<open>Creation and destruction\<close>

text \<open>The descriptors carved from the storage of a fixed extent; \<open>rsz\<close> is the aligned size of a
  descriptor.\<close>

function carve :: "u64 \<Rightarrow> u64 \<Rightarrow> extent_region list \<Rightarrow> extent_region list" where
  "carve rsz sz fl =
     (if rsz = 0 \<or> sz < rsz then fl
      else carve rsz (sz - rsz) (\<lparr>er_start = 0, er_end = 0, er_flags = 0\<rparr> # fl))"
  by pat_completeness auto
termination
proof (relation "measure (\<lambda>(rsz, sz, fl). unat sz)")
  fix rsz sz :: u64 and fl :: "extent_region list"
  assume "\<not> (rsz = 0 \<or> sz < rsz)"
  then have "0 < unat rsz" "rsz \<le> sz" by (auto simp: unat_gt_0)
  then have "unat (sz - rsz) < unat sz" by (simp add: unat_sub word_le_nat_alt)
  then show "((rsz, sz - rsz, \<lparr>er_start = 0, er_end = 0, er_flags = 0\<rparr> # fl), rsz, sz, fl) \<in> measure (\<lambda>(rsz, sz, fl). unat sz)"
    by simp
qed simp

declare carve.simps [simp del]

text \<open>\<open>storage\<close> says whether the caller passes storage, which makes the extent a fixed one, \<open>fsz\<close> is the
  aligned size of its header, \<open>mem\<close> says whether \<open>kmem_alloc\<close> succeeds; of the name only its
  presence matters.  \<open>None\<close> is a panic or, without \<open>diag\<close>, storage overrun by the header.  The result
  \<open>Some None\<close> is the null pointer.\<close>

definition extent_create ::
    "bool \<Rightarrow> bool \<Rightarrow> u64 \<Rightarrow> u64 \<Rightarrow> string option \<Rightarrow> u64 \<Rightarrow> u64 \<Rightarrow> bool \<Rightarrow> u64 \<Rightarrow> u32 \<Rightarrow> extent option option" where
  "extent_create diag mem fsz rsz name start end' storage storagesize flags =
     (if diag \<and> (name = None \<or> end' < start \<or> \<not> storage \<and> storagesize \<noteq> 0) then None
      else if storage \<and> storagesize < fsz then None
      else
        let ex = \<lparr>ex_lock = False, ex_cv = 0, ex_regions = [], ex_start = start, ex_end = end',
                  ex_flags = (if storage then EXF_FIXED else 0) OR
                    (if flagged flags EX_NOCOALESCE then EXF_NOCOALESCE else 0),
                  fex_freelist = []\<rparr>
        in if storage then Some (Some (ex\<lparr>fex_freelist := carve rsz (storagesize - fsz) []\<rparr>))
           else Some (if mem then Some ex else None))"

text \<open>The state in which \<open>extent_destroy\<close> releases the extent.\<close>

definition extent_destroy :: "extent \<Rightarrow> extent" where
  "extent_destroy ex = fold (\<lambda>rp ex. extent_free_region_descriptor ex rp) (ex_regions ex) (ex\<lparr>ex_regions := []\<rparr>)"

section \<open>Inserting a region\<close>

definition region_link :: "extent \<Rightarrow> u64 \<Rightarrow> u64 \<Rightarrow> nat \<Rightarrow> extent_region \<Rightarrow> extent" where
  "region_link ex start sz after rp =
     ex\<lparr>ex_regions := take after (ex_regions ex) @
        rp\<lparr>er_start := start, er_end := start + (sz - 1)\<rparr> # drop after (ex_regions ex)\<rparr>"

definition extent_insert_and_optimize :: "extent \<Rightarrow> u64 \<Rightarrow> u64 \<Rightarrow> nat \<Rightarrow> extent_region \<Rightarrow> extent" where
  "extent_insert_and_optimize ex start sz after rp =
     (if after = 0 then
        (case ex_regions ex of
           [] \<Rightarrow> region_link ex start sz 0 rp
         | r # rs \<Rightarrow>
             if \<not> flagged (ex_flags ex) EXF_NOCOALESCE \<and> start + sz = er_start r
             then extent_free_region_descriptor (ex\<lparr>ex_regions := r\<lparr>er_start := start\<rparr> # rs\<rparr>) rp
             else region_link ex start sz 0 rp)
      else if flagged (ex_flags ex) EXF_NOCOALESCE then region_link ex start sz after rp
      else
        let pre = take (after - 1) (ex_regions ex); aft = ex_regions ex ! (after - 1);
            appended = (er_end aft + 1 = start);
            aft = (if appended then aft\<lparr>er_end := start + (sz - 1)\<rparr> else aft);
            unjoined = (if appended
              then extent_free_region_descriptor (ex\<lparr>ex_regions := pre @ aft # drop after (ex_regions ex)\<rparr>) rp
              else region_link ex start sz after rp)
        in case drop after (ex_regions ex) of
             [] \<Rightarrow> unjoined
           | nextr # rs \<Rightarrow>
               if start + sz = er_start nextr then
                 if appended
                 then extent_free_region_descriptor
                   (extent_free_region_descriptor
                     (ex\<lparr>ex_regions := pre @ aft\<lparr>er_end := er_end nextr\<rparr> # rs\<rparr>) nextr) rp
                 else extent_free_region_descriptor
                   (ex\<lparr>ex_regions := pre @ aft # nextr\<lparr>er_start := start\<rparr> # rs\<rparr>) rp
               else unjoined)"

section \<open>Allocating a given region\<close>

text \<open>The scan of the region list: the last region before the request, or \<open>None\<close> for a conflict.\<close>

fun region_scan :: "extent_region list \<Rightarrow> u64 \<Rightarrow> u64 \<Rightarrow> nat \<Rightarrow> nat option" where
  "region_scan [] start end' last' = Some last'"
| "region_scan (rp # rps) start end' last' =
     (if er_start rp > end' then Some last'
      else if er_end rp \<ge> start then None
      else region_scan rps start end' (Suc last'))"

text \<open>From \<open>alloc_start\<close> on, with the lock held.\<close>

definition alloc_region_locked :: "extent \<Rightarrow> u64 \<Rightarrow> u64 \<Rightarrow> u32 \<Rightarrow> extent_region \<Rightarrow> int ex_res" where
  "alloc_region_locked ex start sz flags myrp =
     (case region_scan (ex_regions ex) start (start + (sz - 1)) 0 of
        None \<Rightarrow>
          if flagged flags EX_WAITSPACE then Sleep (mutex_exit ex) (At_space myrp)
          else Unlocked (mutex_exit ex) myrp EAGAIN
      | Some last' \<Rightarrow> Ret (mutex_exit (extent_insert_and_optimize ex start sz last' myrp)) 0)"

text \<open>The checks of the arguments: \<open>Inl\<close> an error, \<open>None\<close> a panic.\<close>

definition alloc_region_check :: "bool \<Rightarrow> extent \<Rightarrow> u64 \<Rightarrow> u64 \<Rightarrow> (int + unit) option" where
  "alloc_region_check diag ex start sz =
     (let end' = start + (sz - 1)
      in if diag \<and> (sz < 1 \<or> end' < start) then None
         else if start < ex_start ex \<or> end' > ex_end ex then (if diag then None else Some (Inl EINVAL))
         else Some (Inr ()))"

definition alloc_region_end :: "extent \<Rightarrow> u64 \<Rightarrow> u64 \<Rightarrow> u32 \<Rightarrow> extent_region option \<Rightarrow> int ex_res" where
  "alloc_region_end ex start sz flags myrp =
     (case myrp of
        None \<Rightarrow> Ret ex ENOMEM
      | Some myrp \<Rightarrow> ex_bind (mutex_enter ex) (\<lambda>ex _. alloc_region_locked ex start sz flags myrp))"

definition extent_alloc_region :: "bool \<Rightarrow> extent_region option \<Rightarrow> extent \<Rightarrow> u64 \<Rightarrow> u64 \<Rightarrow> u32 \<Rightarrow> int ex_res" where
  "extent_alloc_region diag pool ex start sz flags =
     (case alloc_region_check diag ex start sz of
        None \<Rightarrow> Panic
      | Some (Inl err) \<Rightarrow> Ret ex err
      | Some (Inr _) \<Rightarrow>
          ex_finish (ex_bind (extent_alloc_region_descriptor pool ex flags) (\<lambda>ex myrp.
            alloc_region_end ex start sz flags myrp)))"

text \<open>After the wait for space.\<close>

definition alloc_region_wake :: "extent \<Rightarrow> u64 \<Rightarrow> u64 \<Rightarrow> u32 \<Rightarrow> extent_region \<Rightarrow> int \<Rightarrow> int ex_res" where
  "alloc_region_wake ex start sz flags myrp error =
     ex_bind (mutex_enter ex) (\<lambda>ex _.
       if error = 0 then alloc_region_locked ex start sz flags myrp
       else Unlocked (mutex_exit ex) myrp error)"

section \<open>Allocating in a subregion\<close>

definition EXTENT_ALIGN :: "u64 \<Rightarrow> u64 \<Rightarrow> u64 \<Rightarrow> u64" where
  "EXTENT_ALIGN start align skew = (((start - skew) + (align - 1)) AND (- align)) + skew"

definition LE_OV :: "u64 \<Rightarrow> u64 \<Rightarrow> u64 \<Rightarrow> bool" where
  "LE_OV x y z \<longleftrightarrow> x + y \<ge> x \<and> x + y \<le> z"

record sub_args =
  substart :: u64
  subend :: u64
  sub_size :: u64
  alignment :: u64
  skew :: u64
  boundary :: u64
  sub_flags :: u32

text \<open>The boundary check, the same code before a region and at the end; \<open>fits\<close> is the test it
  repeats when it moves the start.  The results: a start that fits, a candidate that is dropped
  (\<open>skip\<close> before a region, \<open>fail\<close> at the end), and \<open>goto fail\<close>.\<close>

datatype bound_res = Bound_fits u64 | Bound_skip | Bound_fail

definition bound_room :: "extent \<Rightarrow> u64 \<Rightarrow> u64 \<Rightarrow> u64 \<Rightarrow> bound_res" where
  "bound_room ex sz newstart dontcross =
     (if newstart + sz - 1 > ex_end ex \<or> dontcross < newstart then Bound_fail else Bound_fits newstart)"

definition bound_check :: "extent \<Rightarrow> sub_args \<Rightarrow> (u64 \<Rightarrow> bool) \<Rightarrow> u64 \<Rightarrow> bound_res" where
  "bound_check ex a fits newstart =
     (if boundary a = 0 then Bound_fits newstart
      else
        let newend = newstart + (sub_size a - 1);
            dontcross = EXTENT_ALIGN (newstart + 1) (boundary a)
              (if flagged (sub_flags a) EX_BOUNDZERO then 0 else ex_start ex) - 1
        in if dontcross < ex_start ex then bound_room ex (sub_size a) newstart (ex_end ex)
           else if newend > dontcross then
             if \<not> fits (dontcross + 1) then Bound_skip
             else bound_room ex (sub_size a) (dontcross + 1) (dontcross + boundary a)
           else bound_room ex (sub_size a) newstart dontcross)"

text \<open>The best choice so far: \<open>bestovh\<close>, \<open>beststart\<close> and \<open>bestlast\<close>.\<close>

type_synonym best = "u64 \<times> u64 \<times> nat"

definition better :: "best \<Rightarrow> u64 \<Rightarrow> u64 \<Rightarrow> nat \<Rightarrow> best" where
  "better best ovh newstart last' =
     (if fst best = 0 \<or> ovh < fst best then (ovh, newstart, last') else best)"

datatype found = Found u64 nat | Fail best

text \<open>The check of the space between the last region and the end of the subregion.\<close>

definition sub_last :: "extent \<Rightarrow> sub_args \<Rightarrow> u64 \<Rightarrow> u64 \<Rightarrow> nat \<Rightarrow> best \<Rightarrow> found" where
  "sub_last ex a exend newstart last' best =
     (if LE_OV newstart (sub_size a - 1) (subend a) then
        (case bound_check ex a (\<lambda>s. LE_OV s (sub_size a - 1) (subend a)) newstart of
           Bound_fits newstart \<Rightarrow>
             let ovh = exend - newstart - (sub_size a - 1)
             in if flagged (sub_flags a) EX_FAST \<or> ovh = 0 then Found newstart last'
                else Fail (better best ovh newstart last')
         | _ \<Rightarrow> Fail best)
      else Fail best)"

text \<open>The loop over the regions from \<open>rp\<close> on.\<close>

fun sub_loop :: "extent \<Rightarrow> sub_args \<Rightarrow> extent_region list \<Rightarrow> u64 \<Rightarrow> nat \<Rightarrow> best \<Rightarrow> found" where
  "sub_loop ex a [] newstart last' best = sub_last ex a (ex_end ex) newstart last' best"
| "sub_loop ex a (rp # rps) newstart last' best =
     (let skip = (\<lambda>best.
            let newstart = EXTENT_ALIGN (er_end rp + 1) (alignment a) (skew a)
            in if newstart < er_end rp then Fail best else sub_loop ex a rps newstart (Suc last') best)
      in if er_start rp > subend a then sub_last ex a (er_start rp) newstart last' best
         else if LE_OV newstart (sub_size a) (er_start rp) then
           (case bound_check ex a (\<lambda>s. LE_OV s (sub_size a) (er_start rp)) newstart of
              Bound_fits newstart \<Rightarrow>
                let ovh = er_start rp - newstart - sub_size a
                in if flagged (sub_flags a) EX_FAST \<or> ovh = 0 then Found newstart last'
                   else skip (better best ovh newstart last')
            | Bound_skip \<Rightarrow> skip best
            | Bound_fail \<Rightarrow> Fail best)
         else skip best)"

text \<open>The whole search, from the aligned start \<open>newstart\<close>: the start chosen and the region it goes
  after, or \<open>None\<close>.\<close>

definition sub_search :: "extent \<Rightarrow> sub_args \<Rightarrow> u64 \<Rightarrow> (u64 \<times> nat) option" where
  "sub_search ex a newstart =
     (let front = takeWhile (\<lambda>rp. er_start rp < newstart) (ex_regions ex);
          newstart = (if front \<noteq> [] \<and> er_end (last front) \<ge> newstart
            then EXTENT_ALIGN (er_end (last front) + 1) (alignment a) (skew a) else newstart)
      in case sub_loop ex a (drop (length front) (ex_regions ex)) newstart (length front) (0, 0, 0) of
           Found newstart last' \<Rightarrow> Some (newstart, last')
         | Fail (bestovh, beststart, bestlast) \<Rightarrow>
             if \<not> flagged (sub_flags a) EX_FAST \<and> bestovh \<noteq> 0 then Some (beststart, bestlast) else None)"

definition sub_check :: "extent \<Rightarrow> sub_args \<Rightarrow> bool" where
  "sub_check ex a \<longleftrightarrow>
     ex_start ex \<le> substart a \<and> substart a \<le> ex_end ex \<and> subend a \<le> ex_end ex \<and> ex_start ex \<le> subend a \<and>
     1 \<le> sub_size a \<and> sub_size a - 1 \<le> subend a - substart a \<and> alignment a \<noteq> 0 \<and>
     (boundary a = 0 \<or> sub_size a \<le> boundary a)"

text \<open>From the label \<open>alloc_start\<close> on, which takes the lock.  The result is an error, or the start
  stored through \<open>result\<close>.\<close>

definition alloc_subregion_end ::
    "bool \<Rightarrow> extent \<Rightarrow> sub_args \<Rightarrow> extent_region option \<Rightarrow> (int + u64) ex_res" where
  "alloc_subregion_end diag ex a myrp =
     (case myrp of
        None \<Rightarrow> Ret ex (Inl ENOMEM)
      | Some myrp \<Rightarrow> ex_bind (mutex_enter ex) (\<lambda>ex _.
          let newstart = EXTENT_ALIGN (substart a) (alignment a) (skew a)
          in if newstart < ex_start ex then
               (if diag then Panic else Ret (mutex_exit (extent_free_region_descriptor ex myrp)) (Inl EINVAL))
             else case sub_search ex a newstart of
               Some (newstart, last') \<Rightarrow>
                 Ret (mutex_exit (extent_insert_and_optimize ex newstart (sub_size a) last' myrp)) (Inr newstart)
             | None \<Rightarrow>
                 if flagged (sub_flags a) EX_WAITSPACE then Sleep (mutex_exit ex) (At_space myrp)
                 else Unlocked (mutex_exit ex) myrp (Inl EAGAIN)))"

definition extent_alloc_subregion1 ::
    "bool \<Rightarrow> extent_region option \<Rightarrow> extent \<Rightarrow> sub_args \<Rightarrow> (int + u64) ex_res" where
  "extent_alloc_subregion1 diag pool ex a =
     (if diag \<and> \<not> sub_check ex a then Panic
      else ex_finish (ex_bind (extent_alloc_region_descriptor pool ex (sub_flags a)) (\<lambda>ex myrp.
        alloc_subregion_end diag ex a myrp)))"

text \<open>After the wait for space: \<open>cv_wait\<close> has taken the lock, and the code goes to \<open>alloc_start\<close>.\<close>

definition alloc_subregion_wake ::
    "bool \<Rightarrow> extent \<Rightarrow> sub_args \<Rightarrow> extent_region \<Rightarrow> int \<Rightarrow> (int + u64) ex_res" where
  "alloc_subregion_wake diag ex a myrp error =
     ex_bind (mutex_enter ex) (\<lambda>ex _.
       if error = 0 then alloc_subregion_end diag ex a (Some myrp)
       else Unlocked (mutex_exit ex) myrp (Inl error))"

definition extent_alloc_subregion ::
    "bool \<Rightarrow> extent_region option \<Rightarrow> extent \<Rightarrow> u64 \<Rightarrow> u64 \<Rightarrow> u64 \<Rightarrow> u64 \<Rightarrow> u64 \<Rightarrow> u32 \<Rightarrow> (int + u64) ex_res" where
  "extent_alloc_subregion diag pool ex start end' sz align bound flags =
     extent_alloc_subregion1 diag pool ex \<lparr>substart = start, subend = end', sub_size = sz, alignment = align,
       skew = 0, boundary = bound, sub_flags = flags\<rparr>"

definition extent_alloc ::
    "bool \<Rightarrow> extent_region option \<Rightarrow> extent \<Rightarrow> u64 \<Rightarrow> u64 \<Rightarrow> u64 \<Rightarrow> u32 \<Rightarrow> (int + u64) ex_res" where
  "extent_alloc diag pool ex sz align bound flags =
     extent_alloc_subregion1 diag pool ex \<lparr>substart = ex_start ex, subend = ex_end ex, sub_size = sz,
       alignment = align, skew = 0, boundary = bound, sub_flags = flags\<rparr>"

definition extent_alloc1 ::
    "bool \<Rightarrow> extent_region option \<Rightarrow> extent \<Rightarrow> u64 \<Rightarrow> u64 \<Rightarrow> u64 \<Rightarrow> u64 \<Rightarrow> u32 \<Rightarrow> (int + u64) ex_res" where
  "extent_alloc1 diag pool ex sz align skw bound flags =
     extent_alloc_subregion1 diag pool ex \<lparr>substart = ex_start ex, subend = ex_end ex, sub_size = sz,
       alignment = align, skew = skw, boundary = bound, sub_flags = flags\<rparr>"

section \<open>Freeing\<close>

text \<open>The loop: the new list, the descriptor removed from it, and \<open>nrp\<close> if it was not used; \<open>None\<close>
  when no region is found.\<close>

fun free_loop :: "bool \<Rightarrow> extent_region list \<Rightarrow> u64 \<Rightarrow> u64 \<Rightarrow> extent_region option \<Rightarrow>
    (extent_region list \<times> extent_region option \<times> extent_region option) option" where
  "free_loop coalesce [] start end' nrp = None"
| "free_loop coalesce (rp # rps) start end' nrp =
     (let continue = map_option (\<lambda>(rs, x). (rp # rs, x)) (free_loop coalesce rps start end' nrp)
      in if er_end rp < start then continue
         else if er_start rp > end' then None
         else if start = er_start rp \<and> end' = er_end rp then Some (rps, Some rp, nrp)
         else if \<not> coalesce then continue
         else if start = er_start rp \<and> end' < er_end rp then Some (rp\<lparr>er_start := end' + 1\<rparr> # rps, None, nrp)
         else if start > er_start rp \<and> end' = er_end rp then Some (rp\<lparr>er_end := start - 1\<rparr> # rps, None, nrp)
         else if start > er_start rp \<and> end' < er_end rp then
           (case nrp of
              None \<Rightarrow> None
            | Some n \<Rightarrow> Some (rp\<lparr>er_end := start - 1\<rparr> # n\<lparr>er_start := end' + 1, er_end := er_end rp\<rparr> # rps, None, None))
         else continue)"

definition free_descriptor_opt :: "extent_region option \<Rightarrow> extent \<Rightarrow> extent" where
  "free_descriptor_opt rp ex = (case rp of None \<Rightarrow> ex | Some rp \<Rightarrow> extent_free_region_descriptor ex rp)"

text \<open>With the descriptor, if one is needed, from taking the lock on.\<close>

definition extent_free_end :: "extent \<Rightarrow> u64 \<Rightarrow> u64 \<Rightarrow> bool \<Rightarrow> extent_region option \<Rightarrow> int ex_res" where
  "extent_free_end ex start sz coalesce nrp =
     ex_bind (mutex_enter ex) (\<lambda>ex _.
       case free_loop coalesce (ex_regions ex) start (start + (sz - 1)) nrp of
         None \<Rightarrow> Panic
       | Some (rs, removed, nrp) \<Rightarrow>
           Ret (mutex_exit (cv_broadcast (free_descriptor_opt nrp
             (free_descriptor_opt removed (ex\<lparr>ex_regions := rs\<rparr>))))) 0)"

definition free_check :: "extent \<Rightarrow> u64 \<Rightarrow> u64 \<Rightarrow> bool" where
  "free_check ex start sz \<longleftrightarrow>
     (let end' = start + (sz - 1) in ex_start ex \<le> start \<and> end' \<le> ex_end ex \<and> start \<le> end')"

definition extent_free :: "bool \<Rightarrow> extent_region option \<Rightarrow> extent \<Rightarrow> u64 \<Rightarrow> u64 \<Rightarrow> u32 \<Rightarrow> int ex_res" where
  "extent_free diag pool ex start sz flags =
     (if diag \<and> \<not> free_check ex start sz then Panic
      else ex_bind (mutex_enter ex) (\<lambda>ex _.
        let coalesce = (\<not> flagged (ex_flags ex) EXF_NOCOALESCE); ex = mutex_exit ex
        in if coalesce
           then ex_bind (extent_alloc_region_descriptor pool ex flags) (\<lambda>ex nrp.
             case nrp of
               None \<Rightarrow> Ret ex ENOMEM
             | Some nrp \<Rightarrow> extent_free_end ex start sz True (Some nrp))
           else extent_free_end ex start sz False None))"

end
