(* ===== verification/Extent_Regions.thy ===== *)
theory Extent_Regions
  imports Extent "HOL-Library.Multiset"
begin

text \<open>
  The region list of an extent as a set of addresses: what it means to be well formed, and what
  scanning, inserting and freeing do to the addresses that are taken.
\<close>

section \<open>Regions as sets of addresses\<close>

abbreviation lo :: "extent_region \<Rightarrow> nat" where "lo r \<equiv> unat (er_start r)"
abbreviation hi :: "extent_region \<Rightarrow> nat" where "hi r \<equiv> unat (er_end r)"

definition taken :: "extent_region list \<Rightarrow> nat set" where
  "taken rs = (\<Union>r \<in> set rs. {lo r..hi r})"

text \<open>The regions are in order and do not overlap; if regions are coalesced (\<open>c\<close>) they do not touch.\<close>

definition regions_ok :: "bool \<Rightarrow> extent_region list \<Rightarrow> bool" where
  "regions_ok c rs \<longleftrightarrow> (\<forall>r \<in> set rs. lo r \<le> hi r) \<and> sorted_wrt (\<lambda>r x. hi r + of_bool c < lo x) rs"

definition bounds :: "extent_region \<Rightarrow> nat \<times> nat" where
  "bounds r = (lo r, hi r)"

lemma taken_simps [simp]:
  "taken [] = {}" "taken (r # rs) = {lo r..hi r} \<union> taken rs" "taken (rs @ ss) = taken rs \<union> taken ss"
  by (auto simp: taken_def)

lemma taken_iff: "x \<in> taken rs \<longleftrightarrow> (\<exists>r \<in> set rs. lo r \<le> x \<and> x \<le> hi r)"
  by (auto simp: taken_def)

lemma regions_ok_simps [simp]:
  "regions_ok c []"
  "regions_ok c (r # rs) \<longleftrightarrow> lo r \<le> hi r \<and> (\<forall>x \<in> set rs. hi r + of_bool c < lo x) \<and> regions_ok c rs"
  "regions_ok c (rs @ ss) \<longleftrightarrow> regions_ok c rs \<and> regions_ok c ss \<and> (\<forall>r \<in> set rs. \<forall>x \<in> set ss. hi r + of_bool c < lo x)"
  by (auto simp: regions_ok_def sorted_wrt_append)

lemma taken_cong: "map bounds rs = map bounds ss \<Longrightarrow> taken rs = taken ss"
proof -
  assume "map bounds rs = map bounds ss"
  then have "bounds ` set rs = bounds ` set ss" by (metis set_map)
  then have "(\<Union>p \<in> bounds ` set rs. {fst p..snd p}) = (\<Union>p \<in> bounds ` set ss. {fst p..snd p})" by simp
  then show ?thesis by (simp add: taken_def bounds_def)
qed

text \<open>Successors of words below the largest one.\<close>

lemma unat_succ: "unat (w :: u64) < unat (v :: u64) \<Longrightarrow> unat (w + 1) = unat w + 1"
proof -
  assume "unat w < unat v"
  moreover have "unat v < 2 ^ 64" using unsigned_less [of v, where ?'a = nat] by simp
  ultimately have "unat w + unat (1 :: u64) < 2 ^ 64" by simp
  then show ?thesis using unat_add_no_wrap [of w 1] by simp
qed

lemma succ_eq_iff: "unat (w :: u64) < unat (v :: u64) \<Longrightarrow> w + 1 = v \<longleftrightarrow> unat w + 1 = unat v"
  using unat_succ [of w v] by (auto simp: word_unat_eq_iff)

lemma unat_pred: "0 < unat (w :: u64) \<Longrightarrow> unat (w - 1) = unat w - 1"
  by (simp add: unat_minus_one unat_gt_0)

section \<open>The place of a region\<close>

text \<open>The regions of \<open>pre\<close> end before \<open>s\<close> and those of \<open>post\<close> start after \<open>e\<close>.\<close>

definition parted :: "extent_region list \<Rightarrow> nat \<Rightarrow> nat \<Rightarrow> extent_region list \<Rightarrow> bool" where
  "parted pre s e post \<longleftrightarrow> (\<forall>r \<in> set pre. hi r < s) \<and> (\<forall>r \<in> set post. e < lo r)"

lemma parted_disjoint: "parted pre s e post \<Longrightarrow> {s..e} \<inter> taken (pre @ post) = {}"
  by (fastforce simp: parted_def taken_iff)

lemma region_scan_Some:
  assumes "region_scan rs start end' n = Some m" "regions_ok c rs" "start \<le> end'"
  shows "\<exists>k \<le> length rs. m = n + k \<and> parted (take k rs) (unat start) (unat end') (drop k rs)"
  using assms
proof (induction rs arbitrary: n)
  case (Cons r rs)
  show ?case
  proof (cases "er_start r > end'")
    case True
    then have "unat end' < lo r" by (simp add: word_less_nat_alt)
    moreover have "\<forall>x \<in> set rs. unat end' < lo x" using Cons.prems(2) \<open>unat end' < lo r\<close> by fastforce
    ultimately show ?thesis using True Cons.prems(1) by (intro exI [of _ 0]) (auto simp: parted_def)
  next
    case False
    then have "\<not> er_end r \<ge> start" "region_scan rs start end' (Suc n) = Some m"
      using Cons.prems(1) by (auto split: if_splits)
    moreover obtain k where "k \<le> length rs" "m = Suc n + k" "parted (take k rs) (unat start) (unat end') (drop k rs)"
      using Cons.IH [OF calculation(2)] Cons.prems by auto
    ultimately show ?thesis
      by (intro exI [of _ "Suc k"]) (auto simp: parted_def word_le_nat_alt)
  qed
qed (simp add: parted_def)

lemma region_scan_None:
  assumes "region_scan rs start end' n = None" "regions_ok c rs" "start \<le> end'"
  shows "{unat start..unat end'} \<inter> taken rs \<noteq> {}"
  using assms
proof (induction rs arbitrary: n)
  case (Cons r rs)
  show ?case
  proof (cases "er_end r \<ge> start")
    case True
    then have "lo r \<le> unat end'" "unat start \<le> hi r" "lo r \<le> hi r" "unat start \<le> unat end'"
      using Cons.prems by (auto simp: word_le_nat_alt not_less split: if_splits)
    then have "max (unat start) (lo r) \<in> {unat start..unat end'} \<inter> {lo r..hi r}" by auto
    then show ?thesis unfolding taken_simps by blast
  next
    case False
    then show ?thesis using Cons by (fastforce split: if_splits)
  qed
qed simp

lemma region_scan_conflict:
  assumes "regions_ok c rs" "start \<le> end'"
  shows "region_scan rs start end' n = None \<longleftrightarrow> {unat start..unat end'} \<inter> taken rs \<noteq> {}"
proof (cases "region_scan rs start end' n")
  case (Some m)
  then obtain k where "parted (take k rs) (unat start) (unat end') (drop k rs)"
    using region_scan_Some [OF Some assms] by blast
  then show ?thesis using Some parted_disjoint [of "take k rs" _ _ "drop k rs"] by simp
qed (use region_scan_None [OF _ assms] in simp)

section \<open>Inserting\<close>

text \<open>Releasing a descriptor changes nothing but the free list, the flag and the broadcasts.\<close>

lemma free_descriptor_fields [simp]:
  "ex_regions (extent_free_region_descriptor ex rp) = ex_regions ex"
  "ex_lock (extent_free_region_descriptor ex rp) = ex_lock ex"
  "ex_start (extent_free_region_descriptor ex rp) = ex_start ex"
  "ex_end (extent_free_region_descriptor ex rp) = ex_end ex"
  by (auto simp: extent_free_region_descriptor_def Let_def cv_broadcast_def)

lemma flagged_wanted [simp]:
  "flagged (flags AND - 9) EXF_FIXED = flagged flags EXF_FIXED" "flagged (flags AND - 9) EXF_NOCOALESCE = flagged flags EXF_NOCOALESCE"
  "\<not> flagged (flags AND - 9) EXF_FLWANTED" "flagged (flags OR 8) EXF_FIXED = flagged flags EXF_FIXED"
  "flagged (flags OR 8) EXF_NOCOALESCE = flagged flags EXF_NOCOALESCE" "flagged (flags OR 8) EXF_FLWANTED"
  by (simp_all add: flagged_def and.assoc bit.conj_disj_distrib2)

lemma free_descriptor_flags [simp]:
  "flagged (ex_flags (extent_free_region_descriptor ex rp)) EXF_NOCOALESCE = flagged (ex_flags ex) EXF_NOCOALESCE"
  "flagged (ex_flags (extent_free_region_descriptor ex rp)) EXF_FIXED = flagged (ex_flags ex) EXF_FIXED"
  by (simp_all add: extent_free_region_descriptor_def Let_def cv_broadcast_def)

text \<open>The region \<open>start\<close> to \<open>start + (sz - 1)\<close> in numbers, and the tests for touching regions.\<close>

lemma touches_next:
  assumes "unat (start + (sz - 1)) < lo r"
  shows "start + sz = er_start r \<longleftrightarrow> unat (start + (sz - 1)) + 1 = lo r"
  using succ_eq_iff [OF assms] by (simp add: algebra_simps)

definition inserted :: "bool \<Rightarrow> extent_region list \<Rightarrow> nat \<Rightarrow> nat \<Rightarrow> extent_region list \<Rightarrow> bool" where
  "inserted c rs s e rs' \<longleftrightarrow> regions_ok c rs' \<and> taken rs' = taken rs \<union> {s..e} \<and>
     (\<not> c \<longrightarrow> mset (map bounds rs') = add_mset (s, e) (mset (map bounds rs)))"

lemma link_inserted:
  assumes "regions_ok c (pre @ post)" "parted pre s e post" "s \<le> e" "lo r = s" "hi r = e"
    "c \<Longrightarrow> (\<forall>x \<in> set pre. hi x + 1 \<noteq> s) \<and> (\<forall>x \<in> set post. e + 1 \<noteq> lo x)"
  shows "inserted c (pre @ post) s e (pre @ r # post)"
proof -
  have "hi x + of_bool c < s" if "x \<in> set pre" for x using that assms(2,6) by (cases c) (fastforce simp: parted_def)+
  moreover have "e + of_bool c < lo x" if "x \<in> set post" for x using that assms(2,6) by (cases c) (fastforce simp: parted_def)+
  ultimately show ?thesis using assms by (auto simp: inserted_def bounds_def)
qed

text \<open>Joining with the region before, with the one after, and with both.\<close>

lemma interval_join: "a \<le> b + 1 \<Longrightarrow> b \<le> d \<Longrightarrow> {a..b} \<union> {b + 1..d} = {a..d :: nat}"
  by auto

lemma join_prev:
  assumes ok: "regions_ok True (pre @ a # post)" and p: "parted (pre @ [a]) s e post" and se: "s \<le> e"
    and t: "hi a + 1 = s" "\<forall>x \<in> set post. e + 1 \<noteq> lo x" and a': "lo a' = lo a" "hi a' = e"
  shows "inserted True (pre @ a # post) s e (pre @ a' # post)"
proof -
  have "e + 1 < lo x" if "x \<in> set post" for x using that p t(2) by (fastforce simp: parted_def)
  moreover have "lo a' \<le> hi a'" using ok a' t(1) se by simp
  ultimately have "regions_ok True (pre @ a' # post)" using ok a' by auto
  moreover have "{lo a..hi a} \<union> {s..e} = {lo a'..hi a'}" using interval_join [of "lo a" "hi a" e] ok t(1) se a' by simp
  ultimately show ?thesis unfolding inserted_def taken_simps by blast
qed

lemma join_next:
  assumes ok: "regions_ok True (pre @ n # post)" and p: "parted pre s e (n # post)" and se: "s \<le> e"
    and t: "e + 1 = lo n" "\<forall>x \<in> set pre. hi x + 1 \<noteq> s" and n': "lo n' = s" "hi n' = hi n"
  shows "inserted True (pre @ n # post) s e (pre @ n' # post)"
proof -
  have "hi x + 1 < s" if "x \<in> set pre" for x using that p t(2) by (fastforce simp: parted_def)
  moreover have "lo n' \<le> hi n'" using ok n' t(1) se by simp
  ultimately have "regions_ok True (pre @ n' # post)" using ok n' by auto
  moreover have "{s..e} \<union> {lo n..hi n} = {lo n'..hi n'}" using interval_join [of s e "hi n"] ok t(1) se n' by simp
  ultimately show ?thesis unfolding inserted_def taken_simps by blast
qed

lemma join_both:
  assumes ok: "regions_ok True (pre @ a # n # post)" and se: "s \<le> e"
    and t: "hi a + 1 = s" "e + 1 = lo n" and a': "lo a' = lo a" "hi a' = hi n"
  shows "inserted True (pre @ a # n # post) s e (pre @ a' # post)"
proof -
  have "regions_ok True (pre @ a' # post)" using ok a' by auto
  moreover have "{lo a..hi a} \<union> {s..e} = {lo a..e}" using interval_join [of "lo a" "hi a" e] ok t(1) se by simp
  moreover have "{lo a..e} \<union> {lo n..hi n} = {lo a'..hi a'}" using interval_join [of "lo a" e "hi n"] ok t se a' by simp
  ultimately show ?thesis unfolding inserted_def taken_simps by blast
qed

lemma no_touch:
  "regions_ok c (n # post) \<Longrightarrow> e < lo n \<Longrightarrow> e + 1 \<noteq> lo n \<Longrightarrow> \<forall>x \<in> set (n # post). e + 1 \<noteq> lo x"
  "regions_ok c (pre @ [a]) \<Longrightarrow> hi a < s \<Longrightarrow> hi a + 1 \<noteq> s \<Longrightarrow> \<forall>x \<in> set (pre @ [a]). hi x + 1 \<noteq> s"
  by fastforce+

text \<open>The list after an insertion behind the region \<open>a\<close> when regions are coalesced.\<close>

lemma insert_after:
  assumes "\<not> flagged (ex_flags ex) EXF_NOCOALESCE" "ex_regions ex = pre @ a # post"
  shows "ex_regions (extent_insert_and_optimize ex start sz (Suc (length pre)) rp) =
    (let unjoined = (if er_end a + 1 = start then pre @ a\<lparr>er_end := start + (sz - 1)\<rparr> # post
        else pre @ a # rp\<lparr>er_start := start, er_end := start + (sz - 1)\<rparr> # post)
     in case post of
          [] \<Rightarrow> unjoined
        | n # ns \<Rightarrow>
            if start + sz = er_start n then
              if er_end a + 1 = start then pre @ a\<lparr>er_end := er_end n\<rparr> # ns else pre @ a # n\<lparr>er_start := start\<rparr> # ns
            else unjoined)"
  using assms by (cases post) (simp_all add: extent_insert_and_optimize_def region_link_def Let_def)

lemma insert_after_inserted:
  fixes ex start sz
  defines "e \<equiv> unat (start + (sz - 1))"
  assumes c: "\<not> flagged (ex_flags ex) EXF_NOCOALESCE" and ok: "regions_ok True (pre @ a # post)"
    and rs: "ex_regions ex = pre @ a # post" and p: "parted (pre @ [a]) (unat start) e post" and se: "unat start \<le> e"
  shows "inserted True (pre @ a # post) (unat start) e (ex_regions (extent_insert_and_optimize ex start sz (Suc (length pre)) rp))"
proof -
  have a: "hi a < unat start" using p by (simp add: parted_def)
  have app: "er_end a + 1 = start \<longleftrightarrow> hi a + 1 = unat start" using succ_eq_iff [OF a] .
  have nxt: "start + sz = er_start n \<longleftrightarrow> e + 1 = lo n" if "n \<in> set post" for n
    using that p touches_next [of start sz n] by (simp add: parted_def e_def)
  define r where "r = rp\<lparr>er_start := start, er_end := start + (sz - 1)\<rparr>"
  have ok': "regions_ok True ((pre @ [a]) @ post)" using ok by simp
  have far: "\<forall>x \<in> set (pre @ [a]). hi x + 1 \<noteq> unat start" if "hi a + 1 \<noteq> unat start"
    by (rule no_touch(2) [where c = True, OF _ a that]) (use ok in simp)
  define unj where "unj = (if er_end a + 1 = start then pre @ a\<lparr>er_end := start + (sz - 1)\<rparr> # post else pre @ a # r # post)"
  have unj: "inserted True (pre @ a # post) (unat start) e unj" if "\<forall>x \<in> set post. e + 1 \<noteq> lo x"
  proof (cases "hi a + 1 = unat start")
    case True
    have "inserted True (pre @ a # post) (unat start) e (pre @ a\<lparr>er_end := start + (sz - 1)\<rparr> # post)"
      by (rule join_prev [OF ok p se True that]) (simp_all add: e_def)
    then show ?thesis using True app by (simp add: unj_def)
  next
    case False
    have "inserted True ((pre @ [a]) @ post) (unat start) e ((pre @ [a]) @ r # post)"
      by (rule link_inserted [OF ok' p se]) (use that far [OF False] in \<open>simp_all add: r_def e_def\<close>)
    then show ?thesis using False app by (simp add: unj_def)
  qed
  note eq = insert_after [OF c rs, of start sz rp, folded r_def, folded unj_def, unfolded Let_def]
  show ?thesis
  proof (cases post)
    case Nil
    then show ?thesis using eq unj by simp
  next
    case (Cons n ns)
    have n: "n \<in> set post" "e < lo n" using Cons p by (auto simp: parted_def)
    show ?thesis
    proof (cases "e + 1 = lo n")
      case False
      have "\<forall>x \<in> set post. e + 1 \<noteq> lo x" using no_touch(1) [of True n ns e] ok Cons n(2) False by simp
      then show ?thesis using eq Cons unj nxt [OF n(1)] False by simp
    next
      case True
      show ?thesis
      proof (cases "hi a + 1 = unat start")
        case app': True
        have "inserted True (pre @ a # n # ns) (unat start) e (pre @ a\<lparr>er_end := er_end n\<rparr> # ns)"
          by (rule join_both [OF _ se app' True]) (use ok Cons in auto)
        then show ?thesis using eq Cons nxt [OF n(1)] True app app' by simp
      next
        case False
        have "inserted True ((pre @ [a]) @ n # ns) (unat start) e ((pre @ [a]) @ n\<lparr>er_start := start\<rparr> # ns)"
          by (rule join_next [OF _ _ se True far [OF False]]) (use ok' p Cons in simp_all)
        then show ?thesis using eq Cons nxt [OF n(1)] True app False by simp
      qed
    qed
  qed
qed

lemma insert_inserted:
  fixes ex start sz
  defines "c \<equiv> \<not> flagged (ex_flags ex) EXF_NOCOALESCE" and "e \<equiv> unat (start + (sz - 1))"
  assumes ok: "regions_ok c (pre @ post)" and rs: "ex_regions ex = pre @ post" and p: "parted pre (unat start) e post"
    and se: "unat start \<le> e"
  shows "inserted c (pre @ post) (unat start) e (ex_regions (extent_insert_and_optimize ex start sz (length pre) rp))"
proof -
  define r where "r = rp\<lparr>er_start := start, er_end := start + (sz - 1)\<rparr>"
  have r: "lo r = unat start" "hi r = e" by (simp_all add: r_def e_def)
  have link: "ex_regions (region_link ex start sz (length pre) rp) = pre @ r # post" by (simp add: region_link_def rs r_def)
  have next': "start + sz = er_start n \<longleftrightarrow> e + 1 = lo n" if "n \<in> set post" for n
    using that p touches_next [of start sz n] by (simp add: parted_def e_def)
  show ?thesis
  proof (cases pre rule: rev_cases)
    case Nil
    show ?thesis
    proof (cases post)
      case Nil
      then show ?thesis using link_inserted [OF ok p se r] link rs \<open>pre = []\<close> by (simp add: extent_insert_and_optimize_def)
    next
      case (Cons n ns)
      have n: "n \<in> set post" "e < lo n" using Cons p by (auto simp: parted_def)
      show ?thesis
      proof (cases "c \<and> e + 1 = lo n")
        case True
        let ?n = "n\<lparr>er_start := start\<rparr>"
        have "ex_regions (extent_insert_and_optimize ex start sz (length pre) rp) = pre @ ?n # ns"
          using True next' [OF n(1)] rs Nil Cons by (simp add: extent_insert_and_optimize_def c_def)
        moreover have "inserted True (pre @ n # ns) (unat start) e (pre @ ?n # ns)"
          by (rule join_next) (use ok p se True Nil Cons in auto)
        ultimately show ?thesis using True Cons by simp
      next
        case False
        have "ex_regions (extent_insert_and_optimize ex start sz (length pre) rp) = pre @ r # post"
          using False next' [OF n(1)] link rs Nil Cons by (simp add: extent_insert_and_optimize_def c_def)
        moreover have "inserted c (pre @ post) (unat start) e (pre @ r # post)"
          by (rule link_inserted [OF ok p se r]) (use False no_touch(1) [of c n ns e] ok n Nil Cons in auto)
        ultimately show ?thesis by simp
      qed
    qed
  next
    case (snoc pre' a)
    show ?thesis
    proof (cases c)
      case False
      have "ex_regions (extent_insert_and_optimize ex start sz (length pre) rp) = pre @ r # post"
        using False link snoc by (simp add: extent_insert_and_optimize_def c_def)
      then show ?thesis using link_inserted [OF ok p se r] False by simp
    next
      case True
      have "inserted True (pre' @ a # post) (unat start) e
          (ex_regions (extent_insert_and_optimize ex start sz (Suc (length pre')) rp))"
        unfolding e_def by (rule insert_after_inserted) (use True ok rs p se snoc in \<open>auto simp: c_def e_def\<close>)
      then show ?thesis using True snoc by simp
    qed
  qed
qed

section \<open>Freeing\<close>

definition freed :: "bool \<Rightarrow> extent_region list \<Rightarrow> nat \<Rightarrow> nat \<Rightarrow> extent_region list \<Rightarrow> bool" where
  "freed c rs s e rs' \<longleftrightarrow> regions_ok c rs' \<and> taken rs' = taken rs - {s..e} \<and>
     (\<not> c \<longrightarrow> mset (map bounds rs) = add_mset (s, e) (mset (map bounds rs')))"

lemma taken_above: "regions_ok c (r # rs) \<Longrightarrow> x \<in> taken rs \<Longrightarrow> hi r + of_bool c < x"
  by (fastforce simp: taken_iff)

lemma taken_below: "regions_ok c (r # rs) \<Longrightarrow> x \<le> hi r \<Longrightarrow> x \<notin> taken rs"
  using taken_above [of c r rs x] by fastforce

text \<open>With coalescing, taken addresses in a row lie in one region.\<close>

lemma one_region:
  assumes "regions_ok True rs" "s \<le> e" "{s..e} \<subseteq> taken rs"
  shows "\<exists>r \<in> set rs. lo r \<le> s \<and> e \<le> hi r"
  using assms
proof (induction rs)
  case (Cons r rs)
  show ?case
  proof (cases "s \<le> hi r")
    case True
    have "s \<in> taken (r # rs)" using Cons.prems by auto
    then have s: "lo r \<le> s" using taken_below [OF Cons.prems(1) True] by simp
    have "e \<le> hi r"
    proof (rule ccontr)
      assume "\<not> e \<le> hi r"
      then have "hi r + 1 \<in> {s..e}" using True by simp
      then have "hi r + 1 \<in> taken (r # rs)" using Cons.prems(3) by blast
      then have "hi r + 1 \<in> taken rs" by simp
      from taken_above [OF Cons.prems(1) this] show False by simp
    qed
    with s show ?thesis by auto
  next
    case False
    then have "{s..e} \<subseteq> taken rs" using Cons.prems(3) by fastforce
    then show ?thesis using Cons by auto
  qed
qed simp

lemma lo_taken: "regions_ok c rs \<Longrightarrow> y \<in> set rs \<Longrightarrow> lo y \<in> taken rs"
  by (auto simp: taken_iff regions_ok_def)

lemma regions_ok_Cons_subset:
  "regions_ok c (r # rs) \<Longrightarrow> regions_ok c rs' \<Longrightarrow> taken rs' \<subseteq> taken rs \<Longrightarrow> regions_ok c (r # rs')"
  using taken_above [of c r rs] lo_taken [of c rs'] by (simp add: subset_iff)

lemma freed_behind:
  assumes "regions_ok c (r # rs)" "freed c rs s e rs'" "hi r < s"
  shows "freed c (r # rs) s e (r # rs')"
proof -
  have f: "regions_ok c rs'" "taken rs' = taken rs - {s..e}"
    "\<not> c \<longrightarrow> mset (map bounds rs) = add_mset (s, e) (mset (map bounds rs'))"
    using assms(2) unfolding freed_def by auto
  have "regions_ok c (r # rs')" by (rule regions_ok_Cons_subset [OF assms(1) f(1)]) (simp add: f(2))
  moreover have "{lo r..hi r} \<inter> {s..e} = {}" using assms(3) by simp
  then have "taken (r # rs') = taken (r # rs) - {s..e}" unfolding taken_simps f(2) by blast
  ultimately show ?thesis using f(3) by (simp add: freed_def)
qed

text \<open>What is left of the region that contains the addresses freed.\<close>

lemma freed_pieces:
  assumes "regions_ok True (r # rs)" "e \<le> hi r" "regions_ok True ps"
    "taken ps = {lo r..hi r} - {s..e}"
  shows "freed True (r # rs) s e (ps @ rs)"
proof -
  have "{s..e} \<inter> taken rs = {}" using taken_below [OF assms(1)] assms(2) by fastforce
  then have "taken (ps @ rs) = taken (r # rs) - {s..e}" unfolding taken_simps assms(4) by blast
  moreover have "hi p \<le> hi r" if "p \<in> set ps" for p
  proof -
    have "hi p \<in> taken ps" using that assms(3) by (auto simp: taken_iff regions_ok_def)
    then show ?thesis using assms(4) by simp
  qed
  then have "regions_ok True (ps @ rs)" using assms(1,3) by fastforce
  ultimately show ?thesis by (simp add: freed_def)
qed

lemma interval_minus:
  "l \<le> s \<Longrightarrow> s \<le> e \<Longrightarrow> e \<le> h \<Longrightarrow> {l..h} - {s..e} = {l..<s} \<union> {e + 1..h :: nat}"
  by auto

lemma free_inside:
  assumes ok: "regions_ok True (r # rs)" and se: "start \<le> end'" and r: "lo r \<le> unat start" "unat end' \<le> hi r"
  shows "\<exists>rs' x. free_loop True (r # rs) start end' (Some n) = Some (rs', x) \<and> freed True (r # rs) (unat start) (unat end') rs'"
proof -
  let ?s = "unat start" and ?e = "unat end'"
  have se': "?s \<le> ?e" using se by (simp add: word_le_nat_alt)
  have e1: "unat (end' + 1) = ?e + 1" if "?e < hi r" using unat_succ [OF that] .
  have s1: "unat (start - 1) = ?s - 1" if "lo r < ?s" using unat_pred [of start] that by simp
  note d = interval_minus [OF r(1) se' r(2)]
  have pieces: "freed True (r # rs) ?s ?e (ps @ rs)" if "regions_ok True ps" "taken ps = {lo r..<?s} \<union> {?e + 1..hi r}" for ps
    by (rule freed_pieces [OF ok r(2) that(1)]) (simp only: that(2) d)
  have cond: "\<not> er_end r < start" "\<not> er_start r > end'"
    using r se' by (simp_all add: word_less_nat_alt)
  have "er_start r \<le> start" "end' \<le> er_end r" using r by (simp_all add: word_le_nat_alt)
  then consider "start = er_start r" "end' = er_end r" | "start = er_start r" "end' < er_end r"
    | "er_start r < start" "end' = er_end r" | "er_start r < start" "end' < er_end r" by fastforce
  then show ?thesis
  proof cases
    case 1
    then have "freed True (r # rs) ?s ?e rs" using pieces [of "[]"] by simp
    then show ?thesis using 1 cond by (simp add: Let_def)
  next
    case 2
    have e: "?e < hi r" using 2 by (simp add: word_less_nat_alt)
    have "freed True (r # rs) ?s ?e ([r\<lparr>er_start := end' + 1\<rparr>] @ rs)"
      by (rule pieces) (use 2 e e1 in simp_all)
    then show ?thesis using 2 cond less_imp_neq [OF 2(2)] by (simp add: Let_def)
  next
    case 3
    have l: "lo r < ?s" using 3 by (simp add: word_less_nat_alt)
    then have "{lo r..?s - 1} = {lo r..<?s}" by auto
    then have "freed True (r # rs) ?s ?e ([r\<lparr>er_end := start - 1\<rparr>] @ rs)"
      by (intro pieces) (use 3 l s1 in simp_all)
    then show ?thesis using 3 cond less_imp_neq [OF 3(1)] by (simp add: Let_def)
  next
    case 4
    have l: "lo r < ?s" "?e < hi r" using 4 by (simp_all add: word_less_nat_alt)
    then have i: "{lo r..?s - 1} = {lo r..<?s}" "lo r \<le> ?s - 1" "?s - 1 + 1 < ?e + 1" using se' by auto
    have "freed True (r # rs) ?s ?e
        ([r\<lparr>er_end := start - 1\<rparr>, n\<lparr>er_start := end' + 1, er_end := er_end r\<rparr>] @ rs)"
      by (rule pieces) (use i l s1 e1 in simp_all)
    then show ?thesis using 4 cond less_imp_neq [OF 4(1)] less_imp_neq [OF 4(2)] by (simp add: Let_def)
  qed
qed

lemma free_coalesced:
  assumes "regions_ok True rs" "start \<le> end'" "\<exists>r \<in> set rs. lo r \<le> unat start \<and> unat end' \<le> hi r"
  shows "\<exists>rs' x. free_loop True rs start end' (Some n) = Some (rs', x) \<and> freed True rs (unat start) (unat end') rs'"
  using assms
proof (induction rs)
  case (Cons r rs)
  let ?s = "unat start" and ?e = "unat end'"
  have se: "?s \<le> ?e" using Cons.prems(2) by (simp add: word_le_nat_alt)
  show ?case
  proof (cases "hi r < ?s")
    case True
    then have "\<exists>x \<in> set rs. lo x \<le> ?s \<and> ?e \<le> hi x" using Cons.prems(3) se by auto
    then obtain rs' x where x: "free_loop True rs start end' (Some n) = Some (rs', x)" "freed True rs ?s ?e rs'"
      using Cons by auto
    then show ?thesis using freed_behind [OF Cons.prems(1) x(2) True] True by (simp add: word_less_nat_alt)
  next
    case False
    have "lo r \<le> ?s \<and> ?e \<le> hi r" using Cons.prems(1,3) False by fastforce
    then show ?thesis using free_inside [OF Cons.prems(1,2)] by blast
  qed
qed simp

lemma free_exact:
  assumes "regions_ok False rs" "start \<le> end'" "(unat start, unat end') \<in> bounds ` set rs"
  shows "\<exists>rs' x. free_loop False rs start end' n = Some (rs', x) \<and> freed False rs (unat start) (unat end') rs'"
  using assms
proof (induction rs)
  case (Cons r rs)
  let ?s = "unat start" and ?e = "unat end'"
  have se: "?s \<le> ?e" using Cons.prems(2) by (simp add: word_le_nat_alt)
  show ?case
  proof (cases "bounds r = (?s, ?e)")
    case True
    then have r: "er_start r = start" "er_end r = end'" by (auto simp: bounds_def word_unat_eq_iff)
    have "{?s..?e} \<inter> taken rs = {}" using taken_below [OF Cons.prems(1)] r by fastforce
    then have "taken rs = taken (r # rs) - {?s..?e}" unfolding taken_simps r by blast
    then have "freed False (r # rs) ?s ?e rs" using Cons.prems(1) True by (simp add: freed_def)
    then show ?thesis using r not_less_iff_gr_or_eq [of end' start] Cons.prems(2) by (simp add: Let_def leD)
  next
    case False
    then have b: "(?s, ?e) \<in> bounds ` set rs" using Cons.prems(3) by auto
    then have "hi r < ?s" using Cons.prems(1) by (auto simp: bounds_def)
    moreover obtain rs' x where x: "free_loop False rs start end' n = Some (rs', x)" "freed False rs ?s ?e rs'"
      using Cons.IH [OF _ Cons.prems(2) b] Cons.prems(1) by auto
    ultimately show ?thesis using freed_behind [OF Cons.prems(1) x(2)] by (simp add: word_less_nat_alt)
  qed
qed simp

text \<open>Conversely the loop finds a region only if the addresses are taken.\<close>

lemma free_loop_taken:
  assumes "free_loop c rs start end' n = Some x" "start \<le> end'"
  shows "{unat start..unat end'} \<subseteq> taken rs \<and> (\<not> c \<longrightarrow> (unat start, unat end') \<in> bounds ` set rs)"
  using assms
proof (induction rs arbitrary: x)
  case (Cons r rs)
  show ?case
  proof (cases "\<exists>y. free_loop c rs start end' n = Some y")
    case True
    then show ?thesis using Cons.IH Cons.prems(2) by auto
  next
    case False
    then have "er_start r \<le> start" "end' \<le> er_end r" "\<not> c \<longrightarrow> er_start r = start \<and> er_end r = end'"
      using Cons.prems by (auto simp: Let_def not_less split: if_splits)
    then show ?thesis by (auto simp: word_le_nat_alt bounds_def)
  qed
qed simp

end
