(* ===== verification/Extent_Search.thy ===== *)
theory Extent_Search
  imports Extent_Regions
begin

text \<open>
  The search of \<open>extent_alloc_subregion1\<close>: what \<open>EXTENT_ALIGN\<close> computes, that a place the search
  returns is free, in the subregion, aligned and clear of the boundary lines, and that without a
  boundary it finds a place whenever there is one.
\<close>

section \<open>Alignment\<close>

lemma and_minus_pow:
  fixes y a :: u64
  assumes "a = 2 ^ k"
  shows "y AND - a = y - take_bit k y"
proof -
  have "- a = NOT (mask k :: u64)" by (simp add: assms minus_eq_not_minus_1 mask_eq_exp_minus_1)
  moreover have "y - take_bit k y = y AND NOT (take_bit k y)" by (rule disjunctive_diff) (simp add: bit_take_bit_iff)
  moreover have "y AND NOT (take_bit k y) = y AND NOT (mask k)" by (rule bit_eqI) (auto simp: bit_simps)
  ultimately show ?thesis by simp
qed

lemma unat_pow: "k < 64 \<Longrightarrow> unat (2 ^ k :: u64) = 2 ^ k"
  using unat_of_nat_small [of "2 ^ k", where 'a = 64] power_strict_increasing [of k 64 "2 :: nat"] by simp

lemma align_eq:
  fixes s a w :: u64
  assumes a: "a = 2 ^ k" "k < 64"
  shows "\<exists>r < unat a. EXTENT_ALIGN s a w = s + of_nat r \<and> (unat s + r) mod unat a = unat w mod unat a"
proof -
  define y where "y = s - w + (a - 1)"
  have A: "unat a = 2 ^ k" using a by (simp add: unat_pow)
  have ty: "unat (take_bit k y) = unat y mod 2 ^ k" by (simp add: unsigned_take_bit_eq flip: take_bit_eq_mod)
  define r where "r = unat a - 1 - unat y mod unat a"
  have "unat y mod unat a < unat a" using mod_less_divisor [of "unat a" "unat y"] A by simp
  then have rsum: "r + 1 + unat y mod unat a = unat a" unfolding r_def by linarith
  have "EXTENT_ALIGN s a w = s + (a - 1 - take_bit k y)"
    by (simp add: EXTENT_ALIGN_def and_minus_pow [OF a(1)] y_def [symmetric]) (simp add: y_def)
  moreover have "of_nat r = a - 1 - take_bit k y"
  proof -
    have "(of_nat (r + 1 + unat y mod unat a) :: u64) = a" using rsum by simp
    moreover have "(of_nat (unat y mod unat a) :: u64) = take_bit k y" unfolding A ty [symmetric] by simp
    ultimately have "of_nat r + 1 + take_bit k y = a" unfolding of_nat_add by simp
    then show ?thesis by (simp add: algebra_simps)
  qed
  moreover have "r < unat a" using A by (simp add: r_def)
  moreover have "(unat s + r) mod unat a = unat w mod unat a"
  proof -
    let ?S = "int (unat s)" and ?W = "int (unat w)" and ?Y = "int (unat y)" and ?K = "2 ^ k :: int"
    have K: "int (unat a) = ?K" using A by simp
    have "?Y = (?S - ?W + (?K - 1)) mod 2 ^ 64"
      using K by (simp add: y_def uint_word_ariths flip: uint_nat) (simp add: mod_simps)
    then have "?Y mod ?K = (?S - ?W + (?K - 1)) mod ?K"
      by (simp only: mod_mod_cancel [OF le_imp_power_dvd [OF less_imp_le [OF a(2)]]])
    then have "(?S + (?K - 1 - ?Y mod ?K)) mod ?K = (?S + (?K - 1 - (?S - ?W + (?K - 1)) mod ?K)) mod ?K" by simp
    also have "\<dots> = (?S + (?K - 1 - (?S - ?W + (?K - 1)))) mod ?K" unfolding add_diff_eq by (rule mod_diff_right_eq)
    also have "\<dots> = ?W mod ?K" by simp
    finally have m: "(?S + (?K - 1 - ?Y mod ?K)) mod ?K = ?W mod ?K" .
    have "int r + 1 + ?Y mod ?K = ?K" using arg_cong [OF rsum, of int] K by (simp only: zmod_int of_nat_add of_nat_1)
    then have "int r = ?K - 1 - ?Y mod ?K" by linarith
    then have "int ((unat s + r) mod unat a) = int (unat w mod unat a)" using m K by (simp add: zmod_int)
    then show ?thesis by simp
  qed
  ultimately show ?thesis by metis
qed

text \<open>Without wrap-around the result is the least number from \<open>s\<close> on in the residue class.\<close>

lemma residue_least:
  fixes n :: nat
  assumes "(s + r) mod n = w mod n" "r < n" "s \<le> t" "t mod n = w mod n"
  shows "s + r \<le> t"
proof (rule ccontr)
  assume "\<not> s + r \<le> t"
  then have d: "0 < s + r - t" "s + r - t < n" using assms by linarith+
  have "n dvd s + r - t" using assms(1,4) \<open>\<not> s + r \<le> t\<close> by (metis mod_eq_dvd_iff_nat nat_le_linear)
  then show False using d by (auto dest: dvd_imp_le)
qed

lemma align_spec:
  fixes s a w :: u64
  assumes a: "a = 2 ^ k" "k < 64" and nw: "unat s + unat a \<le> 2 ^ 64"
  defines "x \<equiv> unat (EXTENT_ALIGN s a w)"
  shows "unat s \<le> x" "x < unat s + unat a" "x mod unat a = unat w mod unat a"
    "\<And>t. unat s \<le> t \<Longrightarrow> t mod unat a = unat w mod unat a \<Longrightarrow> x \<le> t"
proof -
  obtain r where r: "r < unat a" "EXTENT_ALIGN s a w = s + of_nat r" "(unat s + r) mod unat a = unat w mod unat a"
    using align_eq [OF a] by blast
  have "unat s + r < 2 ^ 64" using r(1) nw by linarith
  moreover from this have "unat (of_nat r :: u64) = r" by (intro unat_of_nat_small) simp
  ultimately have x: "x = unat s + r" unfolding x_def r(2) by (simp add: unat_add_no_wrap)
  show "unat s \<le> x" "x < unat s + unat a" "x mod unat a = unat w mod unat a" using x r by auto
  show "x \<le> t" if "unat s \<le> t" "t mod unat a = unat w mod unat a" for t
    unfolding x by (rule residue_least [OF r(3,1) that])
qed

lemma LE_OV_iff: "LE_OV x y z \<longleftrightarrow> unat x + unat y \<le> unat z"
proof (cases "unat x + unat y < 2 ^ 64")
  case True
  then show ?thesis by (simp add: LE_OV_def word_le_nat_alt unat_add_no_wrap)
next
  case False
  have b: "unat x < 2 ^ 64" "unat y < 2 ^ 64" "unat z < 2 ^ 64"
    using unsigned_less [of x, where ?'a = nat] unsigned_less [of y, where ?'a = nat] unsigned_less [of z, where ?'a = nat] by simp_all
  have "unat (x + y) = (unat x + unat y) mod 2 ^ 64" by (simp add: unat_word_ariths)
  also have "\<dots> = unat x + unat y - 2 ^ 64" using False b by (simp add: mod_if le_mod_geq)
  finally have "unat (x + y) < unat x" using b False by linarith
  then show ?thesis using b False by (simp add: LE_OV_def word_le_nat_alt)
qed

section \<open>The boundary check\<close>

text \<open>The requests for which the search computes without wrap-around: arguments that pass the checks,
  powers of two, and an extent that ends more than the alignment below the largest address.\<close>

definition power_of_2 :: "u64 \<Rightarrow> bool" where
  "power_of_2 a \<longleftrightarrow> (\<exists>k < 64. a = 2 ^ k)"

definition roomy :: "extent \<Rightarrow> sub_args \<Rightarrow> bool" where
  "roomy ex a \<longleftrightarrow> sub_check ex a \<and> power_of_2 (alignment a) \<and> (boundary a = 0 \<or> power_of_2 (boundary a)) \<and>
     unat (ex_end ex) + unat (alignment a) < 2 ^ 64"

lemma power_of_2_pos: "power_of_2 a \<Longrightarrow> 0 < unat a"
  by (auto simp: power_of_2_def unat_pow)

lemma roomyD:
  assumes "roomy ex a"
  shows "sub_check ex a" "unat (ex_end ex) + 1 < 2 ^ 64" "power_of_2 (alignment a)" "unat (ex_end ex) + unat (alignment a) < 2 ^ 64"
proof -
  show "sub_check ex a" "power_of_2 (alignment a)" and l: "unat (ex_end ex) + unat (alignment a) < 2 ^ 64"
    using assms by (auto simp: roomy_def)
  then show "unat (ex_end ex) + 1 < 2 ^ 64" using power_of_2_pos [of "alignment a"] by linarith
qed

text \<open>The boundary lines lie at the addresses congruent to \<open>origin\<close>.\<close>

definition origin :: "extent \<Rightarrow> sub_args \<Rightarrow> nat" where
  "origin ex a = (if flagged (sub_flags a) EX_BOUNDZERO then 0 else unat (ex_start ex))"

definition no_cross :: "extent \<Rightarrow> sub_args \<Rightarrow> nat \<Rightarrow> bool" where
  "no_cross ex a x \<longleftrightarrow> boundary a = 0 \<or>
     (\<forall>m. m mod unat (boundary a) = origin ex a mod unat (boundary a) \<and> x < m \<longrightarrow> x + unat (sub_size a) \<le> m)"

lemma sub_check_nat:
  assumes "sub_check ex a"
  shows "unat (ex_start ex) \<le> unat (substart a)" "unat (subend a) \<le> unat (ex_end ex)"
    "0 < unat (sub_size a)" "unat (sub_size a - 1) = unat (sub_size a) - 1"
    "boundary a \<noteq> 0 \<longrightarrow> unat (sub_size a) \<le> unat (boundary a)"
proof -
  have "sub_size a \<noteq> 0" using assms by (auto simp: sub_check_def)
  then show p: "0 < unat (sub_size a)" by (simp add: unat_gt_0)
  show "unat (sub_size a - 1) = unat (sub_size a) - 1" by (rule unat_pred [OF p])
qed (use assms in \<open>auto simp: sub_check_def word_le_nat_alt\<close>)

lemma bound_room_fits:
  "bound_room ex sz s d = Bound_fits x \<Longrightarrow> x = s \<and> s + sz - 1 \<le> ex_end ex"
  by (auto simp: bound_room_def split: if_splits)

lemma residue_step:
  fixes n :: nat
  assumes "x mod n = w mod n" "m mod n = w mod n" "x < m"
  shows "x + n \<le> m"
proof -
  have "n dvd m - x" using assms by (metis less_imp_le mod_eq_dvd_iff_nat)
  then show ?thesis using assms(3) by (auto dest: dvd_imp_le)
qed

text \<open>If the next boundary line lies beyond the largest address, the address computed for it wraps to a
  value below the extent.\<close>

lemma line_wraps:
  fixes s b :: u64
  assumes r: "r < unat b" "(unat s + 1 + r) mod unat b = w mod unat b" and k: "b = 2 ^ k" "k < 64"
    and wrap: "2 ^ 64 \<le> unat s + r"
  shows "unat (s + of_nat r) < w"
proof -
  have bs: "unat s < 2 ^ 64" "unat b < 2 ^ 64"
    using unsigned_less [of s, where ?'a = nat] unsigned_less [of b, where ?'a = nat] by simp_all
  define D where "D = unat s + r - 2 ^ 64"
  have "unat (of_nat r :: u64) = r" using r(1) bs(2) by (intro unat_of_nat_small) simp
  then have "unat (s + of_nat r) = (unat s + r) mod 2 ^ 64" by (simp add: unat_word_ariths)
  also have "\<dots> = D" using wrap bs r(1) unfolding D_def by (simp add: mod_if le_mod_geq)
  finally have u: "unat (s + of_nat r) = D" .
  have D: "D + 1 + 2 ^ 64 = unat s + 1 + r" "D + 1 < unat b" using wrap r(1) bs(1) unfolding D_def by linarith+
  have "unat b dvd 2 ^ 64" unfolding k(1) unat_pow [OF k(2)] by (rule le_imp_power_dvd) (use k(2) in simp)
  then have "(D + 1) mod unat b = (D + 1 + 2 ^ 64) mod unat b" by (metis mod_add_right_eq dvd_eq_mod_eq_0 add_0_right)
  then have "(D + 1) mod unat b = w mod unat b" by (simp only: D(1) r(2))
  then have "D + 1 = w mod unat b" by (simp only: mod_less [OF D(2)])
  then show ?thesis using u mod_less_eq_dividend [of w "unat b"] by linarith
qed

lemma bound_check_fits:
  assumes rm: "roomy ex a" and b: "bound_check ex a fits s = Bound_fits x"
    and f: "fits s" "\<And>s. fits s \<Longrightarrow> unat s + unat (sub_size a) \<le> unat (ex_end ex) + 1" and s: "unat (ex_start ex) \<le> unat s"
  shows "fits x \<and> unat s \<le> unat x \<and> no_cross ex a (unat x) \<and>
    (x = s \<or> boundary a \<noteq> 0 \<and> unat x mod unat (boundary a) = origin ex a mod unat (boundary a))"
proof (cases "boundary a = 0")
  case True
  then show ?thesis using b f(1) by (simp add: bound_check_def no_cross_def)
next
  case False
  note sub = sub_check_nat [of ex a]
  note chk = roomyD(1) [OF rm] and e = roomyD(2) [OF rm]
  obtain k where k: "boundary a = 2 ^ k" "k < 64" using rm False by (auto simp: roomy_def power_of_2_def)
  let ?S = "unat (sub_size a)" and ?B = "unat (boundary a)" and ?s = "unat s" and ?o = "origin ex a"
  let ?w = "if flagged (sub_flags a) EX_BOUNDZERO then 0 else ex_start ex"
  have o: "unat ?w = ?o" "?o \<le> unat (ex_start ex)" by (simp_all add: origin_def)
  have S: "0 < ?S" "?S \<le> ?B" "unat (sub_size a - 1) = ?S - 1" using sub(3-5) [OF chk] False by auto
  have s1: "?s + ?S \<le> unat (ex_end ex) + 1" by (rule f(2) [OF f(1)])
  have succ: "unat (s + 1) = ?s + 1" using s1 S(1) e unat_add_no_wrap [of s 1] by simp
  then obtain r where r: "r < ?B" "EXTENT_ALIGN (s + 1) (boundary a) ?w = s + 1 + of_nat r" "(?s + 1 + r) mod ?B = ?o mod ?B"
    using align_eq [OF k, of "s + 1" ?w] o by auto
  define d where "d = EXTENT_ALIGN (s + 1) (boundary a) ?w - 1"
  have d: "d = s + of_nat r" by (simp add: d_def r(2))
  have line: "?s + 1 + r \<le> m" if "m mod ?B = ?o mod ?B" "?s < m" for m
    by (rule residue_least [OF r(3,1)]) (use that in auto)
  have ne: "unat (s + (sub_size a - 1)) = ?s + ?S - 1" using s1 S e unat_add_no_wrap [of s "sub_size a - 1"] by simp
  have chkd: "bound_check ex a fits s = (if d < ex_start ex then bound_room ex (sub_size a) s (ex_end ex)
      else if s + (sub_size a - 1) > d then
        if \<not> fits (d + 1) then Bound_skip else bound_room ex (sub_size a) (d + 1) (d + boundary a)
      else bound_room ex (sub_size a) s d)" using False by (simp add: bound_check_def d_def Let_def)
  have same: ?thesis if "x = s" "?s + ?S \<le> ?s + 1 + r"
    using that f(1) line False unfolding no_cross_def by fastforce
  show ?thesis
  proof (cases "?s + r < 2 ^ 64")
    case True
    then have "unat (of_nat r :: u64) = r" by (intro unat_of_nat_small) simp
    then have ud: "unat d = ?s + r" using True unfolding d by (simp add: unat_add_no_wrap)
    then have nd: "\<not> d < ex_start ex" using s by (simp add: word_less_nat_alt)
    show ?thesis
    proof (cases "?s + ?S - 1 > ?s + r")
      case cross: True
      then have "s + (sub_size a - 1) > d" using ne ud by (simp add: word_less_nat_alt)
      then have x: "x = d + 1" "fits (d + 1)" using b chkd nd by (auto dest: bound_room_fits split: if_splits)
      have "?s + r + 1 < 2 ^ 64" using cross s1 e by linarith
      then have ux: "unat x = ?s + 1 + r" using ud x(1) unat_add_no_wrap [of d 1] by simp
      have "?s + 1 + r + ?S \<le> m" if "m mod ?B = ?o mod ?B" "?s + 1 + r < m" for m
        using residue_step [OF r(3) that] S(2) by linarith
      then have "no_cross ex a (unat x)" unfolding no_cross_def ux by blast
      then show ?thesis using x r(3) ux False by simp
    next
      case fit: False
      then have "\<not> s + (sub_size a - 1) > d" using ne ud by (simp add: word_less_nat_alt)
      then have "x = s" using b chkd nd by (auto dest: bound_room_fits split: if_splits)
      then show ?thesis by (rule same) (use fit S(1) in linarith)
    qed
  next
    case False
    have "\<not> (s + (sub_size a - 1) > d \<and> \<not> d < ex_start ex)"
      using line_wraps [OF r(1,3) k] False o d by (simp add: word_less_nat_alt)
    then have "x = s" using b chkd by (auto dest: bound_room_fits split: if_splits)
    then show ?thesis by (rule same) (use False s1 e in linarith)
  qed
qed

section \<open>The places the search returns\<close>

text \<open>If the boundary moves a start it moves it to a boundary line, which is aligned only if the lines
  are.\<close>

definition lines_aligned :: "extent \<Rightarrow> sub_args \<Rightarrow> bool" where
  "lines_aligned ex a \<longleftrightarrow> boundary a = 0 \<or>
     unat (alignment a) dvd unat (boundary a) \<and> origin ex a mod unat (alignment a) = unat (skew a) mod unat (alignment a)"

definition aligned :: "sub_args \<Rightarrow> nat \<Rightarrow> bool" where
  "aligned a x \<longleftrightarrow> x mod unat (alignment a) = unat (skew a) mod unat (alignment a)"

text \<open>The start \<open>x\<close> after the first \<open>l\<close> regions.\<close>

definition placement :: "extent \<Rightarrow> sub_args \<Rightarrow> nat \<Rightarrow> nat \<Rightarrow> bool" where
  "placement ex a x l \<longleftrightarrow> l \<le> length (ex_regions ex) \<and>
     parted (take l (ex_regions ex)) x (x + unat (sub_size a) - 1) (drop l (ex_regions ex)) \<and>
     unat (substart a) \<le> x \<and> x + unat (sub_size a) \<le> unat (subend a) + 1 \<and> no_cross ex a x \<and>
     (lines_aligned ex a \<longrightarrow> aligned a x)"

lemma bound_check_aligned:
  assumes "aligned a (unat s)" "lines_aligned ex a"
    "x = s \<or> boundary a \<noteq> 0 \<and> unat x mod unat (boundary a) = origin ex a mod unat (boundary a)"
  shows "aligned a (unat x)"
proof (cases "x = s")
  case False
  then have "unat (alignment a) dvd unat (boundary a)" "unat x mod unat (boundary a) = origin ex a mod unat (boundary a)"
    and o: "origin ex a mod unat (alignment a) = unat (skew a) mod unat (alignment a)"
    using assms(2,3) by (auto simp: lines_aligned_def)
  then have "unat x mod unat (alignment a) = origin ex a mod unat (alignment a)" by (metis mod_mod_cancel)
  then show ?thesis using o by (simp add: aligned_def)
qed (use assms in simp)

text \<open>The state of the search before the regions \<open>rps\<close>.\<close>

definition searching :: "extent \<Rightarrow> sub_args \<Rightarrow> extent_region list \<Rightarrow> u64 \<Rightarrow> nat \<Rightarrow> best \<Rightarrow> bool" where
  "searching ex a rps s l best \<longleftrightarrow> l \<le> length (ex_regions ex) \<and> drop l (ex_regions ex) = rps \<and>
     (\<forall>r \<in> set (take l (ex_regions ex)). hi r < unat s) \<and> unat (substart a) \<le> unat s \<and> aligned a (unat s) \<and>
     (fst best \<noteq> 0 \<longrightarrow> placement ex a (unat (fst (snd best))) (snd (snd best)))"

definition result_ok :: "extent \<Rightarrow> sub_args \<Rightarrow> found \<Rightarrow> bool" where
  "result_ok ex a res \<longleftrightarrow> (case res of Found x l \<Rightarrow> placement ex a (unat x) l
     | Fail best \<Rightarrow> fst best \<noteq> 0 \<longrightarrow> placement ex a (unat (fst (snd best))) (snd (snd best)))"

text \<open>A candidate that passes the boundary check is a place, if nothing from \<open>lim\<close> on is in its way.\<close>

lemma candidate:
  assumes rm: "roomy ex a" and se: "searching ex a rps s l best" and f: "fits s"
    and lim: "\<And>s. fits s \<Longrightarrow> unat s + unat (sub_size a) \<le> unat (subend a) + 1 \<and> (\<forall>r \<in> set rps. unat s + unat (sub_size a) \<le> lo r)"
    and b: "bound_check ex a fits s = Bound_fits x"
  shows "placement ex a (unat x) l"
proof -
  note chk = sub_check_nat [OF roomyD(1) [OF rm]]
  have le: "unat s + unat (sub_size a) \<le> unat (ex_end ex) + 1" if "fits s" for s using lim [OF that] chk(2) by linarith
  have s: "unat (ex_start ex) \<le> unat s" using se chk(1) by (simp add: searching_def)
  note x = bound_check_fits [OF rm b f le s]
  have "unat x + unat (sub_size a) - 1 < lo r" if "r \<in> set rps" for r using lim [of x] x that chk(3) by fastforce
  moreover have "hi r < unat x" if "r \<in> set (take l (ex_regions ex))" for r using se x that by (fastforce simp: searching_def)
  moreover have "lines_aligned ex a \<longrightarrow> aligned a (unat x)"
    using bound_check_aligned [of a s ex x] se x by (auto simp: searching_def)
  ultimately show ?thesis using se x lim [of x] by (auto simp: placement_def parted_def searching_def)
qed

lemma better_ok:
  assumes "searching ex a rps s l best" "placement ex a (unat x) l"
  shows "searching ex a rps s l (better best ovh x l)"
  using assms by (auto simp: searching_def better_def)

lemma sub_last_ok:
  assumes rm: "roomy ex a" and se: "searching ex a rps s l best" and up: "\<forall>r \<in> set rps. unat (subend a) < lo r"
  shows "result_ok ex a (sub_last ex a exend s l best)"
proof -
  let ?fits = "\<lambda>s. LE_OV s (sub_size a - 1) (subend a)"
  have lim: "unat s + unat (sub_size a) \<le> unat (subend a) + 1 \<and> (\<forall>r \<in> set rps. unat s + unat (sub_size a) \<le> lo r)"
    if "?fits s" for s
    using that up sub_check_nat(3,4) [OF roomyD(1) [OF rm]] unfolding LE_OV_iff by fastforce
  have fail: "result_ok ex a (Fail best)" using se by (simp add: result_ok_def searching_def)
  show ?thesis
  proof (cases "?fits s")
    case True
    show ?thesis
    proof (cases "bound_check ex a ?fits s")
      case (Bound_fits x)
      note p = candidate [OF rm se True lim Bound_fits]
      then show ?thesis using True Bound_fits better_ok [OF se p]
        by (simp add: sub_last_def Let_def result_ok_def searching_def)
    qed (use True fail in \<open>simp_all add: sub_last_def\<close>)
  qed (use fail in \<open>simp add: sub_last_def\<close>)
qed

text \<open>The start after a region.\<close>

lemma next_start:
  assumes rm: "roomy ex a" and r: "hi r \<le> unat (ex_end ex)"
  defines "s \<equiv> EXTENT_ALIGN (er_end r + 1) (alignment a) (skew a)"
  shows "hi r < unat s" "aligned a (unat s)" "\<not> s < er_end r"
    "\<And>x. hi r < x \<Longrightarrow> aligned a x \<Longrightarrow> unat s \<le> x"
proof -
  obtain k where k: "alignment a = 2 ^ k" "k < 64" using roomyD(3) [OF rm] by (auto simp: power_of_2_def)
  have u: "unat (er_end r + 1) = hi r + 1" using r roomyD(2) [OF rm] unat_add_no_wrap [of "er_end r" 1] by simp
  have nw: "unat (er_end r + 1) + unat (alignment a) \<le> 2 ^ 64" using r roomyD(4) [OF rm] unfolding u by linarith
  note sp = align_spec [OF k nw, where w = "skew a", folded s_def]
  show l: "hi r < unat s" using sp(1) u by linarith
  then show "\<not> s < er_end r" by (simp add: word_less_nat_alt)
  show "aligned a (unat s)" using sp(3) by (simp add: aligned_def)
  show "unat s \<le> x" if "hi r < x" "aligned a x" for x
    by (rule sp(4)) (use that u in \<open>auto simp: aligned_def\<close>)
qed

definition in_extent :: "extent \<Rightarrow> bool" where
  "in_extent ex \<longleftrightarrow> (\<forall>r \<in> set (ex_regions ex). unat (ex_start ex) \<le> lo r \<and> hi r \<le> unat (ex_end ex))"

lemma drop_Cons_snoc: "drop l xs = y # ys \<Longrightarrow> take (Suc l) xs = take l xs @ [y] \<and> drop (Suc l) xs = ys \<and> Suc l \<le> length xs"
  by (metis drop_Suc list.sel(3) not_less_eq_eq drop_all list.distinct(1) take_hd_drop hd_drop_conv_nth list.sel(1) not_less tl_drop)

lemma searching_skip:
  assumes rm: "roomy ex a" and ok: "regions_ok c (ex_regions ex)" "in_extent ex" and se: "searching ex a (r # rps) s l best"
    and le: "unat s \<le> lo r \<or> unat (substart a) \<le> lo r"
  shows "searching ex a rps (EXTENT_ALIGN (er_end r + 1) (alignment a) (skew a)) (Suc l) best"
proof -
  have d: "drop l (ex_regions ex) = r # rps" using se by (simp add: searching_def)
  note t = drop_Cons_snoc [OF d]
  have rs: "ex_regions ex = take l (ex_regions ex) @ r # rps" by (metis append_take_drop_id d)
  have "r \<in> set (ex_regions ex)" by (subst rs) simp
  then have h: "hi r \<le> unat (ex_end ex)" "lo r \<le> hi r" using ok by (auto simp: in_extent_def regions_ok_def)
  have "hi x < lo r" if "x \<in> set (take l (ex_regions ex))" for x
    using ok(1) that by (subst (asm) rs) fastforce
  then have "\<forall>x \<in> set (take (Suc l) (ex_regions ex)). hi x \<le> hi r" using t h(2) by force
  moreover have "unat (substart a) \<le> hi r" using le h(2) se by (auto simp: searching_def)
  ultimately show ?thesis using se t next_start(1,2) [OF rm h(1)] by (fastforce simp: searching_def)
qed

lemma sub_loop_ok:
  assumes rm: "roomy ex a" and ok: "regions_ok c (ex_regions ex)" "in_extent ex"
    and se: "searching ex a rps s l best" and lo': "\<forall>r \<in> set rps. unat (substart a) \<le> lo r"
  shows "result_ok ex a (sub_loop ex a rps s l best)"
  using se lo'
proof (induction rps arbitrary: s l best)
  case Nil
  then show ?case using sub_last_ok [OF rm Nil.prems(1)] by simp
next
  case (Cons r rps)
  have d: "drop l (ex_regions ex) = r # rps" using Cons.prems(1) by (simp add: searching_def)
  have okr: "regions_ok c (r # rps)" by (metis append_take_drop_id d ok(1) regions_ok_simps(3))
  have mem: "r \<in> set (ex_regions ex)" by (metis append_take_drop_id d in_set_conv_decomp)
  have h: "hi r \<le> unat (ex_end ex)" using mem ok(2) by (auto simp: in_extent_def)
  let ?ns = "EXTENT_ALIGN (er_end r + 1) (alignment a) (skew a)"
  have skip: "result_ok ex a (if ?ns < er_end r then Fail best' else sub_loop ex a rps ?ns (Suc l) best')"
    if "searching ex a (r # rps) s l best'" for best'
    using Cons.IH [OF searching_skip [OF rm ok that]] Cons.prems(2) next_start(3) [OF rm h] by simp
  show ?case
  proof (cases "er_start r > subend a")
    case True
    then have "\<forall>x \<in> set (r # rps). unat (subend a) < lo x" using okr by (fastforce simp: word_less_nat_alt)
    then show ?thesis using sub_last_ok [OF rm Cons.prems(1)] True by simp
  next
    case False
    let ?fits = "\<lambda>s. LE_OV s (sub_size a) (er_start r)"
    have lim: "unat s + unat (sub_size a) \<le> unat (subend a) + 1 \<and> (\<forall>x \<in> set (r # rps). unat s + unat (sub_size a) \<le> lo x)"
      if "?fits s" for s
      using that False okr unfolding LE_OV_iff by (fastforce simp: word_less_nat_alt)
    show ?thesis
    proof (cases "?fits s")
      case True
      show ?thesis
      proof (cases "bound_check ex a ?fits s")
        case (Bound_fits x)
        note p = candidate [OF rm Cons.prems(1) True lim Bound_fits]
        show ?thesis using False True Bound_fits skip [OF better_ok [OF Cons.prems(1) p]] p by (simp add: result_ok_def Let_def)
      qed (use False True skip [OF Cons.prems(1)] Cons.prems(1) in \<open>simp_all add: Let_def result_ok_def searching_def\<close>)
    qed (use False skip [OF Cons.prems(1)] in \<open>simp add: Let_def\<close>)
  qed
qed

text \<open>The start of the search.\<close>

definition first_start :: "extent \<Rightarrow> sub_args \<Rightarrow> u64 \<Rightarrow> u64" where
  "first_start ex a s =
     (let front = takeWhile (\<lambda>rp. er_start rp < s) (ex_regions ex)
      in if front \<noteq> [] \<and> er_end (last front) \<ge> s then EXTENT_ALIGN (er_end (last front) + 1) (alignment a) (skew a) else s)"

lemma sub_search_loop:
  "sub_search ex a s =
     (let front = takeWhile (\<lambda>rp. er_start rp < s) (ex_regions ex)
      in case sub_loop ex a (drop (length front) (ex_regions ex)) (first_start ex a s) (length front) (0, 0, 0) of
           Found x l \<Rightarrow> Some (x, l)
         | Fail best \<Rightarrow> if \<not> flagged (sub_flags a) EX_FAST \<and> fst best \<noteq> 0 then Some (snd best) else None)"
  by (simp add: sub_search_def first_start_def Let_def split: found.splits)

lemma substart_aligned:
  assumes rm: "roomy ex a"
  defines "s \<equiv> EXTENT_ALIGN (substart a) (alignment a) (skew a)"
  shows "unat (substart a) \<le> unat s" "aligned a (unat s)" "\<not> s < ex_start ex"
    "\<And>x. unat (substart a) \<le> x \<Longrightarrow> aligned a x \<Longrightarrow> unat s \<le> x"
proof -
  obtain k where k: "alignment a = 2 ^ k" "k < 64" using roomyD(3) [OF rm] by (auto simp: power_of_2_def)
  have "unat (substart a) \<le> unat (ex_end ex)" using roomyD(1) [OF rm] by (simp add: sub_check_def word_le_nat_alt)
  then have nw: "unat (substart a) + unat (alignment a) \<le> 2 ^ 64" using roomyD(4) [OF rm] by linarith
  note sp = align_spec [OF k nw, where w = "skew a", folded s_def]
  show "unat (substart a) \<le> unat s" "aligned a (unat s)" using sp(1,3) by (simp_all add: aligned_def)
  then show "\<not> s < ex_start ex" using sub_check_nat(1) [OF roomyD(1) [OF rm]] by (simp add: word_less_nat_alt)
  show "unat s \<le> x" if "unat (substart a) \<le> x" "aligned a x" for x
    by (rule sp(4)) (use that in \<open>auto simp: aligned_def\<close>)
qed

lemma search_start:
  assumes rm: "roomy ex a" and ok: "regions_ok c (ex_regions ex)" "in_extent ex"
  defines "s \<equiv> EXTENT_ALIGN (substart a) (alignment a) (skew a)"
  defines "front \<equiv> takeWhile (\<lambda>rp. er_start rp < s) (ex_regions ex)"
  shows "searching ex a (drop (length front) (ex_regions ex)) (first_start ex a s) (length front) (0, 0, 0) \<and>
    (\<forall>r \<in> set (drop (length front) (ex_regions ex)). unat (substart a) \<le> lo r)"
proof -
  note sa = substart_aligned [OF rm, folded s_def]
  let ?rest = "drop (length front) (ex_regions ex)"
  have rest: "?rest = dropWhile (\<lambda>rp. er_start rp < s) (ex_regions ex)" by (simp add: front_def dropWhile_eq_drop)
  have rs: "ex_regions ex = front @ ?rest" unfolding rest by (simp add: front_def)
  have take: "take (length front) (ex_regions ex) = front" by (subst rs) simp
  have len: "length front \<le> length (ex_regions ex)" by (subst rs) simp
  have "unat s \<le> lo r" if "r \<in> set ?rest" for r
  proof (cases ?rest)
    case (Cons y ys)
    then have "\<not> er_start y < s" using hd_dropWhile [of "\<lambda>rp. er_start rp < s" "ex_regions ex"] rest by simp
    then have y: "unat s \<le> lo y" by (simp add: word_less_nat_alt)
    have "regions_ok c (y # ys)" using ok(1) rs Cons by (metis regions_ok_simps(3))
    then show ?thesis using that Cons y by fastforce
  qed (use that in simp)
  then have low: "\<forall>r \<in> set ?rest. unat (substart a) \<le> lo r" using sa(1) by fastforce
  have "(\<forall>r \<in> set front. hi r < unat (first_start ex a s)) \<and> unat (substart a) \<le> unat (first_start ex a s) \<and>
      aligned a (unat (first_start ex a s))"
  proof (cases front rule: rev_cases)
    case Nil
    then show ?thesis using sa by (simp add: first_start_def front_def [symmetric])
  next
    case (snoc fr z)
    have okf: "regions_ok c (fr @ [z])" using ok(1) rs snoc by (metis regions_ok_simps(3))
    have zr: "z \<in> set (ex_regions ex)" by (subst rs) (simp add: snoc)
    have z: "hi z \<le> unat (ex_end ex)" using zr ok(2) by (simp add: in_extent_def)
    have below: "hi r \<le> hi z" if "r \<in> set front" for r using that okf snoc by fastforce
    show ?thesis
    proof (cases "er_end z \<ge> s")
      case True
      then have "first_start ex a s = EXTENT_ALIGN (er_end z + 1) (alignment a) (skew a)"
        using snoc by (simp add: first_start_def front_def [symmetric] Let_def)
      moreover have "unat s \<le> hi z" using True by (simp add: word_le_nat_alt)
      ultimately show ?thesis using next_start(1,2) [OF rm z] below sa(1) by fastforce
    next
      case False
      then have "first_start ex a s = s" "hi z < unat s"
        using snoc by (simp_all add: first_start_def front_def [symmetric] Let_def word_le_nat_alt)
      then show ?thesis using below sa by fastforce
    qed
  qed
  then show ?thesis using take len low by (simp add: searching_def)
qed

lemma sub_search_placement:
  assumes rm: "roomy ex a" and ok: "regions_ok c (ex_regions ex)" "in_extent ex"
    and f: "sub_search ex a (EXTENT_ALIGN (substart a) (alignment a) (skew a)) = Some (x, l)"
  shows "placement ex a (unat x) l"
proof -
  note st = search_start [OF rm ok]
  from sub_loop_ok [OF rm ok conjunct1 [OF st] conjunct2 [OF st]] f show ?thesis
    unfolding sub_search_loop result_ok_def Let_def by (auto split: found.splits if_splits)
qed

section \<open>The places the search finds\<close>

definition fit :: "extent \<Rightarrow> sub_args \<Rightarrow> nat \<Rightarrow> bool" where
  "fit ex a x \<longleftrightarrow> unat (substart a) \<le> x \<and> x + unat (sub_size a) \<le> unat (subend a) + 1 \<and> aligned a x \<and>
     {x..<x + unat (sub_size a)} \<inter> taken (ex_regions ex) = {}"

lemma fit_region:
  assumes "fit ex a x" "r \<in> set (ex_regions ex)" "lo r \<le> hi r" "0 < unat (sub_size a)"
  shows "x + unat (sub_size a) \<le> lo r \<or> hi r < x"
proof (rule ccontr)
  assume "\<not> ?thesis"
  then have "max x (lo r) \<in> {x..<x + unat (sub_size a)}" "max x (lo r) \<in> {lo r..hi r}" using assms(3,4) by auto
  moreover from this(2) have "max x (lo r) \<in> taken (ex_regions ex)" using assms(2) unfolding taken_def by blast
  ultimately show False using assms(1) unfolding fit_def by blast
qed

text \<open>Every place is at or behind the candidate, or one has been noted; taking the first fit, none has.\<close>

definition covering :: "extent \<Rightarrow> sub_args \<Rightarrow> u64 \<Rightarrow> best \<Rightarrow> bool" where
  "covering ex a s best \<longleftrightarrow> (\<forall>x. fit ex a x \<longrightarrow> unat s \<le> x) \<or> fst best \<noteq> 0 \<and> \<not> flagged (sub_flags a) EX_FAST"

definition complete :: "extent \<Rightarrow> sub_args \<Rightarrow> found \<Rightarrow> bool" where
  "complete ex a res \<longleftrightarrow> (case res of
     Found n l \<Rightarrow> flagged (sub_flags a) EX_FAST \<longrightarrow> (\<forall>x. fit ex a x \<longrightarrow> unat n \<le> x)
   | Fail best \<Rightarrow> (\<forall>x. \<not> fit ex a x) \<or> fst best \<noteq> 0 \<and> \<not> flagged (sub_flags a) EX_FAST)"

lemma covering_better: "ovh \<noteq> 0 \<Longrightarrow> \<not> flagged (sub_flags a) EX_FAST \<Longrightarrow> covering ex a s (better best ovh x l)"
  by (auto simp: covering_def better_def)

lemma sub_last_complete:
  assumes rm: "roomy ex a" and b: "boundary a = 0" and c: "covering ex a s best"
  shows "complete ex a (sub_last ex a exend s l best)"
proof (cases "LE_OV s (sub_size a - 1) (subend a)")
  case True
  then show ?thesis using c b by (auto simp: sub_last_def bound_check_def complete_def covering_def better_def Let_def)
next
  case False
  then have "\<not> fit ex a x" if "unat s \<le> x" for x
    using that sub_check_nat(3,4) [OF roomyD(1) [OF rm]] unfolding LE_OV_iff fit_def by linarith
  then show ?thesis using False c by (auto simp: sub_last_def complete_def covering_def)
qed

lemma covering_skip:
  assumes rm: "roomy ex a" and r: "r \<in> set (ex_regions ex)" "lo r \<le> hi r" "hi r \<le> unat (ex_end ex)"
    and c: "covering ex a s best" "\<not> LE_OV s (sub_size a) (er_start r) \<or> fst best \<noteq> 0 \<and> \<not> flagged (sub_flags a) EX_FAST"
  shows "covering ex a (EXTENT_ALIGN (er_end r + 1) (alignment a) (skew a)) best"
proof (cases "fst best \<noteq> 0 \<and> \<not> flagged (sub_flags a) EX_FAST")
  case False
  have "unat (EXTENT_ALIGN (er_end r + 1) (alignment a) (skew a)) \<le> x" if x: "fit ex a x" for x
  proof -
    have "unat s \<le> x" using c(1) False x by (auto simp: covering_def)
    moreover have "\<not> unat s + unat (sub_size a) \<le> lo r" using c(2) False unfolding LE_OV_iff by blast
    ultimately have "hi r < x" using fit_region [OF x r(1,2)] sub_check_nat(3) [OF roomyD(1) [OF rm]] by linarith
    then show ?thesis using next_start(4) [OF rm r(3)] x by (simp add: fit_def)
  qed
  then show ?thesis by (simp add: covering_def)
qed (simp add: covering_def)

lemma sub_loop_complete:
  assumes rm: "roomy ex a" and b: "boundary a = 0" and ok: "regions_ok c (ex_regions ex)" "in_extent ex"
    and sub: "set rps \<subseteq> set (ex_regions ex)" and c: "covering ex a s best"
  shows "complete ex a (sub_loop ex a rps s l best)"
  using sub c
proof (induction rps arbitrary: s l best)
  case Nil
  then show ?case using sub_last_complete [OF rm b] by simp
next
  case (Cons r rps)
  have r: "r \<in> set (ex_regions ex)" "lo r \<le> hi r" "hi r \<le> unat (ex_end ex)"
    using Cons.prems(1) ok by (auto simp: in_extent_def regions_ok_def)
  let ?ns = "EXTENT_ALIGN (er_end r + 1) (alignment a) (skew a)"
  have skip: "complete ex a (if ?ns < er_end r then Fail best' else sub_loop ex a rps ?ns (Suc l) best')"
    if "covering ex a s best'" "\<not> LE_OV s (sub_size a) (er_start r) \<or> fst best' \<noteq> 0 \<and> \<not> flagged (sub_flags a) EX_FAST" for best'
    using Cons.IH [OF _ covering_skip [OF rm r that]] Cons.prems(1) next_start(3) [OF rm r(3)] by simp
  show ?case
  proof (cases "er_start r > subend a")
    case True
    then show ?thesis using sub_last_complete [OF rm b Cons.prems(2)] by simp
  next
    case False
    show ?thesis
    proof (cases "LE_OV s (sub_size a) (er_start r)")
      case True
      let ?ovh = "er_start r - s - sub_size a"
      show ?thesis
      proof (cases "flagged (sub_flags a) EX_FAST \<or> ?ovh = 0")
        case now: True
        then show ?thesis using False True b Cons.prems(2) by (auto simp: bound_check_def complete_def covering_def Let_def)
      next
        case later: False
        have "fst (better best ?ovh s l) \<noteq> 0" using later by (auto simp: better_def)
        then show ?thesis using False True b later skip [OF covering_better [of ?ovh]] by (simp add: bound_check_def Let_def)
      qed
    qed (use False skip [OF Cons.prems(2)] in \<open>simp add: Let_def\<close>)
  qed
qed

lemma first_start_covering:
  assumes rm: "roomy ex a" and ok: "regions_ok c (ex_regions ex)" "in_extent ex"
  shows "covering ex a (first_start ex a (EXTENT_ALIGN (substart a) (alignment a) (skew a))) (0, 0, 0)"
proof -
  define s where "s = EXTENT_ALIGN (substart a) (alignment a) (skew a)"
  define front where "front = takeWhile (\<lambda>rp. er_start rp < s) (ex_regions ex)"
  have base: "unat s \<le> x" if "fit ex a x" for x
    using substart_aligned(4) [OF rm] that by (simp add: fit_def s_def)
  show ?thesis unfolding s_def [symmetric]
  proof (cases "front \<noteq> [] \<and> er_end (last front) \<ge> s")
    case True
    have "last front \<in> set front" using True by simp
    then have z: "last front \<in> set (ex_regions ex)" "er_start (last front) < s"
      using set_takeWhileD unfolding front_def by metis+
    have h: "lo (last front) \<le> hi (last front)" "hi (last front) \<le> unat (ex_end ex)"
      using z(1) ok by (auto simp: in_extent_def regions_ok_def)
    have "hi (last front) < x" if "fit ex a x" for x
      using fit_region [OF that z(1) h(1)] base [OF that] z(2) sub_check_nat(3) [OF roomyD(1) [OF rm]]
      unfolding word_less_nat_alt by linarith
    then have "unat (EXTENT_ALIGN (er_end (last front) + 1) (alignment a) (skew a)) \<le> x" if "fit ex a x" for x
      using next_start(4) [OF rm h(2)] that by (simp add: fit_def)
    then show "covering ex a (first_start ex a s) (0, 0, 0)" using True by (simp add: covering_def first_start_def front_def Let_def)
  next
    case False
    then have "first_start ex a s = s" by (auto simp: first_start_def front_def Let_def)
    then show "covering ex a (first_start ex a s) (0, 0, 0)" using base by (simp add: covering_def)
  qed
qed

lemma sub_search_complete:
  assumes rm: "roomy ex a" and b: "boundary a = 0" and ok: "regions_ok c (ex_regions ex)" "in_extent ex"
  shows "case sub_search ex a (EXTENT_ALIGN (substart a) (alignment a) (skew a)) of
      None \<Rightarrow> \<forall>x. \<not> fit ex a x
    | Some (n, l) \<Rightarrow> flagged (sub_flags a) EX_FAST \<longrightarrow> (\<forall>x. fit ex a x \<longrightarrow> unat n \<le> x)"
proof -
  let ?s = "EXTENT_ALIGN (substart a) (alignment a) (skew a)"
  define k where "k = length (takeWhile (\<lambda>rp. er_start rp < ?s) (ex_regions ex))"
  have "complete ex a (sub_loop ex a (drop k (ex_regions ex)) (first_start ex a ?s) k (0, 0, 0))"
    by (rule sub_loop_complete [OF rm b ok set_drop_subset first_start_covering [OF rm ok]])
  then show ?thesis unfolding sub_search_loop Let_def complete_def k_def [symmetric]
    by (auto split: found.splits option.splits)
qed

end
