(* ===== verification/Range_Ledger.thy ===== *)
theory Range_Ledger
  imports Main "HOL-Library.Multiset"
begin

text \<open>
  The contract of a manager of ranges of addresses, as its clients see it: a ledger of the ranges
  handed out.  A range is its first address and its length.  The manager moves by granting a range,
  by taking one back, and by steps that concern no range; the laws say how each keeps the state in
  line with the ledger.
\<close>

definition rng :: "nat \<times> nat \<Rightarrow> nat set" where
  "rng p = {fst p..<fst p + snd p}"

definition covered :: "(nat \<times> nat) multiset \<Rightarrow> nat set" where
  "covered M = (\<Union>p \<in> set_mset M. rng p)"

text \<open>No two ranges of the ledger share an address.\<close>

definition apart :: "(nat \<times> nat) multiset \<Rightarrow> bool" where
  "apart M \<longleftrightarrow> (\<forall>p \<in># M. rng p \<inter> covered (M - {#p#}) = {})"

lemma covered_simps [simp]:
  "covered {#} = {}" "covered (add_mset p M) = rng p \<union> covered M" "covered (M + N) = covered M \<union> covered N"
  by (auto simp: covered_def)

lemma apart_empty [simp]: "apart {#}"
  by (simp add: apart_def)

lemma covered_member: "p \<in># M \<Longrightarrow> rng p \<subseteq> covered M"
  by (auto simp: covered_def)

lemma apart_add: "apart (add_mset p M) \<longleftrightarrow> rng p \<inter> covered M = {} \<and> apart M"
proof
  assume a: "apart (add_mset p M)"
  have "rng q \<inter> covered (M - {#q#}) = {}" if "q \<in># M" for q
  proof -
    have "rng q \<inter> covered (add_mset p M - {#q#}) = {}" using a that unfolding apart_def by auto
    moreover have "add_mset p M - {#q#} = add_mset p (M - {#q#})" using that by simp
    ultimately show ?thesis by auto
  qed
  then show "rng p \<inter> covered M = {} \<and> apart M" using a unfolding apart_def by auto
next
  assume a: "rng p \<inter> covered M = {} \<and> apart M"
  have "rng q \<inter> covered (add_mset p M - {#q#}) = {}" if "q \<in># add_mset p M" for q
  proof (cases "q = p")
    case False
    then have q: "q \<in># M" using that by simp
    then have "add_mset p M - {#q#} = add_mset p (M - {#q#})" by simp
    moreover have "rng q \<inter> rng p = {}" using covered_member [OF q] a by blast
    moreover have "rng q \<inter> covered (M - {#q#}) = {}" using a q by (simp add: apart_def)
    ultimately show ?thesis by (simp add: Int_Un_distrib)
  qed (use a in simp)
  then show "apart (add_mset p M)" by (simp add: apart_def)
qed

locale range_ledger =
  fixes fits :: "'e \<Rightarrow> (nat \<times> nat) multiset \<Rightarrow> bool"
    and grant :: "'e \<Rightarrow> nat \<times> nat \<Rightarrow> 'e \<Rightarrow> bool"
    and give :: "'e \<Rightarrow> nat \<times> nat \<Rightarrow> 'e \<Rightarrow> bool"
    and quiet :: "'e \<Rightarrow> 'e \<Rightarrow> bool"
    and area :: "'e \<Rightarrow> nat set"
  assumes grant_law: "fits e M \<Longrightarrow> grant e p e' \<Longrightarrow> fits e' (add_mset p M) \<and> area e' = area e"
    and give_law: "fits e (add_mset p M) \<Longrightarrow> give e p e' \<Longrightarrow> fits e' M \<and> area e' = area e"
    and quiet_law: "fits e M \<Longrightarrow> quiet e e' \<Longrightarrow> fits e' M \<and> area e' = area e"
    and fits_apart: "fits e M \<Longrightarrow> apart M \<and> covered M \<subseteq> area e"

inductive ledger_step for grant give quiet where
  grant: "grant e p e' \<Longrightarrow> ledger_step grant give quiet (e, M) (e', add_mset p M)"
| give: "give e p e' \<Longrightarrow> ledger_step grant give quiet (e, add_mset p M) (e', M)"
| quiet: "quiet e e' \<Longrightarrow> ledger_step grant give quiet (e, M) (e', M)"

context range_ledger
begin

lemma step_fits:
  assumes "ledger_step grant give quiet (e, M) (e', M')" "fits e M"
  shows "fits e' M' \<and> area e' = area e"
  using assms(1)
proof cases
  case (grant p)
  then show ?thesis using grant_law [OF assms(2) grant(2)] by simp
next
  case (give p)
  then show ?thesis using give_law [of e p M' e'] assms(2) by simp
next
  case quiet
  then show ?thesis using quiet_law [OF assms(2)] by simp
qed

lemma history_fits:
  assumes "(ledger_step grant give quiet)\<^sup>*\<^sup>* (e, M) (e', M')" "fits e M"
  shows "fits e' M' \<and> area e' = area e"
  using assms(1)
proof (induction "(e', M')" arbitrary: e' M' rule: rtranclp_induct)
  case (step y)
  obtain e1 M1 where y: "y = (e1, M1)" by fastforce
  show ?case using step_fits [of e1 M1 e' M'] step y by simp
qed (use assms(2) in simp)

theorem history_apart:
  assumes "(ledger_step grant give quiet)\<^sup>*\<^sup>* (e, M) (e', M')" "fits e M"
  shows "apart M' \<and> covered M' \<subseteq> area e"
  using history_fits [OF assms] fits_apart [of e' M'] by simp

end

end
