(* ===== verification/Extent_Ops.thy ===== *)
theory Extent_Ops
  imports Extent_Search Range_Ledger
begin

text \<open>
  What each phase of an operation on an extent does: a call runs up to the lock (\<open>op_start\<close>), then
  from the lock to its end (\<open>op_locked\<close>), and both may put the thread to sleep (\<open>op_wake\<close> continues
  it).  Every law says what happens to the regions, to the lock and to the sleepers.
\<close>

section \<open>Well-formed extents\<close>

abbreviation coalescing :: "extent \<Rightarrow> bool" where
  "coalescing ex \<equiv> \<not> flagged (ex_flags ex) EXF_NOCOALESCE"

definition extent_ok :: "extent \<Rightarrow> bool" where
  "extent_ok ex \<longleftrightarrow> regions_ok (coalescing ex) (ex_regions ex) \<and> in_extent ex"

definition keeps :: "extent \<Rightarrow> extent \<Rightarrow> bool" where
  "keeps ex ex' \<longleftrightarrow> ex_start ex' = ex_start ex \<and> ex_end ex' = ex_end ex \<and> coalescing ex' = coalescing ex \<and>
     flagged (ex_flags ex') EXF_FIXED = flagged (ex_flags ex) EXF_FIXED"

text \<open>A state in which a sleeper in the descriptor allocator has to go on sleeping, and the changes
  that either keep it or wake the sleepers.\<close>

definition starved :: "extent \<Rightarrow> bool" where
  "starved ex \<longleftrightarrow> flagged (ex_flags ex) EXF_FIXED \<and> fex_freelist ex = [] \<and> flagged (ex_flags ex) EXF_FLWANTED"

definition calm :: "extent \<Rightarrow> extent \<Rightarrow> bool" where
  "calm ex ex' \<longleftrightarrow> ex_cv ex \<le> ex_cv ex' \<and> (ex_cv ex' = ex_cv ex \<and> starved ex \<longrightarrow> starved ex')"

lemma keeps_refl [simp]: "keeps ex ex" by (simp add: keeps_def)

lemma keeps_trans: "keeps ex ex' \<Longrightarrow> keeps ex' ex'' \<Longrightarrow> keeps ex ex''" by (simp add: keeps_def)

lemma calm_refl [simp]: "calm ex ex" by (simp add: calm_def)

lemma calm_trans: "calm ex ex' \<Longrightarrow> calm ex' ex'' \<Longrightarrow> calm ex ex''" by (auto simp: calm_def)

lemma frame_updates [simp]:
  "keeps ex (ex\<lparr>ex_regions := rs\<rparr>)" "keeps ex (ex\<lparr>ex_lock := l\<rparr>)" "keeps ex (cv_broadcast ex)" "keeps ex (mutex_exit ex)"
  "calm ex (ex\<lparr>ex_regions := rs\<rparr>)" "calm ex (ex\<lparr>ex_lock := l\<rparr>)" "calm ex (cv_broadcast ex)" "calm ex (mutex_exit ex)"
  by (simp_all add: keeps_def calm_def starved_def cv_broadcast_def mutex_exit_def)

lemma mutex_exit_fields [simp]:
  "ex_regions (mutex_exit ex) = ex_regions ex" "\<not> ex_lock (mutex_exit ex)" "ex_cv (mutex_exit ex) = ex_cv ex"
  "ex_flags (mutex_exit ex) = ex_flags ex" "ex_start (mutex_exit ex) = ex_start ex" "ex_end (mutex_exit ex) = ex_end ex"
  by (simp_all add: mutex_exit_def)

lemma cv_broadcast_fields [simp]:
  "ex_regions (cv_broadcast ex) = ex_regions ex" "ex_cv (cv_broadcast ex) = Suc (ex_cv ex)" "ex_lock (cv_broadcast ex) = ex_lock ex"
  by (simp_all add: cv_broadcast_def)

lemma free_descriptor_frame [simp]:
  "keeps ex (extent_free_region_descriptor ex rp)" "calm ex (extent_free_region_descriptor ex rp)"
  by (auto simp: keeps_def calm_def starved_def extent_free_region_descriptor_def cv_broadcast_def Let_def)

lemma free_after_frame:
  "keeps ex ex' \<Longrightarrow> keeps ex (extent_free_region_descriptor ex' rp)"
  "calm ex ex' \<Longrightarrow> calm ex (extent_free_region_descriptor ex' rp)"
  by (blast intro: keeps_trans calm_trans free_descriptor_frame)+

lemma insert_frame:
  "keeps ex (extent_insert_and_optimize ex start sz k rp) \<and> calm ex (extent_insert_and_optimize ex start sz k rp)"
  by (auto simp: extent_insert_and_optimize_def region_link_def Let_def free_after_frame split: list.splits)

section \<open>Descriptors\<close>

text \<open>What a descriptor allocation leaves, by its outcome.\<close>

definition got_descriptor :: "extent \<Rightarrow> 'a ex_res \<Rightarrow> bool" where
  "got_descriptor ex res \<longleftrightarrow> (case res of
     Ret ex' rp \<Rightarrow> keeps ex ex' \<and> ex_regions ex' = ex_regions ex \<and> \<not> ex_lock ex' \<and> ex_cv ex' = ex_cv ex \<and> calm ex ex'
   | Sleep ex' sl \<Rightarrow> keeps ex ex' \<and> ex_regions ex' = ex_regions ex \<and> \<not> ex_lock ex' \<and> ex_cv ex' = ex_cv ex \<and> calm ex ex' \<and>
       sl = At_descriptor \<and> starved ex'
   | _ \<Rightarrow> False)"

lemma pool_descriptor_law: "\<not> ex_lock ex \<Longrightarrow> got_descriptor ex (pool_descriptor pool ex)"
  by (simp add: got_descriptor_def pool_descriptor_def)

lemma descriptor_loop_law:
  assumes "flagged (ex_flags ex) EXF_FIXED"
  shows "got_descriptor ex (descriptor_loop pool ex flags)"
  using assms by (auto simp: got_descriptor_def descriptor_loop_def pool_descriptor_def mutex_exit_def keeps_def calm_def starved_def
    split: list.split)

lemma got_descriptor_lock: "got_descriptor (ex\<lparr>ex_lock := l\<rparr>) res \<longleftrightarrow> got_descriptor ex res"
  by (simp add: got_descriptor_def keeps_def calm_def starved_def split: ex_res.split)

lemma alloc_descriptor_law:
  assumes "\<not> ex_lock ex"
  shows "got_descriptor ex (extent_alloc_region_descriptor pool ex flags)"
proof -
  have same: "mutex_exit (ex\<lparr>ex_lock := True\<rparr>) = ex" using assms by (simp add: mutex_exit_def)
  show ?thesis
    using assms descriptor_loop_law [of "ex\<lparr>ex_lock := True\<rparr>"] pool_descriptor_law [OF assms]
    by (simp add: extent_alloc_region_descriptor_def mutex_enter_def Let_def same got_descriptor_lock)
qed

lemma descriptor_wake_law:
  assumes "\<not> ex_lock ex" "flagged (ex_flags ex) EXF_FIXED"
  shows "got_descriptor ex (descriptor_wake pool ex flags error)"
proof (cases "error = 0")
  case True
  then show ?thesis using assms descriptor_loop_law [of "ex\<lparr>ex_lock := True\<rparr>"]
    by (simp add: descriptor_wake_def mutex_enter_def got_descriptor_lock)
next
  case False
  then show ?thesis using assms by (simp add: descriptor_wake_def mutex_enter_def mutex_exit_def got_descriptor_def)
qed

section \<open>The locked part of the operations\<close>

text \<open>The first and the last address of a range.\<close>

definition ends :: "nat \<times> nat \<Rightarrow> nat \<times> nat" where
  "ends p = (fst p, fst p + snd p - 1)"

text \<open>A request for a region that passes the checks of the arguments.\<close>

definition region_args :: "extent \<Rightarrow> u64 \<Rightarrow> u64 \<Rightarrow> bool" where
  "region_args ex start sz \<longleftrightarrow> 1 \<le> sz \<and> start \<le> start + (sz - 1) \<and> ex_start ex \<le> start \<and> start + (sz - 1) \<le> ex_end ex"

lemma region_end:
  fixes start sz :: u64
  assumes "1 \<le> sz" "start \<le> start + (sz - 1)"
  shows "0 < unat sz" "unat (start + (sz - 1)) = unat start + unat sz - 1" "unat start + unat sz \<le> 2 ^ 64"
    "{unat start..unat (start + (sz - 1))} = rng (unat start, unat sz)"
proof -
  have "sz \<noteq> 0" using assms(1) by auto
  then show p: "0 < unat sz" by (simp add: unat_gt_0)
  have m: "unat (sz - 1) = unat sz - 1" by (rule unat_pred [OF p])
  have "LE_OV start (sz - 1) (start + (sz - 1))" using assms(2) by (simp add: LE_OV_def)
  then have le: "unat start + (unat sz - 1) \<le> unat (start + (sz - 1))" unfolding LE_OV_iff m .
  moreover have lt: "unat (start + (sz - 1)) < 2 ^ 64" using unsigned_less [of "start + (sz - 1)", where ?'a = nat] by simp
  ultimately have "unat start + unat (sz - 1) < 2 ^ 64" using m by linarith
  then have "unat (start + (sz - 1)) = unat start + unat (sz - 1)" by (simp add: unat_add_no_wrap)
  then show u: "unat (start + (sz - 1)) = unat start + unat sz - 1" using m p by linarith
  show "unat start + unat sz \<le> 2 ^ 64" using u lt p by linarith
  show "{unat start..unat (start + (sz - 1))} = rng (unat start, unat sz)" using u p by (auto simp: rng_def)
qed

text \<open>How the taken addresses change.\<close>

definition takes :: "extent \<Rightarrow> nat \<times> nat \<Rightarrow> extent \<Rightarrow> bool" where
  "takes ex p ex' \<longleftrightarrow> rng p \<inter> taken (ex_regions ex) = {} \<and> 0 < snd p \<and> extent_ok ex' \<and>
     taken (ex_regions ex') = taken (ex_regions ex) \<union> rng p \<and>
     (\<not> coalescing ex \<longrightarrow> mset (map bounds (ex_regions ex')) = add_mset (ends p) (mset (map bounds (ex_regions ex))))"

definition releases :: "extent \<Rightarrow> nat \<times> nat \<Rightarrow> extent \<Rightarrow> bool" where
  "releases ex p ex' \<longleftrightarrow> extent_ok ex' \<and> taken (ex_regions ex') = taken (ex_regions ex) - rng p \<and>
     (\<not> coalescing ex \<longrightarrow> mset (map bounds (ex_regions ex)) = add_mset (ends p) (mset (map bounds (ex_regions ex'))))"

lemma in_extent_taken:
  assumes "regions_ok c (ex_regions ex)"
  shows "in_extent ex \<longleftrightarrow> taken (ex_regions ex) \<subseteq> {unat (ex_start ex)..unat (ex_end ex)}"
proof -
  have "lo r \<le> hi r" if "r \<in> set (ex_regions ex)" for r using that assms by (simp add: regions_ok_def)
  then show ?thesis unfolding in_extent_def taken_def by fastforce
qed

text \<open>Insertion at a place where the addresses are free.\<close>

lemma insert_takes:
  assumes ok: "extent_ok ex" and p: "parted (take k (ex_regions ex)) (unat start) (unat (start + (sz - 1))) (drop k (ex_regions ex))"
    and k: "k \<le> length (ex_regions ex)" and a: "region_args ex start sz"
  shows "takes ex (unat start, unat sz) (extent_insert_and_optimize ex start sz k rp)"
proof -
  let ?ex = "extent_insert_and_optimize ex start sz k rp" and ?e = "unat (start + (sz - 1))"
  note e = region_end [of sz start]
  have a': "1 \<le> sz" "start \<le> start + (sz - 1)" using a by (simp_all add: region_args_def)
  have ok': "regions_ok (coalescing ex) (take k (ex_regions ex) @ drop k (ex_regions ex))" using ok by (simp add: extent_ok_def)
  have len: "length (take k (ex_regions ex)) = k" using k by simp
  have se: "unat start \<le> ?e" using a'(2) by (simp add: word_le_nat_alt)
  have i: "inserted (coalescing ex) (ex_regions ex) (unat start) ?e (ex_regions ?ex)"
    using insert_inserted [OF ok' append_take_drop_id [symmetric] p se, of rp] len by simp
  note fr = conjunct1 [OF insert_frame [of ex start sz k rp]]
  have "rng (unat start, unat sz) \<inter> taken (ex_regions ex) = {}"
    using parted_disjoint [OF p] e(4) [OF a'] by simp
  moreover have "taken (ex_regions ?ex) = taken (ex_regions ex) \<union> rng (unat start, unat sz)"
    using i e(4) [OF a'] by (simp add: inserted_def)
  moreover have r: "regions_ok (coalescing ?ex) (ex_regions ?ex)" using i fr by (simp add: inserted_def keeps_def)
  moreover have "rng (unat start, unat sz) \<subseteq> {unat (ex_start ex)..unat (ex_end ex)}"
    unfolding e(4) [OF a', symmetric] using a by (simp add: region_args_def word_le_nat_alt)
  moreover have "taken (ex_regions ex) \<subseteq> {unat (ex_start ex)..unat (ex_end ex)}"
    using ok in_extent_taken by (auto simp: extent_ok_def)
  ultimately have "in_extent ?ex" using in_extent_taken [OF r] fr by (simp add: keeps_def)
  then show ?thesis using i r e [OF a'] \<open>rng _ \<inter> _ = {}\<close> by (simp add: takes_def extent_ok_def inserted_def ends_def)
qed

text \<open>The outcomes of a locked part: it returns or sleeps with the lock released.\<close>

definition settled :: "extent \<Rightarrow> extent \<Rightarrow> bool" where
  "settled ex ex' \<longleftrightarrow> \<not> ex_lock ex' \<and> keeps ex ex' \<and> calm ex ex'"

definition ends_as :: "extent \<Rightarrow> 'a ex_res \<Rightarrow> (extent \<Rightarrow> 'a \<Rightarrow> bool) \<Rightarrow> (sleeper \<Rightarrow> bool) \<Rightarrow> bool" where
  "ends_as ex res returns sleeps \<longleftrightarrow> (case res of
     Ret ex' x \<Rightarrow> settled ex ex' \<and> returns ex' x
   | Unlocked ex' rp x \<Rightarrow> settled ex ex' \<and> ex_regions ex' = ex_regions ex \<and> returns ex' x
   | Sleep ex' sl \<Rightarrow> settled ex ex' \<and> ex_regions ex' = ex_regions ex \<and> ex_cv ex' = ex_cv ex \<and> sleeps sl
   | _ \<Rightarrow> False)"

lemma ends_as_simps [simp]:
  "ends_as ex (Ret ex' x) P Q \<longleftrightarrow> settled ex ex' \<and> P ex' x"
  "ends_as ex (Sleep ex' sl) P Q \<longleftrightarrow> settled ex ex' \<and> ex_regions ex' = ex_regions ex \<and> ex_cv ex' = ex_cv ex \<and> Q sl"
  "ends_as ex (Unlocked ex' rp x) P Q \<longleftrightarrow> settled ex ex' \<and> ex_regions ex' = ex_regions ex \<and> P ex' x"
  "\<not> ends_as ex Panic P Q" "\<not> ends_as ex (Stuck ex') P Q"
  by (simp_all add: ends_as_def)

lemma settledI [intro]:
  "keeps ex ex' \<Longrightarrow> calm ex ex' \<Longrightarrow> settled ex (mutex_exit ex')"
  "settled ex (mutex_exit ex)"
  "settled ex (extent_free_region_descriptor (mutex_exit ex) rp)"
  by (auto simp: settled_def intro: keeps_trans calm_trans free_after_frame)

lemma lock_frame [simp]:
  "settled (ex\<lparr>ex_lock := l\<rparr>) ex' = settled ex ex'" "takes (ex\<lparr>ex_lock := l\<rparr>) p ex' = takes ex p ex'"
  "releases (ex\<lparr>ex_lock := l\<rparr>) p ex' = releases ex p ex'" "extent_ok (ex\<lparr>ex_lock := l\<rparr>) = extent_ok ex"
  "region_args (ex\<lparr>ex_lock := l\<rparr>) = region_args ex" "roomy (ex\<lparr>ex_lock := l\<rparr>) a = roomy ex a"
  "fit (ex\<lparr>ex_lock := l\<rparr>) = fit ex" "no_cross (ex\<lparr>ex_lock := l\<rparr>) = no_cross ex" "lines_aligned (ex\<lparr>ex_lock := l\<rparr>) = lines_aligned ex"
  by (auto simp: settled_def keeps_def calm_def starved_def takes_def releases_def extent_ok_def in_extent_def region_args_def
    roomy_def sub_check_def fit_def no_cross_def lines_aligned_def origin_def fun_eq_iff)

lemma mutex_exit_takes [simp]: "takes ex p (mutex_exit ex') = takes ex p ex'" "releases ex p (mutex_exit ex') = releases ex p ex'"
  by (simp_all add: takes_def releases_def extent_ok_def in_extent_def)

lemma alloc_region_locked_law:
  assumes ok: "extent_ok ex" and a: "region_args ex start sz"
  shows "ends_as ex (alloc_region_locked ex start sz flags rp)
    (\<lambda>ex' err. if err = 0 then takes ex (unat start, unat sz) ex'
       else err = EAGAIN \<and> \<not> flagged flags EX_WAITSPACE \<and> ex_regions ex' = ex_regions ex \<and> rng (unat start, unat sz) \<inter> taken (ex_regions ex) \<noteq> {})
    (\<lambda>sl. sl = At_space rp \<and> flagged flags EX_WAITSPACE \<and> rng (unat start, unat sz) \<inter> taken (ex_regions ex) \<noteq> {})"
proof -
  have a': "1 \<le> sz" "start \<le> start + (sz - 1)" using a by (simp_all add: region_args_def)
  have rok: "regions_ok (coalescing ex) (ex_regions ex)" using ok by (simp add: extent_ok_def)
  note conf = region_scan_conflict [OF rok a'(2), unfolded region_end(4) [OF a']]
  show ?thesis
  proof (cases "region_scan (ex_regions ex) start (start + (sz - 1)) 0")
    case None
    then have "rng (unat start, unat sz) \<inter> taken (ex_regions ex) \<noteq> {}" using conf by simp
    then show ?thesis using None by (auto simp: alloc_region_locked_def)
  next
    case (Some m)
    from region_scan_Some [OF Some rok a'(2)] obtain k where
      "k \<le> length (ex_regions ex)" "m = k" "parted (take k (ex_regions ex)) (unat start) (unat (start + (sz - 1))) (drop k (ex_regions ex))"
      by auto
    from insert_takes [OF ok this(3,1) a, of rp] this(2) show ?thesis
      using Some insert_frame by (auto simp: alloc_region_locked_def)
  qed
qed

text \<open>A start that the search chose.\<close>

lemma placement_args:
  assumes "placement ex a (unat x) l" "roomy ex a"
  shows "region_args ex x (sub_size a)" "parted (take l (ex_regions ex)) (unat x) (unat (x + (sub_size a - 1))) (drop l (ex_regions ex))"
    "l \<le> length (ex_regions ex)"
proof -
  note c = sub_check_nat [OF roomyD(1) [OF assms(2)]]
  have pl: "unat (substart a) \<le> unat x" "unat x + unat (sub_size a) \<le> unat (subend a) + 1"
    "parted (take l (ex_regions ex)) (unat x) (unat x + unat (sub_size a) - 1) (drop l (ex_regions ex))"
    using assms(1) by (auto simp: placement_def)
  have "unat x + unat (sub_size a - 1) < 2 ^ 64" using pl(2) c(2,3,4) roomyD(2) [OF assms(2)] by linarith
  then have u: "unat (x + (sub_size a - 1)) = unat x + unat (sub_size a) - 1" using c(3,4) by (simp add: unat_add_no_wrap)
  show "region_args ex x (sub_size a)" unfolding region_args_def word_le_nat_alt u unat_1 using pl(1,2) c(1,2,3) by linarith
  show "parted (take l (ex_regions ex)) (unat x) (unat (x + (sub_size a - 1))) (drop l (ex_regions ex))" using pl(3) u by simp
  show "l \<le> length (ex_regions ex)" using assms(1) by (simp add: placement_def)
qed

lemma alloc_subregion_end_law:
  assumes ok: "extent_ok ex" "\<not> ex_lock ex" and a: "roomy ex a"
  shows "ends_as ex (alloc_subregion_end diag ex a (Some rp))
    (\<lambda>ex' res. case res of
       Inr x \<Rightarrow> takes ex (unat x, unat (sub_size a)) ex' \<and> unat (substart a) \<le> unat x \<and>
         unat x + unat (sub_size a) \<le> unat (subend a) + 1 \<and> no_cross ex a (unat x) \<and> (lines_aligned ex a \<longrightarrow> aligned a (unat x)) \<and>
         (boundary a = 0 \<and> flagged (sub_flags a) EX_FAST \<longrightarrow> (\<forall>y. fit ex a y \<longrightarrow> unat x \<le> y))
     | Inl err \<Rightarrow> err = EAGAIN \<and> ex_regions ex' = ex_regions ex \<and> (boundary a = 0 \<longrightarrow> (\<forall>y. \<not> fit ex a y)))
    (\<lambda>sl. sl = At_space rp \<and> (boundary a = 0 \<longrightarrow> (\<forall>y. \<not> fit ex a y)))"
proof -
  let ?ex = "ex\<lparr>ex_lock := True\<rparr>" and ?s = "EXTENT_ALIGN (substart a) (alignment a) (skew a)"
  have rm: "roomy ?ex a" "extent_ok ?ex" using a ok by simp_all
  then have rok: "regions_ok (coalescing ?ex) (ex_regions ?ex)" "in_extent ?ex" by (simp_all add: extent_ok_def)
  have st: "\<not> ?s < ex_start ex" using substart_aligned(3) [OF a] .
  show ?thesis
  proof (cases "sub_search ?ex a ?s")
    case None
    have "\<forall>x. \<not> fit ?ex a x" if "boundary a = 0" using sub_search_complete [OF rm(1) that rok] None by simp
    then show ?thesis using None st ok(2) settledI(2,3) [of ?ex]
      by (simp add: alloc_subregion_end_def mutex_enter_def Let_def)
  next
    case (Some p)
    obtain x l where p: "p = (x, l)" by (cases p)
    note pl = sub_search_placement [OF rm(1) rok Some [unfolded p]]
    note pa = placement_args [OF pl rm(1)]
    have "flagged (sub_flags a) EX_FAST \<longrightarrow> (\<forall>y. fit ?ex a y \<longrightarrow> unat x \<le> y)" if "boundary a = 0"
      using sub_search_complete [OF rm(1) that rok] Some p by simp
    moreover have "takes ex (unat x, unat (sub_size a)) (extent_insert_and_optimize ?ex x (sub_size a) l rp)"
      using insert_takes [OF rm(2) pa(2,3,1), of rp] by simp
    moreover have "settled ex (mutex_exit (extent_insert_and_optimize ?ex x (sub_size a) l rp))"
      using settledI(1) [of ?ex] insert_frame [of ?ex x "sub_size a" l rp] by simp
    ultimately show ?thesis using Some p st ok(2) pl
      by (simp add: alloc_subregion_end_def mutex_enter_def Let_def placement_def)
  qed
qed

lemma free_opt_frame:
  "keeps ex ex' \<Longrightarrow> keeps ex (free_descriptor_opt rp ex')" "calm ex ex' \<Longrightarrow> calm ex (free_descriptor_opt rp ex')"
  "ex_regions (free_descriptor_opt rp ex) = ex_regions ex" "ex_cv ex \<le> ex_cv (free_descriptor_opt rp ex)"
  by (auto simp: free_descriptor_opt_def free_after_frame split: option.split)
    (use free_descriptor_frame(2) in \<open>auto simp: calm_def\<close>)

text \<open>Which ranges can be freed: with coalescing all whose addresses are taken, otherwise those that are a region.\<close>

definition freeable :: "extent \<Rightarrow> nat \<times> nat \<Rightarrow> bool" where
  "freeable ex p \<longleftrightarrow> (if coalescing ex then rng p \<subseteq> taken (ex_regions ex) else ends p \<in> bounds ` set (ex_regions ex))"

lemma free_loop_law:
  assumes ok: "extent_ok ex" and a: "1 \<le> sz" "start \<le> start + (sz - 1)" and n: "coalescing ex \<longrightarrow> n \<noteq> None"
    and fr: "freeable ex (unat start, unat sz)"
  shows "\<exists>rs x. free_loop (coalescing ex) (ex_regions ex) start (start + (sz - 1)) n = Some (rs, x) \<and>
    freed (coalescing ex) (ex_regions ex) (unat start) (unat (start + (sz - 1))) rs"
proof (cases "coalescing ex")
  case True
  then obtain m where m: "n = Some m" using n by blast
  have "regions_ok True (ex_regions ex)" using ok True by (simp add: extent_ok_def)
  moreover from this have "\<exists>r \<in> set (ex_regions ex). lo r \<le> unat start \<and> unat (start + (sz - 1)) \<le> hi r"
    by (rule one_region) (use fr True region_end [OF a] a(2) in \<open>simp_all add: freeable_def word_le_nat_alt\<close>)
  ultimately show ?thesis using free_coalesced [of "ex_regions ex", OF _ a(2)] True m by simp
next
  case False
  have "regions_ok False (ex_regions ex)" using ok False by (simp add: extent_ok_def)
  then show ?thesis using free_exact [OF _ a(2)] fr False region_end [OF a] by (simp add: freeable_def ends_def)
qed

lemma extent_free_end_law:
  assumes ok: "extent_ok ex" "\<not> ex_lock ex" and a: "1 \<le> sz" "start \<le> start + (sz - 1)"
    and n: "coalescing ex = (n \<noteq> None)" and fr: "freeable ex (unat start, unat sz)"
  shows "\<exists>ex'. extent_free_end ex start sz (coalescing ex) n = Ret ex' 0 \<and> settled ex ex' \<and>
    releases ex (unat start, unat sz) ex' \<and> ex_cv ex < ex_cv ex'"
proof -
  obtain rs removed n' where f: "free_loop (coalescing ex) (ex_regions ex) start (start + (sz - 1)) n = Some (rs, removed, n')"
    "freed (coalescing ex) (ex_regions ex) (unat start) (unat (start + (sz - 1))) rs"
    using free_loop_law [OF ok(1) a _ fr, of n] n by auto
  define ex1 where "ex1 = free_descriptor_opt n' (free_descriptor_opt removed (ex\<lparr>ex_lock := True, ex_regions := rs\<rparr>))"
  have k: "keeps ex ex1" "calm ex ex1" unfolding ex1_def by (intro free_opt_frame, simp add: keeps_def calm_def starved_def)+
  have r1: "ex_regions ex1 = rs" by (simp add: ex1_def free_opt_frame)
  have "ex_cv ex \<le> ex_cv ex1" using k(2) by (simp add: calm_def)
  moreover have "settled ex (mutex_exit (cv_broadcast ex1))"
    using k by (intro settledI) (auto intro: keeps_trans calm_trans)
  moreover have "releases ex (unat start, unat sz) (mutex_exit (cv_broadcast ex1))"
  proof -
    have rok: "regions_ok (coalescing ex) rs" and t: "taken rs = taken (ex_regions ex) - rng (unat start, unat sz)"
      using f(2) region_end(4) [OF a] by (simp_all add: freed_def)
    have e: "keeps ex (mutex_exit (cv_broadcast ex1))"
      by (rule keeps_trans [OF keeps_trans [OF k(1) frame_updates(3)] frame_updates(4)])
    have e': "ex_start (mutex_exit (cv_broadcast ex1)) = ex_start ex" "ex_end (mutex_exit (cv_broadcast ex1)) = ex_end ex"
      "coalescing (mutex_exit (cv_broadcast ex1)) = coalescing ex" "ex_regions (mutex_exit (cv_broadcast ex1)) = rs"
      using e r1 by (simp_all add: keeps_def)
    have "taken (ex_regions ex) \<subseteq> {unat (ex_start ex)..unat (ex_end ex)}"
      using in_extent_taken [of "coalescing ex" ex] ok(1) by (simp add: extent_ok_def)
    then have "in_extent (mutex_exit (cv_broadcast ex1))"
      using in_extent_taken [of "coalescing ex" "mutex_exit (cv_broadcast ex1)"] rok t unfolding e' by blast
    then show ?thesis using rok t f(2) region_end(2) [OF a] unfolding releases_def extent_ok_def e' freed_def ends_def by simp
  qed
  ultimately show ?thesis using f(1) ok(2)
    by (simp add: extent_free_end_def mutex_enter_def ex1_def [symmetric])
qed

end
