(* ===== verification/Extent_System.thy ===== *)
theory Extent_System
  imports Extent_Ops
begin

text \<open>
  Threads that call the operations of one extent at the same time.  A call is cut where another
  thread can run: at the lock, where it sleeps, and after \<open>mutex_exit\<close> on an error path, where the
  descriptor is released without the lock.  In an extent whose descriptors come from the pool that
  release is a call of \<open>pool_put\<close> and touches nothing of the extent; in a fixed extent it writes
  the free list, the flags and the condition variable, and is a step here although the code does not
  make it one.  The properties are therefore stated for extents that are not fixed; the theory
  \<open>Extent_Race\<close> shows what happens in the others.

  The steps of the system are steps of a ledger of ranges, and what is reachable is shown free of
  overlaps, of panics and of lost wakeups.
\<close>

section \<open>Calls in phases\<close>

datatype ex_op = Op_region u64 u64 u32 | Op_sub sub_args | Op_free u64 u64 u32

fun op_flags :: "ex_op \<Rightarrow> u32" where
  "op_flags (Op_region _ _ flags) = flags"
| "op_flags (Op_sub a) = sub_flags a"
| "op_flags (Op_free _ _ flags) = flags"

datatype ex_pc =
    Start
  | At_lock "extent_region option"
  | Asleep sleeper nat
  | Releasing extent_region "int + u64"
  | Hung

definition as_result :: "u64 \<Rightarrow> int ex_res \<Rightarrow> (int + u64) ex_res" where
  "as_result x res = map_ex_res (\<lambda>err. if err = 0 then Inr x else Inl err) res"

text \<open>With a descriptor the call goes on to the lock; \<open>extent_free\<close> returns at once without one.\<close>

definition to_lock :: "ex_op \<Rightarrow> extent_region option ex_res \<Rightarrow> (extent_region option + (int + u64)) ex_res" where
  "to_lock op res = ex_bind res (\<lambda>ex rp. Ret ex (case op of
     Op_free _ _ _ \<Rightarrow> (if rp = None then Inr (Inl ENOMEM) else Inl rp)
   | _ \<Rightarrow> Inl rp))"

definition op_start :: "bool \<Rightarrow> extent_region option \<Rightarrow> extent \<Rightarrow> ex_op \<Rightarrow> (extent_region option + (int + u64)) ex_res" where
  "op_start diag pool ex op = (case op of
     Op_region start sz flags \<Rightarrow>
       (case alloc_region_check diag ex start sz of
          None \<Rightarrow> Panic
        | Some (Inl err) \<Rightarrow> Ret ex (Inr (Inl err))
        | Some (Inr _) \<Rightarrow> to_lock op (extent_alloc_region_descriptor pool ex flags))
   | Op_sub a \<Rightarrow>
       if diag \<and> \<not> sub_check ex a then Panic else to_lock op (extent_alloc_region_descriptor pool ex (sub_flags a))
   | Op_free start sz flags \<Rightarrow>
       if diag \<and> \<not> free_check ex start sz then Panic
       else ex_bind (mutex_enter ex) (\<lambda>ex _.
         let coalesce = coalescing ex; ex = mutex_exit ex
         in if coalesce then to_lock op (extent_alloc_region_descriptor pool ex flags) else Ret ex (Inl None)))"

definition op_locked :: "bool \<Rightarrow> extent \<Rightarrow> ex_op \<Rightarrow> extent_region option \<Rightarrow> (int + u64) ex_res" where
  "op_locked diag ex op rp = (case op of
     Op_region start sz flags \<Rightarrow> as_result start (alloc_region_end ex start sz flags rp)
   | Op_sub a \<Rightarrow> alloc_subregion_end diag ex a rp
   | Op_free start sz flags \<Rightarrow> as_result start (extent_free_end ex start sz (rp \<noteq> None) rp))"

definition op_wake :: "bool \<Rightarrow> extent_region option \<Rightarrow> int \<Rightarrow> extent \<Rightarrow> ex_op \<Rightarrow> sleeper \<Rightarrow>
    (extent_region option + (int + u64)) ex_res" where
  "op_wake diag pool err ex op sl = (case sl of
     At_descriptor \<Rightarrow> to_lock op (descriptor_wake pool ex (op_flags op) err)
   | At_space rp \<Rightarrow>
       map_ex_res Inr (case op of
           Op_region start sz flags \<Rightarrow> as_result start (alloc_region_wake ex start sz flags rp err)
         | Op_sub a \<Rightarrow> alloc_subregion_wake diag ex a rp err
         | Op_free _ _ _ \<Rightarrow> Panic))"

text \<open>The phases put together are the functions of the source.\<close>

definition op_call :: "bool \<Rightarrow> extent_region option \<Rightarrow> extent \<Rightarrow> ex_op \<Rightarrow> (int + u64) ex_res" where
  "op_call diag pool ex op = ex_finish (ex_bind (op_start diag pool ex op) (\<lambda>ex r. case r of
     Inl rp \<Rightarrow> op_locked diag ex op rp
   | Inr res \<Rightarrow> Ret ex res))"

lemma ex_bind_assoc: "ex_bind (ex_bind res f) g = ex_bind res (\<lambda>ex x. ex_bind (f ex x) g)"
  by (cases res) auto

lemma check_error: "alloc_region_check diag ex start sz \<noteq> Some (Inl 0)"
  by (simp add: alloc_region_check_def Let_def)

lemma as_result_simps [simp]:
  "as_result x (Ret ex err) = Ret ex (if err = 0 then Inr x else Inl err)" "as_result x (Sleep ex sl) = Sleep ex sl"
  "as_result x (Unlocked ex rp err) = Unlocked ex rp (if err = 0 then Inr x else Inl err)"
  "as_result x (Stuck ex) = Stuck ex" "as_result x Panic = Panic"
  by (simp_all add: as_result_def)

lemma bind_as_result [simp]: "ex_bind (as_result x res) f = ex_bind res (\<lambda>ex err. f ex (if err = 0 then Inr x else Inl err))"
  by (cases res) (simp_all add: as_result_def)

lemma as_result_bind: "as_result x (ex_bind res Ret) = ex_bind res (\<lambda>ex err. Ret ex (if err = 0 then Inr x else Inl err))"
  by (cases res) (simp_all add: as_result_def)

lemma as_result_bind_bind:
  "as_result x (ex_bind res (\<lambda>ex y. ex_bind (f ex y) Ret)) =
     ex_bind res (\<lambda>ex y. ex_bind (f ex y) (\<lambda>ex err. Ret ex (if err = 0 then Inr x else Inl err)))"
  by (cases res) (simp_all add: as_result_bind)

lemma extent_free_finish: "ex_finish (extent_free diag pool ex start sz flags) = extent_free diag pool ex start sz flags"
proof -
  have "ex_finish (extent_free_end ex' start sz c n) = extent_free_end ex' start sz c n" for ex' c n
    by (auto simp: ex_finish_def extent_free_end_def mutex_enter_def split: option.split)
  then have "ex_bind (extent_free_end ex' start sz c n) Ret = extent_free_end ex' start sz c n" for ex' c n
    by (simp add: ex_finish_def)
  then show ?thesis
    by (auto simp: ex_finish_def extent_free_def mutex_enter_def Let_def ex_bind_assoc split: option.split
      intro!: arg_cong [where f = "ex_bind _"] ext)
qed

lemma op_call_eq:
  "op_call diag pool ex (Op_region start sz flags) = as_result start (extent_alloc_region diag pool ex start sz flags)"
  "op_call diag pool ex (Op_sub a) = extent_alloc_subregion1 diag pool ex a"
  "op_call diag pool ex (Op_free start sz flags) = as_result start (extent_free diag pool ex start sz flags)"
proof -
  show "op_call diag pool ex (Op_region start sz flags) = as_result start (extent_alloc_region diag pool ex start sz flags)"
    by (auto simp: op_call_def op_start_def op_locked_def extent_alloc_region_def to_lock_def ex_finish_def as_result_bind_bind ex_bind_assoc
        check_error split: option.split sum.split intro!: arg_cong [where f = "ex_bind _"] ext)
  show "op_call diag pool ex (Op_sub a) = extent_alloc_subregion1 diag pool ex a"
    by (auto simp: op_call_def op_start_def op_locked_def extent_alloc_subregion1_def to_lock_def ex_finish_def ex_bind_assoc
        split: option.split sum.split intro!: arg_cong [where f = "ex_bind _"] ext)
  show "op_call diag pool ex (Op_free start sz flags) = as_result start (extent_free diag pool ex start sz flags)"
    by (subst extent_free_finish [symmetric], subst ex_finish_def, subst as_result_bind) (auto simp: op_call_def op_start_def op_locked_def extent_free_def to_lock_def ex_finish_def ex_bind_assoc Let_def mutex_enter_def
        split: option.split sum.split intro!: arg_cong [where f = "ex_bind _"] ext)
qed

section \<open>The system\<close>

text \<open>\<open>op_ok\<close>: the requests of the clients.  A range to be freed belongs to the call until it returns.\<close>

definition op_ok :: "extent \<Rightarrow> ex_op \<Rightarrow> bool" where
  "op_ok ex op = (case op of
     Op_region start sz flags \<Rightarrow> region_args ex start sz
   | Op_sub a \<Rightarrow> roomy ex a
   | Op_free start sz flags \<Rightarrow> region_args ex start sz)"

fun owns :: "ex_op \<Rightarrow> (nat \<times> nat) multiset" where
  "owns (Op_free start sz flags) = {#(unat start, unat sz)#}"
| "owns _ = {#}"

fun gains :: "ex_op \<Rightarrow> int + u64 \<Rightarrow> (nat \<times> nat) multiset" where
  "gains (Op_region start sz flags) (Inr x) = {#(unat x, unat sz)#}"
| "gains (Op_sub a) (Inr x) = {#(unat x, unat (sub_size a))#}"
| "gains (Op_free start sz flags) (Inl err) = {#(unat start, unat sz)#}"
| "gains _ _ = {#}"

record ex_sys =
  sx :: extent
  threads :: "(ex_op \<times> ex_pc) multiset"
  held :: "(nat \<times> nat) multiset"

definition owned :: "ex_sys \<Rightarrow> (nat \<times> nat) multiset" where
  "owned s = held s + (\<Sum>t \<in># threads s. owns (fst t))"

lemma owned_simps [simp]:
  "owned \<lparr>sx = ex, threads = {#}, held = H\<rparr> = H"
  "owned \<lparr>sx = ex, threads = add_mset t T, held = H\<rparr> = owns (fst t) + (H + (\<Sum>t \<in># T. owns (fst t)))"
  by (simp_all add: owned_def ac_simps)

definition op_run :: "bool \<Rightarrow> extent_region option \<Rightarrow> int \<Rightarrow> extent \<Rightarrow> ex_op \<Rightarrow> ex_pc \<Rightarrow>
    (extent_region option + (int + u64)) ex_res" where
  "op_run diag pool err ex op pc = (case pc of
     Start \<Rightarrow> op_start diag pool ex op
   | At_lock rp \<Rightarrow> map_ex_res Inr (op_locked diag ex op rp)
   | Asleep sl g \<Rightarrow> op_wake diag pool err ex op sl
   | Releasing rp r \<Rightarrow> Ret (extent_free_region_descriptor ex rp) (Inr r)
   | Hung \<Rightarrow> Stuck ex)"

text \<open>A sleeper runs after a broadcast (\<open>err\<close> is 0), or after a signal if it waits in \<open>cv_wait_sig\<close>.\<close>

fun runnable :: "extent \<Rightarrow> ex_op \<Rightarrow> ex_pc \<Rightarrow> int \<Rightarrow> bool" where
  "runnable ex op (Asleep sl g) err = (if err = 0 then g < ex_cv ex else flagged (op_flags op) EX_CATCH)"
| "runnable ex op Hung err = False"
| "runnable ex op _ err = (err = 0)"

inductive ex_step :: "bool \<Rightarrow> ex_sys \<Rightarrow> ex_sys \<Rightarrow> bool" for diag where
  call: "op_ok ex op \<Longrightarrow>
    ex_step diag \<lparr>sx = ex, threads = T, held = owns op + H\<rparr> \<lparr>sx = ex, threads = add_mset (op, Start) T, held = H\<rparr>"
| on: "runnable ex op pc err \<Longrightarrow> op_run diag pool err ex op pc = Ret ex' (Inl rp) \<Longrightarrow>
    ex_step diag \<lparr>sx = ex, threads = add_mset (op, pc) T, held = H\<rparr> \<lparr>sx = ex', threads = add_mset (op, At_lock rp) T, held = H\<rparr>"
| returns: "runnable ex op pc err \<Longrightarrow> op_run diag pool err ex op pc = Ret ex' (Inr res) \<Longrightarrow>
    ex_step diag \<lparr>sx = ex, threads = add_mset (op, pc) T, held = H\<rparr> \<lparr>sx = ex', threads = T, held = gains op res + H\<rparr>"
| sleeps: "runnable ex op pc err \<Longrightarrow> op_run diag pool err ex op pc = Sleep ex' sl \<Longrightarrow>
    ex_step diag \<lparr>sx = ex, threads = add_mset (op, pc) T, held = H\<rparr>
      \<lparr>sx = ex', threads = add_mset (op, Asleep sl (ex_cv ex')) T, held = H\<rparr>"
| unlocks: "runnable ex op pc err \<Longrightarrow> op_run diag pool err ex op pc = Unlocked ex' rp (Inr res) \<Longrightarrow>
    ex_step diag \<lparr>sx = ex, threads = add_mset (op, pc) T, held = H\<rparr>
      \<lparr>sx = ex', threads = add_mset (op, Releasing rp res) T, held = H\<rparr>"
| hangs: "runnable ex op pc err \<Longrightarrow> op_run diag pool err ex op pc = Stuck ex' \<Longrightarrow> \<not> ex_lock ex \<Longrightarrow>
    ex_step diag \<lparr>sx = ex, threads = add_mset (op, pc) T, held = H\<rparr> \<lparr>sx = ex', threads = add_mset (op, Hung) T, held = H\<rparr>"

definition ex_init :: "extent \<Rightarrow> ex_sys" where
  "ex_init ex = \<lparr>sx = ex, threads = {#}, held = {#}\<rparr>"

definition new_extent :: "extent \<Rightarrow> bool" where
  "new_extent ex \<longleftrightarrow> ex_regions ex = [] \<and> \<not> ex_lock ex"

lemma extent_create_new: "extent_create diag mem fsz rsz name start end' storage storagesize flags = Some (Some ex) \<Longrightarrow> new_extent ex"
  by (auto simp: extent_create_def new_extent_def Let_def split: if_splits option.splits)

section \<open>The ledger of an extent\<close>

definition accounts :: "extent \<Rightarrow> (nat \<times> nat) multiset \<Rightarrow> bool" where
  "accounts ex M \<longleftrightarrow> extent_ok ex \<and> apart M \<and> taken (ex_regions ex) = covered M \<and> (\<forall>p \<in># M. 0 < snd p) \<and>
     (\<not> coalescing ex \<longrightarrow> mset (map bounds (ex_regions ex)) = image_mset ends M)"

definition ex_area :: "extent \<Rightarrow> nat set" where
  "ex_area ex = {unat (ex_start ex)..unat (ex_end ex)}"

definition ex_grant :: "extent \<Rightarrow> nat \<times> nat \<Rightarrow> extent \<Rightarrow> bool" where
  "ex_grant ex p ex' \<longleftrightarrow> keeps ex ex' \<and> takes ex p ex'"

definition ex_give :: "extent \<Rightarrow> nat \<times> nat \<Rightarrow> extent \<Rightarrow> bool" where
  "ex_give ex p ex' \<longleftrightarrow> keeps ex ex' \<and> releases ex p ex'"

definition ex_quiet :: "extent \<Rightarrow> extent \<Rightarrow> bool" where
  "ex_quiet ex ex' \<longleftrightarrow> keeps ex ex' \<and> ex_regions ex' = ex_regions ex"

interpretation ex: range_ledger accounts ex_grant ex_give ex_quiet ex_area
proof
  fix e e' :: extent and M p
  assume "accounts e M" "ex_grant e p e'"
  then show "accounts e' (add_mset p M) \<and> ex_area e' = ex_area e"
    unfolding accounts_def ex_grant_def keeps_def takes_def ex_area_def by (auto simp: apart_add)
next
  fix e e' :: extent and M p
  assume a: "accounts e (add_mset p M)" "ex_give e p e'"
  have d: "rng p \<inter> covered M = {}" "apart M" using a(1) by (simp_all add: accounts_def apart_add)
  have "taken (ex_regions e') = covered M" using a d unfolding accounts_def ex_give_def releases_def by auto
  then show "accounts e' M \<and> ex_area e' = ex_area e"
    using a d unfolding accounts_def ex_give_def keeps_def releases_def ex_area_def by auto
next
  fix e e' :: extent and M
  assume "accounts e M" "ex_quiet e e'"
  then show "accounts e' M \<and> ex_area e' = ex_area e"
    unfolding accounts_def ex_quiet_def keeps_def extent_ok_def in_extent_def ex_area_def by auto
next
  fix e :: extent and M
  assume a: "accounts e M"
  then have "regions_ok (coalescing e) (ex_regions e)" "in_extent e" by (simp_all add: accounts_def extent_ok_def)
  then show "apart M \<and> covered M \<subseteq> ex_area e" using a in_extent_taken [of "coalescing e" e] by (auto simp: accounts_def ex_area_def)
qed

lemma accounts_freeable: "accounts ex M \<Longrightarrow> p \<in># M \<Longrightarrow> freeable ex p"
proof -
  assume a: "accounts ex M" "p \<in># M"
  have "ends p \<in> bounds ` set (ex_regions ex)" if "\<not> coalescing ex"
  proof -
    have "ends p \<in># mset (map bounds (ex_regions ex))" using a that by (auto simp: accounts_def)
    then show ?thesis by auto
  qed
  then show ?thesis using a covered_member [OF a(2)] by (auto simp: freeable_def accounts_def)
qed

section \<open>What a phase does\<close>

fun is_free :: "ex_op \<Rightarrow> bool" where
  "is_free (Op_free _ _ _) = True"
| "is_free _ = False"

text \<open>What holds of a thread between its steps.  A sleeper that has not been awakened has a reason to
  sleep.\<close>

definition waits_for_space :: "extent \<Rightarrow> ex_op \<Rightarrow> bool" where
  "waits_for_space ex op = (case op of
     Op_region start sz _ \<Rightarrow> rng (unat start, unat sz) \<inter> taken (ex_regions ex) \<noteq> {}
   | Op_sub a \<Rightarrow> boundary a = 0 \<longrightarrow> (\<forall>y. \<not> fit ex a y)
   | _ \<Rightarrow> True)"

definition pc_ok :: "extent \<Rightarrow> ex_op \<Rightarrow> ex_pc \<Rightarrow> bool" where
  "pc_ok ex op pc = (case pc of
     At_lock rp \<Rightarrow> is_free op \<longrightarrow> coalescing ex = (rp \<noteq> None)
   | Asleep At_descriptor g \<Rightarrow> g \<le> ex_cv ex \<and> flagged (ex_flags ex) EXF_FIXED \<and> (g = ex_cv ex \<longrightarrow> starved ex) \<and>
       (is_free op \<longrightarrow> coalescing ex)
   | Asleep (At_space rp) g \<Rightarrow> g \<le> ex_cv ex \<and> \<not> is_free op \<and> (g = ex_cv ex \<longrightarrow> waits_for_space ex op)
   | Releasing rp r \<Rightarrow> gains op r = owns op
   | _ \<Rightarrow> True)"

definition thread_ok :: "extent \<Rightarrow> ex_op \<times> ex_pc \<Rightarrow> bool" where
  "thread_ok ex t \<longleftrightarrow> op_ok ex (fst t) \<and> pc_ok ex (fst t) (snd t)"

definition settles :: "extent \<Rightarrow> extent \<Rightarrow> bool" where
  "settles ex ex' \<longleftrightarrow> keeps ex ex' \<and> calm ex ex' \<and> (ex_cv ex' = ex_cv ex \<longrightarrow> taken (ex_regions ex) \<subseteq> taken (ex_regions ex'))"

lemma op_ok_keeps: "keeps ex ex' \<Longrightarrow> op_ok ex' op = op_ok ex op"
  by (auto simp: op_ok_def region_args_def roomy_def sub_check_def keeps_def split: ex_op.split)

lemma thread_ok_settles:
  assumes "settles ex ex'" "thread_ok ex t"
  shows "thread_ok ex' t"
proof -
  obtain op pc where t: "t = (op, pc)" by fastforce
  have k: "keeps ex ex'" "ex_cv ex \<le> ex_cv ex'" "starved ex \<Longrightarrow> ex_cv ex' = ex_cv ex \<Longrightarrow> starved ex'"
    "ex_cv ex' = ex_cv ex \<Longrightarrow> taken (ex_regions ex) \<subseteq> taken (ex_regions ex')"
    using assms(1) by (auto simp: settles_def calm_def)
  have w: "waits_for_space ex op \<Longrightarrow> ex_cv ex' = ex_cv ex \<Longrightarrow> waits_for_space ex' op"
    using k(4) by (cases op) (auto simp: waits_for_space_def fit_def)
  have "pc_ok ex' op pc" using assms(2) k(1,2) k(3) w unfolding t thread_ok_def
    by (auto simp: pc_ok_def keeps_def split: ex_pc.splits sleeper.splits)
  then show ?thesis using assms(2) op_ok_keeps [OF k(1)] unfolding t thread_ok_def by simp
qed

abbreviation ex_ledger :: "extent \<times> (nat \<times> nat) multiset \<Rightarrow> extent \<times> (nat \<times> nat) multiset \<Rightarrow> bool" where
  "ex_ledger \<equiv> ledger_step ex_grant ex_give ex_quiet"

definition good :: "extent \<Rightarrow> ex_op \<Rightarrow> (extent_region option + (int + u64)) ex_res \<Rightarrow> bool" where
  "good ex op res = (case res of
     Ret ex' (Inl rp) \<Rightarrow> settles ex ex' \<and> ex_quiet ex ex' \<and> thread_ok ex' (op, At_lock rp)
   | Ret ex' (Inr r) \<Rightarrow> settles ex ex' \<and> (\<forall>M. ex_ledger (ex, owns op + M) (ex', gains op r + M))
   | Unlocked ex' rp (Inr r) \<Rightarrow> settles ex ex' \<and> ex_quiet ex ex' \<and> thread_ok ex' (op, Releasing rp r)
   | Sleep ex' sl \<Rightarrow> settles ex ex' \<and> ex_quiet ex ex' \<and> thread_ok ex' (op, Asleep sl (ex_cv ex'))
   | Stuck ex' \<Rightarrow> settles ex ex' \<and> ex_quiet ex ex'
   | _ \<Rightarrow> False)"

lemma settled_settles: "settled ex ex' \<Longrightarrow> ex_regions ex' = ex_regions ex \<Longrightarrow> settles ex ex' \<and> ex_quiet ex ex' \<and> \<not> ex_lock ex'"
  by (simp add: settled_def settles_def ex_quiet_def)

lemma got_descriptor_settled:
  "got_descriptor ex (Ret ex' rp) \<Longrightarrow> settled ex ex' \<and> ex_regions ex' = ex_regions ex"
  "got_descriptor ex (Sleep ex' sl) \<Longrightarrow> settled ex ex' \<and> ex_regions ex' = ex_regions ex \<and> sl = At_descriptor \<and> starved ex'"
  by (simp_all add: got_descriptor_def settled_def)

text \<open>A call that returns an error leaves the ledger as it is.\<close>

lemma quiet_return:
  assumes "settled ex ex'" "ex_regions ex' = ex_regions ex"
  shows "good ex op (Ret ex' (Inr (Inl err)))"
proof -
  have "gains op (Inl err) = owns op" by (cases op) auto
  then show ?thesis using settled_settles [OF assms] by (simp add: good_def ledger_step.quiet)
qed

lemma to_lock_good:
  assumes d: "got_descriptor ex res" and op: "op_ok ex op" "is_free op \<longrightarrow> coalescing ex"
  shows "good ex op (to_lock op res)"
proof (cases res)
  case (Ret ex' rp)
  note st = got_descriptor_settled(1) [OF d [unfolded Ret]]
  have k: "keeps ex ex'" using st by (simp add: settled_def)
  show ?thesis
  proof (cases "is_free op \<and> rp = None")
    case True
    then show ?thesis using quiet_return [of ex ex' op] st Ret by (cases op) (simp_all add: to_lock_def)
  next
    case False
    have "pc_ok ex' op (At_lock rp)" using False op(2) k by (auto simp: pc_ok_def keeps_def)
    then show ?thesis using False settled_settles [of ex ex'] st Ret op(1) op_ok_keeps [OF k]
      by (cases op) (auto simp: to_lock_def good_def thread_ok_def)
  qed
next
  case (Sleep ex' sl)
  note st = got_descriptor_settled(2) [OF d [unfolded Sleep]]
  have k: "keeps ex ex'" using st by (simp add: settled_def)
  then have "thread_ok ex' (op, Asleep sl (ex_cv ex'))"
    using st op op_ok_keeps [OF k] by (simp add: thread_ok_def pc_ok_def starved_def keeps_def)
  then show ?thesis using Sleep settled_settles [of ex ex'] st by (simp add: to_lock_def good_def)
qed (use d in \<open>simp_all add: got_descriptor_def\<close>)

lemma region_args_check:
  "region_args ex start sz \<Longrightarrow> alloc_region_check diag ex start sz = Some (Inr ()) \<and> free_check ex start sz"
  by (auto simp: region_args_def alloc_region_check_def free_check_def Let_def not_less)

lemma op_start_good:
  assumes "\<not> ex_lock ex" "op_ok ex op"
  shows "good ex op (op_start diag pool ex op)"
proof (cases op)
  case (Op_region start sz flags)
  then show ?thesis using to_lock_good [OF alloc_descriptor_law [OF assms(1), of pool flags] assms(2)] assms(2)
    by (simp add: op_start_def op_ok_def region_args_check)
next
  case (Op_sub a)
  then show ?thesis using to_lock_good [OF alloc_descriptor_law [OF assms(1), of pool "sub_flags a"] assms(2)] assms(2) roomyD(1) [of ex a]
    by (simp add: op_start_def op_ok_def)
next
  case (Op_free start sz flags)
  have same: "mutex_exit (ex\<lparr>ex_lock := True\<rparr>) = ex" using assms(1) by (simp add: mutex_exit_def)
  have "good ex op (Ret ex (Inl None))" if "\<not> coalescing ex"
    using that assms by (simp add: good_def settles_def ex_quiet_def thread_ok_def pc_ok_def)
  then show ?thesis using Op_free to_lock_good [OF alloc_descriptor_law [OF assms(1), of pool flags] assms(2)] assms
    by (simp add: op_start_def op_ok_def region_args_check mutex_enter_def Let_def same)
qed

lemma grant_return:
  assumes "settled ex ex'" "takes ex p ex'" "owns op = {#}" "gains op (Inr x) = {#p#}"
  shows "good ex op (Ret ex' (Inr (Inr x)))"
proof -
  have "ex_grant ex p ex'" using assms(1,2) by (simp add: ex_grant_def settled_def)
  moreover have "settles ex ex'" using assms(1,2) by (auto simp: settles_def settled_def takes_def)
  ultimately show ?thesis using assms(1,3,4) by (simp add: good_def settled_def ledger_step.grant)
qed

lemma space_sleep:
  assumes "settled ex ex'" "ex_regions ex' = ex_regions ex" "op_ok ex op" "\<not> is_free op" "waits_for_space ex op"
  shows "good ex op (Sleep ex' (At_space rp))"
proof -
  have k: "keeps ex ex'" using assms(1) by (simp add: settled_def)
  have "waits_for_space ex' op" using assms(2,5) by (auto simp: waits_for_space_def fit_def split: ex_op.splits)
  then have "thread_ok ex' (op, Asleep (At_space rp) (ex_cv ex'))"
    using assms(3,4) op_ok_keeps [OF k] by (simp add: thread_ok_def pc_ok_def)
  then show ?thesis using settled_settles [OF assms(1,2)] by (simp add: good_def)
qed

text \<open>A call that gives up: the descriptor is still to be released.\<close>

lemma unlock_good:
  assumes "settled ex ex'" "ex_regions ex' = ex_regions ex" "op_ok ex op"
  shows "good ex op (Unlocked ex' rp (Inr (Inl err)))"
proof -
  have k: "keeps ex ex'" using assms(1) by (simp add: settled_def)
  have "gains op (Inl err) = owns op" by (cases op) auto
  then have "thread_ok ex' (op, Releasing rp (Inl err))" using assms(3) op_ok_keeps [OF k] by (simp add: thread_ok_def pc_ok_def)
  then show ?thesis using settled_settles [OF assms(1,2)] by (simp add: good_def)
qed

abbreviation in_phase :: "(int + u64) ex_res \<Rightarrow> (extent_region option + (int + u64)) ex_res" where
  "in_phase \<equiv> map_ex_res Inr"

lemma region_locked_good:
  assumes ok: "extent_ok ex" and a: "region_args ex start sz"
  shows "good ex (Op_region start sz flags) (in_phase (as_result start (alloc_region_locked (ex\<lparr>ex_lock := True\<rparr>) start sz flags rp)))"
proof -
  let ?op = "Op_region start sz flags" and ?ex = "ex\<lparr>ex_lock := True\<rparr>"
  have opk: "op_ok ex ?op" using a by (simp add: op_ok_def)
  have law: "ends_as ?ex (alloc_region_locked ?ex start sz flags rp)
    (\<lambda>ex' err. if err = 0 then takes ?ex (unat start, unat sz) ex'
       else err = EAGAIN \<and> \<not> flagged flags EX_WAITSPACE \<and> ex_regions ex' = ex_regions ?ex \<and>
         rng (unat start, unat sz) \<inter> taken (ex_regions ?ex) \<noteq> {})
    (\<lambda>sl. sl = At_space rp \<and> flagged flags EX_WAITSPACE \<and> rng (unat start, unat sz) \<inter> taken (ex_regions ?ex) \<noteq> {})"
    by (rule alloc_region_locked_law) (use ok a in simp_all)
  show ?thesis
  proof (cases "alloc_region_locked ?ex start sz flags rp")
    case (Ret ex' err)
    then have st: "settled ex ex'" using law by simp
    show ?thesis
    proof (cases "err = 0")
      case True
      then show ?thesis using Ret law grant_return [OF st, of "(unat start, unat sz)" ?op start] by simp
    next
      case False
      then show ?thesis using Ret law quiet_return [OF st, of ?op err] by simp
    qed
  next
    case (Sleep ex' sl)
    then show ?thesis using law space_sleep [of ex ex' ?op rp] opk by (simp add: waits_for_space_def)
  next
    case (Unlocked ex' rp' err)
    then have "err \<noteq> 0" by (auto simp: alloc_region_locked_def split: option.splits if_splits)
    then show ?thesis using Unlocked law unlock_good [of ex ex' ?op rp' err] opk by simp
  qed (use law in simp_all)
qed

lemma subregion_end_good:
  assumes ok: "extent_ok ex" "\<not> ex_lock ex" and a: "roomy ex a"
  shows "good ex (Op_sub a) (in_phase (alloc_subregion_end diag ex a (Some rp)))"
proof -
  let ?op = "Op_sub a"
  note law = alloc_subregion_end_law [OF ok a, of diag rp]
  show ?thesis
  proof (cases "alloc_subregion_end diag ex a (Some rp)")
    case (Ret ex' res)
    then have st: "settled ex ex'" using law by simp
    show ?thesis
    proof (cases res)
      case (Inr x)
      then show ?thesis using Ret law grant_return [OF st, of "(unat x, unat (sub_size a))" ?op x] by simp
    next
      case (Inl err)
      then show ?thesis using Ret law quiet_return [OF st, of ?op err] by simp
    qed
  next
    case (Sleep ex' sl)
    then show ?thesis using law space_sleep [of ex ex' ?op rp] a by (simp add: op_ok_def waits_for_space_def)
  next
    case (Unlocked ex' rp' res)
    then obtain err where "res = Inl err"
      by (auto simp: alloc_subregion_end_def mutex_enter_def Let_def split: option.splits if_splits)
    then show ?thesis using Unlocked law unlock_good [of ex ex' ?op rp' err] a by (simp add: op_ok_def)
  qed (use law in simp_all)
qed

lemma free_end_good:
  assumes ok: "extent_ok ex" "\<not> ex_lock ex" and a: "region_args ex start sz" and n: "coalescing ex = (rp \<noteq> None)"
    and fr: "freeable ex (unat start, unat sz)"
  shows "good ex (Op_free start sz flags) (in_phase (as_result start (extent_free_end ex start sz (rp \<noteq> None) rp)))"
proof -
  have a': "1 \<le> sz" "start \<le> start + (sz - 1)" using a by (simp_all add: region_args_def)
  obtain ex' where e: "extent_free_end ex start sz (rp \<noteq> None) rp = Ret ex' 0" "settled ex ex'"
    "releases ex (unat start, unat sz) ex'" "ex_cv ex < ex_cv ex'"
    using extent_free_end_law [OF ok a' n fr] n by auto
  have "ex_give ex (unat start, unat sz) ex'" using e by (simp add: ex_give_def settled_def)
  then have "ex_ledger (ex, owns (Op_free start sz flags) + M) (ex', gains (Op_free start sz flags) (Inr start) + M)" for M
    by (simp add: ledger_step.give)
  then show ?thesis using e by (simp add: good_def settles_def settled_def)
qed

lemma op_locked_good:
  assumes acc: "accounts ex (owns op + M)" and l: "\<not> ex_lock ex" and t: "thread_ok ex (op, At_lock rp)"
  shows "good ex op (in_phase (op_locked diag ex op rp))"
proof -
  have ok: "extent_ok ex" using acc by (simp add: accounts_def)
  have self: "settled ex ex" using l by (simp add: settled_def)
  have opk: "op_ok ex op" using t by (simp add: thread_ok_def)
  show ?thesis
  proof (cases op)
    case (Op_region start sz flags)
    then show ?thesis using region_locked_good [OF ok, of start sz flags] opk l quiet_return [OF self, of op ENOMEM]
      by (cases rp) (simp_all add: op_locked_def alloc_region_end_def mutex_enter_def op_ok_def)
  next
    case (Op_sub a)
    then show ?thesis using subregion_end_good [OF ok l, of a diag] opk quiet_return [OF self, of op ENOMEM]
      by (cases rp) (simp_all add: op_locked_def op_ok_def, simp add: alloc_subregion_end_def)
  next
    case (Op_free start sz flags)
    have "freeable ex (unat start, unat sz)" by (rule accounts_freeable [OF acc]) (simp add: Op_free)
    then show ?thesis using free_end_good [OF ok l, of start sz rp flags] t Op_free
      by (simp add: op_locked_def op_ok_def thread_ok_def pc_ok_def)
  qed
qed

lemma op_wake_good:
  assumes acc: "accounts ex (owns op + M)" and l: "\<not> ex_lock ex" and t: "thread_ok ex (op, Asleep sl g)"
  shows "good ex op (op_wake diag pool err ex op sl)"
proof -
  have ok: "extent_ok ex" using acc by (simp add: accounts_def)
  have opk: "op_ok ex op" using t by (simp add: thread_ok_def)
  show ?thesis
  proof (cases sl)
    case At_descriptor
    then have "flagged (ex_flags ex) EXF_FIXED" "is_free op \<longrightarrow> coalescing ex" using t by (simp_all add: thread_ok_def pc_ok_def)
    then show ?thesis using to_lock_good [OF descriptor_wake_law [OF l] opk] At_descriptor by (simp add: op_wake_def)
  next
    case (At_space rp)
    let ?ex = "ex\<lparr>ex_lock := True\<rparr>"
    have q: "good ex op (Unlocked (mutex_exit ?ex) rp (Inr (Inl err)))"
      by (rule unlock_good) (use settledI(2) [of ?ex] opk in simp_all)
    have stuck: "good ex op (Stuck ?ex)" by (simp add: good_def settles_def ex_quiet_def)
    show ?thesis
    proof (cases op)
      case (Op_region start sz flags)
      then show ?thesis using At_space region_locked_good [OF ok, of start sz flags rp] opk l q
        by (simp add: op_wake_def op_ok_def alloc_region_wake_def mutex_enter_def)
    next
      case (Op_sub a)
      then show ?thesis using At_space l q stuck
        by (simp add: op_wake_def alloc_subregion_wake_def alloc_subregion_end_def mutex_enter_def)
    qed (use t At_space in \<open>simp add: thread_ok_def pc_ok_def\<close>)
  qed
qed

text \<open>The release needs no lock.\<close>

lemma release_good:
  assumes "thread_ok ex (op, Releasing rp r)"
  shows "good ex op (Ret (extent_free_region_descriptor ex rp) (Inr r))"
proof -
  let ?ex = "extent_free_region_descriptor ex rp"
  have "ex_regions ?ex = ex_regions ex" by (simp add: extent_free_region_descriptor_def cv_broadcast_def Let_def)
  then have "settles ex ?ex" "ex_quiet ex ?ex" by (simp_all add: settles_def ex_quiet_def)
  then show ?thesis using assms by (simp add: good_def thread_ok_def pc_ok_def ledger_step.quiet)
qed

lemma op_run_good:
  assumes "accounts ex (owns op + M)" "\<not> ex_lock ex" "thread_ok ex (op, pc)"
  shows "good ex op (op_run diag pool err ex op pc)"
proof (cases pc)
  case Start
  then show ?thesis using op_start_good [of ex op] assms by (simp add: op_run_def thread_ok_def)
next
  case (At_lock rp)
  then show ?thesis using op_locked_good [OF assms(1,2)] assms(3) by (simp add: op_run_def)
next
  case (Asleep sl g)
  then show ?thesis using op_wake_good [OF assms(1,2)] assms(3) by (simp add: op_run_def)
next
  case (Releasing rp r)
  then show ?thesis using release_good assms(3) by (simp add: op_run_def)
qed (simp add: op_run_def good_def settles_def ex_quiet_def)

lemma op_run_locked:
  assumes "ex_lock ex" "thread_ok ex (op, pc)" "\<nexists>rp r. pc = Releasing rp r"
  shows "op_run diag pool err ex op pc = Stuck ex \<or> op_run diag pool err ex op pc = Ret ex (Inr (Inl ENOMEM))"
proof -
  have m: "mutex_enter ex = Stuck ex" using assms(1) by (simp add: mutex_enter_def)
  have d: "extent_alloc_region_descriptor pool ex flags = Stuck ex" "descriptor_wake pool ex flags err = Stuck ex" for flags
    by (simp_all add: extent_alloc_region_descriptor_def descriptor_wake_def m)
  show ?thesis
  proof (cases pc)
    case Start
    then show ?thesis using assms(2) roomyD(1)
      by (cases op) (auto simp: op_run_def op_start_def thread_ok_def op_ok_def region_args_check to_lock_def d m)
  next
    case (At_lock rp)
    then show ?thesis
      by (cases op; cases rp) (simp_all add: op_run_def op_locked_def alloc_region_end_def alloc_subregion_end_def extent_free_end_def m)
  next
    case (Asleep sl g)
    then show ?thesis using assms(2)
      by (cases sl; cases op) (simp_all add: op_run_def op_wake_def to_lock_def d m alloc_region_wake_def alloc_subregion_wake_def
        thread_ok_def pc_ok_def)
  qed (use assms(3) in \<open>simp_all add: op_run_def\<close>)
qed

section \<open>The invariant of the system\<close>

definition ex_inv :: "ex_sys \<Rightarrow> bool" where
  "ex_inv s \<longleftrightarrow> accounts (sx s) (owned s) \<and> (\<forall>t \<in># threads s. thread_ok (sx s) t)"

lemma good_result:
  assumes "ex_inv \<lparr>sx = ex, threads = add_mset (op, pc) T, held = H\<rparr>" "op_run diag pool err ex op pc = r"
    "r \<noteq> Stuck ex \<or> \<not> ex_lock ex"
  shows "good ex op r \<or> ex_lock ex \<and> r = Ret ex (Inr (Inl ENOMEM))"
proof -
  have t: "thread_ok ex (op, pc)" and acc: "accounts ex (owns op + (H + (\<Sum>t \<in># T. owns (fst t))))"
    using assms(1) by (auto simp: ex_inv_def)
  show ?thesis
  proof (cases "\<exists>rp r. pc = Releasing rp r")
    case True
    then show ?thesis using release_good t assms(2) by (auto simp: op_run_def)
  next
    case False
    then show ?thesis using op_run_good [OF acc _ t] op_run_locked [OF _ t] assms(2,3) by fastforce
  qed
qed

lemma others_ok:
  assumes "ex_inv \<lparr>sx = ex, threads = add_mset t T, held = H\<rparr>" "settles ex ex'"
  shows "\<forall>t \<in># T. thread_ok ex' t"
  using assms thread_ok_settles by (auto simp: ex_inv_def)

text \<open>Every step is a step of the ledger and keeps what holds of the threads.\<close>

lemma ex_step_ledger:
  assumes "ex_step diag s s'" "ex_inv s"
  shows "ex_ledger (sx s, owned s) (sx s', owned s') \<and> (\<forall>t \<in># threads s'. thread_ok (sx s') t)"
  using assms
proof cases
  case (call ex op T H)
  have "ex_quiet ex ex" by (simp add: ex_quiet_def)
  moreover have "owned s' = owned s" using call by (simp add: owned_def ac_simps)
  ultimately show ?thesis using call assms(2) by (auto simp: ledger_step.quiet ex_inv_def thread_ok_def pc_ok_def)
next
  case (on ex op pc err pool ex' rp T H)
  have "good ex op (Ret ex' (Inl rp))" using good_result [OF assms(2) [unfolded on(1)] on(4)] by auto
  then have g: "settles ex ex'" "ex_quiet ex ex'" "thread_ok ex' (op, At_lock rp)" by (simp_all add: good_def)
  then show ?thesis using on others_ok [OF assms(2) [unfolded on(1)] g(1)] by (simp add: ledger_step.quiet)
next
  case (returns ex op pc err pool ex' res T H)
  consider "good ex op (Ret ex' (Inr res))" | "ex' = ex" "res = Inl ENOMEM"
    using good_result [OF assms(2) [unfolded returns(1)] returns(4)] by auto
  then have g: "settles ex ex' \<and> (\<forall>M. ex_ledger (ex, owns op + M) (ex', gains op res + M))"
  proof cases
    case 2
    have "gains op res = owns op" using 2 by (cases op) auto
    then show ?thesis using 2 by (simp add: settles_def ledger_step.quiet ex_quiet_def)
  qed (simp add: good_def)
  have "owned s' = gains op res + (H + (\<Sum>t \<in># T. owns (fst t)))" using returns by (simp add: owned_def ac_simps)
  then show ?thesis using g returns others_ok [OF assms(2) [unfolded returns(1)]] by simp
next
  case (sleeps ex op pc err pool ex' sl T H)
  have "good ex op (Sleep ex' sl)" using good_result [OF assms(2) [unfolded sleeps(1)] sleeps(4)] by auto
  then have g: "settles ex ex'" "ex_quiet ex ex'" "thread_ok ex' (op, Asleep sl (ex_cv ex'))" by (simp_all add: good_def)
  then show ?thesis using sleeps others_ok [OF assms(2) [unfolded sleeps(1)] g(1)] by (simp add: ledger_step.quiet)
next
  case (unlocks ex op pc err pool ex' rp res T H)
  have "good ex op (Unlocked ex' rp (Inr res))" using good_result [OF assms(2) [unfolded unlocks(1)] unlocks(4)] by auto
  then have g: "settles ex ex'" "ex_quiet ex ex'" "thread_ok ex' (op, Releasing rp res)" by (simp_all add: good_def)
  then show ?thesis using unlocks others_ok [OF assms(2) [unfolded unlocks(1)] g(1)] by (simp add: ledger_step.quiet)
next
  case (hangs ex op pc err pool ex' T H)
  have "good ex op (Stuck ex')" using good_result [OF assms(2) [unfolded hangs(1)] hangs(4)] hangs(5) by auto
  then have g: "settles ex ex'" "ex_quiet ex ex'" by (simp_all add: good_def)
  have "thread_ok ex (op, pc)" using assms(2) hangs(1) by (simp add: ex_inv_def)
  then have "thread_ok ex' (op, Hung)" using g(2) op_ok_keeps [of ex ex' op] by (simp add: thread_ok_def pc_ok_def ex_quiet_def)
  then show ?thesis using hangs g others_ok [OF assms(2) [unfolded hangs(1)] g(1)] by (simp add: ledger_step.quiet)
qed

lemma ex_step_inv: "ex_step diag s s' \<Longrightarrow> ex_inv s \<Longrightarrow> ex_inv s'"
  using ex_step_ledger [of diag s s'] ex.step_fits [of "sx s" "owned s" "sx s'" "owned s'"] by (simp add: ex_inv_def)

lemma ex_init_inv: "new_extent ex \<Longrightarrow> ex_inv (ex_init ex)"
  by (simp add: ex_inv_def ex_init_def new_extent_def accounts_def extent_ok_def in_extent_def)

lemma ledger_keeps: "ex_ledger p q \<Longrightarrow> keeps (fst p) (fst q)"
  by (induction rule: ledger_step.induct) (simp_all add: ex_grant_def ex_give_def ex_quiet_def)

lemma ex_history_ledger:
  assumes "(ex_step diag)\<^sup>*\<^sup>* s s'" "ex_inv s"
  shows "ex_ledger\<^sup>*\<^sup>* (sx s, owned s) (sx s', owned s') \<and> ex_inv s'"
  using assms
proof (induction rule: rtranclp_induct)
  case (step y z)
  then show ?case using ex_step_ledger [of diag y z] ex_step_inv [of diag y z] by (auto intro: rtranclp.rtrancl_into_rtrancl)
qed simp

text \<open>The fixed fields never change.\<close>

lemma ex_history_keeps:
  assumes "(ex_step diag)\<^sup>*\<^sup>* s s'" "ex_inv s"
  shows "keeps (sx s) (sx s')"
proof -
  have "ex_ledger\<^sup>*\<^sup>* (sx s, owned s) (sx s', owned s')" using ex_history_ledger [OF assms] by simp
  then have "keeps (fst (sx s, owned s)) (fst (sx s', owned s'))"
    by (induction rule: rtranclp_induct) (auto dest: ledger_keeps intro: keeps_trans)
  then show ?thesis by simp
qed

end
