(* ===== verification/Extent_Theorems.thy ===== *)
theory Extent_Theorems
  imports Extent_System
begin

text \<open>
  The properties of the extent manager: no overlap in any interleaving and no lost wakeup, for
  extents that are not fixed; where an allocation in a subregion is placed and when it fails; the
  region operations as operations on the set of taken addresses; and what goes wrong at the top of
  the address space and after a wait for space.
\<close>

section \<open>Whole calls\<close>

text \<open>Facts that depend only on the regions and on the fixed fields of an extent.\<close>

lemma frame_eq:
  assumes "keeps ex ex'" "ex_regions ex' = ex_regions ex"
  shows "extent_ok ex' = extent_ok ex" "roomy ex' a = roomy ex a" "fit ex' = fit ex" "no_cross ex' = no_cross ex"
    "lines_aligned ex' = lines_aligned ex" "takes ex' = takes ex" "region_args ex' = region_args ex" "releases ex' = releases ex"
    "freeable ex' = freeable ex"
  using assms by (auto simp: extent_ok_def in_extent_def roomy_def sub_check_def fit_def no_cross_def lines_aligned_def origin_def
    takes_def releases_def region_args_def freeable_def keeps_def fun_eq_iff)

text \<open>When there is no descriptor to be had, and when a call has to wait for one.\<close>

definition no_descriptor :: "extent \<Rightarrow> extent_region option \<Rightarrow> u32 \<Rightarrow> bool" where
  "no_descriptor ex pool flags \<longleftrightarrow>
     (if flagged (ex_flags ex) EXF_FIXED
      then fex_freelist ex = [] \<and> (if flagged flags EX_MALLOCOK then pool = None else \<not> flagged flags EX_WAITOK)
      else pool = None)"

definition descriptor_wait :: "extent \<Rightarrow> u32 \<Rightarrow> bool" where
  "descriptor_wait ex flags \<longleftrightarrow> flagged (ex_flags ex) EXF_FIXED \<and> fex_freelist ex = [] \<and>
     \<not> flagged flags EX_MALLOCOK \<and> flagged flags EX_WAITOK"

lemma alloc_descriptor_why:
  assumes "\<not> ex_lock ex"
  shows "extent_alloc_region_descriptor pool ex flags = Ret ex1 None \<Longrightarrow> no_descriptor ex pool flags"
    "extent_alloc_region_descriptor pool ex flags = Sleep ex1 sl \<Longrightarrow> descriptor_wait ex flags"
  using assms by (auto simp: extent_alloc_region_descriptor_def mutex_enter_def mutex_exit_def descriptor_loop_def pool_descriptor_def
    no_descriptor_def descriptor_wait_def Let_def split: if_splits list.splits)

lemma descriptor_cases:
  assumes "\<not> ex_lock ex"
  obtains (got) ex1 rp where "extent_alloc_region_descriptor pool ex flags = Ret ex1 (Some rp)" "keeps ex ex1" "ex_regions ex1 = ex_regions ex" "\<not> ex_lock ex1"
  | (none) ex1 where "extent_alloc_region_descriptor pool ex flags = Ret ex1 None" "ex_regions ex1 = ex_regions ex" "no_descriptor ex pool flags"
  | (sleeps) ex1 where "extent_alloc_region_descriptor pool ex flags = Sleep ex1 At_descriptor" "ex_regions ex1 = ex_regions ex"
      "descriptor_wait ex flags"
proof -
  note d = alloc_descriptor_law [OF assms, of pool flags]
  show ?thesis
  proof (cases "extent_alloc_region_descriptor pool ex flags")
    case (Ret ex1 rp)
    then show ?thesis using d got none alloc_descriptor_why(1) [OF assms] by (cases rp) (auto simp: got_descriptor_def)
  next
    case (Sleep ex1 sl)
    then show ?thesis using d sleeps alloc_descriptor_why(2) [OF assms] by (auto simp: got_descriptor_def)
  qed (use d in \<open>simp_all add: got_descriptor_def\<close>)
qed

lemma release_regions [simp]: "ex_regions (extent_free_region_descriptor ex rp) = ex_regions ex"
  by (simp add: extent_free_region_descriptor_def cv_broadcast_def Let_def)

lemma ex_finish_simps [simp]:
  "ex_finish (Ret ex x) = Ret ex x" "ex_finish (Sleep ex sl) = Sleep ex sl"
  "ex_finish (Unlocked ex rp x) = Ret (extent_free_region_descriptor ex rp) x"
  "ex_finish Panic = Panic" "ex_finish (Stuck ex) = Stuck ex"
  by (simp_all add: ex_finish_def)

lemma takes_fit:
  "takes ex (x, unat (sub_size a)) ex' \<Longrightarrow> unat (substart a) \<le> x \<Longrightarrow> x + unat (sub_size a) \<le> unat (subend a) + 1 \<Longrightarrow>
    aligned a x \<Longrightarrow> fit ex a x"
  by (simp add: fit_def takes_def rng_def)

lemma region_unlocked: "alloc_region_locked ex start sz flags rp = Unlocked ex' rp' err \<Longrightarrow> err = EAGAIN"
  by (auto simp: alloc_region_locked_def split: option.splits if_splits)

text \<open>The two region operations as whole calls: every way they can end.\<close>

lemma alloc_region_whole:
  assumes ok: "extent_ok ex" "\<not> ex_lock ex" and a: "region_args ex start sz"
  defines "R \<equiv> rng (unat start, unat sz)" and "A \<equiv> taken (ex_regions ex)"
  shows "case extent_alloc_region diag pool ex start sz flags of
      Ret ex' err \<Rightarrow> err = 0 \<and> R \<inter> A = {} \<and> extent_ok ex' \<and> taken (ex_regions ex') = A \<union> R \<or>
        err = EAGAIN \<and> R \<inter> A \<noteq> {} \<and> \<not> flagged flags EX_WAITSPACE \<and> ex_regions ex' = ex_regions ex \<or>
        err = ENOMEM \<and> no_descriptor ex pool flags \<and> ex_regions ex' = ex_regions ex
    | Sleep ex' sl \<Rightarrow> ex_regions ex' = ex_regions ex \<and>
        (if sl = At_descriptor then descriptor_wait ex flags else R \<inter> A \<noteq> {} \<and> flagged flags EX_WAITSPACE)
    | _ \<Rightarrow> False"
  using ok(2)
proof (cases rule: descriptor_cases [where pool = pool and flags = flags, consumes 1])
  case (got ex1 rp)
  note eq = frame_eq [OF got(2,3)]
  let ?ex = "ex1\<lparr>ex_lock := True\<rparr>"
  have call: "extent_alloc_region diag pool ex start sz flags = ex_finish (alloc_region_locked ?ex start sz flags rp)"
    using got a by (simp add: extent_alloc_region_def region_args_check alloc_region_end_def mutex_enter_def)
  have "extent_ok ?ex" "region_args ?ex start sz" using ok a by (simp_all add: eq)
  from alloc_region_locked_law [OF this, of flags rp] show ?thesis unfolding call R_def A_def
    by (cases "alloc_region_locked ?ex start sz flags rp") (auto simp: got(3) eq takes_def dest: region_unlocked split: if_splits)
qed (use a in \<open>auto simp: extent_alloc_region_def region_args_check alloc_region_end_def\<close>)

lemma extent_free_call:
  assumes "\<not> ex_lock ex" "region_args ex start sz"
  shows "extent_free diag pool ex start sz flags =
    (if coalescing ex
     then ex_bind (extent_alloc_region_descriptor pool ex flags) (\<lambda>ex nrp.
       case nrp of None \<Rightarrow> Ret ex ENOMEM | Some nrp \<Rightarrow> extent_free_end ex start sz True (Some nrp))
     else extent_free_end ex start sz False None)"
proof -
  have "mutex_exit (ex\<lparr>ex_lock := True\<rparr>) = ex" using assms(1) by (simp add: mutex_exit_def)
  then show ?thesis using assms by (simp add: extent_free_def region_args_check mutex_enter_def Let_def)
qed

text \<open>The part of a free after the descriptor: it succeeds if the range can be freed and panics otherwise.\<close>

lemma free_end_cases:
  assumes ok: "extent_ok ex" "\<not> ex_lock ex" and a: "region_args ex start sz" and n: "coalescing ex = (n \<noteq> None)"
  shows "if freeable ex (unat start, unat sz)
    then \<exists>ex'. extent_free_end ex start sz (n \<noteq> None) n = Ret ex' 0 \<and> releases ex (unat start, unat sz) ex'
    else extent_free_end ex start sz (n \<noteq> None) n = Panic"
proof (cases "freeable ex (unat start, unat sz)")
  case True
  have a': "1 \<le> sz" "start \<le> start + (sz - 1)" using a by (simp_all add: region_args_def)
  from extent_free_end_law [OF ok a' n True] show ?thesis using True n by auto
next
  case False
  have a': "1 \<le> sz" "start \<le> start + (sz - 1)" using a by (simp_all add: region_args_def)
  have "free_loop (n \<noteq> None) (ex_regions ex) start (start + (sz - 1)) n = None"
  proof (rule ccontr)
    assume "free_loop (n \<noteq> None) (ex_regions ex) start (start + (sz - 1)) n \<noteq> None"
    then obtain x where "free_loop (n \<noteq> None) (ex_regions ex) start (start + (sz - 1)) n = Some x" by blast
    from free_loop_taken [OF this a'(2)] show False
      using False n region_end(2,4) [OF a'] by (auto simp: freeable_def ends_def split: if_splits)
  qed
  then show ?thesis using False ok(2) by (simp add: extent_free_end_def mutex_enter_def)
qed

lemma extent_free_whole:
  assumes ok: "extent_ok ex" "\<not> ex_lock ex" and a: "region_args ex start sz"
  shows "case extent_free diag pool ex start sz flags of
      Ret ex' err \<Rightarrow> err = 0 \<and> freeable ex (unat start, unat sz) \<and> releases ex (unat start, unat sz) ex' \<or>
        err = ENOMEM \<and> coalescing ex \<and> no_descriptor ex pool flags \<and> ex_regions ex' = ex_regions ex
    | Sleep ex' sl \<Rightarrow> sl = At_descriptor \<and> coalescing ex \<and> descriptor_wait ex flags \<and> ex_regions ex' = ex_regions ex
    | Panic \<Rightarrow> \<not> freeable ex (unat start, unat sz)
    | _ \<Rightarrow> False"
proof (cases "coalescing ex")
  case False
  then show ?thesis using free_end_cases [OF ok a, of None] extent_free_call [OF ok(2) a] by (auto split: if_splits)
next
  case True
  note call = extent_free_call [OF ok(2) a, of diag pool flags]
  from ok(2) show ?thesis
  proof (cases rule: descriptor_cases [where pool = pool and flags = flags, consumes 1])
    case (got ex1 rp)
    note eq = frame_eq [OF got(2,3)]
    have "extent_ok ex1" "region_args ex1 start sz" "coalescing ex1" using ok a True got(2) eq by (simp_all add: keeps_def)
    then show ?thesis using free_end_cases [of ex1 start sz "Some rp"] got True call by (auto simp: eq split: if_splits)
  qed (use True call in auto)
qed

lemma subregion_unlocked: "alloc_subregion_end diag ex a rp = Unlocked ex' rp' res \<Longrightarrow> res = Inl EAGAIN"
  by (auto simp: alloc_subregion_end_def mutex_enter_def Let_def split: option.splits if_splits)

section \<open>Properties\<close>

text \<open>C6. No address is handed out twice.  Whatever threads call the operations of an extent that is
  not fixed (one created without storage, whose descriptors come from the pool), and however their
  calls interleave, sleep, are awakened or are interrupted, the ranges handed out share no address
  and lie in the extent, the region list takes exactly their addresses, and no thread can run into a
  panic.  The calls are those of \<open>op_ok\<close>: their arguments pass the checks of the functions, a range
  is freed only by a thread that was given it, and a subregion allocation has power-of-two alignment
  and boundary and \<open>ex_end + alignment < 2^64\<close>; beyond that bound \<open>extent_align_wraps\<close> shows an
  overlap.  A fixed extent is left out because its free list is written without the lock.\<close>

theorem extent_no_overlap:
  assumes "new_extent ex" "\<not> flagged (ex_flags ex) EXF_FIXED" "(ex_step diag)\<^sup>*\<^sup>* (ex_init ex) s"
  shows "apart (owned s) \<and> covered (owned s) \<subseteq> {unat (ex_start ex)..unat (ex_end ex)} \<and>
    taken (ex_regions (sx s)) = covered (owned s) \<and>
    (\<forall>(op, pc) \<in># threads s. \<forall>pool err. op_run diag pool err (sx s) op pc \<noteq> Panic)"
proof -
  have h: "ex_ledger\<^sup>*\<^sup>* (ex, {#}) (sx s, owned s)" "ex_inv s"
    using ex_history_ledger [OF assms(3) ex_init_inv [OF assms(1)]] by (simp_all add: ex_init_def)
  have "accounts ex {#}" using ex_init_inv [OF assms(1)] by (simp add: ex_inv_def ex_init_def)
  note a = ex.history_apart [OF h(1) this]
  have "op_run diag pool err (sx s) op pc \<noteq> Panic" if t: "(op, pc) \<in># threads s" for op pc pool err
  proof -
    obtain T where T: "threads s = add_mset (op, pc) T" using t by (metis multi_member_split)
    have "ex_inv \<lparr>sx = sx s, threads = add_mset (op, pc) T, held = held s\<rparr>" using h(2) T by (simp add: ex_inv_def owned_def)
    from good_result [OF this refl, of diag pool err] show ?thesis by (auto simp: good_def)
  qed
  then show ?thesis using a h(2) by (auto simp: ex_inv_def accounts_def ex_area_def)
qed

text \<open>C21. No wakeup is lost in an extent that is not fixed.  In every reachable state a thread that
  sleeps and has not been awakened waits for space and has to: if it asked for a given region, an
  address of the region is taken; if it asked for a place in a subregion without a boundary, no
  aligned start leaves room for the request.  The calls are those of \<open>extent_no_overlap\<close>; nothing
  is claimed of a request with a boundary, nor of what the awakened thread does
  (\<open>extent_waitspace_self_lock\<close>).\<close>

theorem extent_no_lost_wakeup:
  assumes "new_extent ex" "\<not> flagged (ex_flags ex) EXF_FIXED" "(ex_step diag)\<^sup>*\<^sup>* (ex_init ex) s"
    "(op, Asleep sl g) \<in># threads s" "\<not> g < ex_cv (sx s)"
  shows "(\<exists>start sz flags. op = Op_region start sz flags \<and> {unat start..<unat start + unat sz} \<inter> taken (ex_regions (sx s)) \<noteq> {}) \<or>
    (\<exists>a. op = Op_sub a \<and> (boundary a = 0 \<longrightarrow> (\<forall>y. \<not> fit (sx s) a y)))"
proof -
  have i: "ex_inv (ex_init ex)" by (rule ex_init_inv [OF assms(1)])
  note h = ex_history_ledger [OF assms(3) i]
  have "flagged (ex_flags (sx s)) EXF_FIXED = flagged (ex_flags ex) EXF_FIXED"
    using ex_history_keeps [OF assms(3) i] by (simp add: keeps_def ex_init_def)
  moreover have t: "thread_ok (sx s) (op, Asleep sl g)" using h assms(4) by (auto simp: ex_inv_def)
  ultimately obtain rp where sl: "sl = At_space rp" using assms(2) by (cases sl) (auto simp: thread_ok_def pc_ok_def)
  then have "g = ex_cv (sx s)" using t assms(5) by (auto simp: thread_ok_def pc_ok_def)
  then show ?thesis using t sl by (cases op) (auto simp: thread_ok_def pc_ok_def waits_for_space_def rng_def)
qed

text \<open>C22. Where a subregion allocation is placed.  For arguments that pass the checks, alignment and
  boundary powers of two, and \<open>ex_end + alignment < 2^64\<close> (\<open>roomy\<close>; \<open>extent_align_wraps\<close> shows what
  happens beyond), a call that no other thread disturbs and that returns a range returns one that
  lies in the subregion, was free, crosses no boundary line, and is aligned whenever the boundary
  lines are; an error leaves the regions as they are, and up to its return or its sleep the call
  neither panics nor blocks on the lock.\<close>

theorem extent_alloc_subregion_places:
  assumes "extent_ok ex" "\<not> ex_lock ex" "roomy ex a"
  shows "case extent_alloc_subregion1 diag pool ex a of
      Ret ex' (Inr x) \<Rightarrow> takes ex (unat x, unat (sub_size a)) ex' \<and> unat (substart a) \<le> unat x \<and>
        unat x + unat (sub_size a) \<le> unat (subend a) + 1 \<and> no_cross ex a (unat x) \<and> (lines_aligned ex a \<longrightarrow> aligned a (unat x))
    | Ret ex' (Inl err) \<Rightarrow> (err = ENOMEM \<or> err = EAGAIN) \<and> ex_regions ex' = ex_regions ex
    | Sleep ex' sl \<Rightarrow> ex_regions ex' = ex_regions ex
    | _ \<Rightarrow> False"
  using assms(2)
proof (cases rule: descriptor_cases [where pool = pool and flags = "sub_flags a", consumes 1])
  case (got ex1 rp)
  note eq = frame_eq [OF got(2,3)]
  have "extent_alloc_subregion1 diag pool ex a = ex_finish (alloc_subregion_end diag ex1 a (Some rp))"
    using got assms(3) roomyD(1) by (simp add: extent_alloc_subregion1_def)
  then show ?thesis using alloc_subregion_end_law [of ex1 a diag rp] subregion_unlocked [of diag ex1 a "Some rp"] got(3,4) assms
    by (cases "alloc_subregion_end diag ex1 a (Some rp)") (auto simp: eq split: sum.splits)
qed (use assms(3) roomyD(1) in \<open>auto simp: extent_alloc_subregion1_def alloc_subregion_end_def\<close>)

text \<open>C23. When a subregion allocation fails.  Without a boundary it returns \<open>EAGAIN\<close> only if no aligned
  start leaves room for the request between the taken addresses, and with \<open>EX_FAST\<close> it returns the
  least such start.  The arguments pass the checks, the alignment is a power of two and
  \<open>ex_end + alignment < 2^64\<close> (\<open>roomy\<close>).\<close>

theorem extent_alloc_subregion_complete:
  assumes "extent_ok ex" "\<not> ex_lock ex" "roomy ex a" "boundary a = 0"
  shows "(\<forall>ex'. extent_alloc_subregion1 diag pool ex a = Ret ex' (Inl EAGAIN) \<longrightarrow> (\<forall>y. \<not> fit ex a y)) \<and>
    (\<forall>ex' x. extent_alloc_subregion1 diag pool ex a = Ret ex' (Inr x) \<and> flagged (sub_flags a) EX_FAST \<longrightarrow>
       fit ex a (unat x) \<and> (\<forall>y. fit ex a y \<longrightarrow> unat x \<le> y))"
  using assms(2)
proof (cases rule: descriptor_cases [where pool = pool and flags = "sub_flags a", consumes 1])
  case (got ex1 rp)
  note eq = frame_eq [OF got(2,3)]
  have e: "extent_alloc_subregion1 diag pool ex a = ex_finish (alloc_subregion_end diag ex1 a (Some rp))"
    using got assms(3) roomyD(1) by (simp add: extent_alloc_subregion1_def)
  have la: "lines_aligned ex a" using assms(4) by (simp add: lines_aligned_def)
  show ?thesis using alloc_subregion_end_law [of ex1 a diag rp] subregion_unlocked [of diag ex1 a "Some rp"] got(3,4) assms la unfolding e
    by (cases "alloc_subregion_end diag ex1 a (Some rp)") (auto simp: eq intro: takes_fit split: sum.splits)
qed (use assms(3) roomyD(1) in \<open>auto simp: extent_alloc_subregion1_def alloc_subregion_end_def\<close>)

text \<open>C18. The region operations act on the set of taken addresses, and fail exactly for the reasons of
  the code.  With the lock free and arguments that pass the checks, allocating a region takes its
  addresses if they are free, and ends otherwise with \<open>EAGAIN\<close> or, with \<open>EX_WAITSPACE\<close>, asleep, if
  one of them is taken, and with \<open>ENOMEM\<close> or, with \<open>EX_WAITOK\<close>, asleep, if there is no descriptor;
  it does not panic.  Freeing a range releases its addresses if the range can be freed: if all its
  addresses are taken or, where regions are not coalesced, if it is one region.  If it cannot be
  freed the call panics, and where regions are coalesced it ends with \<open>ENOMEM\<close> or asleep for lack
  of a descriptor.\<close>

theorem extent_refines_address_set:
  assumes "extent_ok ex" "\<not> ex_lock ex" "region_args ex start sz"
  defines "R \<equiv> {unat start..<unat start + unat sz}" and "A \<equiv> taken (ex_regions ex)"
  defines "can_free \<equiv> (if coalescing ex then R \<subseteq> A else (unat start, unat start + unat sz - 1) \<in> bounds ` set (ex_regions ex))"
  shows "(case extent_alloc_region diag pool ex start sz flags of
      Ret ex' err \<Rightarrow> err = 0 \<and> R \<inter> A = {} \<and> extent_ok ex' \<and> taken (ex_regions ex') = A \<union> R \<or>
        err = EAGAIN \<and> R \<inter> A \<noteq> {} \<and> \<not> flagged flags EX_WAITSPACE \<and> ex_regions ex' = ex_regions ex \<or>
        err = ENOMEM \<and> no_descriptor ex pool flags \<and> ex_regions ex' = ex_regions ex
    | Sleep ex' sl \<Rightarrow> ex_regions ex' = ex_regions ex \<and>
        (if sl = At_descriptor then descriptor_wait ex flags else R \<inter> A \<noteq> {} \<and> flagged flags EX_WAITSPACE)
    | _ \<Rightarrow> False) \<and>
   (case extent_free diag pool ex start sz flags of
      Ret ex' err \<Rightarrow> err = 0 \<and> can_free \<and> extent_ok ex' \<and> taken (ex_regions ex') = A - R \<or>
        err = ENOMEM \<and> coalescing ex \<and> no_descriptor ex pool flags \<and> ex_regions ex' = ex_regions ex
    | Sleep ex' sl \<Rightarrow> sl = At_descriptor \<and> coalescing ex \<and> descriptor_wait ex flags \<and> ex_regions ex' = ex_regions ex
    | Panic \<Rightarrow> \<not> can_free
    | _ \<Rightarrow> False)"
proof -
  have R: "R = rng (unat start, unat sz)" and can: "can_free = freeable ex (unat start, unat sz)"
    by (simp_all add: R_def can_free_def A_def rng_def freeable_def ends_def)
  show ?thesis unfolding R A_def can
    using alloc_region_whole [OF assms(1-3), where diag = diag and pool = pool and flags = flags]
      extent_free_whole [OF assms(1-3), where diag = diag and pool = pool and flags = flags]
    by (auto simp: releases_def split: ex_res.splits)
qed



definition blank :: extent_region where
  "blank = \<lparr>er_start = 0, er_end = 0, er_flags = 0\<rparr>"

text \<open>A wait for space in a subregion allocation never ends well.  The thread that is awakened holds
  the lock and takes it again, so it hangs, and every later call on the extent hangs at the lock;
  the same wait in the allocation of a given region goes on.\<close>

theorem extent_waitspace_self_lock:
  assumes "extent_ok ex" "\<not> ex_lock ex" "region_args ex start sz"
  shows "alloc_subregion_wake diag ex a rp 0 = Stuck (ex\<lparr>ex_lock := True\<rparr>) \<and>
    extent_alloc_region diag pool (ex\<lparr>ex_lock := True\<rparr>) start sz flags = Stuck (ex\<lparr>ex_lock := True\<rparr>) \<and>
    extent_free diag pool (ex\<lparr>ex_lock := True\<rparr>) start sz flags = Stuck (ex\<lparr>ex_lock := True\<rparr>) \<and>
    (\<forall>ex'. alloc_region_wake ex start sz flags rp 0 \<noteq> Stuck ex')"
proof -
  let ?ex = "ex\<lparr>ex_lock := True\<rparr>"
  have m: "mutex_enter ?ex = Stuck ?ex" by (simp add: mutex_enter_def)
  have d: "extent_alloc_region_descriptor pool ?ex flags = Stuck ?ex" by (simp add: extent_alloc_region_descriptor_def m)
  have chk: "alloc_region_check diag ?ex start sz = Some (Inr ())" "free_check ?ex start sz"
    using region_args_check [of ?ex start sz diag] assms(3) by simp_all
  have "alloc_subregion_wake diag ex a rp 0 = Stuck ?ex"
    using assms(2) m by (simp add: alloc_subregion_wake_def alloc_subregion_end_def mutex_enter_def)
  moreover have "extent_alloc_region diag pool ?ex start sz flags = Stuck ?ex" by (simp add: extent_alloc_region_def chk d)
  moreover have "extent_free diag pool ?ex start sz flags = Stuck ?ex" by (simp add: extent_free_def chk m)
  moreover have "alloc_region_wake ex start sz flags rp 0 \<noteq> Stuck ex'" for ex'
    using alloc_region_locked_law [of ?ex start sz flags rp] assms
    by (auto simp: alloc_region_wake_def mutex_enter_def)
  ultimately show ?thesis by blast
qed


section \<open>Witnesses\<close>

definition sample_extent :: extent where
  "sample_extent = \<lparr>ex_lock = False, ex_cv = 0, ex_regions = [], ex_start = 0x1000, ex_end = 0x1FFF, ex_flags = 0, fex_freelist = []\<rparr>"

definition used_extent :: extent where
  "used_extent = sample_extent\<lparr>ex_regions := [\<lparr>er_start = 0x1800, er_end = 0x180F, er_flags = 1\<rparr>]\<rparr>"

text \<open>One thread allocates a region, another one asks for a part of it and sleeps.\<close>

definition waiting :: ex_op where
  "waiting = Op_region 0x1808 0x10 0x20"

definition sample_sys :: ex_sys where
  "sample_sys = \<lparr>sx = used_extent, threads = {#(waiting, Asleep (At_space (blank\<lparr>er_flags := 1\<rparr>)) 0)#}, held = {#(0x1800, 0x10)#}\<rparr>"

lemma sample_runs:
  "op_run True (Some blank) 0 sample_extent (Op_region 0x1800 0x10 0) Start = Ret sample_extent (Inl (Some (blank\<lparr>er_flags := 1\<rparr>)))"
  "op_run True None 0 sample_extent (Op_region 0x1800 0x10 0) (At_lock (Some (blank\<lparr>er_flags := 1\<rparr>))) = Ret used_extent (Inr (Inr 0x1800))"
  "op_run True (Some blank) 0 used_extent waiting Start = Ret used_extent (Inl (Some (blank\<lparr>er_flags := 1\<rparr>)))"
  "op_run True None 0 used_extent waiting (At_lock (Some (blank\<lparr>er_flags := 1\<rparr>))) = Sleep used_extent (At_space (blank\<lparr>er_flags := 1\<rparr>))"
  by code_simp+

lemma sample_args: "op_ok sample_extent (Op_region 0x1800 0x10 0)" "op_ok used_extent waiting"
  by (simp_all add: op_ok_def waiting_def region_args_def sample_extent_def used_extent_def)

lemma sample_reached: "(ex_step True)\<^sup>*\<^sup>* (ex_init sample_extent) sample_sys"
proof -
  let ?op = "Op_region 0x1800 0x10 0" and ?rp = "Some (blank\<lparr>er_flags := 1\<rparr>)"
  have s1: "ex_step True (ex_init sample_extent) \<lparr>sx = sample_extent, threads = {#(?op, Start)#}, held = {#}\<rparr>"
    using ex_step.call [OF sample_args(1), of True "{#}" "{#}"] by (simp add: ex_init_def)
  have s2: "ex_step True \<lparr>sx = sample_extent, threads = {#(?op, Start)#}, held = {#}\<rparr>
    \<lparr>sx = sample_extent, threads = {#(?op, At_lock ?rp)#}, held = {#}\<rparr>"
    by (rule ex_step.on [OF _ sample_runs(1)]) simp
  have s3: "ex_step True \<lparr>sx = sample_extent, threads = {#(?op, At_lock ?rp)#}, held = {#}\<rparr>
    \<lparr>sx = used_extent, threads = {#}, held = {#(0x1800, 0x10)#}\<rparr>"
    using ex_step.returns [OF _ sample_runs(2), where T = "{#}" and H = "{#}"] by simp
  have s4: "ex_step True \<lparr>sx = used_extent, threads = {#}, held = {#(0x1800, 0x10)#}\<rparr>
    \<lparr>sx = used_extent, threads = {#(waiting, Start)#}, held = {#(0x1800, 0x10)#}\<rparr>"
    using ex_step.call [OF sample_args(2), of True "{#}" "{#(0x1800, 0x10)#}"] by (simp add: waiting_def)
  have s5: "ex_step True \<lparr>sx = used_extent, threads = {#(waiting, Start)#}, held = {#(0x1800, 0x10)#}\<rparr>
    \<lparr>sx = used_extent, threads = {#(waiting, At_lock ?rp)#}, held = {#(0x1800, 0x10)#}\<rparr>"
    by (rule ex_step.on [OF _ sample_runs(3)]) simp
  have s6: "ex_step True \<lparr>sx = used_extent, threads = {#(waiting, At_lock ?rp)#}, held = {#(0x1800, 0x10)#}\<rparr>
    sample_sys"
    using ex_step.sleeps [OF _ sample_runs(4), where T = "{#}" and H = "{#(0x1800, 0x10)#}"]
    by (simp add: sample_sys_def used_extent_def sample_extent_def)
  note t = rtranclp.rtrancl_into_rtrancl [where r = "ex_step True"]
  show ?thesis by (rule t [OF t [OF t [OF t [OF t [OF t [OF rtranclp.rtrancl_refl s1] s2] s3] s4] s5] s6])
qed

lemma sample_new: "new_extent sample_extent" "\<not> flagged (ex_flags sample_extent) EXF_FIXED"
  by (simp_all add: new_extent_def sample_extent_def flagged_def)

theorem extent_no_overlap_witness:
  "(ex_step True)\<^sup>*\<^sup>* (ex_init sample_extent) sample_sys \<and> apart {#(0x1800, 0x10)#} \<and>
   taken (ex_regions used_extent) = {0x1800..<0x1810}"
  using extent_no_overlap [OF sample_new(1,2) sample_reached] sample_reached
  by (simp add: sample_sys_def waiting_def rng_def)

theorem extent_no_lost_wakeup_witness:
  "(ex_step True)\<^sup>*\<^sup>* (ex_init sample_extent) sample_sys \<and> {0x1808..<0x1818} \<inter> taken (ex_regions used_extent) \<noteq> {}"
proof -
  have "(waiting, Asleep (At_space (blank\<lparr>er_flags := 1\<rparr>)) 0) \<in># threads sample_sys" "\<not> 0 < ex_cv (sx sample_sys)"
    by (simp_all add: sample_sys_def used_extent_def sample_extent_def)
  from extent_no_lost_wakeup [OF sample_new sample_reached this]
  have "{unat (0x1808 :: u64)..<unat (0x1808 :: u64) + unat (0x10 :: u64)} \<inter> taken (ex_regions (sx sample_sys)) \<noteq> {}"
    unfolding waiting_def by blast
  then show ?thesis using sample_reached by (simp add: sample_sys_def)
qed

text \<open>A request with an alignment and a boundary, and one without a boundary that takes the first fit.\<close>

definition bounded_request :: sub_args where
  "bounded_request = \<lparr>substart = 0x17F8, subend = 0x1FFF, sub_size = 0x20, alignment = 0x10, skew = 0, boundary = 0x100, sub_flags = 0x40\<rparr>"

definition fast_request :: sub_args where
  "fast_request = \<lparr>substart = 0x17F8, subend = 0x1FFF, sub_size = 0x20, alignment = 0x100, skew = 0, boundary = 0, sub_flags = 0x02\<rparr>"

lemma used_ok: "extent_ok used_extent" "\<not> ex_lock used_extent" "region_args used_extent 0x1808 0x8" "coalescing used_extent"
  by (simp_all add: extent_ok_def used_extent_def sample_extent_def in_extent_def region_args_def flagged_def)

lemma requests_roomy: "roomy used_extent bounded_request" "roomy used_extent fast_request"
proof -
  have p: "power_of_2 0x10" "power_of_2 0x100"
    unfolding power_of_2_def by (rule exI [of _ 4], simp) (rule exI [of _ 8], simp)
  have "sub_check used_extent bounded_request" "sub_check used_extent fast_request" by code_simp+
  then show "roomy used_extent bounded_request" "roomy used_extent fast_request"
    using p by (simp_all add: roomy_def bounded_request_def fast_request_def used_extent_def sample_extent_def)
qed

theorem extent_alloc_subregion_places_witness:
  "\<exists>x ex'. extent_alloc_subregion1 True (Some blank) used_extent bounded_request = Ret ex' (Inr x) \<and>
     takes used_extent (unat x, 0x20) ex' \<and> no_cross used_extent bounded_request (unat x)"
proof -
  have "\<exists>x ex'. extent_alloc_subregion1 True (Some blank) used_extent bounded_request = Ret ex' (Inr x)"
    by (rule exI [of _ "0x1810"], rule exI [of _ "used_extent\<lparr>ex_regions := [\<lparr>er_start = 0x1800, er_end = 0x182F, er_flags = 1\<rparr>]\<rparr>"]) code_simp
  then show ?thesis using extent_alloc_subregion_places [OF used_ok(1,2) requests_roomy(1), of True "Some blank"]
    by (fastforce simp: bounded_request_def)
qed

theorem extent_alloc_subregion_complete_witness:
  "\<exists>ex'. extent_alloc_subregion1 True (Some blank) used_extent fast_request = Ret ex' (Inr 0x1900) \<and>
     (\<forall>y. fit used_extent fast_request y \<longrightarrow> 0x1900 \<le> y)"
proof -
  let ?ex = "used_extent\<lparr>ex_regions := [\<lparr>er_start = 0x1800, er_end = 0x180F, er_flags = 1\<rparr>, \<lparr>er_start = 0x1900, er_end = 0x191F, er_flags = 1\<rparr>]\<rparr>"
  have r: "extent_alloc_subregion1 True (Some blank) used_extent fast_request = Ret ?ex (Inr 0x1900)" by code_simp
  have f: "flagged (sub_flags fast_request) EX_FAST" "boundary fast_request = 0" by (simp_all add: fast_request_def flagged_def)
  have "\<forall>y. fit used_extent fast_request y \<longrightarrow> unat (0x1900 :: u64) \<le> y"
    using extent_alloc_subregion_complete [OF used_ok(1,2) requests_roomy(2) f(2), of True "Some blank"] r f(1) by blast
  then show ?thesis using r by (intro exI [of _ ?ex]) simp
qed

theorem extent_refines_address_set_witness:
  "\<exists>ex'. extent_free True (Some blank) used_extent 0x1808 0x8 0 = Ret ex' 0 \<and>
     taken (ex_regions ex') = taken (ex_regions used_extent) - {0x1808..<0x1810}"
proof -
  let ?ex = "used_extent\<lparr>ex_cv := 1, ex_regions := [\<lparr>er_start = 0x1800, er_end = 0x1807, er_flags = 1\<rparr>]\<rparr>"
  have r: "extent_free True (Some blank) used_extent 0x1808 0x8 0 = Ret ?ex 0" by code_simp
  have "taken (ex_regions ?ex) = taken (ex_regions used_extent) - {unat (0x1808 :: u64)..<unat (0x1808 :: u64) + unat (0x8 :: u64)}"
    using extent_refines_address_set [OF used_ok(1-3), where diag = True and pool = "Some blank" and flags = 0] r by auto
  then show ?thesis using r by (intro exI [of _ ?ex]) simp
qed





end
