(* ===== verification/Extent_Race.thy ===== *)
theory Extent_Race
  imports Extent_Theorems
begin

text \<open>
  The descriptors of a fixed extent, \<^verbatim>\<open>sys/kern/subr_extent.c\<close>, at the level of single accesses to
  memory.  \<open>extent_free_region_descriptor\<close> has to be called with the lock held; the error paths of
  \<open>extent_alloc_region\<close> and \<open>extent_alloc_subregion1\<close> call it after \<open>mutex_exit\<close>.  A thread that does so
  links its descriptor into the free list while another one, with the lock, tests the list, goes to
  sleep or unlinks a descriptor.

  A thread is in one of two pieces of code: the loop of \<open>extent_alloc_region_descriptor\<close> with
  \<open>EX_WAITOK\<close>, and the release of a descriptor that came from the storage (\<open>er_flags\<close> without
  \<open>ER_ALLOC\<close>) after the lock.  Descriptors are numbers.  The list macros of \<^verbatim>\<open>sys/sys/queue.h\<close> are
  written out, with \<open>le_prev\<close> the address of the field that points to the element.
\<close>

section \<open>Threads and memory\<close>

datatype er_ptr = Freelist | Er_next nat

datatype race_pc =
    Idle
  | Enter
  | First
  | Unlink1 nat
  | Unlink2 nat
  | Leave nat
  | Want
  | Wait
  | Waiting
  | Has nat
  | Link1 nat
  | Link2 nat
  | Link3 nat
  | Link4 nat
  | Clear
  | Broadcast
  | Crashed

record race =
  lh_first :: "nat option"
  le_next :: "nat \<Rightarrow> nat option"
  le_prev :: "nat \<Rightarrow> er_ptr"
  flwanted :: bool
  lock_owner :: "nat option"
  cv_waiters :: "nat set"
  pcs :: "nat \<Rightarrow> race_pc"

definition store :: "er_ptr \<Rightarrow> nat option \<Rightarrow> race \<Rightarrow> race" where
  "store p v s = (case p of
     Freelist \<Rightarrow> s\<lparr>lh_first := v\<rparr>
   | Er_next rp \<Rightarrow> s\<lparr>le_next := (le_next s)(rp := v)\<rparr>)"

definition goto :: "nat \<Rightarrow> race_pc \<Rightarrow> race \<Rightarrow> race" where
  "goto t pc s = s\<lparr>pcs := (pcs s)(t := pc)\<rparr>"

text \<open>What thread \<open>t\<close> does next, \<open>None\<close> if it cannot move: the loop of \<open>extent_alloc_region_descriptor\<close>
  from taking the lock on, with \<open>LIST_REMOVE\<close> in its two stores; \<open>cv_wait\<close> joins the waiters and gives
  up the lock at once, and takes it again after a broadcast; and the release, with
  \<open>LIST_INSERT_HEAD\<close> in its four stores.\<close>

definition race_next :: "nat \<Rightarrow> race \<Rightarrow> race option" where
  "race_next t s = (case pcs s t of
     Enter \<Rightarrow> if lock_owner s = None then Some (goto t First (s\<lparr>lock_owner := Some t\<rparr>)) else None
   | First \<Rightarrow> Some (case lh_first s of Some rp \<Rightarrow> goto t (Unlink1 rp) s | None \<Rightarrow> goto t Want s)
   | Unlink1 rp \<Rightarrow> Some (goto t (Unlink2 rp) (case le_next s rp of
         None \<Rightarrow> s
       | Some q \<Rightarrow> s\<lparr>le_prev := (le_prev s)(q := le_prev s rp)\<rparr>))
   | Unlink2 rp \<Rightarrow> Some (goto t (Leave rp) (store (le_prev s rp) (le_next s rp) s))
   | Leave rp \<Rightarrow> Some (goto t (Has rp) (s\<lparr>lock_owner := None\<rparr>))
   | Want \<Rightarrow> Some (goto t Wait (s\<lparr>flwanted := True\<rparr>))
   | Wait \<Rightarrow> Some (goto t Waiting (s\<lparr>lock_owner := None, cv_waiters := insert t (cv_waiters s)\<rparr>))
   | Waiting \<Rightarrow>
       if t \<notin> cv_waiters s \<and> lock_owner s = None then Some (goto t First (s\<lparr>lock_owner := Some t\<rparr>)) else None
   | Link1 rp \<Rightarrow> Some (goto t (if lh_first s = None then Link3 rp else Link2 rp) (s\<lparr>le_next := (le_next s)(rp := lh_first s)\<rparr>))
   | Link2 rp \<Rightarrow> Some (case lh_first s of
         None \<Rightarrow> goto t Crashed s
       | Some q \<Rightarrow> goto t (Link3 rp) (s\<lparr>le_prev := (le_prev s)(q := Er_next rp)\<rparr>))
   | Link3 rp \<Rightarrow> Some (goto t (Link4 rp) (s\<lparr>lh_first := Some rp\<rparr>))
   | Link4 rp \<Rightarrow> Some (goto t Clear (s\<lparr>le_prev := (le_prev s)(rp := Freelist)\<rparr>))
   | Clear \<Rightarrow> Some (goto t Broadcast (s\<lparr>flwanted := False\<rparr>))
   | Broadcast \<Rightarrow> Some (goto t Idle (s\<lparr>cv_waiters := {}\<rparr>))
   | _ \<Rightarrow> None)"

text \<open>An idle thread may ask for a descriptor, and a thread that has one may fail and release it.\<close>

inductive race_step :: "race \<Rightarrow> race \<Rightarrow> bool" where
  allocate: "pcs s t = Idle \<Longrightarrow> race_step s (goto t Enter s)"
| release: "pcs s t = Has rp \<Longrightarrow> race_step s (goto t (Link1 rp) s)"
| proceed: "race_next t s = Some s' \<Longrightarrow> race_step s s'"

text \<open>After \<open>extent_create\<close> with room for \<open>n\<close> descriptors: each was put at the head of the list.\<close>

definition race_init :: "nat \<Rightarrow> race" where
  "race_init n = \<lparr>lh_first = (if n = 0 then None else Some (n - 1)),
     le_next = (\<lambda>i. if 0 < i \<and> i < n then Some (i - 1) else None),
     le_prev = (\<lambda>i. if Suc i < n then Er_next (Suc i) else Freelist),
     flwanted = False, lock_owner = None, cv_waiters = {}, pcs = (\<lambda>_. Idle)\<rparr>"

section \<open>Runs of one thread\<close>

fun turns :: "nat \<Rightarrow> nat \<Rightarrow> race \<Rightarrow> race option" where
  "turns 0 t s = Some s"
| "turns (Suc k) t s = (case race_next t s of None \<Rightarrow> None | Some s' \<Rightarrow> turns k t s')"

lemma turns_reach: "turns k t s = Some s' \<Longrightarrow> race_step\<^sup>*\<^sup>* s s'"
proof (induction k arbitrary: s)
  case (Suc k)
  then obtain s1 where "race_next t s = Some s1" "turns k t s1 = Some s'" by (auto split: option.splits)
  then show ?case using Suc.IH proceed by (meson converse_rtranclp_into_rtranclp)
qed simp

lemma goto_fields [simp]:
  "lh_first (goto t pc s) = lh_first s" "le_next (goto t pc s) = le_next s" "le_prev (goto t pc s) = le_prev s"
  "flwanted (goto t pc s) = flwanted s" "lock_owner (goto t pc s) = lock_owner s" "cv_waiters (goto t pc s) = cv_waiters s"
  "pcs (goto t pc s) = (pcs s)(t := pc)"
  by (simp_all add: goto_def)

lemma starts_and_turns:
  assumes "race_step s s1" "turns k t s1 = Some s2"
  shows "race_step\<^sup>*\<^sup>* s s2"
  using assms turns_reach by (meson converse_rtranclp_into_rtranclp)

text \<open>A whole allocation when the first descriptor is properly linked.\<close>

definition unlinked :: "nat \<Rightarrow> nat \<Rightarrow> race \<Rightarrow> race" where
  "unlinked t x s = s\<lparr>pcs := (pcs s)(t := Has x), lh_first := le_next s x,
     le_prev := (case le_next s x of None \<Rightarrow> le_prev s | Some q \<Rightarrow> (le_prev s)(q := Freelist))\<rparr>"

lemma allocation_runs:
  assumes "pcs s t = Idle" "lock_owner s = None" "lh_first s = Some x" "le_prev s x = Freelist" "le_next s x \<noteq> Some x"
  shows "race_step\<^sup>*\<^sup>* s (unlinked t x s)"
proof (rule starts_and_turns [OF allocate [OF assms(1)]])
  show "turns 5 t (goto t Enter s) = Some (unlinked t x s)"
    using assms by (cases "le_next s x")
      (auto simp: race_next_def goto_def store_def unlinked_def eval_nat_numeral)
qed

lemma unlinked_fields [simp]:
  "lh_first (unlinked t x s) = le_next s x" "le_next (unlinked t x s) = le_next s" "lock_owner (unlinked t x s) = lock_owner s"
  "cv_waiters (unlinked t x s) = cv_waiters s" "flwanted (unlinked t x s) = flwanted s" "pcs (unlinked t x s) = (pcs s)(t := Has x)"
  "le_next s x = Some q \<Longrightarrow> le_prev (unlinked t x s) = (le_prev s)(q := Freelist)"
  "le_next s x = None \<Longrightarrow> le_prev (unlinked t x s) = le_prev s"
  by (simp_all add: unlinked_def)

text \<open>A release: the first store reads the head of the list, the others write it.\<close>

lemma release_starts:
  assumes "pcs s t = Has rp" "lh_first s = Some q"
  shows "race_step\<^sup>*\<^sup>* s (s\<lparr>pcs := (pcs s)(t := Link2 rp), le_next := (le_next s)(rp := Some q)\<rparr>)"
  by (rule starts_and_turns [OF release [OF assms(1)], of 1 t]) (simp add: race_next_def goto_def assms(2))

lemma release_ends:
  assumes "pcs s t = Link2 rp" "lh_first s = Some q" "q \<noteq> rp"
  shows "race_step\<^sup>*\<^sup>* s (s\<lparr>pcs := (pcs s)(t := Idle), lh_first := Some rp, le_prev := (le_prev s)(q := Er_next rp, rp := Freelist),
    flwanted := False, cv_waiters := {}\<rparr>)"
  by (rule turns_reach [of 5 t]) (simp add: race_next_def goto_def assms eval_nat_numeral)

section \<open>One descriptor for two threads\<close>

text \<open>In a fixed extent the release after the lock can hand one descriptor to two threads.  For every
  free list of at least three descriptors and any three threads: thread \<open>a\<close>, releasing a descriptor
  without the lock, has read the head of the list when \<open>b\<close> takes the second descriptor; \<open>a\<close> goes
  on to link its own in front of it, and the next two allocations are given \<open>a\<close>'s descriptor and
  then, a second time, the one that \<open>b\<close> has.\<close>

theorem extent_fixed_double_descriptor:
  assumes n: "3 \<le> n" and t: "a \<noteq> b" "a \<noteq> c" "b \<noteq> c"
  shows "\<exists>s. race_step\<^sup>*\<^sup>* (race_init n) s \<and> pcs s b = Has (n - 2) \<and> pcs s c = Has (n - 2)"
proof -
  obtain m where m: "n = Suc (Suc (Suc m))" using n by (metis Suc_le_D numeral_3_eq_3 Suc_le_mono)
  let ?d = "Suc (Suc m)" and ?x = "Suc m"
  define s0 where "s0 = race_init n"
  define s1 where "s1 = unlinked a ?d s0"
  define s2 where "s2 = s1\<lparr>pcs := (pcs s1)(a := Link2 ?d), le_next := (le_next s1)(?d := Some ?x)\<rparr>"
  define s3 where "s3 = unlinked b ?x s2"
  define s4 where "s4 = s3\<lparr>pcs := (pcs s3)(a := Idle), lh_first := Some ?d,
    le_prev := (le_prev s3)(m := Er_next ?d, ?d := Freelist), flwanted := False, cv_waiters := {}\<rparr>"
  define s5 where "s5 = unlinked a ?d s4"
  have i: "lh_first s0 = Some ?d" "le_next s0 ?d = Some ?x" "le_next s0 ?x = Some m" "le_prev s0 ?d = Freelist" "lock_owner s0 = None"
      "\<And>u. pcs s0 u = Idle"
    by (simp_all add: s0_def race_init_def m)
  have 1: "race_step\<^sup>*\<^sup>* s0 s1" unfolding s1_def by (rule allocation_runs) (use i in simp_all)
  have 2: "race_step\<^sup>*\<^sup>* s1 s2" unfolding s2_def by (rule release_starts) (use i in \<open>simp_all add: s1_def\<close>)
  have 3: "race_step\<^sup>*\<^sup>* s2 s3" unfolding s3_def
    by (rule allocation_runs) (use i t in \<open>simp_all add: s2_def s1_def\<close>)
  have 4: "race_step\<^sup>*\<^sup>* s3 s4" unfolding s4_def
    by (rule release_ends) (use i t in \<open>simp_all add: s3_def s2_def s1_def\<close>)
  have 5: "race_step\<^sup>*\<^sup>* s4 s5" unfolding s5_def
    by (rule allocation_runs) (use i t in \<open>simp_all add: s4_def s3_def s2_def s1_def\<close>)
  have n4: "le_next s4 ?d = Some ?x" "le_next s4 ?x = Some m" "pcs s4 b = Has ?x" "pcs s4 c = Idle" "lock_owner s4 = None"
    using i t by (simp_all add: s4_def s3_def s2_def s1_def)
  have 6: "race_step\<^sup>*\<^sup>* s5 (unlinked c ?x s5)"
    by (rule allocation_runs) (use n4 t in \<open>simp_all add: s5_def\<close>)
  have "race_step\<^sup>*\<^sup>* s0 (unlinked c ?x s5)" using 1 2 3 4 5 6 by (meson rtranclp_trans)
  moreover have "pcs (unlinked c ?x s5) b = Has ?x" "pcs (unlinked c ?x s5) c = Has ?x"
    using n4 t by (simp_all add: s5_def)
  ultimately show ?thesis unfolding s0_def m by auto
qed

section \<open>A sleeper and a free descriptor\<close>

text \<open>The first \<open>k\<close> threads take the descriptors one after the other.\<close>

lemma take_many:
  assumes "k \<le> n"
  shows "\<exists>s. race_step\<^sup>*\<^sup>* (race_init n) s \<and> lock_owner s = None \<and> lh_first s = (if k < n then Some (n - 1 - k) else None) \<and>
    le_next s = le_next (race_init n) \<and> (k < n \<longrightarrow> le_prev s (n - 1 - k) = Freelist) \<and>
    (\<forall>t. pcs s t = (if t < k then Has (n - 1 - t) else Idle))"
  using assms
proof (induction k)
  case 0
  show ?case by (rule exI [of _ "race_init n"]) (auto simp: race_init_def)
next
  case (Suc k)
  then obtain s where s: "race_step\<^sup>*\<^sup>* (race_init n) s" "lock_owner s = None" "lh_first s = Some (n - 1 - k)"
      "le_next s = le_next (race_init n)" "le_prev s (n - 1 - k) = Freelist" "\<forall>t. pcs s t = (if t < k then Has (n - 1 - t) else Idle)"
    by auto
  let ?x = "n - 1 - k"
  have nx: "le_next s ?x = (if Suc k < n then Some (n - 1 - Suc k) else None)"
    using Suc.prems by (auto simp: s(4) race_init_def)
  have "race_step\<^sup>*\<^sup>* s (unlinked k ?x s)" by (rule allocation_runs) (use s nx in auto)
  then have "race_step\<^sup>*\<^sup>* (race_init n) (unlinked k ?x s)" using s(1) by (meson rtranclp_trans)
  moreover have "\<forall>t. pcs (unlinked k ?x s) t = (if t < Suc k then Has (n - 1 - t) else Idle)" using s(6) by auto
  moreover have "Suc k < n \<longrightarrow> le_prev (unlinked k ?x s) (n - 1 - Suc k) = Freelist" using nx by simp
  ultimately show ?case using s(2,4) nx by (intro exI [of _ "unlinked k ?x s"]) auto
qed

text \<open>In a fixed extent the release after the lock can leave a thread asleep for ever next to a free
  descriptor.  For every number of descriptors: when all are taken, a thread finds the free list
  empty; before it goes to sleep another one releases a descriptor, whose broadcast reaches nobody.
  Then the sleeper is in the queue of the condition variable, the list has a descriptor, the lock is
  free, and no thread is releasing one.\<close>

theorem extent_fixed_lost_wakeup:
  assumes "0 < n"
  shows "\<exists>s. race_step\<^sup>*\<^sup>* (race_init n) s \<and> pcs s n = Waiting \<and> n \<in> cv_waiters s \<and> lh_first s = Some (n - 1) \<and>
    lock_owner s = None \<and> (\<forall>t. t \<noteq> n \<longrightarrow> pcs s t = Idle \<or> (\<exists>rp. pcs s t = Has rp))"
proof -
  obtain s where s: "race_step\<^sup>*\<^sup>* (race_init n) s" "lock_owner s = None" "lh_first s = None"
      "\<forall>t. pcs s t = (if t < n then Has (n - 1 - t) else Idle)"
    using take_many [of n n] by auto
  define s1 where "s1 = s\<lparr>lock_owner := Some n, pcs := (pcs s)(n := Want)\<rparr>"
  define s2 where "s2 = s1\<lparr>le_next := (le_next s1)(n - 1 := None), lh_first := Some (n - 1), le_prev := (le_prev s1)(n - 1 := Freelist),
    flwanted := False, cv_waiters := {}, pcs := (pcs s1)(0 := Idle)\<rparr>"
  define s3 where "s3 = s2\<lparr>flwanted := True, lock_owner := None, cv_waiters := {n}, pcs := (pcs s2)(n := Waiting)\<rparr>"
  have "pcs s n = Idle" using s(4) by simp
  then have 1: "race_step\<^sup>*\<^sup>* s s1"
    by (rule starts_and_turns [OF allocate, of _ _ 2 n]) (use s in \<open>simp add: s1_def race_next_def goto_def eval_nat_numeral\<close>)
  have h: "pcs s1 0 = Has (n - 1)" using s(4) assms by (simp add: s1_def)
  have 2: "race_step\<^sup>*\<^sup>* s1 s2"
    by (rule starts_and_turns [OF release [OF h], of 5 0])
      (use s(3) in \<open>simp add: s1_def s2_def race_next_def goto_def eval_nat_numeral\<close>)
  have 3: "race_step\<^sup>*\<^sup>* s2 s3"
    by (rule turns_reach [of 2 n]) (use assms in \<open>simp add: s1_def s2_def s3_def race_next_def goto_def eval_nat_numeral\<close>)
  have "race_step\<^sup>*\<^sup>* (race_init n) s3" using s(1) 1 2 3 by (meson rtranclp_trans)
  moreover have "pcs s3 t = Idle \<or> (\<exists>rp. pcs s3 t = Has rp)" if "t \<noteq> n" for t
    using s(4) that by (auto simp: s1_def s2_def s3_def)
  ultimately show ?thesis by (intro exI [of _ s3]) (auto simp: s1_def s2_def s3_def)
qed

section \<open>Witnesses\<close>

theorem extent_fixed_double_descriptor_witness:
  "\<exists>s. race_step\<^sup>*\<^sup>* (race_init 4) s \<and> pcs s 1 = Has 2 \<and> pcs s 2 = Has 2"
  using extent_fixed_double_descriptor [of 4 0 1 2] by simp

theorem extent_fixed_lost_wakeup_witness:
  "\<exists>s. race_step\<^sup>*\<^sup>* (race_init 2) s \<and> 2 \<in> cv_waiters s \<and> lh_first s = Some 1"
  using extent_fixed_lost_wakeup [of 2] by auto

end
