(* ===== verification/Fd_Table.thy ===== *)
theory Fd_Table
  imports Kernel_Prelude
begin

text \<open>
  The file descriptor tables of \<^verbatim>\<open>sys/kern/kern_descrip.c\<close> (data in \<^verbatim>\<open>sys/sys/filedesc.h\<close> and
  \<^verbatim>\<open>sys/sys/file.h\<close>).  A descriptor is a natural number; \<open>>> NDENTRYSHIFT\<close> is division by 32 and
  \<open>& NDENTRYMASK\<close> the remainder.  \<open>None\<close> is a failed \<open>KASSERT\<close> of a \<^verbatim>\<open>DIAGNOSTIC\<close> kernel, a null
  pointer that is followed, or an access outside an array.

  The \<open>fdfile_t\<close> of a slot is never replaced while the table lives, and every table that replaces
  another one holds the same pointers, so a table is a list of optional records.  \<open>dt_link\<close> lists
  the sizes of the old tables kept for readers without the lock.  \<open>fd_dmaps\<close> says that the bitmaps
  are the arrays inside the structure.  Files are named by numbers; \<open>f_count\<close> is a natural number.
  Knotes are not modelled.
\<close>

section \<open>Data\<close>

abbreviation (input) NDFILE :: nat where "NDFILE \<equiv> 20"
abbreviation (input) NDEXTENT :: nat where "NDEXTENT \<equiv> 50"
abbreviation (input) NDENTRIES :: nat where "NDENTRIES \<equiv> 32"
abbreviation (input) NDFDFILE :: nat where "NDFDFILE \<equiv> 6"

definition NDLOSLOTS :: "nat \<Rightarrow> nat" where
  "NDLOSLOTS x = (x + NDENTRIES - 1) div 32"

definition NDHISLOTS :: "nat \<Rightarrow> nat" where
  "NDHISLOTS x = (NDLOSLOTS x + NDENTRIES - 1) div 32"

abbreviation (input) FR_CLOSING :: u32 where "FR_CLOSING \<equiv> 0x80000000"
abbreviation (input) FR_MASK :: u32 where "FR_MASK \<equiv> 0x7FFFFFFF"

abbreviation (input) ERESTART :: int where "ERESTART \<equiv> -3"
abbreviation (input) EINTR :: int where "EINTR \<equiv> 4"
abbreviation (input) EBADF :: int where "EBADF \<equiv> 9"
abbreviation (input) EACCES :: int where "EACCES \<equiv> 13"
abbreviation (input) EINVAL :: int where "EINVAL \<equiv> 22"
abbreviation (input) ENFILE :: int where "ENFILE \<equiv> 23"
abbreviation (input) EMFILE :: int where "EMFILE \<equiv> 24"
abbreviation (input) ENOSPC :: int where "ENOSPC \<equiv> 28"
abbreviation (input) EDUPFD :: int where "EDUPFD \<equiv> -5"
abbreviation (input) EMOVEFD :: int where "EMOVEFD \<equiv> -6"

datatype dtype = DTYPE_VNODE | DTYPE_SOCKET | DTYPE_PIPE | DTYPE_KQUEUE | DTYPE_MISC
  | DTYPE_CRYPTO | DTYPE_MQUEUE | DTYPE_SEM

record file_t =
  f_count :: nat
  f_flag :: u32
  f_type :: dtype
  f_ops :: bool
  f_advice :: nat
  f_offset :: int
  f_cred :: nat

record fdfile =
  ff_exclose :: bool
  ff_allocated :: bool
  ff_refcnt :: u32
  ff_file :: "nat option"

record fdtab =
  dt_nfiles :: nat
  dt_link :: "nat list"
  dt_ff :: "fdfile option list"

record filedesc =
  fd_dt :: fdtab
  fd_himap :: "u32 list"
  fd_lomap :: "u32 list"
  fd_dmaps :: bool
  fd_lastfile :: int
  fd_refcnt :: int
  fd_freefile :: nat
  fd_exclose :: bool

definition fdfile_ctor :: fdfile where
  "fdfile_ctor = \<lparr>ff_exclose = False, ff_allocated = False, ff_refcnt = 0, ff_file = None\<rparr>"

definition filedesc_ctor :: filedesc where
  "filedesc_ctor =
     \<lparr>fd_dt = \<lparr>dt_nfiles = NDFILE, dt_link = [],
                dt_ff = replicate NDFDFILE (Some fdfile_ctor) @ replicate (NDFILE - NDFDFILE) None\<rparr>,
      fd_himap = [0], fd_lomap = replicate NDENTRIES 0, fd_dmaps = True,
      fd_lastfile = -1, fd_refcnt = 0, fd_freefile = 0, fd_exclose = False\<rparr>"

definition fd_init :: filedesc where
  "fd_init = filedesc_ctor\<lparr>fd_refcnt := 1\<rparr>"

text \<open>The record a slot points to, and its update.\<close>

abbreviation nfiles :: "filedesc \<Rightarrow> nat" where
  "nfiles fdp \<equiv> dt_nfiles (fd_dt fdp)"

abbreviation ffs_of :: "filedesc \<Rightarrow> fdfile option list" where
  "ffs_of fdp \<equiv> dt_ff (fd_dt fdp)"

definition ff_get :: "filedesc \<Rightarrow> nat \<Rightarrow> fdfile option" where
  "ff_get fdp fd = do { ffo \<leftarrow> aget (ffs_of fdp) fd; ffo }"

definition ff_put :: "filedesc \<Rightarrow> nat \<Rightarrow> fdfile \<Rightarrow> filedesc" where
  "ff_put fdp fd ff = fdp\<lparr>fd_dt := (fd_dt fdp)\<lparr>dt_ff := (ffs_of fdp)[fd := Some ff]\<rparr>\<rparr>"

section \<open>Bitmaps\<close>

definition fd_isused :: "filedesc \<Rightarrow> nat \<Rightarrow> bool option" where
  "fd_isused fdp fd =
     (if fd < nfiles fdp then do {
        w \<leftarrow> aget (fd_lomap fdp) (fd div 32);
        Some (w AND bit_of (fd mod 32) \<noteq> 0) }
      else None)"

definition fd_checkmaps :: "filedesc \<Rightarrow> bool" where
  "fd_checkmaps fdp \<longleftrightarrow>
     fd_refcnt fdp = -1 \<or>
     list_all (\<lambda>fd. case aget (ffs_of fdp) fd of
         None \<Rightarrow> False
       | Some None \<Rightarrow> fd_isused fdp fd = Some False
       | Some (Some ff) \<Rightarrow> ff_file ff \<noteq> None \<longrightarrow> fd_isused fdp fd = Some True) [0..<nfiles fdp]"

text \<open>\<open>ffs\<close> of the C library: the number of the lowest bit that is set, from 1.\<close>

definition ffs :: "u32 \<Rightarrow> nat" where
  "ffs w = (case find (bit w) [0..<32] of None \<Rightarrow> 0 | Some i \<Rightarrow> i + 1)"

function next_zero_scan :: "u32 list \<Rightarrow> nat \<Rightarrow> nat \<Rightarrow> (nat \<times> u32) option option" where
  "next_zero_scan bitmap off maxoff =
     (if off < maxoff then do {
        sub \<leftarrow> aget bitmap off;
        if sub \<noteq> - 1 then Some (Some (off, sub)) else next_zero_scan bitmap (off + 1) maxoff }
      else Some None)"
  by pat_completeness auto
termination
  by (relation "measure (\<lambda>(bitmap, off, maxoff). maxoff - off)") auto

declare next_zero_scan.simps [simp del]

text \<open>\<open>Some None\<close> is the result \<open>-1\<close>.\<close>

definition fd_next_zero :: "u32 list \<Rightarrow> nat \<Rightarrow> nat \<Rightarrow> nat option option" where
  "fd_next_zero bitmap want bits =
     (if bits < want then Some None
      else
        let off = want div 32; i = want mod 32; found = map_option (\<lambda>(off, sub). off * 32 + ffs (NOT sub) - 1)
        in if i \<noteq> 0 then do {
             w \<leftarrow> aget bitmap off;
             let sub = w OR drop_bit (NDENTRIES - i) (- 1);
             if sub \<noteq> - 1 then Some (found (Some (off, sub)))
             else map_option found (next_zero_scan bitmap (off + 1) (NDLOSLOTS bits)) }
           else map_option found (next_zero_scan bitmap off (NDLOSLOTS bits)))"

fun last_word :: "u32 list \<Rightarrow> nat \<Rightarrow> nat option option" where
  "last_word bitmap 0 = Some None"
| "last_word bitmap (Suc off) = do {
     w \<leftarrow> aget bitmap off;
     if w = 0 then last_word bitmap off else Some (Some off) }"

fun last_slot :: "fdfile option list \<Rightarrow> nat \<Rightarrow> nat option" where
  "last_slot ff 0 = Some 0"
| "last_slot ff (Suc i) = do {
     f \<leftarrow> aget ff (Suc i);
     (case f of
        None \<Rightarrow> last_slot ff i
      | Some f \<Rightarrow> if \<not> ff_allocated f then last_slot ff i else Some (Suc i)) }"

definition fd_last_set :: "filedesc \<Rightarrow> nat \<Rightarrow> int option" where
  "fd_last_set fdp lst = do {
     r \<leftarrow> last_word (fd_lomap fdp) (nat ((int lst - 1) div 32 + 1));
     (case r of
        None \<Rightarrow> Some (- 1)
      | Some off \<Rightarrow>
          let i = (off + 1) * 32 - 1; i = (if lst \<le> i then lst - 1 else i)
          in map_option int (last_slot (ffs_of fdp) i)) }"

text \<open>The bits of a descriptor that becomes used; \<open>fd_copy\<close> has the same code.\<close>

definition set_bits :: "u32 list \<Rightarrow> u32 list \<Rightarrow> nat \<Rightarrow> (u32 list \<times> u32 list) option" where
  "set_bits lomap himap fd = do {
     let off = fd div 32;
     w \<leftarrow> aget lomap off;
     if w AND bit_of (fd mod 32) \<noteq> 0 then None
     else do {
       let w = w OR bit_of (fd mod 32);
       lomap \<leftarrow> aput lomap off w;
       himap \<leftarrow> (if w = - 1 then do {
           h \<leftarrow> aget himap (off div 32);
           if h AND bit_of (off mod 32) \<noteq> 0 then None
           else aput himap (off div 32) (h OR bit_of (off mod 32)) }
         else Some himap);
       Some (lomap, himap) } }"

definition fd_used :: "filedesc \<Rightarrow> nat \<Rightarrow> filedesc option" where
  "fd_used fdp fd = do {
     ff \<leftarrow> ff_get fdp fd;
     if ff_file ff \<noteq> None \<or> ff_allocated ff then None
     else do {
       (lomap, himap) \<leftarrow> set_bits (fd_lomap fdp) (fd_himap fdp) fd;
       let fdp = ff_put (fdp\<lparr>fd_lomap := lomap, fd_himap := himap\<rparr>) fd (ff\<lparr>ff_allocated := True\<rparr>);
       Some (if fd_lastfile fdp < int fd then fdp\<lparr>fd_lastfile := int fd\<rparr> else fdp) } }"

text \<open>The bits of a descriptor that becomes free.\<close>

definition clear_bits :: "u32 list \<Rightarrow> u32 list \<Rightarrow> nat \<Rightarrow> (u32 list \<times> u32 list) option" where
  "clear_bits lomap himap fd = do {
     let off = fd div 32;
     w \<leftarrow> aget lomap off;
     himap \<leftarrow> (if w = - 1 then do {
         h \<leftarrow> aget himap (off div 32);
         if h AND bit_of (off mod 32) = 0 then None
         else aput himap (off div 32) (h AND NOT (bit_of (off mod 32))) }
       else Some himap);
     if w AND bit_of (fd mod 32) = 0 then None
     else do {
       lomap \<leftarrow> aput lomap off (w AND NOT (bit_of (fd mod 32)));
       Some (lomap, himap) } }"

definition fd_unused :: "filedesc \<Rightarrow> nat \<Rightarrow> filedesc option" where
  "fd_unused fdp fd = do {
     ff \<leftarrow> ff_get fdp fd;
     if ff_file ff \<noteq> None \<or> \<not> ff_allocated ff then None
     else do {
       let fdp = (if fd < fd_freefile fdp then fdp\<lparr>fd_freefile := fd\<rparr> else fdp);
       (lomap, himap) \<leftarrow> clear_bits (fd_lomap fdp) (fd_himap fdp) fd;
       let fdp = ff_put (fdp\<lparr>fd_lomap := lomap, fd_himap := himap\<rparr>) fd (ff\<lparr>ff_allocated := False\<rparr>);
       if fd_lastfile fdp < int fd then None
       else if int fd = fd_lastfile fdp then do {
         lst \<leftarrow> fd_last_set fdp fd;
         Some (fdp\<lparr>fd_lastfile := lst\<rparr>) }
       else Some fdp } }"

section \<open>Allocation of a slot\<close>

text \<open>The process: the soft limit on open files, the system limit, whether it ever took a POSIX
  lock (\<open>PK_ADVLOCK\<close>), its credentials, and the errors that the operations of a file return: closing
  it, and setting its flags (\<open>fo_fcntl\<close> of the flags and the number of calls made before) and its
  asynchronous (true) or non-blocking (false) mode.  \<open>min\<close> compares unsigned integers.\<close>

record proc =
  rlim_cur :: u64
  maxfiles :: u32
  pk_advlock :: bool
  l_cred :: nat
  fo_close :: "nat \<Rightarrow> int"
  fo_fcntl :: "nat \<Rightarrow> nat \<Rightarrow> u32 \<Rightarrow> int"
  fo_ioctl :: "nat \<Rightarrow> nat \<Rightarrow> bool \<Rightarrow> u32 \<Rightarrow> int"

definition fd_lim :: "proc \<Rightarrow> nat" where
  "fd_lim p = unat (min (ucast (rlim_cur p)) (maxfiles p))"

text \<open>The words that \<open>fd_lomap[k]\<close> reads: an allocated high map follows its low map in one block
  (\<open>fd_map_alloc\<close>).\<close>

definition lo_mem :: "filedesc \<Rightarrow> u32 list" where
  "lo_mem fdp = (if fd_dmaps fdp then fd_lomap fdp else fd_lomap fdp @ fd_himap fdp)"

text \<open>The search goes up: the result is not below the descriptor asked for.\<close>

lemma ffs_not:
  assumes "sub \<noteq> - 1"
  obtains k where "k < 32" "ffs (NOT sub) = Suc k" "\<not> bit sub k" "\<And>j. j < k \<Longrightarrow> bit sub j"
proof -
  obtain i where i: "i < 32" "\<not> bit sub i"
    using assms by (auto simp: bit_eq_iff)
  then have nn: "find (bit (NOT sub)) [0..<32] \<noteq> None"
    by (auto simp: find_None_iff bit_not_iff_eq)
  then obtain k where k: "find (bit (NOT sub)) [0..<32] = Some k" by auto
  then have "k < 32" "bit (NOT sub) k" "\<forall>j<k. \<not> bit (NOT sub) j"
    by (auto simp: find_Some_iff)
  then show ?thesis
    using that [of k] k by (auto simp: ffs_def bit_not_iff_eq)
qed

lemma bit_low_ones:
  "i < 32 \<Longrightarrow> bit (drop_bit (32 - i) (- 1) :: u32) j \<longleftrightarrow> j < i"
  by (auto simp: bit_drop_bit_eq bit_minus_1_iff bit_mask_iff)

lemma next_zero_scan_ge:
  "next_zero_scan bitmap off maxoff = Some (Some (off', sub)) \<Longrightarrow> off \<le> off' \<and> sub \<noteq> - 1"
  by (induction bitmap off maxoff rule: next_zero_scan.induct)
    (fastforce simp: next_zero_scan.simps [of _ _ "maxoff" for maxoff] split: if_splits bind_splits)

lemma fd_next_zero_ge:
  assumes "fd_next_zero bitmap want bits = Some (Some r)"
  shows "want \<le> r \<and> want \<le> bits"
proof -
  have want: "want = want div 32 * 32 + want mod 32" "want mod 32 < 32" by simp_all
  have scan: "want \<le> off' * 32 + ffs (NOT sub) - 1"
    if "next_zero_scan bitmap off (NDLOSLOTS bits) = Some (Some (off', sub))" "want \<le> off * 32" for off off' sub
  proof -
    have "off \<le> off'" "sub \<noteq> - 1" using next_zero_scan_ge [OF that(1)] by simp_all
    then show ?thesis using that(2) by (auto elim: ffs_not [of sub])
  qed
  have word: "want \<le> want div 32 * 32 + ffs (NOT (w OR drop_bit (32 - want mod 32) (- 1))) - 1"
    if ne: "w OR drop_bit (32 - want mod 32) (- 1) \<noteq> - 1" for w
  proof -
    obtain k where "ffs (NOT (w OR drop_bit (32 - want mod 32) (- 1))) = Suc k"
      "\<not> bit (w OR drop_bit (32 - want mod 32) (- 1)) k"
      using ffs_not [OF ne] by blast
    then have "want mod 32 \<le> k" by (auto simp: bit_or_iff bit_mask_iff not_less)
    then show ?thesis using want \<open>ffs _ = Suc k\<close> by linarith
  qed
  have up: "want \<le> (want div 32 + 1) * 32" by simp
  have down: "want \<le> want div 32 * 32" if "want mod 32 = 0" using that by presburger
  show ?thesis
    using assms word scan [OF _ up] scan [OF _ down]
    by (auto simp: fd_next_zero_def Let_def split: if_splits bind_splits)
qed


lemma next_word: "(hi + 1) * 32 \<le> n \<Longrightarrow> hi < n div (32::nat)"
  by presburger

text \<open>The search starts at the higher of \<open>want\<close> and \<open>fd_freefile\<close>.\<close>

definition alloc_start :: "filedesc \<Rightarrow> int \<Rightarrow> nat" where
  "alloc_start fdp want = (if want < int (fd_freefile fdp) then fd_freefile fdp else nat want)"

function alloc_search :: "filedesc \<Rightarrow> nat \<Rightarrow> int \<Rightarrow> (nat \<times> int) option option" where
  "alloc_search fdp lst want =
     (let i = alloc_start fdp want; off = i div 32
      in case fd_next_zero (fd_himap fdp) off ((lst + NDENTRIES - 1) div 32) of
           None \<Rightarrow> None
         | Some None \<Rightarrow> Some None
         | Some (Some hi) \<Rightarrow>
             (case fd_next_zero (drop hi (lo_mem fdp)) (if off < hi then 0 else i mod 32) NDENTRIES of
                None \<Rightarrow> None
              | Some None \<Rightarrow> alloc_search fdp lst (int ((hi + 1) * 32))
              | Some (Some i) \<Rightarrow>
                  if lst \<le> i + hi * 32 then Some None else Some (Some (i + hi * 32, want))))"
  by pat_completeness auto
termination
proof (relation "measure (\<lambda>(fdp, lst, want). Suc ((lst + 32 - 1) div 32) - alloc_start fdp want div 32)")
  fix fdp :: filedesc and lst :: nat and want :: int and i off x hi y
  assume i: "i = alloc_start fdp want" and off: "off = i div 32"
    and "fd_next_zero (fd_himap fdp) off ((lst + 32 - 1) div 32) = Some x" "x = Some hi"
  then have "fd_next_zero (fd_himap fdp) off ((lst + 32 - 1) div 32) = Some (Some hi)" by blast
  then have "off \<le> hi" "off \<le> (lst + 32 - 1) div 32" using fd_next_zero_ge by blast+
  moreover have "(hi + 1) * 32 \<le> alloc_start fdp (int ((hi + 1) * 32))"
    unfolding alloc_start_def by auto
  then have "hi < alloc_start fdp (int ((hi + 1) * 32)) div 32" by (rule next_word)
  ultimately show "((fdp, lst, int ((hi + 1) * 32)), fdp, lst, want)
    \<in> measure (\<lambda>(fdp, lst, want). Suc ((lst + 32 - 1) div 32) - alloc_start fdp want div 32)"
    unfolding measure_def inv_image_def case_prod_conv less_than_iff mem_Collect_eq i off by linarith
qed simp

declare alloc_search.simps [simp del]

definition fd_alloc :: "proc \<Rightarrow> filedesc \<Rightarrow> int \<Rightarrow> (filedesc \<times> (int + nat)) option" where
  "fd_alloc p fdp want = do {
     let lim = fd_lim p;
     r \<leftarrow> alloc_search fdp (min (nfiles fdp) lim) want;
     (case r of
        None \<Rightarrow> Some (fdp, Inl (if lim \<le> nfiles fdp then EMFILE else ENOSPC))
      | Some (i, want) \<Rightarrow> do {
          ffo \<leftarrow> aget (ffs_of fdp) i;
          fdp \<leftarrow> (if ffo = None then (if i < NDFDFILE then None else Some (ff_put fdp i fdfile_ctor))
                  else Some fdp);
          ff \<leftarrow> ff_get fdp i;
          if ff_file ff \<noteq> None then None
          else do {
            fdp \<leftarrow> fd_used fdp i;
            Some (if want \<le> int (fd_freefile fdp) then fdp\<lparr>fd_freefile := i\<rparr> else fdp, Inr i) } }) }"

section \<open>Growing the table\<close>

text \<open>A new table; its slots are set by the caller.  \<open>int\<close> overflow is \<open>None\<close>.\<close>

definition fd_dtab_alloc :: "nat \<Rightarrow> fdfile option list \<Rightarrow> fdtab option" where
  "fd_dtab_alloc n ff =
     (if NDFILE < n then Some \<lparr>dt_nfiles = n, dt_link = [], dt_ff = ff\<rparr> else None)"

text \<open>The sizes of the tables that are freed.\<close>

definition fd_dtab_free :: "fdtab \<Rightarrow> nat list option" where
  "fd_dtab_free dt = (if list_all (\<lambda>n. NDFILE < n) (dt_nfiles dt # dt_link dt)
     then Some (dt_nfiles dt # dt_link dt) else None)"

text \<open>\<open>oldnfiles\<close> is the size that was read before the lock was taken.\<close>

definition fd_tryexpand :: "filedesc \<Rightarrow> nat \<Rightarrow> filedesc option" where
  "fd_tryexpand fdp oldnfiles =
     (let numfiles = (if oldnfiles < NDEXTENT then NDEXTENT else 2 * oldnfiles)
      in if 2 ^ 31 \<le> numfiles then None
         else if nfiles fdp \<noteq> oldnfiles then Some fdp
         else do {
           old \<leftarrow> aslice (ffs_of fdp) 0 oldnfiles;
           newdt \<leftarrow> fd_dtab_alloc numfiles (old @ replicate (numfiles - oldnfiles) None);
           newdt \<leftarrow> (if NDFILE < oldnfiles then
                       if 1 < fd_refcnt fdp then Some (newdt\<lparr>dt_link := oldnfiles # dt_link (fd_dt fdp)\<rparr>)
                       else do { _ \<leftarrow> fd_dtab_free (fd_dt fdp); Some newdt }
                     else Some newdt);
           fdp \<leftarrow> (if NDHISLOTS oldnfiles < NDHISLOTS numfiles then do {
                      hi \<leftarrow> aslice (fd_himap fdp) 0 (NDHISLOTS oldnfiles);
                      lo \<leftarrow> aslice (fd_lomap fdp) 0 (NDLOSLOTS oldnfiles);
                      Some (fdp\<lparr>fd_himap := hi @ replicate (NDHISLOTS numfiles - NDHISLOTS oldnfiles) 0,
                                fd_lomap := lo @ replicate (NDLOSLOTS numfiles - NDLOSLOTS oldnfiles) 0,
                                fd_dmaps := False\<rparr>) }
                   else Some fdp);
           Some (fdp\<lparr>fd_dt := newdt\<rparr>) })"

lemma fd_tryexpand_grows:
  "fd_tryexpand fdp (nfiles fdp) = Some fdp' \<Longrightarrow> nfiles fdp < nfiles fdp'"
  by (auto simp: fd_tryexpand_def fd_dtab_alloc_def Let_def split: if_splits bind_splits)

text \<open>The loop that \<open>fd_dup\<close> and \<open>fd_allocfile\<close> begin with.\<close>

function alloc_loop :: "proc \<Rightarrow> filedesc \<Rightarrow> int \<Rightarrow> (filedesc \<times> (int + nat)) option" where
  "alloc_loop p fdp want =
     (case fd_alloc p fdp want of
        None \<Rightarrow> None
      | Some (fdp', Inr fd) \<Rightarrow> Some (fdp', Inr fd)
      | Some (fdp', Inl error) \<Rightarrow>
          if error \<noteq> ENOSPC then Some (fdp', Inl error)
          else (case fd_tryexpand fdp' (nfiles fdp') of
                  None \<Rightarrow> None
                | Some fdp'' \<Rightarrow> alloc_loop p fdp'' want))"
  by pat_completeness auto
termination
proof (relation "measure (\<lambda>(p, fdp, want). fd_lim p - nfiles fdp)")
  fix p fdp want x fdp' y error fdp''
  assume "fd_alloc p fdp want = Some x" "(fdp', y) = x" "y = Inl error" "\<not> error \<noteq> ENOSPC"
    and grow: "fd_tryexpand fdp' (nfiles fdp') = Some fdp''"
  then have "fd_alloc p fdp want = Some (fdp', Inl ENOSPC)" by auto
  then have "fdp' = fdp" "nfiles fdp < fd_lim p"
    by (auto simp: fd_alloc_def Let_def split: if_splits bind_splits option.splits)
  then show "((p, fdp'', want), p, fdp, want) \<in> measure (\<lambda>(p, fdp, want). fd_lim p - nfiles fdp)"
    using fd_tryexpand_grows [OF grow [unfolded \<open>fdp' = fdp\<close>]] by simp
qed simp

declare alloc_loop.simps [simp del]

end
