(* ===== verification/Fd_Bitmap.thy ===== *)
theory Fd_Bitmap
  imports Fd_Table
begin

text \<open>
  The two-level bitmaps of the descriptor table: what the searches of \<^verbatim>\<open>kern_descrip.c\<close> find, the
  well-formedness of a descriptor structure, and its preservation by \<open>fd_used\<close> and \<open>fd_unused\<close>.
\<close>

section \<open>Bits of a bitmap\<close>

definition bm_bit :: "u32 list \<Rightarrow> nat \<Rightarrow> bool" where
  "bm_bit bm k \<longleftrightarrow> k div 32 < length bm \<and> bit (bm ! (k div 32)) (k mod 32)"

lemma bm_bit_split:
  "i < 32 \<Longrightarrow> bm_bit bm (off * 32 + i) \<longleftrightarrow> off < length bm \<and> bit (bm ! off) i"
  by (simp add: bm_bit_def)

lemma div32_iff: "k div 32 = off \<longleftrightarrow> off * 32 \<le> k \<and> k < (off + 1) * 32" for k off :: nat
  by auto

lemma div32_less: "k div 32 < n \<Longrightarrow> k < n * 32" for k n :: nat
  by auto

lemma word_ones_iff: "(w :: u32) = - 1 \<longleftrightarrow> (\<forall>i<32. bit w i)"
  by (auto simp: bit_eq_iff)

lemma not_ones: "\<not> bit w (k mod 32) \<Longrightarrow> (w :: u32) \<noteq> - 1"
  by (auto simp: bit_minus_1_iff)

lemma word_zero_iff: "(w :: u32) = 0 \<longleftrightarrow> (\<forall>i<32. \<not> bit w i)"
  by (auto simp: bit_eq_iff dest: bit_imp_le_length)

lemma bm_bit_ones:
  assumes "off < length bm" "bm ! off = - 1" "off * 32 \<le> k" "k < (off + 1) * 32"
  shows "bm_bit bm k"
proof -
  have "k div 32 = off" "k mod 32 < 32" using assms(3,4) by auto
  then show ?thesis using assms(1,2) by (simp add: bm_bit_def)
qed

lemma bm_bit_update:
  assumes "off < length bm"
  shows "bm_bit (bm[off := w]) k \<longleftrightarrow> (if k div 32 = off then bit w (k mod 32) else bm_bit bm k)"
  using assms by (auto simp: bm_bit_def nth_list_update)

lemma bm_bit_append_zeros: "bm_bit (bm @ replicate n 0) k \<longleftrightarrow> bm_bit bm k"
  by (auto simp: bm_bit_def nth_append)

lemma bm_bit_take:
  assumes "\<And>k. bm_bit bm k \<Longrightarrow> k div 32 < n"
  shows "bm_bit (take n bm) k \<longleftrightarrow> bm_bit bm k"
  using assms [of k] by (auto simp: bm_bit_def)

lemma bm_bit_zeros [simp]: "\<not> bm_bit (replicate n 0) k"
  by (auto simp: bm_bit_def)

section \<open>Searching\<close>

lemma next_zero_scan_spec:
  assumes "maxoff \<le> length bm"
  shows "case next_zero_scan bm off maxoff of
           None \<Rightarrow> False
         | Some None \<Rightarrow> \<forall>j. off \<le> j \<and> j < maxoff \<longrightarrow> bm ! j = - 1
         | Some (Some (off', sub)) \<Rightarrow>
             off \<le> off' \<and> off' < maxoff \<and> sub = bm ! off' \<and> sub \<noteq> - 1 \<and> (\<forall>j. off \<le> j \<and> j < off' \<longrightarrow> bm ! j = - 1)"
  using assms
proof (induction bm off maxoff rule: next_zero_scan.induct)
  case (1 bm off maxoff)
  show ?case
  proof (cases "off < maxoff \<and> bm ! off = - 1")
    case True
    then have "next_zero_scan bm off maxoff = next_zero_scan bm (off + 1) maxoff"
      using 1(2) by (simp add: next_zero_scan.simps [of bm off])
    moreover have "j = off \<or> off + 1 \<le> j" if "off \<le> j" for j using that by auto
    ultimately show ?thesis
      using "1.IH" [of "bm ! off"] 1(2) True by (fastforce split: option.splits)
  next
    case False
    then show ?thesis
      using 1(2) by (auto simp: next_zero_scan.simps [of bm off])
  qed
qed

lemma ones_until:
  assumes "\<And>j. off \<le> j \<Longrightarrow> j < off' \<Longrightarrow> bm ! j = - 1" "off' \<le> length bm" "off * 32 \<le> k" "k < off' * 32"
  shows "bm_bit bm k"
proof -
  have "off \<le> k div 32" "k div 32 < off'" using assms(3,4) by auto
  then show ?thesis using assms(1,2) by (auto simp: bm_bit_def)
qed

lemma zero_in_word:
  assumes "sub \<noteq> - 1" "\<And>i. i < 32 \<Longrightarrow> bit sub i \<longleftrightarrow> i < low \<or> bit w i" "off < length bm" "bm ! off = w"
  shows "\<not> bm_bit bm (off * 32 + ffs (NOT sub) - 1) \<and>
    (off * 32 + ffs (NOT sub) - 1) div 32 = off \<and>
    (\<forall>k. off * 32 + low \<le> k \<and> k < off * 32 + ffs (NOT sub) - 1 \<longrightarrow> bm_bit bm k)"
proof -
  obtain z where z: "z < 32" "ffs (NOT sub) = Suc z" "\<not> bit sub z" "\<And>j. j < z \<Longrightarrow> bit sub j"
    using ffs_not [OF assms(1)] by blast
  have "bm_bit bm k" if "off * 32 + low \<le> k" "k < off * 32 + z" for k
  proof -
    have "off * 32 \<le> k" using that(1) by simp
    then obtain i where i: "k = off * 32 + i" using le_Suc_ex by blast
    then have "low \<le> i" "i < z" using that by auto
    then show ?thesis using z(1) z(4) [of i] assms(2) [of i] assms(3,4) i by (simp add: bm_bit_split)
  qed
  moreover have "\<not> bm_bit bm (off * 32 + z)"
    using z(1,3) assms(2) [of z] assms(4) by (simp add: bm_bit_split)
  ultimately show ?thesis using z(1,2) by simp
qed

lemma scan_hit:
  assumes "maxoff \<le> length bm" "next_zero_scan bm off maxoff = Some (Some (off', sub))"
  shows "off * 32 \<le> off' * 32 + ffs (NOT sub) - 1 \<and> off' * 32 + ffs (NOT sub) - 1 < maxoff * 32 \<and>
    \<not> bm_bit bm (off' * 32 + ffs (NOT sub) - 1) \<and>
    (\<forall>k. off * 32 \<le> k \<and> k < off' * 32 + ffs (NOT sub) - 1 \<longrightarrow> bm_bit bm k)"
proof -
  have o: "off \<le> off'" "off' < maxoff" "sub = bm ! off'" "sub \<noteq> - 1"
    and ones: "\<And>j. off \<le> j \<Longrightarrow> j < off' \<Longrightarrow> bm ! j = - 1"
    using next_zero_scan_spec [OF assms(1), of off, unfolded assms(2) option.case case_prod_conv] by blast+
  have len: "off' < length bm" using o(2) assms(1) by simp
  have "\<not> bm_bit bm (off' * 32 + ffs (NOT sub) - 1) \<and> (off' * 32 + ffs (NOT sub) - 1) div 32 = off' \<and>
    (\<forall>k. off' * 32 \<le> k \<and> k < off' * 32 + ffs (NOT sub) - 1 \<longrightarrow> bm_bit bm k)"
    by (rule zero_in_word [OF o(4) _ len o(3) [symmetric], where low = 0, unfolded add_0_right]) simp
  then have z: "\<not> bm_bit bm (off' * 32 + ffs (NOT sub) - 1)" "(off' * 32 + ffs (NOT sub) - 1) div 32 = off'"
    "\<And>k. off' * 32 \<le> k \<Longrightarrow> k < off' * 32 + ffs (NOT sub) - 1 \<Longrightarrow> bm_bit bm k"
    by blast+
  have "bm_bit bm k" if "off * 32 \<le> k" "k < off' * 32 + ffs (NOT sub) - 1" for k
    using z(3) [of k] ones_until [of off off' bm k, OF ones] len that by (cases "k < off' * 32") simp_all
  moreover have "off * 32 \<le> off' * 32" using o(1) by simp
  moreover have "off' * 32 \<le> off' * 32 + ffs (NOT sub) - 1" "off' * 32 + ffs (NOT sub) - 1 < (off' + 1) * 32"
    using z(2) unfolding div32_iff by blast+
  moreover have "(off' + 1) * 32 \<le> maxoff * 32" using o(2) by simp
  ultimately show ?thesis using z(1) by auto
qed

lemma scan_none:
  assumes "maxoff \<le> length bm" "next_zero_scan bm off maxoff = Some None" "off * 32 \<le> k" "k < maxoff * 32"
  shows "bm_bit bm k"
  using next_zero_scan_spec [OF assms(1), of off] assms ones_until [of off maxoff bm k] by simp

text \<open>The first clear bit at or above \<open>want\<close>, or none below \<open>bits\<close>.\<close>

definition first_zero :: "u32 list \<Rightarrow> nat \<Rightarrow> nat \<Rightarrow> nat option \<Rightarrow> bool" where
  "first_zero bm want bits r \<longleftrightarrow>
     (case r of
        None \<Rightarrow> \<forall>k. want \<le> k \<and> k < bits \<longrightarrow> bm_bit bm k
      | Some r \<Rightarrow> want \<le> r \<and> r < NDLOSLOTS bits * 32 \<and> \<not> bm_bit bm r \<and> (\<forall>k. want \<le> k \<and> k < r \<longrightarrow> bm_bit bm k))"

lemma scan_first_zero:
  assumes "NDLOSLOTS bits \<le> length bm" "\<And>k. want \<le> k \<Longrightarrow> k < off * 32 \<Longrightarrow> bm_bit bm k" "want \<le> off * 32"
  shows "\<exists>r. map_option (map_option (\<lambda>(off, sub). off * 32 + ffs (NOT sub) - 1))
    (next_zero_scan bm off (NDLOSLOTS bits)) = Some r \<and> first_zero bm want bits r"
proof -
  have bits: "bits \<le> NDLOSLOTS bits * 32" unfolding NDLOSLOTS_def by presburger
  have "next_zero_scan bm off (NDLOSLOTS bits) \<noteq> None"
    using next_zero_scan_spec [OF assms(1), of off] by (cases "next_zero_scan bm off (NDLOSLOTS bits)") simp_all
  then consider "next_zero_scan bm off (NDLOSLOTS bits) = Some None"
    | off' sub where "next_zero_scan bm off (NDLOSLOTS bits) = Some (Some (off', sub))" by fastforce
  then show ?thesis
  proof cases
    case 1
    have "bm_bit bm k" if "want \<le> k" "k < bits" for k
      using scan_none [OF assms(1) 1, of k] assms(2) [of k] that bits by (cases "k < off * 32") simp_all
    then show ?thesis using 1 by (simp add: first_zero_def)
  next
    case 2
    note f = scan_hit [OF assms(1) 2]
    have "bm_bit bm k" if "want \<le> k" "k < off' * 32 + ffs (NOT sub) - 1" for k
      using f assms(2) [of k] that by (cases "k < off * 32") simp_all
    then show ?thesis using 2 f assms(3) by (simp add: first_zero_def)
  qed
qed

lemma slot_in_map:
  assumes "want \<le> bits" "want mod 32 \<noteq> 0"
  shows "want div 32 < NDLOSLOTS bits"
proof -
  have "(want div 32 * 32 + 32) div 32 \<le> (bits + 31) div 32"
    using assms div_mult_mod_eq [of want 32] by (intro div_le_mono) linarith
  then show ?thesis by (simp add: NDLOSLOTS_def add.commute)
qed

lemma fd_next_zero_spec:
  assumes len: "NDLOSLOTS bits \<le> length bm"
  shows "\<exists>r. fd_next_zero bm want bits = Some r \<and> first_zero bm want bits r"
proof -
  let ?off = "want div 32" and ?i = "want mod 32"
  let ?found = "map_option (\<lambda>(off, sub :: u32). off * 32 + ffs (NOT sub) - 1)"
  consider (past) "bits < want" | (aligned) "want \<le> bits" "?i = 0" | (inside) "want \<le> bits" "?i \<noteq> 0" by linarith
  then show ?thesis
  proof cases
    case past
    then show ?thesis by (auto simp: fd_next_zero_def first_zero_def)
  next
    case aligned
    then have "?off * 32 = want" by presburger
    then show ?thesis
      using scan_first_zero [OF len, of want ?off] aligned by (simp add: fd_next_zero_def Let_def)
  next
    case inside
    have w: "?off * 32 + ?i = want" by simp
    have off: "?off < NDLOSLOTS bits" using inside by (rule slot_in_map)
    then have off: "?off < NDLOSLOTS bits" "?off < length bm" using len by simp_all
    define sub where "sub = bm ! ?off OR drop_bit (32 - ?i) (- 1)"
    have sub: "bit sub i \<longleftrightarrow> i < ?i \<or> bit (bm ! ?off) i" if "i < 32" for i
      by (auto simp: sub_def bit_or_iff bit_mask_iff)
    show ?thesis
    proof (cases "sub = - 1")
      case True
      have "bm_bit bm k" if k: "want \<le> k" "k < (?off + 1) * 32" for k
      proof -
        have k32: "k div 32 = ?off" unfolding div32_iff using k by simp
        then have "?i \<le> k mod 32" using k(1) w div_mult_mod_eq [of k 32] by linarith
        with k32 show ?thesis using sub [of "k mod 32"] True off by (simp add: bm_bit_def)
      qed
      moreover have "want \<le> (?off + 1) * 32" by simp
      ultimately show ?thesis
        using scan_first_zero [OF len, of want "?off + 1"] inside True off
        by (simp add: fd_next_zero_def Let_def sub_def)
    next
      case False
      have z: "\<not> bm_bit bm (?off * 32 + ffs (NOT sub) - 1) \<and> (?off * 32 + ffs (NOT sub) - 1) div 32 = ?off \<and>
        (\<forall>k. want \<le> k \<and> k < ?off * 32 + ffs (NOT sub) - 1 \<longrightarrow> bm_bit bm k)"
        by (rule zero_in_word [OF False _ off(2) refl, where low = ?i, unfolded w]) (rule sub)
      have "fd_next_zero bm want bits = Some (Some (?off * 32 + ffs (NOT sub) - 1))"
        using inside False off by (simp add: fd_next_zero_def Let_def sub_def)
      moreover have "want \<le> ?off * 32 + ffs (NOT sub) - 1"
        using fd_next_zero_ge [OF calculation] by simp
      moreover have "?off * 32 + ffs (NOT sub) - 1 < NDLOSLOTS bits * 32"
        using z off(1) by (intro div32_less) simp
      ultimately show ?thesis using z by (simp add: first_zero_def)
    qed
  qed
qed

section \<open>Well-formed structures\<close>

definition used_slot :: "filedesc \<Rightarrow> nat \<Rightarrow> bool" where
  "used_slot fdp fd \<longleftrightarrow> (\<exists>ff. ff_get fdp fd = Some ff \<and> ff_allocated ff)"

text \<open>A table has 20 slots, or 50 doubled some times.\<close>

definition table_size :: "nat \<Rightarrow> bool" where
  "table_size n \<longleftrightarrow> n = NDFILE \<or> (\<exists>k. n = NDEXTENT * 2 ^ k)"

lemma table_size_ge: "table_size n \<Longrightarrow> NDFILE \<le> n"
proof -
  have "1 \<le> (2 :: nat) ^ k" for k by simp
  then have "20 \<le> 50 * (2 :: nat) ^ k" for k using \<open>1 \<le> 2 ^ k\<close> by linarith
  then show "table_size n \<Longrightarrow> NDFILE \<le> n" by (auto simp: table_size_def)
qed

definition shape_ok :: "filedesc \<Rightarrow> bool" where
  "shape_ok fdp \<longleftrightarrow>
     length (ffs_of fdp) = nfiles fdp \<and>
     table_size (nfiles fdp) \<and> nfiles fdp < 2 ^ 31 \<and>
     fd_dmaps fdp = (nfiles fdp \<le> 1024) \<and>
     length (fd_lomap fdp) = (if fd_dmaps fdp then 32 else NDLOSLOTS (nfiles fdp)) \<and>
     length (fd_himap fdp) = (if fd_dmaps fdp then 1 else NDHISLOTS (nfiles fdp)) \<and>
     (\<forall>fd<NDFDFILE. ff_get fdp fd \<noteq> None) \<and>
     list_all (\<lambda>n. NDFILE < n) (dt_link (fd_dt fdp)) \<and> (nfiles fdp = NDFILE \<longrightarrow> dt_link (fd_dt fdp) = [])"

text \<open>The high map has a bit for each full word of the low map.\<close>

definition hi_ok :: "u32 list \<Rightarrow> u32 list \<Rightarrow> bool" where
  "hi_ok lo hi \<longleftrightarrow> (\<forall>off. bm_bit hi off \<longleftrightarrow> off < length lo \<and> lo ! off = - 1)"

definition maps_ok :: "filedesc \<Rightarrow> bool" where
  "maps_ok fdp \<longleftrightarrow>
     (\<forall>fd. bm_bit (fd_lomap fdp) fd \<longleftrightarrow> used_slot fdp fd) \<and>
     hi_ok (fd_lomap fdp) (fd_himap fdp)"

definition slots_ok :: "filedesc \<Rightarrow> bool" where
  "slots_ok fdp \<longleftrightarrow> (\<forall>fd ff. ff_get fdp fd = Some ff \<and> \<not> ff_allocated ff \<longrightarrow> ff_file ff = None \<and> \<not> ff_exclose ff)"

definition marks_ok :: "filedesc \<Rightarrow> bool" where
  "marks_ok fdp \<longleftrightarrow>
     (\<forall>fd<fd_freefile fdp. used_slot fdp fd) \<and>
     (\<forall>fd. used_slot fdp fd \<longrightarrow> int fd \<le> fd_lastfile fdp) \<and>
     - 1 \<le> fd_lastfile fdp \<and> (0 \<le> fd_lastfile fdp \<longrightarrow> used_slot fdp (nat (fd_lastfile fdp)))"

definition fd_wf :: "filedesc \<Rightarrow> bool" where
  "fd_wf fdp \<longleftrightarrow> shape_ok fdp \<and> maps_ok fdp \<and> slots_ok fdp \<and> marks_ok fdp"

lemmas fd_wf_defs = fd_wf_def shape_ok_def maps_ok_def slots_ok_def marks_ok_def

lemma ff_get_Some_iff: "ff_get fdp fd = Some ff \<longleftrightarrow> fd < length (ffs_of fdp) \<and> ffs_of fdp ! fd = Some ff"
  by (auto simp: ff_get_def aget_def)

lemma ff_get_put:
  "fd < length (ffs_of fdp) \<Longrightarrow> ff_get (ff_put fdp fd ff) fd' = (if fd' = fd then Some ff else ff_get fdp fd')"
  by (auto simp: ff_get_def ff_put_def aget_def nth_list_update)

lemma ff_get_bound: "ff_get fdp fd = Some ff \<Longrightarrow> fd < length (ffs_of fdp)"
  by (simp add: ff_get_Some_iff)

lemma ff_put_fields [simp]:
  "fd_himap (ff_put fdp fd ff) = fd_himap fdp" "fd_lomap (ff_put fdp fd ff) = fd_lomap fdp"
  "fd_dmaps (ff_put fdp fd ff) = fd_dmaps fdp" "fd_lastfile (ff_put fdp fd ff) = fd_lastfile fdp"
  "fd_refcnt (ff_put fdp fd ff) = fd_refcnt fdp" "fd_freefile (ff_put fdp fd ff) = fd_freefile fdp"
  "fd_exclose (ff_put fdp fd ff) = fd_exclose fdp" "nfiles (ff_put fdp fd ff) = nfiles fdp"
  "dt_link (fd_dt (ff_put fdp fd ff)) = dt_link (fd_dt fdp)"
  "length (ffs_of (ff_put fdp fd ff)) = length (ffs_of fdp)"
  by (simp_all add: ff_put_def)

lemma bm_bit_set:
  assumes "fd div 32 < length bm"
  shows "bm_bit (bm[fd div 32 := bm ! (fd div 32) OR bit_of (fd mod 32)]) k \<longleftrightarrow> k = fd \<or> bm_bit bm k"
proof -
  have "k = fd \<longleftrightarrow> k div 32 = fd div 32 \<and> k mod 32 = fd mod 32" by (metis div_mult_mod_eq)
  then show ?thesis
    using assms by (auto simp: bm_bit_update bit_mask) (auto simp: bm_bit_def)
qed

lemma bm_bit_clear:
  assumes "fd div 32 < length bm"
  shows "bm_bit (bm[fd div 32 := bm ! (fd div 32) AND NOT (bit_of (fd mod 32))]) k \<longleftrightarrow> k \<noteq> fd \<and> bm_bit bm k"
proof -
  have "k = fd \<longleftrightarrow> k div 32 = fd div 32 \<and> k mod 32 = fd mod 32" by (metis div_mult_mod_eq)
  then show ?thesis
    using assms by (auto simp: bm_bit_update bit_mask) (auto simp: bm_bit_def)
qed

lemma set_bits_spec:
  assumes "hi_ok lo hi" "\<not> bm_bit lo fd" "fd div 32 < length lo" "fd div 32 div 32 < length hi"
  obtains lo' hi' where "set_bits lo hi fd = Some (lo', hi')" "length lo' = length lo" "length hi' = length hi"
    "hi_ok lo' hi'" "\<And>k. bm_bit lo' k \<longleftrightarrow> k = fd \<or> bm_bit lo k"
proof -
  let ?off = "fd div 32"
  let ?w = "lo ! ?off OR bit_of (fd mod 32)"
  let ?lo = "lo[?off := ?w]"
  let ?hi = "if ?w = - 1 then hi[?off div 32 := hi ! (?off div 32) OR bit_of (?off mod 32)] else hi"
  have w: "\<not> bit (lo ! ?off) (fd mod 32)" using assms(2,3) by (simp add: bm_bit_def)
  then have "lo ! ?off \<noteq> - 1" by (rule not_ones)
  then have h: "\<not> bm_bit hi ?off" using assms(1) by (simp add: hi_ok_def)
  have "set_bits lo hi fd = Some (?lo, ?hi)"
    using assms(3,4) w h by (simp add: set_bits_def bit_mask bm_bit_def Let_def)
  moreover have "hi_ok ?lo ?hi"
    using assms(1,3,4) h by (auto simp: hi_ok_def bm_bit_set nth_list_update)
  ultimately show ?thesis using that [of ?lo ?hi] assms(3) by (simp add: bm_bit_set)
qed

lemma clear_bits_spec:
  assumes "hi_ok lo hi" "bm_bit lo fd" "fd div 32 div 32 < length hi"
  obtains lo' hi' where "clear_bits lo hi fd = Some (lo', hi')" "length lo' = length lo" "length hi' = length hi"
    "hi_ok lo' hi'" "\<And>k. bm_bit lo' k \<longleftrightarrow> k \<noteq> fd \<and> bm_bit lo k"
proof -
  let ?off = "fd div 32"
  let ?w = "lo ! ?off AND NOT (bit_of (fd mod 32))"
  let ?lo = "lo[?off := ?w]"
  let ?hi = "if lo ! ?off = - 1 then hi[?off div 32 := hi ! (?off div 32) AND NOT (bit_of (?off mod 32))] else hi"
  have w: "?off < length lo" "bit (lo ! ?off) (fd mod 32)" using assms(2) by (simp_all add: bm_bit_def)
  have "\<not> bit ?w (fd mod 32)" by (simp add: bit_mask)
  then have full: "?w \<noteq> - 1" by (rule not_ones)
  have h: "bm_bit hi ?off \<longleftrightarrow> lo ! ?off = - 1" using assms(1) w by (simp add: hi_ok_def)
  have hb: "bm_bit ?hi k \<longleftrightarrow> k \<noteq> ?off \<and> bm_bit hi k" for k
    using h bm_bit_clear [OF assms(3), of k] by (cases "lo ! ?off = - 1") auto
  have "hi_ok ?lo ?hi"
    unfolding hi_ok_def hb using assms(1) [unfolded hi_ok_def] full w(1) by (simp add: nth_list_update)
  moreover have "lo ! ?off AND bit_of (fd mod 32) \<noteq> 0" using w(2) by (simp add: and_bit_of_eq_0)
  moreover have "lo ! ?off = - 1 \<Longrightarrow> hi ! (?off div 32) AND bit_of (?off mod 32) \<noteq> 0"
    using h by (simp add: and_bit_of_eq_0 bm_bit_def)
  then have "clear_bits lo hi fd = Some (?lo, ?hi)"
    using assms(3) w(1) calculation(2) unfolding clear_bits_def Let_def by (cases "lo ! ?off = - 1") simp_all
  ultimately have "hi_ok ?lo ?hi" "clear_bits lo hi fd = Some (?lo, ?hi)" by blast+
  then show ?thesis using that [of ?lo ?hi] w by (simp add: bm_bit_clear)
qed

lemma NDLOSLOTS_le: "NDLOSLOTS n \<le> m \<longleftrightarrow> n \<le> m * 32"
  unfolding NDLOSLOTS_def by linarith

lemma less_NDLOSLOTS: "off < NDLOSLOTS n \<longleftrightarrow> off * 32 < n"
  unfolding NDLOSLOTS_def by linarith

lemma NDHISLOTS_le: "NDHISLOTS n \<le> m \<longleftrightarrow> n \<le> m * 1024"
  unfolding NDHISLOTS_def using NDLOSLOTS_le [of n "m * 32"] NDLOSLOTS_le [of "NDLOSLOTS n" m]
  unfolding NDLOSLOTS_def by (simp add: mult.commute)

lemma slot_words:
  assumes "shape_ok fdp" "fd < nfiles fdp"
  shows "fd div 32 < length (fd_lomap fdp)" "fd div 32 div 32 < length (fd_himap fdp)"
proof -
  show "fd div 32 < length (fd_lomap fdp)"
    using assms by (auto simp: shape_ok_def less_NDLOSLOTS)
  have "fd div 1024 < NDHISLOTS (nfiles fdp)"
    using assms(2) NDHISLOTS_le [of "nfiles fdp" "fd div 1024"] by linarith
  then show "fd div 32 div 32 < length (fd_himap fdp)"
    using assms by (auto simp: shape_ok_def div_mult2_eq [symmetric])
qed

lemma used_slot_put:
  "fd < length (ffs_of fdp) \<Longrightarrow>
   used_slot (ff_put fdp fd ff) fd' \<longleftrightarrow> (if fd' = fd then ff_allocated ff else used_slot fdp fd')"
  by (auto simp: used_slot_def ff_get_put)

lemma used_slot_bound: "used_slot fdp fd \<Longrightarrow> fd < length (ffs_of fdp)"
  by (auto simp: used_slot_def dest: ff_get_bound)

text \<open>Updates that do not touch the slots.\<close>

lemma ff_get_cong [simp]:
  "ff_get (fdp\<lparr>fd_lomap := lo, fd_himap := hi\<rparr>) = ff_get fdp" "ff_get (fdp\<lparr>fd_lastfile := l\<rparr>) = ff_get fdp"
  "ff_get (fdp\<lparr>fd_freefile := n\<rparr>) = ff_get fdp" "ff_get (fdp\<lparr>fd_exclose := e\<rparr>) = ff_get fdp"
  "ff_get (fdp\<lparr>fd_refcnt := r\<rparr>) = ff_get fdp"
  by (simp_all add: fun_eq_iff ff_get_def)

lemma used_slot_cong [simp]:
  "used_slot (fdp\<lparr>fd_lomap := lo, fd_himap := hi\<rparr>) = used_slot fdp" "used_slot (fdp\<lparr>fd_lastfile := l\<rparr>) = used_slot fdp"
  "used_slot (fdp\<lparr>fd_freefile := n\<rparr>) = used_slot fdp" "used_slot (fdp\<lparr>fd_exclose := e\<rparr>) = used_slot fdp"
  "used_slot (fdp\<lparr>fd_refcnt := r\<rparr>) = used_slot fdp"
  by (simp_all add: fun_eq_iff used_slot_def)

lemma fd_wf_init: "fd_wf fd_init"
proof -
  have slot: "ff_get fd_init fd = Some ff \<Longrightarrow> ff = fdfile_ctor" for fd ff
    by (auto simp: ff_get_Some_iff fd_init_def filedesc_ctor_def nth_append split: if_splits)
  have low: "fd < 6 \<Longrightarrow> ff_get fd_init fd \<noteq> None" for fd
    by (simp add: ff_get_def fd_init_def filedesc_ctor_def nth_append)
  have "\<not> used_slot fd_init fd" for fd using slot by (fastforce simp: used_slot_def fdfile_ctor_def)
  moreover have "shape_ok fd_init"
    using low by (simp add: shape_ok_def) (simp add: fd_init_def filedesc_ctor_def table_size_def)
  moreover have "hi_ok (fd_lomap fd_init) (fd_himap fd_init)" "\<not> bm_bit (fd_lomap fd_init) fd" for fd
    by (auto simp: fd_init_def filedesc_ctor_def hi_ok_def bm_bit_def nth_append) 
  moreover have "slots_ok fd_init" using slot by (fastforce simp: slots_ok_def fdfile_ctor_def)
  ultimately show ?thesis
    by (simp add: fd_wf_def maps_ok_def marks_ok_def) (simp add: fd_init_def filedesc_ctor_def)
qed

end
