(* ===== verification/Fd_Alloc.thy ===== *)
theory Fd_Alloc
  imports Fd_Bitmap
begin

text \<open>
  Taking and releasing a slot keep a descriptor structure well formed, and \<open>fd_alloc\<close> finds the
  lowest free descriptor.
\<close>

lemma bind_map_option: "Option.bind x (\<lambda>y. Some (f y)) = map_option f x"
  by (cases x) simp_all

section \<open>The last descriptor\<close>

lemma last_word_spec:
  "n \<le> length bm \<Longrightarrow>
   case last_word bm n of
     None \<Rightarrow> False
   | Some None \<Rightarrow> \<forall>j<n. bm ! j = 0
   | Some (Some off) \<Rightarrow> off < n \<and> bm ! off \<noteq> 0 \<and> (\<forall>j. off < j \<and> j < n \<longrightarrow> bm ! j = 0)"
proof (induction n)
  case (Suc n)
  then show ?case
    by (cases "bm ! n = 0") (auto simp: less_Suc_eq split: option.splits)
qed simp

lemma last_slot_spec:
  assumes "i < length (ffs_of fdp)"
  shows "\<exists>j\<le>i. last_slot (ffs_of fdp) i = Some j \<and> (0 < j \<longrightarrow> used_slot fdp j) \<and> (\<forall>k. j < k \<and> k \<le> i \<longrightarrow> \<not> used_slot fdp k)"
  using assms
proof (induction i)
  case (Suc i)
  show ?case
  proof (cases "used_slot fdp (Suc i)")
    case True
    then show ?thesis
      using Suc.prems by (auto simp: used_slot_def ff_get_Some_iff intro!: exI [of _ "Suc i"])
  next
    case False
    then have "last_slot (ffs_of fdp) (Suc i) = last_slot (ffs_of fdp) i"
      using Suc.prems by (auto simp: used_slot_def ff_get_Some_iff split: option.splits)
    moreover obtain j where "j \<le> i" "last_slot (ffs_of fdp) i = Some j" "0 < j \<longrightarrow> used_slot fdp j"
      "\<forall>k. j < k \<and> k \<le> i \<longrightarrow> \<not> used_slot fdp k" using Suc by auto
    ultimately show ?thesis using False by (metis le_Suc_eq)
  qed
qed simp

lemma fd_last_set_spec:
  assumes bits: "\<And>k. bm_bit (fd_lomap fdp) k \<longleftrightarrow> used_slot fdp k"
    and below: "\<And>k. used_slot fdp k \<Longrightarrow> k < lst"
    and bounds: "lst \<le> length (ffs_of fdp)" "lst \<le> length (fd_lomap fdp) * 32"
  obtains l where "fd_last_set fdp lst = Some l" "- 1 \<le> l" "\<And>k. used_slot fdp k \<Longrightarrow> int k \<le> l"
    "0 \<le> l \<Longrightarrow> used_slot fdp (nat l)"
proof -
  define n where "n = nat ((int lst - 1) div 32 + 1)"
  have n: "n \<le> length (fd_lomap fdp)" "lst \<le> n * 32" using bounds(2) unfolding n_def by auto
  note lw = last_word_spec [OF n(1)]
  have "last_word (fd_lomap fdp) n \<noteq> None" using lw by (cases "last_word (fd_lomap fdp) n") simp_all
  then consider (none) "last_word (fd_lomap fdp) n = Some None"
    | (some) off where "last_word (fd_lomap fdp) n = Some (Some off)" by fastforce
  then show ?thesis
  proof cases
    case none
    then have zero: "\<forall>j<n. fd_lomap fdp ! j = 0" using lw by simp
    have "\<not> used_slot fdp k" for k
    proof
      assume u: "used_slot fdp k"
      then have "k div 32 < n" using below [of k] n(2) by linarith
      then show False using u bits [of k] zero by (simp add: bm_bit_def)
    qed
    then show ?thesis using that [of "- 1"] none by (simp add: fd_last_set_def n_def [symmetric])
  next
    case some
    then have off: "off < n" "fd_lomap fdp ! off \<noteq> 0" and zero: "\<And>j. off < j \<Longrightarrow> j < n \<Longrightarrow> fd_lomap fdp ! j = 0"
      using lw by simp_all
    obtain i where "i < 32" "bit (fd_lomap fdp ! off) i" using off(2) word_zero_iff by blast
    then have u: "used_slot fdp (off * 32 + i)" using bits [of "off * 32 + i"] off(1) n(1) by (simp add: bm_bit_split)
    define m where "m = (if lst \<le> (off + 1) * 32 - 1 then lst - 1 else (off + 1) * 32 - 1)"
    have m: "m < length (ffs_of fdp)" "off * 32 + i \<le> m"
      using below [OF u] bounds(1) \<open>i < 32\<close> unfolding m_def by auto
    have top: "k \<le> m" if "used_slot fdp k" for k
    proof -
      have "\<not> off < k div 32"
        using zero [of "k div 32"] bits [of k] that below [OF that] n(2) by (auto simp: bm_bit_def)
      then show ?thesis using below [OF that] unfolding m_def by auto
    qed
    obtain j where j: "last_slot (ffs_of fdp) m = Some j" "0 < j \<longrightarrow> used_slot fdp j" "\<And>k. j < k \<Longrightarrow> k \<le> m \<Longrightarrow> \<not> used_slot fdp k"
      using last_slot_spec [OF m(1)] by blast
    have "off * 32 + i \<le> j" using j(3) [of "off * 32 + i"] u m(2) by (meson not_le)
    then have "used_slot fdp j" using j(2) u by (cases "j = 0") auto
    moreover have "fd_last_set fdp lst = Some (int j)"
      using some j(1) unfolding m_def
      by (cases "lst \<le> (off + 1) * 32 - 1") (simp_all add: fd_last_set_def n_def [symmetric] Let_def)
    moreover have "k \<le> j" if "used_slot fdp k" for k using j(3) [of k] top that by (meson not_le)
    ultimately show ?thesis using that [of "int j"] by simp
  qed
qed

section \<open>Taking and releasing a slot\<close>

lemma shape_ok_cong:
  assumes "shape_ok fdp" "nfiles fdp' = nfiles fdp" "length (ffs_of fdp') = length (ffs_of fdp)"
    "fd_dmaps fdp' = fd_dmaps fdp" "length (fd_lomap fdp') = length (fd_lomap fdp)"
    "length (fd_himap fdp') = length (fd_himap fdp)" "dt_link (fd_dt fdp') = dt_link (fd_dt fdp)"
    "\<And>fd. ff_get fdp fd \<noteq> None \<Longrightarrow> ff_get fdp' fd \<noteq> None"
  shows "shape_ok fdp'"
  using assms unfolding shape_ok_def by simp

text \<open>What an operation on one slot leaves alone.\<close>

definition same_frame :: "filedesc \<Rightarrow> filedesc \<Rightarrow> bool" where
  "same_frame fdp fdp' \<longleftrightarrow>
     nfiles fdp' = nfiles fdp \<and> length (ffs_of fdp') = length (ffs_of fdp) \<and> fd_refcnt fdp' = fd_refcnt fdp \<and>
     fd_exclose fdp' = fd_exclose fdp \<and> dt_link (fd_dt fdp') = dt_link (fd_dt fdp) \<and> fd_dmaps fdp' = fd_dmaps fdp"

lemma fd_wf_slot: "fd_wf fdp \<Longrightarrow> ff_get fdp fd = Some ff \<Longrightarrow> fd < nfiles fdp"
  by (auto simp: fd_wf_def shape_ok_def dest: ff_get_bound)

lemma slot_free:
  "fd_wf fdp \<Longrightarrow> ff_get fdp fd = Some ff \<Longrightarrow> \<not> ff_allocated ff \<Longrightarrow> ff_file ff = None \<and> \<not> ff_exclose ff"
  unfolding fd_wf_def slots_ok_def by blast

lemma slot_open: "fd_wf fdp \<Longrightarrow> ff_get fdp fd = Some ff \<Longrightarrow> ff_file ff = Some fp \<Longrightarrow> ff_allocated ff"
  using slot_free by fastforce

lemma fd_used_spec:
  assumes wf: "fd_wf fdp" and ff: "ff_get fdp fd = Some ff" "\<not> ff_allocated ff"
  obtains fdp' where "fd_used fdp fd = Some fdp'" "fd_wf fdp'" "same_frame fdp fdp'"
    "ff_get fdp' = (ff_get fdp)(fd \<mapsto> ff\<lparr>ff_allocated := True\<rparr>)" "fd_freefile fdp' = fd_freefile fdp"
proof -
  have shape: "shape_ok fdp" and maps: "maps_ok fdp" and slots: "slots_ok fdp" and marks: "marks_ok fdp"
    using wf by (simp_all add: fd_wf_def)
  have n: "fd < length (ffs_of fdp)" "fd < nfiles fdp" using ff_get_bound [OF ff(1)] fd_wf_slot [OF wf ff(1)] .
  have free: "\<not> used_slot fdp fd" using ff by (simp add: used_slot_def)
  have nofile: "ff_file ff = None" using slots ff by (auto simp: slots_ok_def)
  obtain lo hi where b: "set_bits (fd_lomap fdp) (fd_himap fdp) fd = Some (lo, hi)"
    "length lo = length (fd_lomap fdp)" "length hi = length (fd_himap fdp)" "hi_ok lo hi"
    "\<And>k. bm_bit lo k \<longleftrightarrow> k = fd \<or> bm_bit (fd_lomap fdp) k"
    using set_bits_spec [of "fd_lomap fdp" "fd_himap fdp" fd] maps free slot_words [OF shape n(2)]
    by (metis maps_ok_def)
  define fdp' where "fdp' = (let fdp = ff_put (fdp\<lparr>fd_lomap := lo, fd_himap := hi\<rparr>) fd (ff\<lparr>ff_allocated := True\<rparr>) in
    if fd_lastfile fdp < int fd then fdp\<lparr>fd_lastfile := int fd\<rparr> else fdp)"
  have get: "ff_get fdp' = (ff_get fdp)(fd \<mapsto> ff\<lparr>ff_allocated := True\<rparr>)"
    using n(1) by (auto simp: fun_eq_iff fdp'_def ff_get_put Let_def)
  then have used: "used_slot fdp' k \<longleftrightarrow> k = fd \<or> used_slot fdp k" for k by (auto simp: used_slot_def)
  have fields: "fd_lomap fdp' = lo" "fd_himap fdp' = hi" "same_frame fdp fdp'" "fd_freefile fdp' = fd_freefile fdp"
    "fd_lastfile fdp' = max (fd_lastfile fdp) (int fd)"
    by (simp_all add: fdp'_def same_frame_def Let_def)
  have "shape_ok fdp'"
    using shape_ok_cong [OF shape, of fdp'] fields(3) b(2,3) get unfolding same_frame_def fields(1,2) by simp
  moreover have "maps_ok fdp'" using maps b(4,5) by (simp add: maps_ok_def fields used)
  moreover have "slots_ok fdp'" using slots by (auto simp: slots_ok_def get)
  moreover have "marks_ok fdp'"
    using marks by (auto simp: marks_ok_def fields used max_def)
  moreover have "fd_used fdp fd = Some fdp'"
    using ff nofile b(1) by (simp add: fd_used_def fdp'_def Let_def)
  ultimately show ?thesis using that get fields(3,4) by (simp add: fd_wf_def)
qed

lemma fd_unused_spec:
  assumes wf: "fd_wf fdp" and ff: "ff_get fdp fd = Some ff" "ff_allocated ff" "ff_file ff = None" "\<not> ff_exclose ff"
  obtains fdp' where "fd_unused fdp fd = Some fdp'" "fd_wf fdp'" "same_frame fdp fdp'"
    "ff_get fdp' = (ff_get fdp)(fd \<mapsto> ff\<lparr>ff_allocated := False\<rparr>)"
proof -
  have shape: "shape_ok fdp" and maps: "maps_ok fdp" and slots: "slots_ok fdp" and marks: "marks_ok fdp"
    using wf by (simp_all add: fd_wf_def)
  have n: "fd < length (ffs_of fdp)" "fd < nfiles fdp" using ff_get_bound [OF ff(1)] fd_wf_slot [OF wf ff(1)] .
  have used_fd: "used_slot fdp fd" using ff by (simp add: used_slot_def)
  obtain lo hi where b: "clear_bits (fd_lomap fdp) (fd_himap fdp) fd = Some (lo, hi)"
    "length lo = length (fd_lomap fdp)" "length hi = length (fd_himap fdp)" "hi_ok lo hi"
    "\<And>k. bm_bit lo k \<longleftrightarrow> k \<noteq> fd \<and> bm_bit (fd_lomap fdp) k"
    using clear_bits_spec [of "fd_lomap fdp" "fd_himap fdp" fd] maps used_fd slot_words [OF shape n(2)]
    by (metis maps_ok_def)
  define mid where "mid = ff_put ((if fd < fd_freefile fdp then fdp\<lparr>fd_freefile := fd\<rparr> else fdp)
    \<lparr>fd_lomap := lo, fd_himap := hi\<rparr>) fd (ff\<lparr>ff_allocated := False\<rparr>)"
  have get: "ff_get mid = (ff_get fdp)(fd \<mapsto> ff\<lparr>ff_allocated := False\<rparr>)"
    using n(1) by (auto simp: fun_eq_iff mid_def ff_get_put)
  then have used: "used_slot mid k \<longleftrightarrow> k \<noteq> fd \<and> used_slot fdp k" for k by (auto simp: used_slot_def)
  have fields: "fd_lomap mid = lo" "fd_himap mid = hi" "same_frame fdp mid" "fd_lastfile mid = fd_lastfile fdp"
    "fd_freefile mid = min fd (fd_freefile fdp)"
    by (simp_all add: mid_def same_frame_def min_def)
  have bits: "bm_bit (fd_lomap mid) k \<longleftrightarrow> used_slot mid k" for k
    using maps b(5) by (simp add: maps_ok_def fields used)
  have le: "int fd \<le> fd_lastfile fdp" using marks used_fd by (simp add: marks_ok_def)
  obtain l where l: "(if int fd = fd_lastfile fdp then fd_last_set mid fd else Some (fd_lastfile fdp)) = Some l"
    "- 1 \<le> l" "\<And>k. used_slot mid k \<Longrightarrow> int k \<le> l" "0 \<le> l \<Longrightarrow> used_slot mid (nat l)"
  proof (cases "int fd = fd_lastfile fdp")
    case True
    have "k < fd" if "used_slot mid k" for k
      using marks that True by (fastforce simp: marks_ok_def used)
    moreover have "fd \<le> length (ffs_of mid)" "fd \<le> length (fd_lomap mid) * 32"
      using n slot_words [OF shape n(2)] b(2) fields by (auto simp: same_frame_def)
    ultimately show ?thesis using fd_last_set_spec [OF bits, of fd] that True by (metis (full_types))
  next
    case False
    then show ?thesis using that [of "fd_lastfile fdp"] marks le by (auto simp: marks_ok_def used)
  qed
  define fdp' where "fdp' = mid\<lparr>fd_lastfile := l\<rparr>"
  have "shape_ok mid"
    using shape_ok_cong [OF shape, of mid] fields(3) b(2,3) get unfolding same_frame_def fields(1,2) by simp
  then have "shape_ok fdp'" by (rule shape_ok_cong) (simp_all add: fdp'_def)
  moreover have "maps_ok fdp'" using bits b(4) by (simp add: maps_ok_def fdp'_def fields)
  moreover have "slots_ok fdp'" using slots ff(3,4) by (auto simp: slots_ok_def fdp'_def get)
  moreover have "marks_ok fdp'"
    using marks l by (auto simp: marks_ok_def fdp'_def fields used)
  moreover have "fd_unused fdp fd = Some fdp'"
  proof -
    have "fd_unused fdp fd = map_option (\<lambda>l. mid\<lparr>fd_lastfile := l\<rparr>)
        (if int fd = fd_lastfile fdp then fd_last_set mid fd else Some (fd_lastfile fdp))"
      using ff b(1) le by (simp add: fd_unused_def mid_def Let_def bind_map_option)
    then show ?thesis using l(1) by (simp add: fdp'_def)
  qed
  ultimately show ?thesis using that get fields(3) by (simp add: fd_wf_def fdp'_def same_frame_def)
qed

section \<open>Allocating the lowest descriptor\<close>

lemma marks_free: "fd_wf fdp \<Longrightarrow> \<not> used_slot fdp fd \<Longrightarrow> fd_freefile fdp \<le> fd"
  by (auto simp: fd_wf_def marks_ok_def not_less [symmetric])

lemma alloc_start_ge: "want \<le> int (alloc_start fdp want)" "fd_freefile fdp \<le> alloc_start fdp want"
  by (auto simp: alloc_start_def)

lemma NDLOSLOTS_mono: "m \<le> n \<Longrightarrow> NDLOSLOTS m \<le> NDLOSLOTS n"
  by (simp add: NDLOSLOTS_def div_le_mono)

lemma NDLOSLOTS_ge: "n \<le> NDLOSLOTS n * 32"
  using NDLOSLOTS_le [of n "NDLOSLOTS n"] by simp

lemma himap_covers:
  assumes "shape_ok fdp" "lst \<le> nfiles fdp"
  shows "NDLOSLOTS (NDLOSLOTS lst) \<le> length (fd_himap fdp)"
proof (cases "fd_dmaps fdp")
  case True
  then have "NDLOSLOTS lst \<le> 32" using assms by (simp add: shape_ok_def NDLOSLOTS_le)
  then show ?thesis using True assms(1) by (simp add: shape_ok_def NDLOSLOTS_le)
next
  case False
  have "NDLOSLOTS (NDLOSLOTS lst) \<le> NDLOSLOTS (NDLOSLOTS (nfiles fdp))"
    using assms(2) by (intro NDLOSLOTS_mono)
  also have "\<dots> = NDHISLOTS (nfiles fdp)" by (simp add: NDLOSLOTS_def NDHISLOTS_def)
  finally show ?thesis using False assms(1) by (simp add: shape_ok_def)
qed

text \<open>The word of the low map that the search looks at next lies in the memory of the maps; it may
  be the word behind an allocated low map.\<close>

lemma next_word_in_map:
  assumes wf: "fd_wf fdp" and lst: "lst \<le> nfiles fdp" and off: "off \<le> NDLOSLOTS lst"
    and hi: "first_zero (fd_himap fdp) off (NDLOSLOTS lst) (Some hi)"
  shows "hi < length (lo_mem fdp)" "hi < length (fd_lomap fdp) \<or> nfiles fdp \<le> hi * 32"
    "NDLOSLOTS 32 \<le> length (drop hi (lo_mem fdp))"
proof -
  have shape: "shape_ok fdp" and hiok: "hi_ok (fd_lomap fdp) (fd_himap fdp)"
    using wf by (auto simp: fd_wf_def maps_ok_def)
  have "hi < length (lo_mem fdp) \<and> (hi < length (fd_lomap fdp) \<or> nfiles fdp \<le> hi * 32)"
  proof (cases "fd_dmaps fdp")
    case True
    have "hi < NDLOSLOTS (NDLOSLOTS lst) * 32" using hi by (simp add: first_zero_def)
    also have "\<dots> \<le> 32" using himap_covers [OF shape lst] True shape by (simp add: shape_ok_def)
    finally show ?thesis using True shape by (simp add: shape_ok_def lo_mem_def)
  next
    case False
    let ?n = "length (fd_lomap fdp)"
    have n: "?n = NDLOSLOTS (nfiles fdp)" "0 < length (fd_himap fdp)"
      using False shape NDHISLOTS_le [of "nfiles fdp" 0] by (auto simp: shape_ok_def)
    have "hi \<le> ?n"
    proof (rule ccontr)
      assume "\<not> hi \<le> ?n"
      moreover have "off \<le> ?n" using off NDLOSLOTS_mono [OF lst] n(1) by simp
      ultimately have "bm_bit (fd_himap fdp) ?n" using hi by (simp add: first_zero_def)
      then show False using hiok by (simp add: hi_ok_def)
    qed
    then show ?thesis using False n NDLOSLOTS_ge [of "nfiles fdp"] by (auto simp: lo_mem_def le_less)
  qed
  then show "hi < length (lo_mem fdp)" "hi < length (fd_lomap fdp) \<or> nfiles fdp \<le> hi * 32"
    "NDLOSLOTS 32 \<le> length (drop hi (lo_mem fdp))"
    by (auto simp: NDLOSLOTS_le)
qed

lemma low_word:
  assumes "hi < length (fd_lomap fdp)" "k < 32"
  shows "bm_bit (drop hi (lo_mem fdp)) k \<longleftrightarrow> bm_bit (fd_lomap fdp) (hi * 32 + k)"
  using assms by (simp add: bm_bit_split) (simp add: bm_bit_def lo_mem_def nth_append)

lemma full_words_used:
  assumes wf: "fd_wf fdp" and full: "\<And>k. off \<le> k \<Longrightarrow> k < hi \<Longrightarrow> bm_bit (fd_himap fdp) k" and fd: "off * 32 \<le> fd" "fd < hi * 32"
  shows "used_slot fdp fd"
proof -
  have "off \<le> fd div 32" "fd div 32 < hi" using fd by auto
  then have "bm_bit (fd_himap fdp) (fd div 32)" by (rule full)
  then have "fd div 32 < length (fd_lomap fdp)" "fd_lomap fdp ! (fd div 32) = - 1"
    using wf by (auto simp: fd_wf_def maps_ok_def hi_ok_def)
  then have "bm_bit (fd_lomap fdp) fd" by (simp add: bm_bit_def)
  then show ?thesis using wf by (simp add: fd_wf_def maps_ok_def)
qed

text \<open>What a round of the search knows: every descriptor from \<open>want\<close> up to the place it stopped is
  used.\<close>

lemma alloc_round_used:
  assumes wf: "fd_wf fdp" and lst: "lst \<le> nfiles fdp" and off: "off = alloc_start fdp want div 32" "off \<le> NDLOSLOTS lst"
    and hi: "first_zero (fd_himap fdp) off (NDLOSLOTS lst) (Some hi)"
    and low: "\<And>k. (if off < hi then 0 else alloc_start fdp want mod 32) \<le> k \<Longrightarrow> k < j \<Longrightarrow> bm_bit (drop hi (lo_mem fdp)) k"
    and fd: "want \<le> int fd" "fd < hi * 32 + j" "fd < lst" and j: "j \<le> 32"
  shows "used_slot fdp fd"
proof -
  let ?i = "alloc_start fdp want"
  have i: "?i div 32 * 32 \<le> ?i" "?i < (?i div 32 + 1) * 32" by auto
  consider "fd < ?i" | "?i \<le> fd" "fd < hi * 32" | "?i \<le> fd" "hi * 32 \<le> fd" by linarith
  then show ?thesis
  proof cases
    case 1
    then show ?thesis using wf fd(1) by (auto simp: alloc_start_def fd_wf_def marks_ok_def split: if_splits)
  next
    case 2
    then show ?thesis
      using full_words_used [OF wf, of off hi fd] hi i off(1) by (simp add: first_zero_def)
  next
    case 3
    then obtain k where k: "fd = hi * 32 + k" using le_Suc_ex by blast
    have hi32: "hi < length (fd_lomap fdp)"
      using next_word_in_map(2) [OF wf lst off(2) hi] 3 fd(3) lst by linarith
    have "off \<le> hi" using hi by (simp add: first_zero_def)
    then have "?i mod 32 \<le> k" if "\<not> off < hi"
      using that 3(1) k off(1) div_mult_mod_eq [of ?i 32] by linarith
    then have "(if off < hi then 0 else ?i mod 32) \<le> k" by simp
    then have "bm_bit (fd_lomap fdp) fd"
      using low [of k] low_word [OF hi32, of k] k fd(2) j by simp
    then show ?thesis using wf by (simp add: fd_wf_def maps_ok_def)
  qed
qed

text \<open>The result of the search, for a start at \<open>want\<close>.\<close>

definition lowest_free :: "filedesc \<Rightarrow> nat \<Rightarrow> int \<Rightarrow> nat option \<Rightarrow> bool" where
  "lowest_free fdp lst want r \<longleftrightarrow>
     (case r of
        None \<Rightarrow> \<forall>fd. want \<le> int fd \<and> fd < lst \<longrightarrow> used_slot fdp fd
      | Some i \<Rightarrow> i < lst \<and> want \<le> int i \<and> \<not> used_slot fdp i \<and> (\<forall>fd. want \<le> int fd \<and> fd < i \<longrightarrow> used_slot fdp fd))"

lemma lowest_free_later:
  assumes "lowest_free fdp lst want' r" "want \<le> want'" "\<And>fd. want \<le> int fd \<Longrightarrow> int fd < want' \<Longrightarrow> fd < lst \<Longrightarrow> used_slot fdp fd"
  shows "lowest_free fdp lst want r"
proof -
  have "used_slot fdp fd" if "want \<le> int fd" "fd < lst" "want' \<le> int fd \<longrightarrow> used_slot fdp fd" for fd
    using assms(3) [of fd] that by (cases "want' \<le> int fd") auto
  then show ?thesis using assms(1,2) unfolding lowest_free_def by (fastforce split: option.splits)
qed

lemma alloc_search_unfold:
  "alloc_search fdp lst want =
     (let i = alloc_start fdp want; off = i div 32
      in case fd_next_zero (fd_himap fdp) off (NDLOSLOTS lst) of
           None \<Rightarrow> None
         | Some None \<Rightarrow> Some None
         | Some (Some hi) \<Rightarrow>
             (case fd_next_zero (drop hi (lo_mem fdp)) (if off < hi then 0 else i mod 32) 32 of
                None \<Rightarrow> None
              | Some None \<Rightarrow> alloc_search fdp lst (int ((hi + 1) * 32))
              | Some (Some i) \<Rightarrow>
                  if lst \<le> i + hi * 32 then Some None else Some (Some (i + hi * 32, want))))"
  by (subst alloc_search.simps) (simp only: NDLOSLOTS_def)

lemma alloc_search_spec:
  assumes "fd_wf fdp" "lst \<le> nfiles fdp"
  shows "\<exists>r. alloc_search fdp lst want = Some r \<and> lowest_free fdp lst want (map_option fst r) \<and>
    (\<forall>i want'. r = Some (i, want') \<and> want' \<le> int (fd_freefile fdp) \<longrightarrow> (\<forall>fd<i. used_slot fdp fd))"
  using assms
proof (induction fdp lst want rule: alloc_search.induct)
  case (1 fdp lst want)
  note wf = 1(2) and lst = 1(3)
  define i where "i = alloc_start fdp want"
  define off where "off = i div 32"
  have shape: "shape_ok fdp" using wf by (simp add: fd_wf_def)
  obtain h where h: "fd_next_zero (fd_himap fdp) off (NDLOSLOTS lst) = Some h" "first_zero (fd_himap fdp) off (NDLOSLOTS lst) h"
    using fd_next_zero_spec [OF himap_covers [OF shape lst], of off] by blast
  show ?case
  proof (cases h)
    case None
    have used: "used_slot fdp fd" if "want \<le> int fd" "fd < lst" for fd
    proof (cases "fd < i")
      case True
      then show ?thesis using wf that(1) by (auto simp: i_def alloc_start_def fd_wf_def marks_ok_def split: if_splits)
    next
      case False
      then have "off * 32 \<le> fd" "fd < NDLOSLOTS lst * 32" using that(2) NDLOSLOTS_ge [of lst] unfolding off_def by auto
      then show ?thesis using full_words_used [OF wf, of off "NDLOSLOTS lst" fd] h(2) None by (simp add: first_zero_def)
    qed
    have "alloc_search fdp lst want = Some None"
      using h(1) None by (subst alloc_search_unfold) (simp add: Let_def i_def off_def)
    then show ?thesis using used by (auto simp: lowest_free_def)
  next
    case (Some hi)
    have off: "off \<le> NDLOSLOTS lst" "off \<le> hi" using fd_next_zero_ge h(1) Some by blast+
    note first = h(2) [unfolded Some]
    define low where "low = (if off < hi then 0 else i mod 32)"
    obtain l where l: "fd_next_zero (drop hi (lo_mem fdp)) low 32 = Some l" "first_zero (drop hi (lo_mem fdp)) low 32 l"
      using fd_next_zero_spec [OF next_word_in_map(3) [OF wf lst off(1) first], of low] by blast
    have search: "alloc_search fdp lst want =
      (case l of None \<Rightarrow> alloc_search fdp lst (int ((hi + 1) * 32))
       | Some j \<Rightarrow> if lst \<le> j + hi * 32 then Some None else Some (Some (j + hi * 32, want)))"
      using h(1) Some l(1)
      by (subst alloc_search_unfold)
        (simp only: Let_def i_def [symmetric] off_def [symmetric] low_def [symmetric] option.case)
    have used: "used_slot fdp fd"
      if "\<And>k. low \<le> k \<Longrightarrow> k < j \<Longrightarrow> bm_bit (drop hi (lo_mem fdp)) k" "want \<le> int fd" "fd < hi * 32 + j" "fd < lst" "j \<le> 32" for fd j
      using alloc_round_used [OF wf lst off_def [unfolded i_def] off(1) first _ that(2-5)]
        that(1) [unfolded low_def i_def] by blast
    have i: "want \<le> int i" "i \<le> hi * 32 + 31" "i \<le> hi * 32 + low"
      using off(2) alloc_start_ge(1) [of want fdp] div_mult_mod_eq [of i 32] by (auto simp: i_def off_def low_def)
    show ?thesis
    proof (cases l)
      case None
      then have "bm_bit (drop hi (lo_mem fdp)) k" if "low \<le> k" "k < 32" for k
        using l(2) that by (simp add: first_zero_def)
      then have "lowest_free fdp lst want r" if "lowest_free fdp lst (int ((hi + 1) * 32)) r" for r
        using lowest_free_later [OF that, of want] used [of 32] i by auto
      moreover have "Some hi = h" "Some None = fd_next_zero (drop hi (lo_mem fdp)) low 32" using Some None l(1) by simp_all
      moreover have "(lst + 32 - 1) div 32 = NDLOSLOTS lst" by (simp only: NDLOSLOTS_def)
      then have "\<exists>r. alloc_search fdp lst (int ((hi + 1) * 32)) = Some r \<and>
          lowest_free fdp lst (int ((hi + 1) * 32)) (map_option fst r) \<and>
          (\<forall>i want'. r = Some (i, want') \<and> want' \<le> int (fd_freefile fdp) \<longrightarrow> (\<forall>fd<i. used_slot fdp fd))"
        using "1.IH" [OF refl refl _ _ _ _ wf lst, of h hi l] h(1) Some None l(1)
        by (simp only: i_def off_def low_def)
      ultimately show ?thesis using search None by auto
    next
      case (Some j)
      then have j: "low \<le> j" "j < 32" "\<not> bm_bit (drop hi (lo_mem fdp)) j"
        "\<And>k. low \<le> k \<Longrightarrow> k < j \<Longrightarrow> bm_bit (drop hi (lo_mem fdp)) k"
        using l(2) by (simp_all add: first_zero_def NDLOSLOTS_def)
      have below: "used_slot fdp fd" if "want \<le> int fd" "fd < hi * 32 + j" "fd < lst" for fd
        using used [OF j(4) that] j(2) by simp
      show ?thesis
      proof (cases "lst \<le> j + hi * 32")
        case True
        then show ?thesis using search Some below by (auto simp: lowest_free_def)
      next
        case False
        have "hi < length (fd_lomap fdp)"
          using next_word_in_map(2) [OF wf lst off(1) first] False lst by linarith
        then have "\<not> used_slot fdp (hi * 32 + j)"
          using low_word [OF _ j(2)] j(3) wf by (simp add: fd_wf_def maps_ok_def)
        moreover have "used_slot fdp fd" if "want \<le> int (fd_freefile fdp)" "fd < hi * 32 + j" for fd
          using below [of fd] wf that False by (cases "fd < fd_freefile fdp") (auto simp: fd_wf_def marks_ok_def)
        ultimately show ?thesis
          using search Some False below i j(1) by (auto simp: lowest_free_def add.commute)
      qed
    qed
  qed
qed

lemma fd_wf_put:
  assumes wf: "fd_wf fdp" and fd: "fd < nfiles fdp" "ff_allocated ff \<longleftrightarrow> used_slot fdp fd"
    and ff: "\<not> ff_allocated ff \<Longrightarrow> ff_file ff = None \<and> \<not> ff_exclose ff"
  shows "fd_wf (ff_put fdp fd ff)"
proof -
  have n: "fd < length (ffs_of fdp)" using wf fd(1) by (simp add: fd_wf_def shape_ok_def)
  have "used_slot (ff_put fdp fd ff) = used_slot fdp" using fd(2) used_slot_put [OF n] by (auto simp: fun_eq_iff)
  then have "maps_ok (ff_put fdp fd ff)" "marks_ok (ff_put fdp fd ff)"
    using wf by (simp_all add: fd_wf_def maps_ok_def marks_ok_def)
  moreover have "shape_ok fdp" using wf by (simp add: fd_wf_def)
  then have "shape_ok (ff_put fdp fd ff)" by (rule shape_ok_cong) (simp_all add: ff_get_put n)
  moreover have "slots_ok (ff_put fdp fd ff)"
    using wf ff n by (auto simp: fd_wf_def slots_ok_def ff_get_put)
  ultimately show ?thesis by (simp add: fd_wf_def)
qed

text \<open>The record of a slot, created when the slot has none.\<close>

definition slot_or_new :: "filedesc \<Rightarrow> nat \<Rightarrow> fdfile" where
  "slot_or_new fdp fd = (case ff_get fdp fd of None \<Rightarrow> fdfile_ctor | Some ff \<Rightarrow> ff)"

lemma claim_slot:
  assumes wf: "fd_wf fdp" and fd: "fd < nfiles fdp" "\<not> used_slot fdp fd"
  obtains ffo mid fdp' where "aget (ffs_of fdp) fd = Some ffo"
    "(if ffo = None then (if fd < NDFDFILE then None else Some (ff_put fdp fd fdfile_ctor)) else Some fdp) = Some mid"
    "ff_get mid fd = Some (slot_or_new fdp fd)" "ff_file (slot_or_new fdp fd) = None" "fd_used mid fd = Some fdp'"
    "fd_wf fdp'" "same_frame fdp fdp'" "fd_freefile fdp' = fd_freefile fdp"
    "ff_get fdp' = (ff_get fdp)(fd \<mapsto> (slot_or_new fdp fd)\<lparr>ff_allocated := True\<rparr>)"
proof -
  have n: "fd < length (ffs_of fdp)" using wf fd(1) by (simp add: fd_wf_def shape_ok_def)
  have none: "ffs_of fdp ! fd = None \<longleftrightarrow> ff_get fdp fd = None" using n by (simp add: ff_get_def)
  define mid where "mid = (if ffs_of fdp ! fd = None then ff_put fdp fd fdfile_ctor else fdp)"
  have low: "ffs_of fdp ! fd \<noteq> None" if "fd < 6"
    using wf that n by (auto simp: fd_wf_def shape_ok_def ff_get_def)
  have mid: "fd_wf mid" "same_frame fdp mid" "fd_freefile mid = fd_freefile fdp" "ff_get mid = (ff_get fdp)(fd \<mapsto> slot_or_new fdp fd)"
    using wf fd(2) n fd_wf_put [OF wf fd(1), of fdfile_ctor]
    by (auto simp: mid_def none same_frame_def slot_or_new_def ff_get_put fun_eq_iff fdfile_ctor_def)
  have free: "\<not> ff_allocated (slot_or_new fdp fd)"
    using fd(2) by (auto simp: used_slot_def slot_or_new_def fdfile_ctor_def split: option.split)
  then have nofile: "ff_file (slot_or_new fdp fd) = None"
    using wf by (auto simp: fd_wf_def slots_ok_def slot_or_new_def fdfile_ctor_def split: option.split)
  obtain fdp' where "fd_used mid fd = Some fdp'" "fd_wf fdp'" "same_frame mid fdp'"
    "ff_get fdp' = (ff_get mid)(fd \<mapsto> (slot_or_new fdp fd)\<lparr>ff_allocated := True\<rparr>)" "fd_freefile fdp' = fd_freefile mid"
    using fd_used_spec [OF mid(1), of fd "slot_or_new fdp fd"] mid(4) free by auto
  then show ?thesis
    using that [of "ffs_of fdp ! fd" mid fdp'] n low mid nofile by (simp add: mid_def same_frame_def split: if_splits)
qed

theorem fd_alloc_spec:
  assumes wf: "fd_wf fdp"
  shows "\<exists>r. lowest_free fdp (min (nfiles fdp) (fd_lim p)) want r \<and>
    (case r of
       None \<Rightarrow> fd_alloc p fdp want = Some (fdp, Inl (if fd_lim p \<le> nfiles fdp then EMFILE else ENOSPC))
     | Some i \<Rightarrow> \<exists>fdp'. fd_alloc p fdp want = Some (fdp', Inr i) \<and> fd_wf fdp' \<and> same_frame fdp fdp' \<and>
         ff_get fdp' = (ff_get fdp)(i \<mapsto> (slot_or_new fdp i)\<lparr>ff_allocated := True\<rparr>))"
proof -
  let ?lst = "min (nfiles fdp) (fd_lim p)"
  obtain r where r: "alloc_search fdp ?lst want = Some r" "lowest_free fdp ?lst want (map_option fst r)"
    "\<And>i want' fd. r = Some (i, want') \<Longrightarrow> want' \<le> int (fd_freefile fdp) \<Longrightarrow> fd < i \<Longrightarrow> used_slot fdp fd"
    using alloc_search_spec [OF wf, of ?lst want] by auto
  show ?thesis
  proof (cases r)
    case None
    then show ?thesis using r by (intro exI [of _ None]) (simp add: fd_alloc_def)
  next
    case (Some iw)
    obtain i want' where iw: "iw = (i, want')" by (cases iw)
    have i: "i < nfiles fdp" "\<not> used_slot fdp i" using r(2) Some iw by (simp_all add: lowest_free_def)
    obtain ffo mid fdp' where c: "aget (ffs_of fdp) i = Some ffo"
      "(if ffo = None then (if i < NDFDFILE then None else Some (ff_put fdp i fdfile_ctor)) else Some fdp) = Some mid"
      "ff_get mid i = Some (slot_or_new fdp i)" "ff_file (slot_or_new fdp i) = None" "fd_used mid i = Some fdp'"
      "fd_wf fdp'" "same_frame fdp fdp'" "fd_freefile fdp' = fd_freefile fdp"
      "ff_get fdp' = (ff_get fdp)(i \<mapsto> (slot_or_new fdp i)\<lparr>ff_allocated := True\<rparr>)"
      using claim_slot [OF wf i] by metis
    define fin where "fin = (if want' \<le> int (fd_freefile fdp') then fdp'\<lparr>fd_freefile := i\<rparr> else fdp')"
    have "fd_alloc p fdp want = Some (fin, Inr i)"
      using r(1) Some iw c(1-5) by (simp add: fd_alloc_def fin_def Let_def)
    moreover have "used_slot fdp' fd" if "want' \<le> int (fd_freefile fdp')" "fd < i" for fd
      using r(3) [of i want' fd] that Some iw c(8,9) by (simp add: used_slot_def)
    then have "marks_ok fin" using c(6) by (auto simp: fin_def fd_wf_def marks_ok_def)
    then have "fd_wf fin"
      using c(6) by (auto simp: fin_def fd_wf_def shape_ok_def maps_ok_def slots_ok_def)
    moreover have "same_frame fdp fin" "ff_get fin = ff_get fdp'" using c(7) by (simp_all add: fin_def same_frame_def)
    ultimately show ?thesis using r(2) Some iw c(9) by (intro exI [of _ "Some i"]) simp
  qed
qed

end
