(* ===== verification/Fd_Ops.thy ===== *)
theory Fd_Ops
  imports Fd_Table
begin

text \<open>
  The operations on descriptors and open files of \<^verbatim>\<open>sys/kern/kern_descrip.c\<close>, and the system calls
  of \<^verbatim>\<open>sys/kern/sys_descrip.c\<close> that duplicate and close descriptors.  The state is the descriptor
  structure of the process, the open files (\<open>None\<close>: freed) and the calls made to the file system
  and to the file's own operations, in order.

  Each operation is what one thread does when no other one interferes, composed of its atomic parts
  (\<open>ref_take\<close>, \<open>ref_drop\<close>, \<open>close_take\<close>, ...).  A thread that has to wait returns \<open>Sleeping\<close> (for the users of the descriptor it
  closes) or \<open>Pausing\<close> (in \<open>kpause\<close>).
\<close>

section \<open>State\<close>

abbreviation (input) FHASLOCK :: u32 where "FHASLOCK \<equiv> 0x4000"
abbreviation (input) FSCAN :: u32 where "FSCAN \<equiv> 0x100000"
abbreviation (input) FNONBLOCK :: u32 where "FNONBLOCK \<equiv> 0x4"
abbreviation (input) FREADWRITE :: u32 where "FREADWRITE \<equiv> 0x3"
abbreviation (input) O_CLOEXEC :: u32 where "O_CLOEXEC \<equiv> 0x400000"

datatype ext_call = Posix_unlock nat | Flock_unlock nat | Fo_restart nat | Fo_close nat
  | Fo_fcntl nat u32 | Fo_ioctl nat bool u32 | Flock_lock nat bool bool | Vn_close nat

record fd_state =
  fs_fdp :: filedesc
  fs_files :: "nat \<rightharpoonup> file_t"
  fs_calls :: "ext_call list"

datatype outcome = Returned int | Sleeping nat nat | Pausing

section \<open>References to files\<close>

definition f_hold :: "nat \<Rightarrow> fd_state \<Rightarrow> fd_state option" where
  "f_hold fp st = do {
     f \<leftarrow> fs_files st fp;
     Some (st\<lparr>fs_files := (fs_files st)(fp \<mapsto> f\<lparr>f_count := f_count f + 1\<rparr>)\<rparr>) }"

definition closef :: "proc \<Rightarrow> nat \<Rightarrow> fd_state \<Rightarrow> (fd_state \<times> int) option" where
  "closef p fp st = do {
     f \<leftarrow> fs_files st fp;
     if f_count f = 0 then None
     else if 0 < f_count f - 1
     then Some (st\<lparr>fs_files := (fs_files st)(fp \<mapsto> f\<lparr>f_count := f_count f - 1\<rparr>)\<rparr>, 0)
     else
       let unlock = (if f_flag f AND FHASLOCK \<noteq> 0 \<and> f_type f = DTYPE_VNODE then [Flock_unlock fp] else []);
           (close, error) = (if f_ops f then ([Fo_close fp], fo_close p fp) else ([], 0))
       in Some (st\<lparr>fs_files := (fs_files st)(fp := None), fs_calls := fs_calls st @ unlock @ close\<rparr>, error) }"

section \<open>Closing a descriptor\<close>

text \<open>The parts of \<open>fd_close\<close>: with the lock held, the file is taken out of the slot, or, when
  another thread is closing, the reference is dropped; then the reference is dropped, and the slot
  is marked while references remain.\<close>

definition close_take :: "filedesc \<Rightarrow> nat \<Rightarrow> (filedesc \<times> nat option) option" where
  "close_take fdp fd = do {
     ff \<leftarrow> ff_get fdp fd;
     if ff_refcnt ff AND FR_MASK = 0 then None
     else case ff_file ff of
         None \<Rightarrow> Some (ff_put fdp fd (ff\<lparr>ff_refcnt := ff_refcnt ff - 1\<rparr>), None)
       | Some fp \<Rightarrow>
           if ff_refcnt ff AND FR_CLOSING \<noteq> 0 then None
           else Some (ff_put fdp fd (ff\<lparr>ff_file := None, ff_exclose := False\<rparr>), Some fp) }"

definition ref_drop :: "filedesc \<Rightarrow> nat \<Rightarrow> (filedesc \<times> u32) option" where
  "ref_drop fdp fd = do {
     ff \<leftarrow> ff_get fdp fd;
     Some (ff_put fdp fd (ff\<lparr>ff_refcnt := ff_refcnt ff - 1\<rparr>), ff_refcnt ff - 1) }"

definition closing_set :: "filedesc \<Rightarrow> nat \<Rightarrow> filedesc option" where
  "closing_set fdp fd = do {
     ff \<leftarrow> ff_get fdp fd;
     Some (ff_put fdp fd (ff\<lparr>ff_refcnt := ff_refcnt ff OR FR_CLOSING\<rparr>)) }"

definition closing_clear :: "filedesc \<Rightarrow> nat \<Rightarrow> filedesc option" where
  "closing_clear fdp fd = do {
     ff \<leftarrow> ff_get fdp fd;
     Some (ff_put fdp fd (ff\<lparr>ff_refcnt := ff_refcnt ff AND FR_MASK\<rparr>)) }"

definition refs_drained :: "filedesc \<Rightarrow> nat \<Rightarrow> bool option" where
  "refs_drained fdp fd = do { ff \<leftarrow> ff_get fdp fd; Some (ff_refcnt ff AND FR_MASK = 0) }"

definition close_finish :: "proc \<Rightarrow> fd_state \<Rightarrow> nat \<Rightarrow> nat \<Rightarrow> (fd_state \<times> outcome) option" where
  "close_finish p st fd fp = do {
     f \<leftarrow> fs_files st fp;
     let calls = (if pk_advlock p \<and> f_type f = DTYPE_VNODE then [Posix_unlock fp] else []);
     fdp \<leftarrow> fd_unused (fs_fdp st) fd;
     (st, error) \<leftarrow> closef p fp (st\<lparr>fs_fdp := fdp, fs_calls := fs_calls st @ calls\<rparr>);
     Some (st, Returned error) }"

text \<open>The loop around \<open>cv_wait\<close> and the rest, entered again when the thread is awakened.\<close>

definition close_wait :: "proc \<Rightarrow> fd_state \<Rightarrow> nat \<Rightarrow> nat \<Rightarrow> (fd_state \<times> outcome) option" where
  "close_wait p st fd fp = do {
     drained \<leftarrow> refs_drained (fs_fdp st) fd;
     if \<not> drained then Some (st, Sleeping fd fp)
     else do {
       fdp \<leftarrow> closing_clear (fs_fdp st) fd;
       close_finish p (st\<lparr>fs_fdp := fdp\<rparr>) fd fp } }"

definition fd_close :: "proc \<Rightarrow> fd_state \<Rightarrow> nat \<Rightarrow> (fd_state \<times> outcome) option" where
  "fd_close p st fd = do {
     (fdp, taken) \<leftarrow> close_take (fs_fdp st) fd;
     (case taken of
        None \<Rightarrow> Some (st\<lparr>fs_fdp := fdp\<rparr>, Returned EBADF)
      | Some fp \<Rightarrow> do {
          (fdp, refcnt) \<leftarrow> ref_drop fdp fd;
          if refcnt \<noteq> 0 then do {
            fdp \<leftarrow> closing_set fdp fd;
            close_wait p (st\<lparr>fs_fdp := fdp, fs_calls := fs_calls st @ [Fo_restart fp]\<rparr>) fd fp }
          else close_finish p (st\<lparr>fs_fdp := fdp\<rparr>) fd fp }) }"

section \<open>Looking a descriptor up\<close>

text \<open>One round of the compare-and-swap loop of \<open>fd_putfile\<close>: \<open>u\<close> is the value expected, the
  result is the value found.\<close>

definition ref_cas :: "filedesc \<Rightarrow> nat \<Rightarrow> u32 \<Rightarrow> (filedesc \<times> u32) option" where
  "ref_cas fdp fd u = do {
     ff \<leftarrow> ff_get fdp fd;
     Some (if ff_refcnt ff = u then ff_put fdp fd (ff\<lparr>ff_refcnt := u - 1\<rparr>) else fdp, ff_refcnt ff) }"

text \<open>Without interference the loop does not start again: the value found differs from the
  masked one only by the flag.\<close>

definition fd_putfile :: "proc \<Rightarrow> fd_state \<Rightarrow> nat \<Rightarrow> (fd_state \<times> outcome) option" where
  "fd_putfile p st fd = do {
     ff \<leftarrow> ff_get (fs_fdp st) fd;
     if nfiles (fs_fdp st) \<le> fd \<or> ff_refcnt ff AND FR_MASK = 0 then None
     else if fd_refcnt (fs_fdp st) = 1 then
       if ff_refcnt ff AND FR_CLOSING \<noteq> 0 then fd_close p st fd
       else do {
         (fdp, _) \<leftarrow> ref_drop (fs_fdp st) fd;
         Some (st\<lparr>fs_fdp := fdp\<rparr>, Returned 0) }
     else do {
       let u = ff_refcnt ff AND FR_MASK;
       (fdp, v) \<leftarrow> ref_cas (fs_fdp st) fd u;
       if u = v then Some (st\<lparr>fs_fdp := fdp\<rparr>, Returned 0)
       else fd_close p st fd } }"

definition ref_take :: "filedesc \<Rightarrow> nat \<Rightarrow> filedesc option" where
  "ref_take fdp fd = do {
     ff \<leftarrow> ff_get fdp fd;
     Some (ff_put fdp fd (ff\<lparr>ff_refcnt := ff_refcnt ff + 1\<rparr>)) }"

definition fd_getfile :: "proc \<Rightarrow> fd_state \<Rightarrow> nat \<Rightarrow> (fd_state \<times> nat option) option" where
  "fd_getfile p st fd =
     (if nfiles (fs_fdp st) \<le> fd then Some (st, None)
      else do {
        ffo \<leftarrow> aget (ffs_of (fs_fdp st)) fd;
        (case ffo of
           None \<Rightarrow> Some (st, None)
         | Some ff \<Rightarrow> do {
             fdp \<leftarrow> ref_take (fs_fdp st) fd;
             let st = st\<lparr>fs_fdp := fdp\<rparr>;
             (case ff_file ff of
                Some fp \<Rightarrow> Some (st, Some fp)
              | None \<Rightarrow> do { (st, _) \<leftarrow> fd_putfile p st fd; Some (st, None) }) }) })"

definition fd_getfile2 :: "fd_state \<Rightarrow> nat \<Rightarrow> (fd_state \<times> nat option) option" where
  "fd_getfile2 st fd =
     (if nfiles (fs_fdp st) \<le> fd then Some (st, None)
      else do {
        ffo \<leftarrow> aget (ffs_of (fs_fdp st)) fd;
        (case ffo of
           None \<Rightarrow> Some (st, None)
         | Some ff \<Rightarrow>
             (case ff_file ff of
                None \<Rightarrow> Some (st, None)
              | Some fp \<Rightarrow> do { st \<leftarrow> f_hold fp st; Some (st, Some fp) })) })"

definition fd_getsock1 :: "proc \<Rightarrow> fd_state \<Rightarrow> nat \<Rightarrow> (fd_state \<times> (int + nat)) option" where
  "fd_getsock1 p st fd = do {
     (st, r) \<leftarrow> fd_getfile p st fd;
     (case r of
        None \<Rightarrow> Some (st, Inl EBADF)
      | Some fp \<Rightarrow> do {
          f \<leftarrow> fs_files st fp;
          if f_type f \<noteq> DTYPE_SOCKET then do {
            (st, _) \<leftarrow> fd_putfile p st fd;
            Some (st, Inl 38) }
          else Some (st, Inr fp) }) }"

section \<open>Opening and duplicating\<close>

definition fd_affix :: "fd_state \<Rightarrow> nat \<Rightarrow> nat \<Rightarrow> fd_state option" where
  "fd_affix st fp fd = do {
     st \<leftarrow> f_hold fp st;
     ff \<leftarrow> ff_get (fs_fdp st) fd;
     used \<leftarrow> fd_isused (fs_fdp st) fd;
     if ff_file ff \<noteq> None \<or> \<not> ff_allocated ff \<or> \<not> used then None
     else Some (st\<lparr>fs_fdp := ff_put (fs_fdp st) fd (ff\<lparr>ff_file := Some fp\<rparr>)\<rparr>) }"

definition fd_abort :: "fd_state \<Rightarrow> nat option \<Rightarrow> nat \<Rightarrow> fd_state option" where
  "fd_abort st fp fd = do {
     ff \<leftarrow> ff_get (fs_fdp st) fd;
     let fdp = ff_put (fs_fdp st) fd (ff\<lparr>ff_exclose := False\<rparr>);
     used \<leftarrow> fd_isused fdp fd;
     if \<not> used then None
     else do {
       fdp \<leftarrow> fd_unused fdp fd;
       let st = st\<lparr>fs_fdp := fdp\<rparr>;
       (case fp of
          None \<Rightarrow> Some st
        | Some fp \<Rightarrow> do {
            f \<leftarrow> fs_files st fp;
            if f_count f \<noteq> 0 then None else Some (st\<lparr>fs_files := (fs_files st)(fp := None)\<rparr>) }) } }"

text \<open>\<open>pool\<close> is what the pool of files returns: the null pointer, or a file and its contents.\<close>

definition fd_allocfile ::
    "proc \<Rightarrow> (nat \<times> file_t) option \<Rightarrow> fd_state \<Rightarrow> (fd_state \<times> (int + nat \<times> nat)) option" where
  "fd_allocfile p pool st = do {
     (fdp, r) \<leftarrow> alloc_loop p (fs_fdp st) 0;
     let st = st\<lparr>fs_fdp := fdp\<rparr>;
     (case r of
        Inl error \<Rightarrow> Some (st, Inl error)
      | Inr fd \<Rightarrow>
          (case pool of
             None \<Rightarrow> do { st \<leftarrow> fd_abort st None fd; Some (st, Inl ENFILE) }
           | Some (fp, f) \<Rightarrow>
               if f_count f \<noteq> 0 then None
               else Some (st\<lparr>fs_files := (fs_files st)
                   (fp \<mapsto> f\<lparr>f_cred := l_cred p, f_flag := f_flag f AND NOT FSCAN, f_advice := 0, f_offset := 0\<rparr>)\<rparr>,
                 Inr (fp, fd)))) }"

definition fd_dup :: "proc \<Rightarrow> fd_state \<Rightarrow> nat \<Rightarrow> int \<Rightarrow> bool \<Rightarrow> (fd_state \<times> (int + nat)) option" where
  "fd_dup p st fp minfd exclose = do {
     (fdp, r) \<leftarrow> alloc_loop p (fs_fdp st) minfd;
     (case r of
        Inl error \<Rightarrow> Some (st\<lparr>fs_fdp := fdp\<rparr>, Inl error)
      | Inr new \<Rightarrow> do {
          ff \<leftarrow> ff_get fdp new;
          st \<leftarrow> fd_affix (st\<lparr>fs_fdp := ff_put fdp new (ff\<lparr>ff_exclose := exclose\<rparr>)\<rparr>) fp new;
          Some (st, Inr new) }) }"

function grow_to :: "filedesc \<Rightarrow> nat \<Rightarrow> filedesc option" where
  "grow_to fdp newfd =
     (if nfiles fdp \<le> newfd then
        (case fd_tryexpand fdp (nfiles fdp) of None \<Rightarrow> None | Some fdp' \<Rightarrow> grow_to fdp' newfd)
      else Some fdp)"
  by pat_completeness auto
termination
  by (relation "measure (\<lambda>(fdp, newfd). Suc newfd - nfiles fdp)") (auto dest: fd_tryexpand_grows)

declare grow_to.simps [simp del]

text \<open>The loop that empties the slot, \<open>n\<close> rounds at most.\<close>

fun dup2_loop :: "nat \<Rightarrow> proc \<Rightarrow> fd_state \<Rightarrow> nat \<Rightarrow> (fd_state \<times> outcome) option" where
  "dup2_loop 0 p st newfd = None"
| "dup2_loop (Suc n) p st newfd = do {
     used \<leftarrow> fd_isused (fs_fdp st) newfd;
     if \<not> used then Some (st, Returned 0)
     else do {
       (st, r) \<leftarrow> fd_getfile p st newfd;
       (case r of
          None \<Rightarrow> Some (st, Pausing)
        | Some _ \<Rightarrow> do {
            (st, out) \<leftarrow> fd_close p st newfd;
            (case out of Returned _ \<Rightarrow> dup2_loop n p st newfd | _ \<Rightarrow> Some (st, out)) }) } }"

definition fd_dup2 :: "proc \<Rightarrow> fd_state \<Rightarrow> nat \<Rightarrow> nat \<Rightarrow> u32 \<Rightarrow> (fd_state \<times> outcome) option" where
  "fd_dup2 p st fp newfd flags =
     (if flags AND NOT (O_CLOEXEC OR FNONBLOCK) \<noteq> 0 then Some (st, Returned EINVAL)
      else do {
        fdp \<leftarrow> grow_to (fs_fdp st) newfd;
        (st, out) \<leftarrow> dup2_loop 2 p (st\<lparr>fs_fdp := fdp\<rparr>) newfd;
        if out \<noteq> Returned 0 then Some (st, out)
        else do {
          let fdp = fs_fdp st;
          ffo \<leftarrow> aget (ffs_of fdp) newfd;
          fdp \<leftarrow> (if ffo = None then (if newfd < NDFDFILE then None else Some (ff_put fdp newfd fdfile_ctor))
                  else Some fdp);
          fdp \<leftarrow> fd_used fdp newfd;
          ff \<leftarrow> ff_get fdp newfd;
          let fdp = ff_put fdp newfd (ff\<lparr>ff_exclose := (flags AND O_CLOEXEC \<noteq> 0)\<rparr>);
          f \<leftarrow> fs_files st fp;
          let f = f\<lparr>f_flag := f_flag f OR (flags AND FNONBLOCK)\<rparr>;
          st \<leftarrow> fd_affix (st\<lparr>fs_fdp := fdp, fs_files := (fs_files st)(fp \<mapsto> f)\<rparr>) fp newfd;
          Some (st, Returned 0) } })"

definition fd_set_exclose :: "filedesc \<Rightarrow> nat \<Rightarrow> bool \<Rightarrow> filedesc option" where
  "fd_set_exclose fdp fd exclose = do {
     ff \<leftarrow> ff_get fdp fd;
     let fdp = ff_put fdp fd (ff\<lparr>ff_exclose := exclose\<rparr>);
     Some (if exclose then fdp\<lparr>fd_exclose := True\<rparr> else fdp) }"

end
