(* ===== verification/Fd_Grow.thy ===== *)
theory Fd_Grow
  imports Fd_Alloc Fd_Ops
begin

text \<open>
  Growing the table keeps every descriptor, and the loop of \<open>fd_dup\<close> and \<open>fd_allocfile\<close> ends with the
  lowest free descriptor below the limit or with \<open>EMFILE\<close>.
\<close>

section \<open>Growing the table\<close>

definition grown :: "nat \<Rightarrow> nat" where
  "grown n = (if n < NDEXTENT then NDEXTENT else 2 * n)"

lemma used_slot_nfiles: "fd_wf fdp \<Longrightarrow> used_slot fdp fd \<Longrightarrow> fd < nfiles fdp"
  by (auto simp: fd_wf_def shape_ok_def dest: used_slot_bound)

lemma full_word_in_table:
  assumes wf: "fd_wf fdp" and "bm_bit (fd_himap fdp) off"
  shows "off < NDLOSLOTS (nfiles fdp)" "off div 32 < NDHISLOTS (nfiles fdp)"
proof -
  have "off < length (fd_lomap fdp)" "fd_lomap fdp ! off = - 1"
    using assms by (auto simp: fd_wf_def maps_ok_def hi_ok_def)
  then have "bm_bit (fd_lomap fdp) (off * 32 + 0)" using bm_bit_split [of 0 "fd_lomap fdp" off] by simp
  then have "off * 32 < nfiles fdp" using wf used_slot_nfiles [OF wf, of "off * 32"] by (simp add: fd_wf_def maps_ok_def)
  then show "off < NDLOSLOTS (nfiles fdp)" "off div 32 < NDHISLOTS (nfiles fdp)"
    using NDHISLOTS_le [of "nfiles fdp" "off div 32"] by (simp add: less_NDLOSLOTS, linarith)
qed

lemma expanded_maps:
  assumes wf: "fd_wf fdp"
  defines "m \<equiv> NDLOSLOTS (nfiles fdp)" and "h \<equiv> NDHISLOTS (nfiles fdp)"
  shows "m \<le> length (fd_lomap fdp)" "h \<le> length (fd_himap fdp)"
    "\<And>k. bm_bit (take m (fd_lomap fdp) @ replicate a 0) k \<longleftrightarrow> used_slot fdp k"
    "hi_ok (take m (fd_lomap fdp) @ replicate a 0) (take h (fd_himap fdp) @ replicate b 0)"
proof -
  show len: "m \<le> length (fd_lomap fdp)" "h \<le> length (fd_himap fdp)"
    using wf NDLOSLOTS_le [of "nfiles fdp" 32] NDHISLOTS_le [of "nfiles fdp" 1]
    by (simp_all add: fd_wf_def shape_ok_def m_def h_def)
  have lo: "bm_bit (fd_lomap fdp) k \<longleftrightarrow> used_slot fdp k" for k using wf by (simp add: fd_wf_def maps_ok_def)
  have "k div 32 < m" if "bm_bit (fd_lomap fdp) k" for k
    using used_slot_nfiles [OF wf, of k] that lo by (simp add: m_def less_NDLOSLOTS)
  then have "bm_bit (take m (fd_lomap fdp)) k \<longleftrightarrow> bm_bit (fd_lomap fdp) k" for k by (rule bm_bit_take)
  then show "bm_bit (take m (fd_lomap fdp) @ replicate a 0) k \<longleftrightarrow> used_slot fdp k" for k
    by (simp add: bm_bit_append_zeros lo)
  have hi: "bm_bit (take h (fd_himap fdp) @ replicate b 0) k \<longleftrightarrow> bm_bit (fd_himap fdp) k" for k
    using full_word_in_table(2) [OF wf] by (simp add: bm_bit_append_zeros bm_bit_take h_def)
  have "k < m" if "bm_bit (fd_himap fdp) k" for k using full_word_in_table(1) [OF wf that] by (simp add: m_def)
  then show "hi_ok (take m (fd_lomap fdp) @ replicate a 0) (take h (fd_himap fdp) @ replicate b 0)"
    using wf len(1) unfolding hi_ok_def hi
    by (auto simp: fd_wf_def maps_ok_def hi_ok_def nth_append split: if_splits)
qed

lemma NDHISLOTS_grown:
  "NDHISLOTS n < NDHISLOTS (grown n) \<longleftrightarrow> 1024 < grown n" if "0 < n"
proof -
  let ?k = "NDHISLOTS n"
  have k: "n \<le> ?k * 1024" "\<not> n \<le> (?k - 1) * 1024 \<or> ?k = 0"
    using NDHISLOTS_le [of n ?k] NDHISLOTS_le [of n "?k - 1"] by auto
  have "NDHISLOTS n < NDHISLOTS (grown n) \<longleftrightarrow> \<not> grown n \<le> ?k * 1024"
    using NDHISLOTS_le [of "grown n" ?k] by linarith
  moreover have "\<not> grown n \<le> ?k * 1024 \<longleftrightarrow> 1024 < grown n"
  proof (cases "?k \<le> 1")
    case True
    then have "?k = 1" using k(1) that by (cases "?k = 0") simp_all
    then show ?thesis by (simp add: not_le)
  next
    case False
    then obtain j where j: "?k = Suc (Suc j)" by (metis One_nat_def Suc_leI le0 not_le not0_implies_Suc less_Suc_eq_le nat_less_le)
    then have "(j + 1) * 1024 < n" using k(2) by simp
    then show ?thesis using j unfolding grown_def by simp
  qed
  ultimately show ?thesis by simp
qed

lemma table_size_grown: "table_size n \<Longrightarrow> table_size (grown n)"
proof -
  assume "table_size n"
  then consider "n = 20" | k where "n = 50 * 2 ^ k" by (auto simp: table_size_def)
  then show ?thesis
  proof cases
    case 1
    then show ?thesis by (auto simp: grown_def table_size_def intro: exI [of _ 0])
  next
    case 2
    then have "grown n = 50 * 2 ^ Suc k" by (simp add: grown_def)
    then show ?thesis unfolding table_size_def by blast
  qed
qed

lemma fd_tryexpand_spec:
  assumes wf: "fd_wf fdp" and small: "grown (nfiles fdp) < 2 ^ 31"
  obtains fdp' where "fd_tryexpand fdp (nfiles fdp) = Some fdp'" "fd_wf fdp'" "ff_get fdp' = ff_get fdp"
    "nfiles fdp' = grown (nfiles fdp)" "fd_refcnt fdp' = fd_refcnt fdp" "fd_exclose fdp' = fd_exclose fdp"
proof -
  let ?n = "nfiles fdp"
  let ?g = "grown ?n"
  have shape: "shape_ok fdp" using wf by (simp add: fd_wf_def)
  have n: "length (ffs_of fdp) = ?n" "20 \<le> ?n" "?n < ?g" "20 < ?g"
    using shape table_size_ge by (auto simp: shape_ok_def grown_def)
  define link where "link = (if 20 < ?n \<and> 1 < fd_refcnt fdp then ?n # dt_link (fd_dt fdp) else [])"
  define dt where "dt = \<lparr>dt_nfiles = ?g, dt_link = link, dt_ff = ffs_of fdp @ replicate (?g - ?n) None\<rparr>"
  define mid where "mid = (if 1024 < ?g
    then fdp\<lparr>fd_himap := take (NDHISLOTS ?n) (fd_himap fdp) @ replicate (NDHISLOTS ?g - NDHISLOTS ?n) 0,
             fd_lomap := take (NDLOSLOTS ?n) (fd_lomap fdp) @ replicate (NDLOSLOTS ?g - NDLOSLOTS ?n) 0,
             fd_dmaps := False\<rparr>
    else fdp)"
  define fdp' where "fdp' = mid\<lparr>fd_dt := dt\<rparr>"
  have links: "list_all (\<lambda>m. 20 < m) (dt_link (fd_dt fdp))" using shape by (simp add: shape_ok_def)
  have expand: "fd_tryexpand fdp ?n = Some fdp'"
    using small n links expanded_maps(1,2) [OF wf] NDHISLOTS_grown [of ?n]
    by (auto simp: fd_tryexpand_def fdp'_def mid_def dt_def link_def grown_def Let_def fd_dtab_alloc_def fd_dtab_free_def aslice_def)
  have get: "ff_get fdp' = ff_get fdp"
    by (auto simp: fun_eq_iff ff_get_def aget_def fdp'_def dt_def nth_append n(1))
  then have used: "used_slot fdp' = used_slot fdp" by (simp add: fun_eq_iff used_slot_def)
  have mid: "fd_refcnt mid = fd_refcnt fdp" "fd_exclose mid = fd_exclose fdp" "fd_lastfile mid = fd_lastfile fdp"
    "fd_freefile mid = fd_freefile fdp" by (simp_all add: mid_def)
  have maps: "maps_ok fdp'"
    using expanded_maps(3,4) [OF wf] wf unfolding maps_ok_def used
    by (simp add: fdp'_def mid_def fd_wf_def maps_ok_def)
  have "fd_dmaps fdp" if "?g \<le> 1024" using shape n(3) that by (simp add: shape_ok_def)
  then have "shape_ok fdp'"
    using shape n small table_size_grown [of ?n] get links NDHISLOTS_le [of ?n] NDLOSLOTS_mono [of ?n ?g] expanded_maps(1,2) [OF wf] NDHISLOTS_grown [of ?n]
    unfolding shape_ok_def by (auto simp: fdp'_def mid_def dt_def link_def)
  moreover have fields: "fd_lastfile fdp' = fd_lastfile fdp" "fd_freefile fdp' = fd_freefile fdp"
    "fd_refcnt fdp' = fd_refcnt fdp" "fd_exclose fdp' = fd_exclose fdp" "nfiles fdp' = ?g"
    using mid by (simp_all add: fdp'_def dt_def)
  ultimately have "fd_wf fdp'"
    using wf maps unfolding fd_wf_def slots_ok_def marks_ok_def get used fields by blast
  then show ?thesis using that expand get fields by blast
qed

section \<open>Allocating with growth\<close>

definition same_process :: "filedesc \<Rightarrow> filedesc \<Rightarrow> bool" where
  "same_process fdp fdp' \<longleftrightarrow>
     fd_refcnt fdp' = fd_refcnt fdp \<and> fd_exclose fdp' = fd_exclose fdp \<and> nfiles fdp \<le> nfiles fdp'"

definition allocated :: "proc \<Rightarrow> filedesc \<Rightarrow> int \<Rightarrow> nat option \<Rightarrow> bool" where
  "allocated p fdp want r \<longleftrightarrow>
     (case r of
        None \<Rightarrow> \<exists>fdp'. alloc_loop p fdp want = Some (fdp', Inl EMFILE) \<and> fd_wf fdp' \<and> same_process fdp fdp' \<and>
          ff_get fdp' = ff_get fdp
      | Some i \<Rightarrow> \<exists>fdp'. alloc_loop p fdp want = Some (fdp', Inr i) \<and> fd_wf fdp' \<and> same_process fdp fdp' \<and>
          ff_get fdp' = (ff_get fdp)(i \<mapsto> (slot_or_new fdp i)\<lparr>ff_allocated := True\<rparr>))"

lemma alloc_loop_spec:
  assumes "fd_wf fdp" "fd_lim p \<le> 2 ^ 30"
  shows "\<exists>r. lowest_free fdp (fd_lim p) want r \<and> allocated p fdp want r"
  using assms
proof (induction p fdp want rule: alloc_loop.induct)
  case (1 p fdp want)
  note wf = 1(2) and lim = 1(3)
  obtain r where r: "lowest_free fdp (min (nfiles fdp) (fd_lim p)) want r"
    and alloc: "case r of
       None \<Rightarrow> fd_alloc p fdp want = Some (fdp, Inl (if fd_lim p \<le> nfiles fdp then EMFILE else ENOSPC))
     | Some i \<Rightarrow> \<exists>fdp'. fd_alloc p fdp want = Some (fdp', Inr i) \<and> fd_wf fdp' \<and> same_frame fdp fdp' \<and>
         ff_get fdp' = (ff_get fdp)(i \<mapsto> (slot_or_new fdp i)\<lparr>ff_allocated := True\<rparr>)"
    using fd_alloc_spec [OF wf] by blast
  consider (found) i where "r = Some i" | (limit) "r = None" "fd_lim p \<le> nfiles fdp"
    | (grow) "r = None" "nfiles fdp < fd_lim p" by fastforce
  then show ?case
  proof cases
    case found
    then obtain fdp' where fdp': "fd_alloc p fdp want = Some (fdp', Inr i)" "fd_wf fdp'" "same_frame fdp fdp'"
      "ff_get fdp' = (ff_get fdp)(i \<mapsto> (slot_or_new fdp i)\<lparr>ff_allocated := True\<rparr>)" using alloc by auto
    have "alloc_loop p fdp want = Some (fdp', Inr i)" using fdp'(1) by (subst alloc_loop.simps) simp
    then have "allocated p fdp want (Some i)"
      using fdp' by (simp add: allocated_def same_process_def same_frame_def)
    moreover have "lowest_free fdp (fd_lim p) want (Some i)" using r found by (simp add: lowest_free_def)
    ultimately show ?thesis by blast
  next
    case limit
    then have "alloc_loop p fdp want = Some (fdp, Inl EMFILE)" using alloc by (subst alloc_loop.simps) simp
    then show ?thesis
      using r limit wf by (intro exI [of _ None]) (simp add: allocated_def same_process_def min_absorb2)
  next
    case grow
    then have a: "fd_alloc p fdp want = Some (fdp, Inl ENOSPC)" using alloc by simp
    have "grown (nfiles fdp) < 2 ^ 31" using grow(2) lim by (simp add: grown_def)
    then obtain fdp' where g: "fd_tryexpand fdp (nfiles fdp) = Some fdp'" "fd_wf fdp'" "ff_get fdp' = ff_get fdp"
      "nfiles fdp' = grown (nfiles fdp)" "fd_refcnt fdp' = fd_refcnt fdp" "fd_exclose fdp' = fd_exclose fdp"
      using fd_tryexpand_spec [OF wf] by blast
    have same: "used_slot fdp' = used_slot fdp" "slot_or_new fdp' = slot_or_new fdp"
      using g(3) by (simp_all add: fun_eq_iff used_slot_def slot_or_new_def)
    have "alloc_loop p fdp want = alloc_loop p fdp' want" using a g(1) by (subst alloc_loop.simps) simp
    moreover have "same_process fdp' fdp'' \<Longrightarrow> same_process fdp fdp''" for fdp''
      using g(4-6) by (simp add: same_process_def grown_def split: if_splits)
    ultimately have "allocated p fdp' want r \<Longrightarrow> allocated p fdp want r" for r
      using g(3) same(2) by (auto simp: allocated_def split: option.splits)
    moreover have "lowest_free fdp' (fd_lim p) want r \<Longrightarrow> lowest_free fdp (fd_lim p) want r" for r
      unfolding lowest_free_def same(1) .
    moreover have "\<exists>r. lowest_free fdp' (fd_lim p) want r \<and> allocated p fdp' want r"
      using "1.IH" [OF a refl refl _ g(1,2) lim] by simp
    ultimately show ?thesis by blast
  qed
qed

lemma grow_to_spec:
  assumes "fd_wf fdp" "newfd < 2 ^ 30"
  shows "\<exists>fdp'. grow_to fdp newfd = Some fdp' \<and> fd_wf fdp' \<and> same_process fdp fdp' \<and> ff_get fdp' = ff_get fdp \<and> newfd < nfiles fdp'"
  using assms
proof (induction fdp newfd rule: grow_to.induct)
  case (1 fdp newfd)
  show ?case
  proof (cases "nfiles fdp \<le> newfd")
    case True
    then have "grown (nfiles fdp) < 2 ^ 31" using 1(3) by (simp add: grown_def)
    then obtain fdp' where g: "fd_tryexpand fdp (nfiles fdp) = Some fdp'" "fd_wf fdp'" "ff_get fdp' = ff_get fdp"
      "nfiles fdp' = grown (nfiles fdp)" "fd_refcnt fdp' = fd_refcnt fdp" "fd_exclose fdp' = fd_exclose fdp"
      using fd_tryexpand_spec [OF 1(2)] by blast
    have "grow_to fdp newfd = grow_to fdp' newfd" using True g(1) by (subst grow_to.simps) simp
    moreover have "same_process fdp' fdp'' \<Longrightarrow> same_process fdp fdp''" for fdp''
      using g(4-6) by (simp add: same_process_def grown_def split: if_splits)
    ultimately show ?thesis using "1.IH" [OF True g(1,2) 1(3)] g(3) by (metis (no_types, lifting))
  next
    case False
    then show ?thesis using 1(2) by (subst grow_to.simps) (simp add: same_process_def)
  qed
qed

end
