(* ===== verification/Fd_Fork.thy ===== *)
theory Fd_Fork
  imports Fd_Ops
begin

text \<open>
  What \<open>fork\<close>, \<open>exec\<close> and \<open>exit\<close> do to the descriptors (\<open>fd_copy\<close>, \<open>fd_closeexec\<close>, \<open>fd_free\<close> of
  \<^verbatim>\<open>sys/kern/kern_descrip.c\<close>), and the system calls of \<^verbatim>\<open>sys/kern/sys_descrip.c\<close>.
\<close>

section \<open>Sharing and copying\<close>

definition fd_share :: "filedesc \<Rightarrow> filedesc" where
  "fd_share fdp = fdp\<lparr>fd_refcnt := fd_refcnt fdp + 1\<rparr>"

definition fd_hold :: "filedesc \<Rightarrow> filedesc" where
  "fd_hold fdp = fdp\<lparr>fd_refcnt := fd_refcnt fdp + 1\<rparr>"

function copy_size :: "nat \<Rightarrow> int \<Rightarrow> nat" where
  "copy_size i lastfile =
     (if 2 * NDEXTENT \<le> i \<and> lastfile * 2 < int i then copy_size (i div 2) lastfile else i)"
  by pat_completeness auto
termination
  by (relation "measure fst") auto

declare copy_size.simps [simp del]

text \<open>The new structure, before any descriptor is copied.\<close>

definition copy_table :: "filedesc \<Rightarrow> filedesc option" where
  "copy_table fdp = do {
     let new = filedesc_ctor\<lparr>fd_refcnt := 1\<rparr>;
     let lastfile = fd_lastfile fdp;
     let i = (if lastfile < int NDFILE then NDFILE else copy_size (nfiles fdp) lastfile);
     new \<leftarrow> (if lastfile < int NDFILE then Some new
              else do {
                newdt \<leftarrow> fd_dtab_alloc i (take NDFDFILE (ffs_of new) @ replicate (i - NDFDFILE) None);
                Some (new\<lparr>fd_dt := newdt\<rparr>) });
     new \<leftarrow> (if NDHISLOTS i \<le> NDHISLOTS NDFILE then Some new
              else if i < NDENTRIES * NDENTRIES then None
              else Some (new\<lparr>fd_himap := replicate (NDHISLOTS i) 0, fd_lomap := replicate (NDLOSLOTS i) 0,
                              fd_dmaps := False\<rparr>));
     Some (new\<lparr>fd_freefile := fd_freefile fdp, fd_exclose := fd_exclose fdp\<rparr>) }"

text \<open>One round of the loop of \<open>fd_copy\<close>; the third part of the state is \<open>newlast\<close>.\<close>

type_synonym copy_state = "filedesc \<times> (nat \<rightharpoonup> file_t) \<times> int"

definition copy_one :: "filedesc \<Rightarrow> nat \<Rightarrow> copy_state \<Rightarrow> copy_state option" where
  "copy_one fdp i = (\<lambda>(new, files, newlast). do {
     ffo \<leftarrow> aget (ffs_of fdp) i;
     nffo \<leftarrow> aget (ffs_of new) i;
     let fpo = Option.bind ffo ff_file;
     (case fpo of
        None \<Rightarrow> do {
          used \<leftarrow> fd_isused new i;
          if used then None else Some (new, files, newlast) }
      | Some fp \<Rightarrow> do {
          f \<leftarrow> files fp;
          if f_type f = DTYPE_KQUEUE
          then Some (if i < fd_freefile new then new\<lparr>fd_freefile := i\<rparr> else new, files, newlast)
          else do {
            let files = files(fp \<mapsto> f\<lparr>f_count := f_count f + 1\<rparr>);
            ff \<leftarrow> ffo;
            ff2 \<leftarrow> (if NDFDFILE \<le> i then Some fdfile_ctor else nffo);
            (lomap, himap) \<leftarrow> set_bits (fd_lomap new) (fd_himap new) i;
            let new = ff_put (new\<lparr>fd_lomap := lomap, fd_himap := himap\<rparr>) i
              (ff2\<lparr>ff_file := Some fp, ff_exclose := ff_exclose ff, ff_allocated := True\<rparr>);
            Some (new, files, int i) } }) })"

fun fd_copy_loop :: "filedesc \<Rightarrow> nat list \<Rightarrow> copy_state \<Rightarrow> copy_state option" where
  "fd_copy_loop fdp [] s = Some s"
| "fd_copy_loop fdp (i # is) s = do { s \<leftarrow> copy_one fdp i s; fd_copy_loop fdp is s }"

definition fd_copy :: "fd_state \<Rightarrow> (filedesc \<times> (nat \<rightharpoonup> file_t)) option" where
  "fd_copy st = do {
     new \<leftarrow> copy_table (fs_fdp st);
     (new, files, newlast) \<leftarrow>
       fd_copy_loop (fs_fdp st) [0..<nat (fd_lastfile (fs_fdp st) + 1)] (new, fs_files st, - 1);
     Some (new\<lparr>fd_lastfile := newlast\<rparr>, files) }"

section \<open>Releasing the structure\<close>

definition free_one :: "proc \<Rightarrow> nat \<Rightarrow> fd_state \<Rightarrow> fd_state option" where
  "free_one p fd st = do {
     ffo \<leftarrow> aget (ffs_of (fs_fdp st)) fd;
     (case ffo of
        None \<Rightarrow> Some st
      | Some ff \<Rightarrow> do {
          st \<leftarrow> (case ff_file ff of
                   None \<Rightarrow> Some st
                 | Some fp \<Rightarrow> do {
                     f \<leftarrow> fs_files st fp;
                     if ff_refcnt ff = 0 \<and> (\<not> pk_advlock p \<or> f_type f \<noteq> DTYPE_VNODE) then do {
                       (st, _) \<leftarrow> closef p fp (st\<lparr>fs_fdp := ff_put (fs_fdp st) fd
                         (ff\<lparr>ff_file := None, ff_exclose := False, ff_allocated := False\<rparr>)\<rparr>);
                       Some st }
                     else do {
                       fdp \<leftarrow> ref_take (fs_fdp st) fd;
                       (st, out) \<leftarrow> fd_close p (st\<lparr>fs_fdp := fdp\<rparr>) fd;
                       (case out of Returned _ \<Rightarrow> Some st | _ \<Rightarrow> None) } });
          ff \<leftarrow> ff_get (fs_fdp st) fd;
          if ff_refcnt ff \<noteq> 0 \<or> ff_file ff \<noteq> None \<or> ff_exclose ff \<or> ff_allocated ff then None
          else Some (if NDFDFILE \<le> fd
            then st\<lparr>fs_fdp := (fs_fdp st)\<lparr>fd_dt := (fd_dt (fs_fdp st))\<lparr>dt_ff := (ffs_of (fs_fdp st))[fd := None]\<rparr>\<rparr>\<rparr>
            else st) }) }"

fun fd_free_loop :: "proc \<Rightarrow> nat list \<Rightarrow> fd_state \<Rightarrow> fd_state option" where
  "fd_free_loop p [] st = Some st"
| "fd_free_loop p (fd # fds) st = do { st \<leftarrow> free_one p fd st; fd_free_loop p fds st }"

text \<open>The structure goes back to the cache as \<open>filedesc_ctor\<close> made it.\<close>

definition fd_free :: "proc \<Rightarrow> fd_state \<Rightarrow> fd_state option" where
  "fd_free p st = do {
     let fdp = (fs_fdp st)\<lparr>fd_refcnt := fd_refcnt (fs_fdp st) - 1\<rparr>;
     let st = st\<lparr>fs_fdp := fdp\<rparr>;
     if 0 < fd_refcnt fdp then Some st
     else do {
       st \<leftarrow> fd_free_loop p [0..<nfiles fdp] st;
       let fdp = fs_fdp st;
       let nf = nfiles fdp;
       dt \<leftarrow> (if nf \<noteq> NDFILE then do {
           _ \<leftarrow> fd_dtab_free (fd_dt fdp);
           Some \<lparr>dt_nfiles = NDFILE, dt_link = [],
                  dt_ff = take NDFDFILE (ffs_of fdp) @ replicate (NDFILE - NDFDFILE) None\<rparr> }
         else Some (fd_dt fdp));
       if NDHISLOTS NDFILE < NDHISLOTS nf \<and> fd_dmaps fdp then None
       else Some (st\<lparr>fs_fdp := fdp\<lparr>fd_dt := dt, fd_lastfile := - 1, fd_freefile := 0, fd_exclose := False,
                  fd_himap := [0], fd_lomap := replicate NDENTRIES 0, fd_dmaps := True\<rparr>\<rparr>) } }"

section \<open>Closing on exec\<close>

fun closeexec_loop :: "proc \<Rightarrow> nat list \<Rightarrow> fd_state \<Rightarrow> (fd_state \<times> outcome) option" where
  "closeexec_loop p [] st =
     (if fd_lastfile (fs_fdp st) < int (nfiles (fs_fdp st)) then Some (st, Returned 0) else None)"
| "closeexec_loop p (fd # fds) st =
     (if fd_lastfile (fs_fdp st) < int fd then Some (st, Returned 0)
      else do {
        ffo \<leftarrow> aget (ffs_of (fs_fdp st)) fd;
        (case ffo of
           None \<Rightarrow> if fd < NDFDFILE then None else closeexec_loop p fds st
         | Some ff \<Rightarrow>
             if ff_file ff = None \<or> \<not> ff_exclose ff then closeexec_loop p fds st
             else if ff_refcnt ff AND FR_CLOSING \<noteq> 0 then None
             else do {
               fdp \<leftarrow> ref_take (fs_fdp st) fd;
               (st, out) \<leftarrow> fd_close p (st\<lparr>fs_fdp := fdp\<rparr>) fd;
               (case out of Returned _ \<Rightarrow> closeexec_loop p fds st | _ \<Rightarrow> Some (st, out)) }) })"

text \<open>A structure that is shared is copied first; the second part of the result is the structure
  left to the other processes.\<close>

definition fd_closeexec :: "proc \<Rightarrow> fd_state \<Rightarrow> (fd_state \<times> filedesc option \<times> outcome) option" where
  "fd_closeexec p st = do {
     (st, old) \<leftarrow> (if 1 < fd_refcnt (fs_fdp st) then do {
                     (new, files) \<leftarrow> fd_copy st;
                     st \<leftarrow> fd_free p (st\<lparr>fs_files := files\<rparr>);
                     Some (st\<lparr>fs_fdp := new\<rparr>, Some (fs_fdp st)) }
                   else Some (st, None));
     if \<not> fd_exclose (fs_fdp st) then Some (st, old, Returned 0)
     else do {
       let st = st\<lparr>fs_fdp := (fs_fdp st)\<lparr>fd_exclose := False\<rparr>\<rparr>;
       (st, out) \<leftarrow> closeexec_loop p [0..<nfiles (fs_fdp st)] st;
       Some (st, old, out) } }"

section \<open>System calls\<close>

definition fd_dupopen :: "proc \<Rightarrow> fd_state \<Rightarrow> nat \<Rightarrow> u32 \<Rightarrow> int \<Rightarrow> (fd_state \<times> (outcome + nat)) option" where
  "fd_dupopen p st old mode error = do {
     (st, r) \<leftarrow> fd_getfile p st old;
     (case r of
        None \<Rightarrow> Some (st, Inl (Returned EBADF))
      | Some fp \<Rightarrow> do {
          ff \<leftarrow> ff_get (fs_fdp st) old;
          f \<leftarrow> fs_files st fp;
          if error = EDUPFD \<and> (mode AND FREADWRITE) OR f_flag f \<noteq> f_flag f then do {
            (st, _) \<leftarrow> fd_putfile p st old;
            Some (st, Inl (Returned EACCES)) }
          else if error = EDUPFD \<or> error = EMOVEFD then do {
            (st, new) \<leftarrow> fd_dup p st fp 0 (ff_exclose ff);
            (case new of
               Inl error \<Rightarrow> do { (st, _) \<leftarrow> fd_putfile p st old; Some (st, Inl (Returned error)) }
             | Inr new \<Rightarrow>
                 if error = EMOVEFD then do {
                   (st, out) \<leftarrow> fd_close p st old;
                   Some (st, case out of Returned _ \<Rightarrow> Inr new | _ \<Rightarrow> Inl out) }
                 else do { (st, _) \<leftarrow> fd_putfile p st old; Some (st, Inr new) }) }
          else do { (st, _) \<leftarrow> fd_putfile p st old; Some (st, Inl (Returned error)) } }) }"

definition sys_dup :: "proc \<Rightarrow> fd_state \<Rightarrow> nat \<Rightarrow> (fd_state \<times> (int + nat)) option" where
  "sys_dup p st oldfd = do {
     (st, r) \<leftarrow> fd_getfile p st oldfd;
     (case r of
        None \<Rightarrow> Some (st, Inl EBADF)
      | Some fp \<Rightarrow> do {
          (st, new) \<leftarrow> fd_dup p st fp 0 False;
          (st, _) \<leftarrow> fd_putfile p st oldfd;
          Some (st, new) }) }"

text \<open>\<open>sys_dup2\<close> is \<open>dodup\<close> without flags, \<open>sys_dup3\<close> with them.  The last part of the result is what
  is stored in \<open>*retval\<close>, if the call gets that far.\<close>

definition dodup :: "proc \<Rightarrow> fd_state \<Rightarrow> nat \<Rightarrow> nat \<Rightarrow> u32 \<Rightarrow> (fd_state \<times> outcome \<times> nat option) option" where
  "dodup p st fd to flags = do {
     (st, r) \<leftarrow> fd_getfile p st fd;
     (case r of
        None \<Rightarrow> Some (st, Returned EBADF, None)
      | Some fp \<Rightarrow> do {
          st \<leftarrow> f_hold fp st;
          (st, _) \<leftarrow> fd_putfile p st fd;
          (st, out) \<leftarrow> (if unat (rlim_cur p) \<le> to \<or> unat (maxfiles p) \<le> to then Some (st, Returned EBADF)
                        else if fd = to then Some (st, Returned 0)
                        else fd_dup2 p st fp to flags);
          (case out of
             Returned _ \<Rightarrow> do { (st, _) \<leftarrow> closef p fp st; Some (st, out, Some to) }
           | _ \<Rightarrow> Some (st, out, None)) }) }"

text \<open>\<open>F_DUPFD\<close> and \<open>F_DUPFD_CLOEXEC\<close> (with \<open>cloexec\<close>).\<close>

definition fcntl_dupfd ::
    "proc \<Rightarrow> fd_state \<Rightarrow> nat \<Rightarrow> nat \<Rightarrow> bool \<Rightarrow> (fd_state \<times> (int + nat)) option" where
  "fcntl_dupfd p st fd newmin cloexec = do {
     (st, r) \<leftarrow> fd_getfile p st fd;
     (case r of
        None \<Rightarrow> Some (st, Inl EBADF)
      | Some fp \<Rightarrow>
          if unat (rlim_cur p) \<le> newmin \<or> unat (maxfiles p) \<le> newmin then do {
            (st, _) \<leftarrow> fd_putfile p st fd;
            Some (st, Inl EINVAL) }
          else do {
            (st, new) \<leftarrow> fd_dup p st fp (int newmin) cloexec;
            (st, _) \<leftarrow> fd_putfile p st fd;
            Some (st, new) }) }"

definition fcntl_setfd :: "proc \<Rightarrow> fd_state \<Rightarrow> nat \<Rightarrow> bool \<Rightarrow> (fd_state \<times> int) option" where
  "fcntl_setfd p st fd cloexec = do {
     (st, r) \<leftarrow> fd_getfile p st fd;
     (case r of
        None \<Rightarrow> Some (st, EBADF)
      | Some fp \<Rightarrow> do {
          fdp \<leftarrow> fd_set_exclose (fs_fdp st) fd cloexec;
          (st, _) \<leftarrow> fd_putfile p (st\<lparr>fs_fdp := fdp\<rparr>) fd;
          Some (st, 0) }) }"

definition fcntl_getfd :: "proc \<Rightarrow> fd_state \<Rightarrow> nat \<Rightarrow> (fd_state \<times> (int + bool)) option" where
  "fcntl_getfd p st fd = do {
     (st, r) \<leftarrow> fd_getfile p st fd;
     (case r of
        None \<Rightarrow> Some (st, Inl EBADF)
      | Some fp \<Rightarrow> do {
          ff \<leftarrow> ff_get (fs_fdp st) fd;
          (st, _) \<leftarrow> fd_putfile p st fd;
          Some (st, Inr (ff_exclose ff)) }) }"

text \<open>The status flags.  \<open>FFLAGS\<close> and \<open>OFLAGS\<close> convert the access mode by adding and subtracting one.\<close>

abbreviation (input) FASYNC :: u32 where "FASYNC \<equiv> 0x40"
abbreviation (input) FNOSIGPIPE :: u32 where "FNOSIGPIPE \<equiv> 0x1000000"
abbreviation (input) FCNTLFLAGS :: u32 where "FCNTLFLAGS \<equiv> 0x10F00CC"
abbreviation (input) FMASK :: u32 where "FMASK \<equiv> 0x10F00CF"

definition FFLAGS :: "u32 \<Rightarrow> u32" where "FFLAGS oflags = oflags + 1"

definition OFLAGS :: "u32 \<Rightarrow> u32" where "OFLAGS fflags = fflags - 1"

text \<open>A call to the file, and the error it returns.\<close>

definition do_fcntl :: "proc \<Rightarrow> nat \<Rightarrow> u32 \<Rightarrow> ext_call list \<Rightarrow> ext_call list \<times> int" where
  "do_fcntl p fp flags calls = (calls @ [Fo_fcntl fp flags], fo_fcntl p (length calls) fp flags)"

definition do_ioctl :: "proc \<Rightarrow> nat \<Rightarrow> bool \<Rightarrow> u32 \<Rightarrow> ext_call list \<Rightarrow> ext_call list \<times> int" where
  "do_ioctl p fp async v calls = (calls @ [Fo_ioctl fp async v], fo_ioctl p (length calls) fp async v)"

text \<open>\<open>F_SETFL\<close> on a file with flags \<open>flag\<close>: the calls made, the new flags and the error.\<close>

definition setfl :: "proc \<Rightarrow> nat \<Rightarrow> u32 \<Rightarrow> u32 \<Rightarrow> ext_call list \<Rightarrow> ext_call list \<times> u32 \<times> int" where
  "setfl p fp flag arg calls =
     (let tmp = FFLAGS arg AND FCNTLFLAGS;
          (calls, error) = do_fcntl p fp tmp calls
      in if error \<noteq> 0 then (calls, flag, error)
         else
           let i = tmp XOR flag;
               (calls, error) = (if i AND FNONBLOCK \<noteq> 0 then do_ioctl p fp False (tmp AND FNONBLOCK) calls else (calls, 0))
           in if error \<noteq> 0 then (fst (do_fcntl p fp flag calls), flag, error)
              else
                let (calls, error) = (if i AND FASYNC \<noteq> 0 then do_ioctl p fp True (tmp AND FASYNC) calls else (calls, 0))
                in if error \<noteq> 0 then
                     let calls = (if i AND FNONBLOCK \<noteq> 0 then fst (do_ioctl p fp False (flag AND FNONBLOCK) calls) else calls)
                     in (fst (do_fcntl p fp flag calls), flag, error)
                   else (calls, (flag AND NOT FCNTLFLAGS) OR tmp, 0))"

definition fcntl_setfl :: "proc \<Rightarrow> fd_state \<Rightarrow> nat \<Rightarrow> u32 \<Rightarrow> (fd_state \<times> int) option" where
  "fcntl_setfl p st fd arg = do {
     (st, r) \<leftarrow> fd_getfile p st fd;
     (case r of
        None \<Rightarrow> Some (st, EBADF)
      | Some fp \<Rightarrow> do {
          f \<leftarrow> fs_files st fp;
          let (calls, flag, error) = setfl p fp (f_flag f) arg (fs_calls st);
          (st, _) \<leftarrow> fd_putfile p (st\<lparr>fs_files := (fs_files st)(fp \<mapsto> f\<lparr>f_flag := flag\<rparr>), fs_calls := calls\<rparr>) fd;
          Some (st, error) }) }"

definition fcntl_getfl :: "proc \<Rightarrow> fd_state \<Rightarrow> nat \<Rightarrow> (fd_state \<times> (int + u32)) option" where
  "fcntl_getfl p st fd = do {
     (st, r) \<leftarrow> fd_getfile p st fd;
     (case r of
        None \<Rightarrow> Some (st, Inl EBADF)
      | Some fp \<Rightarrow> do {
          f \<leftarrow> fs_files st fp;
          (st, _) \<leftarrow> fd_putfile p st fd;
          Some (st, Inr (OFLAGS (f_flag f))) }) }"

definition fcntl_setnosigpipe :: "proc \<Rightarrow> fd_state \<Rightarrow> nat \<Rightarrow> bool \<Rightarrow> (fd_state \<times> int) option" where
  "fcntl_setnosigpipe p st fd arg = do {
     (st, r) \<leftarrow> fd_getfile p st fd;
     (case r of
        None \<Rightarrow> Some (st, EBADF)
      | Some fp \<Rightarrow> do {
          f \<leftarrow> fs_files st fp;
          let flag = (if arg then f_flag f OR FNOSIGPIPE else f_flag f AND NOT FNOSIGPIPE);
          (st, _) \<leftarrow> fd_putfile p (st\<lparr>fs_files := (fs_files st)(fp \<mapsto> f\<lparr>f_flag := flag\<rparr>)\<rparr>) fd;
          Some (st, 0) }) }"

definition fcntl_getnosigpipe :: "proc \<Rightarrow> fd_state \<Rightarrow> nat \<Rightarrow> (fd_state \<times> (int + bool)) option" where
  "fcntl_getnosigpipe p st fd = do {
     (st, r) \<leftarrow> fd_getfile p st fd;
     (case r of
        None \<Rightarrow> Some (st, Inl EBADF)
      | Some fp \<Rightarrow> do {
          f \<leftarrow> fs_files st fp;
          (st, _) \<leftarrow> fd_putfile p st fd;
          Some (st, Inr (f_flag f AND FNOSIGPIPE \<noteq> 0)) }) }"

definition fcntl_maxfd :: "fd_state \<Rightarrow> int" where
  "fcntl_maxfd st = fd_lastfile (fs_fdp st)"

text \<open>A device that is opened by cloning gives its own file to the descriptor; the second part of the
  result is \<open>l_dupfd\<close>.\<close>

definition fd_clone :: "fd_state \<Rightarrow> nat \<Rightarrow> nat \<Rightarrow> u32 \<Rightarrow> (fd_state \<times> nat \<times> int) option" where
  "fd_clone st fp fd flag = do {
     f \<leftarrow> fs_files st fp;
     ff \<leftarrow> ff_get (fs_fdp st) fd;
     let f = f\<lparr>f_flag := f_flag f OR (flag AND FMASK), f_type := DTYPE_MISC, f_ops := True\<rparr>;
     let fdp = ff_put (fs_fdp st) fd (ff\<lparr>ff_exclose := (flag AND O_CLOEXEC \<noteq> 0)\<rparr>);
     st \<leftarrow> fd_affix (st\<lparr>fs_fdp := fdp, fs_files := (fs_files st)(fp \<mapsto> f)\<rparr>) fp fd;
     Some (st, fd, EMOVEFD) }"

text \<open>Opening a file by name (\<^verbatim>\<open>vfs_syscalls.c\<close>).  What \<open>vn_open\<close> does is outside this code: \<open>oe_error\<close>
  is the error it returns and \<open>oe_dupfd\<close> the value it leaves in \<open>l_dupfd\<close> (\<open>fdopen\<close> stores a descriptor
  there), and it is taken to leave the descriptors alone; \<open>oe_advlock\<close> is what \<open>VOP_ADVLOCK\<close> returns.\<close>

abbreviation (input) O_SHLOCK :: u32 where "O_SHLOCK \<equiv> 0x10"
abbreviation (input) O_EXLOCK :: u32 where "O_EXLOCK \<equiv> 0x20"
abbreviation (input) O_SEARCH :: u32 where "O_SEARCH \<equiv> 0x800000"

record open_env =
  oe_error :: int
  oe_dupfd :: int
  oe_advlock :: int

definition open_setfp :: "int \<Rightarrow> fd_state \<Rightarrow> nat \<Rightarrow> nat \<Rightarrow> u32 \<Rightarrow> (fd_state \<times> int) option" where
  "open_setfp advlock st fp indx flags = do {
     f \<leftarrow> fs_files st fp;
     let f = f\<lparr>f_flag := flags AND FMASK, f_type := DTYPE_VNODE, f_ops := True\<rparr>;
     let st = st\<lparr>fs_files := (fs_files st)(fp \<mapsto> f)\<rparr>;
     (st, error) \<leftarrow> (if flags AND (O_EXLOCK OR O_SHLOCK) \<noteq> 0 then do {
                       let st = st\<lparr>fs_calls := fs_calls st @
                         [Flock_lock fp (flags AND O_EXLOCK \<noteq> 0) (flags AND FNONBLOCK = 0)]\<rparr>;
                       if advlock \<noteq> 0 then do {
                         st \<leftarrow> fd_abort (st\<lparr>fs_calls := fs_calls st @ [Vn_close fp]\<rparr>) (Some fp) indx;
                         Some (st, advlock) }
                       else Some (st\<lparr>fs_files := (fs_files st)(fp \<mapsto> f\<lparr>f_flag := f_flag f OR FHASLOCK\<rparr>)\<rparr>, 0) }
                     else Some (st, 0));
     if error \<noteq> 0 then Some (st, error)
     else do {
       fdp \<leftarrow> (if flags AND O_CLOEXEC \<noteq> 0 then fd_set_exclose (fs_fdp st) indx True else Some (fs_fdp st));
       Some (st\<lparr>fs_fdp := fdp\<rparr>, 0) } }"

definition do_open ::
    "proc \<Rightarrow> (nat \<times> file_t) option \<Rightarrow> open_env \<Rightarrow> fd_state \<Rightarrow> u32 \<Rightarrow> (fd_state \<times> (outcome + nat)) option" where
  "do_open p pool env st open_flags = do {
     let flags = FFLAGS (open_flags AND NOT O_SEARCH);
     if flags AND FREADWRITE = 0 then Some (st, Inl (Returned EINVAL))
     else do {
       (st, r) \<leftarrow> fd_allocfile p pool st;
       (case r of
          Inl error \<Rightarrow> Some (st, Inl (Returned error))
        | Inr (fp, indx) \<Rightarrow>
            if oe_error env \<noteq> 0 then do {
              st \<leftarrow> fd_abort st (Some fp) indx;
              (st, r) \<leftarrow> (if (oe_error env = EDUPFD \<or> oe_error env = EMOVEFD) \<and> 0 \<le> oe_dupfd env
                         then fd_dupopen p st (nat (oe_dupfd env)) flags (oe_error env)
                         else Some (st, Inl (Returned (oe_error env))));
              Some (st, if r = Inl (Returned ERESTART) then Inl (Returned EINTR) else r) }
            else do {
              (st, error) \<leftarrow> open_setfp (oe_advlock env) st fp indx flags;
              if error \<noteq> 0 then Some (st, Inl (Returned error))
              else do { st \<leftarrow> fd_affix st fp indx; Some (st, Inr indx) } }) } }"

definition sys_close :: "proc \<Rightarrow> fd_state \<Rightarrow> nat \<Rightarrow> (fd_state \<times> outcome) option" where
  "sys_close p st fd = do {
     (st, r) \<leftarrow> fd_getfile p st fd;
     (case r of
        None \<Rightarrow> Some (st, Returned EBADF)
      | Some _ \<Rightarrow> do {
          (st, out) \<leftarrow> fd_close p st fd;
          Some (st, if out = Returned (- 3) then Returned 4 else out) }) }"

text \<open>\<open>F_CLOSEM\<close>: \<open>n\<close> rounds at most; \<open>Pausing\<close> when a round finds that another thread has
  changed the table.\<close>

fun fcntl_closem :: "nat \<Rightarrow> proc \<Rightarrow> fd_state \<Rightarrow> nat \<Rightarrow> (fd_state \<times> outcome) option" where
  "fcntl_closem 0 p st fd = None"
| "fcntl_closem (Suc n) p st fd =
     (if fd_lastfile (fs_fdp st) < int fd then Some (st, Returned 0)
      else do {
        let i = nat (fd_lastfile (fs_fdp st));
        (st, r) \<leftarrow> fd_getfile p st i;
        (case r of
           None \<Rightarrow> Some (st, Pausing)
         | Some _ \<Rightarrow> do {
             (st, out) \<leftarrow> fd_close p st i;
             (case out of Returned _ \<Rightarrow> fcntl_closem n p st fd | _ \<Rightarrow> Some (st, out)) }) })"

end
