(* ===== verification/Fd_Calls.thy ===== *)
theory Fd_Calls
  imports Fd_Grow Fd_Fork
begin

text \<open>
  The operations on descriptors one by one, for a thread that no other thread disturbs: what each of
  them does to the slots and to the open files.
\<close>

section \<open>Open files and quiet structures\<close>

definition open_file :: "filedesc \<Rightarrow> nat \<rightharpoonup> nat" where
  "open_file fdp fd = Option.bind (ff_get fdp fd) ff_file"

text \<open>Between operations no thread uses a descriptor and every descriptor that is taken is open.\<close>

definition quiet :: "filedesc \<Rightarrow> bool" where
  "quiet fdp \<longleftrightarrow> (\<forall>fd ff. ff_get fdp fd = Some ff \<longrightarrow> ff_refcnt ff = 0 \<and> (ff_allocated ff \<longrightarrow> ff_file ff \<noteq> None))"

text \<open>The descriptors a process has open: the file and whether it is closed on exec.\<close>

definition fds_of :: "filedesc \<Rightarrow> nat \<rightharpoonup> nat \<times> bool" where
  "fds_of fdp fd = Option.bind (ff_get fdp fd) (\<lambda>ff. map_option (\<lambda>fp. (fp, ff_exclose ff)) (ff_file ff))"

text \<open>Each open file exists and counts at least the descriptors that refer to it.\<close>

definition users :: "(nat \<rightharpoonup> nat \<times> bool) \<Rightarrow> nat \<Rightarrow> nat set" where
  "users m fp = {fd. map_option fst (m fd) = Some fp}"

definition tally :: "(nat \<rightharpoonup> nat \<times> bool) \<Rightarrow> (nat \<rightharpoonup> file_t) \<Rightarrow> bool" where
  "tally m files \<longleftrightarrow> finite (dom m) \<and>
     (\<forall>fp. users m fp \<noteq> {} \<longrightarrow> (\<exists>f. files fp = Some f \<and> card (users m fp) \<le> f_count f))"

definition fs_ok :: "fd_state \<Rightarrow> bool" where
  "fs_ok st \<longleftrightarrow> fd_wf (fs_fdp st) \<and> quiet (fs_fdp st) \<and> tally (fds_of (fs_fdp st)) (fs_files st)"

lemma open_file_fds: "open_file fdp fd = map_option fst (fds_of fdp fd)"
  by (cases "ff_get fdp fd") (simp_all add: open_file_def fds_of_def option.map_comp comp_def option.map_ident)

lemma open_file_Some: "open_file fdp fd = Some fp \<longleftrightarrow> (\<exists>ff. ff_get fdp fd = Some ff \<and> ff_file ff = Some fp)"
  by (auto simp: open_file_def bind_eq_Some_conv)

lemma open_used: "fd_wf fdp \<Longrightarrow> open_file fdp fd = Some fp \<Longrightarrow> used_slot fdp fd"
  by (auto simp: open_file_Some used_slot_def dest: slot_open)

lemma quiet_used_iff: "fd_wf fdp \<Longrightarrow> quiet fdp \<Longrightarrow> used_slot fdp fd \<longleftrightarrow> open_file fdp fd \<noteq> None"
  using open_used by (fastforce simp: quiet_def used_slot_def open_file_def)

section \<open>References to a descriptor\<close>

lemma ff_put_put [simp]: "ff_put (ff_put fdp fd a) fd b = ff_put fdp fd b"
  by (simp add: ff_put_def)

lemma ff_put_same: "ff_get fdp fd = Some ff \<Longrightarrow> ff_put fdp fd ff = fdp"
  by (simp add: ff_put_def ff_get_Some_iff list_update_same_conv)

lemma one_ref [simp]: "(1 :: u32) AND FR_MASK = 1" "(1 :: u32) AND FR_CLOSING = 0"
  by (simp_all add: bit_eq_iff bit_mask)

lemma getfile_open:
  assumes "fd_wf (fs_fdp st)" "ff_get (fs_fdp st) fd = Some ff" "ff_file ff = Some fp"
  shows "fd_getfile p st fd =
    Some (st\<lparr>fs_fdp := ff_put (fs_fdp st) fd (ff\<lparr>ff_refcnt := ff_refcnt ff + 1\<rparr>)\<rparr>, Some fp)"
proof -
  have "fd < nfiles (fs_fdp st)" "aget (ffs_of (fs_fdp st)) fd = Some (Some ff)"
    using fd_wf_slot [OF assms(1,2)] assms(2) by (simp_all add: ff_get_Some_iff)
  then show ?thesis using assms(2,3) by (simp add: fd_getfile_def ref_take_def Let_def)
qed

lemma putfile_quiet:
  assumes "fd_wf (fs_fdp st)" "ff_get (fs_fdp st) fd = Some ff" "ff_refcnt ff = 1"
  shows "fd_putfile p st fd = Some (st\<lparr>fs_fdp := ff_put (fs_fdp st) fd (ff\<lparr>ff_refcnt := 0\<rparr>)\<rparr>, Returned 0)"
  using assms fd_wf_slot [OF assms(1,2)] by (simp add: fd_putfile_def ref_drop_def ref_cas_def Let_def)

lemma fd_wf_put_slot:
  assumes "fd_wf fdp" "ff_get fdp fd = Some ff" "ff_allocated ff' = ff_allocated ff"
    "\<not> ff_allocated ff \<Longrightarrow> ff_file ff' = None \<and> \<not> ff_exclose ff'"
  shows "fd_wf (ff_put fdp fd ff')"
  using assms by (intro fd_wf_put) (auto simp: used_slot_def dest: fd_wf_slot)

lemma getfile_closed:
  assumes wf: "fd_wf (fs_fdp st)" and q: "quiet (fs_fdp st)" and fd: "open_file (fs_fdp st) fd = None"
  shows "fd_getfile p st fd = Some (st, None)"
proof (cases "ff_get (fs_fdp st) fd")
  case None
  have "length (ffs_of (fs_fdp st)) = nfiles (fs_fdp st)" using wf by (simp add: fd_wf_def shape_ok_def)
  then show ?thesis using None by (auto simp: fd_getfile_def ff_get_def aget_def)
next
  case (Some ff)
  let ?st = "st\<lparr>fs_fdp := ff_put (fs_fdp st) fd (ff\<lparr>ff_refcnt := 1\<rparr>)\<rparr>"
  have ff: "ff_file ff = None" "ff_refcnt ff = 0" "fd < nfiles (fs_fdp st)" "ffs_of (fs_fdp st) ! fd = Some ff"
    "fd < length (ffs_of (fs_fdp st))"
    using q fd Some fd_wf_slot [OF wf Some] unfolding quiet_def open_file_def by (simp_all add: ff_get_Some_iff)
  have "fd_wf (fs_fdp ?st)" "ff_get (fs_fdp ?st) fd = Some (ff\<lparr>ff_refcnt := 1\<rparr>)"
    using fd_wf_put_slot [OF wf Some, of "ff\<lparr>ff_refcnt := 1\<rparr>"] slot_free [OF wf Some] ff(5) by (simp_all add: ff_get_put)
  then have "fd_putfile p ?st fd =
      Some (?st\<lparr>fs_fdp := ff_put (fs_fdp ?st) fd (ff\<lparr>ff_refcnt := 1, ff_refcnt := 0\<rparr>)\<rparr>, Returned 0)"
    by (rule putfile_quiet) simp
  moreover have "ff\<lparr>ff_refcnt := 0\<rparr> = ff" using ff(2) by (cases ff) simp
  ultimately have "fd_putfile p ?st fd = Some (st, Returned 0)" using ff_put_same [OF Some] by simp
  then show ?thesis using ff Some by (simp add: fd_getfile_def ref_take_def Let_def)
qed

section \<open>Opening and closing a slot\<close>

lemma used_bit: "fd_wf fdp \<Longrightarrow> used_slot fdp fd \<Longrightarrow> fd_isused fdp fd = Some True"
proof -
  assume wf: "fd_wf fdp" and u: "used_slot fdp fd"
  have "fd < nfiles fdp" "bm_bit (fd_lomap fdp) fd"
    using used_slot_nfiles [OF wf u] wf u by (simp_all add: fd_wf_def maps_ok_def)
  then show ?thesis by (simp add: fd_isused_def bm_bit_def and_bit_of_eq_0)
qed

lemma affix_spec:
  assumes wf: "fd_wf (fs_fdp st)" and ff: "ff_get (fs_fdp st) fd = Some ff" "ff_allocated ff" "ff_file ff = None"
    and f: "fs_files st fp = Some f"
  shows "fd_affix st fp fd =
    Some (st\<lparr>fs_fdp := ff_put (fs_fdp st) fd (ff\<lparr>ff_file := Some fp\<rparr>),
             fs_files := (fs_files st)(fp \<mapsto> f\<lparr>f_count := f_count f + 1\<rparr>)\<rparr>)"
    "fd_wf (ff_put (fs_fdp st) fd (ff\<lparr>ff_file := Some fp\<rparr>))"
  using used_bit [OF wf, of fd] ff f fd_wf_put_slot [OF wf ff(1), of "ff\<lparr>ff_file := Some fp\<rparr>"]
  by (simp_all add: fd_affix_def f_hold_def used_slot_def)

text \<open>The files and the calls after a reference to a file is dropped.\<close>

definition released :: "proc \<Rightarrow> nat \<Rightarrow> (nat \<rightharpoonup> file_t) \<Rightarrow> (nat \<rightharpoonup> file_t) \<times> ext_call list \<times> int" where
  "released p fp files =
     (case files fp of
        None \<Rightarrow> (files, [], 0)
      | Some f \<Rightarrow>
          if 1 < f_count f then (files(fp \<mapsto> f\<lparr>f_count := f_count f - 1\<rparr>), [], 0)
          else (files(fp := None),
                (if f_flag f AND FHASLOCK \<noteq> 0 \<and> f_type f = DTYPE_VNODE then [Flock_unlock fp] else []) @
                (if f_ops f then [Fo_close fp] else []),
                if f_ops f then fo_close p fp else 0))"

lemma closef_released:
  assumes "fs_files st fp = Some f" "0 < f_count f"
  shows "closef p fp st = (case released p fp (fs_files st) of (files, calls, error) \<Rightarrow>
    Some (st\<lparr>fs_files := files, fs_calls := fs_calls st @ calls\<rparr>, error))"
  using assms by (auto simp: closef_def released_def Let_def)

text \<open>The last reference to a descriptor is given up in \<open>fd_close\<close>.\<close>

lemma fd_close_last:
  assumes ff: "ff_get (fs_fdp st) fd = Some ff" "ff_file ff = Some fp" "ff_refcnt ff = 1"
    and f: "fs_files st fp = Some f" "0 < f_count f" and r: "released p fp (fs_files st) = (files, calls, error)"
    and unused: "fd_unused (ff_put (fs_fdp st) fd (ff\<lparr>ff_file := None, ff_exclose := False, ff_refcnt := 0\<rparr>)) fd = Some fdp'"
  shows "fd_close p st fd = Some (st\<lparr>fs_fdp := fdp', fs_files := files, fs_calls := fs_calls st @
       (if pk_advlock p \<and> f_type f = DTYPE_VNODE then [Posix_unlock fp] else []) @ calls\<rparr>, Returned error)"
proof -
  let ?fdp = "fs_fdp st" and ?ff = "ff\<lparr>ff_file := None, ff_exclose := False, ff_refcnt := 0\<rparr>"
  have n: "fd < length (ffs_of ?fdp)" using ff_get_bound [OF ff(1)] .
  have "close_take ?fdp fd = Some (ff_put ?fdp fd (ff\<lparr>ff_file := None, ff_exclose := False\<rparr>), Some fp)"
    using ff by (simp add: close_take_def)
  moreover have "ref_drop (ff_put ?fdp fd (ff\<lparr>ff_file := None, ff_exclose := False\<rparr>)) fd = Some (ff_put ?fdp fd ?ff, 0)"
    using ff n by (simp add: ref_drop_def ff_get_put)
  ultimately have "fd_close p st fd = close_finish p (st\<lparr>fs_fdp := ff_put ?fdp fd ?ff\<rparr>) fd fp"
    by (simp add: fd_close_def)
  then show ?thesis using f unused r by (simp add: close_finish_def closef_released Let_def)
qed

lemma fd_close_quiet:
  assumes wf: "fd_wf (fs_fdp st)" and ff: "ff_get (fs_fdp st) fd = Some ff" "ff_file ff = Some fp" "ff_refcnt ff = 1"
    and f: "fs_files st fp = Some f" "0 < f_count f"
  obtains fdp' files calls error where
    "fd_close p st fd = Some (st\<lparr>fs_fdp := fdp', fs_files := files, fs_calls := fs_calls st @
       (if pk_advlock p \<and> f_type f = DTYPE_VNODE then [Posix_unlock fp] else []) @ calls\<rparr>, Returned error)"
    "released p fp (fs_files st) = (files, calls, error)" "fd_wf fdp'" "same_frame (fs_fdp st) fdp'"
    "ff_get fdp' = (ff_get (fs_fdp st))(fd \<mapsto> ff\<lparr>ff_file := None, ff_exclose := False, ff_refcnt := 0, ff_allocated := False\<rparr>)"
proof -
  let ?fdp = "fs_fdp st"
  let ?ff = "ff\<lparr>ff_file := None, ff_exclose := False, ff_refcnt := 0\<rparr>"
  have alloc: "ff_allocated ff" using slot_open [OF wf ff(1,2)] .
  have n: "fd < length (ffs_of ?fdp)" using ff_get_bound [OF ff(1)] .
  have mid: "fd_wf (ff_put ?fdp fd ?ff)" using fd_wf_put_slot [OF wf ff(1)] alloc by simp
  obtain fdp' where fdp': "fd_unused (ff_put ?fdp fd ?ff) fd = Some fdp'" "fd_wf fdp'" "same_frame (ff_put ?fdp fd ?ff) fdp'"
    "ff_get fdp' = (ff_get (ff_put ?fdp fd ?ff))(fd \<mapsto> ?ff\<lparr>ff_allocated := False\<rparr>)"
    using fd_unused_spec [OF mid, of fd ?ff] n alloc by (auto simp: ff_get_put)
  obtain files calls error where r: "released p fp (fs_files st) = (files, calls, error)" by (metis prod_cases3)
  note close = fd_close_last [OF ff f r fdp'(1)]
  have "same_frame ?fdp fdp'"
    "ff_get fdp' = (ff_get ?fdp)(fd \<mapsto> ff\<lparr>ff_file := None, ff_exclose := False, ff_refcnt := 0, ff_allocated := False\<rparr>)"
    using fdp'(3,4) n by (auto simp: same_frame_def fun_eq_iff ff_get_put)
  then show ?thesis using that [OF close r fdp'(2)] by blast
qed

section \<open>Counting references\<close>

lemma finite_users: "finite (dom m) \<Longrightarrow> finite (users m fp)"
  by (rule finite_subset [of _ "dom m"]) (auto simp: users_def dom_def)

lemma users_add: "m fd = None \<Longrightarrow> users (m(fd \<mapsto> (fp, b))) fp' = (if fp' = fp then insert fd (users m fp) else users m fp')"
  by (auto simp: users_def)

lemma users_remove: "users (m(fd := None)) fp = users m fp - {fd}"
  by (auto simp: users_def)

lemma users_flag: "m fd = Some (fp, b) \<Longrightarrow> users (m(fd \<mapsto> (fp, b'))) = users m"
  by (auto simp: users_def fun_eq_iff)

lemma tally_file:
  assumes "tally m files" "m fd = Some (fp, b)"
  obtains f where "files fp = Some f" "0 < f_count f"
proof -
  have fd: "fd \<in> users m fp" using assms(2) by (simp add: users_def)
  then obtain f where f: "files fp = Some f" "card (users m fp) \<le> f_count f"
    using assms(1) by (auto simp: tally_def)
  have "finite (users m fp)" using assms(1) finite_users by (simp add: tally_def)
  then have "card (users m fp) \<noteq> 0" using fd by auto
  then show ?thesis using that f by simp
qed

lemma tally_add:
  assumes "tally m files" "m fd = None" "files fp = Some f" "card (users m fp) \<le> f_count f" "f_count f' = f_count f + 1"
  shows "tally (m(fd \<mapsto> (fp, b))) (files(fp \<mapsto> f'))"
proof -
  have "finite (users m fp)" using assms(1) finite_users by (simp add: tally_def)
  then have "card (insert fd (users m fp)) \<le> f_count f'" using assms(4,5) by (simp add: card_insert_if)
  then show ?thesis using assms(1,2) by (auto simp: tally_def users_add)
qed

lemma tally_remove:
  assumes t: "tally m files" and m: "m fd = Some (fp, b)" and r: "released p fp files = (files', calls, error)"
  shows "tally (m(fd := None)) files'"
proof -
  obtain f where f: "files fp = Some f" using tally_file [OF t m] by blast
  have fd: "fd \<in> users m fp" using m by (simp add: users_def)
  have fin: "finite (dom m)" "finite (users m fp)" using t finite_users by (simp_all add: tally_def)
  have le: "card (users m fp) \<le> f_count f" using t f fd by (force simp: tally_def)
  have card: "card (users m fp - {fd}) = card (users m fp) - 1" using fd fin by simp
  have other: "users m fp' - {fd} = users m fp'" if "fp' \<noteq> fp" for fp' using m that by (auto simp: users_def)
  show ?thesis
  proof (cases "1 < f_count f")
    case True
    then have "files' = files(fp \<mapsto> f\<lparr>f_count := f_count f - 1\<rparr>)" using r f by (simp add: released_def)
    then show ?thesis using t fin le card other by (auto simp: tally_def users_remove)
  next
    case False
    then have "files' = files(fp := None)" using r f by (auto simp: released_def)
    moreover have "card (users m fp - {fd}) = 0" using card le False by simp
    then have none: "users m fp - {fd} = {}" using fin by simp
    have "\<exists>f. files' fp' = Some f \<and> card (users m fp' - {fd}) \<le> f_count f" if "users m fp' - {fd} \<noteq> {}" for fp'
      using t none that other [of fp'] calculation by (cases "fp' = fp") (auto simp: tally_def)
    then show ?thesis using fin by (auto simp: tally_def users_remove)
  qed
qed

end
