(* ===== verification/Fd_Refine.thy ===== *)
theory Fd_Refine
  imports Fd_Calls
begin

text \<open>
  The system calls on descriptors refine their POSIX description, in which a process has a finite map
  from descriptors to open files and a new descriptor is the lowest one that is free.
\<close>

section \<open>The abstract description\<close>

type_synonym posix = "(nat \<rightharpoonup> nat \<times> bool) \<times> (nat \<rightharpoonup> file_t) \<times> ext_call list"

definition posix_of :: "fd_state \<Rightarrow> posix" where
  "posix_of st = (fds_of (fs_fdp st), fs_files st, fs_calls st)"

text \<open>A further reference to a file, and the lowest free descriptor.\<close>

definition referred :: "nat \<Rightarrow> u32 \<Rightarrow> (nat \<rightharpoonup> file_t) \<Rightarrow> (nat \<rightharpoonup> file_t)" where
  "referred fp flags files = files(fp := map_option (\<lambda>f. f\<lparr>f_count := f_count f + 1, f_flag := f_flag f OR flags\<rparr>) (files fp))"

definition least_fd :: "(nat \<rightharpoonup> nat \<times> bool) \<Rightarrow> nat \<Rightarrow> nat \<Rightarrow> nat option" where
  "least_fd m minfd lim = find (\<lambda>fd. m fd = None) [minfd..<lim]"

fun posix_dup :: "nat \<Rightarrow> posix \<Rightarrow> nat \<Rightarrow> nat \<Rightarrow> bool \<Rightarrow> posix \<times> (int + nat)" where
  "posix_dup lim (m, files, calls) fd minfd cloexec =
     (case m fd of
        None \<Rightarrow> ((m, files, calls), Inl EBADF)
      | Some (fp, _) \<Rightarrow>
          (case least_fd m minfd lim of
             None \<Rightarrow> ((m, files, calls), Inl EMFILE)
           | Some new \<Rightarrow> ((m(new \<mapsto> (fp, cloexec)), referred fp 0 files, calls), Inr new)))"

text \<open>Closing drops the POSIX locks of the process on the file, and the reference.\<close>

fun posix_drop :: "proc \<Rightarrow> posix \<Rightarrow> nat \<Rightarrow> posix \<times> int" where
  "posix_drop p (m, files, calls) fd =
     (case m fd of
        None \<Rightarrow> ((m, files, calls), EBADF)
      | Some (fp, _) \<Rightarrow>
          let unlock = (case files fp of
                  None \<Rightarrow> []
                | Some f \<Rightarrow> if pk_advlock p \<and> f_type f = DTYPE_VNODE then [Posix_unlock fp] else []);
              (files, close, error) = released p fp files
          in ((m(fd := None), files, calls @ unlock @ close), error))"

text \<open>\<open>dup2\<close> and \<open>dup3\<close> as \<^verbatim>\<open>dup.2\<close> describes them: the flags \<open>dup3\<close> supports are \<open>O_CLOEXEC\<close>, \<open>O_NONBLOCK\<close> and
  \<open>O_NOSIGPIPE\<close>, and the last two are set in the file.\<close>

fun posix_dup2 :: "proc \<Rightarrow> posix \<Rightarrow> nat \<Rightarrow> nat \<Rightarrow> u32 \<Rightarrow> posix \<times> (int + nat)" where
  "posix_dup2 p (m, files, calls) fd to flags =
     (case m fd of
        None \<Rightarrow> ((m, files, calls), Inl EBADF)
      | Some (fp, _) \<Rightarrow>
          if unat (rlim_cur p) \<le> to \<or> unat (maxfiles p) \<le> to then ((m, files, calls), Inl EBADF)
          else if fd = to then ((m, files, calls), Inr to)
          else if flags AND NOT (O_CLOEXEC OR FNONBLOCK OR FNOSIGPIPE) \<noteq> 0 then ((m, files, calls), Inl EINVAL)
          else
            let ((m, files, calls), _) = posix_drop p (m, files, calls) to
            in ((m(to \<mapsto> (fp, flags AND O_CLOEXEC \<noteq> 0)), referred fp (flags AND (FNONBLOCK OR FNOSIGPIPE)) files, calls), Inr to))"

section \<open>Looking up\<close>

lemma fds_open:
  assumes "fds_of fdp fd = Some (fp, b)"
  obtains ff where "ff_get fdp fd = Some ff" "ff_file ff = Some fp" "ff_exclose ff = b"
  using assms by (auto simp: fds_of_def bind_eq_Some_conv)

lemma fds_closed: "fds_of fdp fd = None \<longleftrightarrow> open_file fdp fd = None"
  by (simp add: open_file_fds)

lemma used_fds: "fd_wf fdp \<Longrightarrow> quiet fdp \<Longrightarrow> used_slot fdp fd \<longleftrightarrow> fds_of fdp fd \<noteq> None"
  by (simp add: quiet_used_iff open_file_fds)

lemma fds_put:
  "fd < length (ffs_of fdp) \<Longrightarrow>
   fds_of (ff_put fdp fd ff) = (fds_of fdp)(fd := map_option (\<lambda>fp. (fp, ff_exclose ff)) (ff_file ff))"
  by (auto simp: fun_eq_iff fds_of_def ff_get_put)

lemma fds_upd:
  "ff_get fdp' = (ff_get fdp)(fd \<mapsto> ff) \<Longrightarrow>
   fds_of fdp' = (fds_of fdp)(fd := map_option (\<lambda>fp. (fp, ff_exclose ff)) (ff_file ff))"
  by (auto simp: fun_eq_iff fds_of_def)

lemma fs_okD:
  assumes "fs_ok st"
  shows "fd_wf (fs_fdp st)" "quiet (fs_fdp st)" "tally (fds_of (fs_fdp st)) (fs_files st)"
  using assms by (simp_all add: fs_ok_def)

text \<open>A thread holds one reference to an open descriptor and everything else is quiet.\<close>

definition holding :: "fd_state \<Rightarrow> nat \<Rightarrow> fdfile \<Rightarrow> fd_state" where
  "holding st fd ff = st\<lparr>fs_fdp := ff_put (fs_fdp st) fd (ff\<lparr>ff_refcnt := 1\<rparr>)\<rparr>"

lemma getfile_holding:
  assumes ok: "fs_ok st" and ff: "ff_get (fs_fdp st) fd = Some ff" "ff_file ff = Some fp"
  shows "fd_getfile p st fd = Some (holding st fd ff, Some fp)" "fd_wf (fs_fdp (holding st fd ff))"
    "ff_get (fs_fdp (holding st fd ff)) = (ff_get (fs_fdp st))(fd \<mapsto> ff\<lparr>ff_refcnt := 1\<rparr>)"
proof -
  have "ff_refcnt ff = 0" using ok ff(1) by (simp add: fs_ok_def quiet_def)
  then show "fd_getfile p st fd = Some (holding st fd ff, Some fp)"
    using getfile_open [OF fs_okD(1) [OF ok] ff] by (simp add: holding_def)
  show "fd_wf (fs_fdp (holding st fd ff))"
    using fd_wf_put_slot [OF fs_okD(1) [OF ok] ff(1), of "ff\<lparr>ff_refcnt := 1\<rparr>"] slot_open [OF fs_okD(1) [OF ok] ff]
    by (simp add: holding_def)
  show "ff_get (fs_fdp (holding st fd ff)) = (ff_get (fs_fdp st))(fd \<mapsto> ff\<lparr>ff_refcnt := 1\<rparr>)"
    using ff_get_bound [OF ff(1)] by (auto simp: holding_def fun_eq_iff ff_get_put)
qed

lemma holding_fields [simp]:
  "fs_files (holding st fd ff) = fs_files st" "fs_calls (holding st fd ff) = fs_calls st"
  by (simp_all add: holding_def)

lemma closed_quiet_upd:
  assumes "quiet fdp" "ff_get fdp' = (ff_get fdp)(fd \<mapsto> ff)" "ff_refcnt ff = 0" "ff_allocated ff \<longrightarrow> ff_file ff \<noteq> None"
  shows "quiet fdp'"
  using assms by (auto simp: quiet_def)

section \<open>Closing\<close>

lemma close_refines:
  assumes ok: "fs_ok st" and ff: "ff_get (fs_fdp st) fd = Some ff" "ff_file ff = Some fp"
  obtains st' error where "fd_close p (holding st fd ff) fd = Some (st', Returned error)" "fs_ok st'"
    "posix_drop p (posix_of st) fd = (posix_of st', error)" "same_frame (fs_fdp st) (fs_fdp st')"
proof -
  let ?h = "holding st fd ff"
  have m: "fds_of (fs_fdp st) fd = Some (fp, ff_exclose ff)" using ff by (simp add: fds_of_def)
  obtain f where f: "fs_files st fp = Some f" "0 < f_count f" using tally_file [OF fs_okD(3) [OF ok] m] .
  have h: "ff_get (fs_fdp ?h) fd = Some (ff\<lparr>ff_refcnt := 1\<rparr>)" using getfile_holding(3) [OF ok ff] by simp
  have hff: "ff_file (ff\<lparr>ff_refcnt := 1\<rparr>) = Some fp" "ff_refcnt (ff\<lparr>ff_refcnt := 1\<rparr>) = 1" "fs_files ?h fp = Some f"
    using ff(2) f(1) by simp_all
  obtain fdp' files calls error where c:
    "fd_close p ?h fd = Some (?h\<lparr>fs_fdp := fdp', fs_files := files, fs_calls := fs_calls ?h @
       (if pk_advlock p \<and> f_type f = DTYPE_VNODE then [Posix_unlock fp] else []) @ calls\<rparr>, Returned error)"
    "released p fp (fs_files ?h) = (files, calls, error)" "fd_wf fdp'" "same_frame (fs_fdp ?h) fdp'"
    "ff_get fdp' = (ff_get (fs_fdp ?h))(fd \<mapsto> ff\<lparr>ff_refcnt := 1, ff_file := None, ff_exclose := False, ff_refcnt := 0, ff_allocated := False\<rparr>)"
    using fd_close_quiet [OF getfile_holding(2) [OF ok ff] h hff f(2)] by metis
  let ?st = "?h\<lparr>fs_fdp := fdp', fs_files := files, fs_calls := fs_calls ?h @
       (if pk_advlock p \<and> f_type f = DTYPE_VNODE then [Posix_unlock fp] else []) @ calls\<rparr>"
  have get: "ff_get fdp' = (ff_get (fs_fdp st))(fd \<mapsto> ff\<lparr>ff_refcnt := 1, ff_file := None, ff_exclose := False, ff_refcnt := 0, ff_allocated := False\<rparr>)"
    using c(5) getfile_holding(3) [OF ok ff] by simp
  have fds: "fds_of fdp' = (fds_of (fs_fdp st))(fd := None)" using fds_upd [OF get] by simp
  have "quiet fdp'" using closed_quiet_upd [OF fs_okD(2) [OF ok] get] by simp
  moreover have r: "released p fp (fs_files st) = (files, calls, error)" using c(2) by simp
  then have "tally (fds_of fdp') files" using tally_remove [OF fs_okD(3) [OF ok] m] fds by simp
  ultimately have "fs_ok ?st" using c(3) by (simp add: fs_ok_def)
  moreover have "posix_drop p (posix_of st) fd = (posix_of ?st, error)"
    using m f r fds by (simp add: posix_of_def)
  moreover have "same_frame (fs_fdp st) (fs_fdp ?st)" using c(4) by (simp add: same_frame_def holding_def)
  ultimately show ?thesis using that c(1) by blast
qed

lemma sys_close_refines:
  assumes ok: "fs_ok st"
  shows "\<exists>st' error. sys_close p st fd = Some (st', Returned (if error = - 3 then 4 else error)) \<and> fs_ok st' \<and>
    posix_drop p (posix_of st) fd = (posix_of st', error)"
proof (cases "fds_of (fs_fdp st) fd")
  case None
  then have "fd_getfile p st fd = Some (st, None)"
    using getfile_closed [OF fs_okD(1,2) [OF ok]] by (simp add: fds_closed)
  then show ?thesis
    using None ok by (intro exI [of _ st] exI [of _ 9]) (simp add: sys_close_def posix_of_def)
next
  case (Some x)
  then obtain fp b where "fds_of (fs_fdp st) fd = Some (fp, b)" by (cases x) simp
  then obtain ff where ff: "ff_get (fs_fdp st) fd = Some ff" "ff_file ff = Some fp" by (rule fds_open)
  obtain st' error where c: "fd_close p (holding st fd ff) fd = Some (st', Returned error)" "fs_ok st'"
    "posix_drop p (posix_of st) fd = (posix_of st', error)" using close_refines [OF ok ff] .
  then show ?thesis using getfile_holding(1) [OF ok ff] by (auto simp: sys_close_def)
qed

section \<open>Duplicating\<close>

lemma least_fd_lowest:
  assumes used: "\<And>fd. used_slot fdp fd \<longleftrightarrow> m fd \<noteq> None" and low: "lowest_free fdp lim (int minfd) r"
  shows "least_fd m minfd lim = r"
proof (cases r)
  case None
  then show ?thesis using low used by (auto simp: lowest_free_def least_fd_def find_None_iff)
next
  case (Some i)
  then have i: "i < lim" "minfd \<le> i" "m i = None" "\<And>fd. minfd \<le> fd \<Longrightarrow> fd < i \<Longrightarrow> m fd \<noteq> None"
    using low [unfolded Some lowest_free_def option.case used] by (auto simp del: not_None_eq)
  then have "least_fd m minfd lim = Some i"
    unfolding least_fd_def find_Some_iff by (intro exI [of _ "i - minfd"]) auto
  then show ?thesis using Some by simp
qed

lemma putfile_done:
  assumes wf: "fd_wf (fs_fdp s)" and ff: "ff_get (fs_fdp s) fd = Some (ff\<lparr>ff_refcnt := 1\<rparr>)" "ff_refcnt ff = 0"
  obtains fdp' where "fd_putfile p s fd = Some (s\<lparr>fs_fdp := fdp'\<rparr>, Returned 0)" "fd_wf fdp'"
    "ff_get fdp' = (ff_get (fs_fdp s))(fd \<mapsto> ff)" "same_frame (fs_fdp s) fdp'"
    "ff_put fdp' fd (ff\<lparr>ff_refcnt := 1\<rparr>) = fs_fdp s"
proof -
  have eq: "ff\<lparr>ff_refcnt := 1, ff_refcnt := 0\<rparr> = ff" using ff(2) by (cases ff) simp
  have "fd_putfile p s fd = Some (s\<lparr>fs_fdp := ff_put (fs_fdp s) fd ff\<rparr>, Returned 0)"
    using putfile_quiet [OF wf ff(1), unfolded eq] by simp
  moreover have "fd_wf (ff_put (fs_fdp s) fd ff)"
    using fd_wf_put_slot [OF wf ff(1), of ff] slot_free [OF wf ff(1)] by simp
  ultimately show ?thesis
    using that [of "ff_put (fs_fdp s) fd ff"] ff_get_bound [OF ff(1)] ff_put_put
      ff_put_same [OF ff(1)] by (auto simp: fun_eq_iff ff_get_put same_frame_def)
qed

text \<open>A file that the thread keeps from being freed is given to a slot that was allocated.\<close>

lemma affix_new:
  assumes wf: "fd_wf fdp" and new: "ff_get fdp new = Some ff" "ff_allocated ff" "ff_file ff = None" and f: "fs_files st fp = Some f"
  obtains st' where "fd_affix (st\<lparr>fs_fdp := ff_put fdp new (ff\<lparr>ff_exclose := c\<rparr>)\<rparr>) fp new = Some st'"
    "fd_wf (fs_fdp st')" "ff_get (fs_fdp st') = (ff_get fdp)(new \<mapsto> ff\<lparr>ff_exclose := c, ff_file := Some fp\<rparr>)"
    "fs_files st' = (fs_files st)(fp \<mapsto> f\<lparr>f_count := f_count f + 1\<rparr>)" "fs_calls st' = fs_calls st"
    "same_frame fdp (fs_fdp st')"
proof -
  let ?s = "st\<lparr>fs_fdp := ff_put fdp new (ff\<lparr>ff_exclose := c\<rparr>)\<rparr>"
  have n: "new < length (ffs_of fdp)" using ff_get_bound [OF new(1)] .
  have "fd_wf (fs_fdp ?s)" using fd_wf_put_slot [OF wf new(1), of "ff\<lparr>ff_exclose := c\<rparr>"] new(2) by simp
  moreover have "ff_get (fs_fdp ?s) new = Some (ff\<lparr>ff_exclose := c\<rparr>)" using n by (simp add: ff_get_put)
  ultimately have a: "fd_affix ?s fp new =
      Some (?s\<lparr>fs_fdp := ff_put (fs_fdp ?s) new (ff\<lparr>ff_exclose := c, ff_file := Some fp\<rparr>),
               fs_files := (fs_files ?s)(fp \<mapsto> f\<lparr>f_count := f_count f + 1\<rparr>)\<rparr>)"
    "fd_wf (ff_put (fs_fdp ?s) new (ff\<lparr>ff_exclose := c, ff_file := Some fp\<rparr>))"
    using affix_spec [of ?s new "ff\<lparr>ff_exclose := c\<rparr>" fp f] new f by simp_all
  show ?thesis using that [OF a(1)] a(2) n by (auto simp: fun_eq_iff ff_get_put same_frame_def)
qed

lemma fd_dup_spec:
  assumes wf: "fd_wf (fs_fdp st)" and f: "fs_files st fp = Some f" and lim: "fd_lim p \<le> 2 ^ 30"
  obtains r where "lowest_free (fs_fdp st) (fd_lim p) minfd r"
    "case r of
       None \<Rightarrow> \<exists>st'. fd_dup p st fp minfd c = Some (st', Inl EMFILE) \<and> fd_wf (fs_fdp st') \<and>
         ff_get (fs_fdp st') = ff_get (fs_fdp st) \<and> fs_files st' = fs_files st \<and> fs_calls st' = fs_calls st \<and>
         same_process (fs_fdp st) (fs_fdp st')
     | Some new \<Rightarrow> \<exists>st'. fd_dup p st fp minfd c = Some (st', Inr new) \<and> fd_wf (fs_fdp st') \<and>
         ff_get (fs_fdp st') = (ff_get (fs_fdp st))(new \<mapsto>
           (slot_or_new (fs_fdp st) new)\<lparr>ff_allocated := True, ff_exclose := c, ff_file := Some fp\<rparr>) \<and>
         fs_files st' = (fs_files st)(fp \<mapsto> f\<lparr>f_count := f_count f + 1\<rparr>) \<and> fs_calls st' = fs_calls st \<and>
         same_process (fs_fdp st) (fs_fdp st')"
proof -
  obtain r where r: "lowest_free (fs_fdp st) (fd_lim p) minfd r" "allocated p (fs_fdp st) minfd r"
    using alloc_loop_spec [OF wf lim] by blast
  show ?thesis
  proof (cases r)
    case None
    then show ?thesis using that r by (auto simp: allocated_def fd_dup_def)
  next
    case (Some new)
    let ?ff = "(slot_or_new (fs_fdp st) new)\<lparr>ff_allocated := True\<rparr>"
    obtain fdp' where a: "alloc_loop p (fs_fdp st) minfd = Some (fdp', Inr new)" "fd_wf fdp'"
      "ff_get fdp' = (ff_get (fs_fdp st))(new \<mapsto> ?ff)" "same_process (fs_fdp st) fdp'"
      using r(2) Some by (auto simp: allocated_def)
    have "\<not> used_slot (fs_fdp st) new" using r(1) Some by (simp add: lowest_free_def)
    then have nofile: "ff_file ?ff = None"
      using slot_free [OF wf] by (auto simp: used_slot_def slot_or_new_def fdfile_ctor_def split: option.split)
    obtain st' where "fd_affix (st\<lparr>fs_fdp := ff_put fdp' new (?ff\<lparr>ff_exclose := c\<rparr>)\<rparr>) fp new = Some st'"
      "fd_wf (fs_fdp st')" "ff_get (fs_fdp st') = (ff_get fdp')(new \<mapsto> ?ff\<lparr>ff_exclose := c, ff_file := Some fp\<rparr>)"
      "fs_files st' = (fs_files st)(fp \<mapsto> f\<lparr>f_count := f_count f + 1\<rparr>)" "fs_calls st' = fs_calls st"
      "same_frame fdp' (fs_fdp st')"
      using affix_new [of fdp' new ?ff st fp f c] a(2,3) nofile f by auto
    then show ?thesis using that [OF r(1)] Some a by (simp add: fd_dup_def same_process_def same_frame_def)
  qed
qed

lemma dup_refines:
  assumes ok: "fs_ok st" and lim: "fd_lim p \<le> 2 ^ 30" and ff: "ff_get (fs_fdp st) fd = Some ff" "ff_file ff = Some fp"
  obtains st1 st' res where "fd_dup p (holding st fd ff) fp (int minfd) c = Some (st1, res)"
    "fd_putfile p st1 fd = Some (st', Returned 0)" "fs_ok st'"
    "posix_dup (fd_lim p) (posix_of st) fd minfd c = (posix_of st', res)" "same_process (fs_fdp st) (fs_fdp st')"
    "holding st' fd ff = st1" "ff_get (fs_fdp st') fd = Some ff"
proof -
  let ?h = "holding st fd ff"
  note wf = fs_okD(1) [OF ok] and q = fs_okD(2) [OF ok]
  have m: "fds_of (fs_fdp st) fd = Some (fp, ff_exclose ff)" using ff by (simp add: fds_of_def)
  obtain f where f: "fs_files st fp = Some f" using tally_file [OF fs_okD(3) [OF ok] m] .
  have h: "fd_wf (fs_fdp ?h)" "ff_get (fs_fdp ?h) = (ff_get (fs_fdp st))(fd \<mapsto> ff\<lparr>ff_refcnt := 1\<rparr>)"
    using getfile_holding [OF ok ff] by simp_all
  have ff0: "ff_refcnt ff = 0" using q ff(1) by (simp add: quiet_def)
  have "used_slot (fs_fdp ?h) k \<longleftrightarrow> used_slot (fs_fdp st) k" for k using ff(1) by (auto simp: used_slot_def h(2))
  then have used: "used_slot (fs_fdp ?h) k \<longleftrightarrow> fds_of (fs_fdp st) k \<noteq> None" for k using used_fds [OF wf q] by simp
  obtain r where r: "lowest_free (fs_fdp ?h) (fd_lim p) (int minfd) r"
    and d: "case r of
       None \<Rightarrow> \<exists>st'. fd_dup p ?h fp (int minfd) c = Some (st', Inl EMFILE) \<and> fd_wf (fs_fdp st') \<and>
         ff_get (fs_fdp st') = ff_get (fs_fdp ?h) \<and> fs_files st' = fs_files ?h \<and> fs_calls st' = fs_calls ?h \<and>
         same_process (fs_fdp ?h) (fs_fdp st')
     | Some new \<Rightarrow> \<exists>st'. fd_dup p ?h fp (int minfd) c = Some (st', Inr new) \<and> fd_wf (fs_fdp st') \<and>
         ff_get (fs_fdp st') = (ff_get (fs_fdp ?h))(new \<mapsto>
           (slot_or_new (fs_fdp ?h) new)\<lparr>ff_allocated := True, ff_exclose := c, ff_file := Some fp\<rparr>) \<and>
         fs_files st' = (fs_files ?h)(fp \<mapsto> f\<lparr>f_count := f_count f + 1\<rparr>) \<and> fs_calls st' = fs_calls ?h \<and>
         same_process (fs_fdp ?h) (fs_fdp st')"
    using fd_dup_spec [OF h(1), of fp f p "int minfd" c] f lim by auto
  have same: "same_process (fs_fdp ?h) a \<Longrightarrow> same_frame a b \<Longrightarrow> same_process (fs_fdp st) b" for a b
    by (simp add: same_process_def same_frame_def holding_def)
  have least: "least_fd (fds_of (fs_fdp st)) minfd (fd_lim p) = r" using least_fd_lowest [OF used r] .
  show ?thesis
  proof (cases r)
    case None
    then obtain st1 where st1: "fd_dup p ?h fp (int minfd) c = Some (st1, Inl EMFILE)" "fd_wf (fs_fdp st1)"
      "ff_get (fs_fdp st1) = ff_get (fs_fdp ?h)" "fs_files st1 = fs_files st" "fs_calls st1 = fs_calls st"
      "same_process (fs_fdp ?h) (fs_fdp st1)" using d by auto
    obtain fdp' where p: "fd_putfile p st1 fd = Some (st1\<lparr>fs_fdp := fdp'\<rparr>, Returned 0)" "fd_wf fdp'"
      "ff_get fdp' = (ff_get (fs_fdp st1))(fd \<mapsto> ff)" "same_frame (fs_fdp st1) fdp'" "ff_put fdp' fd (ff\<lparr>ff_refcnt := 1\<rparr>) = fs_fdp st1"
      using putfile_done [OF st1(2), of fd ff p] st1(3) h(2) ff0 by auto
    then have get: "ff_get fdp' = ff_get (fs_fdp st)" using st1(3) h(2) ff(1) by auto
    then have "fs_ok (st1\<lparr>fs_fdp := fdp'\<rparr>)" "posix_of (st1\<lparr>fs_fdp := fdp'\<rparr>) = posix_of st"
      using ok p(2) st1(4,5) by (simp_all add: fs_ok_def quiet_def fds_of_def [abs_def] posix_of_def)
    then show ?thesis using that [OF st1(1) p(1)] m least None same st1(6) p(3,4,5) by (simp add: posix_of_def holding_def)
  next
    case (Some new)
    let ?nf = "(slot_or_new (fs_fdp ?h) new)\<lparr>ff_allocated := True, ff_exclose := c, ff_file := Some fp\<rparr>"
    obtain st1 where st1: "fd_dup p ?h fp (int minfd) c = Some (st1, Inr new)" "fd_wf (fs_fdp st1)"
      "ff_get (fs_fdp st1) = (ff_get (fs_fdp ?h))(new \<mapsto> ?nf)"
      "fs_files st1 = (fs_files st)(fp \<mapsto> f\<lparr>f_count := f_count f + 1\<rparr>)" "fs_calls st1 = fs_calls st"
      "same_process (fs_fdp ?h) (fs_fdp st1)" using d Some by auto
    have free: "fds_of (fs_fdp st) new = None" using r Some used by (simp add: lowest_free_def del: not_None_eq)
    then have ne: "new \<noteq> fd" using m by auto
    obtain fdp' where p: "fd_putfile p st1 fd = Some (st1\<lparr>fs_fdp := fdp'\<rparr>, Returned 0)" "fd_wf fdp'"
      "ff_get fdp' = (ff_get (fs_fdp st1))(fd \<mapsto> ff)" "same_frame (fs_fdp st1) fdp'" "ff_put fdp' fd (ff\<lparr>ff_refcnt := 1\<rparr>) = fs_fdp st1"
      using putfile_done [OF st1(2), of fd ff p] st1(3) h(2) ff0 ne by auto
    then have get: "ff_get fdp' = (ff_get (fs_fdp st))(new \<mapsto> ?nf)"
      using st1(3) h(2) ff(1) ne by (auto simp: fun_eq_iff)
    have "ff_refcnt ?nf = 0"
      using q ne by (auto simp: slot_or_new_def h(2) quiet_def fdfile_ctor_def split: option.split)
    then have "quiet fdp'" using closed_quiet_upd [OF q get] by simp
    moreover have fds: "fds_of fdp' = (fds_of (fs_fdp st))(new \<mapsto> (fp, c))" using fds_upd [OF get] by simp
    moreover have "card (users (fds_of (fs_fdp st)) fp) \<le> f_count f"
      using fs_okD(3) [OF ok] f m by (force simp: tally_def users_def)
    then have "tally (fds_of fdp') (fs_files st1)"
      unfolding fds st1(4) using fs_okD(3) [OF ok] free f by (intro tally_add) simp_all
    ultimately have "fs_ok (st1\<lparr>fs_fdp := fdp'\<rparr>)" using p(2) by (simp add: fs_ok_def)
    moreover have "referred fp 0 (fs_files st) = fs_files st1" using f st1(4) by (simp add: referred_def)
    ultimately show ?thesis using that [OF st1(1) p(1)] m least Some fds st1(5) same st1(6) p(3,4,5)
      by (simp add: posix_of_def holding_def)
  qed
qed

section \<open>Duplicating to a given descriptor\<close>

lemma released_hold:
  assumes "files fp = Some f" "fp2 = fp \<Longrightarrow> 1 < f_count f" "released p fp2 files = (files', calls, error)"
  obtains f' where "files' fp = Some f'" "f_flag f' = f_flag f" "0 < f_count f \<Longrightarrow> 0 < f_count f'"
    "released p fp2 (files(fp \<mapsto> f\<lparr>f_count := f_count f + 1\<rparr>)) = (files'(fp \<mapsto> f'\<lparr>f_count := f_count f' + 1\<rparr>), calls, error)"
proof (cases "fp2 = fp")
  case True
  then have "files' = files(fp \<mapsto> f\<lparr>f_count := f_count f - 1\<rparr>)" "calls = []" "error = 0"
    using assms by (simp_all add: released_def)
  then show ?thesis
    using that [of "f\<lparr>f_count := f_count f - 1\<rparr>"] True assms(1,2) by (simp add: released_def fun_upd_twist)
next
  case False
  then have "files' fp = Some f" using assms(1,3) by (auto simp: released_def split: option.splits if_splits)
  then show ?thesis
    using that [of f] False assms(3) by (auto simp: released_def fun_upd_twist split: option.splits if_splits)
qed

lemma shared_file:
  assumes t: "tally m files" and m: "m fd = Some (fp, b)" "m to = Some (fp, b')" "fd \<noteq> to" and f: "files fp = Some f"
  shows "1 < f_count f"
proof -
  have "{fd, to} \<subseteq> users m fp" "finite (users m fp)" using m t finite_users by (auto simp: users_def tally_def)
  then have "card {fd, to} \<le> card (users m fp)" by (intro card_mono)
  moreover have "card (users m fp) \<le> f_count f" using t f m by (force simp: tally_def users_def)
  ultimately show ?thesis using m(3) by simp
qed

lemma tally_hold:
  assumes "tally m files" "files fp = Some f" "f_count f \<le> f_count f'"
  shows "tally m (files(fp \<mapsto> f'))"
  using assms by (fastforce simp: tally_def)

text \<open>The slot is emptied in at most two rounds.\<close>

lemma free_bit: "fd_wf fdp \<Longrightarrow> fd < nfiles fdp \<Longrightarrow> \<not> used_slot fdp fd \<Longrightarrow> fd_isused fdp fd = Some False"
proof -
  assume wf: "fd_wf fdp" and n: "fd < nfiles fdp" and u: "\<not> used_slot fdp fd"
  have "fd div 32 < length (fd_lomap fdp)" using slot_words(1) [OF _ n] wf by (simp add: fd_wf_def)
  moreover have "\<not> bm_bit (fd_lomap fdp) fd" using wf u by (simp add: fd_wf_def maps_ok_def)
  ultimately show ?thesis using n by (simp add: fd_isused_def bm_bit_def and_bit_of_eq_0)
qed

lemma dup2_loop_empties:
  assumes ok: "fs_ok st" and n: "to < nfiles (fs_fdp st)"
  obtains st' where "dup2_loop 2 p st to = Some (st', Returned 0)" "fs_ok st'" "fds_of (fs_fdp st') to = None"
    "fst (posix_drop p (posix_of st) to) = posix_of st'" "to < nfiles (fs_fdp st')"
proof (cases "fds_of (fs_fdp st) to")
  case None
  then have "\<not> used_slot (fs_fdp st) to" using used_fds [OF fs_okD(1,2) [OF ok]] by simp
  then have "dup2_loop 2 p st to = Some (st, Returned 0)"
    using free_bit [OF fs_okD(1) [OF ok] n] by (simp add: numeral_2_eq_2)
  then show ?thesis using that [of st] ok None n by (simp add: posix_of_def)
next
  case (Some x)
  then obtain fp b where "fds_of (fs_fdp st) to = Some (fp, b)" by (cases x) simp
  then obtain ff where ff: "ff_get (fs_fdp st) to = Some ff" "ff_file ff = Some fp" by (rule fds_open)
  obtain st' error where c: "fd_close p (holding st to ff) to = Some (st', Returned error)" "fs_ok st'"
    "posix_drop p (posix_of st) to = (posix_of st', error)" "same_frame (fs_fdp st) (fs_fdp st')"
    using close_refines [OF ok ff] .
  have used: "fd_isused (fs_fdp st) to = Some True"
    using used_bit [OF fs_okD(1) [OF ok]] used_fds [OF fs_okD(1,2) [OF ok]] Some by simp
  have "fst (posix_of st') to = None"
    using c(3) Some by (cases x) (clarsimp simp: posix_of_def Let_def split: prod.splits, metis fun_upd_same)
  then have none: "fds_of (fs_fdp st') to = None" by (simp add: posix_of_def)
  have n': "to < nfiles (fs_fdp st')" using c(4) n by (simp add: same_frame_def)
  then have "fd_isused (fs_fdp st') to = Some False"
    using free_bit [OF fs_okD(1) [OF c(2)]] used_fds [OF fs_okD(1,2) [OF c(2)]] none by simp
  then have "dup2_loop 2 p st to = Some (st', Returned 0)"
    using used getfile_holding(1) [OF ok ff] c(1) by (simp add: numeral_2_eq_2)
  then show ?thesis using that c none n' by simp
qed

text \<open>A reference held besides those of the descriptors survives the drop.\<close>

lemma drop_hold:
  assumes drop: "posix_drop p (m, files, calls) to = ((m', files', calls'), error)"
    and f: "files fp = Some f" "0 < f_count f" and room: "\<And>b. m to = Some (fp, b) \<Longrightarrow> 1 < f_count f"
  obtains f' where "files' fp = Some f'" "0 < f_count f'"
    "fst (posix_drop p (m, files(fp \<mapsto> f\<lparr>f_count := f_count f + 1\<rparr>), calls) to) =
      (m', files'(fp \<mapsto> f'\<lparr>f_count := f_count f' + 1\<rparr>), calls')"
proof (cases "m to")
  case None
  then show ?thesis using that [of f] drop f by simp
next
  case (Some x)
  obtain fp2 b where x: "m to = Some (fp2, b)" using Some by (cases x) simp
  obtain cs where r: "released p fp2 files = (files', cs, error)"
    "m' = m(to := None)" "calls' = calls @ (case files fp2 of None \<Rightarrow> []
      | Some f \<Rightarrow> if pk_advlock p \<and> f_type f = DTYPE_VNODE then [Posix_unlock fp2] else []) @ cs"
    using drop x by (auto simp: Let_def split: prod.splits)
  obtain f' where f': "files' fp = Some f'" "0 < f_count f'"
    "released p fp2 (files(fp \<mapsto> f\<lparr>f_count := f_count f + 1\<rparr>)) = (files'(fp \<mapsto> f'\<lparr>f_count := f_count f' + 1\<rparr>), cs, error)"
    using released_hold [OF f(1) _ r(1)] room [of b] x f(2) by metis
  moreover have "(case (files(fp \<mapsto> f\<lparr>f_count := f_count f + 1\<rparr>)) fp2 of None \<Rightarrow> []
      | Some f \<Rightarrow> if pk_advlock p \<and> f_type f = DTYPE_VNODE then [Posix_unlock fp2] else []) =
    (case files fp2 of None \<Rightarrow> [] | Some f \<Rightarrow> if pk_advlock p \<and> f_type f = DTYPE_VNODE then [Posix_unlock fp2] else [])"
    using f(1) by simp
  ultimately show ?thesis using that [of f'] x r(2,3) by simp
qed

lemma fs_ok_fdp:
  assumes "fs_ok st" "fd_wf fdp" "ff_get fdp = ff_get (fs_fdp st)"
  shows "fs_ok (st\<lparr>fs_fdp := fdp\<rparr>)" "fds_of fdp = fds_of (fs_fdp st)"
  using assms by (simp_all add: fs_ok_def quiet_def fds_of_def [abs_def])

text \<open>An empty slot is taken and given the file.\<close>

lemma dup2_install:
  assumes ok: "fs_ok st" and to: "to < nfiles (fs_fdp st)" "fds_of (fs_fdp st) to = None" and f: "fs_files st fp = Some f"
  obtains ffo mid fdp' ff st' where "aget (ffs_of (fs_fdp st)) to = Some ffo"
    "(if ffo = None then (if to < NDFDFILE then None else Some (ff_put (fs_fdp st) to fdfile_ctor)) else Some (fs_fdp st)) = Some mid"
    "fd_used mid to = Some fdp'" "ff_get fdp' to = Some ff"
    "fd_affix (st\<lparr>fs_fdp := ff_put fdp' to (ff\<lparr>ff_exclose := c\<rparr>), fs_files := (fs_files st)(fp \<mapsto> f')\<rparr>) fp to = Some st'"
    "fd_wf (fs_fdp st')" "quiet (fs_fdp st')" "fds_of (fs_fdp st') = (fds_of (fs_fdp st))(to \<mapsto> (fp, c))"
    "fs_files st' = (fs_files st)(fp \<mapsto> f'\<lparr>f_count := f_count f' + 1\<rparr>)" "fs_calls st' = fs_calls st"
proof -
  note wf = fs_okD(1) [OF ok] and q = fs_okD(2) [OF ok]
  let ?new = "(slot_or_new (fs_fdp st) to)\<lparr>ff_allocated := True\<rparr>"
  have free: "\<not> used_slot (fs_fdp st) to" using used_fds [OF wf q] to(2) by simp
  obtain ffo mid fdp' where c: "aget (ffs_of (fs_fdp st)) to = Some ffo"
    "(if ffo = None then (if to < NDFDFILE then None else Some (ff_put (fs_fdp st) to fdfile_ctor)) else Some (fs_fdp st)) = Some mid"
    "ff_get mid to = Some (slot_or_new (fs_fdp st) to)" "ff_file (slot_or_new (fs_fdp st) to) = None" "fd_used mid to = Some fdp'"
    "fd_wf fdp'" "same_frame (fs_fdp st) fdp'" "fd_freefile fdp' = fd_freefile (fs_fdp st)"
    "ff_get fdp' = (ff_get (fs_fdp st))(to \<mapsto> ?new)"
    using claim_slot [OF wf to(1) free] .
  have new: "ff_get fdp' to = Some ?new" "ff_allocated ?new" "ff_file ?new = None" using c(4,9) by simp_all
  let ?s = "st\<lparr>fs_files := (fs_files st)(fp \<mapsto> f')\<rparr>"
  have hyp: "fs_files ?s fp = Some f'" and files: "fs_files ?s = (fs_files st)(fp \<mapsto> f')" "fs_calls ?s = fs_calls st" by simp_all
  obtain st' where a: "fd_affix ((st\<lparr>fs_files := (fs_files st)(fp \<mapsto> f')\<rparr>)\<lparr>fs_fdp := ff_put fdp' to (?new\<lparr>ff_exclose := c\<rparr>)\<rparr>) fp to = Some st'"
    "fd_wf (fs_fdp st')" "ff_get (fs_fdp st') = (ff_get fdp')(to \<mapsto> ?new\<lparr>ff_exclose := c, ff_file := Some fp\<rparr>)"
    "fs_files st' = ((fs_files st)(fp \<mapsto> f'))(fp \<mapsto> f'\<lparr>f_count := f_count f' + 1\<rparr>)" "fs_calls st' = fs_calls st"
    using affix_new [OF c(6) new hyp, of c] unfolding files by blast
  have get: "ff_get (fs_fdp st') = (ff_get (fs_fdp st))(to \<mapsto> ?new\<lparr>ff_exclose := c, ff_file := Some fp\<rparr>)"
    using a(3) c(9) by simp
  have "ff_refcnt (slot_or_new (fs_fdp st) to) = 0"
    using q by (auto simp: slot_or_new_def quiet_def fdfile_ctor_def split: option.split)
  then have "quiet (fs_fdp st')" using closed_quiet_upd [OF q get] by simp
  moreover have "fds_of (fs_fdp st') = (fds_of (fs_fdp st))(to \<mapsto> (fp, c))" using fds_upd [OF get] by simp
  moreover have "st\<lparr>fs_files := (fs_files st)(fp \<mapsto> f'), fs_fdp := ff_put fdp' to (?new\<lparr>ff_exclose := c\<rparr>)\<rparr> =
    st\<lparr>fs_fdp := ff_put fdp' to (?new\<lparr>ff_exclose := c\<rparr>), fs_files := (fs_files st)(fp \<mapsto> f')\<rparr>" by simp
  note a(1) [unfolded this]
  ultimately show ?thesis using that [OF c(1,2,5) new(1), of st'] a(2-5) by simp
qed

text \<open>\<open>fd_dup2\<close>, called with a reference to the file besides those of the descriptors.\<close>

lemma fd_dup2_refines:
  assumes ok: "fs_ok st" and m: "fds_of (fs_fdp st) fd = Some (fp, b)" "fd \<noteq> to" and to: "to < 2 ^ 30"
    and flags: "flags AND NOT (O_CLOEXEC OR FNONBLOCK) = 0" and f: "fs_files st fp = Some f"
    and drop: "posix_drop p (posix_of st) to = ((m', files', calls'), error)"
  obtains s2 f' where "fd_dup2 p (st\<lparr>fs_files := (fs_files st)(fp \<mapsto> f\<lparr>f_count := f_count f + 1\<rparr>)\<rparr>) fp to flags = Some (s2, Returned 0)"
    "fd_wf (fs_fdp s2)" "quiet (fs_fdp s2)" "fds_of (fs_fdp s2) = m'(to \<mapsto> (fp, flags AND O_CLOEXEC \<noteq> 0))"
    "files' fp = Some f'" "0 < f_count f'" "fs_calls s2 = calls'"
    "fs_files s2 = files'(fp \<mapsto> f'\<lparr>f_count := f_count f' + 2, f_flag := f_flag f' OR (flags AND FNONBLOCK)\<rparr>)"
proof -
  let ?s0 = "st\<lparr>fs_files := (fs_files st)(fp \<mapsto> f\<lparr>f_count := f_count f + 1\<rparr>)\<rparr>"
  note t = fs_okD(3) [OF ok]
  have "0 < f_count f" using tally_file [OF t m(1)] f by auto
  moreover have "1 < f_count f" if "fds_of (fs_fdp st) to = Some (fp, b')" for b'
    using shared_file [OF t m(1) that m(2) f] .
  ultimately obtain f' where f': "files' fp = Some f'" "0 < f_count f'"
    "fst (posix_drop p (fds_of (fs_fdp st), fs_files ?s0, fs_calls st) to) = (m', files'(fp \<mapsto> f'\<lparr>f_count := f_count f' + 1\<rparr>), calls')"
    using drop_hold [OF drop [unfolded posix_of_def] f] by auto
  have ok0: "fs_ok ?s0" using ok tally_hold [OF t f] by (simp add: fs_ok_def)
  obtain fdp1 where g: "grow_to (fs_fdp ?s0) to = Some fdp1" "fd_wf fdp1" "ff_get fdp1 = ff_get (fs_fdp ?s0)" "to < nfiles fdp1"
    using grow_to_spec [OF fs_okD(1) [OF ok0] to] by blast
  let ?s1 = "?s0\<lparr>fs_fdp := fdp1\<rparr>"
  have ok1: "fs_ok ?s1" "fds_of fdp1 = fds_of (fs_fdp st)" using fs_ok_fdp [OF ok0 g(2,3)] by simp_all
  obtain s' where e: "dup2_loop 2 p ?s1 to = Some (s', Returned 0)" "fs_ok s'" "fds_of (fs_fdp s') to = None"
    "fst (posix_drop p (posix_of ?s1) to) = posix_of s'" "to < nfiles (fs_fdp s')"
    using dup2_loop_empties [OF ok1(1), of to p] g(4) by auto
  have s': "fds_of (fs_fdp s') = m'" "fs_files s' = files'(fp \<mapsto> f'\<lparr>f_count := f_count f' + 1\<rparr>)" "fs_calls s' = calls'"
    using e(4) f'(3) ok1(2) by (simp_all add: posix_of_def)
  let ?f = "f'\<lparr>f_count := f_count f' + 1, f_flag := f_flag f' OR (flags AND FNONBLOCK)\<rparr>"
  obtain ffo mid fdp' ff s2 where i: "aget (ffs_of (fs_fdp s')) to = Some ffo"
    "(if ffo = None then (if to < NDFDFILE then None else Some (ff_put (fs_fdp s') to fdfile_ctor)) else Some (fs_fdp s')) = Some mid"
    "fd_used mid to = Some fdp'" "ff_get fdp' to = Some ff"
    "fd_affix (s'\<lparr>fs_fdp := ff_put fdp' to (ff\<lparr>ff_exclose := flags AND O_CLOEXEC \<noteq> 0\<rparr>), fs_files := (fs_files s')(fp \<mapsto> ?f)\<rparr>) fp to = Some s2"
    "fd_wf (fs_fdp s2)" "quiet (fs_fdp s2)" "fds_of (fs_fdp s2) = (fds_of (fs_fdp s'))(to \<mapsto> (fp, flags AND O_CLOEXEC \<noteq> 0))"
    "fs_files s2 = (fs_files s')(fp \<mapsto> ?f\<lparr>f_count := f_count ?f + 1\<rparr>)" "fs_calls s2 = fs_calls s'"
    using dup2_install [OF e(2,5,3), of fp _ ?f "flags AND O_CLOEXEC \<noteq> 0"] s'(2) by (metis fun_upd_same)
  have "fd_dup2 p ?s0 fp to flags = Some (s2, Returned 0)"
    using flags g(1) e(1) i(1-5) s'(2) by (simp add: fd_dup2_def Let_def)
  moreover have "fs_files s2 = files'(fp \<mapsto> f'\<lparr>f_count := f_count f' + 2, f_flag := f_flag f' OR (flags AND FNONBLOCK)\<rparr>)"
    unfolding i(9) s'(2) by (cases f') simp
  ultimately show ?thesis using that [of s2 f'] i(6-8,10) s'(1,3) f'(1,2) by simp
qed

text \<open>The reference that \<open>dodup\<close> takes and gives back.\<close>

lemma hold_drop:
  assumes "fs_files s fp = Some (f\<lparr>f_count := f_count f + 1\<rparr>)" "0 < f_count f"
  shows "closef p fp s = Some (s\<lparr>fs_files := (fs_files s)(fp \<mapsto> f)\<rparr>, 0)"
proof -
  have "f\<lparr>f_count := f_count f + 1, f_count := f_count f\<rparr> = f" by (cases f) simp
  then show ?thesis using assms by (simp add: closef_def)
qed

lemma drop_tally:
  assumes t: "tally m files" and drop: "posix_drop p (m, files, calls) to = ((m', files', calls'), error)"
  shows "m' = m(to := None)" "tally m' files'"
proof -
  have "m' = m(to := None) \<and> tally m' files'"
  proof (cases "m to")
    case None
    then show ?thesis using t drop by (auto simp: fun_upd_idem_iff)
  next
    case (Some x)
    obtain fp b where x: "m to = Some (fp, b)" using Some by (cases x) simp
    then obtain cs where "released p fp files = (files', cs, error)" "m' = m(to := None)"
      using drop by (auto simp: Let_def split: prod.splits)
    then show ?thesis using tally_remove [OF t x] by simp
  qed
  then show "m' = m(to := None)" "tally m' files'" by blast+
qed

text \<open>What the caller of a system call gets: the error, or \<open>*retval\<close>.\<close>

definition retval :: "(fd_state \<times> outcome \<times> nat option) option \<Rightarrow> (fd_state \<times> (int + nat)) option" where
  "retval r = (case r of
     Some (st, Returned error, v) \<Rightarrow>
       if error \<noteq> 0 then Some (st, Inl error) else map_option (\<lambda>n. (st, Inr n)) v
   | _ \<Rightarrow> None)"

lemma and_not_or:
  fixes a b c :: u32
  assumes "a AND c = 0"
  shows "a AND NOT (b OR c) = a AND NOT b"
proof -
  have "\<not> (bit a n \<and> bit c n)" for n using arg_cong [OF assms, of "\<lambda>w. bit w n"] by (simp add: bit_simps)
  then show ?thesis by (intro bit_word_eqI) (auto simp: bit_simps)
qed

lemma and_apart:
  fixes a b c :: u32
  assumes "a AND NOT b = 0" "b AND c = 0"
  shows "a AND c = 0"
proof (rule bit_word_eqI)
  fix n
  assume "n < LENGTH(32)"
  then show "bit (a AND c) n = bit 0 n"
    using arg_cong [OF assms(1), of "\<lambda>w. bit w n"] arg_cong [OF assms(2), of "\<lambda>w. bit w n"] by (auto simp: bit_simps)
qed

text \<open>Without \<open>O_NOSIGPIPE\<close> the flags that \<open>fd_dup2\<close> accepts are those of the description.\<close>

lemma dup3_flags:
  fixes flags :: u32
  assumes "flags AND FNOSIGPIPE = 0"
  shows "flags AND NOT (O_CLOEXEC OR FNONBLOCK OR FNOSIGPIPE) = flags AND NOT (O_CLOEXEC OR FNONBLOCK)"
    "flags AND (FNONBLOCK OR FNOSIGPIPE) = flags AND FNONBLOCK"
  using and_not_or [OF assms, of "O_CLOEXEC OR FNONBLOCK"] assms
  by (simp_all only: or.assoc bit.conj_disj_distrib or.right_neutral)

lemma dodup_refines:
  assumes ok: "fs_ok st" and max: "unat (maxfiles p) \<le> 2 ^ 30"
  shows "\<exists>st' r. retval (dodup p st fd to flags) = Some (st', r) \<and> fs_ok st' \<and>
    (flags AND FNOSIGPIPE = 0 \<longrightarrow> posix_dup2 p (posix_of st) fd to flags = (posix_of st', r))"
proof (cases "fds_of (fs_fdp st) fd")
  case None
  then have "fd_getfile p st fd = Some (st, None)"
    using getfile_closed [OF fs_okD(1,2) [OF ok]] by (simp add: fds_closed)
  then show ?thesis
    using None ok by (intro exI [of _ st] exI [of _ "Inl 9"]) (simp add: dodup_def posix_of_def retval_def)
next
  case (Some x)
  then obtain fp b where m: "fds_of (fs_fdp st) fd = Some (fp, b)" by (cases x) simp
  then obtain ff where ff: "ff_get (fs_fdp st) fd = Some ff" "ff_file ff = Some fp" by (rule fds_open)
  note t = fs_okD(3) [OF ok]
  obtain f where f: "fs_files st fp = Some f" "0 < f_count f" using tally_file [OF t m] .
  let ?held = "\<lambda>s. s\<lparr>fs_files := (fs_files s)(fp \<mapsto> f\<lparr>f_count := f_count f + 1\<rparr>)\<rparr>"
  have ff0: "ff_refcnt ff = 0" using fs_okD(2) [OF ok] ff(1) by (simp add: quiet_def)
  obtain fdp0 where put: "fd_putfile p (?held (holding st fd ff)) fd = Some ((?held (holding st fd ff))\<lparr>fs_fdp := fdp0\<rparr>, Returned 0)"
    "fd_wf fdp0" "ff_get fdp0 = (ff_get (fs_fdp (?held (holding st fd ff))))(fd \<mapsto> ff)"
    using putfile_done [of "?held (holding st fd ff)" fd ff p] getfile_holding(2,3) [OF ok ff] ff0 by auto
  define s where "s = st\<lparr>fs_fdp := fdp0\<rparr>"
  have "ff_get fdp0 = ff_get (fs_fdp st)" using put(3) getfile_holding(3) [OF ok ff] ff(1) by auto
  then have s: "fs_ok s" "posix_of s = posix_of st" "fds_of (fs_fdp s) = fds_of (fs_fdp st)" "fs_files s = fs_files st"
    using fs_ok_fdp [OF ok put(2)] by (simp_all add: s_def posix_of_def)
  have held: "(?held (holding st fd ff))\<lparr>fs_fdp := fdp0\<rparr> = ?held s" by (simp add: s_def holding_def)
  have start: "dodup p st fd to flags = do {
      (st, out) \<leftarrow> (if unat (rlim_cur p) \<le> to \<or> unat (maxfiles p) \<le> to then Some (?held s, Returned EBADF)
                    else if fd = to then Some (?held s, Returned 0)
                    else fd_dup2 p (?held s) fp to flags);
      (case out of
         Returned _ \<Rightarrow> do { (st, _) \<leftarrow> closef p fp st; Some (st, out, Some to) }
       | _ \<Rightarrow> Some (st, out, None)) }"
    using getfile_holding(1) [OF ok ff] put(1) f(1) held by (simp add: dodup_def f_hold_def)
  have "(fs_files s)(fp \<mapsto> f) = fs_files s" using f(1) s(4) by auto
  then have undo: "closef p fp (?held s) = Some (s, 0)" using hold_drop [of "?held s" fp f p] f(2) by simp
  show ?thesis
  proof (cases "unat (rlim_cur p) \<le> to \<or> unat (maxfiles p) \<le> to \<or> fd = to \<or> flags AND NOT (O_CLOEXEC OR FNONBLOCK) \<noteq> 0")
    case True
    then have "\<exists>r. retval (dodup p st fd to flags) = Some (s, r) \<and>
        (flags AND FNOSIGPIPE = 0 \<longrightarrow> posix_dup2 p (posix_of s) fd to flags = (posix_of s, r))"
      unfolding start using undo m s(3) by (auto simp: fd_dup2_def posix_of_def retval_def dup3_flags [simplified])
    then show ?thesis using s(1,2) by metis
  next
    case False
    then have ne: "fd \<noteq> to" and to: "to < 2 ^ 30" and flags: "flags AND NOT (O_CLOEXEC OR FNONBLOCK) = 0"
      using max by auto
    obtain m' files' calls' e where drop: "posix_drop p (posix_of s) to = ((m', files', calls'), e)"
      by (metis prod.exhaust)
    obtain s2 f' where d: "fd_dup2 p (?held s) fp to flags = Some (s2, Returned 0)"
      "fd_wf (fs_fdp s2)" "quiet (fs_fdp s2)" "fds_of (fs_fdp s2) = m'(to \<mapsto> (fp, flags AND O_CLOEXEC \<noteq> 0))"
      "files' fp = Some f'" "0 < f_count f'" "fs_calls s2 = calls'"
      "fs_files s2 = files'(fp \<mapsto> f'\<lparr>f_count := f_count f' + 2, f_flag := f_flag f' OR (flags AND FNONBLOCK)\<rparr>)"
      using fd_dup2_refines [OF s(1) _ ne to flags _ drop] m f(1) s(3,4) by metis
    let ?x = "flags AND FNONBLOCK" and ?c = "flags AND O_CLOEXEC \<noteq> 0"
    let ?f = "f'\<lparr>f_count := f_count f' + 1, f_flag := f_flag f' OR ?x\<rparr>"
    let ?st = "s2\<lparr>fs_files := referred fp ?x files'\<rparr>"
    have "fs_files s2 fp = Some (?f\<lparr>f_count := f_count ?f + 1\<rparr>)" unfolding d(8) by (cases f') simp
    then have close: "closef p fp s2 = Some (?st, 0)"
      using hold_drop [of s2 fp ?f p] d(5,8) by (simp add: referred_def)
    have m': "m' = (fds_of (fs_fdp s))(to := None)" "tally m' files'"
      using drop_tally [OF fs_okD(3) [OF s(1)] drop [unfolded posix_of_def]] .
    then have "fd \<in> users m' fp" using m ne s(3) by (simp add: users_def)
    then have "card (users m' fp) \<le> f_count f'" using m'(2) d(5) by (force simp: tally_def)
    then have "tally (m'(to \<mapsto> (fp, ?c))) (referred fp ?x files')"
      unfolding referred_def d(5) option.map using m' d(5) by (intro tally_add) simp_all
    then have "fs_ok ?st" using d(2-4) by (simp add: fs_ok_def)
    moreover have "retval (dodup p st fd to flags) = Some (?st, Inr to)"
      unfolding start retval_def using False ne d(1) close by auto
    moreover have "posix_dup2 p (posix_of s) fd to flags = (posix_of ?st, Inr to)"
      using m s(3) False drop d(4,7) dup3_flags [OF and_apart [OF flags]] by (auto simp: posix_of_def Let_def)
    ultimately show ?thesis using s(2) by metis
  qed
qed

end
