(* ===== verification/Fd_System.thy ===== *)
theory Fd_System
  imports Fd_Refine
begin

text \<open>
  Sequences of system calls on descriptors: the model refines the POSIX description, no assertion
  fails and no access leaves an array.
\<close>

section \<open>The remaining calls\<close>

lemma getfile_cases:
  assumes ok: "fs_ok st"
  obtains (closed) "fds_of (fs_fdp st) fd = None" "\<And>p. fd_getfile p st fd = Some (st, None)"
  | (opened) ff fp where "ff_get (fs_fdp st) fd = Some ff" "ff_file ff = Some fp"
      "fds_of (fs_fdp st) fd = Some (fp, ff_exclose ff)" "\<And>p. fd_getfile p st fd = Some (holding st fd ff, Some fp)"
proof (cases "fds_of (fs_fdp st) fd")
  case None
  then show ?thesis
    using closed getfile_closed [OF fs_okD(1,2) [OF ok]] by (simp add: fds_closed)
next
  case (Some x)
  then obtain fp b where x: "fds_of (fs_fdp st) fd = Some (fp, b)" by (cases x) simp
  then obtain ff where "ff_get (fs_fdp st) fd = Some ff" "ff_file ff = Some fp" "ff_exclose ff = b" by (rule fds_open)
  then show ?thesis using opened x getfile_holding(1) [OF ok] by blast
qed

lemma fd_lim_le: "fd_lim p \<le> unat (maxfiles p)"
  unfolding fd_lim_def by (metis min.cobounded2 word_le_nat_alt)

lemma sys_dup_refines:
  assumes ok: "fs_ok st" and max: "unat (maxfiles p) \<le> 2 ^ 30"
  shows "\<exists>st' r. sys_dup p st fd = Some (st', r) \<and> fs_ok st' \<and>
    posix_dup (fd_lim p) (posix_of st) fd 0 False = (posix_of st', r)"
proof (rule getfile_cases [OF ok, of fd])
  assume "fds_of (fs_fdp st) fd = None" "\<And>p. fd_getfile p st fd = Some (st, None)"
  then show ?thesis using ok by (intro exI [of _ st] exI [of _ "Inl 9"]) (simp add: sys_dup_def posix_of_def)
next
  fix ff fp
  assume ff: "ff_get (fs_fdp st) fd = Some ff" "ff_file ff = Some fp"
    and g: "\<And>p. fd_getfile p st fd = Some (holding st fd ff, Some fp)"
  have lim: "fd_lim p \<le> 2 ^ 30" using fd_lim_le [of p] max by simp
  obtain st1 st' r where "fd_dup p (holding st fd ff) fp (int 0) False = Some (st1, r)"
    "fd_putfile p st1 fd = Some (st', Returned 0)" "fs_ok st'" "posix_dup (fd_lim p) (posix_of st) fd 0 False = (posix_of st', r)"
    using dup_refines [OF ok lim ff] by blast
  then show ?thesis using g by (intro exI [of _ st'] exI [of _ r]) (simp add: sys_dup_def)
qed

definition posix_dupfd :: "proc \<Rightarrow> posix \<Rightarrow> nat \<Rightarrow> nat \<Rightarrow> bool \<Rightarrow> posix \<times> (int + nat)" where
  "posix_dupfd p s fd newmin cloexec =
     (if fst s fd \<noteq> None \<and> (unat (rlim_cur p) \<le> newmin \<or> unat (maxfiles p) \<le> newmin) then (s, Inl EINVAL)
      else posix_dup (fd_lim p) s fd newmin cloexec)"

text \<open>Giving the reference back leaves everything as it was.\<close>

lemma putfile_holding:
  assumes ok: "fs_ok st" and ff: "ff_get (fs_fdp st) fd = Some ff" "ff_file ff = Some fp"
  obtains st' where "fd_putfile p (holding st fd ff) fd = Some (st', Returned 0)" "fs_ok st'" "posix_of st' = posix_of st"
    "same_process (fs_fdp st) (fs_fdp st')"
proof -
  have "ff_refcnt ff = 0" using fs_okD(2) [OF ok] ff(1) by (simp add: quiet_def)
  moreover have "ff_get (fs_fdp (holding st fd ff)) fd = Some (ff\<lparr>ff_refcnt := 1\<rparr>)"
    using getfile_holding(3) [OF ok ff] by simp
  ultimately obtain fdp' where p: "fd_putfile p (holding st fd ff) fd = Some ((holding st fd ff)\<lparr>fs_fdp := fdp'\<rparr>, Returned 0)"
    "fd_wf fdp'" "ff_get fdp' = (ff_get (fs_fdp (holding st fd ff)))(fd \<mapsto> ff)" "same_frame (fs_fdp (holding st fd ff)) fdp'"
    using putfile_done [OF getfile_holding(2) [OF ok ff]] by blast
  have same: "same_process (fs_fdp st) fdp'" using p(4) by (simp add: same_frame_def same_process_def holding_def)
  have get: "ff_get fdp' = ff_get (fs_fdp st)" using p(3) getfile_holding(3) [OF ok ff] ff(1) by auto
  have eq: "(holding st fd ff)\<lparr>fs_fdp := fdp'\<rparr> = st\<lparr>fs_fdp := fdp'\<rparr>" by (simp add: holding_def)
  show ?thesis
    using that [OF p(1) [unfolded eq]] fs_ok_fdp [OF ok p(2) get] same by (simp add: posix_of_def)
qed

lemma fcntl_dupfd_refines:
  assumes ok: "fs_ok st" and max: "unat (maxfiles p) \<le> 2 ^ 30"
  shows "\<exists>st' r. fcntl_dupfd p st fd newmin c = Some (st', r) \<and> fs_ok st' \<and>
    posix_dupfd p (posix_of st) fd newmin c = (posix_of st', r)"
proof (rule getfile_cases [OF ok, of fd])
  assume "fds_of (fs_fdp st) fd = None" "\<And>p. fd_getfile p st fd = Some (st, None)"
  then show ?thesis
    using ok by (intro exI [of _ st] exI [of _ "Inl 9"]) (simp add: fcntl_dupfd_def posix_dupfd_def posix_of_def)
next
  fix ff fp
  assume ff: "ff_get (fs_fdp st) fd = Some ff" "ff_file ff = Some fp"
    and m: "fds_of (fs_fdp st) fd = Some (fp, ff_exclose ff)"
    and g: "\<And>p. fd_getfile p st fd = Some (holding st fd ff, Some fp)"
  have lim: "fd_lim p \<le> 2 ^ 30" using fd_lim_le [of p] max by simp
  show ?thesis
  proof (cases "unat (rlim_cur p) \<le> newmin \<or> unat (maxfiles p) \<le> newmin")
    case True
    obtain st' where "fd_putfile p (holding st fd ff) fd = Some (st', Returned 0)" "fs_ok st'" "posix_of st' = posix_of st"
      using putfile_holding [OF ok ff] by metis
    then show ?thesis
      using True g m by (intro exI [of _ st'] exI [of _ "Inl 22"]) (auto simp: fcntl_dupfd_def posix_dupfd_def posix_of_def)
  next
    case False
    obtain st1 st' r where "fd_dup p (holding st fd ff) fp (int newmin) c = Some (st1, r)"
      "fd_putfile p st1 fd = Some (st', Returned 0)" "fs_ok st'" "posix_dup (fd_lim p) (posix_of st) fd newmin c = (posix_of st', r)"
      using dup_refines [OF ok lim ff] by blast
    then show ?thesis
      using False g by (intro exI [of _ st'] exI [of _ r]) (simp add: fcntl_dupfd_def posix_dupfd_def)
  qed
qed

definition posix_setfd :: "posix \<Rightarrow> nat \<Rightarrow> bool \<Rightarrow> posix \<times> int" where
  "posix_setfd s fd cloexec =
     (case fst s fd of
        None \<Rightarrow> (s, EBADF)
      | Some (fp, _) \<Rightarrow> (((fst s)(fd \<mapsto> (fp, cloexec)), snd s), 0))"

lemma fd_wf_exclose [simp]: "fd_wf (fdp\<lparr>fd_exclose := x\<rparr>) \<longleftrightarrow> fd_wf fdp"
  by (simp add: fd_wf_def shape_ok_def maps_ok_def slots_ok_def marks_ok_def)

lemma fcntl_setfd_refines:
  assumes ok: "fs_ok st"
  shows "\<exists>st' error. fcntl_setfd p st fd c = Some (st', error) \<and> fs_ok st' \<and> posix_setfd (posix_of st) fd c = (posix_of st', error)"
proof (rule getfile_cases [OF ok, of fd])
  assume "fds_of (fs_fdp st) fd = None" "\<And>p. fd_getfile p st fd = Some (st, None)"
  then show ?thesis
    using ok by (intro exI [of _ st] exI [of _ 9]) (simp add: fcntl_setfd_def posix_setfd_def posix_of_def)
next
  fix ff fp
  assume ff: "ff_get (fs_fdp st) fd = Some ff" "ff_file ff = Some fp"
    and m: "fds_of (fs_fdp st) fd = Some (fp, ff_exclose ff)"
    and g: "\<And>p. fd_getfile p st fd = Some (holding st fd ff, Some fp)"
  let ?h = "fs_fdp (holding st fd ff)" and ?ff = "ff\<lparr>ff_exclose := c\<rparr>"
  define fdp1 where "fdp1 = (let fdp = ff_put ?h fd (?ff\<lparr>ff_refcnt := 1\<rparr>) in if c then fdp\<lparr>fd_exclose := True\<rparr> else fdp)"
  have h: "fd_wf ?h" "ff_get ?h = (ff_get (fs_fdp st))(fd \<mapsto> ff\<lparr>ff_refcnt := 1\<rparr>)" using getfile_holding(2,3) [OF ok ff] by simp_all
  have hfd: "ff_get ?h fd = Some (ff\<lparr>ff_refcnt := 1\<rparr>)" using h(2) by simp
  have alloc: "ff_allocated ff" using slot_open [OF fs_okD(1) [OF ok] ff] .
  have swap: "ff\<lparr>ff_refcnt := 1, ff_exclose := c\<rparr> = ?ff\<lparr>ff_refcnt := 1\<rparr>" by simp
  have set: "fd_set_exclose ?h fd c = Some fdp1"
    unfolding fd_set_exclose_def hfd fdp1_def by (simp only: bind.bind_lunit Let_def swap)
  have wf1: "fd_wf fdp1" using fd_wf_put_slot [OF h(1) hfd, of "?ff\<lparr>ff_refcnt := 1\<rparr>"] alloc by (cases c) (simp_all add: fdp1_def Let_def)
  have get1: "ff_get fdp1 = (ff_get (fs_fdp st))(fd \<mapsto> ?ff\<lparr>ff_refcnt := 1\<rparr>)"
    using ff_get_bound [OF hfd] h(2) by (auto simp: fdp1_def Let_def fun_eq_iff ff_get_put)
  have ff0: "ff_refcnt ?ff = 0" using fs_okD(2) [OF ok] ff(1) by (simp add: quiet_def)
  obtain fdp' where p: "fd_putfile p (st\<lparr>fs_fdp := fdp1\<rparr>) fd = Some ((st\<lparr>fs_fdp := fdp1\<rparr>)\<lparr>fs_fdp := fdp'\<rparr>, Returned 0)"
    "fd_wf fdp'" "ff_get fdp' = (ff_get fdp1)(fd \<mapsto> ?ff)"
    using putfile_done [of "st\<lparr>fs_fdp := fdp1\<rparr>" fd ?ff p] wf1 get1 ff0 by auto
  have get: "ff_get fdp' = (ff_get (fs_fdp st))(fd \<mapsto> ?ff)" using p(3) get1 by simp
  have fds: "fds_of fdp' = (fds_of (fs_fdp st))(fd \<mapsto> (fp, c))" using fds_upd [OF get] ff(2) by simp
  have "tally (fds_of fdp') (fs_files st)"
    using fs_okD(3) [OF ok] m unfolding fds tally_def users_flag [of "fds_of (fs_fdp st)" fd, OF m] by (simp add: insert_absorb)
  moreover have "quiet fdp'" using closed_quiet_upd [OF fs_okD(2) [OF ok] get] ff(2) ff0 by simp
  ultimately have "fs_ok (st\<lparr>fs_fdp := fdp'\<rparr>)" using p(2) by (simp add: fs_ok_def)
  moreover have "fcntl_setfd p st fd c = Some (st\<lparr>fs_fdp := fdp'\<rparr>, 0)"
    using g set p(1) by (simp add: fcntl_setfd_def holding_def)
  moreover have "posix_setfd (posix_of st) fd c = (posix_of (st\<lparr>fs_fdp := fdp'\<rparr>), 0)"
    using m fds by (simp add: posix_setfd_def posix_of_def)
  ultimately show ?thesis by blast
qed

lemma fcntl_getfd_refines:
  assumes ok: "fs_ok st"
  shows "\<exists>st'. fcntl_getfd p st fd = Some (st', case fds_of (fs_fdp st) fd of None \<Rightarrow> Inl EBADF | Some (fp, c) \<Rightarrow> Inr c) \<and>
    fs_ok st' \<and> posix_of st' = posix_of st"
proof (rule getfile_cases [OF ok, of fd])
  assume "fds_of (fs_fdp st) fd = None" "\<And>p. fd_getfile p st fd = Some (st, None)"
  then show ?thesis using ok by (intro exI [of _ st]) (simp add: fcntl_getfd_def)
next
  fix ff fp
  assume ff: "ff_get (fs_fdp st) fd = Some ff" "ff_file ff = Some fp"
    and m: "fds_of (fs_fdp st) fd = Some (fp, ff_exclose ff)"
    and g: "\<And>p. fd_getfile p st fd = Some (holding st fd ff, Some fp)"
  obtain st' where "fd_putfile p (holding st fd ff) fd = Some (st', Returned 0)" "fs_ok st'" "posix_of st' = posix_of st"
    using putfile_holding [OF ok ff] by metis
  then show ?thesis
    using g m getfile_holding(3) [OF ok ff] by (intro exI [of _ st']) (simp add: fcntl_getfd_def)
qed

section \<open>Opening\<close>

text \<open>Opening a descriptor's own device, by which \<open>open\<close> duplicates (\<open>EDUPFD\<close>) or moves (\<open>EMOVEFD\<close>) it.\<close>

fun posix_dupopen :: "proc \<Rightarrow> posix \<Rightarrow> nat \<Rightarrow> u32 \<Rightarrow> bool \<Rightarrow> posix \<times> (int + nat)" where
  "posix_dupopen p (m, files, calls) old mode move =
     (case m old of
        None \<Rightarrow> ((m, files, calls), Inl EBADF)
      | Some (fp, c) \<Rightarrow>
          if \<not> move \<and> (mode AND FREADWRITE) OR f_flag (the (files fp)) \<noteq> f_flag (the (files fp))
          then ((m, files, calls), Inl EACCES)
          else
            (case posix_dup (fd_lim p) (m, files, calls) old 0 c of
               (s, Inr new) \<Rightarrow> (if move then fst (posix_drop p s old) else s, Inr new)
             | (s, Inl error) \<Rightarrow> (s, Inl error)))"

text \<open>Opening.  \<open>fp\<close> is the file the pool offers, with the contents \<open>f\<close>, unless it is in use.  A file
  that could not be opened or locked leaves the descriptors as they were.\<close>

abbreviation wants_lock :: "u32 \<Rightarrow> bool" where
  "wants_lock flags \<equiv> flags AND (O_EXLOCK OR O_SHLOCK) \<noteq> 0"

definition opened_file :: "proc \<Rightarrow> u32 \<Rightarrow> file_t" where
  "opened_file p flags = \<lparr>f_count = 1,
     f_flag = (if wants_lock flags then (flags AND FMASK) OR FHASLOCK else flags AND FMASK), f_type = DTYPE_VNODE, f_ops = True,
     f_advice = 0, f_offset = 0, f_cred = l_cred p\<rparr>"

definition lock_calls :: "nat \<Rightarrow> u32 \<Rightarrow> ext_call list" where
  "lock_calls fp flags =
     (if wants_lock flags then [Flock_lock fp (flags AND O_EXLOCK \<noteq> 0) (flags AND FNONBLOCK = 0)] else [])"

definition restarted :: "int + nat \<Rightarrow> int + nat" where
  "restarted r = (if r = Inl ERESTART then Inl EINTR else r)"

fun posix_open :: "proc \<Rightarrow> nat \<Rightarrow> file_t \<Rightarrow> open_env \<Rightarrow> u32 \<Rightarrow> posix \<Rightarrow> posix \<times> (int + nat)" where
  "posix_open p fp f env oflags (m, files, calls) =
     (let flags = FFLAGS (oflags AND NOT O_SEARCH); error = oe_error env
      in if flags AND FREADWRITE = 0 then ((m, files, calls), Inl EINVAL)
         else case least_fd m 0 (fd_lim p) of
           None \<Rightarrow> ((m, files, calls), Inl EMFILE)
         | Some fd \<Rightarrow>
             if files fp \<noteq> None \<or> f_count f \<noteq> 0 then ((m, files, calls), Inl ENFILE)
             else if (error = EDUPFD \<or> error = EMOVEFD) \<and> 0 \<le> oe_dupfd env
             then apsnd restarted (posix_dupopen p (m, files, calls) (nat (oe_dupfd env)) flags (error = EMOVEFD))
             else if error \<noteq> 0 then ((m, files, calls), restarted (Inl error))
             else if wants_lock flags \<and> oe_advlock env \<noteq> 0
             then ((m, files, calls @ lock_calls fp flags @ [Vn_close fp]), Inl (oe_advlock env))
             else ((m(fd \<mapsto> (fp, flags AND O_CLOEXEC \<noteq> 0)), files(fp \<mapsto> opened_file p flags), calls @ lock_calls fp flags),
                   Inr fd))"

lemma slot_or_new_free:
  assumes "fd_wf fdp" "quiet fdp" "\<not> used_slot fdp fd"
  shows "ff_file (slot_or_new fdp fd) = None" "\<not> ff_exclose (slot_or_new fdp fd)" "ff_refcnt (slot_or_new fdp fd) = 0"
  using assms slot_free [OF assms(1)]
  by (auto simp: slot_or_new_def used_slot_def quiet_def fdfile_ctor_def split: option.split)

lemma tally_fresh:
  assumes t: "tally m files" and new: "files fp = None" "m fd = None" "f_count f = 1"
  shows "tally (m(fd \<mapsto> (fp, b))) (files(fp \<mapsto> f))"
proof -
  have "users m fp = {}" using t new(1) by (force simp: tally_def)
  then show ?thesis using t new(2,3) by (auto simp: tally_def users_add)
qed

text \<open>Giving up a descriptor that was just allocated.\<close>

lemma abort_spec:
  assumes wf: "fd_wf fdp" and ff: "ff_get fdp fd = Some ff" "ff_allocated ff" "ff_file ff = None"
  obtains fdp' where "fd_abort (st\<lparr>fs_fdp := fdp\<rparr>) None fd = Some (st\<lparr>fs_fdp := fdp'\<rparr>)" "fd_wf fdp'"
    "ff_get fdp' = (ff_get fdp)(fd \<mapsto> ff\<lparr>ff_exclose := False, ff_allocated := False\<rparr>)"
proof -
  let ?mid = "ff_put fdp fd (ff\<lparr>ff_exclose := False\<rparr>)"
  have n: "fd < length (ffs_of fdp)" using ff_get_bound [OF ff(1)] .
  have mid: "fd_wf ?mid" using fd_wf_put_slot [OF wf ff(1)] ff(2) by simp
  have get: "ff_get ?mid fd = Some (ff\<lparr>ff_exclose := False\<rparr>)" using n by (simp add: ff_get_put)
  then have "fd_isused ?mid fd = Some True" using used_bit [OF mid] ff(2) by (simp add: used_slot_def)
  moreover obtain fdp' where u: "fd_unused ?mid fd = Some fdp'" "fd_wf fdp'"
    "ff_get fdp' = (ff_get ?mid)(fd \<mapsto> ff\<lparr>ff_exclose := False, ff_allocated := False\<rparr>)"
    using fd_unused_spec [OF mid get] ff(2,3) by auto
  ultimately have "fd_abort (st\<lparr>fs_fdp := fdp\<rparr>) None fd = Some (st\<lparr>fs_fdp := fdp'\<rparr>)"
    using ff(1) by (simp add: fd_abort_def Let_def)
  then show ?thesis using that u n by (auto simp: ff_get_put fun_eq_iff)
qed

lemma abort_file:
  assumes "fd_abort st None fd = Some st'" "fs_files st fp = Some f" "f_count f = 0"
  shows "fd_abort st (Some fp) fd = Some (st'\<lparr>fs_files := (fs_files st)(fp := None)\<rparr>)"
proof -
  obtain ff where ff: "ff_get (fs_fdp st) fd = Some ff" using assms(1) by (cases "ff_get (fs_fdp st) fd") (simp_all add: fd_abort_def)
  let ?fdp = "ff_put (fs_fdp st) fd (ff\<lparr>ff_exclose := False\<rparr>)"
  have u: "fd_isused ?fdp fd = Some True"
    using assms(1) ff by (cases "fd_isused ?fdp fd") (simp_all add: fd_abort_def Let_def split: if_splits)
  obtain fdp where "fd_unused ?fdp fd = Some fdp" "st' = st\<lparr>fs_fdp := fdp\<rparr>"
    using assms(1) ff u by (cases "fd_unused ?fdp fd") (simp_all add: fd_abort_def Let_def)
  then show ?thesis using ff u assms(2,3) by (simp add: fd_abort_def Let_def)
qed

text \<open>The result of a call that returns; a call that waits for another thread has none here.\<close>

definition settled :: "(fd_state \<times> (outcome + nat)) option \<Rightarrow> (fd_state \<times> (int + nat)) option" where
  "settled r = (case r of
     Some (st, Inl (Returned error)) \<Rightarrow> Some (st, Inl error)
   | Some (st, Inr n) \<Rightarrow> Some (st, Inr n)
   | _ \<Rightarrow> None)"

lemma settled_restart:
  assumes "settled x = Some (st, r)"
  shows "settled (do { (st, r) \<leftarrow> x; Some (st, if r = Inl (Returned ERESTART) then Inl (Returned EINTR) else r) }) =
    Some (st, restarted r)"
  using assms by (cases x) (auto simp: settled_def restarted_def split: sum.splits outcome.splits)

lemma fd_dupopen_refines:
  assumes ok: "fs_ok st" and max: "unat (maxfiles p) \<le> 2 ^ 30" and e: "error = EDUPFD \<or> error = EMOVEFD"
  shows "\<exists>st' r. settled (fd_dupopen p st old mode error) = Some (st', r) \<and> fs_ok st' \<and>
    posix_dupopen p (posix_of st) old mode (error = EMOVEFD) = (posix_of st', r)"
proof (rule getfile_cases [OF ok, of old])
  assume "fds_of (fs_fdp st) old = None" "\<And>p. fd_getfile p st old = Some (st, None)"
  then show ?thesis using ok by (intro exI [of _ st] exI [of _ "Inl 9"]) (simp add: fd_dupopen_def posix_of_def settled_def)
next
  fix ff fp
  assume ff: "ff_get (fs_fdp st) old = Some ff" "ff_file ff = Some fp"
    and m: "fds_of (fs_fdp st) old = Some (fp, ff_exclose ff)"
    and g: "\<And>p. fd_getfile p st old = Some (holding st old ff, Some fp)"
  have lim: "fd_lim p \<le> 2 ^ 30" using fd_lim_le [of p] max by simp
  obtain f where f: "fs_files st fp = Some f" using tally_file [OF fs_okD(3) [OF ok] m] .
  have h: "ff_get (fs_fdp (holding st old ff)) old = Some (ff\<lparr>ff_refcnt := 1\<rparr>)" using getfile_holding(3) [OF ok ff] by simp
  obtain st1 st' r where d: "fd_dup p (holding st old ff) fp (int 0) (ff_exclose ff) = Some (st1, r)"
    "fd_putfile p st1 old = Some (st', Returned 0)" "fs_ok st'" "holding st' old ff = st1" "ff_get (fs_fdp st') old = Some ff"
    "posix_dup (fd_lim p) (posix_of st) old 0 (ff_exclose ff) = (posix_of st', r)"
    using dup_refines [OF ok lim ff] by metis
  obtain st2 error2 where c: "fd_close p st1 old = Some (st2, Returned error2)" "fs_ok st2"
    "posix_drop p (posix_of st') old = (posix_of st2, error2)"
    using close_refines [OF d(3,5) ff(2)] d(4) by metis
  obtain st0 where s0: "fd_putfile p (holding st old ff) old = Some (st0, Returned 0)" "fs_ok st0" "posix_of st0 = posix_of st"
    using putfile_holding [OF ok ff] by metis
  note simps = fd_dupopen_def settled_def g h f
  have px: "posix_dup (fd_lim p) (fds_of (fs_fdp st), fs_files st, fs_calls st) old 0 (ff_exclose ff) = (posix_of st', r)"
    using d(6) by (simp add: posix_of_def)
  consider "error = EDUPFD" "(mode AND FREADWRITE) OR f_flag f \<noteq> f_flag f"
    | "error = EDUPFD" "(mode AND FREADWRITE) OR f_flag f = f_flag f" | "error = EMOVEFD" using e by auto
  then show ?thesis
  proof cases
    case 1
    then show ?thesis using s0 m f by (intro exI [of _ st0] exI [of _ "Inl 13"]) (simp add: simps posix_of_def)
  next
    case 2
    then show ?thesis using d m f px by (intro exI [of _ st'] exI [of _ r]) (cases r, simp_all add: simps posix_of_def)
  next
    case 3
    then show ?thesis
    proof (cases r)
      case (Inl error)
      then show ?thesis using 3 d m f px by (intro exI [of _ st'] exI [of _ r]) (simp add: simps posix_of_def)
    next
      case (Inr new)
      then show ?thesis using 3 d c m f px by (intro exI [of _ st2] exI [of _ r]) (simp add: simps posix_of_def)
    qed
  qed
qed

text \<open>What the pool of files returns when it has the file \<open>fp\<close> with the contents \<open>f\<close>: never a file in use.\<close>

definition file_pool :: "fd_state \<Rightarrow> nat \<Rightarrow> file_t \<Rightarrow> (nat \<times> file_t) option" where
  "file_pool st fp f = (if fs_files st fp = None \<and> f_count f = 0 then Some (fp, f) else None)"

text \<open>A descriptor that \<open>fd_allocfile\<close> has allocated in \<open>st\<close>, with its file, before it becomes visible.\<close>

definition half_open :: "fd_state \<Rightarrow> nat \<Rightarrow> nat \<Rightarrow> file_t \<Rightarrow> fdfile \<Rightarrow> filedesc \<Rightarrow> bool" where
  "half_open st fp fd f ff fdp \<longleftrightarrow> fd_wf fdp \<and> ff_get fdp = (ff_get (fs_fdp st))(fd \<mapsto> ff) \<and>
     ff_allocated ff \<and> ff_file ff = None \<and> ff_refcnt ff = 0 \<and> f_count f = 0 \<and>
     fds_of (fs_fdp st) fd = None \<and> fs_files st fp = None"

lemma allocfile_cases:
  assumes ok: "fs_ok st" and max: "unat (maxfiles p) \<le> 2 ^ 30"
  obtains (emfile) st' where "least_fd (fds_of (fs_fdp st)) 0 (fd_lim p) = None" "fd_allocfile p (file_pool st fp f) st = Some (st', Inl EMFILE)"
      "fs_ok st'" "posix_of st' = posix_of st"
  | (enfile) fd st' where "least_fd (fds_of (fs_fdp st)) 0 (fd_lim p) = Some fd" "fs_files st fp \<noteq> None \<or> f_count f \<noteq> 0"
      "fd_allocfile p (file_pool st fp f) st = Some (st', Inl ENFILE)" "fs_ok st'" "posix_of st' = posix_of st"
  | (got) fd f' ff fdp where "least_fd (fds_of (fs_fdp st)) 0 (fd_lim p) = Some fd" "fs_files st fp = None" "f_count f = 0"
      "f' = f\<lparr>f_cred := l_cred p, f_flag := f_flag f AND NOT FSCAN, f_advice := 0, f_offset := 0\<rparr>"
      "fd_allocfile p (file_pool st fp f) st = Some (st\<lparr>fs_fdp := fdp, fs_files := (fs_files st)(fp \<mapsto> f')\<rparr>, Inr (fp, fd))"
      "half_open st fp fd f' ff fdp" "\<not> ff_exclose ff"
proof -
  note wf = fs_okD(1) [OF ok] and q = fs_okD(2) [OF ok] and t = fs_okD(3) [OF ok]
  have "fd_lim p \<le> 2 ^ 30" using fd_lim_le [of p] max by simp
  then obtain r where r: "lowest_free (fs_fdp st) (fd_lim p) 0 r" "allocated p (fs_fdp st) 0 r"
    using alloc_loop_spec [OF wf] by blast
  have least: "least_fd (fds_of (fs_fdp st)) 0 (fd_lim p) = r"
    using least_fd_lowest [of "fs_fdp st" "fds_of (fs_fdp st)" "fd_lim p" 0 r] r(1) used_fds [OF wf q] by simp
  show ?thesis
  proof (cases r)
    case None
    then obtain fdp' where a: "alloc_loop p (fs_fdp st) 0 = Some (fdp', Inl EMFILE)" "fd_wf fdp'" "ff_get fdp' = ff_get (fs_fdp st)"
      using r(2) by (auto simp: allocated_def)
    then show ?thesis using emfile [of "st\<lparr>fs_fdp := fdp'\<rparr>"] least None fs_ok_fdp [OF ok a(2,3)] by (simp add: fd_allocfile_def posix_of_def)
  next
    case (Some fd)
    let ?new = "(slot_or_new (fs_fdp st) fd)\<lparr>ff_allocated := True\<rparr>"
    obtain fdp' where a: "alloc_loop p (fs_fdp st) 0 = Some (fdp', Inr fd)" "fd_wf fdp'" "ff_get fdp' = (ff_get (fs_fdp st))(fd \<mapsto> ?new)"
      using r(2) Some by (auto simp: allocated_def)
    have fd: "fds_of (fs_fdp st) fd = None" "\<not> used_slot (fs_fdp st) fd"
      using r(1) Some used_fds [OF wf q] by (simp_all add: lowest_free_def del: not_None_eq)
    note new = slot_or_new_free [OF wf q fd(2)]
    show ?thesis
    proof (cases "fs_files st fp = None \<and> f_count f = 0")
      case True
      let ?f = "f\<lparr>f_cred := l_cred p, f_flag := f_flag f AND NOT FSCAN, f_advice := 0, f_offset := 0\<rparr>"
      have "half_open st fp fd ?f ?new fdp'" using a(2,3) fd(1) new True by (simp add: half_open_def)
      then show ?thesis using got [of fd ?f fdp' ?new] least Some True a(1) new(2) by (simp add: fd_allocfile_def file_pool_def)
    next
      case False
      have newff: "ff_get fdp' fd = Some ?new" "ff_allocated ?new" "ff_file ?new = None" using a(3) new(1) by simp_all
      obtain fdp2 where b: "fd_abort (st\<lparr>fs_fdp := fdp'\<rparr>) None fd = Some (st\<lparr>fs_fdp := fdp2\<rparr>)" "fd_wf fdp2"
        "ff_get fdp2 = (ff_get fdp')(fd \<mapsto> ?new\<lparr>ff_exclose := False, ff_allocated := False\<rparr>)"
        using abort_spec [OF a(2) newff] .
      then have get: "ff_get fdp2 = (ff_get (fs_fdp st))(fd \<mapsto> ?new\<lparr>ff_exclose := False, ff_allocated := False\<rparr>)"
        using a(3) by simp
      then have fds: "fds_of fdp2 = fds_of (fs_fdp st)" using fds_upd [OF get] new(1) fd(1) by auto
      then have "fs_ok (st\<lparr>fs_fdp := fdp2\<rparr>)"
        using b(2) closed_quiet_upd [OF q get] new(3) t by (simp add: fs_ok_def)
      then show ?thesis using enfile [of fd "st\<lparr>fs_fdp := fdp2\<rparr>"] least Some False a(1) b(1) fds
        by (auto simp: fd_allocfile_def file_pool_def posix_of_def)
    qed
  qed
qed

text \<open>Giving it up, and making it visible.\<close>

lemma half_open_abort:
  assumes ok: "fs_ok st" and h: "half_open st fp fd f ff fdp"
  obtains fdp2 where "fd_abort (st\<lparr>fs_fdp := fdp, fs_files := (fs_files st)(fp \<mapsto> f), fs_calls := calls\<rparr>) (Some fp) fd =
      Some (st\<lparr>fs_fdp := fdp2, fs_calls := calls\<rparr>)"
    "fs_ok (st\<lparr>fs_fdp := fdp2, fs_calls := calls\<rparr>)" "fds_of fdp2 = fds_of (fs_fdp st)"
proof -
  let ?s = "st\<lparr>fs_files := (fs_files st)(fp \<mapsto> f), fs_calls := calls\<rparr>" and ?ff = "ff\<lparr>ff_exclose := False, ff_allocated := False\<rparr>"
  obtain fdp2 where b: "fd_abort (?s\<lparr>fs_fdp := fdp\<rparr>) None fd = Some (?s\<lparr>fs_fdp := fdp2\<rparr>)" "fd_wf fdp2" "ff_get fdp2 = (ff_get fdp)(fd \<mapsto> ?ff)"
    using abort_spec [of fdp fd ff ?s] h by (auto simp: half_open_def)
  have get: "ff_get fdp2 = (ff_get (fs_fdp st))(fd \<mapsto> ?ff)" using b(3) h by (simp add: half_open_def)
  have fds: "fds_of fdp2 = fds_of (fs_fdp st)" using fds_upd [OF get] h by (auto simp: half_open_def)
  have "fs_ok (st\<lparr>fs_fdp := fdp2, fs_calls := calls\<rparr>)"
    using b(2) closed_quiet_upd [OF fs_okD(2) [OF ok] get] h fs_okD(3) [OF ok] fds by (simp add: fs_ok_def half_open_def)
  moreover have "(fs_files st)(fp := None) = fs_files st" using h by (auto simp: half_open_def)
  moreover have "fd_abort (?s\<lparr>fs_fdp := fdp\<rparr>) (Some fp) fd = Some (?s\<lparr>fs_fdp := fdp2, fs_files := (fs_files ?s)(fp := None)\<rparr>)"
    using abort_file [OF b(1), of fp f] h by (simp add: half_open_def)
  ultimately show ?thesis using that [of fdp2] fds by (cases st) simp
qed

lemma half_open_affix:
  assumes ok: "fs_ok st" and h: "half_open st fp fd f ff fdp"
  obtains fdp2 where "fd_affix (st\<lparr>fs_fdp := fdp, fs_files := (fs_files st)(fp \<mapsto> f), fs_calls := calls\<rparr>) fp fd =
      Some (st\<lparr>fs_fdp := fdp2, fs_files := (fs_files st)(fp \<mapsto> f\<lparr>f_count := 1\<rparr>), fs_calls := calls\<rparr>)"
    "fs_ok (st\<lparr>fs_fdp := fdp2, fs_files := (fs_files st)(fp \<mapsto> f\<lparr>f_count := 1\<rparr>), fs_calls := calls\<rparr>)"
    "fds_of fdp2 = (fds_of (fs_fdp st))(fd \<mapsto> (fp, ff_exclose ff))"
proof -
  let ?s = "st\<lparr>fs_fdp := fdp, fs_files := (fs_files st)(fp \<mapsto> f), fs_calls := calls\<rparr>" and ?ff = "ff\<lparr>ff_file := Some fp\<rparr>"
  have ff: "ff_get fdp fd = Some ff" "ff_allocated ff" "ff_file ff = None" "f_count f = 0" using h by (simp_all add: half_open_def)
  have a: "fd_affix ?s fp fd = Some (?s\<lparr>fs_fdp := ff_put fdp fd ?ff, fs_files := (fs_files ?s)(fp \<mapsto> f\<lparr>f_count := 1\<rparr>)\<rparr>)"
    "fd_wf (ff_put fdp fd ?ff)" using affix_spec [of ?s fd ff fp f] h ff by (simp_all add: half_open_def)
  have get: "ff_get (ff_put fdp fd ?ff) = (ff_get (fs_fdp st))(fd \<mapsto> ?ff)"
    using ff_get_bound [OF ff(1)] h by (auto simp: ff_get_put fun_eq_iff half_open_def)
  have fds: "fds_of (ff_put fdp fd ?ff) = (fds_of (fs_fdp st))(fd \<mapsto> (fp, ff_exclose ff))" using fds_upd [OF get] by simp
  have "quiet (ff_put fdp fd ?ff)" using closed_quiet_upd [OF fs_okD(2) [OF ok] get] h by (simp add: half_open_def)
  moreover have "tally (fds_of (ff_put fdp fd ?ff)) ((fs_files st)(fp \<mapsto> f\<lparr>f_count := 1\<rparr>))"
    unfolding fds using tally_fresh [OF fs_okD(3) [OF ok], of fp fd "f\<lparr>f_count := 1\<rparr>"] h by (simp add: half_open_def)
  ultimately show ?thesis using that [of "ff_put fdp fd ?ff"] a fds by (simp add: fs_ok_def)
qed

lemma half_open_exclose:
  assumes "half_open st fp fd f ff fdp"
  obtains fdp2 where "fd_set_exclose fdp fd True = Some fdp2" "half_open st fp fd f (ff\<lparr>ff_exclose := True\<rparr>) fdp2"
proof -
  have ff: "ff_get fdp fd = Some ff" using assms by (simp add: half_open_def)
  let ?fdp = "(ff_put fdp fd (ff\<lparr>ff_exclose := True\<rparr>))\<lparr>fd_exclose := True\<rparr>"
  have "fd_set_exclose fdp fd True = Some ?fdp" using ff by (simp add: fd_set_exclose_def)
  moreover have "fd_wf ?fdp" using assms fd_wf_put_slot [OF _ ff, of "ff\<lparr>ff_exclose := True\<rparr>"] by (simp add: half_open_def)
  ultimately show ?thesis
    using that [of ?fdp] assms ff_get_bound [OF ff] by (auto simp: half_open_def ff_get_put fun_eq_iff)
qed

lemma half_open_file: "half_open st fp fd f ff fdp \<Longrightarrow> f_count f' = 0 \<Longrightarrow> half_open st fp fd f' ff fdp"
  by (simp add: half_open_def)

text \<open>\<open>open_setfp\<close> on a descriptor that is not visible yet: the lock could not be had, or the file is set up.\<close>

lemma setfp_cases:
  assumes ok: "fs_ok st" and h: "half_open st fp fd f ff fdp" "\<not> ff_exclose ff"
  defines "s \<equiv> st\<lparr>fs_fdp := fdp, fs_files := (fs_files st)(fp \<mapsto> f)\<rparr>"
  obtains (refused) fdp2 where "wants_lock flags" "advlock \<noteq> 0"
      "open_setfp advlock s fp fd flags = Some (st\<lparr>fs_fdp := fdp2, fs_calls := fs_calls st @ lock_calls fp flags @ [Vn_close fp]\<rparr>, advlock)"
      "fs_ok (st\<lparr>fs_fdp := fdp2, fs_calls := fs_calls st @ lock_calls fp flags @ [Vn_close fp]\<rparr>)" "fds_of fdp2 = fds_of (fs_fdp st)"
  | (set) fdp2 f2 where "wants_lock flags \<longrightarrow> advlock = 0"
      "open_setfp advlock s fp fd flags =
         Some (st\<lparr>fs_fdp := fdp2, fs_files := (fs_files st)(fp \<mapsto> f2), fs_calls := fs_calls st @ lock_calls fp flags\<rparr>, 0)"
      "f2 = f\<lparr>f_flag := f_flag (opened_file p flags), f_type := DTYPE_VNODE, f_ops := True\<rparr>"
      "half_open st fp fd f2 (ff\<lparr>ff_exclose := flags AND O_CLOEXEC \<noteq> 0\<rparr>) fdp2"
proof -
  let ?f = "f\<lparr>f_flag := flags AND FMASK, f_type := DTYPE_VNODE, f_ops := True\<rparr>"
  let ?f2 = "f\<lparr>f_flag := f_flag (opened_file p flags), f_type := DTYPE_VNODE, f_ops := True\<rparr>"
  have fs: "fs_files s fp = Some f" "f_count f = 0" "fs_fdp s = fdp" using h(1) by (simp_all add: s_def half_open_def)
  have hf: "half_open st fp fd ?f ff fdp" by (rule half_open_file [OF h(1)]) (use fs in simp)
  show ?thesis
  proof (cases "wants_lock flags \<and> advlock \<noteq> 0")
    case True
    let ?calls = "fs_calls st @ lock_calls fp flags @ [Vn_close fp]"
    obtain fdp2 where "fd_abort (st\<lparr>fs_fdp := fdp, fs_files := (fs_files st)(fp \<mapsto> ?f), fs_calls := ?calls\<rparr>) (Some fp) fd =
        Some (st\<lparr>fs_fdp := fdp2, fs_calls := ?calls\<rparr>)" "fs_ok (st\<lparr>fs_fdp := fdp2, fs_calls := ?calls\<rparr>)" "fds_of fdp2 = fds_of (fs_fdp st)"
      using half_open_abort [OF ok hf] .
    then show ?thesis using refused [of fdp2] True fs by (simp add: open_setfp_def s_def lock_calls_def)
  next
    case False
    obtain fdp2 where e: "(if flags AND O_CLOEXEC \<noteq> 0 then fd_set_exclose fdp fd True else Some fdp) = Some fdp2"
      "half_open st fp fd f (ff\<lparr>ff_exclose := flags AND O_CLOEXEC \<noteq> 0\<rparr>) fdp2"
    proof (cases "flags AND O_CLOEXEC \<noteq> 0")
      case True
      obtain fdp2 where "fd_set_exclose fdp fd True = Some fdp2" "half_open st fp fd f (ff\<lparr>ff_exclose := True\<rparr>) fdp2"
        using half_open_exclose [OF h(1)] .
      then show ?thesis using that [of fdp2] True by simp
    next
      case False
      have "ff\<lparr>ff_exclose := False\<rparr> = ff" using h(2) by (cases ff) simp
      then show ?thesis using that [of fdp] False h(1) by simp
    qed
    have "half_open st fp fd ?f2 (ff\<lparr>ff_exclose := flags AND O_CLOEXEC \<noteq> 0\<rparr>) fdp2"
      by (rule half_open_file [OF e(2)]) (use fs in simp)
    moreover have "open_setfp advlock s fp fd flags =
        Some (st\<lparr>fs_fdp := fdp2, fs_files := (fs_files st)(fp \<mapsto> ?f2), fs_calls := fs_calls st @ lock_calls fp flags\<rparr>, 0)"
      using False e(1) unfolding s_def open_setfp_def lock_calls_def opened_file_def Let_def by (cases st, cases f) auto
    ultimately show ?thesis using set [of ?f2 fdp2] False by blast
  qed
qed

lemma do_open_refines:
  assumes ok: "fs_ok st" and max: "unat (maxfiles p) \<le> 2 ^ 30"
  shows "\<exists>st' r. settled (do_open p (file_pool st fp f) env st oflags) = Some (st', r) \<and> fs_ok st' \<and>
    posix_open p fp f env oflags (posix_of st) = (posix_of st', r)"
proof (cases "FFLAGS (oflags AND NOT O_SEARCH) AND FREADWRITE = 0")
  case True
  then show ?thesis using ok by (intro exI [of _ st] exI [of _ "Inl 22"]) (simp add: do_open_def settled_def posix_of_def)
next
  case access: False
  let ?flags = "FFLAGS (oflags AND NOT O_SEARCH)" and ?e = "oe_error env"
  from ok max show ?thesis
  proof (rule allocfile_cases [where st = st and p = p and fp = fp and f = f])
    fix st'
    assume "least_fd (fds_of (fs_fdp st)) 0 (fd_lim p) = None" "fd_allocfile p (file_pool st fp f) st = Some (st', Inl EMFILE)"
      "fs_ok st'" "posix_of st' = posix_of st"
    then show ?thesis using access
      by (intro exI [of _ st'] exI [of _ "Inl 24"]) (simp add: do_open_def settled_def posix_of_def)
  next
    fix fd st'
    assume "least_fd (fds_of (fs_fdp st)) 0 (fd_lim p) = Some fd" "fs_files st fp \<noteq> None \<or> f_count f \<noteq> 0"
      "fd_allocfile p (file_pool st fp f) st = Some (st', Inl ENFILE)" "fs_ok st'" "posix_of st' = posix_of st"
    then show ?thesis using access
      by (intro exI [of _ st'] exI [of _ "Inl 23"]) (auto simp: do_open_def settled_def posix_of_def)
  next
    fix fd f' ff fdp
    assume least: "least_fd (fds_of (fs_fdp st)) 0 (fd_lim p) = Some fd" and free: "fs_files st fp = None" "f_count f = 0"
      and f': "f' = f\<lparr>f_cred := l_cred p, f_flag := f_flag f AND NOT FSCAN, f_advice := 0, f_offset := 0\<rparr>"
      and al: "fd_allocfile p (file_pool st fp f) st = Some (st\<lparr>fs_fdp := fdp, fs_files := (fs_files st)(fp \<mapsto> f')\<rparr>, Inr (fp, fd))"
      and h: "half_open st fp fd f' ff fdp" "\<not> ff_exclose ff"
    note simps = do_open_def settled_def al least free Let_def
    show ?thesis
    proof (cases "?e = 0")
      case False
      have eq: "st\<lparr>fs_fdp := x, fs_files := y, fs_calls := fs_calls st\<rparr> = st\<lparr>fs_fdp := x, fs_files := y\<rparr>"
        "st\<lparr>fs_fdp := x, fs_calls := fs_calls st\<rparr> = st\<lparr>fs_fdp := x\<rparr>" for x y by simp_all
      obtain fdp2 where a: "fd_abort (st\<lparr>fs_fdp := fdp, fs_files := (fs_files st)(fp \<mapsto> f')\<rparr>) (Some fp) fd = Some (st\<lparr>fs_fdp := fdp2\<rparr>)"
        "fs_ok (st\<lparr>fs_fdp := fdp2\<rparr>)" "fds_of fdp2 = fds_of (fs_fdp st)"
        using half_open_abort [OF ok h(1), where calls = "fs_calls st"] unfolding eq .
      show ?thesis
      proof (cases "(?e = EDUPFD \<or> ?e = EMOVEFD) \<and> 0 \<le> oe_dupfd env")
        case True
        obtain st' r where d: "settled (fd_dupopen p (st\<lparr>fs_fdp := fdp2\<rparr>) (nat (oe_dupfd env)) ?flags ?e) = Some (st', r)" "fs_ok st'"
          "posix_dupopen p (posix_of (st\<lparr>fs_fdp := fdp2\<rparr>)) (nat (oe_dupfd env)) ?flags (?e = EMOVEFD) = (posix_of st', r)"
          using fd_dupopen_refines [OF a(2) max] True by blast
        have "do_open p (file_pool st fp f) env st oflags = do {
            (st, r) \<leftarrow> fd_dupopen p (st\<lparr>fs_fdp := fdp2\<rparr>) (nat (oe_dupfd env)) ?flags ?e;
            Some (st, if r = Inl (Returned ERESTART) then Inl (Returned EINTR) else r) }"
          unfolding do_open_def Let_def using access al False True a(1) by (simp only: simp_thms if_True if_False bind.bind_lunit prod.case sum.case)
        then have "settled (do_open p (file_pool st fp f) env st oflags) = Some (st', restarted r)" using settled_restart [OF d(1)] by (simp only:)
        moreover have "posix_open p fp f env oflags (posix_of st) = apsnd restarted (posix_of st', r)"
          using d(3) a(3) True least free access by (simp add: posix_of_def Let_def)
        ultimately show ?thesis using d(2) by auto
      next
        case no: False
        then show ?thesis using False a access
          by (intro exI [of _ "st\<lparr>fs_fdp := fdp2\<rparr>"] exI [of _ "restarted (Inl ?e)"]) (auto simp: simps posix_of_def restarted_def)
      qed
    next
      case True
      from ok h show ?thesis
      proof (rule setfp_cases [where p = p and flags = ?flags and advlock = "oe_advlock env"])
        fix fdp2
        let ?st = "st\<lparr>fs_fdp := fdp2, fs_calls := fs_calls st @ lock_calls fp ?flags @ [Vn_close fp]\<rparr>"
        assume "wants_lock ?flags" "oe_advlock env \<noteq> 0" "fs_ok ?st" "fds_of fdp2 = fds_of (fs_fdp st)"
          "open_setfp (oe_advlock env) (st\<lparr>fs_fdp := fdp, fs_files := (fs_files st)(fp \<mapsto> f')\<rparr>) fp fd ?flags = Some (?st, oe_advlock env)"
        then show ?thesis using True access
          by (intro exI [of _ ?st] exI [of _ "Inl (oe_advlock env)"]) (simp add: simps posix_of_def)
      next
        fix fdp2 f2
        let ?s = "st\<lparr>fs_fdp := fdp2, fs_files := (fs_files st)(fp \<mapsto> f2), fs_calls := fs_calls st @ lock_calls fp ?flags\<rparr>"
        assume lock: "wants_lock ?flags \<longrightarrow> oe_advlock env = 0"
          and set: "open_setfp (oe_advlock env) (st\<lparr>fs_fdp := fdp, fs_files := (fs_files st)(fp \<mapsto> f')\<rparr>) fp fd ?flags = Some (?s, 0)"
          and f2: "f2 = f'\<lparr>f_flag := f_flag (opened_file p ?flags), f_type := DTYPE_VNODE, f_ops := True\<rparr>"
          and h2: "half_open st fp fd f2 (ff\<lparr>ff_exclose := ?flags AND O_CLOEXEC \<noteq> 0\<rparr>) fdp2"
        let ?st = "\<lambda>fdp. st\<lparr>fs_fdp := fdp, fs_files := (fs_files st)(fp \<mapsto> f2\<lparr>f_count := 1\<rparr>), fs_calls := fs_calls st @ lock_calls fp ?flags\<rparr>"
        obtain fdp3 where x: "fd_affix ?s fp fd = Some (?st fdp3)" "fs_ok (?st fdp3)"
          "fds_of fdp3 = (fds_of (fs_fdp st))(fd \<mapsto> (fp, ff_exclose (ff\<lparr>ff_exclose := ?flags AND O_CLOEXEC \<noteq> 0\<rparr>)))"
          using half_open_affix [OF ok h2, where calls = "fs_calls st @ lock_calls fp ?flags"] .
        have "f2\<lparr>f_count := 1\<rparr> = opened_file p ?flags" unfolding f2 f' opened_file_def by (cases f) simp
        then show ?thesis using True access lock set x
          by (intro exI [of _ "?st fdp3"] exI [of _ "Inr fd"])
            (auto simp: simps posix_of_def)
      qed
    qed
  qed
qed

section \<open>Sequences of calls\<close>

datatype fd_call = Open nat file_t open_env u32 | Close nat | Dup nat | Dup2 nat nat u32 | Dupfd nat nat bool | Setfd nat bool | Getfd nat

text \<open>A call that returns; a call that waits for another thread has no result here.\<close>

definition returned :: "(fd_state \<times> outcome) option \<Rightarrow> (fd_state \<times> (int + nat)) option" where
  "returned r = (case r of Some (st, Returned error) \<Rightarrow> Some (st, Inl error) | _ \<Rightarrow> None)"

fun fd_run :: "proc \<Rightarrow> fd_call \<Rightarrow> fd_state \<Rightarrow> (fd_state \<times> (int + nat)) option" where
  "fd_run p (Open fp f env flags) st =
     settled (do_open p (file_pool st fp f) env st flags)"
| "fd_run p (Close fd) st = returned (sys_close p st fd)"
| "fd_run p (Dup fd) st = sys_dup p st fd"
| "fd_run p (Dup2 fd to flags) st = retval (dodup p st fd to flags)"
| "fd_run p (Dupfd fd newmin c) st = fcntl_dupfd p st fd newmin c"
| "fd_run p (Setfd fd c) st = map_option (apsnd Inl) (fcntl_setfd p st fd c)"
| "fd_run p (Getfd fd) st = map_option (apsnd (map_sum id of_bool)) (fcntl_getfd p st fd)"

fun posix_run :: "proc \<Rightarrow> fd_call \<Rightarrow> posix \<Rightarrow> posix \<times> (int + nat)" where
  "posix_run p (Open fp f env flags) s = posix_open p fp f env flags s"
| "posix_run p (Close fd) s = apsnd (\<lambda>error. Inl (if error = - 3 then 4 else error)) (posix_drop p s fd)"
| "posix_run p (Dup fd) s = posix_dup (fd_lim p) s fd 0 False"
| "posix_run p (Dup2 fd to flags) s = posix_dup2 p s fd to flags"
| "posix_run p (Dupfd fd newmin c) s = posix_dupfd p s fd newmin c"
| "posix_run p (Setfd fd c) s = apsnd Inl (posix_setfd s fd c)"
| "posix_run p (Getfd fd) s = (s, case fst s fd of None \<Rightarrow> Inl EBADF | Some (_, c) \<Rightarrow> Inr (of_bool c))"

text \<open>The flag of \<open>dup3\<close> that \<open>fd_dup2\<close> does not know.\<close>

fun no_nosigpipe :: "fd_call \<Rightarrow> bool" where
  "no_nosigpipe (Dup2 fd to flags) \<longleftrightarrow> flags AND FNOSIGPIPE = 0"
| "no_nosigpipe _ \<longleftrightarrow> True"

lemma fd_run_refines:
  assumes ok: "fs_ok st" and max: "unat (maxfiles p) \<le> 2 ^ 30"
  shows "\<exists>st' r. fd_run p c st = Some (st', r) \<and> fs_ok st' \<and> (no_nosigpipe c \<longrightarrow> posix_run p c (posix_of st) = (posix_of st', r))"
proof (cases c)
  case (Open fp f env flags)
  then show ?thesis using do_open_refines [OF ok max] by simp
next
  case (Close fd)
  then show ?thesis using sys_close_refines [OF ok, of p fd] by (auto simp: returned_def)
next
  case (Dup fd)
  then show ?thesis using sys_dup_refines [OF ok max] by simp
next
  case (Dup2 fd to flags)
  then show ?thesis using dodup_refines [OF ok max, of fd to flags] by simp
next
  case (Dupfd fd newmin c)
  then show ?thesis using fcntl_dupfd_refines [OF ok max] by simp
next
  case (Setfd fd c)
  then show ?thesis using fcntl_setfd_refines [OF ok, of p fd c] by auto
next
  case (Getfd fd)
  then show ?thesis
    using fcntl_getfd_refines [OF ok, of p fd] by (cases "fds_of (fs_fdp st) fd") (auto simp: posix_of_def)
qed

fun fd_runs :: "proc \<Rightarrow> fd_call list \<Rightarrow> fd_state \<Rightarrow> (fd_state \<times> (int + nat) list) option" where
  "fd_runs p [] st = Some (st, [])"
| "fd_runs p (c # cs) st = do { (st, r) \<leftarrow> fd_run p c st; (st, rs) \<leftarrow> fd_runs p cs st; Some (st, r # rs) }"

fun posix_runs :: "proc \<Rightarrow> fd_call list \<Rightarrow> posix \<Rightarrow> posix \<times> (int + nat) list" where
  "posix_runs p [] s = (s, [])"
| "posix_runs p (c # cs) s = (let (s, r) = posix_run p c s; (s, rs) = posix_runs p cs s in (s, r # rs))"

lemma fd_runs_refine:
  assumes "fs_ok st" "unat (maxfiles p) \<le> 2 ^ 30"
  shows "\<exists>st' rs. fd_runs p cs st = Some (st', rs) \<and> fs_ok st' \<and>
    (list_all no_nosigpipe cs \<longrightarrow> posix_runs p cs (posix_of st) = (posix_of st', rs))"
  using assms(1)
proof (induction cs arbitrary: st)
  case (Cons c cs)
  obtain st1 r where c: "fd_run p c st = Some (st1, r)" "fs_ok st1"
    "no_nosigpipe c \<longrightarrow> posix_run p c (posix_of st) = (posix_of st1, r)"
    using fd_run_refines [OF Cons.prems assms(2)] by blast
  obtain st' rs where "fd_runs p cs st1 = Some (st', rs)" "fs_ok st'"
    "list_all no_nosigpipe cs \<longrightarrow> posix_runs p cs (posix_of st1) = (posix_of st', rs)"
    using Cons.IH [OF c(2)] by blast
  then show ?case using c by simp
qed simp

lemma fd_runs_length: "fd_runs p cs st = Some (st', rs) \<Longrightarrow> length rs = length cs"
  by (induction cs arbitrary: st rs) (auto simp: bind_eq_Some_conv)

text \<open>A new process has no descriptor open.\<close>

definition new_state :: fd_state where
  "new_state = \<lparr>fs_fdp = fd_init, fs_files = Map.empty, fs_calls = []\<rparr>"

lemma init_slot: "ff_get fd_init fd = None \<or> ff_get fd_init fd = Some fdfile_ctor"
  by (cases "ff_get fd_init fd") (auto simp: ff_get_Some_iff fd_init_def filedesc_ctor_def nth_append split: if_splits)

lemma new_state_fds: "fds_of (fs_fdp new_state) = Map.empty"
proof
  fix fd
  show "fds_of (fs_fdp new_state) fd = None"
    using init_slot [of fd] by (elim disjE) (simp_all add: fds_of_def fdfile_ctor_def new_state_def)
qed

lemma new_state_ok: "fs_ok new_state"
proof -
  have "quiet fd_init" using init_slot unfolding quiet_def by (metis fdfile.simps(2,3) fdfile_ctor_def option.distinct(1) option.inject)
  then show ?thesis using fd_wf_init new_state_fds by (simp add: fs_ok_def tally_def users_def) (simp add: new_state_def)
qed

lemma fs_ok_checkmaps: "fd_wf fdp \<Longrightarrow> fd_checkmaps fdp"
proof -
  assume wf: "fd_wf fdp"
  have n: "length (ffs_of fdp) = nfiles fdp" using wf by (simp add: fd_wf_def shape_ok_def)
  have "case ffs_of fdp ! fd of None \<Rightarrow> fd_isused fdp fd = Some False
      | Some ff \<Rightarrow> ff_file ff \<noteq> None \<longrightarrow> fd_isused fdp fd = Some True" if fd: "fd < nfiles fdp" for fd
  proof (cases "ffs_of fdp ! fd")
    case None
    then have "\<not> used_slot fdp fd" by (auto simp: used_slot_def ff_get_Some_iff)
    then show ?thesis using None free_bit [OF wf fd] by simp
  next
    case (Some ff)
    then have "ff_get fdp fd = Some ff" using fd n by (simp add: ff_get_Some_iff)
    then have "ff_file ff \<noteq> None \<Longrightarrow> used_slot fdp fd" using slot_open [OF wf] by (auto simp: used_slot_def)
    then show ?thesis using Some used_bit [OF wf] by auto
  qed
  then show ?thesis using n by (fastforce simp: fd_checkmaps_def list_all_iff split: option.splits)
qed

end
