(* ===== verification/Fd_Exec.thy ===== *)
theory Fd_Exec
  imports Fd_System
begin

text \<open>
  Copying the descriptors for \<open>fork\<close> and closing them on \<open>exec\<close>.
\<close>

section \<open>The table of the copy\<close>

lemma copy_size_spec:
  "table_size n \<Longrightarrow> 20 \<le> l \<Longrightarrow> l < int n \<Longrightarrow> table_size (copy_size n l) \<and> l < int (copy_size n l) \<and> copy_size n l \<le> n"
proof (induction n l rule: copy_size.induct)
  case (1 n l)
  show ?case
  proof (cases "100 \<le> n \<and> l * 2 < int n")
    case True
    then obtain j where j: "n = 50 * 2 ^ j" using 1(2) by (auto simp: table_size_def)
    moreover from j True have "j \<noteq> 0" by (cases j) auto
    ultimately obtain k where k: "n = 50 * 2 ^ Suc k" using not0_implies_Suc by blast
    have "table_size (n div 2)" using k by (auto simp: table_size_def)
    moreover have "l < int (n div 2)" using True k by simp
    ultimately show ?thesis using 1 True by (simp add: copy_size.simps [of n l]) linarith
  next
    case False
    then have "copy_size n l = n" by (subst copy_size.simps) auto
    then show ?thesis using 1(2-) by simp
  qed
qed

text \<open>A structure in which no descriptor is taken.\<close>

lemma copy_table_spec:
  assumes wf: "fd_wf fdp"
  obtains new where "copy_table fdp = Some new" "shape_ok new" "maps_ok new"
    "\<And>fd ff. ff_get new fd = Some ff \<Longrightarrow> ff = fdfile_ctor" "fd_lastfile fdp < int (nfiles new)"
    "fd_freefile new = fd_freefile fdp" "fd_exclose new = fd_exclose fdp" "fd_refcnt new = 1"
proof -
  let ?l = "fd_lastfile fdp"
  let ?base = "filedesc_ctor\<lparr>fd_refcnt := 1\<rparr>"
  have shape: "shape_ok fdp" using wf by (simp add: fd_wf_def)
  have l: "?l < int (nfiles fdp)"
    using wf used_slot_nfiles [OF wf, of "nat ?l"] by (cases "0 \<le> ?l") (auto simp: fd_wf_def marks_ok_def)
  define i where "i = (if ?l < int 20 then 20 else copy_size (nfiles fdp) ?l)"
  have i: "table_size i" "?l < int i" "20 \<le> i" "20 < i \<or> ?l < 20" "i < 2 ^ 31"
    using copy_size_spec [of "nfiles fdp" ?l] shape l table_size_ge unfolding i_def
    by (auto simp: shape_ok_def table_size_def)
  define ffs where "ffs = replicate 6 (Some fdfile_ctor) @ replicate (i - 6) (None :: fdfile option)"
  define maps where "maps = (if i \<le> 1024 then ([0], replicate 32 0, True)
     else (replicate (NDHISLOTS i) (0 :: u32), replicate (NDLOSLOTS i) (0 :: u32), False))"
  define new where "new = \<lparr>fd_dt = \<lparr>dt_nfiles = i, dt_link = [], dt_ff = ffs\<rparr>,
      fd_himap = fst maps, fd_lomap = fst (snd maps), fd_dmaps = snd (snd maps), fd_lastfile = - 1, fd_refcnt = 1,
      fd_freefile = fd_freefile fdp, fd_exclose = fd_exclose fdp\<rparr>"
  have his: "NDHISLOTS i \<le> NDHISLOTS 20 \<longleftrightarrow> i \<le> 1024"
    using NDHISLOTS_le [of i 1] by (simp add: NDHISLOTS_def NDLOSLOTS_def)
  have small: "i = 20" if "?l < int 20" using that by (simp add: i_def)
  have "copy_table fdp = Some new"
    unfolding copy_table_def Let_def i_def [symmetric] his
    using i(3,4) small by (cases "?l < int 20"; cases "i \<le> 1024")
      (simp_all add: fd_dtab_alloc_def new_def ffs_def maps_def filedesc_ctor_def)
  moreover have slot: "ff_get new fd = Some ff \<Longrightarrow> ff = fdfile_ctor" for fd ff
    by (auto simp: ff_get_Some_iff new_def ffs_def nth_append split: if_splits)
  moreover have "shape_ok new"
    using i by (simp add: shape_ok_def new_def maps_def ff_get_def ffs_def nth_append)
  moreover have "\<not> used_slot new fd" for fd using slot by (fastforce simp: used_slot_def fdfile_ctor_def)
  then have "maps_ok new"
    by (auto simp: maps_ok_def hi_ok_def new_def maps_def bm_bit_def)
  ultimately show ?thesis using that i(2) by (simp add: new_def)
qed

section \<open>Copying the descriptors\<close>

text \<open>What the copy of a descriptor refers to: kqueues are not copied.\<close>

definition inherited :: "fd_state \<Rightarrow> nat \<rightharpoonup> nat \<times> bool" where
  "inherited st fd =
     (case fds_of (fs_fdp st) fd of
        None \<Rightarrow> None
      | Some (fp, c) \<Rightarrow>
          (case fs_files st fp of
             None \<Rightarrow> None
           | Some f \<Rightarrow> if f_type f = DTYPE_KQUEUE then None else Some (fp, c)))"

definition is_kqueue :: "fd_state \<Rightarrow> nat \<Rightarrow> bool" where
  "is_kqueue st fd \<longleftrightarrow> fds_of (fs_fdp st) fd \<noteq> None \<and> inherited st fd = None"

abbreviation upto_fd :: "nat \<Rightarrow> (nat \<rightharpoonup> 'a) \<Rightarrow> (nat \<rightharpoonup> 'a)" where
  "upto_fd i m \<equiv> m |` {..<i}"

definition more_refs :: "(nat \<rightharpoonup> nat \<times> bool) \<Rightarrow> (nat \<rightharpoonup> file_t) \<Rightarrow> (nat \<rightharpoonup> file_t)" where
  "more_refs m files fp = map_option (\<lambda>f. f\<lparr>f_count := f_count f + card (users m fp)\<rparr>) (files fp)"

definition tidy :: "filedesc \<Rightarrow> bool" where
  "tidy fdp \<longleftrightarrow> shape_ok fdp \<and> maps_ok fdp \<and>
     (\<forall>fd ff. ff_get fdp fd = Some ff \<longrightarrow> ff_refcnt ff = 0 \<and> (ff_allocated ff \<longleftrightarrow> ff_file ff \<noteq> None) \<and> (\<not> ff_allocated ff \<longrightarrow> \<not> ff_exclose ff))"

definition copy_inv :: "fd_state \<Rightarrow> nat \<Rightarrow> copy_state \<Rightarrow> bool" where
  "copy_inv st i = (\<lambda>(new, files, newlast).
     tidy new \<and> fds_of new = upto_fd i (inherited st) \<and> files = more_refs (upto_fd i (inherited st)) (fs_files st) \<and>
     fd_lastfile (fs_fdp st) < int (nfiles new) \<and> fd_refcnt new = 1 \<and> fd_exclose new = fd_exclose (fs_fdp st) \<and>
     fd_freefile new \<le> fd_freefile (fs_fdp st) \<and> (\<forall>fd<i. is_kqueue st fd \<longrightarrow> fd_freefile new \<le> fd) \<and>
     - 1 \<le> newlast \<and> newlast < int i \<and> (\<forall>fd<i. inherited st fd \<noteq> None \<longrightarrow> int fd \<le> newlast) \<and>
     (0 \<le> newlast \<longrightarrow> inherited st (nat newlast) \<noteq> None))"

lemma tidy_used: "tidy fdp \<Longrightarrow> used_slot fdp fd \<longleftrightarrow> fds_of fdp fd \<noteq> None"
  by (cases "ff_get fdp fd") (auto simp: tidy_def used_slot_def fds_of_def)

lemma upto_Suc_None: "m i = None \<Longrightarrow> upto_fd (Suc i) m = upto_fd i m"
  by (auto simp: restrict_map_def fun_eq_iff less_Suc_eq)

lemma upto_Suc_Some: "m i = Some x \<Longrightarrow> upto_fd (Suc i) m = (upto_fd i m)(i \<mapsto> x)"
  by (auto simp: restrict_map_def fun_eq_iff less_Suc_eq)

lemma more_refs_add:
  assumes "m i = None" "finite (dom m)" "files fp = Some f"
  shows "more_refs (m(i \<mapsto> (fp, c))) files = (more_refs m files)(fp \<mapsto> f\<lparr>f_count := f_count f + card (users m fp) + 1\<rparr>)"
proof -
  have "i \<notin> users m fp" "finite (users m fp)" using assms(1,2) finite_users by (simp_all add: users_def)
  then show ?thesis using assms by (auto simp: more_refs_def fun_eq_iff users_add)
qed

lemma tidy_free_bit: "tidy fdp \<Longrightarrow> fd < nfiles fdp \<Longrightarrow> fds_of fdp fd = None \<Longrightarrow> fd_isused fdp fd = Some False"
proof -
  assume t: "tidy fdp" and n: "fd < nfiles fdp" and u: "fds_of fdp fd = None"
  have "fd div 32 < length (fd_lomap fdp)" using slot_words(1) [OF _ n] t by (simp add: tidy_def)
  moreover have "\<not> bm_bit (fd_lomap fdp) fd" using t tidy_used [OF t] u by (simp add: tidy_def maps_ok_def)
  ultimately show ?thesis using n by (simp add: fd_isused_def bm_bit_def and_bit_of_eq_0)
qed

text \<open>A descriptor is entered in the new structure.\<close>

lemma tidy_enter:
  assumes t: "tidy new" and n: "i < nfiles new" and none: "fds_of new i = None" and nff: "ff_refcnt nff = 0"
  obtains lo hi where "set_bits (fd_lomap new) (fd_himap new) i = Some (lo, hi)"
    "tidy (ff_put (new\<lparr>fd_lomap := lo, fd_himap := hi\<rparr>) i (nff\<lparr>ff_file := Some fp, ff_exclose := c, ff_allocated := True\<rparr>))"
    "fds_of (ff_put (new\<lparr>fd_lomap := lo, fd_himap := hi\<rparr>) i (nff\<lparr>ff_file := Some fp, ff_exclose := c, ff_allocated := True\<rparr>)) =
      (fds_of new)(i \<mapsto> (fp, c))"
proof -
  have shape: "shape_ok new" and maps: "maps_ok new" using t by (simp_all add: tidy_def)
  have len: "i < length (ffs_of new)" using shape n by (simp add: shape_ok_def)
  have "\<not> bm_bit (fd_lomap new) i" using maps tidy_used [OF t] none by (simp add: maps_ok_def)
  then obtain lo hi where b: "set_bits (fd_lomap new) (fd_himap new) i = Some (lo, hi)"
    "length lo = length (fd_lomap new)" "length hi = length (fd_himap new)" "hi_ok lo hi"
    "\<And>k. bm_bit lo k \<longleftrightarrow> k = i \<or> bm_bit (fd_lomap new) k"
    using set_bits_spec [of "fd_lomap new" "fd_himap new" i] maps slot_words [OF shape n] by (metis maps_ok_def)
  let ?ff = "nff\<lparr>ff_file := Some fp, ff_exclose := c, ff_allocated := True\<rparr>"
  let ?new = "ff_put (new\<lparr>fd_lomap := lo, fd_himap := hi\<rparr>) i ?ff"
  have get: "ff_get ?new = (ff_get new)(i \<mapsto> ?ff)" using len by (auto simp: fun_eq_iff ff_get_put)
  have "used_slot ?new k \<longleftrightarrow> k = i \<or> used_slot new k" for k by (auto simp: used_slot_def get)
  then have "maps_ok ?new" using maps b(4,5) by (simp add: maps_ok_def)
  moreover have "shape_ok ?new" using shape by (rule shape_ok_cong) (simp_all add: b(2,3) get)
  ultimately have "tidy ?new" using t nff unfolding tidy_def get by auto
  then show ?thesis using that [OF b(1)] fds_upd [OF get] by simp
qed

lemma slot_aget: "fd < length (ffs_of fdp) \<Longrightarrow> aget (ffs_of fdp) fd = Some (ff_get fdp fd)"
  by (simp add: ff_get_def)

lemma copy_one_inv:
  assumes wf: "fd_wf (fs_fdp st)" and tal: "tally (fds_of (fs_fdp st)) (fs_files st)"
    and i: "int i \<le> fd_lastfile (fs_fdp st)" and inv: "copy_inv st i s"
  shows "\<exists>s'. copy_one (fs_fdp st) i s = Some s' \<and> copy_inv st (Suc i) s'"
proof -
  obtain new files newlast where s: "s = (new, files, newlast)" by (cases s)
  note I = inv [unfolded s copy_inv_def prod.case]
  have t: "tidy new" and fds: "fds_of new = upto_fd i (inherited st)"
    and files: "files = more_refs (upto_fd i (inherited st)) (fs_files st)" using I by simp_all
  have "0 \<le> fd_lastfile (fs_fdp st)" using i by simp
  then have "used_slot (fs_fdp st) (nat (fd_lastfile (fs_fdp st)))" using wf by (simp add: fd_wf_def marks_ok_def)
  then have n: "i < length (ffs_of (fs_fdp st))" using used_slot_bound i by fastforce
  have nn: "i < nfiles new" using I i by simp
  then have nn': "i < length (ffs_of new)" using t by (simp add: tidy_def shape_ok_def)
  have free: "fds_of new i = None" by (simp add: fds)
  note slots = slot_aget [OF n] slot_aget [OF nn']
  show ?thesis
  proof (cases "fds_of (fs_fdp st) i")
    case None
    then have "inherited st i = None" "\<not> is_kqueue st i" by (simp_all add: inherited_def is_kqueue_def)
    then have "copy_inv st (Suc i) s"
      using I unfolding s copy_inv_def prod.case by (auto simp: upto_Suc_None less_Suc_eq)
    moreover have "Option.bind (ff_get (fs_fdp st) i) ff_file = None"
      using None by (simp add: fds_closed open_file_def)
    then have "copy_one (fs_fdp st) i s = Some s"
      using slots tidy_free_bit [OF t nn free] by (simp add: copy_one_def s Let_def)
    ultimately show ?thesis by blast
  next
    case (Some x)
    then obtain fp c where m: "fds_of (fs_fdp st) i = Some (fp, c)" by (cases x) simp
    then obtain ff where ff: "ff_get (fs_fdp st) i = Some ff" "ff_file ff = Some fp" "ff_exclose ff = c" by (rule fds_open)
    obtain f where f: "fs_files st fp = Some f" using tally_file [OF tal m] .
    let ?f = "f\<lparr>f_count := f_count f + card (users (upto_fd i (inherited st)) fp)\<rparr>"
    have "files fp = Some ?f" using f by (simp add: files more_refs_def)
    show ?thesis
    proof (cases "f_type f = DTYPE_KQUEUE")
      case True
      then have "inherited st i = None" using m f by (simp add: inherited_def)
      then have "copy_inv st (Suc i) (if i < fd_freefile new then new\<lparr>fd_freefile := i\<rparr> else new, files, newlast)"
        using I unfolding copy_inv_def prod.case
        by (auto simp: upto_Suc_None less_Suc_eq tidy_def shape_ok_def maps_ok_def fds_of_def [abs_def])
      moreover have "copy_one (fs_fdp st) i s = Some (if i < fd_freefile new then new\<lparr>fd_freefile := i\<rparr> else new, files, newlast)"
        using slots ff \<open>files fp = Some ?f\<close> True by (simp add: copy_one_def s Let_def)
      ultimately show ?thesis by blast
    next
      case False
      then have inh: "inherited st i = Some (fp, c)" using m f by (simp add: inherited_def)
      define nff where "nff = (if 6 \<le> i then fdfile_ctor else the (ff_get new i))"
      have nff: "(if 6 \<le> i then Some fdfile_ctor else ff_get new i) = Some nff" "ff_refcnt nff = 0"
        using t unfolding nff_def by (auto simp: tidy_def shape_ok_def fdfile_ctor_def)
      obtain lo hi where e: "set_bits (fd_lomap new) (fd_himap new) i = Some (lo, hi)"
        "tidy (ff_put (new\<lparr>fd_lomap := lo, fd_himap := hi\<rparr>) i (nff\<lparr>ff_file := Some fp, ff_exclose := c, ff_allocated := True\<rparr>))"
        "fds_of (ff_put (new\<lparr>fd_lomap := lo, fd_himap := hi\<rparr>) i (nff\<lparr>ff_file := Some fp, ff_exclose := c, ff_allocated := True\<rparr>)) =
          (fds_of new)(i \<mapsto> (fp, c))"
        using tidy_enter [OF t nn free nff(2)] .
      let ?new = "ff_put (new\<lparr>fd_lomap := lo, fd_himap := hi\<rparr>) i (nff\<lparr>ff_file := Some fp, ff_exclose := c, ff_allocated := True\<rparr>)"
      let ?files = "files(fp \<mapsto> ?f\<lparr>f_count := f_count ?f + 1\<rparr>)"
      have "?files = more_refs (upto_fd (Suc i) (inherited st)) (fs_files st)"
        unfolding files upto_Suc_Some [of "inherited st", OF inh] using more_refs_add [of "upto_fd i (inherited st)" i "fs_files st" fp f c] f
        by (simp add: finite_subset [of "dom (inherited st) \<inter> {..<i}" "{..<i}"])
      then have "copy_inv st (Suc i) (?new, ?files, int i)"
        using I e(2,3) inh unfolding copy_inv_def prod.case
        by (auto simp: upto_Suc_Some less_Suc_eq is_kqueue_def)
      moreover have "copy_one (fs_fdp st) i s = Some (?new, ?files, int i)"
        using slots ff \<open>files fp = Some ?f\<close> False nff(1) e(1) by (simp add: copy_one_def s Let_def)
      ultimately show ?thesis by blast
    qed
  qed
qed

lemma fd_copy_loop_inv:
  assumes wf: "fd_wf (fs_fdp st)" and tal: "tally (fds_of (fs_fdp st)) (fs_files st)"
  shows "int (i + k) \<le> fd_lastfile (fs_fdp st) + 1 \<Longrightarrow> copy_inv st i s \<Longrightarrow>
    \<exists>s'. fd_copy_loop (fs_fdp st) [i..<i + k] s = Some s' \<and> copy_inv st (i + k) s'"
proof (induction k arbitrary: i s)
  case (Suc k)
  obtain s1 where s1: "copy_one (fs_fdp st) i s = Some s1" "copy_inv st (Suc i) s1"
    using copy_one_inv [OF wf tal _ Suc.prems(2)] Suc.prems(1) by fastforce
  have "[i..<i + Suc k] = i # [Suc i..<Suc i + k]" by (simp add: upt_conv_Cons)
  then show ?case using Suc.IH [OF _ s1(2)] s1(1) Suc.prems(1) by simp
qed simp

lemma tally_more:
  assumes "tally m files" "\<And>fp. files' fp = map_option (\<lambda>f. f\<lparr>f_count := f_count f + n fp\<rparr>) (files fp)"
  shows "tally m files'"
  using assms by (fastforce simp: tally_def)

text \<open>The child has the descriptors of the parent but the kqueues, each file counts the new
  references, and both structures are well formed.\<close>

lemma fd_copy_spec:
  assumes ok: "fs_ok st"
  obtains new files where "fd_copy st = Some (new, files)" "fds_of new = inherited st"
    "files = more_refs (inherited st) (fs_files st)" "fd_refcnt new = 1" "fd_exclose new = fd_exclose (fs_fdp st)"
    "fs_ok (st\<lparr>fs_fdp := new, fs_files := files\<rparr>)" "fs_ok (st\<lparr>fs_files := files\<rparr>)"
proof -
  let ?l = "fd_lastfile (fs_fdp st)"
  note wf = fs_okD(1) [OF ok] and q = fs_okD(2) [OF ok] and tal = fs_okD(3) [OF ok]
  obtain new0 where c: "copy_table (fs_fdp st) = Some new0" "shape_ok new0" "maps_ok new0"
    "\<And>fd ff. ff_get new0 fd = Some ff \<Longrightarrow> ff = fdfile_ctor" "?l < int (nfiles new0)"
    "fd_freefile new0 = fd_freefile (fs_fdp st)" "fd_exclose new0 = fd_exclose (fs_fdp st)" "fd_refcnt new0 = 1"
    using copy_table_spec [OF wf] by blast
  have "tidy new0" using c(2,3) c(4) by (fastforce simp: tidy_def fdfile_ctor_def)
  moreover have "fds_of new0 fd = None" for fd
    using c(4) [of fd] by (cases "ff_get new0 fd") (simp_all add: fds_of_def fdfile_ctor_def)
  then have "fds_of new0 = upto_fd 0 (inherited st)" by (auto simp: fun_eq_iff)
  moreover have "fs_files st = more_refs (upto_fd 0 (inherited st)) (fs_files st)"
    by (simp add: fun_eq_iff more_refs_def users_def option.map_ident)
  ultimately have "copy_inv st 0 (new0, fs_files st, - 1)"
    using c(5-8) unfolding copy_inv_def prod.case by simp
  moreover define j where "j = nat (?l + 1)"
  moreover have "- 1 \<le> ?l" using wf by (simp add: fd_wf_def marks_ok_def)
  ultimately obtain s where s: "fd_copy_loop (fs_fdp st) [0..<j] (new0, fs_files st, - 1) = Some s" "copy_inv st j s"
    using fd_copy_loop_inv [OF wf tal, of 0 j "(new0, fs_files st, - 1)"] by auto
  obtain new files newlast where s': "s = (new, files, newlast)" by (cases s)
  note I = s(2) [unfolded s' copy_inv_def prod.case]
  have none: "inherited st fd = None" if "j \<le> fd" for fd
  proof -
    have "\<not> used_slot (fs_fdp st) fd" using wf that unfolding j_def by (fastforce simp: fd_wf_def marks_ok_def)
    then show ?thesis using used_fds [OF wf q] by (simp add: inherited_def del: not_None_eq)
  qed
  then have all: "upto_fd j (inherited st) = inherited st" by (auto simp: restrict_map_def fun_eq_iff not_less)
  let ?new = "new\<lparr>fd_lastfile := newlast\<rparr>"
  have tid: "tidy new" and fds: "fds_of new = inherited st" and files: "files = more_refs (inherited st) (fs_files st)"
    using I all by simp_all
  have used: "used_slot ?new fd \<longleftrightarrow> inherited st fd \<noteq> None" for fd using tidy_used [OF tid] fds by simp
  have "marks_ok ?new"
  proof -
    have "inherited st fd \<noteq> None" if fd: "fd < fd_freefile new" for fd
    proof -
      have "used_slot (fs_fdp st) fd" using wf fd I by (auto simp: fd_wf_def marks_ok_def)
      then have "fds_of (fs_fdp st) fd \<noteq> None" "int fd \<le> ?l"
        using used_fds [OF wf q, of fd] wf by (auto simp: fd_wf_def marks_ok_def)
      then have "fds_of (fs_fdp st) fd \<noteq> None" "fd < j" unfolding j_def by auto
      moreover have "\<not> is_kqueue st fd" using I fd \<open>fd < j\<close> by (meson not_le)
      ultimately show ?thesis by (simp add: is_kqueue_def)
    qed
    moreover have "fd < j" if "inherited st fd \<noteq> None" for fd using none [of fd] that by (meson not_le)
    ultimately show ?thesis using I unfolding marks_ok_def used by auto
  qed
  moreover have get: "ff_get ?new = ff_get new" by simp
  moreover have "shape_ok ?new" "maps_ok ?new" using tid by (simp_all add: tidy_def shape_ok_def maps_ok_def)
  moreover have "slots_ok ?new" "quiet ?new" using tid unfolding slots_ok_def quiet_def get tidy_def by auto
  moreover have "tally (inherited st) files"
  proof -
    have "finite (dom (fds_of (fs_fdp st)))" using tal by (simp add: tally_def)
    moreover have "dom (inherited st) \<subseteq> dom (fds_of (fs_fdp st))" by (auto simp: inherited_def split: option.splits)
    ultimately have "finite (dom (inherited st))" by (rule finite_subset [rotated])
    moreover have "fs_files st fp \<noteq> None" if some: "users (inherited st) fp \<noteq> {}" for fp
    proof -
      obtain fd c where "inherited st fd = Some (fp, c)" using some by (force simp: users_def)
      then show ?thesis by (auto simp: inherited_def split: option.splits prod.splits if_splits)
    qed
    ultimately show ?thesis by (fastforce simp: tally_def files more_refs_def)
  qed
  ultimately have "fs_ok (st\<lparr>fs_fdp := ?new, fs_files := files\<rparr>)"
    using fds by (simp add: fs_ok_def fd_wf_def fds_of_def [abs_def])
  moreover have "fs_ok (st\<lparr>fs_files := files\<rparr>)"
    using wf q tally_more [OF tal, of files] files by (simp add: fs_ok_def more_refs_def)
  moreover have "fd_copy st = Some (?new, files)"
    using c(1) s(1) s' by (simp add: fd_copy_def j_def)
  ultimately show ?thesis using that [of ?new files] fds files I by (simp add: fds_of_def [abs_def])
qed

section \<open>Closing on exec\<close>

text \<open>Descriptors from \<open>i\<close> on that are marked are gone, the others are as they were.\<close>

definition strip :: "nat \<Rightarrow> (nat \<rightharpoonup> nat \<times> bool) \<Rightarrow> (nat \<rightharpoonup> nat \<times> bool)" where
  "strip i m fd = (case m fd of None \<Rightarrow> None | Some (fp, c) \<Rightarrow> if c \<and> i \<le> fd then None else Some (fp, c))"

lemma strip_Suc: "(\<And>fp. m i \<noteq> Some (fp, True)) \<Longrightarrow> strip (Suc i) m = strip i m"
  by (auto simp: strip_def fun_eq_iff Suc_le_eq le_less split: option.splits)

lemma strip_Suc_del: "m i = Some (fp, True) \<Longrightarrow> strip (Suc i) (m(i := None)) = strip i m"
  by (auto simp: strip_def fun_eq_iff Suc_le_eq le_less split: option.splits)

lemma strip_id: "(\<And>fd. i \<le> fd \<Longrightarrow> m fd = None) \<Longrightarrow> strip i m = m"
  by (fastforce simp: strip_def fun_eq_iff split: option.splits)

lemma ref_take_holding:
  assumes "fs_ok st" "ff_get (fs_fdp st) fd = Some ff"
  shows "ref_take (fs_fdp st) fd = Some (fs_fdp (holding st fd ff))" "st\<lparr>fs_fdp := fs_fdp (holding st fd ff)\<rparr> = holding st fd ff"
  using assms by (simp_all add: ref_take_def holding_def fs_ok_def quiet_def)

lemma posix_drop_fds:
  assumes "posix_drop p (posix_of st) fd = (posix_of st', e)"
  shows "fds_of (fs_fdp st') = (fds_of (fs_fdp st))(fd := None)"
  using assms by (cases "fds_of (fs_fdp st) fd") (auto simp: posix_of_def Let_def split: prod.splits)

lemma closeexec_step:
  assumes ok: "fs_ok st" and i: "i < nfiles (fs_fdp st)" "int i \<le> fd_lastfile (fs_fdp st)"
  obtains st1 where "\<And>fds. closeexec_loop p (i # fds) st = closeexec_loop p fds st1" "fs_ok st1"
    "nfiles (fs_fdp st1) = nfiles (fs_fdp st)" "strip (Suc i) (fds_of (fs_fdp st1)) = strip i (fds_of (fs_fdp st))"
proof -
  let ?m = "fds_of (fs_fdp st)"
  have n: "i < length (ffs_of (fs_fdp st))" using fs_okD(1) [OF ok] i(1) by (simp add: fd_wf_def shape_ok_def)
  show ?thesis
  proof (cases "\<exists>fp. ?m i = Some (fp, True)")
    case True
    then obtain fp where m: "?m i = Some (fp, True)" by blast
    then obtain ff where ff: "ff_get (fs_fdp st) i = Some ff" "ff_file ff = Some fp" "ff_exclose ff = True" by (rule fds_open)
    obtain st1 e where c: "fd_close p (holding st i ff) i = Some (st1, Returned e)" "fs_ok st1"
      "posix_drop p (posix_of st) i = (posix_of st1, e)" "same_frame (fs_fdp st) (fs_fdp st1)"
      using close_refines [OF ok ff(1,2)] .
    have "ff_refcnt ff = 0" using fs_okD(2) [OF ok] ff(1) by (simp add: quiet_def)
    then have "closeexec_loop p (i # fds) st = closeexec_loop p fds st1" for fds
      using i(2) ff slot_aget [OF n] ref_take_holding(1) [OF ok ff(1)] c(1)
      by (simp add: ref_take_holding(2) [OF ok ff(1)])
    then show ?thesis
      using that c(2,4) posix_drop_fds [OF c(3)] strip_Suc_del [of ?m, OF m] by (simp add: same_frame_def)
  next
    case False
    have "closeexec_loop p (i # fds) st = closeexec_loop p fds st" for fds
    proof (cases "ff_get (fs_fdp st) i")
      case None
      then have "\<not> i < 6" using fs_okD(1) [OF ok] by (auto simp: fd_wf_def shape_ok_def)
      then show ?thesis using i(2) None slot_aget [OF n] by simp
    next
      case (Some ff)
      then have "ff_file ff = None \<or> \<not> ff_exclose ff" using False by (auto simp: fds_of_def)
      then show ?thesis using i(2) Some slot_aget [OF n] by simp
    qed
    then show ?thesis using that [of st] ok strip_Suc [of ?m i] False by simp
  qed
qed

lemma closeexec_loop_spec:
  "fs_ok st \<Longrightarrow> nfiles (fs_fdp st) = i + k \<Longrightarrow>
   \<exists>st'. closeexec_loop p [i..<i + k] st = Some (st', Returned 0) \<and> fs_ok st' \<and>
     fds_of (fs_fdp st') = strip i (fds_of (fs_fdp st))"
proof (induction k arbitrary: i st)
  case (0 i st)
  note wf = fs_okD(1) [OF 0(1)] and q = fs_okD(2) [OF 0(1)]
  have "fd_lastfile (fs_fdp st) < int i"
    using used_slot_nfiles [OF wf, of "nat (fd_lastfile (fs_fdp st))"] wf 0(2)
    by (cases "0 \<le> fd_lastfile (fs_fdp st)") (auto simp: fd_wf_def marks_ok_def)
  moreover have "fds_of (fs_fdp st) fd = None" if "i \<le> fd" for fd
    using used_slot_nfiles [OF wf, of fd] used_fds [OF wf q, of fd] 0(2) that by fastforce
  then have "strip i (fds_of (fs_fdp st)) = fds_of (fs_fdp st)" by (rule strip_id)
  ultimately show ?case using 0 by simp
next
  case (Suc k i st)
  note wf = fs_okD(1) [OF Suc.prems(1)] and q = fs_okD(2) [OF Suc.prems(1)]
  have list: "[i..<i + Suc k] = i # [Suc i..<Suc i + k]" by (simp add: upt_conv_Cons)
  show ?case
  proof (cases "int i \<le> fd_lastfile (fs_fdp st)")
    case True
    obtain st1 where c: "\<And>fds. closeexec_loop p (i # fds) st = closeexec_loop p fds st1" "fs_ok st1"
      "nfiles (fs_fdp st1) = nfiles (fs_fdp st)" "strip (Suc i) (fds_of (fs_fdp st1)) = strip i (fds_of (fs_fdp st))"
      using closeexec_step [OF Suc.prems(1) _ True] Suc.prems(2) by auto
    then show ?thesis using Suc.IH [OF c(2), of "Suc i"] Suc.prems(2) unfolding list by simp
  next
    case False
    have "fds_of (fs_fdp st) fd = None" if "i \<le> fd" for fd
      using wf that False used_fds [OF wf q, of fd] by (fastforce simp: fd_wf_def marks_ok_def)
    then have "strip i (fds_of (fs_fdp st)) = fds_of (fs_fdp st)" by (rule strip_id)
    then show ?thesis using False Suc.prems(1) unfolding list by simp
  qed
qed

text \<open>The descriptors after \<open>exec\<close>, when \<open>fd_exclose\<close> is set whenever a descriptor is marked.\<close>

lemma fd_wf_refcnt [simp]: "fd_wf (fdp\<lparr>fd_refcnt := r\<rparr>) \<longleftrightarrow> fd_wf fdp"
  by (simp add: fd_wf_def shape_ok_def maps_ok_def slots_ok_def marks_ok_def)

lemma closeexec_unshared:
  assumes ok: "fs_ok st" and flag: "\<And>fd fp. fds_of (fs_fdp st) fd = Some (fp, True) \<Longrightarrow> fd_exclose (fs_fdp st)"
  shows "\<exists>st'. (if \<not> fd_exclose (fs_fdp st) then Some (st, Returned 0)
      else closeexec_loop p [0..<nfiles (fs_fdp st)] (st\<lparr>fs_fdp := (fs_fdp st)\<lparr>fd_exclose := False\<rparr>\<rparr>)) = Some (st', Returned 0) \<and>
    fs_ok st' \<and> fds_of (fs_fdp st') = strip 0 (fds_of (fs_fdp st))"
proof (cases "fd_exclose (fs_fdp st)")
  case True
  let ?st = "st\<lparr>fs_fdp := (fs_fdp st)\<lparr>fd_exclose := False\<rparr>\<rparr>"
  have same: "fds_of (fs_fdp ?st) = fds_of (fs_fdp st)" by (simp add: fds_of_def [abs_def])
  then have "fs_ok ?st" using ok by (simp add: fs_ok_def quiet_def)
  then show ?thesis using closeexec_loop_spec [of ?st 0 "nfiles (fs_fdp st)"] True same by simp
next
  case False
  then have "strip 0 (fds_of (fs_fdp st)) = fds_of (fs_fdp st)"
    using flag by (fastforce simp: strip_def fun_eq_iff split: option.splits)
  then show ?thesis using False ok by simp
qed

text \<open>A structure shared with another process is copied before, and loses a reference.\<close>

lemma fd_closeexec_spec:
  assumes ok: "fs_ok st" and flag: "\<And>fd fp. fds_of (fs_fdp st) fd = Some (fp, True) \<Longrightarrow> fd_exclose (fs_fdp st)"
  shows "\<exists>st' old. fd_closeexec p st = Some (st', old, Returned 0) \<and> fs_ok st' \<and>
    fds_of (fs_fdp st') = strip 0 (if 1 < fd_refcnt (fs_fdp st) then inherited st else fds_of (fs_fdp st)) \<and>
    old = (if 1 < fd_refcnt (fs_fdp st) then Some ((fs_fdp st)\<lparr>fd_refcnt := fd_refcnt (fs_fdp st) - 1\<rparr>) else None)"
proof (cases "1 < fd_refcnt (fs_fdp st)")
  case True
  obtain new files where c: "fd_copy st = Some (new, files)" "fds_of new = inherited st" "fd_exclose new = fd_exclose (fs_fdp st)"
    "fs_ok (st\<lparr>fs_fdp := new, fs_files := files\<rparr>)"
    using fd_copy_spec [OF ok] by metis
  let ?st = "st\<lparr>fs_fdp := new, fs_files := files\<rparr>"
  have "fd_exclose (fs_fdp ?st)" if "fds_of (fs_fdp ?st) fd = Some (fp, True)" for fd fp
    using that c(2,3) flag by (auto simp: inherited_def split: option.splits prod.splits if_splits)
  then obtain st' where e: "(if \<not> fd_exclose (fs_fdp ?st) then Some (?st, Returned 0)
      else closeexec_loop p [0..<nfiles (fs_fdp ?st)] (?st\<lparr>fs_fdp := (fs_fdp ?st)\<lparr>fd_exclose := False\<rparr>\<rparr>)) = Some (st', Returned 0)"
    "fs_ok st'" "fds_of (fs_fdp st') = strip 0 (fds_of (fs_fdp ?st))"
    using closeexec_unshared [OF c(4)] by blast
  have "fd_closeexec p st = Some (st', Some ((fs_fdp st)\<lparr>fd_refcnt := fd_refcnt (fs_fdp st) - 1\<rparr>), Returned 0)"
    using True c(1) e(1) by (auto simp: fd_closeexec_def fd_free_def Let_def split: if_splits)
  then show ?thesis using True e(2,3) c(2) by simp
next
  case False
  obtain st' where e: "(if \<not> fd_exclose (fs_fdp st) then Some (st, Returned 0)
      else closeexec_loop p [0..<nfiles (fs_fdp st)] (st\<lparr>fs_fdp := (fs_fdp st)\<lparr>fd_exclose := False\<rparr>\<rparr>)) = Some (st', Returned 0)"
    "fs_ok st'" "fds_of (fs_fdp st') = strip 0 (fds_of (fs_fdp st))"
    using closeexec_unshared [OF ok] flag by blast
  then have "fd_closeexec p st = Some (st', None, Returned 0)"
    using False by (auto simp: fd_closeexec_def Let_def split: if_splits)
  then show ?thesis using False e(2,3) by simp
qed

text \<open>A descriptor duplicated with the flag does not set \<open>fd_exclose\<close>.\<close>

lemma dupfd_keeps_exclose:
  assumes ok: "fs_ok st" and max: "unat (maxfiles p) \<le> 2 ^ 30" and dup: "fcntl_dupfd p st fd newmin c = Some (st', r)"
  shows "same_process (fs_fdp st) (fs_fdp st')"
proof (rule getfile_cases [OF ok, of fd])
  assume "\<And>p. fd_getfile p st fd = Some (st, None)"
  then show ?thesis using dup by (simp add: fcntl_dupfd_def same_process_def)
next
  fix ff fp
  assume ff: "ff_get (fs_fdp st) fd = Some ff" "ff_file ff = Some fp"
    and g: "\<And>p. fd_getfile p st fd = Some (holding st fd ff, Some fp)"
  have lim: "fd_lim p \<le> 2 ^ 30" using fd_lim_le [of p] max by simp
  show ?thesis
  proof (cases "unat (rlim_cur p) \<le> newmin \<or> unat (maxfiles p) \<le> newmin")
    case True
    obtain st1 where "fd_putfile p (holding st fd ff) fd = Some (st1, Returned 0)" "same_process (fs_fdp st) (fs_fdp st1)"
      using putfile_holding [OF ok ff] by metis
    then show ?thesis using True dup g by (auto simp: fcntl_dupfd_def)
  next
    case False
    obtain st1 st2 r where "fd_dup p (holding st fd ff) fp (int newmin) c = Some (st1, r)"
      "fd_putfile p st1 fd = Some (st2, Returned 0)" "same_process (fs_fdp st) (fs_fdp st2)"
      using dup_refines [OF ok lim ff] by metis
    then show ?thesis using False dup g by (auto simp: fcntl_dupfd_def)
  qed
qed

end
