(* ===== verification/Fd_Exit.thy ===== *)
theory Fd_Exit
  imports Fd_Exec
begin

text \<open>
  Closing many descriptors: \<open>F_CLOSEM\<close>, and \<open>fd_free\<close>, which a process calls when it exits; and the
  status flags of a file.
\<close>

section \<open>Closing from a descriptor on\<close>

lemma lastfile_open:
  assumes "fs_ok st" "0 \<le> fd_lastfile (fs_fdp st)"
  shows "fds_of (fs_fdp st) (nat (fd_lastfile (fs_fdp st))) \<noteq> None"
  using assms used_fds [OF fs_okD(1,2) [OF assms(1)]] by (simp add: fs_ok_def fd_wf_def marks_ok_def)

lemma lastfile_top:
  assumes "fs_ok st" "fds_of (fs_fdp st) fd \<noteq> None"
  shows "int fd \<le> fd_lastfile (fs_fdp st)"
  using assms used_fds [OF fs_okD(1,2) [OF assms(1)], of fd] by (simp add: fs_ok_def fd_wf_def marks_ok_def)

lemma fds_within: "fs_ok st \<Longrightarrow> nfiles (fs_fdp st) \<le> fd \<Longrightarrow> fds_of (fs_fdp st) fd = None"
  using used_fds [OF fs_okD(1,2), of st fd] used_slot_nfiles [OF fs_okD(1), of st fd] by (auto simp: not_less [symmetric])

text \<open>Each round closes the last descriptor, so there are at most as many as there are descriptors.\<close>

lemma closem_spec:
  "fs_ok st \<Longrightarrow> nat (fd_lastfile (fs_fdp st) + 1) \<le> n \<Longrightarrow>
   \<exists>st'. fcntl_closem (Suc n) p st fd = Some (st', Returned 0) \<and> fs_ok st' \<and>
     fds_of (fs_fdp st') = fds_of (fs_fdp st) |` {..<fd}"
proof (induction n arbitrary: st)
  case 0
  then have "fds_of (fs_fdp st) k = None" for k using lastfile_top [OF 0(1), of k] by fastforce
  then show ?case using 0 by (auto simp: restrict_map_def fun_eq_iff)
next
  case (Suc n)
  let ?l = "fd_lastfile (fs_fdp st)"
  show ?case
  proof (cases "?l < int fd")
    case True
    then have "fds_of (fs_fdp st) k = None" if "fd \<le> k" for k using lastfile_top [OF Suc.prems(1), of k] that by fastforce
    then have "fds_of (fs_fdp st) |` {..<fd} = fds_of (fs_fdp st)" by (auto simp: restrict_map_def fun_eq_iff)
    then show ?thesis using True Suc.prems(1) by simp
  next
    case False
    have open_l: "fds_of (fs_fdp st) (nat ?l) \<noteq> None" using lastfile_open [OF Suc.prems(1)] False by simp
    obtain fp c where m: "fds_of (fs_fdp st) (nat ?l) = Some (fp, c)" using open_l by auto
    then obtain ff where ff: "ff_get (fs_fdp st) (nat ?l) = Some ff" "ff_file ff = Some fp" by (rule fds_open)
    obtain st1 e where c: "fd_close p (holding st (nat ?l) ff) (nat ?l) = Some (st1, Returned e)" "fs_ok st1"
      "posix_drop p (posix_of st) (nat ?l) = (posix_of st1, e)"
      using close_refines [OF Suc.prems(1) ff] .
    have fds: "fds_of (fs_fdp st1) = (fds_of (fs_fdp st))(nat ?l := None)" using posix_drop_fds [OF c(3)] .
    have "fd_lastfile (fs_fdp st1) < ?l"
    proof (rule ccontr)
      assume ge: "\<not> fd_lastfile (fs_fdp st1) < ?l"
      then have "fds_of (fs_fdp st1) (nat (fd_lastfile (fs_fdp st1))) \<noteq> None" using lastfile_open [OF c(2)] False by simp
      then have "nat (fd_lastfile (fs_fdp st1)) \<noteq> nat ?l" "int (nat (fd_lastfile (fs_fdp st1))) \<le> ?l"
        using lastfile_top [OF Suc.prems(1), of "nat (fd_lastfile (fs_fdp st1))"] by (auto simp: fds split: if_splits)
      then show False using ge False by simp
    qed
    then have "nat (fd_lastfile (fs_fdp st1) + 1) \<le> n" using Suc.prems(2) by simp
    then obtain st' where "fcntl_closem (Suc n) p st1 fd = Some (st', Returned 0)" "fs_ok st'"
      "fds_of (fs_fdp st') = fds_of (fs_fdp st1) |` {..<fd}" using Suc.IH [OF c(2)] by blast
    moreover have "fds_of (fs_fdp st1) |` {..<fd} = fds_of (fs_fdp st) |` {..<fd}"
      using False unfolding fds by (auto simp: restrict_map_def fun_eq_iff)
    moreover have "fcntl_closem (Suc (Suc n)) p st fd = fcntl_closem (Suc n) p st1 fd"
      unfolding fcntl_closem.simps(2) [of "Suc n"] using False getfile_holding(1) [OF Suc.prems(1) ff] c(1) by simp
    ultimately show ?thesis by simp
  qed
qed

section \<open>The references of a process\<close>

text \<open>The files once the descriptors of \<open>m\<close> are gone.\<close>

definition fewer_refs :: "(nat \<rightharpoonup> nat \<times> bool) \<Rightarrow> (nat \<rightharpoonup> file_t) \<Rightarrow> (nat \<rightharpoonup> file_t)" where
  "fewer_refs m files fp =
     (if users m fp = {} then files fp
      else case files fp of
          None \<Rightarrow> None
        | Some f \<Rightarrow> if f_count f \<le> card (users m fp) then None else Some (f\<lparr>f_count := f_count f - card (users m fp)\<rparr>))"

definition drop_all :: "proc \<Rightarrow> nat \<Rightarrow> posix \<Rightarrow> posix" where
  "drop_all p n s = fold (\<lambda>fd s. fst (posix_drop p s fd)) [0..<n] s"

lemma drop_all_0 [simp]: "drop_all p 0 s = s"
  by (simp add: drop_all_def)

lemma drop_all_Suc [simp]: "drop_all p (Suc n) s = fst (posix_drop p (drop_all p n s) n)"
  by (simp add: drop_all_def)

lemma fewer_refs_drop:
  assumes t: "tally m files" and m: "m n = Some (fp, c)"
    and r: "released p fp (fewer_refs (upto_fd n m) files) = (files', calls, e)"
  shows "files' = fewer_refs (upto_fd (Suc n) m) files"
proof -
  obtain f where f: "files fp = Some f" using tally_file [OF t m] .
  have n: "n \<in> users m fp" using m by (simp add: users_def)
  have le: "card (users m fp) \<le> f_count f" and fin: "finite (users m fp)"
    using t f n finite_users by (force simp: tally_def)+
  let ?u = "users (upto_fd n m) fp"
  have u: "users (upto_fd (Suc n) m) fp = insert n ?u" "n \<notin> ?u" "?u \<subseteq> users m fp"
    using m by (auto simp: users_def restrict_map_def less_Suc_eq split: if_splits)
  have fin_u: "finite ?u" using finite_subset [OF u(3) fin] .
  have "card (insert n ?u) \<le> card (users m fp)" using u(3) n fin by (intro card_mono) auto
  then have lt: "card ?u < f_count f" using fin_u u(2) le by simp
  have other: "users (upto_fd (Suc n) m) fp' = users (upto_fd n m) fp'" if "fp' \<noteq> fp" for fp'
    using m that by (auto simp: users_def restrict_map_def less_Suc_eq split: if_splits)
  have now: "fewer_refs (upto_fd n m) files fp = Some (f\<lparr>f_count := f_count f - card ?u\<rparr>)"
    using f lt by (cases f) (auto simp: fewer_refs_def)
  have card: "card (insert n ?u) = Suc (card ?u)" using fin_u u(2) by simp
  show ?thesis
  proof
    fix fp'
    show "files' fp' = fewer_refs (upto_fd (Suc n) m) files fp'"
    proof (cases "fp' = fp")
      case True
      then show ?thesis
        using r f lt card unfolding released_def now option.case
        by (auto simp: fewer_refs_def u(1) Suc_diff_Suc split: if_splits)
    next
      case False
      then have "files' fp' = fewer_refs (upto_fd n m) files fp'"
        using r unfolding released_def now option.case by (auto split: if_splits)
      then show ?thesis unfolding fewer_refs_def other [OF False] .
    qed
  qed
qed

lemma drop_all_spec:
  assumes t: "tally m files"
  shows "\<exists>calls'. drop_all p n (m, files, calls) = (m |` {n..}, fewer_refs (upto_fd n m) files, calls')"
proof (induction n)
  case 0
  show ?case by (auto simp: fewer_refs_def users_def restrict_map_def fun_eq_iff)
next
  case (Suc n)
  then obtain calls' where s: "drop_all p n (m, files, calls) = (m |` {n..}, fewer_refs (upto_fd n m) files, calls')" by blast
  show ?case
  proof (cases "m n")
    case None
    then have "m |` {n..} = m |` {Suc n..}" "upto_fd n m = upto_fd (Suc n) m"
      by (auto simp: restrict_map_def fun_eq_iff Suc_le_eq le_less less_Suc_eq)
    then show ?thesis using s None by simp
  next
    case (Some x)
    then obtain fp c where m: "m n = Some (fp, c)" by (cases x) simp
    obtain files' cs e where r: "released p fp (fewer_refs (upto_fd n m) files) = (files', cs, e)" by (metis prod_cases3)
    have "(m |` {n..})(n := None) = m |` {Suc n..}" by (auto simp: restrict_map_def fun_eq_iff Suc_le_eq le_less)
    then show ?thesis using s m r fewer_refs_drop [OF t m r] by (auto simp: Let_def)
  qed
qed


section \<open>Releasing the structure\<close>

text \<open>While \<open>fd_free\<close> runs: the slots below \<open>i\<close> are as in a new structure.  The bits of those that were
  closed without \<open>fd_close\<close> remain, so the bit maps agree with the slots only from \<open>i\<close> on.\<close>

definition freeing :: "nat \<Rightarrow> filedesc \<Rightarrow> bool" where
  "freeing i fdp \<longleftrightarrow>
     length (ffs_of fdp) = nfiles fdp \<and> hi_ok (fd_lomap fdp) (fd_himap fdp) \<and>
     (\<forall>fd<nfiles fdp. fd div 32 < length (fd_lomap fdp) \<and> fd div 32 div 32 < length (fd_himap fdp)) \<and>
     (\<forall>fd<i. fd < nfiles fdp \<longrightarrow> ffs_of fdp ! fd = (if fd < NDFDFILE then Some fdfile_ctor else None)) \<and>
     (\<forall>fd\<ge>i. used_slot fdp fd \<longrightarrow> bm_bit (fd_lomap fdp) fd \<and> int fd \<le> fd_lastfile fdp) \<and>
     (\<forall>fd<NDFDFILE. ff_get fdp fd \<noteq> None) \<and> quiet fdp \<and> slots_ok fdp"

lemma freeing_0: "fd_wf fdp \<Longrightarrow> quiet fdp \<Longrightarrow> freeing 0 fdp"
  using slot_words by (auto simp: freeing_def fd_wf_def shape_ok_def maps_ok_def marks_ok_def)

lemma fdfile_ctor_fields [simp]:
  "ff_refcnt fdfile_ctor = 0" "ff_file fdfile_ctor = None" "\<not> ff_exclose fdfile_ctor" "\<not> ff_allocated fdfile_ctor"
  by (simp_all add: fdfile_ctor_def)

lemma freeing_slot:
  assumes "freeing i fdp" "ff_get fdp fd = Some ff"
  shows "ff_refcnt ff = 0" "ff_file ff \<noteq> None \<Longrightarrow> ff_allocated ff" "ff_file ff = None \<Longrightarrow> ff = fdfile_ctor"
proof -
  have *: "ff_refcnt ff = 0 \<and> (ff_allocated ff \<longrightarrow> ff_file ff \<noteq> None) \<and> (\<not> ff_allocated ff \<longrightarrow> ff_file ff = None \<and> \<not> ff_exclose ff)"
    using assms unfolding freeing_def quiet_def slots_ok_def by blast
  then show "ff_refcnt ff = 0" "ff_file ff \<noteq> None \<Longrightarrow> ff_allocated ff" by auto
  show "ff_file ff = None \<Longrightarrow> ff = fdfile_ctor" using * by (cases ff) (simp add: fdfile_ctor_def)
qed

lemma fd_last_set_total:
  assumes "lst \<le> length (ffs_of fdp)" "lst \<le> length (fd_lomap fdp) * 32"
  obtains l where "fd_last_set fdp lst = Some l"
proof -
  define n where "n = nat ((int lst - 1) div 32 + 1)"
  have n: "n \<le> length (fd_lomap fdp)" using assms(2) unfolding n_def by auto
  note lw = last_word_spec [OF n]
  show ?thesis
  proof (cases "lst = 0")
    case True
    then show ?thesis using that by (simp add: fd_last_set_def)
  next
    case False
    have "\<exists>j. last_slot (ffs_of fdp) i = Some j" if "i < lst" for i using last_slot_spec [of i fdp] assms(1) that by auto
    then have "last_slot (ffs_of fdp) (if lst \<le> i then lst - 1 else i) \<noteq> None" for i using False by (cases "lst \<le> i") auto
    then have "fd_last_set fdp lst \<noteq> None"
      using lw by (cases "last_word (fd_lomap fdp) n") (auto simp: fd_last_set_def n_def [symmetric] Let_def split: option.splits)
    then show ?thesis using that by auto
  qed
qed

lemma freeing_unused:
  assumes fr: "freeing i fdp" and ff: "ff_get fdp i = Some ff" "ff_allocated ff"
  obtains fdp' where "fd_unused (ff_put fdp i (ff\<lparr>ff_file := None, ff_exclose := False\<rparr>)) i = Some fdp'" "same_frame fdp fdp'"
    "ffs_of fdp' = (ffs_of fdp)[i := Some (ff\<lparr>ff_file := None, ff_exclose := False, ff_allocated := False\<rparr>)]"
    "hi_ok (fd_lomap fdp') (fd_himap fdp')" "length (fd_lomap fdp') = length (fd_lomap fdp)"
    "length (fd_himap fdp') = length (fd_himap fdp)" "\<And>k. k \<noteq> i \<Longrightarrow> bm_bit (fd_lomap fdp) k \<Longrightarrow> bm_bit (fd_lomap fdp') k"
    "int i \<noteq> fd_lastfile fdp \<Longrightarrow> fd_lastfile fdp' = fd_lastfile fdp"
proof -
  let ?ff = "ff\<lparr>ff_file := None, ff_exclose := False\<rparr>"
  have n: "i < length (ffs_of fdp)" "i < nfiles fdp" using ff_get_bound [OF ff(1)] fr by (simp_all add: freeing_def)
  have "used_slot fdp i" using ff by (simp add: used_slot_def)
  then have bit: "bm_bit (fd_lomap fdp) i" "int i \<le> fd_lastfile fdp" using fr by (auto simp: freeing_def)
  have words: "i div 32 < length (fd_lomap fdp)" "i div 32 div 32 < length (fd_himap fdp)" using fr n(2) by (simp_all add: freeing_def)
  obtain lo hi where b: "clear_bits (fd_lomap fdp) (fd_himap fdp) i = Some (lo, hi)"
    "length lo = length (fd_lomap fdp)" "length hi = length (fd_himap fdp)" "hi_ok lo hi"
    "\<And>k. bm_bit lo k \<longleftrightarrow> k \<noteq> i \<and> bm_bit (fd_lomap fdp) k"
    using clear_bits_spec [OF _ bit(1) words(2)] fr unfolding freeing_def by blast
  define mid where "mid = ff_put ((if i < fd_freefile fdp then (ff_put fdp i ?ff)\<lparr>fd_freefile := i\<rparr> else ff_put fdp i ?ff)
    \<lparr>fd_lomap := lo, fd_himap := hi\<rparr>) i (?ff\<lparr>ff_allocated := False\<rparr>)"
  have fields: "fd_lomap mid = lo" "fd_himap mid = hi" "same_frame fdp mid" "fd_lastfile mid = fd_lastfile fdp"
    "ffs_of mid = (ffs_of fdp)[i := Some (?ff\<lparr>ff_allocated := False\<rparr>)]"
    by (simp_all add: mid_def same_frame_def ff_put_def)
  have "i \<le> length lo * 32" using words(1) b(2) by simp
  then obtain l0 where l0: "fd_last_set mid i = Some l0" using fd_last_set_total [of i mid] n(1) fields by auto
  define l where "l = (if int i = fd_lastfile fdp then l0 else fd_lastfile fdp)"
  have "fd_unused (ff_put fdp i ?ff) i = map_option (\<lambda>l. mid\<lparr>fd_lastfile := l\<rparr>)
      (if int i = fd_lastfile fdp then fd_last_set mid i else Some (fd_lastfile fdp))"
    using ff n(1) b(1) bit(2) by (simp add: fd_unused_def mid_def Let_def bind_map_option ff_get_put)
  then have "fd_unused (ff_put fdp i ?ff) i = Some (mid\<lparr>fd_lastfile := l\<rparr>)" using l0 by (simp add: l_def)
  then show ?thesis
    using that [of "mid\<lparr>fd_lastfile := l\<rparr>"] fields b(2-5) by (simp add: same_frame_def l_def)
qed

text \<open>What one round has to establish.\<close>

lemma freeing_Suc:
  assumes fr: "freeing i fdp" and i: "i < nfiles fdp"
    and frame: "same_frame fdp fdp'" "ffs_of fdp' = (ffs_of fdp)[i := if i < NDFDFILE then Some fdfile_ctor else None]"
    and maps: "hi_ok (fd_lomap fdp') (fd_himap fdp')" "length (fd_lomap fdp') = length (fd_lomap fdp)"
      "length (fd_himap fdp') = length (fd_himap fdp)" "\<And>k. k \<noteq> i \<Longrightarrow> bm_bit (fd_lomap fdp) k \<Longrightarrow> bm_bit (fd_lomap fdp') k"
      "int i \<noteq> fd_lastfile fdp \<Longrightarrow> fd_lastfile fdp' = fd_lastfile fdp"
  shows "freeing (Suc i) fdp'"
proof -
  have n: "i < length (ffs_of fdp)" using fr i by (simp add: freeing_def)
  have get: "ff_get fdp' = (ff_get fdp)(i := if i < NDFDFILE then Some fdfile_ctor else None)"
    using n by (auto simp: fun_eq_iff ff_get_def aget_def frame(2))
  have used: "used_slot fdp' k \<longleftrightarrow> k \<noteq> i \<and> used_slot fdp k" for k
    by (simp add: used_slot_def get fdfile_ctor_def)
  have "bm_bit (fd_lomap fdp') k \<and> int k \<le> fd_lastfile fdp'" if k: "Suc i \<le> k" "used_slot fdp' k" for k
  proof -
    have "bm_bit (fd_lomap fdp) k" "int k \<le> fd_lastfile fdp" using fr k used by (auto simp: freeing_def)
    then show ?thesis using maps(4,5) k(1) by auto
  qed
  moreover have "ffs_of fdp' ! k = (if k < NDFDFILE then Some fdfile_ctor else None)" if "k < Suc i" "k < nfiles fdp'" for k
    using fr that n frame by (auto simp: freeing_def same_frame_def less_Suc_eq nth_list_update)
  moreover have "quiet fdp'" "slots_ok fdp'" using fr by (auto simp: freeing_def quiet_def slots_ok_def get fdfile_ctor_def)
  moreover have "\<forall>k<6. ff_get fdp' k \<noteq> None" using fr by (auto simp: freeing_def get)
  ultimately show ?thesis using fr frame(1) maps(1-3) by (simp add: freeing_def same_frame_def)
qed


lemma fds_clear:
  assumes "length (ffs_of fdp) = nfiles fdp" "i < nfiles fdp" "ffs_of fdp' = (ffs_of fdp)[i := if i < NDFDFILE then Some fdfile_ctor else None]"
  shows "fds_of fdp' = (fds_of fdp)(i := None)"
proof -
  have "ff_get fdp' = (ff_get fdp)(i := if i < NDFDFILE then Some fdfile_ctor else None)"
    using assms by (auto simp: fun_eq_iff ff_get_def aget_def)
  then show ?thesis by (auto simp: fun_eq_iff fds_of_def fdfile_ctor_def)
qed

text \<open>The slot is given back, unless it is part of the structure.\<close>

definition give_back :: "nat \<Rightarrow> fd_state \<Rightarrow> fd_state" where
  "give_back fd st = (if NDFDFILE \<le> fd
     then st\<lparr>fs_fdp := (fs_fdp st)\<lparr>fd_dt := (fd_dt (fs_fdp st))\<lparr>dt_ff := (ffs_of (fs_fdp st))[fd := None]\<rparr>\<rparr>\<rparr> else st)"

lemma give_back_fields [simp]:
  "fs_files (give_back fd st) = fs_files st" "fs_calls (give_back fd st) = fs_calls st"
  "same_frame fdp (fs_fdp (give_back fd st)) \<longleftrightarrow> same_frame fdp (fs_fdp st)"
  "fd_lomap (fs_fdp (give_back fd st)) = fd_lomap (fs_fdp st)" "fd_himap (fs_fdp (give_back fd st)) = fd_himap (fs_fdp st)"
  "fd_lastfile (fs_fdp (give_back fd st)) = fd_lastfile (fs_fdp st)"
  by (simp_all add: give_back_def same_frame_def)

lemma same_frame_refl [simp]: "same_frame fdp fdp"
  by (simp add: same_frame_def)

lemma give_back_slots:
  "ffs_of (fs_fdp st) = xs[fd := Some fdfile_ctor] \<Longrightarrow>
   ffs_of (fs_fdp (give_back fd st)) = xs[fd := if fd < NDFDFILE then Some fdfile_ctor else None]"
  by (simp add: give_back_def)

text \<open>A slot that is closed.\<close>

lemma free_one_closed:
  assumes fr: "freeing i (fs_fdp st)" and i: "i < nfiles (fs_fdp st)" and none: "fds_of (fs_fdp st) i = None"
  obtains st' where "free_one p i st = Some st'" "freeing (Suc i) (fs_fdp st')" "same_frame (fs_fdp st) (fs_fdp st')"
    "fds_of (fs_fdp st') = fds_of (fs_fdp st)" "fs_files st' = fs_files st" "fs_calls st' = fs_calls st"
proof -
  have n: "i < length (ffs_of (fs_fdp st))" "length (ffs_of (fs_fdp st)) = nfiles (fs_fdp st)" "hi_ok (fd_lomap (fs_fdp st)) (fd_himap (fs_fdp st))"
    using fr i by (simp_all add: freeing_def)
  have "\<exists>st'. free_one p i st = Some st' \<and> ffs_of (fs_fdp st') = (ffs_of (fs_fdp st))[i := if i < NDFDFILE then Some fdfile_ctor else None] \<and>
      same_frame (fs_fdp st) (fs_fdp st') \<and> fd_lomap (fs_fdp st') = fd_lomap (fs_fdp st) \<and> fd_himap (fs_fdp st') = fd_himap (fs_fdp st) \<and>
      fd_lastfile (fs_fdp st') = fd_lastfile (fs_fdp st) \<and> fs_files st' = fs_files st \<and> fs_calls st' = fs_calls st"
  proof (cases "ff_get (fs_fdp st) i")
    case None
    then have "\<not> i < 6" "ffs_of (fs_fdp st) ! i = None" using fr n(1) by (auto simp: freeing_def ff_get_def aget_def)
    moreover from this n(1) have "(ffs_of (fs_fdp st))[i := None] = ffs_of (fs_fdp st)" by (simp add: list_update_same_conv)
    ultimately show ?thesis using n(1) by (intro exI [of _ st]) (simp add: free_one_def same_frame_def)
  next
    case (Some ff)
    then have "ff_file ff = None" using none by (simp add: fds_of_def)
    then have ff: "ff = fdfile_ctor" using freeing_slot(3) [OF fr Some] by simp
    have "ffs_of (fs_fdp st) = (ffs_of (fs_fdp st))[i := Some fdfile_ctor]"
      using Some ff by (metis ff_get_Some_iff list_update_id)
    then have slots: "ffs_of (fs_fdp (give_back i st)) = (ffs_of (fs_fdp st))[i := if i < NDFDFILE then Some fdfile_ctor else None]"
      by (rule give_back_slots)
    have "free_one p i st = Some (give_back i st)"
      using Some ff slot_aget [OF n(1)] by (simp add: free_one_def give_back_def)
    then show ?thesis using slots by (intro exI [of _ "give_back i st"]) simp
  qed
  then obtain st' where s: "free_one p i st = Some st'" "ffs_of (fs_fdp st') = (ffs_of (fs_fdp st))[i := if i < NDFDFILE then Some fdfile_ctor else None]"
      "same_frame (fs_fdp st) (fs_fdp st')" "fd_lomap (fs_fdp st') = fd_lomap (fs_fdp st)" "fd_himap (fs_fdp st') = fd_himap (fs_fdp st)"
      "fd_lastfile (fs_fdp st') = fd_lastfile (fs_fdp st)" "fs_files st' = fs_files st" "fs_calls st' = fs_calls st" by blast
  have "freeing (Suc i) (fs_fdp st')" using freeing_Suc [OF fr i s(3,2)] s(4-6) n(3) by simp
  moreover have "fds_of (fs_fdp st') = fds_of (fs_fdp st)" using fds_clear [OF n(2) i s(2)] none by auto
  ultimately show ?thesis using that s by blast
qed


text \<open>A slot that is open: closed directly, or by \<open>fd_close\<close> when the process may have locks on the file.\<close>

lemma free_one_open:
  assumes fr: "freeing i (fs_fdp st)" and t: "tally (fds_of (fs_fdp st)) (fs_files st)" and m: "fds_of (fs_fdp st) i = Some (fp, c)"
  obtains st' where "free_one p i st = Some st'" "freeing (Suc i) (fs_fdp st')" "same_frame (fs_fdp st) (fs_fdp st')"
    "posix_of st' = fst (posix_drop p (posix_of st) i)"
proof -
  let ?fdp = "fs_fdp st"
  obtain ff where ff: "ff_get ?fdp i = Some ff" "ff_file ff = Some fp" using m by (rule fds_open)
  obtain f where f: "fs_files st fp = Some f" "0 < f_count f" using tally_file [OF t m] .
  have ff0: "ff_refcnt ff = 0" and alloc: "ff_allocated ff" using freeing_slot [OF fr ff(1)] ff(2) by simp_all
  have n: "i < length (ffs_of ?fdp)" "i < nfiles ?fdp" "length (ffs_of ?fdp) = nfiles ?fdp" "hi_ok (fd_lomap ?fdp) (fd_himap ?fdp)"
    using ff_get_bound [OF ff(1)] fr by (simp_all add: freeing_def)
  have ctor: "ff\<lparr>ff_file := None, ff_exclose := False, ff_allocated := False\<rparr> = fdfile_ctor"
    using ff0 by (cases ff) (simp add: fdfile_ctor_def)
  obtain files cs e where r: "released p fp (fs_files st) = (files, cs, e)" by (metis prod_cases3)
  define unlock where "unlock = (if pk_advlock p \<and> f_type f = DTYPE_VNODE then [Posix_unlock fp] else [])"
  have slot: "aget (ffs_of ?fdp) i = Some (Some ff)" using slot_aget [OF n(1)] ff(1) by simp
  have "\<exists>fdp'. free_one p i st = Some (give_back i (st\<lparr>fs_fdp := fdp', fs_files := files, fs_calls := fs_calls st @ unlock @ cs\<rparr>)) \<and>
      same_frame ?fdp fdp' \<and> ffs_of fdp' = (ffs_of ?fdp)[i := Some fdfile_ctor] \<and> hi_ok (fd_lomap fdp') (fd_himap fdp') \<and>
      length (fd_lomap fdp') = length (fd_lomap ?fdp) \<and> length (fd_himap fdp') = length (fd_himap ?fdp) \<and>
      (\<forall>k. k \<noteq> i \<longrightarrow> bm_bit (fd_lomap ?fdp) k \<longrightarrow> bm_bit (fd_lomap fdp') k) \<and>
      (int i \<noteq> fd_lastfile ?fdp \<longrightarrow> fd_lastfile fdp' = fd_lastfile ?fdp)"
  proof (cases "\<not> pk_advlock p \<or> f_type f \<noteq> DTYPE_VNODE")
    case True
    let ?fdp' = "ff_put ?fdp i fdfile_ctor"
    have "closef p fp (st\<lparr>fs_fdp := ?fdp'\<rparr>) = Some (st\<lparr>fs_fdp := ?fdp', fs_files := files, fs_calls := fs_calls st @ unlock @ cs\<rparr>, e)"
      using closef_released [of "st\<lparr>fs_fdp := ?fdp'\<rparr>" fp f p] f r True by (auto simp: unlock_def)
    moreover have "ff_get ?fdp' i = Some fdfile_ctor" using n(1) by (simp add: ff_get_put)
    ultimately have "free_one p i st = Some (give_back i (st\<lparr>fs_fdp := ?fdp', fs_files := files, fs_calls := fs_calls st @ unlock @ cs\<rparr>))"
      using slot ff(2) f(1) ff0 True by (simp add: free_one_def give_back_def ctor)
    then show ?thesis using n(4) by (intro exI [of _ ?fdp']) (simp add: same_frame_def ff_put_def)
  next
    case False
    let ?one = "ff\<lparr>ff_refcnt := 1\<rparr>"
    let ?st = "st\<lparr>fs_fdp := ff_put ?fdp i ?one\<rparr>"
    obtain fdp' where u: "fd_unused (ff_put ?fdp i (ff\<lparr>ff_file := None, ff_exclose := False\<rparr>)) i = Some fdp'" "same_frame ?fdp fdp'"
      "ffs_of fdp' = (ffs_of ?fdp)[i := Some fdfile_ctor]"
      "hi_ok (fd_lomap fdp') (fd_himap fdp')" "length (fd_lomap fdp') = length (fd_lomap ?fdp)"
      "length (fd_himap fdp') = length (fd_himap ?fdp)" "\<And>k. k \<noteq> i \<Longrightarrow> bm_bit (fd_lomap ?fdp) k \<Longrightarrow> bm_bit (fd_lomap fdp') k"
      "int i \<noteq> fd_lastfile ?fdp \<Longrightarrow> fd_lastfile fdp' = fd_lastfile ?fdp"
      using freeing_unused [OF fr ff(1) alloc] unfolding ctor by blast
    have eq: "?one\<lparr>ff_file := None, ff_exclose := False, ff_refcnt := 0\<rparr> = ff\<lparr>ff_file := None, ff_exclose := False\<rparr>"
      using ff0 by (cases ff) simp
    have "fd_close p ?st i = Some (?st\<lparr>fs_fdp := fdp', fs_files := files, fs_calls := fs_calls ?st @ unlock @ cs\<rparr>, Returned e)"
      unfolding unlock_def using fd_close_last [of ?st i ?one fp f p files cs e fdp'] ff(2) f r u(1) n(1) eq by (simp add: ff_get_put)
    moreover have "ff_get fdp' i = Some fdfile_ctor" using n(1) by (simp add: ff_get_Some_iff u(3))
    moreover have "ref_take ?fdp i = Some (ff_put ?fdp i ?one)" using ff(1) ff0 by (simp add: ref_take_def)
    ultimately have "free_one p i st = Some (give_back i (st\<lparr>fs_fdp := fdp', fs_files := files, fs_calls := fs_calls st @ unlock @ cs\<rparr>))"
      using slot ff(2) f(1) False by (simp add: free_one_def give_back_def)
    then show ?thesis using u(2-8) by blast
  qed
  then obtain fdp' where s: "free_one p i st = Some (give_back i (st\<lparr>fs_fdp := fdp', fs_files := files, fs_calls := fs_calls st @ unlock @ cs\<rparr>))"
      "same_frame ?fdp fdp'" "ffs_of fdp' = (ffs_of ?fdp)[i := Some fdfile_ctor]" "hi_ok (fd_lomap fdp') (fd_himap fdp')"
      "length (fd_lomap fdp') = length (fd_lomap ?fdp)" "length (fd_himap fdp') = length (fd_himap ?fdp)"
      "\<And>k. k \<noteq> i \<Longrightarrow> bm_bit (fd_lomap ?fdp) k \<Longrightarrow> bm_bit (fd_lomap fdp') k"
      "int i \<noteq> fd_lastfile ?fdp \<Longrightarrow> fd_lastfile fdp' = fd_lastfile ?fdp" by blast
  let ?st = "give_back i (st\<lparr>fs_fdp := fdp', fs_files := files, fs_calls := fs_calls st @ unlock @ cs\<rparr>)"
  have slots: "ffs_of (fs_fdp ?st) = (ffs_of ?fdp)[i := if i < NDFDFILE then Some fdfile_ctor else None]"
    by (rule give_back_slots) (simp add: s(3))
  have "freeing (Suc i) (fs_fdp ?st)" using freeing_Suc [OF fr n(2) _ slots] s(2,4-8) by simp
  moreover have "fds_of (fs_fdp ?st) = (fds_of ?fdp)(i := None)" using fds_clear [OF n(3,2) slots] .
  then have "posix_of ?st = fst (posix_drop p (posix_of st) i)"
    using m f(1) r by (simp add: posix_of_def unlock_def)
  ultimately show ?thesis using that [OF s(1)] s(2) by simp
qed


lemma free_one_spec:
  assumes fr: "freeing i (fs_fdp st)" "i < nfiles (fs_fdp st)" and t: "tally (fds_of (fs_fdp st)) (fs_files st)"
  shows "\<exists>st'. free_one p i st = Some st' \<and> freeing (Suc i) (fs_fdp st') \<and> same_frame (fs_fdp st) (fs_fdp st') \<and>
    posix_of st' = fst (posix_drop p (posix_of st) i)"
proof (cases "fds_of (fs_fdp st) i")
  case None
  obtain st' where "free_one p i st = Some st'" "freeing (Suc i) (fs_fdp st')" "same_frame (fs_fdp st) (fs_fdp st')"
    "fds_of (fs_fdp st') = fds_of (fs_fdp st)" "fs_files st' = fs_files st" "fs_calls st' = fs_calls st"
    using free_one_closed [OF fr None] .
  then show ?thesis using None by (simp add: posix_of_def)
next
  case (Some x)
  then obtain fp c where m: "fds_of (fs_fdp st) i = Some (fp, c)" by (cases x) simp
  show ?thesis using free_one_open [OF fr(1) t m] by metis
qed

lemma fd_free_loop_spec:
  assumes t: "tally (fds_of (fs_fdp st)) (fs_files st)"
  shows "freeing i (fs_fdp st) \<Longrightarrow> nfiles (fs_fdp st) = i + k \<Longrightarrow>
    \<exists>st'. fd_free_loop p [i..<i + k] st = Some st' \<and> freeing (i + k) (fs_fdp st') \<and> same_frame (fs_fdp st) (fs_fdp st') \<and>
      posix_of st' = fold (\<lambda>fd s. fst (posix_drop p s fd)) [i..<i + k] (posix_of st)"
  using t
proof (induction k arbitrary: i st)
  case 0
  then show ?case by (simp add: same_frame_def)
next
  case (Suc k)
  obtain st1 where s1: "free_one p i st = Some st1" "freeing (Suc i) (fs_fdp st1)" "same_frame (fs_fdp st) (fs_fdp st1)"
    "posix_of st1 = fst (posix_drop p (posix_of st) i)"
    using free_one_spec [OF Suc.prems(1) _ Suc.prems(3)] Suc.prems(2) by auto
  obtain m' files' calls' e where d: "posix_drop p (posix_of st) i = ((m', files', calls'), e)" by (metis prod.exhaust)
  have "tally m' files'" using drop_tally(2) [OF Suc.prems(3)] d by (simp add: posix_of_def)
  then have t1: "tally (fds_of (fs_fdp st1)) (fs_files st1)" using s1(4) d by (simp add: posix_of_def)
  have list: "[i..<i + Suc k] = i # [Suc i..<Suc i + k]" by (simp add: upt_conv_Cons)
  have "nfiles (fs_fdp st1) = Suc i + k" using s1(3) Suc.prems(2) by (simp add: same_frame_def)
  then obtain st' where "fd_free_loop p [Suc i..<Suc i + k] st1 = Some st'" "freeing (Suc i + k) (fs_fdp st')"
    "same_frame (fs_fdp st1) (fs_fdp st')" "posix_of st' = fold (\<lambda>fd s. fst (posix_drop p s fd)) [Suc i..<Suc i + k] (posix_of st1)"
    using Suc.IH [OF s1(2) _ t1] by blast
  then show ?case unfolding list using s1(1,3,4) by (simp add: same_frame_def)
qed

text \<open>Afterwards the structure is as \<open>filedesc_ctor\<close> made it, which \<open>fd_init\<close> and \<open>fd_copy\<close> rely on.\<close>

lemma fd_free_spec:
  assumes ok: "fs_ok st" and one: "fd_refcnt (fs_fdp st) = 1"
  shows "\<exists>st'. fd_free p st = Some st' \<and> fs_fdp st' = filedesc_ctor \<and>
    (\<lambda>fd. None, fs_files st', fs_calls st') = drop_all p (nfiles (fs_fdp st)) (posix_of st)"
proof -
  let ?n = "nfiles (fs_fdp st)"
  let ?st = "st\<lparr>fs_fdp := (fs_fdp st)\<lparr>fd_refcnt := 0\<rparr>\<rparr>"
  note wf = fs_okD(1) [OF ok] and t = fs_okD(3) [OF ok]
  have fds: "fds_of (fs_fdp ?st) = fds_of (fs_fdp st)" by (simp add: fds_of_def [abs_def])
  then have "freeing 0 (fs_fdp ?st)" "tally (fds_of (fs_fdp ?st)) (fs_files ?st)"
    using ok by (simp_all add: fs_ok_def freeing_0 quiet_def)
  then obtain st1 where s1: "fd_free_loop p [0..<?n] ?st = Some st1" "freeing ?n (fs_fdp st1)" "same_frame (fs_fdp ?st) (fs_fdp st1)"
    "posix_of st1 = drop_all p ?n (posix_of ?st)"
    using fd_free_loop_spec [of ?st 0 ?n p] by (auto simp: drop_all_def)
  have shape: "length (ffs_of (fs_fdp st)) = ?n" "table_size ?n" "fd_dmaps (fs_fdp st) = (?n \<le> 1024)"
    "list_all (\<lambda>n. 20 < n) (dt_link (fd_dt (fs_fdp st)))" "?n = 20 \<longrightarrow> dt_link (fd_dt (fs_fdp st)) = []"
    using wf by (simp_all add: fd_wf_def shape_ok_def)
  have n1: "nfiles (fs_fdp st1) = ?n" "length (ffs_of (fs_fdp st1)) = ?n" "dt_link (fd_dt (fs_fdp st1)) = dt_link (fd_dt (fs_fdp st))"
    "fd_dmaps (fs_fdp st1) = fd_dmaps (fs_fdp st)" "fd_refcnt (fs_fdp st1) = 0"
    using s1(3) shape(1) by (simp_all add: same_frame_def)
  have slots: "ffs_of (fs_fdp st1) ! k = (if k < 6 then Some fdfile_ctor else None)" if "k < ?n" for k
    using s1(2) that n1(1) by (simp add: freeing_def)
  have ge: "20 \<le> ?n" using table_size_ge [OF shape(2)] .
  have front: "take 6 (ffs_of (fs_fdp st1)) = replicate 6 (Some fdfile_ctor)"
    by (rule nth_equalityI) (use ge n1(2) slots in auto)
  let ?dt = "\<lparr>dt_nfiles = 20, dt_link = [], dt_ff = replicate 6 (Some fdfile_ctor) @ replicate 14 None\<rparr>"
  have dt: "(if ?n \<noteq> 20 then do { _ \<leftarrow> fd_dtab_free (fd_dt (fs_fdp st1)); Some \<lparr>dt_nfiles = 20, dt_link = [],
      dt_ff = take 6 (ffs_of (fs_fdp st1)) @ replicate (20 - 6) None\<rparr> } else Some (fd_dt (fs_fdp st1))) = Some ?dt"
  proof (cases "?n = 20")
    case True
    have "ffs_of (fs_fdp st1) = replicate 6 (Some fdfile_ctor) @ replicate 14 None"
      by (rule nth_equalityI) (use True n1(2) slots in \<open>auto simp: nth_append\<close>)
    then have "fd_dt (fs_fdp st1) = ?dt" using True n1(1,3) shape(5) by simp
    then show ?thesis using True by simp
  next
    case False
    then have "fd_dtab_free (fd_dt (fs_fdp st1)) \<noteq> None" using ge shape(4) n1(1,3) by (simp add: fd_dtab_free_def)
    then show ?thesis using False front by auto
  qed
  have maps: "\<not> (NDHISLOTS 20 < NDHISLOTS ?n \<and> fd_dmaps (fs_fdp st1))"
    using shape(3) n1(4) by (auto simp: NDHISLOTS_def NDLOSLOTS_def)
  let ?st' = "st1\<lparr>fs_fdp := filedesc_ctor\<rparr>"
  have "(fs_fdp st1)\<lparr>fd_dt := ?dt, fd_lastfile := - 1, fd_freefile := 0, fd_exclose := False,
      fd_himap := [0], fd_lomap := replicate 32 0, fd_dmaps := True\<rparr> = filedesc_ctor"
    using n1(5) by (simp add: filedesc_ctor_def)
  then have "fd_free p st = Some ?st'"
    using one s1(1) n1(1) dt maps by (simp add: fd_free_def Let_def)
  moreover have "drop_all p ?n (posix_of st) = posix_of st1" using s1(4) fds by (simp add: posix_of_def)
  moreover have "fds_of (fs_fdp st1) k = None" for k
  proof (cases "k < ?n")
    case True
    then show ?thesis using slots [OF True] n1(2) by (simp add: fds_of_def ff_get_def aget_def)
  next
    case False
    then show ?thesis using n1(2) by (simp add: fds_of_def ff_get_def aget_def)
  qed
  then have "fds_of (fs_fdp st1) = (\<lambda>fd. None)" by auto
  ultimately show ?thesis by (intro exI [of _ ?st']) (simp add: posix_of_def)
qed


section \<open>Status flags\<close>

lemma no_change: "c AND m = c \<Longrightarrow> ((a AND m) XOR a) AND c = (0 :: u32)"
  by (auto simp: bit_eq_iff bit_and_iff bit_xor_iff)

lemma set_same: "(a AND NOT m) OR (a AND m) = (a :: u32)"
  by (rule bit_word_eqI) (auto simp: bit_and_iff bit_or_iff bit_not_iff)

lemma setfl_same:
  "\<exists>e. setfl p fp flag (OFLAGS flag) calls = (calls @ [Fo_fcntl fp (flag AND FCNTLFLAGS)], flag, e)"
proof -
  have "((flag AND FCNTLFLAGS) XOR flag) AND FNONBLOCK = 0" "((flag AND FCNTLFLAGS) XOR flag) AND FASYNC = 0"
    using no_change [of FNONBLOCK FCNTLFLAGS flag] no_change [of FASYNC FCNTLFLAGS flag] by simp_all
  moreover have "(flag AND NOT FCNTLFLAGS) OR (flag AND FCNTLFLAGS) = flag" by (rule set_same)
  ultimately show ?thesis
    by (auto simp: setfl_def OFLAGS_def FFLAGS_def do_fcntl_def Let_def)
qed

lemma fcntl_getfl_spec:
  assumes ok: "fs_ok st" and m: "fds_of (fs_fdp st) fd = Some (fp, c)" and f: "fs_files st fp = Some f"
  obtains st' where "fcntl_getfl p st fd = Some (st', Inr (OFLAGS (f_flag f)))" "fs_ok st'" "posix_of st' = posix_of st"
proof -
  obtain ff where ff: "ff_get (fs_fdp st) fd = Some ff" "ff_file ff = Some fp" using m by (rule fds_open)
  obtain st' where "fd_putfile p (holding st fd ff) fd = Some (st', Returned 0)" "fs_ok st'" "posix_of st' = posix_of st"
    using putfile_holding [OF ok ff] by metis
  then show ?thesis using that getfile_holding(1) [OF ok ff] f by (simp add: fcntl_getfl_def)
qed

lemma fcntl_setfl_spec:
  assumes ok: "fs_ok st" and m: "fds_of (fs_fdp st) fd = Some (fp, c)" and f: "fs_files st fp = Some f"
    and set: "setfl p fp (f_flag f) arg (fs_calls st) = (calls, flag, e)"
  obtains st' where "fcntl_setfl p st fd arg = Some (st', e)" "fs_ok st'" "fds_of (fs_fdp st') = fds_of (fs_fdp st)"
    "fs_files st' = (fs_files st)(fp \<mapsto> f\<lparr>f_flag := flag\<rparr>)" "fs_calls st' = calls"
proof -
  let ?files = "(fs_files st)(fp \<mapsto> f\<lparr>f_flag := flag\<rparr>)"
  let ?st = "st\<lparr>fs_files := ?files, fs_calls := calls\<rparr>"
  obtain ff where ff: "ff_get (fs_fdp st) fd = Some ff" "ff_file ff = Some fp" using m by (rule fds_open)
  have "tally (fds_of (fs_fdp st)) ?files" using fs_okD(3) [OF ok] f by (auto simp: tally_def)
  then have ok': "fs_ok ?st" using ok by (simp add: fs_ok_def)
  have ff': "ff_get (fs_fdp ?st) fd = Some ff" using ff(1) by simp
  obtain st' where p: "fd_putfile p (holding ?st fd ff) fd = Some (st', Returned 0)" "fs_ok st'" "posix_of st' = posix_of ?st"
    using putfile_holding [OF ok' ff' ff(2)] by metis
  have "(holding st fd ff)\<lparr>fs_files := ?files, fs_calls := calls\<rparr> = holding ?st fd ff" by (simp add: holding_def)
  then have "fcntl_setfl p st fd arg = Some (st', e)"
    using getfile_holding(1) [OF ok ff] f set p(1) by (simp add: fcntl_setfl_def)
  then show ?thesis using that p(2,3) by (simp add: posix_of_def)
qed

text \<open>Both bits of the access mode together carry into the next flag.\<close>

lemma setfl_carry:
  "fo_fcntl p (length calls) fp FNONBLOCK = 0 \<Longrightarrow> fo_ioctl p (Suc (length calls)) fp False FNONBLOCK = 0 \<Longrightarrow>
   setfl p fp 3 3 calls = (calls @ [Fo_fcntl fp FNONBLOCK, Fo_ioctl fp False FNONBLOCK], 3 OR FNONBLOCK, 0)"
  by (simp add: setfl_def FFLAGS_def do_fcntl_def do_ioctl_def Let_def)

end
