(* ===== verification/Fd_Theorems.thy ===== *)
theory Fd_Theorems
  imports Fd_Exit
begin

text \<open>
  The properties of the descriptor tables: allocation, sequences of system calls, \<open>fork\<close>, \<open>exec\<close> and \<open>exit\<close>,
  and what a program may rely on when it redirects a descriptor.
\<close>

section \<open>What a program relies on\<close>

text \<open>The calls \<open>dup\<close> and \<open>close\<close> as a program sees them: \<open>fds\<close> is what the process has open.\<close>

locale descriptors =
  fixes inv :: "'s \<Rightarrow> bool" and fds :: "'s \<Rightarrow> nat \<rightharpoonup> nat \<times> bool" and lim :: nat
    and dup :: "nat \<Rightarrow> 's \<Rightarrow> ('s \<times> (int + nat)) option"
    and close :: "nat \<Rightarrow> 's \<Rightarrow> ('s \<times> (int + nat)) option"
  assumes dup_law: "inv s \<Longrightarrow> fds s fd = Some (fp, c) \<Longrightarrow>
      \<exists>s' r. dup fd s = Some (s', r) \<and> inv s' \<and>
        (case least_fd (fds s) 0 lim of
           None \<Rightarrow> r = Inl EMFILE \<and> fds s' = fds s
         | Some new \<Rightarrow> r = Inr new \<and> fds s' = (fds s)(new \<mapsto> (fp, False)))"
    and close_law: "inv s \<Longrightarrow> \<exists>s' r. close fd s = Some (s', r) \<and> inv s' \<and> fds s' = (fds s)(fd := None)"
begin

lemma least_hole:
  assumes "n < lim" "\<And>k. k < n \<Longrightarrow> m k \<noteq> None" "m n = None"
  shows "least_fd m 0 lim = Some n"
  unfolding least_fd_def find_Some_iff using assms by (intro exI [of _ n]) auto

lemma redirect:
  assumes s: "inv s" and n: "n < lim" "\<And>k. k < n \<Longrightarrow> fds s k \<noteq> None" and fd: "fds s fd = Some (fp, c)" "fd \<noteq> n"
  shows "\<exists>s1 r s2. close n s = Some (s1, r) \<and> dup fd s1 = Some (s2, Inr n) \<and> inv s2 \<and> fds s2 = (fds s)(n \<mapsto> (fp, False))"
proof -
  obtain s1 r where c: "close n s = Some (s1, r)" "inv s1" "fds s1 = (fds s)(n := None)"
    using close_law [OF s] by blast
  have "least_fd (fds s1) 0 lim = Some n" using least_hole [of n "fds s1"] n c(3) by simp
  moreover have "fds s1 fd = Some (fp, c)" using c(3) fd by simp
  ultimately show ?thesis using dup_law [OF c(2), of fd fp c] c by auto
qed

text \<open>A descriptor that was duplicated and closed again leaves the others as they were.\<close>

lemma dup_close:
  assumes s: "inv s" and fd: "fds s fd = Some (fp, c)" and room: "least_fd (fds s) 0 lim = Some n"
  shows "\<exists>s1 s2 r. dup fd s = Some (s1, Inr n) \<and> close n s1 = Some (s2, r) \<and> inv s2 \<and> fds s2 = fds s"
proof -
  have free: "fds s n = None" using room by (auto simp: least_fd_def find_Some_iff)
  obtain s1 where d: "dup fd s = Some (s1, Inr n)" "inv s1" "fds s1 = (fds s)(n \<mapsto> (fp, False))"
    using dup_law [OF s fd] room by auto
  moreover obtain s2 r where "close n s1 = Some (s2, r)" "inv s2" "fds s2 = (fds s1)(n := None)"
    using close_law [OF d(2)] by blast
  moreover have "(fds s)(n := None) = fds s" using free by auto
  ultimately show ?thesis by auto
qed

end

interpretation fdc: descriptors "\<lambda>st. fs_ok st \<and> unat (maxfiles p) \<le> 2 ^ 30" "\<lambda>st. fds_of (fs_fdp st)" "fd_lim p"
  "\<lambda>fd. fd_run p (Dup fd)" "\<lambda>fd. fd_run p (Close fd)" for p
proof unfold_locales
  fix s fd fp c
  assume s: "fs_ok s \<and> unat (maxfiles p) \<le> 2 ^ 30" and fd: "fds_of (fs_fdp s) fd = Some (fp, c)"
  obtain s' r where "fd_run p (Dup fd) s = Some (s', r)" "fs_ok s'" "posix_run p (Dup fd) (posix_of s) = (posix_of s', r)"
    using fd_run_refines [of s p "Dup fd"] s by auto
  then show "\<exists>s' r. fd_run p (Dup fd) s = Some (s', r) \<and> (fs_ok s' \<and> unat (maxfiles p) \<le> 2 ^ 30) \<and>
      (case least_fd (fds_of (fs_fdp s)) 0 (fd_lim p) of
         None \<Rightarrow> r = Inl EMFILE \<and> fds_of (fs_fdp s') = fds_of (fs_fdp s)
       | Some new \<Rightarrow> r = Inr new \<and> fds_of (fs_fdp s') = (fds_of (fs_fdp s))(new \<mapsto> (fp, False)))"
    using s fd by (auto simp: posix_of_def split: option.splits)
next
  fix s fd
  assume s: "fs_ok s \<and> unat (maxfiles p) \<le> 2 ^ 30"
  obtain s' error where c: "sys_close p s fd = Some (s', Returned (if error = - 3 then 4 else error))" "fs_ok s'"
    "posix_drop p (posix_of s) fd = (posix_of s', error)" using sys_close_refines s by blast
  then have "fd_run p (Close fd) s = Some (s', Inl (if error = - 3 then 4 else error))" by (simp add: returned_def)
  then show "\<exists>s' r. fd_run p (Close fd) s = Some (s', r) \<and> (fs_ok s' \<and> unat (maxfiles p) \<le> 2 ^ 30) \<and>
      fds_of (fs_fdp s') = (fds_of (fs_fdp s))(fd := None)"
    using s c(2) posix_drop_fds [OF c(3)] by blast
qed

section \<open>Properties\<close>

text \<open>The process and the file of the examples: 128 descriptors at most, and a regular file.\<close>

definition proc128 :: proc where
  "proc128 = \<lparr>rlim_cur = 128, maxfiles = 1024, pk_advlock = False, l_cred = 0, fo_close = (\<lambda>_. 0),
     fo_fcntl = (\<lambda>_ _ _. 0), fo_ioctl = (\<lambda>_ _ _ _. 0)\<rparr>"

definition plain_file :: file_t where
  "plain_file = \<lparr>f_count = 0, f_flag = 3, f_type = DTYPE_VNODE, f_ops = True, f_advice = 0, f_offset = 0, f_cred = 0\<rparr>"

definition found :: open_env where
  "found = \<lparr>oe_error = 0, oe_dupfd = 0, oe_advlock = 0\<rparr>"

text \<open>The flags of \<open>open\<close>: reading and writing.\<close>

abbreviation (input) O_RDWR :: u32 where "O_RDWR \<equiv> 2"


definition marked_state :: fd_state where
  "marked_state = the (map_option fst (fd_runs proc128 [Open 7 plain_file found O_RDWR, Dup 0, Setfd 0 True] new_state))"

lemma proc128_max: "unat (maxfiles proc128) \<le> 2 ^ 30"
  by (simp add: proc128_def)

lemma proc128_lim: "fd_lim proc128 = 128"
  by (simp add: proc128_def fd_lim_def)

lemma marked_state_facts:
  "fs_ok marked_state" "fds_of (fs_fdp marked_state) = [0 \<mapsto> (7, True), 1 \<mapsto> (7, False)]"
  "fd_exclose (fs_fdp marked_state)" "fd_refcnt (fs_fdp marked_state) = 1"
proof -
  let ?cs = "[Open 7 plain_file found O_RDWR, Dup 0, Setfd 0 True]"
  obtain st rs where r: "fd_runs proc128 ?cs new_state = Some (st, rs)" "fs_ok st"
    "posix_runs proc128 ?cs (posix_of new_state) = (posix_of st, rs)"
    using fd_runs_refine [OF new_state_ok proc128_max, of ?cs] by auto
  have "marked_state = st" using r(1) by (simp add: marked_state_def)
  then show "fs_ok marked_state" using r(2) by simp
  show "fds_of (fs_fdp marked_state) = [0 \<mapsto> (7, True), 1 \<mapsto> (7, False)]"
    using r(3) \<open>marked_state = st\<close> new_state_fds
    by (auto simp: posix_of_def new_state_def plain_file_def found_def FFLAGS_def lock_calls_def opened_file_def posix_setfd_def referred_def proc128_lim least_fd_def upt_rec fun_eq_iff split: if_splits)
  show "fd_exclose (fs_fdp marked_state)" "fd_refcnt (fs_fdp marked_state) = 1"
    by code_simp+
qed

text \<open>C10. \<open>fd_alloc\<close> takes the lowest descriptor that is free, not below the one wanted, and marks it
  in both bit maps; when none is free below the limit and the size of the table it changes nothing and
  returns \<open>EMFILE\<close> at the limit and \<open>ENOSPC\<close> when the table can grow.  No assertion in it fails.\<close>

theorem fd_alloc_lowest:
  assumes "fd_wf fdp"
  shows "\<exists>r. lowest_free fdp (min (nfiles fdp) (fd_lim p)) want r \<and>
    (case r of
       None \<Rightarrow> fd_alloc p fdp want = Some (fdp, Inl (if fd_lim p \<le> nfiles fdp then EMFILE else ENOSPC))
     | Some i \<Rightarrow> \<exists>fdp'. fd_alloc p fdp want = Some (fdp', Inr i) \<and> fd_wf fdp' \<and> same_frame fdp fdp' \<and>
         ff_get fdp' = (ff_get fdp)(i \<mapsto> (slot_or_new fdp i)\<lparr>ff_allocated := True\<rparr>))"
  using assms by (rule fd_alloc_spec)

theorem fd_alloc_lowest_witness:
  "fd_wf fd_init \<and> (\<exists>r. lowest_free fd_init (min (nfiles fd_init) (fd_lim proc128)) 3 r \<and>
    (case r of
       None \<Rightarrow> fd_alloc proc128 fd_init 3 = Some (fd_init, Inl (if fd_lim proc128 \<le> nfiles fd_init then EMFILE else ENOSPC))
     | Some i \<Rightarrow> \<exists>fdp'. fd_alloc proc128 fd_init 3 = Some (fdp', Inr i) \<and> fd_wf fdp' \<and> same_frame fd_init fdp' \<and>
         ff_get fdp' = (ff_get fd_init)(i \<mapsto> (slot_or_new fd_init i)\<lparr>ff_allocated := True\<rparr>)))"
  using fd_wf_init fd_alloc_lowest [OF fd_wf_init, of proc128 3] by blast

text \<open>The loop of \<open>fd_dup\<close> and \<open>fd_allocfile\<close>, which grows the table while \<open>fd_alloc\<close> has no room,
  ends: it returns the lowest free descriptor below the limit of the process, however large the table
  has to become, or \<open>EMFILE\<close> when all of them are taken.\<close>

theorem fd_alloc_loop_ends:
  assumes "fd_wf fdp" "fd_lim p \<le> 2 ^ 30"
  shows "(\<exists>i fdp'. alloc_loop p fdp want = Some (fdp', Inr i) \<and> fd_wf fdp' \<and> i < fd_lim p \<and> want \<le> int i \<and>
      \<not> used_slot fdp i \<and> used_slot fdp' i \<and> (\<forall>fd. want \<le> int fd \<and> fd < i \<longrightarrow> used_slot fdp fd)) \<or>
    (\<exists>fdp'. alloc_loop p fdp want = Some (fdp', Inl EMFILE) \<and> fd_wf fdp' \<and> (\<forall>fd. want \<le> int fd \<and> fd < fd_lim p \<longrightarrow> used_slot fdp fd))"
proof -
  obtain r where r: "lowest_free fdp (fd_lim p) want r" "allocated p fdp want r" using alloc_loop_spec [OF assms] by blast
  show ?thesis
  proof (cases r)
    case None
    then show ?thesis using r by (auto simp: lowest_free_def allocated_def)
  next
    case (Some i)
    then obtain fdp' where "alloc_loop p fdp want = Some (fdp', Inr i)" "fd_wf fdp'"
      "ff_get fdp' = (ff_get fdp)(i \<mapsto> (slot_or_new fdp i)\<lparr>ff_allocated := True\<rparr>)"
      using r(2) by (auto simp: allocated_def)
    then show ?thesis using r(1) Some by (auto simp: lowest_free_def used_slot_def)
  qed
qed

theorem fd_alloc_loop_ends_witness:
  "fd_wf fd_init \<and> fd_lim proc128 \<le> 2 ^ 30 \<and>
   ((\<exists>i fdp'. alloc_loop proc128 fd_init 100 = Some (fdp', Inr i) \<and> fd_wf fdp' \<and> i < fd_lim proc128 \<and> 100 \<le> int i \<and>
      \<not> used_slot fd_init i \<and> used_slot fdp' i \<and> (\<forall>fd. 100 \<le> int fd \<and> fd < i \<longrightarrow> used_slot fd_init fd)) \<or>
    (\<exists>fdp'. alloc_loop proc128 fd_init 100 = Some (fdp', Inl EMFILE) \<and> fd_wf fdp' \<and>
      (\<forall>fd. 100 \<le> int fd \<and> fd < fd_lim proc128 \<longrightarrow> used_slot fd_init fd)))"
  using fd_alloc_loop_ends [OF fd_wf_init, of proc128 100] fd_wf_init by (simp add: proc128_lim)



text \<open>The flag \<open>O_NOSIGPIPE\<close> of \<open>dup3\<close>: \<^verbatim>\<open>dup.2\<close> lists it among the supported flags, and the description
  sets it in the file; \<open>fd_dup2\<close> returns \<open>EINVAL\<close>.\<close>

theorem dup3_refuses_nosigpipe:
  assumes "fds_of (fs_fdp st) fd = Some (fp, c)" "to < unat (rlim_cur p)" "to < unat (maxfiles p)" "fd \<noteq> to"
  shows "fd_dup2 p st fp to FNOSIGPIPE = Some (st, Returned EINVAL) \<and>
    snd (posix_dup2 p (posix_of st) fd to FNOSIGPIPE) = Inr to"
proof -
  have f: "(FNOSIGPIPE :: u32) AND NOT (O_CLOEXEC OR FNONBLOCK) \<noteq> 0" by simp
  show ?thesis using assms f by (auto simp: fd_dup2_def posix_of_def split: prod.splits)
qed




text \<open>C36. A program that closes descriptor \<open>n\<close> and then calls \<open>dup\<close>, with every descriptor below \<open>n\<close> open,
  gets \<open>n\<close>: the idiom by which a shell redirects its standard input and output works.\<close>

theorem fd_redirect:
  assumes "fs_ok st" "unat (maxfiles p) \<le> 2 ^ 30" "n < fd_lim p" "\<And>k. k < n \<Longrightarrow> fds_of (fs_fdp st) k \<noteq> None"
    "fds_of (fs_fdp st) fd = Some (fp, c)" "fd \<noteq> n"
  shows "\<exists>st1 r st2. fd_run p (Close n) st = Some (st1, r) \<and> fd_run p (Dup fd) st1 = Some (st2, Inr n) \<and> fs_ok st2 \<and>
    fds_of (fs_fdp st2) = (fds_of (fs_fdp st))(n \<mapsto> (fp, False))"
  using fdc.redirect [of st p n fd fp c] assms by blast

theorem fd_redirect_witness:
  "fs_ok marked_state \<and> unat (maxfiles proc128) \<le> 2 ^ 30 \<and> 0 < fd_lim proc128 \<and>
   fds_of (fs_fdp marked_state) 1 = Some (7, False) \<and>
   (\<exists>st1 r st2. fd_run proc128 (Close 0) marked_state = Some (st1, r) \<and> fd_run proc128 (Dup 1) st1 = Some (st2, Inr 0) \<and> fs_ok st2 \<and>
    fds_of (fs_fdp st2) = (fds_of (fs_fdp marked_state))(0 \<mapsto> (7, False)))"
  using fd_redirect [OF marked_state_facts(1) proc128_max, of 0 1 7 False] marked_state_facts(1,2) proc128_max
  by (simp add: proc128_lim)

text \<open>C27. \<open>fd_copy\<close>, for \<open>fork\<close>, gives the child the descriptors of the parent, the flags included, except
  those of kqueues; each file counts the new references, and the structures of both are well formed.
  This is for a parent none of whose threads is in the middle of opening a descriptor (\<open>fs_ok\<close>): with one
  half open the child is not well formed (\<open>fd_copy_half_open\<close>).\<close>

theorem fd_copy_inherits:
  assumes "fs_ok st"
  shows "\<exists>new files. fd_copy st = Some (new, files) \<and> fds_of new = inherited st \<and>
    files = more_refs (inherited st) (fs_files st) \<and> fd_refcnt new = 1 \<and> fd_exclose new = fd_exclose (fs_fdp st) \<and>
    fs_ok (st\<lparr>fs_fdp := new, fs_files := files\<rparr>) \<and> fs_ok (st\<lparr>fs_files := files\<rparr>)"
  using fd_copy_spec [OF assms] by metis

theorem fd_copy_inherits_witness:
  "fs_ok marked_state \<and> (\<exists>new files. fd_copy marked_state = Some (new, files) \<and> fds_of new = inherited marked_state \<and>
    files = more_refs (inherited marked_state) (fs_files marked_state) \<and> fd_refcnt new = 1 \<and>
    fd_exclose new = fd_exclose (fs_fdp marked_state) \<and>
    fs_ok (marked_state\<lparr>fs_fdp := new, fs_files := files\<rparr>) \<and> fs_ok (marked_state\<lparr>fs_files := files\<rparr>))"
  using marked_state_facts(1) fd_copy_inherits [OF marked_state_facts(1)] by blast

text \<open>A fork while another thread has a descriptor half open.  Descriptors 0, 1 and 2 are open, a thread
  has allocated 3 and not made it visible, and another has opened 4: \<open>fd_copy\<close> passes over 3, which is free
  in the child, but keeps \<open>fd_freefile\<close>, which is beyond it.  The first \<open>dup\<close> of the child returns 5, not the
  lowest free descriptor.\<close>

lemma fd_copy_half_open:
  "do { (st, _) \<leftarrow> fd_runs proc128 [Open 7 plain_file found O_RDWR, Dup 0, Dup 0] new_state;
        (st, r1) \<leftarrow> fd_allocfile proc128 (Some (8, plain_file)) st;
        (st, r2) \<leftarrow> sys_dup proc128 st 0;
        (new, files) \<leftarrow> fd_copy st;
        (st', r3) \<leftarrow> sys_dup proc128 (st\<lparr>fs_fdp := new, fs_files := files\<rparr>) 0;
        Some (r1, r2, fd_isused new 3, 3 < fd_freefile new, r3) } =
   Some (Inr (8, 3), Inr 4, Some False, True, Inr 5)"
  by code_simp

text \<open>C26. \<open>fd_closeexec\<close>, for \<open>exec\<close>, closes exactly the descriptors marked close-on-exec, provided
  \<open>fd_exclose\<close> is set when one is; a structure shared with another process is left to that process and
  replaced by a copy first.\<close>

theorem fd_closeexec_closes:
  assumes "fs_ok st" "\<And>fd fp. fds_of (fs_fdp st) fd = Some (fp, True) \<Longrightarrow> fd_exclose (fs_fdp st)"
  shows "\<exists>st' old. fd_closeexec p st = Some (st', old, Returned 0) \<and> fs_ok st' \<and>
    fds_of (fs_fdp st') = strip 0 (if 1 < fd_refcnt (fs_fdp st) then inherited st else fds_of (fs_fdp st)) \<and>
    old = (if 1 < fd_refcnt (fs_fdp st) then Some ((fs_fdp st)\<lparr>fd_refcnt := fd_refcnt (fs_fdp st) - 1\<rparr>) else None)"
  using fd_closeexec_spec [OF assms(1)] assms(2) by blast

theorem fd_closeexec_closes_witness:
  "fs_ok marked_state \<and> fd_exclose (fs_fdp marked_state) \<and>
   (\<exists>st' old. fd_closeexec proc128 marked_state = Some (st', old, Returned 0) \<and> fs_ok st' \<and>
     fds_of (fs_fdp st') = [1 \<mapsto> (7, False)] \<and> old = None)"
proof -
  have "strip 0 [0 \<mapsto> (7, True), 1 \<mapsto> (7, False)] = [1 \<mapsto> (7, False)]" by (auto simp: strip_def fun_eq_iff)
  then show ?thesis using fd_closeexec_closes [of marked_state proc128] marked_state_facts by simp
qed

lemma posix_dupfd_flag: "posix_dupfd p s fd newmin c = (s', Inr new) \<Longrightarrow> \<exists>fp. fst s' new = Some (fp, c)"
  by (cases s) (auto simp: posix_dupfd_def split: if_splits option.splits)

text \<open>C25. \<open>F_DUPFD_CLOEXEC\<close> marks the descriptor it makes but does not set \<open>fd_exclose\<close>: when no other
  descriptor of the process was marked, \<open>fd_closeexec\<close> returns at once and the new descriptor, which
  was to be closed, stays open across \<open>exec\<close>.\<close>

theorem cloexec_dup_survives:
  assumes st: "fs_ok st" "unat (maxfiles p) \<le> 2 ^ 30" "\<not> fd_exclose (fs_fdp st)" "fd_refcnt (fs_fdp st) \<le> 1"
    and dup: "fcntl_dupfd p st fd newmin True = Some (st', Inr new)"
  shows "\<exists>fp. fds_of (fs_fdp st') new = Some (fp, True) \<and> fd_closeexec p st' = Some (st', None, Returned 0)"
proof -
  have "same_process (fs_fdp st) (fs_fdp st')" using dupfd_keeps_exclose [OF st(1,2) dup] .
  then have "fd_closeexec p st' = Some (st', None, Returned 0)" using st(3,4) by (simp add: fd_closeexec_def same_process_def)
  moreover have "posix_dupfd p (posix_of st) fd newmin True = (posix_of st', Inr new)"
    using fcntl_dupfd_refines [OF st(1,2), of fd newmin True] dup by simp
  then have "\<exists>fp. fds_of (fs_fdp st') new = Some (fp, True)" using posix_dupfd_flag [of p "posix_of st"] by (fastforce simp: posix_of_def)
  ultimately show ?thesis by blast
qed

theorem cloexec_dup_survives_witness:
  "\<exists>st st'. fd_runs proc128 [Open 7 plain_file found O_RDWR] new_state = Some (st, [Inr 0]) \<and> fs_ok st \<and> \<not> fd_exclose (fs_fdp st) \<and>
     fcntl_dupfd proc128 st 0 0 True = Some (st', Inr 1) \<and>
     (\<exists>fp. fds_of (fs_fdp st') 1 = Some (fp, True) \<and> fd_closeexec proc128 st' = Some (st', None, Returned 0))"
proof -
  obtain st rs where r: "fd_runs proc128 [Open 7 plain_file found O_RDWR] new_state = Some (st, rs)" "fs_ok st"
    using fd_runs_refine [OF new_state_ok proc128_max] by blast
  have e: "case fd_runs proc128 [Open 7 plain_file found O_RDWR] new_state of None \<Rightarrow> False
      | Some (st, rs) \<Rightarrow> rs = [Inr 0] \<and> \<not> fd_exclose (fs_fdp st) \<and> fd_refcnt (fs_fdp st) = 1 \<and>
          (case fcntl_dupfd proc128 st 0 0 True of None \<Rightarrow> False | Some (_, r) \<Rightarrow> r = Inr 1)"
    by code_simp
  then obtain st' where d: "fcntl_dupfd proc128 st 0 0 True = Some (st', Inr 1)"
    using r(1) by (auto split: option.splits)
  then show ?thesis using cloexec_dup_survives [OF r(2) proc128_max _ _ d] e r by auto
qed


text \<open>C28. \<open>fd_free\<close>, for the last process that uses a structure, closes every descriptor in order, as \<open>close\<close>
  would: each file loses as many references as it had descriptors, a file that no one else refers to is
  released, and the structure goes back to the cache as its constructor made it, whether a slot was
  closed directly or by \<open>fd_close\<close>.\<close>

theorem fd_free_releases:
  assumes "fs_ok st" "fd_refcnt (fs_fdp st) = 1"
  shows "\<exists>st'. fd_free p st = Some st' \<and> fs_fdp st' = filedesc_ctor \<and>
    fs_files st' = fewer_refs (fds_of (fs_fdp st)) (fs_files st) \<and>
    fs_calls st' = snd (snd (drop_all p (nfiles (fs_fdp st)) (posix_of st)))"
proof -
  let ?n = "nfiles (fs_fdp st)"
  obtain st' where s: "fd_free p st = Some st'" "fs_fdp st' = filedesc_ctor"
    "(\<lambda>fd. None, fs_files st', fs_calls st') = drop_all p ?n (posix_of st)" using fd_free_spec [OF assms] by blast
  obtain calls' where "drop_all p ?n (posix_of st) = (fds_of (fs_fdp st) |` {?n..}, fewer_refs (upto_fd ?n (fds_of (fs_fdp st))) (fs_files st), calls')"
    using drop_all_spec [OF fs_okD(3) [OF assms(1)]] unfolding posix_of_def by blast
  moreover have "upto_fd ?n (fds_of (fs_fdp st)) = fds_of (fs_fdp st)" using fds_within [OF assms(1)] by (auto simp: restrict_map_def fun_eq_iff)
  ultimately show ?thesis using s by (metis prod.inject snd_conv)
qed

theorem fd_free_releases_witness:
  "fs_ok marked_state \<and> fd_refcnt (fs_fdp marked_state) = 1 \<and>
   (\<exists>st'. fd_free proc128 marked_state = Some st' \<and> fs_fdp st' = filedesc_ctor \<and>
    fs_files st' = fewer_refs (fds_of (fs_fdp marked_state)) (fs_files marked_state) \<and>
    fs_calls st' = snd (snd (drop_all proc128 (nfiles (fs_fdp marked_state)) (posix_of marked_state))))"
  using marked_state_facts(1,4) fd_free_releases [OF marked_state_facts(1,4)] by blast

text \<open>\<open>F_CLOSEM\<close> ends, after at most one round more than there are descriptors up to the last one, and
  closes exactly the descriptors from the given one on.\<close>

theorem fcntl_closem_ends:
  assumes "fs_ok st"
  shows "\<exists>st'. fcntl_closem (Suc (nat (fd_lastfile (fs_fdp st) + 1))) p st fd = Some (st', Returned 0) \<and> fs_ok st' \<and>
    fds_of (fs_fdp st') = fds_of (fs_fdp st) |` {..<fd}"
  using closem_spec [OF assms] by blast

theorem fcntl_closem_ends_witness:
  "fs_ok marked_state \<and>
   (\<exists>st'. fcntl_closem (Suc (nat (fd_lastfile (fs_fdp marked_state) + 1))) proc128 marked_state 1 = Some (st', Returned 0) \<and> fs_ok st' \<and>
     fds_of (fs_fdp st') = fds_of (fs_fdp marked_state) |` {..<1})"
  using marked_state_facts(1) fcntl_closem_ends [OF marked_state_facts(1)] by blast

text \<open>Setting the status flags to what \<open>F_GETFL\<close> returned changes nothing, whatever the file's own
  operations answer: the access mode, which \<open>FFLAGS\<close> and \<open>OFLAGS\<close> convert, the flags and the descriptors
  are as before.\<close>

theorem getfl_setfl_keeps:
  assumes "fs_ok st" "fds_of (fs_fdp st) fd = Some (fp, c)"
  shows "\<exists>st1 v st2 e. fcntl_getfl p st fd = Some (st1, Inr v) \<and> fcntl_setfl p st1 fd v = Some (st2, e) \<and>
    fs_ok st2 \<and> fds_of (fs_fdp st2) = fds_of (fs_fdp st) \<and> fs_files st2 = fs_files st"
proof -
  obtain f where f: "fs_files st fp = Some f" using tally_file [OF fs_okD(3) [OF assms(1)] assms(2)] .
  obtain st1 where s1: "fcntl_getfl p st fd = Some (st1, Inr (OFLAGS (f_flag f)))" "fs_ok st1" "posix_of st1 = posix_of st"
    using fcntl_getfl_spec [OF assms f] .
  have s1': "fds_of (fs_fdp st1) fd = Some (fp, c)" "fs_files st1 fp = Some f" using s1(3) assms(2) f by (simp_all add: posix_of_def)
  obtain calls e where "setfl p fp (f_flag f) (OFLAGS (f_flag f)) (fs_calls st1) = (calls, f_flag f, e)" using setfl_same by blast
  then obtain st2 where "fcntl_setfl p st1 fd (OFLAGS (f_flag f)) = Some (st2, e)" "fs_ok st2" "fds_of (fs_fdp st2) = fds_of (fs_fdp st1)"
    "fs_files st2 = (fs_files st1)(fp \<mapsto> f\<lparr>f_flag := f_flag f\<rparr>)" using fcntl_setfl_spec [OF s1(2) s1'] by metis
  moreover have "f\<lparr>f_flag := f_flag f\<rparr> = f" by (cases f) simp
  ultimately show ?thesis using s1 s1'(2) by (auto simp: posix_of_def)
qed

theorem getfl_setfl_keeps_witness:
  "fs_ok marked_state \<and> fds_of (fs_fdp marked_state) 1 = Some (7, False) \<and>
   (\<exists>st1 v st2 e. fcntl_getfl proc128 marked_state 1 = Some (st1, Inr v) \<and> fcntl_setfl proc128 st1 1 v = Some (st2, e) \<and>
    fs_ok st2 \<and> fds_of (fs_fdp st2) = fds_of (fs_fdp marked_state) \<and> fs_files st2 = fs_files marked_state)"
  using getfl_setfl_keeps [OF marked_state_facts(1), of 1 7 False proc128] marked_state_facts(1,2) by simp

end
