(* ===== verification/Fd_Protocol.thy ===== *)
theory Fd_Protocol
  imports Fd_Exit
begin

text \<open>
  Threads of one process that use one descriptor at the same time.  \<open>fd_getfile\<close> and \<open>fd_putfile\<close> work
  without the lock, on a reference count whose top bit says that a thread is closing the descriptor;
  \<open>fd_close\<close> takes the file out of the slot and waits until the count has been zero once.

  A step is one atomic action of one thread: an atomic operation on \<open>ff_refcnt\<close>, a read of \<open>ff_file\<close>, or
  what is done between taking the lock and the next action that another thread can see.  The actions
  are the definitions of \<open>Fd_Ops\<close> that \<open>fd_getfile\<close>, \<open>fd_putfile\<close> and \<open>fd_close\<close> are composed of, on the path they
  take in a process with more than one thread (\<open>fd_refcnt\<close> above one); the slot is taken by \<open>fd_alloc\<close>, and
  filled by \<open>fd_affix\<close> or given up by \<open>fd_abort\<close>.  The
  files that the slot refers to, one after the other, are numbered in the order they are opened.
\<close>

section \<open>The reference count as a word\<close>

text \<open>\<open>n\<close> references, and whether the descriptor is being closed.\<close>

definition refs :: "nat \<Rightarrow> bool \<Rightarrow> u32" where
  "refs n c = of_nat n OR (if c then bit_of 31 else 0)"

lemma fr_words: "FR_CLOSING = bit_of 31" "FR_MASK = mask 31"
  by (simp_all add: bit_of_def mask_eq_exp_minus_1)

lemma low_bits: "n < 2 ^ 31 \<Longrightarrow> bit (of_nat n :: u32) k \<Longrightarrow> k < 31"
proof (rule ccontr)
  assume n: "n < 2 ^ 31" and k: "bit (of_nat n :: u32) k" "\<not> k < 31"
  have len: "k < 32" using bit_imp_le_length [OF k(1)] by simp
  then have "k = 31" using k(2) by simp
  moreover have "bit n k" using k(1) len by (simp add: bit_of_nat_iff)
  ultimately show False using n by (simp add: bit_iff_odd)
qed

lemma refs_mask: "n < 2 ^ 31 \<Longrightarrow> refs n c AND FR_MASK = refs n False"
  unfolding fr_words using low_bits [of n] by (intro bit_word_eqI) (auto simp: refs_def bit_mask_iff bit_mask)

lemma refs_flag: "n < 2 ^ 31 \<Longrightarrow> refs n c AND FR_CLOSING = (if c then FR_CLOSING else 0)"
  unfolding fr_words using low_bits [of n] by (intro bit_word_eqI) (auto simp: refs_def bit_mask)

lemma refs_or: "refs n c OR FR_CLOSING = refs n True"
  unfolding fr_words by (intro bit_word_eqI) (auto simp: refs_def bit_or_iff)

lemma refs_plus: "n < 2 ^ 31 \<Longrightarrow> refs n c = of_nat n + (if c then bit_of 31 else 0)"
proof -
  assume "n < 2 ^ 31"
  then have "(of_nat n :: u32) AND bit_of 31 = 0" using low_bits [of n 31] by (auto simp: and_bit_of_eq_0)
  then show ?thesis by (simp add: refs_def disjunctive_add_eq_or)
qed

lemma refs_inc: "Suc n < 2 ^ 31 \<Longrightarrow> refs n c + 1 = refs (Suc n) c"
  by (simp add: refs_plus)

lemma refs_dec: "Suc n < 2 ^ 31 \<Longrightarrow> refs (Suc n) c - 1 = refs n c"
  by (simp add: refs_plus)

lemma refs_0 [simp]: "refs 0 False = 0"
  by (simp add: refs_def)

lemma refs_inj: "n < 2 ^ 31 \<Longrightarrow> m < 2 ^ 31 \<Longrightarrow> refs n c = refs m d \<Longrightarrow> n = m \<and> c = d"
proof -
  assume n: "n < 2 ^ 31" and m: "m < 2 ^ 31" and eq: "refs n c = refs m d"
  have "refs n False = refs m False" using refs_mask [OF n, of c] refs_mask [OF m, of d] unfolding eq by simp
  then have "unat (of_nat n :: u32) = unat (of_nat m :: u32)" by (simp add: refs_def)
  then have "n = m" using n m by (simp add: unat_of_nat_small)
  moreover have "c = d" using refs_flag [OF n, of c] refs_flag [OF m, of d] unfolding eq by (auto split: if_splits)
  ultimately show ?thesis by blast
qed

section \<open>Threads\<close>

text \<open>What a thread does next: read \<open>ff_file\<close> in \<open>fd_getfile\<close> (\<open>Got\<close>); use the file; give the reference
  back in \<open>fd_putfile\<close> (\<open>Put\<close>, then \<open>Cas\<close> with the value expected); call \<open>fd_close\<close>, because the program
  asked for it (\<open>Closing\<close>) or from \<open>fd_putfile\<close>, which saw that another thread is closing (\<open>Join\<close>).  In
  \<open>fd_close\<close>: drop its own reference, mark the descriptor, take the lock again after \<open>fo_restart\<close>
  (\<open>Wait\<close>), sleep, clear the mark, release POSIX locks, release the slot.  \<open>Opening\<close> has the slot
  from \<open>fd_alloc\<close> and no file in it yet.\<close>

datatype pc = Idle | Got | Using nat | Put | Cas u32 | Closing nat | Join
  | Drop nat | Mark nat | Wait nat | Sleep nat | Clear nat | Finish nat | Advlock nat | Opening

record proto =
  p_fdp :: filedesc
  p_lock :: "nat option"
  p_pc :: "nat \<Rightarrow> pc"
  p_opened :: nat
  p_released :: "nat set"

abbreviation at_pc :: "proto \<Rightarrow> nat \<Rightarrow> pc \<Rightarrow> proto" where
  "at_pc s t c \<equiv> s\<lparr>p_pc := (p_pc s)(t := c)\<rparr>"

text \<open>\<open>cv_broadcast\<close>.\<close>

definition wake :: "(nat \<Rightarrow> pc) \<Rightarrow> nat \<Rightarrow> pc" where
  "wake pcs t = (case pcs t of Sleep fp \<Rightarrow> Wait fp | c \<Rightarrow> c)"

inductive fd_step :: "nat \<Rightarrow> nat \<Rightarrow> proto \<Rightarrow> proto \<Rightarrow> bool" for n fd where
  step_get: "t < n \<Longrightarrow> p_pc s t = Idle \<Longrightarrow> ref_take (p_fdp s) fd = Some fdp \<Longrightarrow>
    fd_step n fd s (at_pc (s\<lparr>p_fdp := fdp\<rparr>) t Got)"
| step_file: "p_pc s t = Got \<Longrightarrow> ff_get (p_fdp s) fd = Some ff \<Longrightarrow> ff_file ff = Some fp \<Longrightarrow>
    fd_step n fd s (at_pc s t (Using fp))"
| step_nofile: "p_pc s t = Got \<Longrightarrow> ff_get (p_fdp s) fd = Some ff \<Longrightarrow> ff_file ff = None \<Longrightarrow>
    fd_step n fd s (at_pc s t Put)"
| step_used: "p_pc s t = Using fp \<Longrightarrow> fd_step n fd s (at_pc s t Put)"
| step_close: "p_pc s t = Using fp \<Longrightarrow> fd_step n fd s (at_pc s t (Closing fp))"
| step_put: "p_pc s t = Put \<Longrightarrow> ff_get (p_fdp s) fd = Some ff \<Longrightarrow>
    fd_step n fd s (at_pc s t (Cas (ff_refcnt ff AND FR_MASK)))"
| step_cas: "p_pc s t = Cas u \<Longrightarrow> ref_cas (p_fdp s) fd u = Some (fdp, v) \<Longrightarrow>
    fd_step n fd s (at_pc (s\<lparr>p_fdp := fdp\<rparr>) t (if u = v then Idle else if v AND FR_CLOSING \<noteq> 0 then Join else Cas v))"
| step_join: "p_pc s t = Join \<or> p_pc s t = Closing fp \<Longrightarrow> p_lock s = None \<Longrightarrow> close_take (p_fdp s) fd = Some (fdp, None) \<Longrightarrow>
    fd_step n fd s (s\<lparr>p_fdp := fdp, p_pc := (wake (p_pc s))(t := Idle)\<rparr>)"
| step_take: "p_pc s t = Join \<or> p_pc s t = Closing fp \<Longrightarrow> p_lock s = None \<Longrightarrow> close_take (p_fdp s) fd = Some (fdp, Some fp') \<Longrightarrow>
    fd_step n fd s (at_pc (s\<lparr>p_fdp := fdp, p_lock := Some t\<rparr>) t (Drop fp'))"
| step_drop: "p_pc s t = Drop fp \<Longrightarrow> ref_drop (p_fdp s) fd = Some (fdp, r) \<Longrightarrow>
    fd_step n fd s (at_pc (s\<lparr>p_fdp := fdp\<rparr>) t (if r \<noteq> 0 then Mark fp else Finish fp))"
| step_mark: "p_pc s t = Mark fp \<Longrightarrow> closing_set (p_fdp s) fd = Some fdp \<Longrightarrow>
    fd_step n fd s (at_pc (s\<lparr>p_fdp := fdp, p_lock := None\<rparr>) t (Wait fp))"
| step_wait: "p_pc s t = Wait fp \<Longrightarrow> p_lock s = None \<Longrightarrow> refs_drained (p_fdp s) fd = Some d \<Longrightarrow>
    fd_step n fd s (at_pc (s\<lparr>p_lock := (if d then Some t else None)\<rparr>) t (if d then Clear fp else Sleep fp))"
| step_clear: "p_pc s t = Clear fp \<Longrightarrow> closing_clear (p_fdp s) fd = Some fdp \<Longrightarrow>
    fd_step n fd s (at_pc (s\<lparr>p_fdp := fdp\<rparr>) t (Finish fp))"
| step_unlock: "p_pc s t = Finish fp \<Longrightarrow> fd_step n fd s (at_pc (s\<lparr>p_lock := None\<rparr>) t (Advlock fp))"
| step_relock: "p_pc s t = Advlock fp \<Longrightarrow> p_lock s = None \<Longrightarrow> fd_step n fd s (at_pc (s\<lparr>p_lock := Some t\<rparr>) t (Finish fp))"
| step_finish: "p_pc s t = Finish fp \<Longrightarrow> fd_unused (p_fdp s) fd = Some fdp \<Longrightarrow>
    fd_step n fd s (at_pc (s\<lparr>p_fdp := fdp, p_lock := None, p_released := insert fp (p_released s)\<rparr>) t Idle)"
| step_alloc: "t < n \<Longrightarrow> p_pc s t = Idle \<Longrightarrow> p_lock s = None \<Longrightarrow> fd_used (p_fdp s) fd = Some fdp \<Longrightarrow>
    fd_step n fd s (at_pc (s\<lparr>p_fdp := fdp\<rparr>) t Opening)"
| step_affix: "p_pc s t = Opening \<Longrightarrow> ff_get (p_fdp s) fd = Some ff \<Longrightarrow>
    fd_step n fd s (at_pc (s\<lparr>p_fdp := ff_put (p_fdp s) fd (ff\<lparr>ff_file := Some (p_opened s)\<rparr>), p_opened := Suc (p_opened s)\<rparr>) t Idle)"
| step_abort: "p_pc s t = Opening \<Longrightarrow> p_lock s = None \<Longrightarrow> ff_get (p_fdp s) fd = Some ff \<Longrightarrow>
    fd_unused (ff_put (p_fdp s) fd (ff\<lparr>ff_exclose := False\<rparr>)) fd = Some fdp \<Longrightarrow>
    fd_step n fd s (at_pc (s\<lparr>p_fdp := fdp\<rparr>) t Idle)"

inductive_cases fd_stepE: "fd_step n fd s s'"

text \<open>At the start no thread uses the descriptor, and it is closed.\<close>

definition proto_init :: "filedesc \<Rightarrow> proto" where
  "proto_init fdp = \<lparr>p_fdp = fdp, p_lock = None, p_pc = (\<lambda>t. Idle), p_opened = 0, p_released = {}\<rparr>"

abbreviation fd_reach :: "nat \<Rightarrow> nat \<Rightarrow> filedesc \<Rightarrow> proto \<Rightarrow> bool" where
  "fd_reach n fd fdp s \<equiv> (fd_step n fd)\<^sup>*\<^sup>* (proto_init fdp) s"

section \<open>The invariant\<close>

text \<open>Threads that hold a reference; the thread that closes, and the file it closes; the thread that
  has_slot the slot; a closing thread that still waits for users of the file.\<close>

fun holds :: "pc \<Rightarrow> bool" where
  "holds Got = True" | "holds (Using fp) = True" | "holds Put = True" | "holds (Cas u) = True"
| "holds (Closing fp) = True" | "holds Join = True" | "holds (Drop fp) = True" | "holds _ = False"

fun closes :: "pc \<Rightarrow> nat option" where
  "closes (Drop fp) = Some fp" | "closes (Mark fp) = Some fp" | "closes (Wait fp) = Some fp"
| "closes (Sleep fp) = Some fp" | "closes (Clear fp) = Some fp" | "closes (Finish fp) = Some fp"
| "closes (Advlock fp) = Some fp" | "closes _ = None"

definition has_slot :: "pc \<Rightarrow> bool" where
  "has_slot c \<longleftrightarrow> closes c \<noteq> None \<or> c = Opening"

fun marked :: "pc \<Rightarrow> bool" where
  "marked (Wait fp) = True" | "marked (Sleep fp) = True" | "marked (Clear fp) = True" | "marked _ = False"

fun drains :: "pc \<Rightarrow> nat option" where
  "drains (Drop fp) = Some fp" | "drains (Mark fp) = Some fp" | "drains (Wait fp) = Some fp"
| "drains (Sleep fp) = Some fp" | "drains _ = None"

fun uses :: "pc \<Rightarrow> nat option" where
  "uses (Using fp) = Some fp" | "uses (Closing fp) = Some fp" | "uses _ = None"

definition holders :: "(nat \<Rightarrow> pc) \<Rightarrow> nat set" where
  "holders pcs = {t. holds (pcs t)}"

text \<open>The count is exact, the value a thread expects has no mark, and a thread that sleeps has a reason to.\<close>

definition count_inv :: "nat \<Rightarrow> u32 \<Rightarrow> (nat \<Rightarrow> pc) \<Rightarrow> bool" where
  "count_inv n refcnt pcs \<longleftrightarrow>
     (\<forall>t. n \<le> t \<longrightarrow> pcs t = Idle) \<and>
     refcnt = refs (card (holders pcs)) (\<exists>t. marked (pcs t)) \<and>
     (\<forall>t u. pcs t = Cas u \<longrightarrow> u AND FR_CLOSING = 0) \<and>
     (\<forall>t fp. pcs t = Sleep fp \<longrightarrow> holders pcs \<noteq> {})"

text \<open>One thread at most has_slot the slot; a file in use is in the slot or is waited for.\<close>

definition own_inv :: "fdfile \<Rightarrow> (nat \<Rightarrow> pc) \<Rightarrow> nat \<Rightarrow> nat set \<Rightarrow> bool" where
  "own_inv ff pcs op rel \<longleftrightarrow>
     (\<forall>t t'. has_slot (pcs t) \<longrightarrow> has_slot (pcs t') \<longrightarrow> t = t') \<and>
     (\<forall>t. has_slot (pcs t) \<longrightarrow> ff_file ff = None \<and> ff_allocated ff) \<and>
     (\<forall>t fp. closes (pcs t) = Some fp \<longrightarrow> \<not> ff_exclose ff \<and> fp < op \<and> fp \<notin> rel) \<and>
     (\<forall>t fp. uses (pcs t) = Some fp \<longrightarrow> ff_file ff \<noteq> Some fp \<longrightarrow> (\<exists>t'. drains (pcs t') = Some fp)) \<and>
     (\<forall>fp. ff_file ff = Some fp \<longrightarrow> fp < op \<and> fp \<notin> rel) \<and>
     rel \<subseteq> {..<op}"

definition proto_inv :: "nat \<Rightarrow> nat \<Rightarrow> proto \<Rightarrow> bool" where
  "proto_inv n fd s \<longleftrightarrow> fd_wf (p_fdp s) \<and>
     (\<exists>ff. ff_get (p_fdp s) fd = Some ff \<and> count_inv n (ff_refcnt ff) (p_pc s) \<and> own_inv ff (p_pc s) (p_opened s) (p_released s))"

subsection \<open>Kinds of threads\<close>

lemma drains_closes: "drains c = Some fp \<Longrightarrow> closes c = Some fp"
  by (cases c) simp_all

lemma drains_owns: "drains c = Some fp \<Longrightarrow> has_slot c"
  using drains_closes [of c fp] by (simp add: has_slot_def)

lemma has_slot_simps [simp]:
  "\<not> has_slot Idle" "\<not> has_slot Got" "\<not> has_slot (Using fp)" "\<not> has_slot Put" "\<not> has_slot (Cas u)" "\<not> has_slot (Closing fp)" "\<not> has_slot Join"
  "has_slot (Drop fp)" "has_slot (Mark fp)" "has_slot (Wait fp)" "has_slot (Sleep fp)" "has_slot (Clear fp)" "has_slot (Finish fp)" "has_slot (Advlock fp)"
  "has_slot Opening"
  by (simp_all add: has_slot_def)

lemma marked_owns: "marked c \<Longrightarrow> has_slot c"
  by (cases c) (simp_all add: has_slot_def)

lemma uses_holds: "uses c = Some fp \<Longrightarrow> holds c"
  by (cases c) simp_all

lemma wake_kinds [simp]:
  "holds (wake pcs t) = holds (pcs t)" "closes (wake pcs t) = closes (pcs t)" "has_slot (wake pcs t) = has_slot (pcs t)"
  "marked (wake pcs t) = marked (pcs t)" "drains (wake pcs t) = drains (pcs t)" "uses (wake pcs t) = uses (pcs t)"
  "wake pcs t = Idle \<longleftrightarrow> pcs t = Idle" "wake pcs t = Cas u \<longleftrightarrow> pcs t = Cas u" "wake pcs t \<noteq> Sleep fp"
  by (cases "pcs t"; simp add: wake_def has_slot_def)+

lemma holders_wake [simp]: "holders (wake pcs) = holders pcs"
  by (simp add: holders_def)

lemma holders_upd: "holders (pcs(t := c)) = (if holds c then insert t (holders pcs) else holders pcs - {t})"
  by (auto simp: holders_def)

lemma marked_upd: "marked c = marked (pcs t) \<Longrightarrow> (\<exists>t'. marked ((pcs(t := c)) t')) = (\<exists>t'. marked (pcs t'))"
  by (metis fun_upd_apply)

lemma holders_finite:
  assumes "count_inv n r pcs"
  shows "finite (holders pcs)" "card (holders pcs) \<le> n" "t < n \<Longrightarrow> \<not> holds (pcs t) \<Longrightarrow> card (holders pcs) < n"
proof -
  have sub: "holders pcs \<subseteq> {..<n}"
  proof
    fix t
    assume "t \<in> holders pcs"
    then have "pcs t \<noteq> Idle" by (auto simp: holders_def)
    then show "t \<in> {..<n}" using assms by (auto simp: count_inv_def not_less [symmetric])
  qed
  then show "finite (holders pcs)" "card (holders pcs) \<le> n" using card_mono [OF _ sub] finite_subset [OF sub] by simp_all
  show "card (holders pcs) < n" if "t < n" "\<not> holds (pcs t)"
  proof -
    have "holders pcs \<subset> {..<n}" using sub that by (auto simp: holders_def)
    then show ?thesis using psubset_card_mono [of "{..<n}" "holders pcs"] by simp
  qed
qed

lemma busy_thread: "count_inv n r pcs \<Longrightarrow> pcs t \<noteq> Idle \<Longrightarrow> t < n"
  by (auto simp: count_inv_def not_less [symmetric])

subsection \<open>The count\<close>

lemma count_same:
  assumes "count_inv n r pcs" "t < n" "holds c = holds (pcs t)" "marked c = marked (pcs t)"
    "\<And>u. c = Cas u \<Longrightarrow> u AND FR_CLOSING = 0" "\<And>fp. c = Sleep fp \<Longrightarrow> holders pcs \<noteq> {}"
  shows "count_inv n r (pcs(t := c))"
proof -
  have h: "holders (pcs(t := c)) = holders pcs" using assms(3) by (auto simp: holders_def)
  show ?thesis unfolding count_inv_def h marked_upd [of c pcs t, OF assms(4)] using assms(1,2,5,6) by (auto simp: count_inv_def)
qed

lemma count_take:
  assumes c: "count_inv n r pcs" "n < 2 ^ 31" and t: "t < n" "pcs t = Idle"
  shows "count_inv n (r + 1) (pcs(t := Got))"
proof -
  have "t \<notin> holders pcs" using t(2) by (simp add: holders_def)
  then have "card (holders (pcs(t := Got))) = Suc (card (holders pcs))"
    using holders_finite(1) [OF c(1)] by (simp add: holders_upd)
  moreover have "refs (card (holders pcs)) b + 1 = refs (Suc (card (holders pcs))) b" for b
    using holders_finite(3) [OF c(1) t(1)] t(2) c(2) by (intro refs_inc) simp
  moreover have "(\<exists>t'. marked ((pcs(t := Got)) t')) = (\<exists>t'. marked (pcs t'))" using marked_upd [of Got pcs t] t(2) by simp
  ultimately show ?thesis using c(1) t unfolding count_inv_def by (auto simp: holders_upd)
qed

lemma count_release:
  assumes c: "count_inv n r pcs" "n < 2 ^ 31" and t: "holds (pcs t)" and c': "\<not> holds c'" "\<not> marked c'" "\<not> marked (pcs t)"
    and sleep: "\<And>t' fp. (pcs(t := c')) t' \<noteq> Sleep fp"
  shows "count_inv n (r - 1) (pcs(t := c'))"
proof -
  have ne: "pcs t \<noteq> Idle" using t by auto
  have "t \<in> holders pcs" using t by (simp add: holders_def)
  then have card: "card (holders pcs) = Suc (card (holders pcs - {t}))"
    using holders_finite(1) [OF c(1)] by (metis card_Suc_Diff1)
  then have "refs (card (holders pcs)) b - 1 = refs (card (holders pcs - {t})) b" for b
    using refs_dec holders_finite(2) [OF c(1)] c(2) by simp
  moreover have "(\<exists>t'. marked ((pcs(t := c')) t')) = (\<exists>t'. marked (pcs t'))" using marked_upd [of c' pcs t] c'(2,3) by simp
  moreover have "c' \<noteq> Cas u" for u using c'(1) by auto
  ultimately show ?thesis
    using c(1) busy_thread [OF c(1) ne] c'(1) sleep unfolding count_inv_def by (auto simp: holders_upd)
qed


lemma count_mark:
  assumes "count_inv n r pcs" "pcs t = Mark fp"
  shows "count_inv n (r OR FR_CLOSING) (pcs(t := Wait fp))"
proof -
  have "holders (pcs(t := Wait fp)) = holders pcs" using assms(2) by (auto simp: holders_def)
  moreover have "\<exists>t'. marked ((pcs(t := Wait fp)) t')" by (metis fun_upd_same marked.simps(1))
  moreover have "t < n" using busy_thread [OF assms(1)] assms(2) by simp
  ultimately show ?thesis using assms by (auto simp: count_inv_def refs_or)
qed

lemma count_clear:
  assumes c: "count_inv n r pcs" "n < 2 ^ 31" and t: "pcs t = Clear fp" and only: "\<And>t'. has_slot (pcs t') \<Longrightarrow> t' = t"
  shows "count_inv n (r AND FR_MASK) (pcs(t := Finish fp))"
proof -
  have h: "holders (pcs(t := Finish fp)) = holders pcs" using t by (auto simp: holders_def)
  have "\<not> marked ((pcs(t := Finish fp)) t')" for t' using only [of t'] marked_owns [of "pcs t'"] by auto
  moreover have "pcs t' \<noteq> Sleep fp'" for t' fp' using only [of t'] t by (auto simp: has_slot_def)
  moreover have "t < n" using busy_thread [OF c(1)] t by simp
  moreover have "refs (card (holders pcs)) b AND FR_MASK = refs (card (holders pcs)) False" for b
    using refs_mask holders_finite(2) [OF c(1)] c(2) by simp
  ultimately show ?thesis unfolding count_inv_def h using c(1) by (auto simp: count_inv_def)
qed

lemma count_words:
  assumes "count_inv n r pcs" "n < 2 ^ 31"
  shows "r AND FR_MASK = 0 \<longleftrightarrow> holders pcs = {}" "r AND FR_CLOSING \<noteq> 0 \<longleftrightarrow> (\<exists>t. marked (pcs t))"
    "\<not> (\<exists>t. marked (pcs t)) \<Longrightarrow> r = refs (card (holders pcs)) False" "(r AND FR_MASK) AND FR_CLOSING = 0"
proof -
  let ?k = "card (holders pcs)"
  have k: "?k < 2 ^ 31" and r: "r = refs ?k (\<exists>t. marked (pcs t))" using holders_finite(2) [OF assms(1)] assms by (auto simp: count_inv_def)
  have "refs ?k False = 0 \<longleftrightarrow> ?k = 0" using refs_inj [OF k, of 0 False False] by auto
  then show "r AND FR_MASK = 0 \<longleftrightarrow> holders pcs = {}"
    unfolding r refs_mask [OF k] using holders_finite(1) [OF assms(1)] by simp
  show "r AND FR_CLOSING \<noteq> 0 \<longleftrightarrow> (\<exists>t. marked (pcs t))" unfolding r refs_flag [OF k] by simp
  show "\<not> (\<exists>t. marked (pcs t)) \<Longrightarrow> r = refs ?k False" using r by simp
  show "(r AND FR_MASK) AND FR_CLOSING = 0" unfolding r refs_mask [OF k] refs_flag [OF k] by simp
qed

text \<open>\<open>fd_putfile\<close> gives a reference back without the lock only while no thread has marked the descriptor.\<close>

lemma count_cas:
  assumes c: "count_inv n r pcs" "n < 2 ^ 31" and t: "pcs t = Cas u"
  shows "count_inv n (if r = u then u - 1 else r)
    (pcs(t := if u = r then Idle else if r AND FR_CLOSING \<noteq> 0 then Join else Cas r))"
proof (cases "u = r")
  case True
  then have "r AND FR_CLOSING = 0" using c(1) t by (auto simp: count_inv_def)
  then have nm: "\<not> marked (pcs t')" for t' using count_words(2) [OF c] by blast
  have "(pcs(t := Idle)) t' \<noteq> Sleep fp" for t' fp using nm [of t'] by (cases "t' = t"; cases "pcs t'") simp_all
  then show ?thesis using count_release [OF c, of t Idle] True t by simp
next
  case False
  have tn: "t < n" using busy_thread [OF c(1)] t by simp
  have join: "count_inv n r (pcs(t := Join))" using count_same [OF c(1) tn, of Join] t by simp
  have retry: "count_inv n r (pcs(t := Cas r))" if "r AND FR_CLOSING = 0"
    using count_same [OF c(1) tn, of "Cas r"] t that by simp
  have "r \<noteq> u" using False by blast
  then show ?thesis using False join retry by (cases "r AND FR_CLOSING = 0") (simp_all only: if_True if_False if_cancel not_False_eq_True simp_thms)
qed

subsection \<open>The slot\<close>

lemma own_invD:
  assumes "own_inv ff pcs op rel"
  shows "has_slot (pcs t) \<Longrightarrow> has_slot (pcs t') \<Longrightarrow> t = t'"
    "has_slot (pcs t) \<Longrightarrow> ff_file ff = None \<and> ff_allocated ff"
    "closes (pcs t) = Some fp \<Longrightarrow> \<not> ff_exclose ff \<and> fp < op \<and> fp \<notin> rel"
    "uses (pcs t) = Some fp \<Longrightarrow> ff_file ff \<noteq> Some fp \<Longrightarrow> \<exists>t'. drains (pcs t') = Some fp"
    "ff_file ff = Some fp \<Longrightarrow> fp < op \<and> fp \<notin> rel" "rel \<subseteq> {..<op}"
  using assms unfolding own_inv_def by blast+

lemma own_invI:
  assumes "\<And>t t'. has_slot (pcs t) \<Longrightarrow> has_slot (pcs t') \<Longrightarrow> t = t'"
    "\<And>t. has_slot (pcs t) \<Longrightarrow> ff_file ff = None \<and> ff_allocated ff"
    "\<And>t fp. closes (pcs t) = Some fp \<Longrightarrow> \<not> ff_exclose ff \<and> fp < op \<and> fp \<notin> rel"
    "\<And>t fp. uses (pcs t) = Some fp \<Longrightarrow> ff_file ff \<noteq> Some fp \<Longrightarrow> \<exists>t'. drains (pcs t') = Some fp"
    "\<And>fp. ff_file ff = Some fp \<Longrightarrow> fp < op \<and> fp \<notin> rel" "rel \<subseteq> {..<op}"
  shows "own_inv ff pcs op rel"
  using assms unfolding own_inv_def by blast

lemma own_refcnt [simp]: "own_inv (ff\<lparr>ff_refcnt := r\<rparr>) pcs op rel = own_inv ff pcs op rel"
  by (simp add: own_inv_def)

lemma own_wake [simp]: "own_inv ff (wake pcs) op rel = own_inv ff pcs op rel"
  by (simp add: own_inv_def)

text \<open>A thread that does not own the slot goes on.\<close>

lemma own_same:
  assumes I: "own_inv ff pcs op rel" and t: "\<not> has_slot (pcs t)" "\<not> has_slot c"
    and u: "\<And>fp. uses c = Some fp \<Longrightarrow> ff_file ff = Some fp \<or> uses (pcs t) = Some fp"
  shows "own_inv ff (pcs(t := c)) op rel"
proof (rule own_invI)
  fix t1 fp
  assume use: "uses ((pcs(t := c)) t1) = Some fp" and nf: "ff_file ff \<noteq> Some fp"
  have "\<exists>t'. uses (pcs t') = Some fp" using use u [of fp] nf by (cases "t1 = t") auto
  then obtain t' where t': "drains (pcs t') = Some fp" using own_invD(4) [OF I] nf by blast
  then have "t' \<noteq> t" using drains_owns t(1) by blast
  then show "\<exists>t'. drains ((pcs(t := c)) t') = Some fp" using t' by (intro exI [of _ t']) simp
next
  show "t1 = t2" if "has_slot ((pcs(t := c)) t1)" "has_slot ((pcs(t := c)) t2)" for t1 t2
    using that t own_invD(1) [OF I] by (auto split: if_splits)
  show "ff_file ff = None \<and> ff_allocated ff" if "has_slot ((pcs(t := c)) t1)" for t1
    using that t own_invD(2) [OF I] by (auto split: if_splits)
  show "\<not> ff_exclose ff \<and> fp < op \<and> fp \<notin> rel" if "closes ((pcs(t := c)) t1) = Some fp" for t1 fp
    using that t own_invD(3) [OF I] by (auto simp: has_slot_def split: if_splits)
qed (use own_invD(5,6) [OF I] in auto)

text \<open>The thread that closes goes on; once it no longer waits, no thread uses the file.\<close>

lemma own_closer:
  assumes I: "own_inv ff pcs op rel" and t: "closes (pcs t) = Some fp" "closes c = Some fp" "uses c = None"
    and d: "drains c = Some fp \<or> (\<forall>t'. uses (pcs t') = None)"
  shows "own_inv ff (pcs(t := c)) op rel"
proof (rule own_invI)
  have owner: "has_slot (pcs t)" using t(1) by (simp add: has_slot_def)
  fix t1 fp1
  assume use: "uses ((pcs(t := c)) t1) = Some fp1" and nf: "ff_file ff \<noteq> Some fp1"
  then have "uses (pcs t1) = Some fp1" using t(3) by (cases "t1 = t") auto
  then obtain t' where t': "drains (pcs t') = Some fp1" using own_invD(4) [OF I] nf by blast
  then have "t' = t" using own_invD(1) [OF I drains_owns owner] by blast
  then have "fp1 = fp" using t' t(1) drains_closes [of "pcs t" fp1] by simp
  then show "\<exists>t'. drains ((pcs(t := c)) t') = Some fp1"
    using d \<open>uses (pcs t1) = Some fp1\<close> by (intro exI [of _ t]) auto
next
  have owner: "has_slot (pcs t)" using t(1) by (simp add: has_slot_def)
  show "t1 = t2" if "has_slot ((pcs(t := c)) t1)" "has_slot ((pcs(t := c)) t2)" for t1 t2
    using that owner own_invD(1) [OF I] by (auto split: if_splits)
  show "ff_file ff = None \<and> ff_allocated ff" if "has_slot ((pcs(t := c)) t1)" for t1
    using own_invD(2) [OF I owner] .
  show "\<not> ff_exclose ff \<and> fp1 < op \<and> fp1 \<notin> rel" if "closes ((pcs(t := c)) t1) = Some fp1" for t1 fp1
    using that t own_invD(3) [OF I] by (auto split: if_splits)
qed (use own_invD(5,6) [OF I] in auto)

text \<open>A thread takes the file out of the slot.\<close>

lemma own_take:
  assumes I: "own_inv ff pcs op rel" and ff: "ff_file ff = Some fp" "ff_allocated ff"
  shows "own_inv (ff\<lparr>ff_file := None, ff_exclose := False\<rparr>) (pcs(t := Drop fp)) op rel"
proof (rule own_invI)
  have no: "\<not> has_slot (pcs t1)" for t1 using own_invD(2) [OF I, of t1] ff(1) by auto
  show "t1 = t2" if "has_slot ((pcs(t := Drop fp)) t1)" "has_slot ((pcs(t := Drop fp)) t2)" for t1 t2
    using that no by (auto split: if_splits)
  show "\<not> ff_exclose (ff\<lparr>ff_file := None, ff_exclose := False\<rparr>) \<and> fp1 < op \<and> fp1 \<notin> rel"
    if "closes ((pcs(t := Drop fp)) t1) = Some fp1" for t1 fp1
    using that no [of t1] own_invD(5) [OF I ff(1)] by (auto simp: has_slot_def split: if_splits)
  show "\<exists>t'. drains ((pcs(t := Drop fp)) t') = Some fp1" if "uses ((pcs(t := Drop fp)) t1) = Some fp1" for t1 fp1
  proof -
    have "uses (pcs t1) = Some fp1" using that by (auto split: if_splits)
    moreover have "drains (pcs t') \<noteq> Some fp1" for t' using no [of t'] drains_owns by blast
    ultimately have "fp1 = fp" using own_invD(4) [OF I, of t1 fp1] ff(1) by auto
    then show ?thesis by (intro exI [of _ t]) simp
  qed
qed (use ff(2) own_invD(6) [OF I] in auto)

text \<open>The slot is released, taken and filled.\<close>

lemma own_finish:
  assumes I: "own_inv ff pcs op rel" and t: "pcs t = Finish fp"
  shows "own_inv (ff\<lparr>ff_allocated := False\<rparr>) (pcs(t := Idle)) op (insert fp rel)"
proof (rule own_invI)
  have owner: "has_slot (pcs t)" using t by (simp add: has_slot_def)
  have only: "has_slot (pcs t1) \<Longrightarrow> t1 = t" for t1 using own_invD(1) [OF I _ owner] .
  have nofile: "ff_file ff = None" using own_invD(2) [OF I owner] by simp
  have "\<not> has_slot ((pcs(t := Idle)) t1)" for t1 using only [of t1] by (cases "t1 = t") auto
  then show "t1 = t2" "ff_file (ff\<lparr>ff_allocated := False\<rparr>) = None \<and> ff_allocated (ff\<lparr>ff_allocated := False\<rparr>)"
    if "has_slot ((pcs(t := Idle)) t1)" for t1 t2 using that by blast+
  show "\<not> ff_exclose (ff\<lparr>ff_allocated := False\<rparr>) \<and> fp1 < op \<and> fp1 \<notin> insert fp rel" if "closes ((pcs(t := Idle)) t1) = Some fp1" for t1 fp1
    using that only [of t1] by (auto simp: has_slot_def split: if_splits)
  show "\<exists>t'. drains ((pcs(t := Idle)) t') = Some fp1" if use: "uses ((pcs(t := Idle)) t1) = Some fp1" for t1 fp1
  proof -
    obtain t' where "drains (pcs t') = Some fp1" using use own_invD(4) [OF I, of t1 fp1] nofile by (auto split: if_splits)
    then show ?thesis using only [of t'] drains_owns t by auto
  qed
  show "fp1 < op \<and> fp1 \<notin> insert fp rel" if "ff_file (ff\<lparr>ff_allocated := False\<rparr>) = Some fp1" for fp1 using that nofile by simp
  show "insert fp rel \<subseteq> {..<op}" using own_invD(3,6) [OF I] t by (metis closes.simps(6) insert_subset lessThan_iff)
qed

lemma nofile_opening: "own_inv ff pcs op rel \<Longrightarrow> pcs t = Opening \<Longrightarrow> ff_file ff = None"
  using own_invD(2) [of ff pcs op rel t] by simp

lemma own_alloc:
  assumes I: "own_inv ff pcs op rel" and ff: "\<not> ff_allocated ff" "ff_file ff = None"
  shows "own_inv (ff\<lparr>ff_allocated := True\<rparr>) (pcs(t := Opening)) op rel"
proof (rule own_invI)
  have no: "\<not> has_slot (pcs t1)" for t1 using own_invD(2) [OF I, of t1] ff(1) by auto
  show "t1 = t2" if "has_slot ((pcs(t := Opening)) t1)" "has_slot ((pcs(t := Opening)) t2)" for t1 t2
    using that no by (auto split: if_splits)
  show "\<not> ff_exclose (ff\<lparr>ff_allocated := True\<rparr>) \<and> fp1 < op \<and> fp1 \<notin> rel" if "closes ((pcs(t := Opening)) t1) = Some fp1" for t1 fp1
    using that no [of t1] by (auto simp: has_slot_def split: if_splits)
  show "\<exists>t'. drains ((pcs(t := Opening)) t') = Some fp1" if "uses ((pcs(t := Opening)) t1) = Some fp1" for t1 fp1
    using that own_invD(4) [OF I, of t1 fp1] ff(2) no drains_owns by (metis fun_upd_apply option.distinct(1) uses.simps(15))
qed (use ff(2) own_invD(6) [OF I] in auto)

lemma own_abort:
  assumes I: "own_inv ff pcs op rel" and t: "pcs t = Opening"
  shows "own_inv (ff\<lparr>ff_exclose := False, ff_allocated := False\<rparr>) (pcs(t := Idle)) op rel"
proof (rule own_invI)
  have owner: "has_slot (pcs t)" using t by (simp add: has_slot_def)
  have only: "has_slot (pcs t1) \<Longrightarrow> t1 = t" for t1 using own_invD(1) [OF I _ owner] .
  have nofile: "ff_file ff = None" using own_invD(2) [OF I owner] by simp
  have no: "\<not> has_slot ((pcs(t := Idle)) t1)" for t1 using only [of t1] by (cases "t1 = t") auto
  then show "t1 = t2" "ff_file (ff\<lparr>ff_exclose := False, ff_allocated := False\<rparr>) = None \<and> ff_allocated (ff\<lparr>ff_exclose := False, ff_allocated := False\<rparr>)"
    if "has_slot ((pcs(t := Idle)) t1)" for t1 t2 using that by blast+
  show "\<not> ff_exclose (ff\<lparr>ff_exclose := False, ff_allocated := False\<rparr>) \<and> fp1 < op \<and> fp1 \<notin> rel"
    if "closes ((pcs(t := Idle)) t1) = Some fp1" for t1 fp1 using that no [of t1] by (auto simp: has_slot_def)
  show "\<exists>t'. drains ((pcs(t := Idle)) t') = Some fp1" if use: "uses ((pcs(t := Idle)) t1) = Some fp1" for t1 fp1
  proof -
    obtain t' where "drains (pcs t') = Some fp1" using use own_invD(4) [OF I, of t1 fp1] nofile by (auto split: if_splits)
    then show ?thesis using only [of t'] drains_owns t by auto
  qed
qed (use nofile_opening [OF I t] own_invD(6) [OF I] in auto)

lemma own_affix:
  assumes I: "own_inv ff pcs op rel" and t: "pcs t = Opening"
  shows "own_inv (ff\<lparr>ff_file := Some op\<rparr>) (pcs(t := Idle)) (Suc op) rel"
proof (rule own_invI)
  have owner: "has_slot (pcs t)" using t by (simp add: has_slot_def)
  have only: "has_slot (pcs t1) \<Longrightarrow> t1 = t" for t1 using own_invD(1) [OF I _ owner] .
  have nofile: "ff_file ff = None" using own_invD(2) [OF I owner] by simp
  have "\<not> has_slot ((pcs(t := Idle)) t1)" for t1 using only [of t1] by (cases "t1 = t") auto
  then show "t1 = t2" "ff_file (ff\<lparr>ff_file := Some op\<rparr>) = None \<and> ff_allocated (ff\<lparr>ff_file := Some op\<rparr>)"
    if "has_slot ((pcs(t := Idle)) t1)" for t1 t2 using that by blast+
  show "\<not> ff_exclose (ff\<lparr>ff_file := Some op\<rparr>) \<and> fp1 < Suc op \<and> fp1 \<notin> rel" if "closes ((pcs(t := Idle)) t1) = Some fp1" for t1 fp1
    using that only [of t1] by (auto simp: has_slot_def split: if_splits)
  show "\<exists>t'. drains ((pcs(t := Idle)) t') = Some fp1" if use: "uses ((pcs(t := Idle)) t1) = Some fp1" for t1 fp1
  proof -
    obtain t' where "drains (pcs t') = Some fp1" using use own_invD(4) [OF I, of t1 fp1] nofile by (auto split: if_splits)
    then show ?thesis using only [of t'] drains_owns t by auto
  qed
qed (use own_invD(6) [OF I] in auto)


subsection \<open>Steps\<close>

lemma slot_put:
  assumes "fd_wf fdp" "ff_get fdp fd = Some ff" "ff_allocated ff' = ff_allocated ff" "\<not> ff_allocated ff \<Longrightarrow> ff_file ff' = None \<and> \<not> ff_exclose ff'"
  shows "fd_wf (ff_put fdp fd ff')" "ff_get (ff_put fdp fd ff') fd = Some ff'"
  using fd_wf_put_slot [OF assms] ff_get_bound [OF assms(2)] by (simp_all add: ff_get_put)

lemma slot_count:
  assumes "fd_wf fdp" "ff_get fdp fd = Some ff"
  shows "fd_wf (ff_put fdp fd (ff\<lparr>ff_refcnt := r\<rparr>))" "ff_get (ff_put fdp fd (ff\<lparr>ff_refcnt := r\<rparr>)) fd = Some (ff\<lparr>ff_refcnt := r\<rparr>)"
  using slot_put [OF assms, of "ff\<lparr>ff_refcnt := r\<rparr>"] slot_free [OF assms] by simp_all

lemma proto_invI:
  assumes "fd_wf (p_fdp s)" "ff_get (p_fdp s) fd = Some ff" "count_inv n (ff_refcnt ff) (p_pc s)" "own_inv ff (p_pc s) (p_opened s) (p_released s)"
  shows "proto_inv n fd s"
  using assms by (auto simp: proto_inv_def)

lemma proto_invE:
  assumes "proto_inv n fd s"
  obtains ff where "fd_wf (p_fdp s)" "ff_get (p_fdp s) fd = Some ff" "count_inv n (ff_refcnt ff) (p_pc s)"
    "own_inv ff (p_pc s) (p_opened s) (p_released s)"
  using assms by (auto simp: proto_inv_def)

text \<open>A step that changes at most the reference count and what threads do.\<close>

lemma proto_count_step:
  assumes I: "proto_inv n fd s" and ff: "ff_get (p_fdp s) fd = Some ff"
    and c: "count_inv n (ff_refcnt ff) (p_pc s) \<Longrightarrow> count_inv n r (p_pc s')"
    and o: "own_inv ff (p_pc s) (p_opened s) (p_released s) \<Longrightarrow> own_inv ff (p_pc s') (p_opened s) (p_released s)"
    and s': "p_fdp s' = ff_put (p_fdp s) fd (ff\<lparr>ff_refcnt := r\<rparr>)" "p_opened s' = p_opened s" "p_released s' = p_released s"
  shows "proto_inv n fd s'"
  using I ff c o slot_count [of "p_fdp s" fd ff r] unfolding proto_inv_def s' by auto

lemma proto_pc_step:
  assumes I: "proto_inv n fd s" and ff: "ff_get (p_fdp s) fd = Some ff"
    and c: "count_inv n (ff_refcnt ff) (p_pc s) \<Longrightarrow> count_inv n (ff_refcnt ff) (p_pc s')"
    and o: "own_inv ff (p_pc s) (p_opened s) (p_released s) \<Longrightarrow> own_inv ff (p_pc s') (p_opened s) (p_released s)"
    and s': "p_fdp s' = p_fdp s" "p_opened s' = p_opened s" "p_released s' = p_released s"
  shows "proto_inv n fd s'"
  using I ff c o unfolding proto_inv_def s' by auto

text \<open>The actions of a thread that does not own the slot.\<close>

lemma step_user:
  assumes I: "proto_inv n fd s" and t: "p_pc s t \<noteq> Idle" "\<not> has_slot (p_pc s t)" "\<not> has_slot c" "holds c = holds (p_pc s t)"
    and u: "\<And>u. c = Cas u \<Longrightarrow> u AND FR_CLOSING = 0"
    and f: "\<And>fp ff. uses c = Some fp \<Longrightarrow> ff_get (p_fdp s) fd = Some ff \<Longrightarrow> ff_file ff = Some fp \<or> uses (p_pc s t) = Some fp"
  shows "proto_inv n fd (at_pc s t c)"
proof -
  obtain ff where ff: "ff_get (p_fdp s) fd = Some ff" using I by (rule proto_invE)
  have m: "marked c = marked (p_pc s t)" "\<And>fp. c \<noteq> Sleep fp" using marked_owns t(2,3) by auto
  show ?thesis
  proof (rule proto_pc_step [OF I ff])
    assume "count_inv n (ff_refcnt ff) (p_pc s)"
    then show "count_inv n (ff_refcnt ff) (p_pc (at_pc s t c))"
      using count_same [of n "ff_refcnt ff" "p_pc s" t c] busy_thread t(1,4) m u by simp
  next
    assume "own_inv ff (p_pc s) (p_opened s) (p_released s)"
    then show "own_inv ff (p_pc (at_pc s t c)) (p_opened s) (p_released s)"
      using own_same [of ff "p_pc s" "p_opened s" "p_released s" t c] t(2,3) f [OF _ ff] by simp
  qed simp_all
qed

lemma step_ref_take:
  assumes I: "proto_inv n fd s" "n < 2 ^ 31" and t: "t < n" "p_pc s t = Idle" and r: "ref_take (p_fdp s) fd = Some fdp"
  shows "proto_inv n fd (at_pc (s\<lparr>p_fdp := fdp\<rparr>) t Got)"
proof -
  obtain ff where ff: "ff_get (p_fdp s) fd = Some ff" using I(1) by (rule proto_invE)
  have "fdp = ff_put (p_fdp s) fd (ff\<lparr>ff_refcnt := ff_refcnt ff + 1\<rparr>)" using r ff by (simp add: ref_take_def)
  then show ?thesis
    using proto_count_step [OF I(1) ff, of "ff_refcnt ff + 1" "at_pc (s\<lparr>p_fdp := fdp\<rparr>) t Got"]
      count_take [of n "ff_refcnt ff" "p_pc s" t] I(2) t(1) own_same [of ff "p_pc s" "p_opened s" "p_released s" t Got] t(2) by simp
qed

lemma step_ref_cas:
  assumes I: "proto_inv n fd s" "n < 2 ^ 31" and t: "p_pc s t = Cas u" and r: "ref_cas (p_fdp s) fd u = Some (fdp, v)"
  shows "proto_inv n fd (at_pc (s\<lparr>p_fdp := fdp\<rparr>) t (if u = v then Idle else if v AND FR_CLOSING \<noteq> 0 then Join else Cas v))"
    (is "proto_inv n fd (at_pc _ t ?c)")
proof -
  obtain ff where ff: "ff_get (p_fdp s) fd = Some ff" using I(1) by (rule proto_invE)
  let ?r = "if ff_refcnt ff = u then u - 1 else ff_refcnt ff"
  have v: "v = ff_refcnt ff" using r ff by (simp add: ref_cas_def)
  have "ff\<lparr>ff_refcnt := ff_refcnt ff\<rparr> = ff" by (cases ff) simp
  then have fdp: "fdp = ff_put (p_fdp s) fd (ff\<lparr>ff_refcnt := ?r\<rparr>)"
    using r ff ff_put_same [OF ff] by (auto simp: ref_cas_def)
  have c: "\<not> has_slot ?c" "uses ?c = None" by auto
  have "own_inv ff ((p_pc s)(t := ?c)) (p_opened s) (p_released s)" if "own_inv ff (p_pc s) (p_opened s) (p_released s)"
    using own_same [OF that _ c(1)] c(2) t by simp
  moreover have "count_inv n ?r ((p_pc s)(t := ?c))" if "count_inv n (ff_refcnt ff) (p_pc s)"
    using count_cas [OF that I(2) t] unfolding v .
  ultimately show ?thesis using proto_count_step [OF I(1) ff, of ?r "at_pc (s\<lparr>p_fdp := fdp\<rparr>) t ?c"] fdp by simp
qed

lemma step_close_none:
  assumes I: "proto_inv n fd s" "n < 2 ^ 31" and t: "p_pc s t = Join \<or> p_pc s t = Closing fp" and r: "close_take (p_fdp s) fd = Some (fdp, None)"
  shows "proto_inv n fd (s\<lparr>p_fdp := fdp, p_pc := (wake (p_pc s))(t := Idle)\<rparr>)"
proof -
  obtain ff where ff: "ff_get (p_fdp s) fd = Some ff" using I(1) by (rule proto_invE)
  have fdp: "fdp = ff_put (p_fdp s) fd (ff\<lparr>ff_refcnt := ff_refcnt ff - 1\<rparr>)"
    using r ff by (auto simp: close_take_def split: if_splits option.splits)
  let ?w = "wake (p_pc s)"
  have w: "holds (?w t)" "\<not> marked (?w t)" "\<not> has_slot (?w t)" using t by auto
  have "count_inv n (ff_refcnt ff) ?w" if "count_inv n (ff_refcnt ff) (p_pc s)" using that by (auto simp: count_inv_def)
  moreover have "(?w(t := Idle)) t' \<noteq> Sleep fp" for t' fp by simp
  ultimately have "count_inv n (ff_refcnt ff - 1) (?w(t := Idle))" if "count_inv n (ff_refcnt ff) (p_pc s)"
    using count_release [of n "ff_refcnt ff" ?w t Idle] I(2) w(1,2) that by simp
  moreover have "own_inv ff (?w(t := Idle)) (p_opened s) (p_released s)" if "own_inv ff (p_pc s) (p_opened s) (p_released s)"
    using own_same [of ff ?w "p_opened s" "p_released s" t Idle] w(3) that by simp
  ultimately show ?thesis
    using proto_count_step [OF I(1) ff, of "ff_refcnt ff - 1" "s\<lparr>p_fdp := fdp, p_pc := ?w(t := Idle)\<rparr>"] fdp by simp
qed


text \<open>The actions of the thread that closes.\<close>

lemma step_close_take:
  assumes I: "proto_inv n fd s" and t: "p_pc s t = Join \<or> p_pc s t = Closing fp" and r: "close_take (p_fdp s) fd = Some (fdp, Some fp')"
  shows "proto_inv n fd (at_pc (s\<lparr>p_fdp := fdp, p_lock := Some t\<rparr>) t (Drop fp'))"
proof -
  obtain ff where wf: "fd_wf (p_fdp s)" and ff: "ff_get (p_fdp s) fd = Some ff" and c: "count_inv n (ff_refcnt ff) (p_pc s)"
    and o: "own_inv ff (p_pc s) (p_opened s) (p_released s)" using I by (rule proto_invE)
  let ?ff = "ff\<lparr>ff_file := None, ff_exclose := False\<rparr>"
  have r: "fdp = ff_put (p_fdp s) fd ?ff" "ff_file ff = Some fp'"
    using r ff by (auto simp: close_take_def split: if_splits option.splits)
  have alloc: "ff_allocated ff" using slot_open [OF wf ff r(2)] .
  have tn: "t < n" using busy_thread [OF c] t by auto
  have "count_inv n (ff_refcnt ?ff) ((p_pc s)(t := Drop fp'))" using count_same [OF c tn, of "Drop fp'"] t by auto
  moreover have "own_inv ?ff ((p_pc s)(t := Drop fp')) (p_opened s) (p_released s)" using own_take [OF o r(2) alloc] .
  ultimately show ?thesis using slot_put [OF wf ff, of ?ff] alloc r(1) by (intro proto_invI [where ff = ?ff]) simp_all
qed

lemma no_users:
  assumes "holders pcs = {}"
  shows "uses (pcs t) = None"
proof (rule ccontr)
  assume "uses (pcs t) \<noteq> None"
  then have "t \<in> holders pcs" using uses_holds by (auto simp: holders_def)
  then show False using assms by simp
qed

lemma step_ref_drop:
  assumes I: "proto_inv n fd s" "n < 2 ^ 31" and t: "p_pc s t = Drop fp" and r: "ref_drop (p_fdp s) fd = Some (fdp, r)"
  shows "proto_inv n fd (at_pc (s\<lparr>p_fdp := fdp\<rparr>) t (if r \<noteq> 0 then Mark fp else Finish fp))"
proof -
  obtain ff where ff: "ff_get (p_fdp s) fd = Some ff" and c: "count_inv n (ff_refcnt ff) (p_pc s)"
    and o: "own_inv ff (p_pc s) (p_opened s) (p_released s)" using I(1) by (rule proto_invE)
  have r: "fdp = ff_put (p_fdp s) fd (ff\<lparr>ff_refcnt := r\<rparr>)" "r = ff_refcnt ff - 1" using r ff by (auto simp: ref_drop_def)
  define c' where "c' = (if r \<noteq> 0 then Mark fp else Finish fp)"
  have c': "\<not> holds c'" "\<not> marked c'" "closes c' = Some fp" "uses c' = None" "r \<noteq> 0 \<Longrightarrow> drains c' = Some fp" "\<And>fp. c' \<noteq> Sleep fp"
    by (simp_all add: c'_def)
  have only: "has_slot (p_pc s t') \<Longrightarrow> t' = t" for t' using own_invD(1) [OF o] t by simp
  have "((p_pc s)(t := c')) t' \<noteq> Sleep fp'" for t' fp' using only [of t'] c'(6) by (cases "t' = t") auto
  then have c1: "count_inv n r ((p_pc s)(t := c'))" unfolding r(2) using count_release [OF c I(2), of t c'] t c'(1,2) by simp
  have "uses (p_pc s t') = None" if "r = 0" for t'
  proof (cases "t' = t")
    case False
    have "holders ((p_pc s)(t := c')) = {}" using count_words(1) [OF c1 I(2)] that by simp
    then show ?thesis using no_users [of "(p_pc s)(t := c')" t'] False by simp
  qed (simp add: t)
  then have "own_inv ff ((p_pc s)(t := c')) (p_opened s) (p_released s)" using own_closer [OF o, of t fp c'] t c'(3-5) by auto
  then show ?thesis
    using proto_count_step [OF I(1) ff, of r "at_pc (s\<lparr>p_fdp := fdp\<rparr>) t c'"] r(1) c1 by (simp add: c'_def [symmetric])
qed

lemma step_closing_set:
  assumes I: "proto_inv n fd s" and t: "p_pc s t = Mark fp" and r: "closing_set (p_fdp s) fd = Some fdp"
  shows "proto_inv n fd (at_pc (s\<lparr>p_fdp := fdp, p_lock := None\<rparr>) t (Wait fp))"
proof -
  obtain ff where ff: "ff_get (p_fdp s) fd = Some ff" and c: "count_inv n (ff_refcnt ff) (p_pc s)"
    and o: "own_inv ff (p_pc s) (p_opened s) (p_released s)" using I by (rule proto_invE)
  have "fdp = ff_put (p_fdp s) fd (ff\<lparr>ff_refcnt := ff_refcnt ff OR FR_CLOSING\<rparr>)" using r ff by (simp add: closing_set_def)
  then show ?thesis
    using proto_count_step [OF I ff, of "ff_refcnt ff OR FR_CLOSING" "at_pc (s\<lparr>p_fdp := fdp, p_lock := None\<rparr>) t (Wait fp)"]
      count_mark [OF c t] own_closer [OF o, of t fp "Wait fp"] t by simp
qed

lemma step_refs_drained:
  assumes I: "proto_inv n fd s" "n < 2 ^ 31" and t: "p_pc s t = Wait fp" and r: "refs_drained (p_fdp s) fd = Some d"
  shows "proto_inv n fd (at_pc (s\<lparr>p_lock := l\<rparr>) t (if d then Clear fp else Sleep fp))"
proof -
  obtain ff where ff: "ff_get (p_fdp s) fd = Some ff" and c: "count_inv n (ff_refcnt ff) (p_pc s)"
    and o: "own_inv ff (p_pc s) (p_opened s) (p_released s)" using I(1) by (rule proto_invE)
  have "d \<longleftrightarrow> ff_refcnt ff AND FR_MASK = 0" using r ff by (simp add: refs_drained_def)
  then have d: "d \<longleftrightarrow> holders (p_pc s) = {}" using count_words(1) [OF c I(2)] by blast
  have tn: "t < n" using busy_thread [OF c] t by simp
  define c' where "c' = (if d then Clear fp else Sleep fp)"
  have c': "holds c' = holds (p_pc s t)" "marked c' = marked (p_pc s t)" "closes c' = Some fp" "uses c' = None"
    "\<not> d \<Longrightarrow> drains c' = Some fp" "\<And>u. c' \<noteq> Cas u" "\<And>fp. c' = Sleep fp \<Longrightarrow> \<not> d"
    by (simp_all add: c'_def t split: if_splits)
  have "count_inv n (ff_refcnt ff) ((p_pc s)(t := c'))" using count_same [OF c tn, of c'] c'(1,2,6,7) d by blast
  moreover have "own_inv ff ((p_pc s)(t := c')) (p_opened s) (p_released s)"
    using own_closer [OF o, of t fp c'] no_users [of "p_pc s"] t c'(3-5) d by auto
  ultimately show ?thesis
    using proto_pc_step [OF I(1) ff, of "at_pc (s\<lparr>p_lock := l\<rparr>) t c'"] by (simp add: c'_def [symmetric])
qed

lemma step_closing_clear:
  assumes I: "proto_inv n fd s" "n < 2 ^ 31" and t: "p_pc s t = Clear fp" and r: "closing_clear (p_fdp s) fd = Some fdp"
  shows "proto_inv n fd (at_pc (s\<lparr>p_fdp := fdp\<rparr>) t (Finish fp))"
proof -
  obtain ff where ff: "ff_get (p_fdp s) fd = Some ff" and c: "count_inv n (ff_refcnt ff) (p_pc s)"
    and o: "own_inv ff (p_pc s) (p_opened s) (p_released s)" using I(1) by (rule proto_invE)
  have only: "has_slot (p_pc s t') \<Longrightarrow> t' = t" for t' using own_invD(1) [OF o] t by simp
  have "uses (p_pc s t') = None" for t'
  proof (rule ccontr)
    assume "uses (p_pc s t') \<noteq> None"
    then obtain fp' where "uses (p_pc s t') = Some fp'" by blast
    then obtain t1 where "drains (p_pc s t1) = Some fp'" using own_invD(2,4) [OF o] t by (metis option.distinct(1) has_slot_simps(12))
    then show False using only [OF drains_owns] t by auto
  qed
  moreover have "fdp = ff_put (p_fdp s) fd (ff\<lparr>ff_refcnt := ff_refcnt ff AND FR_MASK\<rparr>)" using r ff by (simp add: closing_clear_def)
  ultimately show ?thesis
    using proto_count_step [OF I(1) ff, of "ff_refcnt ff AND FR_MASK" "at_pc (s\<lparr>p_fdp := fdp\<rparr>) t (Finish fp)"]
      count_clear [OF c I(2) t only] own_closer [OF o, of t fp "Finish fp"] t by simp
qed


lemma step_owner_waits:
  assumes I: "proto_inv n fd s" and t: "p_pc s t = c" "c = Finish fp \<and> c' = Advlock fp \<or> c = Advlock fp \<and> c' = Finish fp"
  shows "proto_inv n fd (at_pc (s\<lparr>p_lock := l\<rparr>) t c')"
proof -
  obtain ff where ff: "ff_get (p_fdp s) fd = Some ff" and c: "count_inv n (ff_refcnt ff) (p_pc s)"
    and o: "own_inv ff (p_pc s) (p_opened s) (p_released s)" using I by (rule proto_invE)
  have tn: "t < n" using busy_thread [OF c] t by auto
  have only: "has_slot (p_pc s t') \<Longrightarrow> t' = t" for t' using own_invD(1) [OF o] t by auto
  have "uses (p_pc s t') = None" for t'
  proof (rule ccontr)
    assume "uses (p_pc s t') \<noteq> None"
    then obtain fp' where "uses (p_pc s t') = Some fp'" by blast
    moreover have "ff_file ff = None" using own_invD(2) [OF o, of t] t by auto
    ultimately obtain t1 where "drains (p_pc s t1) = Some fp'" using own_invD(4) [OF o] by fastforce
    then show False using only [OF drains_owns] t by auto
  qed
  then have "own_inv ff ((p_pc s)(t := c')) (p_opened s) (p_released s)" using own_closer [OF o, of t fp c'] t by auto
  moreover have "count_inv n (ff_refcnt ff) ((p_pc s)(t := c'))" using count_same [OF c tn, of c'] t by auto
  ultimately show ?thesis using proto_pc_step [OF I ff, of "at_pc (s\<lparr>p_lock := l\<rparr>) t c'"] by simp
qed

lemma step_unused:
  assumes I: "proto_inv n fd s" and t: "p_pc s t = Finish fp" and r: "fd_unused (p_fdp s) fd = Some fdp"
  shows "proto_inv n fd (at_pc (s\<lparr>p_fdp := fdp, p_lock := None, p_released := insert fp (p_released s)\<rparr>) t Idle)"
proof -
  obtain ff where wf: "fd_wf (p_fdp s)" and ff: "ff_get (p_fdp s) fd = Some ff" and c: "count_inv n (ff_refcnt ff) (p_pc s)"
    and o: "own_inv ff (p_pc s) (p_opened s) (p_released s)" using I by (rule proto_invE)
  have slot: "ff_file ff = None" "ff_allocated ff" "\<not> ff_exclose ff" using own_invD(2) [OF o, of t] own_invD(3) [OF o, of t fp] t by simp_all
  obtain fdp' where "fd_unused (p_fdp s) fd = Some fdp'" "fd_wf fdp'" "ff_get fdp' = (ff_get (p_fdp s))(fd \<mapsto> ff\<lparr>ff_allocated := False\<rparr>)"
    using fd_unused_spec [OF wf ff slot(2,1,3)] by blast
  then have fdp: "fd_wf fdp" "ff_get fdp fd = Some (ff\<lparr>ff_allocated := False\<rparr>)" using r by simp_all
  have tn: "t < n" using busy_thread [OF c] t by simp
  show ?thesis
    using fdp own_finish [OF o t] count_same [OF c tn, of Idle] t by (intro proto_invI [where ff = "ff\<lparr>ff_allocated := False\<rparr>"]) simp_all
qed

lemma step_used_slot:
  assumes I: "proto_inv n fd s" and t: "t < n" "p_pc s t = Idle" and r: "fd_used (p_fdp s) fd = Some fdp"
  shows "proto_inv n fd (at_pc (s\<lparr>p_fdp := fdp\<rparr>) t Opening)"
proof -
  obtain ff where wf: "fd_wf (p_fdp s)" and ff: "ff_get (p_fdp s) fd = Some ff" and c: "count_inv n (ff_refcnt ff) (p_pc s)"
    and o: "own_inv ff (p_pc s) (p_opened s) (p_released s)" using I by (rule proto_invE)
  have slot: "ff_file ff = None" "\<not> ff_allocated ff" using r ff by (auto simp: fd_used_def split: if_splits)
  obtain fdp' where "fd_used (p_fdp s) fd = Some fdp'" "fd_wf fdp'" "ff_get fdp' = (ff_get (p_fdp s))(fd \<mapsto> ff\<lparr>ff_allocated := True\<rparr>)"
    using fd_used_spec [OF wf ff slot(2)] by blast
  then have fdp: "fd_wf fdp" "ff_get fdp fd = Some (ff\<lparr>ff_allocated := True\<rparr>)" using r by simp_all
  show ?thesis
    using fdp own_alloc [OF o slot(2,1)] count_same [OF c t(1), of Opening] t(2)
    by (intro proto_invI [where ff = "ff\<lparr>ff_allocated := True\<rparr>"]) simp_all
qed

lemma step_filled:
  assumes I: "proto_inv n fd s" and t: "p_pc s t = Opening" and ff: "ff_get (p_fdp s) fd = Some ff"
  shows "proto_inv n fd (at_pc (s\<lparr>p_fdp := ff_put (p_fdp s) fd (ff\<lparr>ff_file := Some (p_opened s)\<rparr>), p_opened := Suc (p_opened s)\<rparr>) t Idle)"
proof -
  have wf: "fd_wf (p_fdp s)" and c: "count_inv n (ff_refcnt ff) (p_pc s)"
    and o: "own_inv ff (p_pc s) (p_opened s) (p_released s)" using I ff by (auto simp: proto_inv_def)
  have "ff_allocated ff" using own_invD(2) [OF o, of t] t by simp
  moreover have tn: "t < n" using busy_thread [OF c] t by simp
  ultimately show ?thesis
    using slot_put [OF wf ff, of "ff\<lparr>ff_file := Some (p_opened s)\<rparr>"] own_affix [OF o t] count_same [OF c tn, of Idle] t
    by (intro proto_invI [where ff = "ff\<lparr>ff_file := Some (p_opened s)\<rparr>"]) simp_all
qed

lemma abort_slot:
  assumes I: "proto_inv n fd s" and t: "p_pc s t = Opening" and ff: "ff_get (p_fdp s) fd = Some ff"
  obtains fdp where "fd_unused (ff_put (p_fdp s) fd (ff\<lparr>ff_exclose := False\<rparr>)) fd = Some fdp" "fd_wf fdp"
    "ff_get fdp fd = Some (ff\<lparr>ff_exclose := False, ff_allocated := False\<rparr>)"
proof -
  have wf: "fd_wf (p_fdp s)" and o: "own_inv ff (p_pc s) (p_opened s) (p_released s)" using I ff by (auto simp: proto_inv_def)
  have slot: "ff_file ff = None" "ff_allocated ff" using own_invD(2) [OF o, of t] t by simp_all
  let ?mid = "ff_put (p_fdp s) fd (ff\<lparr>ff_exclose := False\<rparr>)"
  have mid: "fd_wf ?mid" "ff_get ?mid fd = Some (ff\<lparr>ff_exclose := False\<rparr>)"
    using slot_put [OF wf ff, of "ff\<lparr>ff_exclose := False\<rparr>"] slot(2) by simp_all
  obtain fdp where "fd_unused ?mid fd = Some fdp" "fd_wf fdp"
    "ff_get fdp = (ff_get ?mid)(fd \<mapsto> ff\<lparr>ff_exclose := False, ff_allocated := False\<rparr>)"
    using fd_unused_spec [OF mid] slot by auto
  then show ?thesis using that [of fdp] by simp
qed

lemma step_give_up:
  assumes I: "proto_inv n fd s" and t: "p_pc s t = Opening" and ff: "ff_get (p_fdp s) fd = Some ff"
    and r: "fd_unused (ff_put (p_fdp s) fd (ff\<lparr>ff_exclose := False\<rparr>)) fd = Some fdp"
  shows "proto_inv n fd (at_pc (s\<lparr>p_fdp := fdp\<rparr>) t Idle)"
proof -
  have c: "count_inv n (ff_refcnt ff) (p_pc s)" and o: "own_inv ff (p_pc s) (p_opened s) (p_released s)"
    using I ff by (auto simp: proto_inv_def)
  have tn: "t < n" using busy_thread [OF c] t by simp
  have "fd_wf fdp" "ff_get fdp fd = Some (ff\<lparr>ff_exclose := False, ff_allocated := False\<rparr>)" using abort_slot [OF I t ff] r by auto
  then show ?thesis using own_abort [OF o t] count_same [OF c tn, of Idle] t
    by (intro proto_invI [where ff = "ff\<lparr>ff_exclose := False, ff_allocated := False\<rparr>"]) simp_all
qed

lemma proto_step:
  assumes "fd_step n fd s s'" and I: "proto_inv n fd s" and n: "n < 2 ^ 31"
  shows "proto_inv n fd s'"
  using assms(1)
proof cases
  case (step_get t fdp)
  then show ?thesis using step_ref_take [OF I n] by simp
next
  case (step_put t ff)
  obtain ff' where "ff_get (p_fdp s) fd = Some ff'" "count_inv n (ff_refcnt ff') (p_pc s)" using I by (rule proto_invE)
  then have "(ff_refcnt ff AND FR_MASK) AND FR_CLOSING = 0" using count_words(4) [OF _ n] step_put by simp
  then show ?thesis using step_user [OF I, of t "Cas (ff_refcnt ff AND FR_MASK)"] step_put by simp
next
  case (step_cas t u fdp v)
  then show ?thesis using step_ref_cas [OF I n] by blast
next
  case (step_join t fp fdp)
  then show ?thesis using step_close_none [OF I n] by blast
next
  case (step_take t fp fdp fp')
  then show ?thesis using step_close_take [OF I] by blast
next
  case (step_drop t fp fdp r)
  then show ?thesis using step_ref_drop [OF I n] by blast
next
  case (step_mark t fp fdp)
  then show ?thesis using step_closing_set [OF I] by blast
next
  case (step_wait t fp d)
  then show ?thesis using step_refs_drained [OF I n] by blast
next
  case (step_clear t fp fdp)
  then show ?thesis using step_closing_clear [OF I n] by blast
next
  case (step_unlock t fp)
  then show ?thesis using step_owner_waits [OF I] by blast
next
  case (step_relock t fp)
  then show ?thesis using step_owner_waits [OF I] by blast
next
  case (step_finish t fp fdp)
  then show ?thesis using step_unused [OF I] by blast
next
  case (step_alloc t fdp)
  then show ?thesis using step_used_slot [OF I] by blast
next
  case (step_affix t ff)
  then show ?thesis using step_filled [OF I] by blast
next
  case (step_abort t ff fdp)
  then show ?thesis using step_give_up [OF I] by blast
next
  case (step_file t ff fp)
  then show ?thesis using step_user [OF I, of t "Using fp"] by auto
next
  case (step_nofile t ff)
  then show ?thesis using step_user [OF I, of t Put] by simp
next
  case (step_used t fp)
  then show ?thesis using step_user [OF I, of t Put] by simp
next
  case (step_close t fp)
  then show ?thesis using step_user [OF I, of t "Closing fp"] by simp
qed

text \<open>The slot exists and is closed at the start.\<close>

definition slot_closed :: "filedesc \<Rightarrow> nat \<Rightarrow> bool" where
  "slot_closed fdp fd \<longleftrightarrow> fd_wf fdp \<and> (\<exists>ff. ff_get fdp fd = Some ff \<and> ff_file ff = None \<and> ff_refcnt ff = 0)"

lemma proto_init_inv:
  assumes "slot_closed fdp fd"
  shows "proto_inv n fd (proto_init fdp)"
  using assms by (auto simp: slot_closed_def proto_inv_def proto_init_def count_inv_def own_inv_def holders_def)

lemma proto_reach:
  assumes "fd_reach n fd fdp s" "slot_closed fdp fd" "n < 2 ^ 31"
  shows "proto_inv n fd s"
  using assms(1) by (induction rule: rtranclp_induct) (use proto_init_inv [OF assms(2)] proto_step [OF _ _ assms(3)] in blast)+


subsection \<open>Consequences\<close>

lemma used_not_released:
  assumes "proto_inv n fd s" "p_pc s t = Using fp"
  shows "fp \<notin> p_released s"
proof -
  obtain ff where o: "own_inv ff (p_pc s) (p_opened s) (p_released s)" using assms(1) by (rule proto_invE)
  have "uses (p_pc s t) = Some fp" using assms(2) by simp
  then show ?thesis using own_invD(3,4,5) [OF o] drains_closes by metis
qed

lemma sleeper_waits:
  assumes "proto_inv n fd s" "p_pc s t = Sleep fp"
  shows "\<exists>t'<n. holds (p_pc s t')"
proof -
  obtain ff where "ff_get (p_fdp s) fd = Some ff" and c: "count_inv n (ff_refcnt ff) (p_pc s)" using assms(1) by (rule proto_invE)
  then obtain t' where "holds (p_pc s t')" using assms(2) by (auto simp: count_inv_def holders_def)
  then show ?thesis using busy_thread [OF c, of t'] by fastforce
qed

text \<open>The assertions: in \<open>fd_close\<close>, in \<open>fd_putfile\<close>, in \<open>fd_unused\<close>, and in \<open>fd_affix\<close>.\<close>

lemma proto_asserts:
  assumes I: "proto_inv n fd s" and n: "n < 2 ^ 31" and ff: "ff_get (p_fdp s) fd = Some ff"
  shows "p_pc s t = Join \<or> p_pc s t = Closing fp \<Longrightarrow> close_take (p_fdp s) fd \<noteq> None"
    "p_pc s t = Put \<or> p_pc s t = Cas u \<Longrightarrow> ff_refcnt ff AND FR_MASK \<noteq> 0"
    "p_pc s t = Finish fp \<Longrightarrow> fd_unused (p_fdp s) fd \<noteq> None"
    "p_pc s t = Opening \<Longrightarrow> ff_file ff = None \<and> ff_allocated ff \<and>
      fd_unused (ff_put (p_fdp s) fd (ff\<lparr>ff_exclose := False\<rparr>)) fd \<noteq> None"
proof -
  have wf: "fd_wf (p_fdp s)" and c: "count_inv n (ff_refcnt ff) (p_pc s)" and o: "own_inv ff (p_pc s) (p_opened s) (p_released s)"
    using I ff by (auto simp: proto_inv_def)
  have ref: "ff_refcnt ff AND FR_MASK \<noteq> 0" if "holds (p_pc s t)" using count_words(1) [OF c n] that by (auto simp: holders_def)
  show "close_take (p_fdp s) fd \<noteq> None" if t: "p_pc s t = Join \<or> p_pc s t = Closing fp"
  proof -
    have "\<not> marked (p_pc s t')" if "ff_file ff \<noteq> None" for t' using own_invD(2) [OF o marked_owns, of t'] that by auto
    then have "ff_refcnt ff AND FR_CLOSING = 0" if "ff_file ff \<noteq> None" using count_words(2) [OF c n] that by blast
    moreover have "ff_refcnt ff AND FR_MASK \<noteq> 0" using ref t by auto
    ultimately show ?thesis by (cases "ff_file ff") (simp_all add: close_take_def ff)
  qed
  show "ff_refcnt ff AND FR_MASK \<noteq> 0" if "p_pc s t = Put \<or> p_pc s t = Cas u" using ref that by auto
  show "fd_unused (p_fdp s) fd \<noteq> None" if t: "p_pc s t = Finish fp"
  proof -
    have "ff_file ff = None" "ff_allocated ff" "\<not> ff_exclose ff" using own_invD(2) [OF o, of t] own_invD(3) [OF o, of t fp] t by simp_all
    then show ?thesis using fd_unused_spec [OF wf ff] by (metis option.distinct(1))
  qed
  show "ff_file ff = None \<and> ff_allocated ff \<and> fd_unused (ff_put (p_fdp s) fd (ff\<lparr>ff_exclose := False\<rparr>)) fd \<noteq> None"
    if "p_pc s t = Opening" using own_invD(2) [OF o, of t] abort_slot [OF I that ff] that by auto
qed

subsection \<open>Running a schedule\<close>

definition fd_act_close :: "nat \<Rightarrow> nat \<Rightarrow> proto \<Rightarrow> proto option" where
  "fd_act_close fd t s =
     (if p_lock s = None then map_option (\<lambda>(fdp, r).
        case r of
          None \<Rightarrow> s\<lparr>p_fdp := fdp, p_pc := (wake (p_pc s))(t := Idle)\<rparr>
        | Some fp \<Rightarrow> at_pc (s\<lparr>p_fdp := fdp, p_lock := Some t\<rparr>) t (Drop fp)) (close_take (p_fdp s) fd)
      else None)"

text \<open>The next action of a thread; \<open>b\<close> chooses where the program or the process decides: to open or to
  look up, to close or to give back, to drop POSIX locks or not, to give up a descriptor that is not open
  yet or to open it.\<close>

definition fd_act :: "nat \<Rightarrow> nat \<times> bool \<Rightarrow> proto \<Rightarrow> proto option" where
  "fd_act fd = (\<lambda>(t, b) s.
     (case p_pc s t of
        Idle \<Rightarrow>
          if b then if p_lock s = None then map_option (\<lambda>fdp. at_pc (s\<lparr>p_fdp := fdp\<rparr>) t Opening) (fd_used (p_fdp s) fd) else None
          else map_option (\<lambda>fdp. at_pc (s\<lparr>p_fdp := fdp\<rparr>) t Got) (ref_take (p_fdp s) fd)
      | Got \<Rightarrow> map_option (\<lambda>ff. at_pc s t (case ff_file ff of None \<Rightarrow> Put | Some fp \<Rightarrow> Using fp)) (ff_get (p_fdp s) fd)
      | Using fp \<Rightarrow> Some (at_pc s t (if b then Closing fp else Put))
      | Put \<Rightarrow> map_option (\<lambda>ff. at_pc s t (Cas (ff_refcnt ff AND FR_MASK))) (ff_get (p_fdp s) fd)
      | Cas u \<Rightarrow> map_option (\<lambda>(fdp, v). at_pc (s\<lparr>p_fdp := fdp\<rparr>) t
            (if u = v then Idle else if v AND FR_CLOSING \<noteq> 0 then Join else Cas v)) (ref_cas (p_fdp s) fd u)
      | Closing _ \<Rightarrow> fd_act_close fd t s
      | Join \<Rightarrow> fd_act_close fd t s
      | Drop fp \<Rightarrow> map_option (\<lambda>(fdp, r). at_pc (s\<lparr>p_fdp := fdp\<rparr>) t (if r \<noteq> 0 then Mark fp else Finish fp)) (ref_drop (p_fdp s) fd)
      | Mark fp \<Rightarrow> map_option (\<lambda>fdp. at_pc (s\<lparr>p_fdp := fdp, p_lock := None\<rparr>) t (Wait fp)) (closing_set (p_fdp s) fd)
      | Wait fp \<Rightarrow> if p_lock s = None then map_option (\<lambda>d. at_pc (s\<lparr>p_lock := (if d then Some t else None)\<rparr>) t (if d then Clear fp else Sleep fp))
            (refs_drained (p_fdp s) fd) else None
      | Sleep _ \<Rightarrow> None
      | Clear fp \<Rightarrow> map_option (\<lambda>fdp. at_pc (s\<lparr>p_fdp := fdp\<rparr>) t (Finish fp)) (closing_clear (p_fdp s) fd)
      | Finish fp \<Rightarrow>
          if b then Some (at_pc (s\<lparr>p_lock := None\<rparr>) t (Advlock fp))
          else map_option (\<lambda>fdp. at_pc (s\<lparr>p_fdp := fdp, p_lock := None, p_released := insert fp (p_released s)\<rparr>) t Idle) (fd_unused (p_fdp s) fd)
      | Advlock fp \<Rightarrow> if p_lock s = None then Some (at_pc (s\<lparr>p_lock := Some t\<rparr>) t (Finish fp)) else None
      | Opening \<Rightarrow>
          if b then
            if p_lock s = None then map_option (\<lambda>fdp. at_pc (s\<lparr>p_fdp := fdp\<rparr>) t Idle)
              (do { ff \<leftarrow> ff_get (p_fdp s) fd; fd_unused (ff_put (p_fdp s) fd (ff\<lparr>ff_exclose := False\<rparr>)) fd }) else None
          else map_option (\<lambda>ff. at_pc (s\<lparr>p_fdp := ff_put (p_fdp s) fd (ff\<lparr>ff_file := Some (p_opened s)\<rparr>), p_opened := Suc (p_opened s)\<rparr>) t Idle)
            (ff_get (p_fdp s) fd)))"


lemma fd_act_close_step:
  assumes act: "fd_act_close fd t s = Some s'" and t: "p_pc s t = Join \<or> p_pc s t = Closing fp"
  shows "fd_step n fd s s'"
proof -
  obtain fdp r where r: "p_lock s = None" "close_take (p_fdp s) fd = Some (fdp, r)"
    using act by (auto simp: fd_act_close_def split: if_splits)
  show ?thesis
  proof (cases r)
    case None
    then show ?thesis using step_join [OF t r(1), of fd fdp n] r act by (simp add: fd_act_close_def)
  next
    case (Some fp')
    then show ?thesis using step_take [OF t r(1), of fd fdp fp' n] r act by (simp add: fd_act_close_def)
  qed
qed

lemmas fd_steps = fd_step.intros [simplified]

lemma fd_act_step:
  assumes act: "fd_act fd (t, b) s = Some s'" and t: "t < n"
  shows "fd_step n fd s s'"
proof (cases "p_pc s t")
  case Idle
  then show ?thesis using act t by (auto simp: fd_act_def split: if_splits intro: fd_steps)
next
  case Got
  then obtain ff where ff: "ff_get (p_fdp s) fd = Some ff" "s' = at_pc s t (case ff_file ff of None \<Rightarrow> Put | Some fp \<Rightarrow> Using fp)"
    using act by (auto simp: fd_act_def)
  then show ?thesis using Got by (cases "ff_file ff") (auto intro: fd_steps)
next
  case (Using fp)
  then show ?thesis using act by (auto simp: fd_act_def intro: fd_steps)
next
  case Put
  then show ?thesis using act by (auto simp: fd_act_def intro: fd_steps)
next
  case (Cas u)
  obtain fdp v where r: "ref_cas (p_fdp s) fd u = Some (fdp, v)"
    using act Cas by (cases "ref_cas (p_fdp s) fd u") (auto simp: fd_act_def)
  have s': "s' = at_pc (s\<lparr>p_fdp := fdp\<rparr>) t (if u = v then Idle else if v AND FR_CLOSING \<noteq> 0 then Join else Cas v)"
    using act Cas r by (simp add: fd_act_def)
  show ?thesis unfolding s' by (rule step_cas [OF Cas r])
next
  case (Closing fp)
  then show ?thesis using fd_act_close_step [of fd t s s' fp n] act by (simp add: fd_act_def)
next
  case Join
  then show ?thesis using fd_act_close_step [of fd t s s' 0 n] act by (simp add: fd_act_def)
next
  case (Drop fp)
  then show ?thesis using act by (auto simp: fd_act_def intro: fd_steps)
next
  case (Mark fp)
  then show ?thesis using act by (auto simp: fd_act_def intro: fd_steps)
next
  case (Wait fp)
  then obtain d where "p_lock s = None" "refs_drained (p_fdp s) fd = Some d"
    "s' = at_pc (s\<lparr>p_lock := (if d then Some t else None)\<rparr>) t (if d then Clear fp else Sleep fp)"
    using act by (auto simp: fd_act_def split: if_splits)
  then show ?thesis using step_wait [of s t fp fd d n] Wait by simp
next
  case (Sleep fp)
  then show ?thesis using act by (simp add: fd_act_def)
next
  case (Clear fp)
  then show ?thesis using act by (auto simp: fd_act_def intro: fd_steps)
next
  case (Finish fp)
  then show ?thesis using act by (auto simp: fd_act_def split: if_splits intro: fd_steps)
next
  case (Advlock fp)
  then show ?thesis using act by (auto simp: fd_act_def split: if_splits intro: fd_steps)
next
  case Opening
  then show ?thesis using act by (auto simp: fd_act_def bind_eq_Some_conv split: if_splits intro: fd_steps)
qed

fun fd_acts :: "nat \<Rightarrow> (nat \<times> bool) list \<Rightarrow> proto \<Rightarrow> proto option" where
  "fd_acts fd [] s = Some s"
| "fd_acts fd (a # as) s = Option.bind (fd_act fd a s) (fd_acts fd as)"

lemma fd_acts_reach:
  "fd_acts fd as s = Some s' \<Longrightarrow> list_all (\<lambda>(t, b). t < n) as \<Longrightarrow> (fd_step n fd)\<^sup>*\<^sup>* s s'"
proof (induction "as" arbitrary: s)
  case (Cons a "as")
  obtain s1 where s1: "fd_act fd a s = Some s1" "fd_acts fd as s1 = Some s'" using Cons.prems(1) by (auto simp: bind_eq_Some_conv)
  obtain t b where a: "a = (t, b)" by (cases a)
  have "fd_step n fd s s1" using fd_act_step [of fd t b s s1 n] s1(1) Cons.prems(2) a by simp
  then show ?case using Cons.IH [OF s1(2)] Cons.prems(2) by (auto intro: converse_rtranclp_into_rtranclp)
qed simp


section \<open>Properties\<close>

text \<open>Three threads: 0 opens, closes and opens again, 1 uses the descriptor, 2 looks it up late.\<close>

definition late_lookup :: "(nat \<times> bool) list" where
  "late_lookup = [(0, True), (0, False), (0, False), (0, False), (1, False), (1, False),
     (0, True), (0, False), (0, False), (0, False), (1, False), (1, False), (1, False), (1, False), (0, False),
     (2, False), (2, False), (2, False), (2, False),
     (0, False), (0, False), (0, True), (0, False)]"

lemma init_slot_closed: "slot_closed fd_init 0"
proof -
  have "ff_get fd_init 0 = Some fdfile_ctor" by (simp add: fd_init_def filedesc_ctor_def ff_get_def aget_def nth_append)
  then show ?thesis using fd_wf_init by (simp add: slot_closed_def)
qed

lemma late_lookup_eval:
  "case fd_acts 0 late_lookup (proto_init fd_init) of None \<Rightarrow> False
   | Some s \<Rightarrow> p_pc s 0 = Idle \<and> p_pc s 1 = Idle \<and> p_pc s 2 = Join \<and> p_released s = {0} \<and>
       map_option ff_file (ff_get (p_fdp s) 0) = Some (Some 1) \<and>
       (case fd_acts 0 [(2, False), (2, False), (2, False)] s of None \<Rightarrow> False | Some s' \<Rightarrow> p_released s' = {0, 1})"
  by code_simp

lemma use_eval:
  "case fd_acts 0 (take 6 late_lookup) (proto_init fd_init) of None \<Rightarrow> False | Some s \<Rightarrow> p_pc s 1 = Using 0"
  by code_simp

lemma sleep_eval:
  "case fd_acts 0 (take 10 late_lookup @ [(0, False)]) (proto_init fd_init) of None \<Rightarrow> False | Some s \<Rightarrow> p_pc s 0 = Sleep 0"
  by code_simp

text \<open>C11. While a thread uses the file that \<open>fd_getfile\<close> returned to it, the reference of the descriptor to that
  file is not dropped, whatever other threads of the process do with the descriptor: look it up, give it
  back, close it, open it again.\<close>

theorem fd_used_file_kept:
  assumes "fd_reach n fd fdp s" "slot_closed fdp fd" "n < 2 ^ 31" "p_pc s t = Using fp"
  shows "fp \<notin> p_released s"
  using used_not_released [OF proto_reach [OF assms(1-3)] assms(4)] .

theorem fd_used_file_kept_witness:
  "\<exists>s. fd_reach 3 0 fd_init s \<and> slot_closed fd_init 0 \<and> p_pc s 1 = Using 0 \<and> 0 \<notin> p_released s"
proof -
  obtain s where s: "fd_acts 0 (take 6 late_lookup) (proto_init fd_init) = Some s" "p_pc s 1 = Using 0"
    using use_eval by (auto split: option.splits)
  have "fd_reach 3 0 fd_init s" using fd_acts_reach [OF s(1), of 3] by (simp add: late_lookup_def)
  then show ?thesis using fd_used_file_kept [of 3 0 fd_init s 1 0] init_slot_closed s(2) by auto
qed

text \<open>C12. A thread that sleeps in \<open>fd_close\<close> has not been forgotten: another thread still holds a reference, and
  gives it back with the lock held and a broadcast.\<close>

theorem fd_close_not_forgotten:
  assumes "fd_reach n fd fdp s" "slot_closed fdp fd" "n < 2 ^ 31" "p_pc s t = Sleep fp"
  shows "\<exists>t'<n. holds (p_pc s t')"
  using sleeper_waits [OF proto_reach [OF assms(1-3)] assms(4)] .

theorem fd_close_not_forgotten_witness:
  "\<exists>s. fd_reach 3 0 fd_init s \<and> slot_closed fd_init 0 \<and> p_pc s 0 = Sleep 0 \<and> (\<exists>t'<3. holds (p_pc s t'))"
proof -
  obtain s where s: "fd_acts 0 (take 10 late_lookup @ [(0, False)]) (proto_init fd_init) = Some s" "p_pc s 0 = Sleep 0"
    using sleep_eval by (auto split: option.splits)
  have "fd_reach 3 0 fd_init s" using fd_acts_reach [OF s(1), of 3] by (simp add: late_lookup_def)
  then show ?thesis using fd_close_not_forgotten [of 3 0 fd_init s 0 0] init_slot_closed s(2) by auto
qed

text \<open>No assertion of \<open>fd_close\<close>, \<open>fd_putfile\<close>, \<open>fd_unused\<close>, \<open>fd_affix\<close> and \<open>fd_abort\<close> about the slot fails, however the threads of
  a process interleave.\<close>

theorem fd_threads_no_panic:
  assumes "fd_reach n fd fdp s" "slot_closed fdp fd" "n < 2 ^ 31"
  shows "\<exists>ff. ff_get (p_fdp s) fd = Some ff \<and>
    (p_pc s t = Join \<or> p_pc s t = Closing fp \<longrightarrow> close_take (p_fdp s) fd \<noteq> None) \<and>
    (p_pc s t = Put \<or> p_pc s t = Cas u \<longrightarrow> ff_refcnt ff AND FR_MASK \<noteq> 0) \<and>
    (p_pc s t = Finish fp \<longrightarrow> fd_unused (p_fdp s) fd \<noteq> None) \<and>
    (p_pc s t = Opening \<longrightarrow> ff_file ff = None \<and> ff_allocated ff \<and>
      fd_unused (ff_put (p_fdp s) fd (ff\<lparr>ff_exclose := False\<rparr>)) fd \<noteq> None)"
proof -
  note I = proto_reach [OF assms]
  obtain ff where ff: "ff_get (p_fdp s) fd = Some ff" using I by (rule proto_invE)
  show ?thesis using proto_asserts [OF I assms(3) ff] ff by blast
qed

text \<open>C14. A thread that only looked the descriptor up can close a file it has nothing to do with: it takes a
  reference after the closing thread has seen the count drop to zero and before that thread clears
  \<open>FR_CLOSING\<close>, decides in \<open>fd_putfile\<close> to join it, and calls \<open>fd_close\<close> when the slot has been released and
  opened again.  In the state reached here the descriptor refers to a second file, no thread has asked
  to close it, and the third thread releases it.\<close>

theorem fd_putfile_closes_other:
  "\<exists>s s'. fd_reach 3 0 fd_init s \<and> p_pc s 0 = Idle \<and> p_pc s 1 = Idle \<and> p_pc s 2 = Join \<and>
     map_option ff_file (ff_get (p_fdp s) 0) = Some (Some 1) \<and> 1 \<notin> p_released s \<and>
     (fd_step 3 0)\<^sup>*\<^sup>* s s' \<and> 1 \<in> p_released s'"
proof -
  obtain s where s: "fd_acts 0 late_lookup (proto_init fd_init) = Some s" using late_lookup_eval by (auto split: option.splits)
  obtain s' where s': "fd_acts 0 [(2, False), (2, False), (2, False)] s = Some s'" "p_released s' = {0, 1}"
    using late_lookup_eval s by (auto split: option.splits)
  have "fd_reach 3 0 fd_init s" using fd_acts_reach [OF s, of 3] by (simp add: late_lookup_def)
  moreover have "(fd_step 3 0)\<^sup>*\<^sup>* s s'" using fd_acts_reach [OF s'(1), of 3] by simp
  ultimately show ?thesis using late_lookup_eval s s'(2) by (intro exI [of _ s] exI [of _ s']) simp
qed

end
